(* ===== verification/QW_Prelude.thy ===== *)
theory QW_Prelude
  imports Main "HOL-Library.AList" "HOL-Library.Monad_Syntax"
begin

section \<open>Prelude: outcomes, loops over a mutable state, list facts\<close>

text \<open>
  What the component theories share. A C++ function that mutates an object and may throw is a
  function from the object's state to a pair of an outcome and the state it leaves behind, also
  when it throws: \<open>'s \<Rightarrow> (exn + 'a) \<times> 's\<close>. The state of a throw matters, because the server catches
  exceptions and goes on with the objects as they are. \<open>exn\<close> separates a thrown
  \<open>std::runtime_error\<close> from an access the language leaves undefined (a negative vector index), so
  that a theorem that an operation returns \<open>Inr\<close> also says that nothing undefined happened.
\<close>

datatype exn = Runtime_error string | Undefined_behaviour

type_synonym ('s, 'a) prog = "'s \<Rightarrow> (exn + 'a) \<times> 's"

named_theorems frame_simps \<open>fields an operation leaves alone\<close>
named_theorems wf_intros \<open>operations that keep a well-formedness invariant\<close>

subsection \<open>Loops\<close>

text \<open>A \<open>for\<close> loop that collects one result per element and stops at the first throw.\<close>

fun for_each :: "('x \<Rightarrow> ('s, 'a) prog) \<Rightarrow> 'x list \<Rightarrow> ('s, 'a list) prog" where
  "for_each f [] s = (Inr [], s)"
| "for_each f (x # xs) s =
     (case f x s of
        (Inl e, s') \<Rightarrow> (Inl e, s')
      | (Inr y, s') \<Rightarrow>
          (case for_each f xs s' of
             (Inl e, s'') \<Rightarrow> (Inl e, s'')
           | (Inr ys, s'') \<Rightarrow> (Inr (y # ys), s'')))"

text \<open>
  The rule for such a loop: an assertion indexed by the elements already processed, with their
  results, that every iteration extends by one.
\<close>

lemma for_each_rule:
  assumes step: "\<And>pre x post s. ys0 @ xs = pre @ x # post \<Longrightarrow> length ys0 \<le> length pre \<Longrightarrow>
      \<forall>rs. length rs = length pre \<longrightarrow> I pre rs s \<longrightarrow>
        (\<exists>r s'. f x s = (Inr r, s') \<and> I (pre @ [x]) (rs @ [r]) s')"
    and init: "I ys0 rs0 s0" "length rs0 = length ys0"
  shows "\<exists>rs s'. for_each f xs s0 = (Inr rs, s') \<and> length rs = length xs \<and> I (ys0 @ xs) (rs0 @ rs) s'"
  using assms
proof (induction xs arbitrary: ys0 rs0 s0)
  case Nil
  then show ?case by simp
next
  case (Cons x xs)
  from Cons.prems(1)[of ys0 x xs s0] Cons.prems(2,3)
  obtain r s1 where 1: "f x s0 = (Inr r, s1)" "I (ys0 @ [x]) (rs0 @ [r]) s1"
    by auto
  have "\<exists>rs s'. for_each f xs s1 = (Inr rs, s') \<and> length rs = length xs \<and>
      I ((ys0 @ [x]) @ xs) ((rs0 @ [r]) @ rs) s'"
  proof (rule Cons.IH)
    show "I (ys0 @ [x]) (rs0 @ [r]) s1" by (rule 1(2))
    show "length (rs0 @ [r]) = length (ys0 @ [x])" using Cons.prems(3) by simp
    fix pre y post s
    assume "(ys0 @ [x]) @ xs = pre @ y # post" "length (ys0 @ [x]) \<le> length pre"
    then show "\<forall>rs. length rs = length pre \<longrightarrow> I pre rs s \<longrightarrow>
        (\<exists>r s'. f y s = (Inr r, s') \<and> I (pre @ [y]) (rs @ [r]) s')"
      using Cons.prems(1)[of pre y post s] by simp
  qed
  then obtain rs s' where "for_each f xs s1 = (Inr rs, s')" "length rs = length xs"
    "I (ys0 @ x # xs) (rs0 @ r # rs) s'"
    by auto
  with 1 show ?case by (intro exI[of _ "r # rs"] exI[of _ s']) simp
qed

text \<open>An invariant of the state alone survives a loop, whether it throws or not.\<close>

lemma for_each_inv:
  assumes "\<And>x s. x \<in> set xs \<Longrightarrow> I s \<Longrightarrow> I (snd (f x s))" "I s0"
  shows "I (snd (for_each f xs s0))"
  using assms
proof (induction xs arbitrary: s0)
  case Nil
  then show ?case by simp
next
  case (Cons x xs)
  obtain o1 s1 where 1: "f x s0 = (o1, s1)" by (cases "f x s0")
  with Cons.prems have i1: "I s1" by (metis list.set_intros(1) snd_conv)
  have rest: "I (snd (for_each f xs s1))"
    using Cons.IH[of s1] Cons.prems(1) i1 by simp
  show ?case
    using 1 i1 rest by (auto split: sum.splits prod.splits)
qed

subsection \<open>Lists\<close>

lemma nth_list_update_if: "i < length xs \<Longrightarrow> xs[i := v] ! j = (if j = i then v else xs ! j)"
  by simp

lemma list_update_beyond_id: "length xs \<le> i \<Longrightarrow> xs[i := v] = xs"
  by (simp add: list_update_beyond)

lemma div_mult_bound: "(l::nat) < n \<Longrightarrow> e < m \<Longrightarrow> l * m + e < n * m"
proof -
  assume "l < n" "e < m"
  then have "l * m + e < Suc l * m" by simp
  also have "\<dots> \<le> n * m" using \<open>l < n\<close> by (intro mult_le_mono1) simp
  finally show ?thesis .
qed

text \<open>A write of \<open>n\<close> elements at offset \<open>a\<close> of a buffer, and what a read of as many elements then sees.\<close>

lemma slice_put:
  assumes "a + n \<le> length d" "length bs = n"
  shows "take n (drop a (take a d @ bs @ drop (a + n) d)) = bs"
    "length (take a d @ bs @ drop (a + n) d) = length d"
    "j + n \<le> a \<or> a + n \<le> j \<Longrightarrow> take n (drop j (take a d @ bs @ drop (a + n) d)) = take n (drop j d)"
proof -
  have la: "length (take a d) = a" using assms by simp
  show "take n (drop a (take a d @ bs @ drop (a + n) d)) = bs"
    "length (take a d @ bs @ drop (a + n) d) = length d" using assms la by simp_all
  assume "j + n \<le> a \<or> a + n \<le> j"
  then show "take n (drop j (take a d @ bs @ drop (a + n) d)) = take n (drop j d)"
  proof
    assume j: "j + n \<le> a"
    have "take n (drop j (take a d @ X)) = take n (drop j (take a d))" for X
      using j la by (simp del: length_take)
    also have "take n (drop j (take a d)) = take n (drop j d)" using j by (simp add: drop_take min_def)
    finally show ?thesis .
  next
    assume j: "a + n \<le> j"
    have "drop j (take a d @ bs @ drop (a + n) d) = drop (j - (a + n)) (drop (a + n) d)"
      using assms j la by simp
    then show ?thesis using j by simp
  qed
qed

lemma slice_apart: "i \<noteq> j \<Longrightarrow> j * n + n \<le> i * n \<or> i * n + n \<le> j * (n::nat)"
proof -
  have *: "k * n + n \<le> l * n" if "k < l" for k l :: nat
    using mult_le_mono1[of "Suc k" l n] that by simp
  assume "i \<noteq> j"
  then show ?thesis using *[of i j] *[of j i] by linarith
qed

end
