(* ===== verification/Expert_Pool.thy ===== *)
theory Expert_Pool
  imports QW_Prelude
begin

section \<open>Slot pools of the expert cache\<close>

text \<open>
  \<open>ExpertCache::Pool\<close> of \<open>core/expert_cache.h\<close>: a tensor cut into slots, the two residency maps
  (\<open>key2slot\<close> and its inverse \<open>slot2key\<close>), the dense row \<open>slot_of\<close> that the fused graph reads, the
  LRU clocks, the access counts, and per layer the slots it holds and may hold. Keys are
  \<open>layer * n_expert + expert\<close>. The code's \<open>-1\<close> for an empty slot is \<open>None\<close>; quotas keep their \<open>-1\<close>,
  because the victim choice compares occupancy with it. The \<open>unordered_map\<close>s are association lists
  with distinct keys. Clock values are unbounded (the code's are 64-bit counters).

  The choice of a victim (\<open>pick_victim\<close>) and the two halves of replacing a slot's occupant
  (\<open>pool_drop\<close>, \<open>pool_claim\<close>) are pool functions; the cache threads its clock and statistics
  through them.
\<close>

datatype role = GATE | UP | DOWN

record 'b pool =
  pl_t :: "'b list list"
  pl_nb2 :: nat
  pl_role :: role
  pl_n_slots :: nat
  pl_key2slot :: "(nat \<times> nat) list"
  pl_slot2key :: "nat option list"
  pl_clk :: "nat list"
  pl_count :: "(nat \<times> nat) list"
  pl_slot_of :: "nat list"
  pl_quota :: "int list"
  pl_occ :: "int list"

subsection \<open>Choosing a victim\<close>

text \<open>
  The first loop of \<open>pick_victim\<close>: it returns the first free slot it meets, and otherwise keeps the
  least recently used slot among those \<open>elig\<close> admits. \<open>None\<close> is the initial \<open>victim = -1\<close>,
  \<open>best = UINT64_MAX\<close>.
\<close>

definition older :: "'b pool \<Rightarrow> nat \<Rightarrow> nat option \<Rightarrow> bool" where
  "older p s v = (case v of None \<Rightarrow> True | Some w \<Rightarrow> pl_clk p ! s < pl_clk p ! w)"

fun victim_scan :: "(nat \<Rightarrow> bool) \<Rightarrow> 'b pool \<Rightarrow> nat list \<Rightarrow> nat option \<Rightarrow> nat + nat option" where
  "victim_scan elig p [] v = Inr v"
| "victim_scan elig p (s # ss) v =
     (case pl_slot2key p ! s of
        None \<Rightarrow> Inl s
      | Some k \<Rightarrow> victim_scan elig p ss (if elig k \<and> older p s v then Some s else v))"

text \<open>The fallback loop: plain LRU over every slot.\<close>

fun lru_scan :: "'b pool \<Rightarrow> nat list \<Rightarrow> nat option \<Rightarrow> nat option" where
  "lru_scan p [] v = v"
| "lru_scan p (s # ss) v = lru_scan p ss (if older p s v then Some s else v)"

definition at_quota :: "bool \<Rightarrow> 'b pool \<Rightarrow> nat \<Rightarrow> bool" where
  "at_quota quota_on p layer =
     (quota_on \<and> pl_quota p ! layer \<ge> 0 \<and> pl_occ p ! layer \<ge> pl_quota p ! layer)"

definition eligible :: "bool \<Rightarrow> nat \<Rightarrow> 'b pool \<Rightarrow> nat \<Rightarrow> nat \<Rightarrow> bool" where
  "eligible quota_on n_expert p layer k =
     (quota_on \<longrightarrow>
        (if at_quota quota_on p layer then k div n_expert = layer
         else \<not> pl_occ p ! (k div n_expert) \<le> pl_quota p ! (k div n_expert)))"

definition pick_victim :: "bool \<Rightarrow> nat \<Rightarrow> 'b pool \<Rightarrow> nat \<Rightarrow> nat option" where
  "pick_victim quota_on n_expert p layer =
     (case victim_scan (eligible quota_on n_expert p layer) p [0..<pl_n_slots p] None of
        Inl s \<Rightarrow> Some s
      | Inr (Some v) \<Rightarrow> Some v
      | Inr None \<Rightarrow> lru_scan p [0..<pl_n_slots p] None)"

subsection \<open>Replacing the occupant of a slot\<close>

text \<open>The pool's part of \<open>drop_slot\<close>, for an occupied slot with key \<open>k\<close>.\<close>

definition pool_drop :: "nat \<Rightarrow> nat \<Rightarrow> nat \<Rightarrow> 'b pool \<Rightarrow> 'b pool" where
  "pool_drop n_expert slot k p =
     p\<lparr>pl_occ := (pl_occ p)[k div n_expert := pl_occ p ! (k div n_expert) - 1],
       pl_slot_of := (pl_slot_of p)[k := 0],
       pl_key2slot := AList.delete k (pl_key2slot p),
       pl_slot2key := (pl_slot2key p)[slot := None]\<rparr>"

text \<open>
  \<open>drop_slot\<close> on any slot: nothing happens to a free one.
\<close>

definition pool_release :: "nat \<Rightarrow> nat \<Rightarrow> 'b pool \<Rightarrow> 'b pool" where
  "pool_release n_expert slot p =
     (case pl_slot2key p ! slot of None \<Rightarrow> p | Some k \<Rightarrow> pool_drop n_expert slot k p)"

text \<open>The bookkeeping \<open>install\<close> and \<open>reserve_victim\<close> share, for a free slot and the new clock.\<close>

definition pool_claim :: "nat \<Rightarrow> nat \<Rightarrow> nat \<Rightarrow> nat \<Rightarrow> 'b pool \<Rightarrow> 'b pool" where
  "pool_claim layer slot key now p =
     p\<lparr>pl_slot2key := (pl_slot2key p)[slot := Some key],
       pl_occ := (pl_occ p)[layer := pl_occ p ! layer + 1],
       pl_clk := (pl_clk p)[slot := now],
       pl_key2slot := AList.update key slot (pl_key2slot p),
       pl_slot_of := (pl_slot_of p)[key := slot]\<rparr>"

definition pool_count :: "nat \<Rightarrow> 'b pool \<Rightarrow> 'b pool" where
  "pool_count key p =
     p\<lparr>pl_count := AList.update key (Suc (case map_of (pl_count p) key of None \<Rightarrow> 0 | Some c \<Rightarrow> c))
                     (pl_count p)\<rparr>"

definition pool_stamp :: "nat \<Rightarrow> nat \<Rightarrow> 'b pool \<Rightarrow> 'b pool" where
  "pool_stamp slot now p = p\<lparr>pl_clk := (pl_clk p)[slot := now]\<rparr>"

definition pool_write :: "nat \<Rightarrow> 'b list \<Rightarrow> 'b pool \<Rightarrow> 'b pool" where
  "pool_write slot slab p = p\<lparr>pl_t := (pl_t p)[slot := slab]\<rparr>"

subsection \<open>The pool invariant\<close>

definition held :: "nat \<Rightarrow> 'b pool \<Rightarrow> nat \<Rightarrow> nat set" where
  "held n_expert p l = {s. s < pl_n_slots p \<and> (\<exists>k. pl_slot2key p ! s = Some k \<and> k div n_expert = l)}"

definition pool_wf :: "nat \<Rightarrow> nat \<Rightarrow> 'b pool \<Rightarrow> bool" where
  "pool_wf n_layer n_expert p \<longleftrightarrow>
     0 < n_expert \<and>
     length (pl_slot2key p) = pl_n_slots p \<and> length (pl_clk p) = pl_n_slots p \<and>
     length (pl_t p) = pl_n_slots p \<and>
     length (pl_slot_of p) = n_layer * n_expert \<and>
     length (pl_quota p) = n_layer \<and> length (pl_occ p) = n_layer \<and>
     distinct (map fst (pl_key2slot p)) \<and>
     (\<forall>k s. map_of (pl_key2slot p) k = Some s \<longleftrightarrow> s < pl_n_slots p \<and> pl_slot2key p ! s = Some k) \<and>
     (\<forall>s k. s < pl_n_slots p \<longrightarrow> pl_slot2key p ! s = Some k \<longrightarrow> k < n_layer * n_expert) \<and>
     (\<forall>k < n_layer * n_expert. pl_slot_of p ! k =
        (case map_of (pl_key2slot p) k of None \<Rightarrow> 0 | Some s \<Rightarrow> s)) \<and>
     (\<forall>l < n_layer. pl_occ p ! l = int (card (held n_expert p l)))"

definition empty_pool :: "nat \<Rightarrow> nat \<Rightarrow> role \<Rightarrow> nat \<Rightarrow> nat \<Rightarrow> 'b list list \<Rightarrow> 'b pool" where
  "empty_pool n_layer n_expert r nb2 n_slots mem =
     \<lparr>pl_t = mem, pl_nb2 = nb2, pl_role = r, pl_n_slots = n_slots, pl_key2slot = [],
      pl_slot2key = replicate n_slots None, pl_clk = replicate n_slots 0, pl_count = [],
      pl_slot_of = replicate (n_layer * n_expert) 0, pl_quota = replicate n_layer (- 1),
      pl_occ = replicate n_layer 0\<rparr>"

subsection \<open>Facts about the scans\<close>

lemma victim_scan_Inl:
  "victim_scan elig p ss v = Inl s \<Longrightarrow> s \<in> set ss \<and> pl_slot2key p ! s = None"
  by (induction ss arbitrary: v) (auto split: option.splits)

lemma victim_scan_Inr_full:
  "victim_scan elig p ss v = Inr w \<Longrightarrow> s \<in> set ss \<Longrightarrow> \<exists>k. pl_slot2key p ! s = Some k"
  by (induction ss arbitrary: v) (auto split: option.splits)

lemma victim_scan_acc_le:
  "victim_scan elig p ss (Some v) = Inr w \<Longrightarrow> \<exists>u. w = Some u \<and> pl_clk p ! u \<le> pl_clk p ! v"
proof (induction ss arbitrary: v)
  case Nil
  then show ?case by auto
next
  case (Cons s ss)
  from Cons.prems obtain k where k: "pl_slot2key p ! s = Some k"
    by (auto split: option.splits)
  show ?case
  proof (cases "elig k \<and> older p s (Some v)")
    case True
    with Cons.prems k have "victim_scan elig p ss (Some s) = Inr w" by simp
    from Cons.IH[OF this] True show ?thesis by (force simp: older_def)
  next
    case False
    with Cons.prems k have "victim_scan elig p ss (Some v) = Inr w" by (auto split: if_splits)
    from Cons.IH[OF this] show ?thesis .
  qed
qed

lemma victim_scan_Some:
  assumes "victim_scan elig p ss v = Inr (Some w)"
  shows "v = Some w \<or> (w \<in> set ss \<and> (\<exists>k. pl_slot2key p ! w = Some k \<and> elig k))"
  using assms
proof (induction ss arbitrary: v)
  case Nil
  then show ?case by simp
next
  case (Cons s ss)
  from Cons.prems obtain k where k: "pl_slot2key p ! s = Some k"
    by (auto split: option.splits)
  with Cons.prems have "victim_scan elig p ss (if elig k \<and> older p s v then Some s else v) = Inr (Some w)"
    by simp
  from Cons.IH[OF this] k show ?case by (auto split: if_splits)
qed

lemma victim_scan_min:
  assumes "victim_scan elig p ss v = Inr w" "s \<in> set ss" "pl_slot2key p ! s = Some k" "elig k"
  shows "\<exists>u. w = Some u \<and> pl_clk p ! u \<le> pl_clk p ! s"
  using assms
proof (induction ss arbitrary: v)
  case Nil
  then show ?case by simp
next
  case (Cons x ss)
  show ?case
  proof (cases "x = s")
    case True
    show ?thesis
    proof (cases "older p s v")
      case True
      with \<open>x = s\<close> Cons.prems have "victim_scan elig p ss (Some s) = Inr w" by simp
      from victim_scan_acc_le[OF this] show ?thesis .
    next
      case False
      then obtain v' where v': "v = Some v'" "pl_clk p ! v' \<le> pl_clk p ! s"
        by (auto simp: older_def split: option.splits)
      with False \<open>x = s\<close> Cons.prems have "victim_scan elig p ss (Some v') = Inr w" by simp
      from victim_scan_acc_le[OF this] v' show ?thesis by force
    qed
  next
    case False
    from Cons.prems(1) obtain k' where "pl_slot2key p ! x = Some k'"
      by (auto split: option.splits)
    with Cons.prems(1) have
      "victim_scan elig p ss (if elig k' \<and> older p x v then Some x else v) = Inr w" by simp
    from Cons.IH[OF this] False Cons.prems show ?thesis by simp
  qed
qed

lemma lru_scan_acc_le:
  "\<exists>u. lru_scan p ss (Some v) = Some u \<and> pl_clk p ! u \<le> pl_clk p ! v \<and> (u = v \<or> u \<in> set ss)"
proof (induction ss arbitrary: v)
  case Nil
  then show ?case by simp
next
  case (Cons s ss)
  show ?case
    using Cons.IH[of s] Cons.IH[of v] by (force simp: older_def)
qed

lemma lru_scan_min:
  "s \<in> set ss \<Longrightarrow> \<exists>u. lru_scan p ss v = Some u \<and> pl_clk p ! u \<le> pl_clk p ! s"
proof (induction ss arbitrary: v)
  case Nil
  then show ?case by simp
next
  case (Cons x ss)
  show ?case
  proof (cases "x = s")
    case True
    then show ?thesis
      using lru_scan_acc_le[of p ss s] lru_scan_acc_le[of p ss "the v"]
      by (force simp: older_def split: option.splits)
  next
    case False
    then show ?thesis using Cons by simp
  qed
qed

lemma lru_scan_None_set: "lru_scan p ss None = Some u \<Longrightarrow> u \<in> set ss"
  using lru_scan_acc_le[of p "tl ss" "hd ss"] by (cases ss) (auto simp: older_def)


lemma pick_victim_cases:
  assumes "0 < pl_n_slots p"
  obtains (free) v where "pick_victim qo nE p layer = Some v" "v < pl_n_slots p"
      "pl_slot2key p ! v = None"
  | (lru) v where "pick_victim qo nE p layer = Some v" "v < pl_n_slots p"
      "\<And>s. s < pl_n_slots p \<Longrightarrow> pl_slot2key p ! s \<noteq> None"
      "\<exists>k. pl_slot2key p ! v = Some k \<and> eligible qo nE p layer k"
      "\<And>s k. s < pl_n_slots p \<Longrightarrow> pl_slot2key p ! s = Some k \<Longrightarrow> eligible qo nE p layer k \<Longrightarrow>
         pl_clk p ! v \<le> pl_clk p ! s"
  | (fallback) v where "pick_victim qo nE p layer = Some v" "v < pl_n_slots p"
      "\<And>s. s < pl_n_slots p \<Longrightarrow> pl_clk p ! v \<le> pl_clk p ! s"
proof (cases "victim_scan (eligible qo nE p layer) p [0..<pl_n_slots p] None")
  case (Inl s)
  from victim_scan_Inl[OF Inl] Inl free[of s] show ?thesis by (simp add: pick_victim_def)
next
  case (Inr w)
  note scan = this
  show ?thesis
  proof (cases w)
    case None
    obtain v where v: "lru_scan p [0..<pl_n_slots p] None = Some v"
      using lru_scan_min[of 0 "[0..<pl_n_slots p]" p None] assms by auto
    have min: "pl_clk p ! v \<le> pl_clk p ! s" if "s < pl_n_slots p" for s
      using lru_scan_min[of s "[0..<pl_n_slots p]" p None] v that by auto
    from scan None v have "pick_victim qo nE p layer = Some v" by (simp add: pick_victim_def)
    then show ?thesis using fallback[of v] min lru_scan_None_set[OF v] by simp
  next
    case (Some v)
    with scan have s: "victim_scan (eligible qo nE p layer) p [0..<pl_n_slots p] None = Inr (Some v)"
      by simp
    from victim_scan_Some[OF s] have v: "v < pl_n_slots p"
      "\<exists>k. pl_slot2key p ! v = Some k \<and> eligible qo nE p layer k" by auto
    have full: "pl_slot2key p ! x \<noteq> None" if "x < pl_n_slots p" for x
      using victim_scan_Inr_full[OF s, of x] that by auto
    have min: "pl_clk p ! v \<le> pl_clk p ! x"
      if "x < pl_n_slots p" "pl_slot2key p ! x = Some k" "eligible qo nE p layer k" for x k
      using victim_scan_min[OF s, of x k] that by auto
    from s have "pick_victim qo nE p layer = Some v" by (simp add: pick_victim_def)
    then show ?thesis using lru[of v] v full min by blast
  qed
qed

lemma pick_victim_in_range:
  assumes "0 < pl_n_slots p"
  shows "\<exists>v. pick_victim qo nE p layer = Some v \<and> v < pl_n_slots p"
  by (rule pick_victim_cases[OF assms, of qo nE layer]) blast+

text \<open>
  How many distinct experts of a layer one call may reference before it recycles a slot of its
  own: the layer's quota when quotas are enforced and it has one, the pool's size otherwise.
\<close>

definition safe_slots :: "bool \<Rightarrow> 'b pool \<Rightarrow> nat \<Rightarrow> nat" where
  "safe_slots qo p layer =
     (if qo \<and> pl_quota p ! layer \<ge> 0 then min (nat (pl_quota p ! layer)) (pl_n_slots p)
      else pl_n_slots p)"

definition quota_uniform :: "'b pool \<Rightarrow> nat \<Rightarrow> bool" where
  "quota_uniform p layer \<longleftrightarrow>
     pl_quota p ! layer \<ge> 0 \<or> (\<forall>l < length (pl_quota p). pl_quota p ! l < 0)"

lemma ex_slot_outside:
  assumes "finite A" "card T < card A" "T \<subseteq> A"
  shows "\<exists>s. s \<in> A \<and> s \<notin> T"
  using assms by (metis less_irrefl subsetI subset_antisym)

text \<open>
  The victim is never a slot the running call has already handed out (\<open>T\<close>), as long as the call has
  used fewer slots than \<open>safe_slots\<close>: those slots carry clocks newer than \<open>c0\<close>, every other slot an
  older one.
\<close>

lemma pick_victim_avoids:
  assumes wf: "pool_wf nL nE p" and layer: "layer < nL" and uni: "quota_uniform p layer"
    and T: "T \<subseteq> held nE p layer" and new: "\<And>s. s \<in> T \<Longrightarrow> c0 < pl_clk p ! s"
    and old: "\<And>s. s < pl_n_slots p \<Longrightarrow> s \<notin> T \<Longrightarrow> pl_clk p ! s \<le> c0"
    and room: "card T < safe_slots qo p layer"
  shows "\<exists>v. pick_victim qo nE p layer = Some v \<and> v < pl_n_slots p \<and> v \<notin> T"
proof -
  have room': "card T < pl_n_slots p"
    using room by (auto simp: safe_slots_def split: if_splits)
  have Tsub: "T \<subseteq> {0..<pl_n_slots p}" using T by (auto simp: held_def)
  obtain s0 where s0: "s0 < pl_n_slots p" "s0 \<notin> T"
    using ex_slot_outside[of "{0..<pl_n_slots p}" T] Tsub room' by auto
  have pos: "0 < pl_n_slots p" using room' by simp
  have fin: "finite (held nE p layer)" by (simp add: held_def)
  have occ: "pl_occ p ! layer = int (card (held nE p layer))"
    using wf layer by (simp add: pool_wf_def)
  show ?thesis
  proof (rule pick_victim_cases[OF pos, of qo nE layer])
    fix v assume "pick_victim qo nE p layer = Some v" "v < pl_n_slots p" "pl_slot2key p ! v = None"
    with T show ?thesis by (auto simp: held_def)
  next
    fix v assume v: "pick_victim qo nE p layer = Some v" "v < pl_n_slots p"
      "\<And>s. s < pl_n_slots p \<Longrightarrow> pl_clk p ! v \<le> pl_clk p ! s"
    have "v \<notin> T" using v(3)[OF s0(1)] old[OF s0] new[of v] by auto
    with v show ?thesis by blast
  next
    fix v assume v: "pick_victim qo nE p layer = Some v" "v < pl_n_slots p"
      "\<And>s. s < pl_n_slots p \<Longrightarrow> pl_slot2key p ! s \<noteq> None"
      "\<exists>k. pl_slot2key p ! v = Some k \<and> eligible qo nE p layer k"
      "\<And>s k. s < pl_n_slots p \<Longrightarrow> pl_slot2key p ! s = Some k \<Longrightarrow> eligible qo nE p layer k \<Longrightarrow>
         pl_clk p ! v \<le> pl_clk p ! s"
    have older_elig: "v \<notin> T" if "s < pl_n_slots p" "s \<notin> T" "pl_slot2key p ! s = Some k"
      "eligible qo nE p layer k" for s k
      using v(5)[OF that(1,3,4)] old[OF that(1,2)] new[of v] by auto
    consider (noquota) "\<not> (qo \<and> pl_quota p ! layer \<ge> 0)" | (at) "at_quota qo p layer"
      | (below) "qo" "pl_quota p ! layer \<ge> 0" "\<not> at_quota qo p layer"
      by blast
    then have "v \<notin> T"
    proof cases
      case noquota
      obtain k where k: "pl_slot2key p ! s0 = Some k" using v(3)[OF s0(1)] by auto
      have kl: "k div nE < nL"
        using wf k s0 by (auto simp: pool_wf_def less_mult_imp_div_less)
      have "eligible qo nE p layer k"
      proof (cases qo)
        case True
        with noquota uni have neg: "\<And>l. l < length (pl_quota p) \<Longrightarrow> pl_quota p ! l < 0"
          by (auto simp: quota_uniform_def)
        have "pl_occ p ! (k div nE) \<ge> 0" "length (pl_quota p) = nL"
          using wf kl by (auto simp: pool_wf_def)
        with neg[of "k div nE"] neg[of layer] kl layer True show ?thesis
          by (auto simp: eligible_def at_quota_def)
      next
        case False
        then show ?thesis by (simp add: eligible_def)
      qed
      with older_elig s0 k show ?thesis by blast
    next
      case at
      then have "card T < card (held nE p layer)"
        using room occ by (auto simp: at_quota_def safe_slots_def)
      with ex_slot_outside[OF fin _ T] obtain s where "s \<in> held nE p layer" "s \<notin> T" by auto
      then obtain k where "s < pl_n_slots p" "pl_slot2key p ! s = Some k" "k div nE = layer" "s \<notin> T"
        by (auto simp: held_def)
      with at older_elig show ?thesis by (auto simp: eligible_def at_quota_def)
    next
      case below
      from v(4) obtain k where k: "pl_slot2key p ! v = Some k" "eligible qo nE p layer k" by blast
      with below have "k div nE \<noteq> layer" by (auto simp: eligible_def at_quota_def)
      with k T show ?thesis by (auto simp: held_def)
    qed
    with v show ?thesis by blast
  qed
qed


subsection \<open>Every pool operation keeps the invariant\<close>

lemma pool_wfD:
  assumes "pool_wf nL nE p"
  shows "0 < nE" "length (pl_slot2key p) = pl_n_slots p" "length (pl_clk p) = pl_n_slots p"
    "length (pl_t p) = pl_n_slots p" "length (pl_slot_of p) = nL * nE"
    "length (pl_quota p) = nL" "length (pl_occ p) = nL" "distinct (map fst (pl_key2slot p))"
    "\<And>k s. map_of (pl_key2slot p) k = Some s \<longleftrightarrow> s < pl_n_slots p \<and> pl_slot2key p ! s = Some k"
    "\<And>s k. s < pl_n_slots p \<Longrightarrow> pl_slot2key p ! s = Some k \<Longrightarrow> k < nL * nE"
    "\<And>k. k < nL * nE \<Longrightarrow> pl_slot_of p ! k = (case map_of (pl_key2slot p) k of None \<Rightarrow> 0 | Some s \<Rightarrow> s)"
    "\<And>l. l < nL \<Longrightarrow> pl_occ p ! l = int (card (held nE p l))"
  using assms by (auto simp: pool_wf_def)

lemma held_drop:
  assumes "slot < pl_n_slots p" "length (pl_slot2key p) = pl_n_slots p" "pl_slot2key p ! slot = Some k"
  shows "held nE (pool_drop nE slot k p) l = held nE p l - {slot}"
  using assms by (auto simp: held_def pool_drop_def nth_list_update_if)

lemma held_claim:
  assumes "slot < pl_n_slots p" "length (pl_slot2key p) = pl_n_slots p" "pl_slot2key p ! slot = None"
  shows "held nE (pool_claim layer slot key now p) l =
    (if key div nE = l then insert slot (held nE p l) else held nE p l)"
  using assms by (auto simp: held_def pool_claim_def nth_list_update_if)

lemma pool_wf_drop:
  assumes wf: "pool_wf nL nE p" and slot: "slot < pl_n_slots p" "pl_slot2key p ! slot = Some k"
  shows "pool_wf nL nE (pool_drop nE slot k p)"
proof -
  note w = pool_wfD[OF wf]
  have k: "k < nL * nE" using w(10)[OF slot] .
  then have kl: "k div nE < nL" by (simp add: less_mult_imp_div_less)
  have mk: "map_of (pl_key2slot p) k = Some slot" using w(9) slot by blast
  have uniq: "s = slot" if "s < pl_n_slots p" "pl_slot2key p ! s = Some k" for s
    using w(9)[of k s] that mk by simp
  have occ: "pl_occ (pool_drop nE slot k p) ! l = int (card (held nE (pool_drop nE slot k p) l))"
    if "l < nL" for l
  proof (cases "l = k div nE")
    case True
    have "slot \<in> held nE p l" using slot True by (simp add: held_def)
    moreover have "finite (held nE p l)" by (simp add: held_def)
    ultimately have "card (held nE p l) = Suc (card (held nE p l - {slot}))"
      by (metis card_Suc_Diff1)
    then have "int (card (held nE p l - {slot})) = int (card (held nE p l)) - 1" by simp
    with True kl w(7,12) show ?thesis
      by (simp add: held_drop[OF slot(1) w(2) slot(2)]) (simp add: pool_drop_def)
  next
    case False
    then have "slot \<notin> held nE p l" using slot by (auto simp: held_def)
    with False that w(7,12) show ?thesis
      by (simp add: held_drop[OF slot(1) w(2) slot(2)]) (simp add: pool_drop_def)
  qed
  have keys: "map_of (pl_key2slot (pool_drop nE slot k p)) k' = Some s \<longleftrightarrow>
      s < pl_n_slots p \<and> pl_slot2key (pool_drop nE slot k p) ! s = Some k'" for k' s
  proof -
    have "map_of (pl_key2slot (pool_drop nE slot k p)) k' = Some s \<longleftrightarrow>
        k' \<noteq> k \<and> map_of (pl_key2slot p) k' = Some s"
      by (simp add: pool_drop_def delete_conv')
    also have "\<dots> \<longleftrightarrow> k' \<noteq> k \<and> s < pl_n_slots p \<and> pl_slot2key p ! s = Some k'"
      by (simp only: w(9))
    also have "\<dots> \<longleftrightarrow> s < pl_n_slots p \<and> pl_slot2key (pool_drop nE slot k p) ! s = Some k'"
    proof (cases "s = slot")
      case True
      with slot w(2) show ?thesis by (auto simp: pool_drop_def)
    next
      case False
      then have "pl_slot2key (pool_drop nE slot k p) ! s = pl_slot2key p ! s"
        by (simp add: pool_drop_def)
      with False uniq[of s] show ?thesis by metis
    qed
    finally show ?thesis .
  qed
  have sof: "pl_slot_of (pool_drop nE slot k p) ! k' =
      (case map_of (pl_key2slot (pool_drop nE slot k p)) k' of None \<Rightarrow> 0 | Some s \<Rightarrow> s)"
    if "k' < nL * nE" for k'
    using w(5,11) that k by (auto simp: pool_drop_def delete_conv' nth_list_update_if)
  have rng: "k' < nL * nE" if "s < pl_n_slots p" "pl_slot2key (pool_drop nE slot k p) ! s = Some k'" for s k'
    using that w(2,10) slot by (auto simp: pool_drop_def nth_list_update_if split: if_splits)
  have "distinct (map fst (pl_key2slot (pool_drop nE slot k p)))"
    using w(8) by (simp add: pool_drop_def distinct_delete)
  then show ?thesis
    using w(1-7) occ keys sof rng unfolding pool_wf_def by (simp add: pool_drop_def)
qed

lemma pool_wf_claim:
  assumes wf: "pool_wf nL nE p" and slot: "slot < pl_n_slots p" "pl_slot2key p ! slot = None"
    and key: "key < nL * nE" "map_of (pl_key2slot p) key = None" and layer: "layer = key div nE"
  shows "pool_wf nL nE (pool_claim layer slot key now p)"
proof -
  note w = pool_wfD[OF wf]
  have kl: "layer < nL" using key layer by (simp add: less_mult_imp_div_less)
  have fresh: "pl_slot2key p ! s \<noteq> Some key" if "s < pl_n_slots p" for s
    using w(9)[of key s] key(2) that by simp
  have notheld: "slot \<notin> held nE p l" for l using slot by (auto simp: held_def)
  have fin: "finite (held nE p l)" for l by (simp add: held_def)
  have occ: "pl_occ (pool_claim layer slot key now p) ! l =
      int (card (held nE (pool_claim layer slot key now p) l))" if "l < nL" for l
    using that kl layer w(7,12) fin notheld
    by (simp add: held_claim[OF slot(1) w(2) slot(2)]) (simp add: pool_claim_def nth_list_update_if)
  have keys: "map_of (pl_key2slot (pool_claim layer slot key now p)) k' = Some s \<longleftrightarrow>
      s < pl_n_slots p \<and> pl_slot2key (pool_claim layer slot key now p) ! s = Some k'" for k' s
  proof -
    have "map_of (pl_key2slot (pool_claim layer slot key now p)) k' = Some s \<longleftrightarrow>
        (if k' = key then s = slot else map_of (pl_key2slot p) k' = Some s)"
      by (auto simp: pool_claim_def update_conv')
    also have "\<dots> \<longleftrightarrow>
        (if k' = key then s = slot else s < pl_n_slots p \<and> pl_slot2key p ! s = Some k')"
      by (simp only: w(9))
    also have "\<dots> \<longleftrightarrow> s < pl_n_slots p \<and> pl_slot2key (pool_claim layer slot key now p) ! s = Some k'"
    proof (cases "s = slot")
      case True
      with slot w(2) show ?thesis by (auto simp: pool_claim_def)
    next
      case False
      then have "pl_slot2key (pool_claim layer slot key now p) ! s = pl_slot2key p ! s"
        by (simp add: pool_claim_def)
      with False fresh[of s] show ?thesis by metis
    qed
    finally show ?thesis .
  qed
  have sof: "pl_slot_of (pool_claim layer slot key now p) ! k' =
      (case map_of (pl_key2slot (pool_claim layer slot key now p)) k' of None \<Rightarrow> 0 | Some s \<Rightarrow> s)"
    if "k' < nL * nE" for k'
    using w(5,11) that key by (auto simp: pool_claim_def update_conv' nth_list_update_if)
  have rng: "k' < nL * nE"
    if "s < pl_n_slots p" "pl_slot2key (pool_claim layer slot key now p) ! s = Some k'" for s k'
    using that w(2,10) slot key by (auto simp: pool_claim_def nth_list_update_if split: if_splits)
  have "distinct (map fst (pl_key2slot (pool_claim layer slot key now p)))"
    using w(8) by (simp add: pool_claim_def distinct_update)
  then show ?thesis
    using w(1-7) occ keys sof rng unfolding pool_wf_def by (simp add: pool_claim_def)
qed

lemma pool_wf_same_maps:
  assumes "pool_wf nL nE p" "pl_n_slots p' = pl_n_slots p" "pl_slot2key p' = pl_slot2key p"
    "pl_key2slot p' = pl_key2slot p" "pl_slot_of p' = pl_slot_of p" "pl_occ p' = pl_occ p"
    "length (pl_clk p') = length (pl_clk p)" "length (pl_t p') = length (pl_t p)"
    "length (pl_quota p') = length (pl_quota p)"
  shows "pool_wf nL nE p'"
proof -
  have "held nE p' l = held nE p l" for l by (simp add: held_def assms)
  then show ?thesis using assms by (simp add: pool_wf_def)
qed

lemma pool_wf_count [wf_intros]: "pool_wf nL nE p \<Longrightarrow> pool_wf nL nE (pool_count k p)"
  by (erule pool_wf_same_maps) (simp_all add: pool_count_def)

lemma pool_wf_stamp [wf_intros]: "pool_wf nL nE p \<Longrightarrow> pool_wf nL nE (pool_stamp s now p)"
  by (erule pool_wf_same_maps) (simp_all add: pool_stamp_def)

lemma pool_wf_write [wf_intros]: "pool_wf nL nE p \<Longrightarrow> pool_wf nL nE (pool_write s b p)"
  by (erule pool_wf_same_maps) (simp_all add: pool_write_def)

lemma pool_wf_empty: "0 < nE \<Longrightarrow> length mem = n \<Longrightarrow> pool_wf nL nE (empty_pool nL nE r nb n mem)"
  by (auto simp: pool_wf_def empty_pool_def held_def)

subsection \<open>Replacing a slot as a whole\<close>

definition pool_replace :: "nat \<Rightarrow> nat \<Rightarrow> nat \<Rightarrow> nat \<Rightarrow> nat \<Rightarrow> 'b pool \<Rightarrow> 'b pool" where
  "pool_replace n_expert layer slot key now p = pool_claim layer slot key now (pool_release n_expert slot p)"

lemma pool_release_simps:
  "pl_n_slots (pool_release nE s p) = pl_n_slots p" "pl_clk (pool_release nE s p) = pl_clk p"
  "pl_t (pool_release nE s p) = pl_t p" "pl_role (pool_release nE s p) = pl_role p"
  "pl_nb2 (pool_release nE s p) = pl_nb2 p" "pl_quota (pool_release nE s p) = pl_quota p"
  "pl_slot2key (pool_release nE s p) = (pl_slot2key p)[s := None]"
  by (auto simp: pool_release_def pool_drop_def split: option.splits) (metis list_update_id)

lemma pool_wf_release [wf_intros]:
  "pool_wf nL nE p \<Longrightarrow> s < pl_n_slots p \<Longrightarrow> pool_wf nL nE (pool_release nE s p)"
  using pool_wf_drop by (auto simp: pool_release_def split: option.splits)

lemma pool_replace_simps:
  "pl_n_slots (pool_replace nE layer v key now p) = pl_n_slots p"
  "pl_t (pool_replace nE layer v key now p) = pl_t p"
  "pl_role (pool_replace nE layer v key now p) = pl_role p"
  "pl_nb2 (pool_replace nE layer v key now p) = pl_nb2 p"
  "pl_quota (pool_replace nE layer v key now p) = pl_quota p"
  "pl_slot2key (pool_replace nE layer v key now p) = (pl_slot2key p)[v := Some key]"
  "pl_clk (pool_replace nE layer v key now p) = (pl_clk p)[v := now]"
  by (simp_all add: pool_replace_def pool_claim_def pool_release_simps)

lemma pool_release_lookup:
  assumes "map_of (pl_key2slot p) k = None"
  shows "map_of (pl_key2slot (pool_release nE s p)) k = None"
  using assms by (auto simp: pool_release_def pool_drop_def delete_conv' split: option.splits)

lemma pool_wf_replace:
  assumes "pool_wf nL nE p" "v < pl_n_slots p" "key < nL * nE" "map_of (pl_key2slot p) key = None"
    "layer = key div nE"
  shows "pool_wf nL nE (pool_replace nE layer v key now p)"
  unfolding pool_replace_def
  using assms pool_wfD(2)[OF assms(1)]
  by (intro pool_wf_claim pool_wf_release pool_release_lookup) (simp_all add: pool_release_simps)

text \<open>The maps of a well-formed pool determine each other.\<close>

lemma pool_lookup:
  "pool_wf nL nE p \<Longrightarrow> map_of (pl_key2slot p) k = Some s \<Longrightarrow> s < pl_n_slots p \<and> pl_slot2key p ! s = Some k"
  by (simp add: pool_wfD(9))

lemma pool_replace_lookup:
  assumes "pool_wf nL nE p" "v < pl_n_slots p" "key < nL * nE" "map_of (pl_key2slot p) key = None"
    "layer = key div nE"
  shows "map_of (pl_key2slot (pool_replace nE layer v key now p)) k = Some s \<longleftrightarrow>
    (if k = key then s = v else s \<noteq> v \<and> map_of (pl_key2slot p) k = Some s)"
proof -
  have "pl_slot2key p ! s \<noteq> Some key" if "s < pl_n_slots p"
    using that assms(4) pool_wfD(9)[OF assms(1), of key s] by simp
  then show ?thesis
    using assms(2) pool_wfD(2)[OF assms(1)]
    by (auto simp: pool_wfD(9)[OF pool_wf_replace[OF assms]] pool_wfD(9)[OF assms(1)]
        pool_replace_simps nth_list_update_if)
qed

subsection \<open>Slots handed out by the running call\<close>

text \<open>
  While one \<open>ensure\<close> runs, a slot's clock is newer than the clock \<open>c0\<close> at its start exactly when the
  call has handed that slot out. \<open>handed\<close> says that the slots with new clocks are those of the
  experts \<open>E\<close> already served.
\<close>

definition handed :: "nat \<Rightarrow> nat \<Rightarrow> nat \<Rightarrow> nat set \<Rightarrow> 'b pool \<Rightarrow> bool" where
  "handed c0 layer n_expert E p \<longleftrightarrow>
     (\<forall>e\<in>E. \<exists>s. map_of (pl_key2slot p) (layer * n_expert + e) = Some s \<and> c0 < pl_clk p ! s) \<and>
     (\<forall>s < pl_n_slots p. c0 < pl_clk p ! s \<longrightarrow> (\<exists>e\<in>E. pl_slot2key p ! s = Some (layer * n_expert + e)))"

lemma handed_same:
  "handed c0 layer nE E p \<Longrightarrow> pl_key2slot p' = pl_key2slot p \<Longrightarrow> pl_slot2key p' = pl_slot2key p \<Longrightarrow>
   pl_clk p' = pl_clk p \<Longrightarrow> pl_n_slots p' = pl_n_slots p \<Longrightarrow> handed c0 layer nE E p'"
  by (simp add: handed_def)

lemma handed_stamp:
  assumes wf: "pool_wf nL nE p" and h: "handed c0 layer nE E p"
    and s: "map_of (pl_key2slot p) (layer * nE + e) = Some s" and now: "c0 < now"
  shows "handed c0 layer nE (insert e E) (pool_stamp s now p)"
proof -
  note s' = pool_lookup[OF wf s]
  have "s < length (pl_clk p)" using s' pool_wfD(3)[OF wf] by simp
  then show ?thesis
    using h s s' now by (force simp: handed_def pool_stamp_def nth_list_update_if split: if_splits)
qed

lemma handed_replace:
  assumes wf: "pool_wf nL nE p" and h: "handed c0 layer nE E p" and now: "c0 < now"
    and v: "v < pl_n_slots p" "\<not> c0 < pl_clk p ! v"
    and key: "layer * nE + e < nL * nE" "map_of (pl_key2slot p) (layer * nE + e) = None"
    and e: "e < nE"
  shows "handed c0 layer nE (insert e E) (pool_replace nE layer v (layer * nE + e) now p)"
    and "e' \<in> E \<Longrightarrow> map_of (pl_key2slot p) (layer * nE + e') = Some s \<Longrightarrow>
      map_of (pl_key2slot (pool_replace nE layer v (layer * nE + e) now p)) (layer * nE + e') = Some s"
proof -
  have layer: "layer = (layer * nE + e) div nE" using e by simp
  note look = pool_replace_lookup[OF wf v(1) key layer]
  have len: "v < length (pl_clk p)" "v < length (pl_slot2key p)" using v pool_wfD[OF wf] by simp_all
  have keep: "e' \<noteq> e \<and> s \<noteq> v" if "e' \<in> E" "map_of (pl_key2slot p) (layer * nE + e') = Some s" for e' s
    using h that v(2) key(2) by (fastforce simp: handed_def)
  show keeps: "map_of (pl_key2slot (pool_replace nE layer v (layer * nE + e) now p)) (layer * nE + e') = Some s"
    if "e' \<in> E" "map_of (pl_key2slot p) (layer * nE + e') = Some s" for e' s
    using keep[OF that] that(2) by (simp add: look)
  have "\<exists>s. map_of (pl_key2slot (pool_replace nE layer v (layer * nE + e) now p)) (layer * nE + e') = Some s \<and>
      c0 < pl_clk (pool_replace nE layer v (layer * nE + e) now p) ! s" if e': "e' \<in> E" for e'
  proof -
    from h e' obtain s where s: "map_of (pl_key2slot p) (layer * nE + e') = Some s" "c0 < pl_clk p ! s"
      by (auto simp: handed_def)
    with keep[OF e' s(1)] keeps[OF e' s(1)] len show ?thesis
      by (auto simp: pool_replace_simps nth_list_update_if)
  qed
  moreover have "\<exists>s. map_of (pl_key2slot (pool_replace nE layer v (layer * nE + e) now p)) (layer * nE + e) = Some s \<and>
      c0 < pl_clk (pool_replace nE layer v (layer * nE + e) now p) ! s"
    using len now by (intro exI[of _ v]) (simp add: look pool_replace_simps)
  moreover have "\<exists>x\<in>insert e E. pl_slot2key (pool_replace nE layer v (layer * nE + e) now p) ! s = Some (layer * nE + x)"
    if "s < pl_n_slots p" "c0 < pl_clk (pool_replace nE layer v (layer * nE + e) now p) ! s" for s
    using that h len by (auto simp: handed_def pool_replace_simps nth_list_update_if split: if_splits)
  ultimately show "handed c0 layer nE (insert e E) (pool_replace nE layer v (layer * nE + e) now p)"
    by (auto simp: handed_def pool_replace_simps(1))
qed

lemma handed_victim:
  assumes wf: "pool_wf nL nE p" and h: "handed c0 layer nE E p" and layer: "layer < nL"
    and uni: "quota_uniform p layer" and E: "E \<subseteq> {..<nE}" "card (insert e E) \<le> safe_slots qo p layer"
    and miss: "map_of (pl_key2slot p) (layer * nE + e) = None"
  shows "\<exists>v. pick_victim qo nE p layer = Some v \<and> v < pl_n_slots p \<and> \<not> c0 < pl_clk p ! v"
proof -
  let ?T = "{s. s < pl_n_slots p \<and> c0 < pl_clk p ! s}"
  have fin: "finite E" using E(1) finite_subset by blast
  have "?T \<subseteq> (\<lambda>e. the (map_of (pl_key2slot p) (layer * nE + e))) ` E"
  proof
    fix s assume "s \<in> ?T"
    then obtain x where "x \<in> E" "s < pl_n_slots p" "pl_slot2key p ! s = Some (layer * nE + x)"
      using h by (auto simp: handed_def)
    moreover from this have "map_of (pl_key2slot p) (layer * nE + x) = Some s"
      by (simp add: pool_wfD(9)[OF wf])
    ultimately show "s \<in> (\<lambda>e. the (map_of (pl_key2slot p) (layer * nE + e))) ` E" by force
  qed
  then have "card ?T \<le> card E"
    using fin by (meson card_image_le card_mono finite_imageI le_trans)
  moreover have "e \<notin> E" using h miss by (force simp: handed_def)
  ultimately have room: "card ?T < safe_slots qo p layer" using E(2) fin by simp
  have "?T \<subseteq> held nE p layer"
  proof
    fix s assume "s \<in> ?T"
    then obtain x where "x \<in> E" "s < pl_n_slots p" "pl_slot2key p ! s = Some (layer * nE + x)"
      using h by (auto simp: handed_def)
    with E(1) show "s \<in> held nE p layer" by (auto simp: held_def)
  qed
  from pick_victim_avoids[OF wf layer uni this, of c0 qo] room show ?thesis by auto
qed

end
