(* ===== verification/Expert_Fetch.thy ===== *)
theory Expert_Fetch
  imports Expert_Pool "HOL-Library.Multiset"
begin

section \<open>Where expert weights come from, and how a batch of them is read\<close>

text \<open>
  The expert weights themselves live outside the cache: in host tensors on the RAM tier, in the GGUF
  shards on the SSD tier. \<open>wsource\<close> gathers what the cache reads of them (slab sizes, tensor bytes,
  shard path and offset per tensor, the file system); it is a parameter of every operation.
  \<open>expert_slab\<close> is the authoritative slab of an expert on the tier in use, the value a resident slot
  has to hold.

  The rest is the planning half of \<open>ExpertCache::fetch_parallel\<close>: grouping the misses of one layer
  into coalesced range reads, the 4 KB alignment of a range, its segments, and cutting the slabs out
  of the staging buffer. Worker threads read disjoint parts of the staging buffer, so the order in
  which they run does not matter and a batch is a list of reads. Platform-specific read paths
  (Windows unbuffered handles, Apple unified memory) are alternatives for the same bytes and are
  not modelled.
\<close>

record 'b wsource =
  ws_nb2 :: "role \<Rightarrow> nat \<Rightarrow> nat"
  ws_data :: "role \<Rightarrow> nat \<Rightarrow> 'b list"
  ws_path :: "role \<Rightarrow> nat \<Rightarrow> string"
  ws_off :: "role \<Rightarrow> nat \<Rightarrow> nat"
  ws_fs :: "string \<Rightarrow> 'b list option"

text \<open>\<open>fseeko\<close> and \<open>fread\<close> of exactly \<open>n\<close> bytes; \<open>None\<close> when the file is missing or too short.\<close>

definition fread_at :: "'b wsource \<Rightarrow> string \<Rightarrow> nat \<Rightarrow> nat \<Rightarrow> 'b list option" where
  "fread_at m path off n =
     (case ws_fs m path of
        None \<Rightarrow> None
      | Some bs \<Rightarrow> if off + n \<le> length bs then Some (take n (drop off bs)) else None)"

definition expert_slab :: "'b wsource \<Rightarrow> bool \<Rightarrow> role \<Rightarrow> nat \<Rightarrow> nat \<Rightarrow> 'b list option" where
  "expert_slab m ssd r layer e =
     (let nb2 = ws_nb2 m r layer in
      if ssd then fread_at m (ws_path m r layer) (ws_off m r layer + e * nb2) nb2
      else Some (take nb2 (drop (e * nb2) (ws_data m r layer))))"

record fetch_job =
  fj_pool :: nat
  fj_role :: role
  fj_expert :: nat
  fj_slot :: nat

record fetch_run =
  fr_pool :: nat
  fr_role :: role
  fr_lo :: nat
  fr_hi :: nat
  fr_jobs :: "fetch_job list"

definition SEG_BYTES :: nat where "SEG_BYTES = 8388608"
definition SPAN_BYTES :: nat where "SPAN_BYTES = 67108864"
definition COAL_MIN :: nat where "COAL_MIN = 16"

definition new_run :: "role \<Rightarrow> fetch_job \<Rightarrow> fetch_run" where
  "new_run r j = \<lparr>fr_pool = fj_pool j, fr_role = r, fr_lo = fj_expert j, fr_hi = fj_expert j, fr_jobs = [j]\<rparr>"

fun coal_runs :: "nat \<Rightarrow> nat \<Rightarrow> role \<Rightarrow> fetch_run \<Rightarrow> fetch_job list \<Rightarrow> fetch_run list" where
  "coal_runs gap nb2 r cur [] = [cur]"
| "coal_runs gap nb2 r cur (j # js) =
     (let e = fj_expert j in
      if e - fr_hi cur - 1 \<le> gap \<and> (e - fr_lo cur + 1) * nb2 \<le> SPAN_BYTES
      then coal_runs gap nb2 r (cur\<lparr>fr_hi := e, fr_jobs := fr_jobs cur @ [j]\<rparr>) js
      else cur # coal_runs gap nb2 r (new_run r j) js)"

text \<open>A run that would read mostly gap bytes goes back to single reads.\<close>

definition wasteful :: "fetch_run \<Rightarrow> bool" where
  "wasteful rr = (length (fr_jobs rr) * 2 < fr_hi rr - fr_lo rr + 1)"

definition plan_rj :: "nat \<Rightarrow> (nat \<Rightarrow> nat) \<Rightarrow> role \<Rightarrow> fetch_job list \<Rightarrow> fetch_run list \<times> fetch_job list" where
  "plan_rj gap pool_nb2 r rj =
     (if length rj < COAL_MIN then ([], rj)
      else case sort_key fj_expert rj of
             [] \<Rightarrow> ([], [])
           | j # js \<Rightarrow>
               let rr = coal_runs gap (pool_nb2 (fj_pool j)) r (new_run r j) js
               in (filter (\<lambda>x. \<not> wasteful x) rr, concat (map fr_jobs (filter wasteful rr))))"

definition plan_role :: "nat \<Rightarrow> (nat \<Rightarrow> nat) \<Rightarrow> fetch_job list \<Rightarrow> role \<Rightarrow> fetch_run list \<times> fetch_job list" where
  "plan_role gap pool_nb2 jobs r = plan_rj gap pool_nb2 r (filter (\<lambda>j. fj_role j = r) jobs)"

text \<open>\<open>coal\<close> is \<open>None\<close> without \<open>QWEN_COALESCE\<close>, else the gap it tolerates.\<close>

definition plan_fetch ::
  "nat option \<Rightarrow> (nat \<Rightarrow> nat) \<Rightarrow> fetch_job list \<Rightarrow> fetch_run list \<times> fetch_job list" where
  "plan_fetch coal pool_nb2 jobs =
     (case coal of
        None \<Rightarrow> ([], jobs)
      | Some gap \<Rightarrow>
          (let ps = map (plan_role gap pool_nb2 jobs) [GATE, UP, DOWN]
           in (concat (map fst ps), concat (map snd ps))))"

subsection \<open>Reading a run\<close>

record run_geom =
  rg_base :: nat
  rg_span :: nat
  rg_a0 :: nat
  rg_delta :: nat
  rg_need :: nat

definition run_geometry :: "nat \<Rightarrow> nat \<Rightarrow> nat \<Rightarrow> nat \<Rightarrow> run_geom" where
  "run_geometry off nb2 lo hi =
     (let base = off + lo * nb2; span = (hi - lo + 1) * nb2; a0 = base - base mod 4096;
          delta = base - a0; need = (delta + span + 4095) div 4096 * 4096
      in \<lparr>rg_base = base, rg_span = span, rg_a0 = a0, rg_delta = delta, rg_need = need\<rparr>)"

text \<open>
  One worker read: short at the end of the file is accepted when it still covers the wanted span.
\<close>

definition read_seg :: "'b list \<Rightarrow> run_geom \<Rightarrow> nat \<Rightarrow> 'b list option" where
  "read_seg bs g o' =
     (let len = min SEG_BYTES (rg_need g - o'); got = take len (drop (rg_a0 g + o') bs)
      in if length got < min len (rg_base g + rg_span g - (rg_a0 g + o')) then None else Some got)"

definition seg_offsets :: "nat \<Rightarrow> nat list" where
  "seg_offsets need = map (\<lambda>i. i * SEG_BYTES) [0..<(need + SEG_BYTES - 1) div SEG_BYTES]"

definition read_run :: "'b wsource \<Rightarrow> nat \<Rightarrow> nat \<Rightarrow> fetch_run \<Rightarrow> 'b list option" where
  "read_run m layer nb2 rn =
     (case ws_fs m (ws_path m (fr_role rn) layer) of
        None \<Rightarrow> None
      | Some bs \<Rightarrow>
          (let g = run_geometry (ws_off m (fr_role rn) layer) nb2 (fr_lo rn) (fr_hi rn);
               segs = map (read_seg bs g) (seg_offsets (rg_need g))
           in if list_all (\<lambda>s. s \<noteq> None) segs then Some (concat (map the segs)) else None))"

definition run_slab :: "'b wsource \<Rightarrow> nat \<Rightarrow> nat \<Rightarrow> fetch_run \<Rightarrow> 'b list \<Rightarrow> fetch_job \<Rightarrow> 'b list" where
  "run_slab m layer nb2 rn cbuf j =
     (let g = run_geometry (ws_off m (fr_role rn) layer) nb2 (fr_lo rn) (fr_hi rn)
      in take nb2 (drop (rg_delta g + (fj_expert j - fr_lo rn) * nb2) cbuf))"

text \<open>Single reads are grouped into batches that fit the 64 MB staging buffer.\<close>

definition batch_size :: "(nat \<Rightarrow> nat) \<Rightarrow> fetch_job list \<Rightarrow> nat" where
  "batch_size pool_nb2 singles =
     max 1 (SPAN_BYTES div fold max (map (\<lambda>j. pool_nb2 (fj_pool j)) singles) 0)"

function batches :: "nat \<Rightarrow> 'a list \<Rightarrow> 'a list list" where
  "batches n xs = (if xs = [] \<or> n = 0 then [] else take n xs # batches n (drop n xs))"
  by pat_completeness auto
termination
  by (relation "measure (length o snd)") auto

declare batches.simps [simp del]

lemma concat_batches: "0 < n \<Longrightarrow> concat (batches n xs) = xs"
proof (induction n xs rule: batches.induct)
  case (1 n xs)
  then show ?case
    by (subst batches.simps) (cases "xs = []", simp_all)
qed

lemma batch_size_pos: "0 < batch_size f js"
  by (simp add: batch_size_def)

subsection \<open>Coalescing loses no job and reads the same bytes\<close>

lemma coal_runs_jobs:
  "mset (concat (map fr_jobs (coal_runs gap nb2 r cur js))) = mset (fr_jobs cur) + mset js"
  by (induction js arbitrary: cur) (auto simp: Let_def new_run_def)

text \<open>
  Every run spans its jobs, starts from a single role and ends at one of its jobs: the range it reads
  is within the slabs that are wanted.
\<close>

definition run_ok :: "role \<Rightarrow> fetch_run \<Rightarrow> bool" where
  "run_ok r rr \<longleftrightarrow> fr_role rr = r \<and> (\<exists>j\<in>set (fr_jobs rr). fj_expert j = fr_hi rr) \<and>
     (\<exists>j\<in>set (fr_jobs rr). fj_pool j = fr_pool rr) \<and>
     (\<forall>j\<in>set (fr_jobs rr). fr_lo rr \<le> fj_expert j \<and> fj_expert j \<le> fr_hi rr)"

lemma run_ok_new: "run_ok r (new_run r j)"
  by (simp add: run_ok_def new_run_def)

lemma coal_runs_ok:
  assumes "run_ok r cur" "\<forall>j\<in>set js. fr_hi cur \<le> fj_expert j" "sorted (map fj_expert js)"
    "rr \<in> set (coal_runs gap nb2 r cur js)"
  shows "run_ok r rr"
  using assms
proof (induction js arbitrary: cur)
  case Nil
  then show ?case by simp
next
  case (Cons x js)
  show ?case
  proof (cases "fj_expert x - fr_hi cur - 1 \<le> gap \<and> (fj_expert x - fr_lo cur + 1) * nb2 \<le> SPAN_BYTES")
    case True
    then show ?thesis
      by (intro Cons.IH[of "cur\<lparr>fr_hi := fj_expert x, fr_jobs := fr_jobs cur @ [x]\<rparr>"])
        (use Cons.prems True in \<open>force simp: Let_def run_ok_def\<close>)+
  next
    case False
    then have "rr = cur \<or> rr \<in> set (coal_runs gap nb2 r (new_run r x) js)"
      using Cons.prems(4) by (auto simp: Let_def)
    then show ?thesis
      using Cons.IH[of "new_run r x"] Cons.prems by (auto simp: run_ok_new) (auto simp: new_run_def)
  qed
qed

lemma filter_runs_jobs:
  "mset (concat (map fr_jobs (filter (\<lambda>x. \<not> P x) rr))) + mset (concat (map fr_jobs (filter P rr))) =
     mset (concat (map fr_jobs rr))"
  by (induction rr) auto

lemma plan_rj_jobs:
  "mset (concat (map fr_jobs (fst (plan_rj gap f r rj)))) + mset (snd (plan_rj gap f r rj)) = mset rj"
proof (cases "sort_key fj_expert rj")
  case Nil
  then have "rj = []" by (metis mset_sort mset_zero_iff)
  then show ?thesis by (simp add: plan_rj_def)
next
  case (Cons j js)
  have "mset (j # js) = mset rj" by (metis Cons mset_sort)
  then show ?thesis
    by (simp add: plan_rj_def Let_def Cons filter_runs_jobs coal_runs_jobs) (simp add: new_run_def)
qed

lemma plan_rj_runs:
  assumes "rr \<in> set (fst (plan_rj gap f r rj))"
  shows "run_ok r rr"
proof (cases "sort_key fj_expert rj")
  case Nil
  with assms show ?thesis by (simp add: plan_rj_def split: if_splits)
next
  case (Cons j js)
  have "sorted (map fj_expert (j # js))" by (metis Cons sorted_sort_key)
  moreover have "rr \<in> set (coal_runs gap (f (fj_pool j)) r (new_run r j) js)"
    using assms by (simp add: plan_rj_def Cons Let_def split: if_splits)
  ultimately show ?thesis
    using coal_runs_ok[OF run_ok_new[of r j], of js rr gap "f (fj_pool j)"]
    by (simp add: new_run_def)
qed

lemma filter_roles:
  "mset (filter (\<lambda>j. fj_role j = GATE) js) + (mset (filter (\<lambda>j. fj_role j = UP) js) +
      mset (filter (\<lambda>j. fj_role j = DOWN) js)) = mset js"
proof (induction js)
  case (Cons j js)
  then show ?case by (cases "fj_role j") auto
qed simp

lemma plan_fetch_jobs:
  "mset (concat (map fr_jobs (fst (plan_fetch coal f jobs)))) + mset (snd (plan_fetch coal f jobs)) =
     mset jobs"
proof (cases coal)
  case None
  then show ?thesis by (simp add: plan_fetch_def)
next
  case (Some gap)
  let ?R = "\<lambda>r. mset (concat (map fr_jobs (fst (plan_role gap f jobs r))))"
  let ?S = "\<lambda>r. mset (snd (plan_role gap f jobs r))"
  have r: "?R r + ?S r = mset (filter (\<lambda>j. fj_role j = r) jobs)" for r
    unfolding plan_role_def by (rule plan_rj_jobs)
  have "mset (concat (map fr_jobs (fst (plan_fetch coal f jobs)))) + mset (snd (plan_fetch coal f jobs)) =
      (?R GATE + ?S GATE) + ((?R UP + ?S UP) + (?R DOWN + ?S DOWN))"
    unfolding plan_fetch_def Some
    by (simp only: option.case Let_def list.map concat.simps fst_conv snd_conv mset_append append_Nil2
        map_append concat_append) (simp only: ac_simps)
  also have "\<dots> = mset jobs" unfolding r by (rule filter_roles)
  finally show ?thesis .
qed

lemma plan_fetch_runs: "rr \<in> set (fst (plan_fetch coal f jobs)) \<Longrightarrow> run_ok (fr_role rr) rr"
  using plan_rj_runs
  by (auto simp: plan_fetch_def plan_role_def Let_def run_ok_def split: option.splits)

subsection \<open>A coalesced read returns the bytes of the single reads\<close>

lemma concat_chunks: "concat (map (\<lambda>i. take k (drop (i * k) xs)) [0..<n]) = take (n * k) xs"
  by (induction n) (simp_all add: take_add flip: add.commute[of "_ * k" k])

lemma run_geometry_simps:
  "rg_base (run_geometry off nb2 lo hi) = off + lo * nb2"
  "rg_span (run_geometry off nb2 lo hi) = (hi - lo + 1) * nb2"
  "rg_a0 (run_geometry off nb2 lo hi) + rg_delta (run_geometry off nb2 lo hi) = off + lo * nb2"
  by (simp_all add: run_geometry_def Let_def)

lemma round_up_4096: "x \<le> (x + 4095) div 4096 * 4096" "(x + 4095) div 4096 * (4096::nat) < x + 4096"
  using div_mult_mod_eq[of "x + 4095" 4096] mod_less_divisor[of 4096 "x + 4095"] by linarith+

lemma run_geometry_need:
  "rg_delta (run_geometry off nb2 lo hi) + (hi - lo + 1) * nb2 \<le> rg_need (run_geometry off nb2 lo hi)"
  "rg_need (run_geometry off nb2 lo hi) < rg_delta (run_geometry off nb2 lo hi) + (hi - lo + 1) * nb2 + 4096"
  "rg_need (run_geometry off nb2 lo hi) mod 4096 = 0"
  by (simp_all add: run_geometry_def Let_def round_up_4096)

text \<open>
  Every segment starts before the end of the wanted span, so the code's
  \<open>base + span - (a0 + o)\<close> does not wrap, and only the last segment may be short.
\<close>

lemma seg_offset_before_end:
  assumes "o' \<in> set (seg_offsets (rg_need g))" "g = run_geometry off nb2 lo hi"
  shows "rg_a0 g + o' < rg_base g + rg_span g" "o' < rg_need g"
proof -
  from assms(1) obtain i where i: "i < (rg_need g + SEG_BYTES - 1) div SEG_BYTES" "o' = i * SEG_BYTES"
    by (auto simp: seg_offsets_def)
  have "Suc i * SEG_BYTES \<le> rg_need g + SEG_BYTES - 1"
    using i(1) by (metis Suc_leI div_times_less_eq_dividend le_trans mult_le_mono1)
  then show lt: "o' < rg_need g" using i(2) by (simp add: SEG_BYTES_def)
  have "o' = (i * 2048) * 4096" using i(2) by (simp add: SEG_BYTES_def)
  moreover obtain b where b: "rg_need g = b * 4096"
    using run_geometry_need(3)[of off nb2 lo hi] unfolding assms(2)
    by (metis mod_0_imp_dvd dvd_div_mult_self)
  ultimately have "Suc (i * 2048) * 4096 \<le> b * 4096"
    using lt by (intro mult_le_mono1) simp
  with b have "o' + 4096 \<le> rg_need g" by (simp add: \<open>o' = (i * 2048) * 4096\<close>)
  then show "rg_a0 g + o' < rg_base g + rg_span g"
    using run_geometry_need(2)[of off nb2 lo hi] run_geometry_simps[of off nb2 lo hi]
    unfolding assms(2) by linarith
qed

lemma read_seg_chunk:
  assumes "o' < rg_need g"
  shows "take (min SEG_BYTES (rg_need g - o')) (drop (rg_a0 g + o') bs) =
    take SEG_BYTES (drop o' (take (rg_need g) (drop (rg_a0 g) bs)))"
  using assms by (simp add: drop_take take_take min.commute add.commute)

lemma seg_offsets_cover: "need \<le> (need + SEG_BYTES - 1) div SEG_BYTES * SEG_BYTES"
  using div_mult_mod_eq[of "need + SEG_BYTES - 1" SEG_BYTES]
    mod_less_divisor[of SEG_BYTES "need + SEG_BYTES - 1"] by (simp add: SEG_BYTES_def)

text \<open>
  The workers accept a range exactly when the file covers the wanted span, and the staging buffer
  then holds the aligned range (cut at the end of the file).
\<close>

lemma read_run_Some:
  fixes m :: "'b wsource"
  assumes fs: "ws_fs m (ws_path m (fr_role rn) layer) = Some bs"
    and g: "g = run_geometry (ws_off m (fr_role rn) layer) nb2 (fr_lo rn) (fr_hi rn)"
    and cover: "rg_base g + rg_span g \<le> length bs"
  shows "read_run m layer nb2 rn = Some (take (rg_need g) (drop (rg_a0 g) bs))"
proof -
  let ?X = "take (rg_need g) (drop (rg_a0 g) bs)"
  have seg: "read_seg bs g o' = Some (take SEG_BYTES (drop o' ?X))"
    if "o' \<in> set (seg_offsets (rg_need g))" for o'
  proof -
    note o = seg_offset_before_end[OF that g]
    have "\<not> length (take (min SEG_BYTES (rg_need g - o')) (drop (rg_a0 g + o') bs)) <
        min (min SEG_BYTES (rg_need g - o')) (rg_base g + rg_span g - (rg_a0 g + o'))"
      unfolding length_take length_drop not_less min.commute[of "length bs - _"]
      by (intro min.mono order_refl diff_le_mono cover)
    then show ?thesis
      unfolding read_seg_def Let_def read_seg_chunk[OF o(2), symmetric] by simp
  qed
  have "map (\<lambda>o'. the (read_seg bs g o')) (seg_offsets (rg_need g)) =
      map (\<lambda>o'. take SEG_BYTES (drop o' ?X)) (seg_offsets (rg_need g))"
    using seg by (intro map_cong) auto
  moreover have "list_all (\<lambda>s. s \<noteq> None) (map (read_seg bs g) (seg_offsets (rg_need g)))"
    using seg by (auto simp: list_all_iff)
  moreover have "concat (map (\<lambda>o'. take SEG_BYTES (drop o' ?X)) (seg_offsets (rg_need g))) = ?X"
    using concat_chunks[of SEG_BYTES ?X] seg_offsets_cover[of "rg_need g"]
    by (simp add: seg_offsets_def comp_def)
  ultimately show ?thesis
    by (simp only: read_run_def fs option.case Let_def g[symmetric] if_True map_map comp_def)
qed

lemma read_run_short:
  fixes m :: "'b wsource"
  assumes fs: "ws_fs m (ws_path m (fr_role rn) layer) = Some bs" and pos: "0 < nb2"
    and g: "g = run_geometry (ws_off m (fr_role rn) layer) nb2 (fr_lo rn) (fr_hi rn)"
    and short: "length bs < rg_base g + rg_span g"
  shows "read_run m layer nb2 rn = None"
proof -
  define k where "k = (rg_need g + SEG_BYTES - 1) div SEG_BYTES"
  have need: "0 < rg_need g"
    using run_geometry_need(1)[of "ws_off m (fr_role rn) layer" nb2 "fr_lo rn" "fr_hi rn"] pos
    unfolding g by (simp add: add_pos_pos)
  have kpos: "0 < k" using need by (simp add: k_def SEG_BYTES_def div_greater_zero_iff)
  let ?o = "(k - 1) * SEG_BYTES"
  have mem: "?o \<in> set (seg_offsets (rg_need g))"
    using kpos by (auto simp: seg_offsets_def k_def)
  have "rg_need g \<le> ?o + SEG_BYTES"
    using seg_offsets_cover[of "rg_need g"] kpos by (cases k) (auto simp: k_def)
  moreover have "rg_base g + rg_span g \<le> rg_a0 g + rg_need g"
    using run_geometry_need(1)[of "ws_off m (fr_role rn) layer" nb2 "fr_lo rn" "fr_hi rn"]
      run_geometry_simps[of "ws_off m (fr_role rn) layer" nb2 "fr_lo rn" "fr_hi rn"]
    unfolding g by linarith
  ultimately have len: "min SEG_BYTES (rg_need g - ?o) = rg_need g - ?o"
    and e: "rg_base g + rg_span g - (rg_a0 g + ?o) \<le> rg_need g - ?o"
    by linarith+
  have "length bs - (rg_a0 g + ?o) < rg_base g + rg_span g - (rg_a0 g + ?o)"
    using short seg_offset_before_end(1)[OF mem g] by linarith
  then have "length (take (min SEG_BYTES (rg_need g - ?o)) (drop (rg_a0 g + ?o) bs)) <
      min (min SEG_BYTES (rg_need g - ?o)) (rg_base g + rg_span g - (rg_a0 g + ?o))"
    unfolding len length_take length_drop min_absorb2[OF e] by (rule min.strict_coboundedI1)
  then have "read_seg bs g ?o = None"
    by (simp only: read_seg_def Let_def if_True)
  with mem have "\<not> list_all (\<lambda>s. s \<noteq> None) (map (read_seg bs g) (seg_offsets (rg_need g)))"
    unfolding list_all_iff set_map by blast
  then show ?thesis
    by (simp only: read_run_def fs option.case Let_def g[symmetric] if_False)
qed

lemma run_slab_eq:
  fixes m :: "'b wsource"
  assumes read: "read_run m layer nb2 rn = Some cbuf" and nb2: "nb2 = ws_nb2 m (fr_role rn) layer" "0 < nb2"
    and j: "fr_lo rn \<le> fj_expert j" "fj_expert j \<le> fr_hi rn"
  shows "expert_slab m True (fr_role rn) layer (fj_expert j) = Some (run_slab m layer nb2 rn cbuf j)"
proof -
  let ?off = "ws_off m (fr_role rn) layer"
  define g where "g = run_geometry ?off nb2 (fr_lo rn) (fr_hi rn)"
  obtain bs where fs: "ws_fs m (ws_path m (fr_role rn) layer) = Some bs"
    using read by (auto simp: read_run_def split: option.splits)
  have cover: "rg_base g + rg_span g \<le> length bs"
    using read_run_short[OF fs nb2(2) g_def] read by (metis leI option.distinct(1))
  have cbuf: "cbuf = take (rg_need g) (drop (rg_a0 g) bs)"
    using read_run_Some[OF fs g_def cover] read by simp
  obtain d where d: "fj_expert j = fr_lo rn + d" using j(1) le_Suc_ex by blast
  have dn: "d * nb2 + nb2 \<le> (fr_hi rn - fr_lo rn + 1) * nb2"
    using j d by (metis add.commute add_le_cancel_right add_le_imp_le_diff add_mult_distrib mult_le_mono1 nat_mult_1)
  have sum: "rg_a0 g + rg_delta g = ?off + fr_lo rn * nb2" "rg_base g = ?off + fr_lo rn * nb2"
    "rg_span g = (fr_hi rn - fr_lo rn + 1) * nb2"
    by (simp_all add: g_def run_geometry_simps)
  have fit: "rg_delta g + (d * nb2 + nb2) \<le> rg_need g"
    using run_geometry_need(1)[of ?off nb2 "fr_lo rn" "fr_hi rn"] dn unfolding g_def by linarith
  have "run_slab m layer nb2 rn cbuf j = take nb2 (drop (rg_delta g + d * nb2) cbuf)"
    by (simp add: run_slab_def Let_def g_def d)
  also have "\<dots> = take nb2 (drop (rg_a0 g + rg_delta g + d * nb2) bs)"
    unfolding cbuf using fit by (simp add: drop_take take_take add.commute add.left_commute)
  also have "\<dots> = take nb2 (drop (?off + fj_expert j * nb2) bs)"
    unfolding sum d by (simp add: add_mult_distrib add.assoc)
  finally have slab: "run_slab m layer nb2 rn cbuf j = take nb2 (drop (?off + fj_expert j * nb2) bs)" .
  have "?off + fj_expert j * nb2 + nb2 \<le> length bs"
    using cover dn unfolding sum d add_mult_distrib by linarith
  then show ?thesis
    using slab nb2 fs by (simp add: expert_slab_def fread_at_def Let_def)
qed

text \<open>Where every wanted slab can be read on its own, the coalesced read succeeds.\<close>

lemma read_run_succeeds:
  fixes m :: "'b wsource"
  assumes "run_ok r rn" "nb2 = ws_nb2 m r layer"
    "\<And>j. j \<in> set (fr_jobs rn) \<Longrightarrow> expert_slab m True r layer (fj_expert j) \<noteq> None"
  shows "\<exists>cbuf. read_run m layer nb2 rn = Some cbuf"
proof -
  from assms(1) obtain j where j: "j \<in> set (fr_jobs rn)" "fj_expert j = fr_hi rn"
    "fr_lo rn \<le> fr_hi rn" "fr_role rn = r"
    by (auto simp: run_ok_def)
  with assms(2) assms(3)[OF j(1)] obtain bs where bs: "ws_fs m (ws_path m r layer) = Some bs"
    "ws_off m r layer + fr_hi rn * nb2 + nb2 \<le> length bs"
    by (auto simp: expert_slab_def fread_at_def Let_def split: option.splits if_splits)
  obtain d where d: "fr_hi rn = fr_lo rn + d" using j(3) le_Suc_ex by blast
  have "rg_base (run_geometry (ws_off m r layer) nb2 (fr_lo rn) (fr_hi rn)) +
      rg_span (run_geometry (ws_off m r layer) nb2 (fr_lo rn) (fr_hi rn)) \<le> length bs"
    using bs(2) by (simp add: run_geometry_simps d add_mult_distrib)
  with read_run_Some[of m rn layer bs _ nb2, OF _ refl] bs(1) j(4) show ?thesis by auto
qed

end
