(* ===== verification/Expert_Cache.thy ===== *)
theory Expert_Cache
  imports Expert_Fetch
begin

section \<open>The expert cache\<close>

text \<open>
  \<open>ExpertCache\<close> of \<open>core/expert_cache.cpp\<close>. A cache owns a list of pools and, per role and layer,
  the pool that layer uses (\<open>None\<close> is the code's \<open>-1\<close>, a layer of another device). Every operation
  is a function on the cache record; the ones that read expert weights may throw and then return
  the cache as the throw leaves it. A pool is passed by its index, where the code passes a
  reference into \<open>pools_\<close>. Timings and log lines are left out. \<open>ec_coal\<close> is the value of the
  environment switches \<open>QWEN_COALESCE\<close> and \<open>QWEN_COALESCE_GAP\<close>. Asynchronous uploads are ordered
  on one backend stream before any later use of the slot, so an upload is a write.
\<close>

record 'b ecache =
  ec_n_layer :: nat
  ec_n_expert :: nat
  ec_n_used :: nat
  ec_ssd :: bool
  ec_coal :: "nat option"
  ec_quota_on :: bool
  ec_pools :: "'b pool list"
  ec_layer_pool :: "role \<Rightarrow> nat option list"
  ec_clock :: nat
  ec_hits :: nat
  ec_misses :: nat
  ec_evictions :: nat
  ec_fetch_bytes :: nat
  ec_l_hits :: "nat list"
  ec_l_misses :: "nat list"
  ec_l_evict :: "nat list"
  ec_l_want :: "nat list"
  ec_l_wmiss :: "nat list"

definition roles :: "role list" where "roles = [GATE, UP, DOWN]"

definition bump :: "nat list \<Rightarrow> nat \<Rightarrow> nat list" where "bump xs i = xs[i := xs ! i + 1]"

definition serves :: "'b ecache \<Rightarrow> nat \<Rightarrow> bool" where
  "serves c layer = (layer < ec_n_layer c \<and> ec_layer_pool c GATE ! layer \<noteq> None)"

definition pool_ix :: "'b ecache \<Rightarrow> role \<Rightarrow> nat \<Rightarrow> nat" where
  "pool_ix c r layer = the (ec_layer_pool c r ! layer)"

definition pool_at :: "'b ecache \<Rightarrow> role \<Rightarrow> nat \<Rightarrow> 'b pool" where
  "pool_at c r layer = ec_pools c ! pool_ix c r layer"

definition upd_pool :: "nat \<Rightarrow> ('b pool \<Rightarrow> 'b pool) \<Rightarrow> 'b ecache \<Rightarrow> 'b ecache" where
  "upd_pool pi f c = c\<lparr>ec_pools := (ec_pools c)[pi := f (ec_pools c ! pi)]\<rparr>"

subsection \<open>Queries\<close>

definition tensor :: "'b ecache \<Rightarrow> role \<Rightarrow> nat \<Rightarrow> exn + 'b list list" where
  "tensor c r layer =
     (if \<not> serves c layer then Inl (Runtime_error ''ExpertCache::tensor on a layer this device does not serve'')
      else Inr (pl_t (pool_at c r layer)))"

definition min_slots :: "'b ecache \<Rightarrow> nat" where
  "min_slots c =
     fold min (map pl_n_slots (ec_pools c)) (case ec_pools c of [] \<Rightarrow> 0 | p # _ \<Rightarrow> pl_n_slots p)"

definition INT32_MAX :: int where "INT32_MAX = 2147483647"

definition capacity :: "'b ecache \<Rightarrow> nat \<Rightarrow> int" where
  "capacity c layer =
     (if \<not> serves c layer then 0
      else fold (\<lambda>r m. let p = pool_at c r layer in
             min m (if ec_quota_on c \<and> pl_quota p ! layer \<ge> 0
                    then max (pl_quota p ! layer) (int (ec_n_used c)) else int (pl_n_slots p)))
           roles INT32_MAX)"

definition quota_of :: "'b ecache \<Rightarrow> nat \<Rightarrow> int" where
  "quota_of c layer =
     (if \<not> serves c layer then 0
      else fold (\<lambda>r m. let p = pool_at c r layer in
             min m (if pl_quota p ! layer \<ge> 0 then pl_quota p ! layer else int (pl_n_slots p)))
           roles INT32_MAX)"

definition resident :: "'b ecache \<Rightarrow> role \<Rightarrow> nat \<Rightarrow> nat \<Rightarrow> bool" where
  "resident c r layer e =
     (serves c layer \<and> map_of (pl_key2slot (pool_at c r layer)) (layer * ec_n_expert c + e) \<noteq> None)"

definition slot_of_row :: "'b ecache \<Rightarrow> role \<Rightarrow> nat \<Rightarrow> nat list" where
  "slot_of_row c r layer = take (ec_n_expert c) (drop (layer * ec_n_expert c) (pl_slot_of (pool_at c r layer)))"

subsection \<open>Loading a slot\<close>

definition upload :: "nat \<Rightarrow> nat \<Rightarrow> 'b list \<Rightarrow> 'b ecache \<Rightarrow> 'b ecache" where
  "upload pi slot slab c =
     (upd_pool pi (pool_write slot slab) c)\<lparr>ec_fetch_bytes := ec_fetch_bytes c + pl_nb2 (ec_pools c ! pi)\<rparr>"

definition fetch_slab :: "'b wsource \<Rightarrow> role \<Rightarrow> nat \<Rightarrow> nat \<Rightarrow> nat \<Rightarrow> nat \<Rightarrow> ('b ecache, unit) prog" where
  "fetch_slab m r layer e pi slot c =
     (if pl_nb2 (ec_pools c ! pi) \<noteq> ws_nb2 m r layer
      then (Inl (Runtime_error ''ExpertCache: slab size mismatch (pool vs source)''), c)
      else case expert_slab m (ec_ssd c) r layer e of
             None \<Rightarrow>
               (Inl (Runtime_error
                  (if ws_fs m (ws_path m r layer) = None
                   then ''ExpertCache: failed to open shard: '' @ ws_path m r layer
                   else ''ExpertCache: SSD pread failed'')), c)
           | Some slab \<Rightarrow> (Inr (), upload pi slot slab c))"

definition drop_slot :: "nat \<Rightarrow> nat \<Rightarrow> 'b ecache \<Rightarrow> 'b ecache" where
  "drop_slot pi slot c =
     (case pl_slot2key (ec_pools c ! pi) ! slot of
        None \<Rightarrow> c
      | Some k \<Rightarrow>
          (upd_pool pi (pool_drop (ec_n_expert c) slot k) c)
            \<lparr>ec_l_evict := bump (ec_l_evict c) (k div ec_n_expert c),
             ec_evictions := ec_evictions c + 1\<rparr>)"

definition claim_slot :: "nat \<Rightarrow> nat \<Rightarrow> nat \<Rightarrow> nat \<Rightarrow> 'b ecache \<Rightarrow> 'b ecache" where
  "claim_slot pi layer slot key c =
     (let now = ec_clock c + 1 in (upd_pool pi (pool_claim layer slot key now) c)\<lparr>ec_clock := now\<rparr>)"

definition install :: "'b wsource \<Rightarrow> nat \<Rightarrow> nat \<Rightarrow> nat \<Rightarrow> nat \<Rightarrow> role \<Rightarrow> ('b ecache, nat) prog" where
  "install m pi key layer e r c =
     (case pick_victim (ec_quota_on c) (ec_n_expert c) (ec_pools c ! pi) layer of
        None \<Rightarrow> (Inl Undefined_behaviour, c)
      | Some victim \<Rightarrow>
          (case fetch_slab m r layer e pi victim (drop_slot pi victim c) of
             (Inl x, c') \<Rightarrow> (Inl x, c')
           | (Inr _, c') \<Rightarrow> (Inr victim, claim_slot pi layer victim key c')))"

definition reserve_victim :: "nat \<Rightarrow> nat \<Rightarrow> ('b ecache, nat) prog" where
  "reserve_victim pi key c =
     (let layer = key div ec_n_expert c in
      case pick_victim (ec_quota_on c) (ec_n_expert c) (ec_pools c ! pi) layer of
        None \<Rightarrow> (Inl Undefined_behaviour, c)
      | Some victim \<Rightarrow> (Inr victim, claim_slot pi layer victim key (drop_slot pi victim c)))"

definition count_hit :: "nat \<Rightarrow> nat \<Rightarrow> nat \<Rightarrow> 'b ecache \<Rightarrow> 'b ecache" where
  "count_hit pi layer slot c =
     (let now = ec_clock c + 1 in
      (upd_pool pi (pool_stamp slot now) c)
        \<lparr>ec_clock := now, ec_hits := ec_hits c + 1, ec_l_hits := bump (ec_l_hits c) layer\<rparr>)"

definition count_miss :: "nat \<Rightarrow> 'b ecache \<Rightarrow> 'b ecache" where
  "count_miss layer c = c\<lparr>ec_misses := ec_misses c + 1, ec_l_misses := bump (ec_l_misses c) layer\<rparr>"

definition slot_for :: "'b wsource \<Rightarrow> nat \<Rightarrow> nat \<Rightarrow> nat \<Rightarrow> role \<Rightarrow> ('b ecache, nat) prog" where
  "slot_for m pi layer e r c =
     (let key = layer * ec_n_expert c + e; c1 = upd_pool pi (pool_count key) c in
      case map_of (pl_key2slot (ec_pools c ! pi)) key of
        Some s \<Rightarrow> (Inr s, count_hit pi layer s c1)
      | None \<Rightarrow> install m pi key layer e r (count_miss layer c1))"

definition touch :: "role \<Rightarrow> nat \<Rightarrow> nat \<Rightarrow> 'b ecache \<Rightarrow> 'b ecache" where
  "touch r layer e c =
     (if \<not> serves c layer then c
      else let pi = pool_ix c r layer; key = layer * ec_n_expert c + e in
        case map_of (pl_key2slot (ec_pools c ! pi)) key of
          None \<Rightarrow> c
        | Some s \<Rightarrow> count_hit pi layer s (upd_pool pi (pool_count key) c))"

subsection \<open>Reading a set of reserved slots from the SSD\<close>

definition nb2_of :: "'b ecache \<Rightarrow> nat \<Rightarrow> nat" where "nb2_of c pi = pl_nb2 (ec_pools c ! pi)"

definition fetch_run_slabs :: "'b wsource \<Rightarrow> nat \<Rightarrow> fetch_run \<Rightarrow> ('b ecache, unit) prog" where
  "fetch_run_slabs m layer rn c =
     (let nb2 = nb2_of c (fr_pool rn) in
      case read_run m layer nb2 rn of
        None \<Rightarrow> (Inl (Runtime_error ''ExpertCache: coalesced SSD read failed''), c)
      | Some cbuf \<Rightarrow>
          (Inr (), fold (\<lambda>j. upload (fr_pool rn) (fj_slot j) (run_slab m layer nb2 rn cbuf j)) (fr_jobs rn) c))"

definition read_job :: "'b wsource \<Rightarrow> nat \<Rightarrow> 'b ecache \<Rightarrow> fetch_job \<Rightarrow> 'b list option" where
  "read_job m layer c j =
     (let nb2 = nb2_of c (fj_pool j) in
      fread_at m (ws_path m (fj_role j) layer) (ws_off m (fj_role j) layer + fj_expert j * nb2) nb2)"

definition fetch_batch :: "'b wsource \<Rightarrow> nat \<Rightarrow> fetch_job list \<Rightarrow> ('b ecache, unit) prog" where
  "fetch_batch m layer js c =
     (let slabs = map (read_job m layer c) js in
      if list_all (\<lambda>s. s \<noteq> None) slabs
      then (Inr (), fold (\<lambda>(j, s). upload (fj_pool j) (fj_slot j) (the s)) (zip js slabs) c)
      else (Inl (Runtime_error ''ExpertCache: parallel SSD read failed''), c))"

definition fetch_parallel :: "'b wsource \<Rightarrow> nat \<Rightarrow> fetch_job list \<Rightarrow> ('b ecache, unit) prog" where
  "fetch_parallel m layer jobs c =
     (case plan_fetch (ec_coal c) (nb2_of c) jobs of
        (runs, singles) \<Rightarrow>
          (case for_each (fetch_run_slabs m layer) runs c of
             (Inl x, c') \<Rightarrow> (Inl x, c')
           | (Inr _, c') \<Rightarrow>
               (case for_each (fetch_batch m layer) (batches (batch_size (nb2_of c) singles) singles) c' of
                  (Inl x, c'') \<Rightarrow> (Inl x, c'')
                | (Inr _, c'') \<Rightarrow> (Inr (), c''))))"

subsection \<open>ensure\<close>

text \<open>
  The two nested loops over the expert ids and the roles are one loop over their pairs, in the same
  order. \<open>out_slots\<close> sorts the results into the three output arrays.
\<close>

definition wants :: "nat list \<Rightarrow> (nat \<times> role) list" where
  "wants ids = concat (map (\<lambda>e. map (\<lambda>r. (e, r)) roles) ids)"

definition out_slots :: "nat list \<Rightarrow> nat list \<Rightarrow> role \<Rightarrow> nat list" where
  "out_slots ids ss r = map snd (filter (\<lambda>(w, s). snd w = r) (zip (wants ids) ss))"

definition ensure_ram :: "'b wsource \<Rightarrow> nat \<Rightarrow> nat \<times> role \<Rightarrow> ('b ecache, nat) prog" where
  "ensure_ram m layer w c = slot_for m (pool_ix c (snd w) layer) layer (fst w) (snd w) c"

definition ensure_ssd :: "nat \<Rightarrow> nat \<times> role \<Rightarrow> ('b ecache, nat \<times> fetch_job option) prog" where
  "ensure_ssd layer w c =
     (case w of (e, r) \<Rightarrow>
        let pi = pool_ix c r layer; key = layer * ec_n_expert c + e; c1 = upd_pool pi (pool_count key) c in
        case map_of (pl_key2slot (ec_pools c ! pi)) key of
          Some s \<Rightarrow> (Inr (s, None), count_hit pi layer s c1)
        | None \<Rightarrow>
            (case reserve_victim pi key (count_miss layer c1) of
               (Inl x, c') \<Rightarrow> (Inl x, c')
             | (Inr s, c') \<Rightarrow>
                 (Inr (s, Some \<lparr>fj_pool = pi, fj_role = r, fj_expert = e, fj_slot = s\<rparr>), c')))"

definition ensure :: "'b wsource \<Rightarrow> nat \<Rightarrow> nat list \<Rightarrow> ('b ecache, role \<Rightarrow> nat list) prog" where
  "ensure m layer ids c =
     (if \<not> serves c layer
      then (Inl (Runtime_error ''ExpertCache::ensure on a layer this device does not serve''), c)
      else if \<not> ec_ssd c
      then (case for_each (ensure_ram m layer) (wants ids) c of
              (Inl x, c') \<Rightarrow> (Inl x, c')
            | (Inr ss, c') \<Rightarrow> (Inr (out_slots ids ss), c'))
      else (case for_each (ensure_ssd layer) (wants ids) c of
              (Inl x, c') \<Rightarrow> (Inl x, c')
            | (Inr rs, c') \<Rightarrow>
                (case fetch_parallel m layer (List.map_filter snd rs) c' of
                   (Inl x, c'') \<Rightarrow> (Inl x, c'')
                 | (Inr _, c'') \<Rightarrow> (Inr (out_slots ids (map fst rs)), c''))))"

definition ensure_role :: "'b wsource \<Rightarrow> nat \<Rightarrow> nat \<Rightarrow> role \<Rightarrow> ('b ecache, unit) prog" where
  "ensure_role m layer e r c =
     (let pi = pool_ix c r layer; key = layer * ec_n_expert c + e in
      case map_of (pl_key2slot (ec_pools c ! pi)) key of
        Some _ \<Rightarrow> (Inr (), c)
      | None \<Rightarrow> (case install m pi key layer e r (count_miss layer c) of
                   (Inl x, c') \<Rightarrow> (Inl x, c') | (Inr _, c') \<Rightarrow> (Inr (), c')))"

definition ensure_resident :: "'b wsource \<Rightarrow> nat \<Rightarrow> nat \<Rightarrow> ('b ecache, unit) prog" where
  "ensure_resident m layer e c =
     (if \<not> serves c layer then (Inr (), c)
      else case for_each (ensure_role m layer e) roles c of
             (Inl x, c') \<Rightarrow> (Inl x, c') | (Inr _, c') \<Rightarrow> (Inr (), c'))"

subsection \<open>The cache invariant\<close>

text \<open>
  \<open>ec_static\<close>: routing is total for a served layer, each role goes to a pool of that role whose slab
  size is the layer's; \<open>ec_dyn\<close>: every pool is well formed, non-empty and carries no clock from the
  future; \<open>data_ok\<close>: every occupied slot, except the pending ones, holds the slab of its key.
\<close>

definition ec_static :: "'b wsource \<Rightarrow> 'b ecache \<Rightarrow> bool" where
  "ec_static m c \<longleftrightarrow>
     0 < ec_n_expert c \<and> (\<forall>r. length (ec_layer_pool c r) = ec_n_layer c) \<and>
     (\<forall>layer r. serves c layer \<longrightarrow>
        (\<exists>pi. ec_layer_pool c r ! layer = Some pi \<and> pi < length (ec_pools c) \<and>
           pl_role (ec_pools c ! pi) = r \<and> pl_nb2 (ec_pools c ! pi) = ws_nb2 m r layer \<and>
           0 < ws_nb2 m r layer \<and> quota_uniform (ec_pools c ! pi) layer))"

definition ec_dyn :: "'b ecache \<Rightarrow> bool" where
  "ec_dyn c \<longleftrightarrow>
     (\<forall>pi < length (ec_pools c). pool_wf (ec_n_layer c) (ec_n_expert c) (ec_pools c ! pi) \<and>
        0 < pl_n_slots (ec_pools c ! pi) \<and>
        (\<forall>s < pl_n_slots (ec_pools c ! pi). pl_clk (ec_pools c ! pi) ! s \<le> ec_clock c))"

definition slot_ok :: "'b wsource \<Rightarrow> bool \<Rightarrow> nat \<Rightarrow> 'b pool \<Rightarrow> nat \<Rightarrow> bool" where
  "slot_ok m ssd n_expert p s \<longleftrightarrow>
     (\<forall>k. pl_slot2key p ! s = Some k \<longrightarrow>
        expert_slab m ssd (pl_role p) (k div n_expert) (k mod n_expert) = Some (pl_t p ! s))"

definition data_ok :: "'b wsource \<Rightarrow> (nat \<times> nat) set \<Rightarrow> 'b ecache \<Rightarrow> bool" where
  "data_ok m P c \<longleftrightarrow>
     (\<forall>pi < length (ec_pools c). \<forall>s < pl_n_slots (ec_pools c ! pi).
        (pi, s) \<notin> P \<longrightarrow> slot_ok m (ec_ssd c) (ec_n_expert c) (ec_pools c ! pi) s)"

definition ec_inv :: "'b wsource \<Rightarrow> (nat \<times> nat) set \<Rightarrow> 'b ecache \<Rightarrow> bool" where
  "ec_inv m P c \<longleftrightarrow> ec_static m c \<and> ec_dyn c \<and> data_ok m P c"

text \<open>An operation whose effect on the pools is to replace pool \<open>pi\<close> by \<open>p'\<close> of the same shape.\<close>

definition ec_core :: "'b ecache \<Rightarrow> nat \<times> nat \<times> nat \<times> bool \<times> nat option \<times> bool \<times> (role \<Rightarrow> nat option list)" where
  "ec_core c = (ec_n_layer c, ec_n_expert c, ec_n_used c, ec_ssd c, ec_coal c, ec_quota_on c, ec_layer_pool c)"

definition pool_shape :: "'b pool \<Rightarrow> role \<times> nat \<times> nat \<times> int list" where
  "pool_shape p = (pl_role p, pl_nb2 p, pl_n_slots p, pl_quota p)"

definition ec_eff :: "nat \<Rightarrow> 'b pool \<Rightarrow> nat \<Rightarrow> 'b ecache \<Rightarrow> 'b ecache \<Rightarrow> bool" where
  "ec_eff pi p' now c c' \<longleftrightarrow>
     ec_core c' = ec_core c \<and> ec_pools c' = (ec_pools c)[pi := p'] \<and> ec_clock c' = now"

lemma ec_eff_trans: "ec_eff pi p1 t1 c c1 \<Longrightarrow> ec_eff pi p2 t2 c1 c2 \<Longrightarrow> ec_eff pi p2 t2 c c2"
  by (simp add: ec_eff_def)

lemma ec_core_simps:
  assumes "ec_core c' = ec_core c"
  shows "ec_n_layer c' = ec_n_layer c" "ec_n_expert c' = ec_n_expert c" "ec_n_used c' = ec_n_used c"
    "ec_ssd c' = ec_ssd c" "ec_coal c' = ec_coal c" "ec_quota_on c' = ec_quota_on c"
    "ec_layer_pool c' = ec_layer_pool c" "serves c' = serves c" "pool_ix c' = pool_ix c"
  using assms by (auto simp: ec_core_def serves_def pool_ix_def fun_eq_iff)

lemma ec_eff_upd: "ec_eff pi (f (ec_pools c ! pi)) (ec_clock c) c (upd_pool pi f c)"
  by (simp add: ec_eff_def upd_pool_def ec_core_def)

lemma ec_eff_drop:
  "pi < length (ec_pools c) \<Longrightarrow>
     ec_eff pi (pool_release (ec_n_expert c) slot (ec_pools c ! pi)) (ec_clock c) c (drop_slot pi slot c)"
  by (simp add: ec_eff_def drop_slot_def pool_release_def upd_pool_def ec_core_def split: option.splits)

lemma ec_eff_claim:
  "ec_eff pi (pool_claim layer slot key (ec_clock c + 1) (ec_pools c ! pi)) (ec_clock c + 1) c
     (claim_slot pi layer slot key c)"
  by (simp add: ec_eff_def claim_slot_def upd_pool_def ec_core_def Let_def)

lemma ec_eff_upload: "ec_eff pi (pool_write slot slab (ec_pools c ! pi)) (ec_clock c) c (upload pi slot slab c)"
  by (simp add: ec_eff_def upload_def upd_pool_def ec_core_def)

lemma ec_eff_hit:
  "ec_eff pi (pool_stamp slot (ec_clock c + 1) (ec_pools c ! pi)) (ec_clock c + 1) c (count_hit pi layer slot c)"
  by (simp add: ec_eff_def count_hit_def upd_pool_def ec_core_def Let_def)

lemma ec_eff_miss: "pi < length (ec_pools c) \<Longrightarrow> ec_eff pi (ec_pools c ! pi) (ec_clock c) c (count_miss layer c)"
  by (simp add: ec_eff_def count_miss_def ec_core_def)

lemma ec_inv_eff:
  assumes inv: "ec_inv m P c" and eff: "ec_eff pi p' now c c'" and pi: "pi < length (ec_pools c)"
    and wf: "pool_wf (ec_n_layer c) (ec_n_expert c) p'" and shape: "pool_shape p' = pool_shape (ec_pools c ! pi)"
    and clk: "\<And>s. s < pl_n_slots p' \<Longrightarrow> pl_clk p' ! s \<le> now" "ec_clock c \<le> now"
    and data: "\<And>s. s < pl_n_slots p' \<Longrightarrow> (pi, s) \<notin> P' \<Longrightarrow> slot_ok m (ec_ssd c) (ec_n_expert c) p' s"
    and P': "\<And>pj s. pj \<noteq> pi \<Longrightarrow> (pj, s) \<in> P \<Longrightarrow> (pj, s) \<in> P'"
  shows "ec_inv m P' c'"
proof -
  note core = ec_core_simps[OF conjunct1[OF eff[unfolded ec_eff_def]]]
  have pools: "ec_pools c' = (ec_pools c)[pi := p']" and now: "ec_clock c' = now"
    using eff by (simp_all add: ec_eff_def)
  have nth: "ec_pools c' ! j = (if j = pi then p' else ec_pools c ! j)" for j
    using pi by (simp add: pools)
  have len: "length (ec_pools c') = length (ec_pools c)" by (simp add: pools)
  have same: "pl_role (ec_pools c' ! j) = pl_role (ec_pools c ! j) \<and> pl_nb2 (ec_pools c' ! j) = pl_nb2 (ec_pools c ! j)
      \<and> pl_quota (ec_pools c' ! j) = pl_quota (ec_pools c ! j)" for j
    using shape by (simp add: nth pool_shape_def)
  then have "ec_static m c'"
    using inv unfolding ec_inv_def ec_static_def core quota_uniform_def by (simp add: len)
  moreover have "ec_dyn c'"
    using inv wf clk shape unfolding ec_inv_def ec_dyn_def core now
    by (auto simp: nth len pool_shape_def intro: le_trans)
  moreover have "data_ok m P' c'"
    unfolding data_ok_def core len
  proof (intro allI impI)
    fix j s assume j: "j < length (ec_pools c)" "s < pl_n_slots (ec_pools c' ! j)" "(j, s) \<notin> P'"
    show "slot_ok m (ec_ssd c) (ec_n_expert c) (ec_pools c' ! j) s"
      using inv data[of s] P'[of j s] j by (cases "j = pi") (auto simp: nth ec_inv_def data_ok_def)
  qed
  ultimately show ?thesis by (simp add: ec_inv_def)
qed

lemma ec_inv_mono: "ec_inv m P c \<Longrightarrow> P \<subseteq> P' \<Longrightarrow> ec_inv m P' c"
  by (auto simp: ec_inv_def data_ok_def)

lemma ec_invD:
  assumes "ec_inv m P c" "pi < length (ec_pools c)"
  shows "pool_wf (ec_n_layer c) (ec_n_expert c) (ec_pools c ! pi)" "0 < pl_n_slots (ec_pools c ! pi)"
    "\<And>s. s < pl_n_slots (ec_pools c ! pi) \<Longrightarrow> pl_clk (ec_pools c ! pi) ! s \<le> ec_clock c"
    "\<And>s. s < pl_n_slots (ec_pools c ! pi) \<Longrightarrow> (pi, s) \<notin> P \<Longrightarrow>
       slot_ok m (ec_ssd c) (ec_n_expert c) (ec_pools c ! pi) s"
  using assms by (auto simp: ec_inv_def ec_dyn_def data_ok_def)

lemma ec_routing:
  assumes "ec_inv m P c" "serves c layer"
  shows "layer < ec_n_layer c" "pool_ix c r layer < length (ec_pools c)"
    "pl_role (ec_pools c ! pool_ix c r layer) = r"
    "pl_nb2 (ec_pools c ! pool_ix c r layer) = ws_nb2 m r layer"
    "quota_uniform (ec_pools c ! pool_ix c r layer) layer" "0 < ws_nb2 m r layer"
proof -
  from assms obtain pi where "ec_layer_pool c r ! layer = Some pi" "pi < length (ec_pools c)"
    "pl_role (ec_pools c ! pi) = r" "pl_nb2 (ec_pools c ! pi) = ws_nb2 m r layer"
    "quota_uniform (ec_pools c ! pi) layer" "0 < ws_nb2 m r layer"
    unfolding ec_inv_def ec_static_def by blast
  then show "pool_ix c r layer < length (ec_pools c)" "pl_role (ec_pools c ! pool_ix c r layer) = r"
    "pl_nb2 (ec_pools c ! pool_ix c r layer) = ws_nb2 m r layer"
    "quota_uniform (ec_pools c ! pool_ix c r layer) layer" "0 < ws_nb2 m r layer"
    by (simp_all add: pool_ix_def)
  show "layer < ec_n_layer c" using assms(2) by (simp add: serves_def)
qed

lemma roles_apart:
  assumes "ec_inv m P c" "serves c layer" "r \<noteq> r'"
  shows "pool_ix c r layer \<noteq> pool_ix c r' layer"
  using ec_routing(3)[OF assms(1,2), of r] ec_routing(3)[OF assms(1,2), of r'] assms(3) by metis

lemma slot_ok_same:
  "pl_role p' = pl_role p \<Longrightarrow> pl_slot2key p' ! s = pl_slot2key p ! s \<Longrightarrow> pl_t p' ! s = pl_t p ! s \<Longrightarrow>
   slot_ok m ssd nE p' s = slot_ok m ssd nE p s"
  by (simp add: slot_ok_def)

subsection \<open>Every operation keeps the invariant\<close>

lemma ec_inv_quiet:
  assumes "ec_inv m P c" "ec_core c' = ec_core c" "ec_pools c' = ec_pools c" "ec_clock c \<le> ec_clock c'"
  shows "ec_inv m P c'"
  using assms(1) le_trans[OF _ assms(4)] assms(3)
  unfolding ec_inv_def ec_static_def ec_dyn_def data_ok_def ec_core_simps[OF assms(2)] by auto

lemma ec_inv_count_miss [wf_intros]: "ec_inv m P c \<Longrightarrow> ec_inv m P (count_miss layer c)"
  by (erule ec_inv_quiet) (simp_all add: count_miss_def ec_core_def)

lemma ec_inv_count [wf_intros]:
  assumes "ec_inv m P c" "pi < length (ec_pools c)"
  shows "ec_inv m P (upd_pool pi (pool_count key) c)"
proof (rule ec_inv_eff[OF assms(1) ec_eff_upd assms(2)])
  note d = ec_invD[OF assms]
  show "pool_wf (ec_n_layer c) (ec_n_expert c) (pool_count key (ec_pools c ! pi))"
    by (rule pool_wf_count[OF d(1)])
  show "slot_ok m (ec_ssd c) (ec_n_expert c) (pool_count key (ec_pools c ! pi)) s"
    if "s < pl_n_slots (pool_count key (ec_pools c ! pi))" "(pi, s) \<notin> P" for s
    using d(4)[of s] that by (simp add: pool_count_def slot_ok_def)
qed (use ec_invD(3)[OF assms] in \<open>simp_all add: pool_count_def pool_shape_def\<close>)

lemma ec_inv_hit [wf_intros]:
  assumes "ec_inv m P c" "pi < length (ec_pools c)" "slot < pl_n_slots (ec_pools c ! pi)"
  shows "ec_inv m P (count_hit pi layer slot c)"
proof (rule ec_inv_eff[OF assms(1) ec_eff_hit assms(2)])
  note d = ec_invD[OF assms(1,2)]
  show "pool_wf (ec_n_layer c) (ec_n_expert c) (pool_stamp slot (ec_clock c + 1) (ec_pools c ! pi))"
    by (rule pool_wf_stamp[OF d(1)])
  show "slot_ok m (ec_ssd c) (ec_n_expert c) (pool_stamp slot (ec_clock c + 1) (ec_pools c ! pi)) s"
    if "s < pl_n_slots (pool_stamp slot (ec_clock c + 1) (ec_pools c ! pi))" "(pi, s) \<notin> P" for s
    using d(4)[of s] that by (simp add: pool_stamp_def slot_ok_def)
  show "pl_clk (pool_stamp slot (ec_clock c + 1) (ec_pools c ! pi)) ! s \<le> ec_clock c + 1"
    if "s < pl_n_slots (pool_stamp slot (ec_clock c + 1) (ec_pools c ! pi))" for s
    using d(3)[of s] that pool_wfD(3)[OF d(1)] assms(3)
    by (simp add: pool_stamp_def nth_list_update_if le_SucI)
qed (simp_all add: pool_stamp_def pool_shape_def)

lemma ec_inv_drop [wf_intros]:
  assumes "ec_inv m P c" "pi < length (ec_pools c)" "slot < pl_n_slots (ec_pools c ! pi)"
  shows "ec_inv m P (drop_slot pi slot c)"
proof (rule ec_inv_eff[OF assms(1) ec_eff_drop[OF assms(2)] assms(2)])
  note d = ec_invD[OF assms(1,2)]
  show "pool_wf (ec_n_layer c) (ec_n_expert c) (pool_release (ec_n_expert c) slot (ec_pools c ! pi))"
    by (rule pool_wf_release[OF d(1) assms(3)])
  show "slot_ok m (ec_ssd c) (ec_n_expert c) (pool_release (ec_n_expert c) slot (ec_pools c ! pi)) s"
    if "s < pl_n_slots (pool_release (ec_n_expert c) slot (ec_pools c ! pi))" "(pi, s) \<notin> P" for s
    using d(4)[of s] that pool_wfD(2)[OF d(1)] assms(3)
    by (cases "s = slot") (auto simp: pool_release_simps slot_ok_def)
qed (use ec_invD(3)[OF assms(1,2)] in \<open>simp_all add: pool_release_simps pool_shape_def\<close>)

text \<open>Writing the right slab into an occupied slot settles it.\<close>

lemma ec_inv_upload:
  assumes "ec_inv m P c" "pi < length (ec_pools c)" "slot < pl_n_slots (ec_pools c ! pi)"
    "pl_slot2key (ec_pools c ! pi) ! slot = Some k"
    "expert_slab m (ec_ssd c) (pl_role (ec_pools c ! pi)) (k div ec_n_expert c) (k mod ec_n_expert c) = Some slab"
  shows "ec_inv m (P - {(pi, slot)}) (upload pi slot slab c)"
proof (rule ec_inv_eff[OF assms(1) ec_eff_upload assms(2)])
  note d = ec_invD[OF assms(1,2)]
  show "pool_wf (ec_n_layer c) (ec_n_expert c) (pool_write slot slab (ec_pools c ! pi))"
    by (rule pool_wf_write[OF d(1)])
  show "slot_ok m (ec_ssd c) (ec_n_expert c) (pool_write slot slab (ec_pools c ! pi)) s"
    if "s < pl_n_slots (pool_write slot slab (ec_pools c ! pi))" "(pi, s) \<notin> P - {(pi, slot)}" for s
    using d(4)[of s] that pool_wfD(4)[OF d(1)] assms(3-5)
    by (cases "s = slot") (auto simp: pool_write_def slot_ok_def)
qed (use ec_invD(3)[OF assms(1,2)] in \<open>simp_all add: pool_write_def pool_shape_def\<close>)

text \<open>What installing an expert needs to know of the pool it goes to.\<close>

definition fits :: "'b wsource \<Rightarrow> 'b ecache \<Rightarrow> nat \<Rightarrow> nat \<Rightarrow> nat \<Rightarrow> role \<Rightarrow> bool" where
  "fits m c pi layer e r \<longleftrightarrow>
     pi < length (ec_pools c) \<and> pl_role (ec_pools c ! pi) = r \<and> pl_nb2 (ec_pools c ! pi) = ws_nb2 m r layer \<and>
     layer < ec_n_layer c \<and> e < ec_n_expert c \<and>
     map_of (pl_key2slot (ec_pools c ! pi)) (layer * ec_n_expert c + e) = None"

text \<open>The pool after a slot was claimed, with the new occupant's slab pending or written.\<close>

lemma ec_inv_replace:
  assumes inv: "ec_inv m P c" and fits: "fits m c pi layer e r" and v: "v < pl_n_slots (ec_pools c ! pi)"
    and eff: "ec_eff pi p' (ec_clock c + 1) c c'"
    and p': "p' = pool_replace (ec_n_expert c) layer v (layer * ec_n_expert c + e) (ec_clock c + 1) (ec_pools c ! pi) \<and>
        P' = insert (pi, v) P \<or>
      p' = pool_write v slab (pool_replace (ec_n_expert c) layer v (layer * ec_n_expert c + e) (ec_clock c + 1)
        (ec_pools c ! pi)) \<and> expert_slab m (ec_ssd c) r layer e = Some slab \<and> P' = P - {(pi, v)}"
  shows "ec_inv m P' c'"
proof -
  from fits have pi: "pi < length (ec_pools c)" by (simp add: fits_def)
  note d = ec_invD[OF inv pi]
  let ?k = "layer * ec_n_expert c + e"
  let ?q = "pool_replace (ec_n_expert c) layer v ?k (ec_clock c + 1) (ec_pools c ! pi)"
  have key: "?k < ec_n_layer c * ec_n_expert c" "?k div ec_n_expert c = layer" "?k mod ec_n_expert c = e"
    using fits div_mult_bound by (auto simp: fits_def)
  have wf: "pool_wf (ec_n_layer c) (ec_n_expert c) ?q"
    by (rule pool_wf_replace[OF d(1) v key(1)]) (use fits key(2) in \<open>simp_all add: fits_def\<close>)
  note len = pool_wfD[OF d(1)]
  have clk: "pl_clk p' ! s \<le> ec_clock c + 1" if "s < pl_n_slots p'" for s
    using p' that d(3)[of s] v len(3)
    by (auto simp: pool_replace_simps pool_write_def nth_list_update_if le_SucI)
  have ok: "slot_ok m (ec_ssd c) (ec_n_expert c) p' s" if s: "s < pl_n_slots p'" "(pi, s) \<notin> P'" for s
  proof (cases "s = v")
    case True
    with p' s v len fits key(2,3) show ?thesis
      by (auto simp: slot_ok_def pool_replace_simps pool_write_def fits_def)
  next
    case False
    with p' s have s': "s < pl_n_slots (ec_pools c ! pi)" "(pi, s) \<notin> P"
      by (auto simp: pool_replace_simps pool_write_def)
    have "pl_role p' = pl_role (ec_pools c ! pi)" "pl_slot2key p' ! s = pl_slot2key (ec_pools c ! pi) ! s"
      "pl_t p' ! s = pl_t (ec_pools c ! pi) ! s"
      using False p' by (auto simp: pool_replace_simps pool_write_def)
    then show ?thesis using d(4)[OF s'] by (metis slot_ok_same)
  qed
  show ?thesis
  proof (rule ec_inv_eff[OF inv eff pi _ _ clk _ ok])
    show "pool_wf (ec_n_layer c) (ec_n_expert c) p'" using p' wf pool_wf_write[OF wf] by auto
    show "pool_shape p' = pool_shape (ec_pools c ! pi)"
      using p' by (auto simp: pool_shape_def pool_replace_simps pool_write_def)
  qed (use p' in auto)
qed

end
