(* ===== verification/Expert_Ensure.thy ===== *)
theory Expert_Ensure
  imports Expert_Cache
begin

section \<open>ensure returns slots that hold the requested experts\<close>

text \<open>
  The central guarantee of the expert cache. The graph multiplies with the slot ids \<open>ensure\<close> returns,
  so every returned slot has to hold, at the end of the call, the slab of the expert it was asked for,
  also when later misses of the same call evict. The proofs follow one loop iteration at a time:
  \<open>handed\<close> (of the pool theory) identifies the slots the running call has given out, and no victim is
  taken among them.
\<close>

subsection \<open>install and reserve_victim\<close>

lemma ec_eff_pool: "ec_eff pi p' now c c' \<Longrightarrow> pi < length (ec_pools c) \<Longrightarrow> ec_pools c' ! pi = p'"
  by (simp add: ec_eff_def)

lemma ec_eff_other: "ec_eff pi p' now c c' \<Longrightarrow> pj \<noteq> pi \<Longrightarrow> ec_pools c' ! pj = ec_pools c ! pj"
  by (simp add: ec_eff_def)

lemma ec_eff_len: "ec_eff pi p' now c c' \<Longrightarrow> length (ec_pools c') = length (ec_pools c)"
  by (simp add: ec_eff_def)

lemma ec_eff_clock: "ec_eff pi p' now c c' \<Longrightarrow> ec_clock c' = now"
  by (simp add: ec_eff_def)

lemma ec_eff_core: "ec_eff pi p' now c c' \<Longrightarrow> ec_core c' = ec_core c"
  by (simp add: ec_eff_def)

lemma claim_write: "pool_claim layer v key now (pool_write v slab q) = pool_write v slab (pool_claim layer v key now q)"
  by (simp add: pool_claim_def pool_write_def)

lemma reserve_eff:
  assumes pi: "pi < length (ec_pools c)" and layer: "key div ec_n_expert c = layer"
    and v: "pick_victim (ec_quota_on c) (ec_n_expert c) (ec_pools c ! pi) layer = Some v"
  shows "\<exists>c'. reserve_victim pi key c = (Inr v, c') \<and>
    ec_eff pi (pool_replace (ec_n_expert c) layer v key (ec_clock c + 1) (ec_pools c ! pi)) (ec_clock c + 1) c c'"
proof -
  let ?c1 = "drop_slot pi v c"
  note e1 = ec_eff_drop[OF pi, of v]
  have "ec_eff pi (pool_claim layer v key (ec_clock c + 1) (ec_pools ?c1 ! pi)) (ec_clock c + 1) ?c1
      (claim_slot pi layer v key ?c1)"
    using ec_eff_claim[of pi layer v key ?c1] ec_eff_clock[OF e1] by simp
  from ec_eff_trans[OF e1 this] show ?thesis
    using ec_eff_pool[OF e1 pi] layer v by (simp add: reserve_victim_def pool_replace_def Let_def)
qed

lemma install_eff:
  assumes fits: "fits m c pi layer e r" and key: "key = layer * ec_n_expert c + e"
    and v: "pick_victim (ec_quota_on c) (ec_n_expert c) (ec_pools c ! pi) layer = Some v"
    and slab: "expert_slab m (ec_ssd c) r layer e = Some slab"
  shows "\<exists>c'. install m pi key layer e r c = (Inr v, c') \<and>
    ec_eff pi (pool_write v slab (pool_replace (ec_n_expert c) layer v key (ec_clock c + 1) (ec_pools c ! pi)))
      (ec_clock c + 1) c c'"
proof -
  from fits have pi: "pi < length (ec_pools c)" by (simp add: fits_def)
  let ?c1 = "drop_slot pi v c"
  let ?c2 = "upload pi v slab ?c1"
  note e1 = ec_eff_drop[OF pi, of v]
  note e2 = ec_eff_trans[OF e1 ec_eff_upload[of pi v slab ?c1]]
  have f: "fetch_slab m r layer e pi v ?c1 = (Inr (), ?c2)"
    using fits slab ec_core_simps[OF ec_eff_core[OF e1]] ec_eff_pool[OF e1 pi]
    by (simp add: fetch_slab_def fits_def pool_release_simps)
  have clk: "ec_clock ?c2 = ec_clock c" using ec_eff_clock[OF e2] ec_eff_clock[OF e1] by simp
  note e3 = ec_eff_trans[OF e2 ec_eff_claim[of pi layer v key ?c2]]
  have "ec_pools ?c2 ! pi = pool_write v slab (pool_release (ec_n_expert c) v (ec_pools c ! pi))"
    using ec_eff_pool[OF e2 pi] ec_eff_pool[OF e1 pi] by simp
  with e3 clk show ?thesis
    using v f by (simp add: install_def claim_write pool_replace_def)
qed

text \<open>
  \<open>install\<close> keeps the invariant on every outcome; on a throw the victim is left free.
\<close>

lemma install_inv:
  assumes inv: "ec_inv m P c" and fits: "fits m c pi layer e r" and key: "key = layer * ec_n_expert c + e"
  shows "ec_inv m P (snd (install m pi key layer e r c))"
    and "\<exists>s. expert_slab m (ec_ssd c) r layer e = Some s \<Longrightarrow> \<exists>v. fst (install m pi key layer e r c) = Inr v"
proof -
  from fits have pi: "pi < length (ec_pools c)" by (simp add: fits_def)
  obtain v where v: "pick_victim (ec_quota_on c) (ec_n_expert c) (ec_pools c ! pi) layer = Some v"
    "v < pl_n_slots (ec_pools c ! pi)"
    using pick_victim_in_range[OF ec_invD(2)[OF inv pi]] by blast
  have "ec_inv m P (snd (install m pi key layer e r c)) \<and>
    ((\<exists>s. expert_slab m (ec_ssd c) r layer e = Some s) \<longrightarrow> (\<exists>v. fst (install m pi key layer e r c) = Inr v))"
  proof (cases "expert_slab m (ec_ssd c) r layer e")
    case None
    note e1 = ec_eff_drop[OF pi, of v]
    have "snd (install m pi key layer e r c) = drop_slot pi v c"
      using None v(1) fits ec_core_simps[OF ec_eff_core[OF e1]] ec_eff_pool[OF e1 pi]
      by (simp add: install_def fetch_slab_def fits_def pool_release_simps)
    then show ?thesis using None ec_inv_drop[OF inv pi v(2)] by simp
  next
    case (Some slab)
    from install_eff[OF fits key v(1) Some] obtain c' where
      c': "install m pi key layer e r c = (Inr v, c')" and
      eff: "ec_eff pi (pool_write v slab (pool_replace (ec_n_expert c) layer v key (ec_clock c + 1) (ec_pools c ! pi)))
        (ec_clock c + 1) c c'" by blast
    have "ec_inv m (P - {(pi, v)}) c'"
      by (rule ec_inv_replace[OF inv fits v(2) eff]) (use Some key in auto)
    then show ?thesis using c' by (auto intro: ec_inv_mono)
  qed
  then show "ec_inv m P (snd (install m pi key layer e r c))"
    and "\<exists>s. expert_slab m (ec_ssd c) r layer e = Some s \<Longrightarrow> \<exists>v. fst (install m pi key layer e r c) = Inr v"
    by blast+
qed

subsection \<open>One iteration\<close>

text \<open>
  The pool a served key ends up in. Both tiers take the same slot: \<open>took\<close> describes the pool after
  the iteration, up to access counts and slot contents.
\<close>

definition took :: "bool \<Rightarrow> nat \<Rightarrow> nat \<Rightarrow> nat \<Rightarrow> nat \<Rightarrow> 'b pool \<Rightarrow> nat \<Rightarrow> 'b pool \<Rightarrow> bool" where
  "took qo n_expert layer key now p s p' \<longleftrightarrow>
     (if map_of (pl_key2slot p) key = None
      then pick_victim qo n_expert p layer = Some s \<and>
        (p' = pool_replace n_expert layer s key now p \<or>
         (\<exists>slab. p' = pool_write s slab (pool_replace n_expert layer s key now p)))
      else map_of (pl_key2slot p) key = Some s \<and> p' = pool_stamp s now p)"

lemma pool_count_simps:
  "pl_key2slot (pool_count k p) = pl_key2slot p" "pl_slot2key (pool_count k p) = pl_slot2key p"
  "pl_n_slots (pool_count k p) = pl_n_slots p" "pl_role (pool_count k p) = pl_role p"
  "pl_nb2 (pool_count k p) = pl_nb2 p" "pl_quota (pool_count k p) = pl_quota p"
  "pl_clk (pool_count k p) = pl_clk p"
  by (simp_all add: pool_count_def)

lemma handed_count [simp]: "handed c0 layer nE E (pool_count k p) = handed c0 layer nE E p"
  by (simp add: handed_def pool_count_def)

lemma took_handed:
  assumes wf: "pool_wf nL nE p" and h: "handed c0 layer nE E p" and layer: "layer < nL" and e: "e < nE"
    and uni: "quota_uniform p layer" and E: "E \<subseteq> {..<nE}" "card (insert e E) \<le> safe_slots qo p layer"
    and now: "c0 < now" and took: "took qo nE layer (layer * nE + e) now p s p'"
  shows "handed c0 layer nE (insert e E) p'"
    and "map_of (pl_key2slot p') (layer * nE + e) = Some s"
    and "\<And>e' s'. e' \<in> E \<Longrightarrow> map_of (pl_key2slot p) (layer * nE + e') = Some s' \<Longrightarrow>
      map_of (pl_key2slot p') (layer * nE + e') = Some s'"
proof -
  have key: "layer * nE + e < nL * nE" by (rule div_mult_bound[OF layer e])
  have "handed c0 layer nE (insert e E) p' \<and> map_of (pl_key2slot p') (layer * nE + e) = Some s \<and>
    (\<forall>e' s'. e' \<in> E \<longrightarrow> map_of (pl_key2slot p) (layer * nE + e') = Some s' \<longrightarrow>
      map_of (pl_key2slot p') (layer * nE + e') = Some s')"
  proof (cases "map_of (pl_key2slot p) (layer * nE + e)")
    case None
    let ?q = "pool_replace nE layer s (layer * nE + e) now p"
    from took None have p': "pick_victim qo nE p layer = Some s" "p' = ?q \<or> (\<exists>slab. p' = pool_write s slab ?q)"
      by (auto simp: took_def)
    from handed_victim[OF wf h layer uni E None] p'(1)
    have v: "s < pl_n_slots p" "\<not> c0 < pl_clk p ! s" by auto
    note hr = handed_replace[OF wf h now v key None e]
    have lk: "map_of (pl_key2slot ?q) (layer * nE + e) = Some s"
      using pool_replace_lookup[OF wf v(1) key None, of layer now "layer * nE + e" s] e by simp
    have same: "handed c0 layer nE (insert e E) p'" "pl_key2slot p' = pl_key2slot ?q"
      using p'(2) hr(1) by (auto simp: pool_write_def elim!: handed_same)
    then show ?thesis using hr(2) lk by simp
  next
    case (Some s0)
    with took have p': "s0 = s" "p' = pool_stamp s now p" by (auto simp: took_def)
    with Some handed_stamp[OF wf h _ now, of e s] show ?thesis by (simp add: pool_stamp_def)
  qed
  then show "handed c0 layer nE (insert e E) p'" "map_of (pl_key2slot p') (layer * nE + e) = Some s"
    "\<And>e' s'. e' \<in> E \<Longrightarrow> map_of (pl_key2slot p) (layer * nE + e') = Some s' \<Longrightarrow>
      map_of (pl_key2slot p') (layer * nE + e') = Some s'"
    by blast+
qed

subsection \<open>The loop invariant\<close>

definition loop_inv ::
  "'b wsource \<Rightarrow> nat \<Rightarrow> 'b ecache \<Rightarrow> (nat \<times> nat) set \<Rightarrow> (nat \<times> role) list \<Rightarrow> nat list \<Rightarrow> 'b ecache \<Rightarrow> bool" where
  "loop_inv m layer c0 P W ss c \<longleftrightarrow>
     ec_inv m P c \<and> ec_core c = ec_core c0 \<and> ec_clock c0 \<le> ec_clock c \<and>
     (\<forall>r. pool_shape (pool_at c r layer) = pool_shape (pool_at c0 r layer)) \<and>
     map pool_shape (ec_pools c) = map pool_shape (ec_pools c0) \<and>
     (\<forall>r. handed (ec_clock c0) layer (ec_n_expert c0) {e. (e, r) \<in> set W} (pool_at c r layer)) \<and>
     (\<forall>i < length W. map_of (pl_key2slot (pool_at c (snd (W ! i)) layer))
        (layer * ec_n_expert c0 + fst (W ! i)) = Some (ss ! i))"

text \<open>The hypotheses of an \<open>ensure\<close> call: a served layer and room for the distinct experts of the call.\<close>

definition room :: "'b ecache \<Rightarrow> nat \<Rightarrow> nat list \<Rightarrow> bool" where
  "room c layer ids \<longleftrightarrow>
     serves c layer \<and> (\<forall>e\<in>set ids. e < ec_n_expert c) \<and>
     (\<forall>r. card (set ids) \<le> safe_slots (ec_quota_on c) (pool_at c r layer) layer)"

lemma loop_inv_step:
  assumes I: "loop_inv m layer c0 P W ss c" and len: "length ss = length W"
    and room: "room c0 layer ids" and sub: "fst ` set W \<subseteq> set ids" "e \<in> set ids"
    and pi: "pi = pool_ix c r layer" and eff: "ec_eff pi p' (ec_clock c + 1) c c'"
    and took: "took (ec_quota_on c) (ec_n_expert c) layer (layer * ec_n_expert c + e) (ec_clock c + 1)
      (pool_count key (ec_pools c ! pi)) s p'"
    and inv': "ec_inv m P' c'" and shape: "pool_shape p' = pool_shape (ec_pools c ! pi)"
  shows "loop_inv m layer c0 P' (W @ [(e, r)]) (ss @ [s]) c'"
proof -
  let ?nE = "ec_n_expert c0" and ?t = "ec_clock c0"
  have inv: "ec_inv m P c" and core: "ec_core c = ec_core c0" and clk: "?t \<le> ec_clock c"
    using I by (auto simp: loop_inv_def)
  note cs = ec_core_simps[OF core] and cs' = ec_core_simps[OF ec_eff_core[OF eff]]
  have sv: "serves c layer" using room cs by (simp add: room_def)
  note rt = ec_routing[OF inv sv]
  have pil: "pi < length (ec_pools c)" using rt(2) pi by simp
  let ?p = "pool_count key (ec_pools c ! pi)"
  define E where "E r = {e. (e, r) \<in> set W}" for r
  have Esub: "E r \<subseteq> set ids" for r using sub(1) by (force simp: E_def)
  have ids: "set ids \<subseteq> {..<?nE}" using room by (auto simp: room_def)
  have at: "pool_at c r layer = ec_pools c ! pi" by (simp add: pool_at_def pi)
  have at': "pool_at c' r layer = p'" using ec_eff_pool[OF eff pil] by (simp add: pool_at_def cs' pi)
  have other: "pool_at c' r' layer = pool_at c r' layer" if "r' \<noteq> r" for r'
    using ec_eff_other[OF eff, of "pool_ix c r' layer"] roles_apart[OF inv sv that] pi
    by (simp add: pool_at_def cs')
  have wf: "pool_wf (ec_n_layer c) ?nE ?p"
    using ec_invD(1)[OF inv pil] cs by (simp add: pool_wf_count)
  have h: "handed ?t layer ?nE (E r) ?p"
    using I at[symmetric] by (simp add: loop_inv_def E_def)
  have uni: "quota_uniform ?p layer"
    using rt(5)[of r] pi by (simp add: quota_uniform_def pool_count_def)
  have "card (insert e (E r)) \<le> card (set ids)" using Esub sub(2) by (intro card_mono) auto
  also have "\<dots> \<le> safe_slots (ec_quota_on c0) (pool_at c0 r layer) layer"
    using room by (simp add: room_def)
  also have "\<dots> = safe_slots (ec_quota_on c) ?p layer"
    using I at[symmetric] by (simp add: loop_inv_def safe_slots_def pool_shape_def pool_count_def cs)
  finally have card: "card (insert e (E r)) \<le> safe_slots (ec_quota_on c) ?p layer" .
  have pre: "e < ?nE" "E r \<subseteq> {..<?nE}" "?t < ec_clock c + 1"
    using Esub[of r] ids sub(2) clk by auto
  note th0 = took_handed[OF wf h rt(1) pre(1) uni pre(2) card pre(3) took[unfolded cs(2)]]
  have th: "handed ?t layer ?nE (insert e (E r)) p'" "map_of (pl_key2slot p') (layer * ?nE + e) = Some s"
    "\<And>e' s'. e' \<in> E r \<Longrightarrow> map_of (pl_key2slot (ec_pools c ! pi)) (layer * ?nE + e') = Some s' \<Longrightarrow>
      map_of (pl_key2slot p') (layer * ?nE + e') = Some s'"
    by (rule th0(1), rule th0(2), rule th0(3)) (simp_all add: pool_count_simps)
  have "handed ?t layer ?nE {e'. (e', r') \<in> set (W @ [(e, r)])} (pool_at c' r' layer)" for r'
  proof (cases "r' = r")
    case True
    have "{e'. (e', r) \<in> set (W @ [(e, r)])} = insert e (E r)" by (auto simp: E_def)
    with True th(1) at' show ?thesis by simp
  next
    case False
    then have "{e'. (e', r') \<in> set (W @ [(e, r)])} = {e'. (e', r') \<in> set W}" by auto
    with False I other show ?thesis by (auto simp: loop_inv_def)
  qed
  moreover have "map_of (pl_key2slot (pool_at c' (snd ((W @ [(e, r)]) ! i)) layer))
      (layer * ?nE + fst ((W @ [(e, r)]) ! i)) = Some ((ss @ [s]) ! i)" if i: "i < length (W @ [(e, r)])" for i
  proof (cases "i = length W")
    case True
    then show ?thesis using th(2) at' len by (simp add: nth_append)
  next
    case False
    with i have i': "i < length W" by simp
    then have old: "map_of (pl_key2slot (pool_at c (snd (W ! i)) layer)) (layer * ?nE + fst (W ! i)) = Some (ss ! i)"
      using I by (simp add: loop_inv_def)
    show ?thesis
    proof (cases "snd (W ! i) = r")
      case True
      with i' have "fst (W ! i) \<in> E r" by (metis (mono_tags) E_def mem_Collect_eq nth_mem prod.collapse)
      with th(3) old True at at' i' len show ?thesis by (simp add: nth_append)
    next
      case False
      with old other i' len show ?thesis by (simp add: nth_append)
    qed
  qed
  moreover have "pool_shape (pool_at c' r' layer) = pool_shape (pool_at c0 r' layer)" for r'
    using I other[of r'] at' shape[folded at] by (cases "r' = r") (auto simp: loop_inv_def)
  moreover have "map pool_shape (ec_pools c') = map pool_shape (ec_pools c0)"
  proof -
    have "map pool_shape (ec_pools c') = (map pool_shape (ec_pools c))[pi := pool_shape (ec_pools c ! pi)]"
      using eff shape by (simp add: ec_eff_def map_update)
    also have "\<dots> = map pool_shape (ec_pools c)" using pil by (metis list_update_id nth_map)
    finally show ?thesis using I by (simp add: loop_inv_def)
  qed
  ultimately show ?thesis
    using inv' core ec_eff_core[OF eff] ec_eff_clock[OF eff] clk by (auto simp: loop_inv_def)
qed

lemma shape_simps:
  "pool_shape (pool_stamp s now p) = pool_shape p" "pool_shape (pool_count k p) = pool_shape p"
  "pool_shape (pool_write s b p) = pool_shape p" "pool_shape (pool_replace nE layer s key now p) = pool_shape p"
  by (simp_all add: pool_shape_def pool_stamp_def pool_count_def pool_write_def pool_replace_simps)

text \<open>A hit, which both tiers handle alike.\<close>

lemma hit_step:
  assumes inv: "ec_inv m P c" and sv: "serves c layer" and pi: "pi = pool_ix c r layer"
    and s: "map_of (pl_key2slot (ec_pools c ! pi)) key = Some s"
  shows "ec_eff pi (pool_stamp s (ec_clock c + 1) (pool_count key (ec_pools c ! pi))) (ec_clock c + 1) c
      (count_hit pi layer s (upd_pool pi (pool_count key) c))"
    and "ec_inv m P (count_hit pi layer s (upd_pool pi (pool_count key) c))"
proof -
  have pil: "pi < length (ec_pools c)" using ec_routing(2)[OF inv sv] pi by simp
  note e1 = ec_eff_upd[of pi "pool_count key" c]
  note e2 = ec_eff_hit[of pi s "upd_pool pi (pool_count key) c" layer]
  from ec_eff_trans[OF e1 e2] ec_eff_pool[OF e1 pil] ec_eff_clock[OF e1]
  show "ec_eff pi (pool_stamp s (ec_clock c + 1) (pool_count key (ec_pools c ! pi))) (ec_clock c + 1) c
      (count_hit pi layer s (upd_pool pi (pool_count key) c))" by simp
  have "s < pl_n_slots (ec_pools c ! pi)" using pool_lookup[OF ec_invD(1)[OF inv pil] s] by simp
  then show "ec_inv m P (count_hit pi layer s (upd_pool pi (pool_count key) c))"
    using ec_inv_hit[OF ec_inv_count[OF inv pil, of key], of pi s layer] ec_eff_pool[OF e1 pil] ec_eff_len[OF e1] pil
    by (simp add: pool_count_simps)
qed

text \<open>The state in which a miss is installed.\<close>

lemma miss_state:
  assumes inv: "ec_inv m P c" and sv: "serves c layer" and pi: "pi = pool_ix c r layer" and e: "e < ec_n_expert c"
    and key: "key = layer * ec_n_expert c + e" and s: "map_of (pl_key2slot (ec_pools c ! pi)) key = None"
    and c1: "c1 = count_miss layer (upd_pool pi (pool_count key) c)"
  shows "ec_inv m P c1" "fits m c1 pi layer e r" "ec_eff pi (pool_count key (ec_pools c ! pi)) (ec_clock c) c c1"
    "\<exists>v. pick_victim (ec_quota_on c1) (ec_n_expert c1) (ec_pools c1 ! pi) layer = Some v \<and>
      v < pl_n_slots (ec_pools c1 ! pi)"
proof -
  note rt = ec_routing(1)[OF inv sv] ec_routing(2-6)[OF inv sv, of r]
  have pil: "pi < length (ec_pools c)" using rt(2) pi by simp
  note e1 = ec_eff_upd[of pi "pool_count key" c]
  show eff: "ec_eff pi (pool_count key (ec_pools c ! pi)) (ec_clock c) c c1"
    using ec_eff_trans[OF e1 ec_eff_miss[of pi "upd_pool pi (pool_count key) c" layer]] ec_eff_pool[OF e1 pil]
      ec_eff_clock[OF e1] ec_eff_len[OF e1] pil by (simp add: c1)
  show inv1: "ec_inv m P c1" unfolding c1 by (intro ec_inv_count_miss ec_inv_count inv pil)
  note core = ec_core_simps[OF ec_eff_core[OF eff]]
  have pil1: "pi < length (ec_pools c1)" using pil ec_eff_len[OF eff] by simp
  show "fits m c1 pi layer e r"
    using pil1 rt pi e s key ec_eff_pool[OF eff pil] by (simp add: fits_def core pool_count_simps)
  show "\<exists>v. pick_victim (ec_quota_on c1) (ec_n_expert c1) (ec_pools c1 ! pi) layer = Some v \<and>
      v < pl_n_slots (ec_pools c1 ! pi)"
    using pick_victim_in_range[OF ec_invD(2)[OF inv1 pil1]] by blast
qed

subsection \<open>The RAM tier\<close>

lemma ensure_ram_step:
  assumes I: "loop_inv m layer c0 P W ss c" and len: "length ss = length W" and room: "room c0 layer ids"
    and sub: "fst ` set W \<subseteq> set ids" "e \<in> set ids"
    and slab: "expert_slab m (ec_ssd c0) r layer e \<noteq> None"
  shows "\<exists>s c' P'. ensure_ram m layer (e, r) c = (Inr s, c') \<and> P' \<subseteq> P \<and>
    loop_inv m layer c0 P' (W @ [(e, r)]) (ss @ [s]) c'"
proof -
  have inv: "ec_inv m P c" and core: "ec_core c = ec_core c0" using I by (auto simp: loop_inv_def)
  note cs = ec_core_simps[OF core]
  have sv: "serves c layer" and e: "e < ec_n_expert c" using room sub(2) cs by (auto simp: room_def)
  define pi where "pi = pool_ix c r layer"
  define key where "key = layer * ec_n_expert c + e"
  note step = loop_inv_step[OF I len room sub pi_def]
  show ?thesis
  proof (cases "map_of (pl_key2slot (ec_pools c ! pi)) key")
    case (Some s)
    note h = hit_step[OF inv sv pi_def Some]
    have "loop_inv m layer c0 P (W @ [(e, r)]) (ss @ [s]) (count_hit pi layer s (upd_pool pi (pool_count key) c))"
      by (rule step[OF h(1) _ h(2), of key])
        (use Some in \<open>simp_all add: took_def pool_count_simps key_def shape_simps\<close>)
    then show ?thesis
      using Some by (auto simp: ensure_ram_def slot_for_def pi_def key_def Let_def)
  next
    case None
    define c1 where "c1 = count_miss layer (upd_pool pi (pool_count key) c)"
    note ms = miss_state[OF inv sv pi_def e key_def None c1_def]
    note core1 = ec_core_simps[OF ec_eff_core[OF ms(3)]]
    obtain v where v: "pick_victim (ec_quota_on c1) (ec_n_expert c1) (ec_pools c1 ! pi) layer = Some v"
      "v < pl_n_slots (ec_pools c1 ! pi)" using ms(4) by blast
    obtain b where b: "expert_slab m (ec_ssd c1) r layer e = Some b" using slab cs core1 by auto
    have k1: "key = layer * ec_n_expert c1 + e" by (simp add: key_def core1)
    from install_eff[OF ms(2) k1 v(1) b] obtain c' where
      c': "install m pi key layer e r c1 = (Inr v, c')" and
      eff: "ec_eff pi (pool_write v b (pool_replace (ec_n_expert c1) layer v key (ec_clock c1 + 1) (ec_pools c1 ! pi)))
        (ec_clock c1 + 1) c1 c'" by blast
    have inv': "ec_inv m (P - {(pi, v)}) c'"
      by (rule ec_inv_replace[OF ms(1,2) v(2) eff]) (use b k1 in auto)
    have pil: "pi < length (ec_pools c)" using ec_routing(2)[OF inv sv] by (simp add: pi_def)
    have p1: "ec_pools c1 ! pi = pool_count key (ec_pools c ! pi)" "ec_clock c1 = ec_clock c"
      using ec_eff_pool[OF ms(3) pil] ec_eff_clock[OF ms(3)] by simp_all
    note eff' = ec_eff_trans[OF ms(3) eff, unfolded p1 core1]
    have "loop_inv m layer c0 (P - {(pi, v)}) (W @ [(e, r)]) (ss @ [v]) c'"
      by (rule step[OF eff' _ inv', of key])
        (use None v(1) p1 core1 in \<open>auto simp: took_def pool_count_simps key_def shape_simps\<close>)
    moreover have "ensure_ram m layer (e, r) c = (Inr v, c')"
      using None c' by (simp add: ensure_ram_def slot_for_def Let_def pi_def key_def c1_def)
    ultimately show ?thesis by blast
  qed
qed

subsection \<open>The SSD tier: reserving\<close>

definition pend :: "(nat \<times> fetch_job option) list \<Rightarrow> (nat \<times> nat) set" where
  "pend rs = (\<lambda>j. (fj_pool j, fj_slot j)) ` set (List.map_filter snd rs)"

definition jobs_of :: "'b ecache \<Rightarrow> nat \<Rightarrow> (nat \<times> role) list \<Rightarrow> (nat \<times> fetch_job option) list \<Rightarrow> bool" where
  "jobs_of c layer W rs \<longleftrightarrow>
     (\<forall>i < length W. \<forall>j. snd (rs ! i) = Some j \<longrightarrow>
        j = \<lparr>fj_pool = pool_ix c (snd (W ! i)) layer, fj_role = snd (W ! i), fj_expert = fst (W ! i),
             fj_slot = fst (rs ! i)\<rparr>)"

lemma map_filter_snoc: "List.map_filter f (xs @ [x]) = List.map_filter f xs @ (case f x of None \<Rightarrow> [] | Some y \<Rightarrow> [y])"
  by (simp add: List.map_filter_def split: option.splits)

lemma pend_snoc:
  "pend (rs @ [(s, None)]) = pend rs" "pend (rs @ [(s, Some j)]) = insert (fj_pool j, fj_slot j) (pend rs)"
  by (auto simp: pend_def map_filter_snoc)

lemma jobs_of_snoc:
  assumes "jobs_of c layer W rs" "length rs = length W"
    "\<And>j. x = Some j \<Longrightarrow> j = \<lparr>fj_pool = pool_ix c r layer, fj_role = r, fj_expert = e, fj_slot = s\<rparr>"
  shows "jobs_of c layer (W @ [(e, r)]) (rs @ [(s, x)])"
  using assms by (auto simp: jobs_of_def nth_append less_Suc_eq)

lemma ensure_ssd_step:
  assumes I: "loop_inv m layer c0 (pend rs) W (map fst rs) c" and J: "jobs_of c0 layer W rs"
    and len: "length rs = length W" and room: "room c0 layer ids"
    and sub: "fst ` set W \<subseteq> set ids" "e \<in> set ids"
  shows "\<exists>x c'. ensure_ssd layer (e, r) c = (Inr x, c') \<and>
    loop_inv m layer c0 (pend (rs @ [x])) (W @ [(e, r)]) (map fst (rs @ [x])) c' \<and>
    jobs_of c0 layer (W @ [(e, r)]) (rs @ [x])"
proof -
  have inv: "ec_inv m (pend rs) c" and core: "ec_core c = ec_core c0" using I by (auto simp: loop_inv_def)
  note cs = ec_core_simps[OF core]
  have sv: "serves c layer" and e: "e < ec_n_expert c" using room sub(2) cs by (auto simp: room_def)
  define pi where "pi = pool_ix c r layer"
  define key where "key = layer * ec_n_expert c + e"
  have len': "length (map fst rs) = length W" using len by simp
  note step = loop_inv_step[OF I len' room sub pi_def]
  show ?thesis
  proof (cases "map_of (pl_key2slot (ec_pools c ! pi)) key")
    case (Some s)
    note h = hit_step[OF inv sv pi_def Some]
    have "loop_inv m layer c0 (pend rs) (W @ [(e, r)]) (map fst rs @ [s])
        (count_hit pi layer s (upd_pool pi (pool_count key) c))"
      by (rule step[OF h(1) _ h(2), of key])
        (use Some in \<open>simp_all add: took_def pool_count_simps key_def shape_simps\<close>)
    moreover have "ensure_ssd layer (e, r) c =
        (Inr (s, None), count_hit pi layer s (upd_pool pi (pool_count key) c))"
      using Some by (simp add: ensure_ssd_def pi_def key_def Let_def)
    ultimately show ?thesis
      using jobs_of_snoc[OF J len, of None] by (auto simp: pend_snoc)
  next
    case None
    define c1 where "c1 = count_miss layer (upd_pool pi (pool_count key) c)"
    note ms = miss_state[OF inv sv pi_def e key_def None c1_def]
    note core1 = ec_core_simps[OF ec_eff_core[OF ms(3)]]
    obtain v where v: "pick_victim (ec_quota_on c1) (ec_n_expert c1) (ec_pools c1 ! pi) layer = Some v"
      "v < pl_n_slots (ec_pools c1 ! pi)" using ms(4) by blast
    have k1: "key = layer * ec_n_expert c1 + e" by (simp add: key_def core1)
    have kd: "key div ec_n_expert c1 = layer" using e by (simp add: key_def core1)
    have pil: "pi < length (ec_pools c)" using ec_routing(2)[OF inv sv] by (simp add: pi_def)
    have pil1: "pi < length (ec_pools c1)" using pil ec_eff_len[OF ms(3)] by simp
    from reserve_eff[OF pil1 kd v(1)] obtain c' where
      c': "reserve_victim pi key c1 = (Inr v, c')" and
      eff: "ec_eff pi (pool_replace (ec_n_expert c1) layer v key (ec_clock c1 + 1) (ec_pools c1 ! pi))
        (ec_clock c1 + 1) c1 c'" by blast
    have inv': "ec_inv m (insert (pi, v) (pend rs)) c'"
      by (rule ec_inv_replace[OF ms(1,2) v(2) eff]) (use k1 in auto)
    have p1: "ec_pools c1 ! pi = pool_count key (ec_pools c ! pi)" "ec_clock c1 = ec_clock c"
      using ec_eff_pool[OF ms(3) pil] ec_eff_clock[OF ms(3)] by simp_all
    note eff' = ec_eff_trans[OF ms(3) eff, unfolded p1 core1]
    have "loop_inv m layer c0 (insert (pi, v) (pend rs)) (W @ [(e, r)]) (map fst rs @ [v]) c'"
      by (rule step[OF eff' _ inv', of key])
        (use None v(1) p1 core1 in \<open>auto simp: took_def pool_count_simps key_def shape_simps\<close>)
    moreover have "ensure_ssd layer (e, r) c =
        (Inr (v, Some \<lparr>fj_pool = pi, fj_role = r, fj_expert = e, fj_slot = v\<rparr>), c')"
      using None c' by (simp add: ensure_ssd_def Let_def pi_def key_def c1_def)
    ultimately show ?thesis
      using jobs_of_snoc[OF J len, of "Some \<lparr>fj_pool = pi, fj_role = r, fj_expert = e, fj_slot = v\<rparr>" r e v]
      by (simp add: pend_snoc pi_def cs)
  qed
qed

subsection \<open>The SSD tier: reading\<close>

text \<open>Uploads change slot contents only.\<close>

definition strip :: "'b ecache \<Rightarrow> 'b pool list" where
  "strip c = map (\<lambda>p. p\<lparr>pl_t := []\<rparr>) (ec_pools c)"

definition written :: "'b ecache \<Rightarrow> 'b ecache \<Rightarrow> bool" where
  "written c c' \<longleftrightarrow> ec_core c' = ec_core c \<and> ec_clock c' = ec_clock c \<and> strip c' = strip c"

lemma written_refl: "written c c" and written_trans: "written c c1 \<Longrightarrow> written c1 c2 \<Longrightarrow> written c c2"
  by (simp_all add: written_def)

lemma written_pool:
  assumes "written c c'"
  shows "length (ec_pools c') = length (ec_pools c)"
    "pi < length (ec_pools c) \<Longrightarrow> (ec_pools c' ! pi)\<lparr>pl_t := []\<rparr> = (ec_pools c ! pi)\<lparr>pl_t := []\<rparr>"
proof -
  show len: "length (ec_pools c') = length (ec_pools c)"
    using assms unfolding written_def strip_def by (metis length_map)
  show "(ec_pools c' ! pi)\<lparr>pl_t := []\<rparr> = (ec_pools c ! pi)\<lparr>pl_t := []\<rparr>" if "pi < length (ec_pools c)"
    using assms that len unfolding written_def strip_def by (metis (no_types, lifting) nth_map)
qed

lemma written_upload: "written c (upload pi slot slab c)"
  by (simp add: written_def upload_def upd_pool_def ec_core_def strip_def map_update pool_write_def)
    (metis list_update_id map_update)

lemma pool_strip_simps:
  assumes "p'\<lparr>pl_t := []\<rparr> = p\<lparr>pl_t := []\<rparr>"
  shows "pl_role p' = pl_role p" "pl_nb2 p' = pl_nb2 p" "pl_n_slots p' = pl_n_slots p"
    "pl_slot2key p' = pl_slot2key p" "pl_key2slot p' = pl_key2slot p" "pl_clk p' = pl_clk p"
    "pl_quota p' = pl_quota p"
  using assms by (cases p; cases p'; simp)+

text \<open>
  A job of a reserved slot: the slot's key is the job's expert, and the slab can be read.
\<close>

definition job_good :: "'b wsource \<Rightarrow> nat \<Rightarrow> 'b ecache \<Rightarrow> fetch_job \<Rightarrow> bool" where
  "job_good m layer c j \<longleftrightarrow>
     serves c layer \<and> fj_pool j = pool_ix c (fj_role j) layer \<and> fj_expert j < ec_n_expert c \<and>
     map_of (pl_key2slot (ec_pools c ! fj_pool j)) (layer * ec_n_expert c + fj_expert j) = Some (fj_slot j) \<and>
     expert_slab m True (fj_role j) layer (fj_expert j) \<noteq> None"

definition settled :: "fetch_job list \<Rightarrow> (nat \<times> nat) set" where
  "settled js = (\<lambda>j. (fj_pool j, fj_slot j)) ` set js"

lemma job_good_written:
  assumes "written c c'" "ec_inv m P c" "job_good m layer c j"
  shows "job_good m layer c' j"
proof -
  note cs = ec_core_simps[OF conjunct1[OF assms(1)[unfolded written_def]]]
  have "fj_pool j < length (ec_pools c)"
    using assms(2,3) ec_routing(2) by (auto simp: job_good_def)
  from pool_strip_simps(5)[OF written_pool(2)[OF assms(1) this]] assms(3)
  show ?thesis by (auto simp: job_good_def cs)
qed

lemma upload_job:
  assumes inv: "ec_inv m P c" and ssd: "ec_ssd c" and j: "job_good m layer c j"
    and b: "expert_slab m True (fj_role j) layer (fj_expert j) = Some b"
  shows "ec_inv m (P - {(fj_pool j, fj_slot j)}) (upload (fj_pool j) (fj_slot j) b c)"
proof -
  have sv: "serves c layer" using j by (simp add: job_good_def)
  have pil: "fj_pool j < length (ec_pools c)" "pl_role (ec_pools c ! fj_pool j) = fj_role j"
    using ec_routing(2,3)[OF inv sv, of "fj_role j"] j by (auto simp: job_good_def)
  have "fj_slot j < pl_n_slots (ec_pools c ! fj_pool j) \<and>
      pl_slot2key (ec_pools c ! fj_pool j) ! fj_slot j = Some (layer * ec_n_expert c + fj_expert j)"
    using pool_lookup[OF ec_invD(1)[OF inv pil(1)]] j by (auto simp: job_good_def)
  then show ?thesis
    by (intro ec_inv_upload[OF inv pil(1), of _ "layer * ec_n_expert c + fj_expert j"])
      (use j b ssd pil(2) in \<open>auto simp: job_good_def\<close>)
qed

lemma upload_jobs:
  assumes "ec_inv m P c" "ec_ssd c" "\<And>j. j \<in> set js \<Longrightarrow> job_good m layer c j"
    "\<And>j. j \<in> set js \<Longrightarrow> expert_slab m True (fj_role j) layer (fj_expert j) = Some (f j)"
  shows "ec_inv m (P - settled js) (fold (\<lambda>j. upload (fj_pool j) (fj_slot j) (f j)) js c) \<and>
    written c (fold (\<lambda>j. upload (fj_pool j) (fj_slot j) (f j)) js c)"
  using assms
proof (induction js arbitrary: P c)
  case Nil
  then show ?case by (simp add: settled_def written_refl)
next
  case (Cons j js)
  let ?c1 = "upload (fj_pool j) (fj_slot j) (f j) c"
  have w: "written c ?c1" by (rule written_upload)
  have inv1: "ec_inv m (P - {(fj_pool j, fj_slot j)}) ?c1"
    by (rule upload_job[OF Cons.prems(1,2), of layer]) (use Cons.prems(3,4) in auto)
  have ssd1: "ec_ssd ?c1" using Cons.prems(2) w by (simp add: written_def ec_core_def)
  have "ec_inv m (P - {(fj_pool j, fj_slot j)} - settled js)
      (fold (\<lambda>j. upload (fj_pool j) (fj_slot j) (f j)) js ?c1) \<and>
    written ?c1 (fold (\<lambda>j. upload (fj_pool j) (fj_slot j) (f j)) js ?c1)"
    by (rule Cons.IH[OF inv1 ssd1]) (use Cons.prems job_good_written[OF w Cons.prems(1)] in auto)
  moreover have "P - {(fj_pool j, fj_slot j)} - settled js = P - settled (j # js)"
    by (auto simp: settled_def)
  ultimately show ?case using written_trans[OF w] by simp
qed

lemma nb2_of_job:
  assumes "ec_inv m P c" "job_good m layer c j"
  shows "nb2_of c (fj_pool j) = ws_nb2 m (fj_role j) layer" "0 < ws_nb2 m (fj_role j) layer"
  using ec_routing(4,6)[OF assms(1), of layer "fj_role j"] assms(2) by (auto simp: nb2_of_def job_good_def)

lemma fetch_batch_ok:
  assumes inv: "ec_inv m P c" and ssd: "ec_ssd c" and good: "\<And>j. j \<in> set js \<Longrightarrow> job_good m layer c j"
  shows "\<exists>c'. fetch_batch m layer js c = (Inr (), c') \<and> ec_inv m (P - settled js) c' \<and> written c c'"
proof -
  have rd: "read_job m layer c j = expert_slab m True (fj_role j) layer (fj_expert j)" if "j \<in> set js" for j
    using nb2_of_job(1)[OF inv good[OF that]] by (simp add: read_job_def expert_slab_def Let_def)
  have all: "list_all (\<lambda>s. s \<noteq> None) (map (read_job m layer c) js)"
    using good by (auto simp: list_all_iff rd job_good_def)
  have "fold (\<lambda>(j, s). upload (fj_pool j) (fj_slot j) (the s)) (zip js (map (read_job m layer c) js)) c' =
      fold (\<lambda>j. upload (fj_pool j) (fj_slot j) (the (read_job m layer c j))) js c'" for c'
    by (simp add: zip_map2 zip_same_conv_map fold_map comp_def)
  moreover have "ec_inv m (P - settled js) (fold (\<lambda>j. upload (fj_pool j) (fj_slot j) (the (read_job m layer c j))) js c) \<and>
    written c (fold (\<lambda>j. upload (fj_pool j) (fj_slot j) (the (read_job m layer c j))) js c)"
    by (rule upload_jobs[OF inv ssd good]) (use good rd in \<open>auto simp: job_good_def\<close>)
  ultimately show ?thesis using all by (simp add: fetch_batch_def Let_def)
qed

lemma fetch_run_ok:
  assumes inv: "ec_inv m P c" and ssd: "ec_ssd c" and run: "run_ok r rn"
    and good: "\<And>j. j \<in> set (fr_jobs rn) \<Longrightarrow> job_good m layer c j \<and> fj_role j = r"
  shows "\<exists>c'. fetch_run_slabs m layer rn c = (Inr (), c') \<and> ec_inv m (P - settled (fr_jobs rn)) c' \<and> written c c'"
proof -
  have pool: "fj_pool j = fr_pool rn" if "j \<in> set (fr_jobs rn)" for j
    using run good good[OF that] by (auto simp: run_ok_def job_good_def)
  have nb2: "nb2_of c (fr_pool rn) = ws_nb2 m r layer" "0 < ws_nb2 m r layer" and role: "fr_role rn = r"
    using run good nb2_of_job[OF inv] pool by (auto simp: run_ok_def) metis+
  obtain cbuf where cbuf: "read_run m layer (ws_nb2 m r layer) rn = Some cbuf"
    using read_run_succeeds[OF run refl] good by (fastforce simp: job_good_def)
  let ?f = "run_slab m layer (ws_nb2 m r layer) rn cbuf"
  have slab: "expert_slab m True (fj_role j) layer (fj_expert j) = Some (?f j)" if "j \<in> set (fr_jobs rn)" for j
    using run_slab_eq[OF cbuf _ nb2(2), of j] role good[OF that] run that by (auto simp: run_ok_def)
  have "fold (\<lambda>j. upload (fr_pool rn) (fj_slot j) (?f j)) (fr_jobs rn) c =
      fold (\<lambda>j. upload (fj_pool j) (fj_slot j) (?f j)) (fr_jobs rn) c"
    by (rule fold_cong) (use pool in auto)
  moreover have "ec_inv m (P - settled (fr_jobs rn)) (fold (\<lambda>j. upload (fj_pool j) (fj_slot j) (?f j)) (fr_jobs rn) c) \<and>
      written c (fold (\<lambda>j. upload (fj_pool j) (fj_slot j) (?f j)) (fr_jobs rn) c)"
    by (rule upload_jobs[OF inv ssd]) (use good slab in auto)
  ultimately show ?thesis using cbuf nb2(1) by (simp add: fetch_run_slabs_def Let_def)
qed

text \<open>A loop of such reads settles the slots of all of them.\<close>

lemma settle_loop:
  assumes inv: "ec_inv m P c" and ssd: "ec_ssd c"
    and step: "\<And>x P c1. x \<in> set xs \<Longrightarrow> ec_inv m P c1 \<Longrightarrow> ec_ssd c1 \<Longrightarrow> written c c1 \<Longrightarrow>
      \<exists>c'. f x c1 = (Inr (), c') \<and> ec_inv m (P - settled (g x)) c' \<and> written c1 c'"
  shows "\<exists>us c'. for_each f xs c = (Inr us, c') \<and> ec_inv m (P - settled (concat (map g xs))) c' \<and> written c c'"
proof -
  have "\<exists>us c'. for_each f xs c1 = (Inr us, c') \<and> ec_inv m (P - settled (concat (map g xs))) c' \<and> written c1 c'"
    if "ec_inv m P c1" "written c c1" for P c1
    using that step
  proof (induction xs arbitrary: P c1)
    case Nil
    then show ?case by (auto simp: settled_def written_refl)
  next
    case (Cons x xs)
    have ssd1: "ec_ssd c1" using Cons.prems(2) ssd by (simp add: written_def ec_core_def)
    obtain c2 where c2: "f x c1 = (Inr (), c2)" "ec_inv m (P - settled (g x)) c2" "written c1 c2"
      using Cons.prems(3)[OF _ Cons.prems(1) ssd1 Cons.prems(2), of x] by auto
    from Cons.IH[OF c2(2) written_trans[OF Cons.prems(2) c2(3)]] Cons.prems(3)
    obtain us c' where "for_each f xs c2 = (Inr us, c')"
      "ec_inv m (P - settled (g x) - settled (concat (map g xs))) c'" "written c2 c'"
      by (auto simp del: split_paired_Ex)
    moreover have "P - settled (g x) - settled (concat (map g xs)) = P - settled (concat (map g (x # xs)))"
      by (auto simp: settled_def)
    ultimately show ?case using c2 written_trans[OF c2(3)] by auto
  qed
  from this[OF inv written_refl] show ?thesis .
qed

lemma plan_fetch_job_sets:
  assumes "plan_fetch coal f jobs = (runs, singles)"
  shows "set (concat (map fr_jobs runs)) \<union> set singles = set jobs"
proof -
  have "mset (concat (map fr_jobs runs)) + mset singles = mset jobs"
    using plan_fetch_jobs[of coal f jobs] assms by simp
  then have "set_mset (mset (concat (map fr_jobs runs)) + mset singles) = set_mset (mset jobs)" by simp
  then show ?thesis by simp
qed

lemma plan_fetch_run_roles:
  assumes "plan_fetch coal f jobs = (runs, singles)" "rn \<in> set runs" "j \<in> set (fr_jobs rn)"
  shows "fj_role j = fr_role rn"
proof -
  have sub: "set (concat (map fr_jobs (fst (plan_role gap f jobs r)))) \<subseteq> {j. fj_role j = r}" for gap r
  proof -
    have "set_mset (mset (concat (map fr_jobs (fst (plan_role gap f jobs r)))))
        \<subseteq> set_mset (mset (filter (\<lambda>j. fj_role j = r) jobs))"
      unfolding plan_role_def plan_rj_jobs[of gap f r "filter (\<lambda>j. fj_role j = r) jobs", symmetric] by simp
    then show ?thesis by auto
  qed
  from assms obtain gap r where "rn \<in> set (fst (plan_role gap f jobs r))"
    by (auto simp: plan_fetch_def Let_def split: option.splits)
  then show ?thesis
    using sub[of gap r] assms(3) plan_rj_runs[of rn gap f r] by (auto simp: plan_role_def run_ok_def)
qed

lemma fetch_parallel_ok:
  assumes inv: "ec_inv m P c" and ssd: "ec_ssd c" and good: "\<And>j. j \<in> set jobs \<Longrightarrow> job_good m layer c j"
  shows "\<exists>c'. fetch_parallel m layer jobs c = (Inr (), c') \<and> ec_inv m (P - settled jobs) c' \<and> written c c'"
proof -
  obtain runs singles where plan: "plan_fetch (ec_coal c) (nb2_of c) jobs = (runs, singles)"
    by (cases "plan_fetch (ec_coal c) (nb2_of c) jobs")
  note sets = plan_fetch_job_sets[OF plan]
  have "\<exists>us c'. for_each (fetch_run_slabs m layer) runs c = (Inr us, c') \<and>
      ec_inv m (P - settled (concat (map fr_jobs runs))) c' \<and> written c c'"
  proof (rule settle_loop[OF inv ssd])
    fix rn P c1 assume rn: "rn \<in> set runs" and c1: "ec_inv m P c1" "ec_ssd c1" "written c c1"
    have "run_ok (fr_role rn) rn" using plan_fetch_runs[of rn "ec_coal c" "nb2_of c" jobs] plan rn by simp
    then show "\<exists>c'. fetch_run_slabs m layer rn c1 = (Inr (), c') \<and> ec_inv m (P - settled (fr_jobs rn)) c' \<and> written c1 c'"
    proof (rule fetch_run_ok[OF c1(1,2)])
      fix j assume j: "j \<in> set (fr_jobs rn)"
      with rn sets have "j \<in> set jobs" by auto
      with good job_good_written[OF c1(3) inv] plan_fetch_run_roles[OF plan rn j]
      show "job_good m layer c1 j \<and> fj_role j = fr_role rn" by blast
    qed
  qed
  then obtain us c1 where c1: "for_each (fetch_run_slabs m layer) runs c = (Inr us, c1)"
    "ec_inv m (P - settled (concat (map fr_jobs runs))) c1" "written c c1" by blast
  have ssd1: "ec_ssd c1" using ssd c1(3) by (simp add: written_def ec_core_def)
  let ?B = "batches (batch_size (nb2_of c) singles) singles"
  have cat: "concat ?B = singles" by (rule concat_batches[OF batch_size_pos])
  have "\<exists>us c'. for_each (fetch_batch m layer) ?B c1 = (Inr us, c') \<and>
      ec_inv m (P - settled (concat (map fr_jobs runs)) - settled (concat (map (\<lambda>x. x) ?B))) c' \<and> written c1 c'"
  proof (rule settle_loop[OF c1(2) ssd1])
    fix js P c2 assume js: "js \<in> set ?B" and c2: "ec_inv m P c2" "ec_ssd c2" "written c1 c2"
    show "\<exists>c'. fetch_batch m layer js c2 = (Inr (), c') \<and> ec_inv m (P - settled js) c' \<and> written c2 c'"
    proof (rule fetch_batch_ok[OF c2(1,2)])
      fix j assume "j \<in> set js"
      with js have "j \<in> set (concat ?B)" by auto
      then have "j \<in> set jobs" unfolding cat using sets by auto
      with good job_good_written[OF written_trans[OF c1(3) c2(3)] inv] show "job_good m layer c2 j" by blast
    qed
  qed
  then obtain us' c2 where c2: "for_each (fetch_batch m layer) ?B c1 = (Inr us', c2)"
    "ec_inv m (P - settled (concat (map fr_jobs runs)) - settled singles) c2" "written c1 c2"
    by (auto simp: cat)
  have "P - settled (concat (map fr_jobs runs)) - settled singles = P - settled jobs"
    unfolding settled_def sets[symmetric] by auto
  then show ?thesis
    using plan c1 c2 written_trans[OF c1(3) c2(3)] by (simp add: fetch_parallel_def)
qed

subsection \<open>The whole call\<close>

definition holds_slab :: "'b wsource \<Rightarrow> 'b ecache \<Rightarrow> nat \<Rightarrow> nat \<Rightarrow> role \<Rightarrow> nat \<Rightarrow> bool" where
  "holds_slab m c layer e r s \<longleftrightarrow>
     s < pl_n_slots (pool_at c r layer) \<and> resident c r layer e \<and>
     expert_slab m (ec_ssd c) r layer e = Some (pl_t (pool_at c r layer) ! s)"

lemma loop_inv_init: "ec_inv m P c \<Longrightarrow> serves c layer \<Longrightarrow> loop_inv m layer c P [] [] c"
  using ec_routing(2) ec_invD(3)
  by (fastforce simp: loop_inv_def handed_def pool_at_def dest: leD)

lemma loop_inv_done:
  assumes I: "loop_inv m layer c0 {} W ss c" and room: "room c0 layer ids" and W: "fst ` set W \<subseteq> set ids"
    and i: "i < length W"
  shows "holds_slab m c layer (fst (W ! i)) (snd (W ! i)) (ss ! i)"
proof -
  obtain e r where w: "W ! i = (e, r)" by (cases "W ! i")
  have inv: "ec_inv m {} c" and core: "ec_core c = ec_core c0" using I by (auto simp: loop_inv_def)
  note cs = ec_core_simps[OF core]
  have sv: "serves c layer" using room cs by (simp add: room_def)
  have "e \<in> set ids" using W i w by (metis fst_conv image_eqI nth_mem subsetD)
  then have e: "e < ec_n_expert c" using room cs by (simp add: room_def)
  have lk: "map_of (pl_key2slot (pool_at c r layer)) (layer * ec_n_expert c + e) = Some (ss ! i)"
    using I i w cs by (force simp: loop_inv_def)
  note d = ec_invD[OF inv ec_routing(2)[OF inv sv, of r]]
  note s = pool_lookup[OF d(1) lk[unfolded pool_at_def]]
  from d(4)[of "ss ! i"] s e ec_routing(3)[OF inv sv, of r]
  have "expert_slab m (ec_ssd c) r layer e = Some (pl_t (pool_at c r layer) ! (ss ! i))"
    by (auto simp: slot_ok_def pool_at_def)
  then show ?thesis using w s lk sv by (simp add: holds_slab_def resident_def pool_at_def)
qed

lemma wants_simps: "wants [] = []" "wants (e # ids) = (e, GATE) # (e, UP) # (e, DOWN) # wants ids"
  by (simp_all add: wants_def roles_def)

lemma wants_sub: "fst ` set (wants ids) \<subseteq> set ids"
  by (induction ids) (auto simp: wants_simps)

lemma out_slots_all2:
  assumes "list_all2 (\<lambda>w s. Q (fst w) (snd w) s) (wants ids) ss"
  shows "list_all2 (\<lambda>e s. Q e r s) ids (out_slots ids ss r)"
  using assms
proof (induction ids arbitrary: ss)
  case Nil
  then show ?case by (simp add: wants_simps out_slots_def)
next
  case (Cons e ids)
  then obtain a b d ss' where ss: "ss = a # b # d # ss'" "Q e GATE a" "Q e UP b" "Q e DOWN d"
    "list_all2 (\<lambda>w s. Q (fst w) (snd w) s) (wants ids) ss'"
    by (auto simp: wants_simps list_all2_Cons1)
  have "out_slots (e # ids) ss r = (case r of GATE \<Rightarrow> a | UP \<Rightarrow> b | DOWN \<Rightarrow> d) # out_slots ids ss' r"
    by (cases r) (simp_all add: out_slots_def ss(1) wants_simps)
  then show ?case using Cons.IH[OF ss(5)] ss(2-4) by (cases r) simp_all
qed

text \<open>The hypotheses under which \<open>ensure\<close> must deliver.\<close>

definition ensure_pre :: "'b wsource \<Rightarrow> 'b ecache \<Rightarrow> nat \<Rightarrow> nat list \<Rightarrow> bool" where
  "ensure_pre m c layer ids \<longleftrightarrow>
     ec_inv m {} c \<and> room c layer ids \<and> (\<forall>r. \<forall>e\<in>set ids. expert_slab m (ec_ssd c) r layer e \<noteq> None)"

lemma ensure_loop_ram:
  assumes pre: "ensure_pre m c layer ids"
  shows "\<exists>ss c'. for_each (ensure_ram m layer) (wants ids) c = (Inr ss, c') \<and> length ss = length (wants ids) \<and>
    loop_inv m layer c {} (wants ids) ss c'"
proof -
  from pre have rm: "room c layer ids" and inv: "ec_inv m {} c" by (auto simp: ensure_pre_def)
  then have sv: "serves c layer" by (simp add: room_def)
  have "\<exists>ss c'. for_each (ensure_ram m layer) (wants ids) c = (Inr ss, c') \<and> length ss = length (wants ids) \<and>
      loop_inv m layer c {} ([] @ wants ids) ([] @ ss) c'"
  proof (rule for_each_rule[where I = "\<lambda>W ss. loop_inv m layer c {} W ss"])
    show "loop_inv m layer c {} [] [] c" by (rule loop_inv_init[OF inv sv])
    fix W w post c1 assume split: "[] @ wants ids = W @ w # post"
    obtain e r where w: "w = (e, r)" by (cases w)
    have mem: "w \<in> set (wants ids)" "set W \<subseteq> set (wants ids)" using split by auto
    then have sub: "fst ` set W \<subseteq> set ids" "e \<in> set ids" using wants_sub[of ids] w by force+
    show "\<forall>ss. length ss = length W \<longrightarrow> loop_inv m layer c {} W ss c1 \<longrightarrow>
        (\<exists>s c'. ensure_ram m layer w c1 = (Inr s, c') \<and> loop_inv m layer c {} (W @ [w]) (ss @ [s]) c')"
      using ensure_ram_step[OF _ _ rm sub, of m "{}" _ c1 r] pre sub(2) unfolding w
      by (fastforce simp: ensure_pre_def)
  qed simp
  then show ?thesis by simp
qed

lemma ensure_loop_ssd:
  assumes inv: "ec_inv m {} c" and rm: "room c layer ids"
  shows "\<exists>rs c'. for_each (ensure_ssd layer) (wants ids) c = (Inr rs, c') \<and> length rs = length (wants ids) \<and>
    loop_inv m layer c (pend rs) (wants ids) (map fst rs) c' \<and> jobs_of c layer (wants ids) rs"
proof -
  have sv: "serves c layer" using rm by (simp add: room_def)
  have "\<exists>rs c'. for_each (ensure_ssd layer) (wants ids) c = (Inr rs, c') \<and> length rs = length (wants ids) \<and>
      loop_inv m layer c (pend ([] @ rs)) ([] @ wants ids) (map fst ([] @ rs)) c' \<and>
      jobs_of c layer ([] @ wants ids) ([] @ rs)"
  proof (rule for_each_rule[where I = "\<lambda>W rs c'. loop_inv m layer c (pend rs) W (map fst rs) c' \<and> jobs_of c layer W rs"])
    show "loop_inv m layer c (pend []) [] (map fst []) c \<and> jobs_of c layer [] []"
      using loop_inv_init[OF inv sv] by (simp add: pend_def jobs_of_def List.map_filter_def)
    fix W w post c1 assume split: "[] @ wants ids = W @ w # post"
    obtain e r where w: "w = (e, r)" by (cases w)
    have mem: "w \<in> set (wants ids)" "set W \<subseteq> set (wants ids)" using split by auto
    then have sub: "fst ` set W \<subseteq> set ids" "e \<in> set ids" using wants_sub[of ids] w by force+
    show "\<forall>rs. length rs = length W \<longrightarrow> loop_inv m layer c (pend rs) W (map fst rs) c1 \<and> jobs_of c layer W rs \<longrightarrow>
        (\<exists>x c'. ensure_ssd layer w c1 = (Inr x, c') \<and>
          loop_inv m layer c (pend (rs @ [x])) (W @ [w]) (map fst (rs @ [x])) c' \<and>
          jobs_of c layer (W @ [w]) (rs @ [x]))"
      using ensure_ssd_step[OF _ _ _ rm sub, of m _ c1 r] unfolding w by blast
  qed simp
  then show ?thesis by simp
qed

lemma loop_inv_written:
  assumes I: "loop_inv m layer c0 P W ss c" and w: "written c c'" and inv': "ec_inv m P' c'"
    and sv: "serves c layer"
  shows "loop_inv m layer c0 P' W ss c'"
proof -
  have inv: "ec_inv m P c" using I by (simp add: loop_inv_def)
  note cs = ec_core_simps[OF conjunct1[OF w[unfolded written_def]]]
  have same: "pl_key2slot (pool_at c' r layer) = pl_key2slot (pool_at c r layer)"
    "pool_shape (pool_at c' r layer) = pool_shape (pool_at c r layer)"
    "handed t layer nE E (pool_at c r layer) \<Longrightarrow> handed t layer nE E (pool_at c' r layer)" for r t nE E
    using pool_strip_simps[OF written_pool(2)[OF w ec_routing(2)[OF inv sv, of r]]]
    by (auto simp: pool_at_def cs pool_shape_def elim!: handed_same)
  have "map pool_shape (ec_pools c') = map pool_shape (ec_pools c)"
  proof -
    have "pool_shape = pool_shape \<circ> (\<lambda>p :: 'a pool. p\<lparr>pl_t := []\<rparr>)" by (simp add: fun_eq_iff pool_shape_def)
    moreover have "map pool_shape (strip c') = map pool_shape (strip c)" using w by (simp add: written_def)
    ultimately show ?thesis unfolding strip_def map_map by metis
  qed
  with same show ?thesis using I inv' w by (auto simp: loop_inv_def written_def)
qed

lemma jobs_good:
  assumes pre: "ensure_pre m c layer ids" and ssd: "ec_ssd c"
    and I: "loop_inv m layer c P (wants ids) (map fst rs) c1"
    and J: "jobs_of c layer (wants ids) rs" and len: "length rs = length (wants ids)"
    and j: "j \<in> set (List.map_filter snd rs)"
  shows "job_good m layer c1 j"
proof -
  note cs = ec_core_simps[OF conjunct1[OF conjunct2[OF I[unfolded loop_inv_def]]]]
  from j obtain i where i: "i < length rs" "snd (rs ! i) = Some j"
    by (auto simp: List.map_filter_def in_set_conv_nth)
  then have jj: "j = \<lparr>fj_pool = pool_ix c (snd (wants ids ! i)) layer, fj_role = snd (wants ids ! i),
      fj_expert = fst (wants ids ! i), fj_slot = fst (rs ! i)\<rparr>"
    using J len by (simp add: jobs_of_def)
  have mem: "fst (wants ids ! i) \<in> set ids" using wants_sub[of ids] i len by auto
  have "map_of (pl_key2slot (pool_at c1 (snd (wants ids ! i)) layer))
      (layer * ec_n_expert c + fst (wants ids ! i)) = Some (fst (rs ! i))"
    using I i len by (simp add: loop_inv_def)
  then show ?thesis
    using pre mem ssd by (auto simp: job_good_def jj cs ensure_pre_def room_def pool_at_def)
qed

lemma ensure_final:
  assumes pre: "ensure_pre m c layer ids"
  shows "\<exists>ss c'. ensure m layer ids c = (Inr (out_slots ids ss), c') \<and> length ss = length (wants ids) \<and>
    loop_inv m layer c {} (wants ids) ss c'"
proof (cases "ec_ssd c")
  case False
  with ensure_loop_ram[OF pre] pre show ?thesis
    by (auto simp: ensure_def ensure_pre_def room_def)
next
  case True
  have "ec_inv m {} c" "room c layer ids" using pre by (simp_all add: ensure_pre_def)
  from ensure_loop_ssd[OF this] obtain rs c1 where
    c1: "for_each (ensure_ssd layer) (wants ids) c = (Inr rs, c1)" "length rs = length (wants ids)" and
    I: "loop_inv m layer c (pend rs) (wants ids) (map fst rs) c1" and J: "jobs_of c layer (wants ids) rs"
    by blast
  have inv1: "ec_inv m (pend rs) c1" and core: "ec_core c1 = ec_core c" using I by (auto simp: loop_inv_def)
  note cs = ec_core_simps[OF core]
  have sv: "serves c layer" using pre by (simp add: ensure_pre_def room_def)
  from fetch_parallel_ok[OF inv1, of "List.map_filter snd rs" layer] jobs_good[OF pre True I J c1(2)] True cs
  obtain c2 where c2: "fetch_parallel m layer (List.map_filter snd rs) c1 = (Inr (), c2)"
    "ec_inv m (pend rs - settled (List.map_filter snd rs)) c2" "written c1 c2"
    by blast
  have "pend rs - settled (List.map_filter snd rs) = {}" by (simp add: pend_def settled_def)
  with loop_inv_written[OF I c2(3)] c2(2) sv cs have "loop_inv m layer c {} (wants ids) (map fst rs) c2" by simp
  with c1 c2(1) True sv show ?thesis by (auto simp: ensure_def)
qed

lemma ensure_ok:
  assumes "ensure_pre m c layer ids"
  shows "\<exists>outs c'. ensure m layer ids c = (Inr outs, c') \<and> ec_inv m {} c' \<and> ec_core c' = ec_core c \<and>
    map pool_shape (ec_pools c') = map pool_shape (ec_pools c) \<and>
    (\<forall>r. length (outs r) = length ids \<and>
      (\<forall>i < length ids. holds_slab m c' layer (ids ! i) r (outs r ! i)))"
proof -
  from ensure_final[OF assms] obtain ss c' where
    e: "ensure m layer ids c = (Inr (out_slots ids ss), c')" "length ss = length (wants ids)" and
    I: "loop_inv m layer c {} (wants ids) ss c'" by blast
  have rm: "room c layer ids" using assms by (simp add: ensure_pre_def)
  have "list_all2 (\<lambda>w s. holds_slab m c' layer (fst w) (snd w) s) (wants ids) ss"
    using loop_inv_done[OF I rm wants_sub] e(2) by (simp add: list_all2_conv_all_nth)
  from out_slots_all2[OF this] have "\<forall>r. length (out_slots ids ss r) = length ids \<and>
      (\<forall>i < length ids. holds_slab m c' layer (ids ! i) r (out_slots ids ss r ! i))"
    by (simp add: list_all2_conv_all_nth)
  moreover have "ec_inv m {} c'" "ec_core c' = ec_core c" "map pool_shape (ec_pools c') = map pool_shape (ec_pools c)"
    using I by (simp_all add: loop_inv_def)
  ultimately show ?thesis using e(1) by blast
qed

text \<open>
  C1. The expert cache's contract, on both tiers and with quotas on or off: from a consistent cache,
  when the distinct experts of a call fit the slots its layer may hold, \<open>ensure\<close> returns (it neither
  throws nor indexes with \<open>-1\<close>), gives one slot per requested expert and role, and every returned slot
  holds exactly the slab of that expert at the end of the call, whatever the call evicted on the way;
  the cache stays consistent.
\<close>

theorem ensure_correct:
  assumes "ec_inv m {} c" "serves c layer" "\<forall>e\<in>set ids. e < ec_n_expert c"
    and "\<forall>r. card (set ids) \<le> safe_slots (ec_quota_on c) (pool_at c r layer) layer"
    and "\<forall>r. \<forall>e\<in>set ids. expert_slab m (ec_ssd c) r layer e \<noteq> None"
  shows "\<exists>outs c'. ensure m layer ids c = (Inr outs, c') \<and> ec_inv m {} c' \<and>
    (\<forall>r. length (outs r) = length ids \<and>
      (\<forall>i < length ids. holds_slab m c' layer (ids ! i) r (outs r ! i)))"
  using ensure_ok[of m c layer ids] assms unfolding ensure_pre_def room_def by blast

end
