(* ===== verification/Expert_Build.thy ===== *)
theory Expert_Build
  imports Expert_Ensure
begin

section \<open>Building an expert cache\<close>

text \<open>
  The constructor of \<open>ExpertCache\<close>: signatures of the expert tensors, routing of layers to pools, and
  pool sizes. The model's tensors are described by \<open>tinfo\<close> (\<open>None\<close>: no such tensor);
  \<open>scale\<close> stands for the floating-point product \<open>(int) (frac * cap)\<close>, and \<open>gg_nb2\<close> for the slab
  stride ggml gives a new tensor of a type and shape. \<open>alloc\<close> is whether the backend buffer could be
  allocated, and \<open>mem\<close> the content of fresh device memory.
\<close>

record tinfo =
  ti_type :: nat
  ti_ne0 :: nat
  ti_ne1 :: nat
  ti_nb2 :: nat

record sig =
  sg_role :: role
  sg_type :: nat
  sg_ne0 :: nat
  sg_ne1 :: nat
  sg_slab :: nat
  sg_n_layers :: nat

definition owns :: "(nat \<Rightarrow> bool) option \<Rightarrow> (role \<Rightarrow> nat \<Rightarrow> tinfo option) \<Rightarrow> nat \<Rightarrow> bool" where
  "owns lmask ts il = ((case lmask of None \<Rightarrow> True | Some f \<Rightarrow> f il) \<and> ts GATE il \<noteq> None)"

definition same_sig :: "role \<Rightarrow> tinfo \<Rightarrow> sig \<Rightarrow> bool" where
  "same_sig r t s = (sg_role s = r \<and> sg_type s = ti_type t \<and> sg_ne0 s = ti_ne0 t \<and> sg_ne1 s = ti_ne1 t)"

fun find_sig :: "(sig \<Rightarrow> bool) \<Rightarrow> sig list \<Rightarrow> nat \<Rightarrow> nat option" where
  "find_sig P [] i = None"
| "find_sig P (s # ss) i = (if P s then Some i else find_sig P ss (Suc i))"

definition bump_sig :: "nat \<Rightarrow> sig list \<Rightarrow> sig list" where
  "bump_sig i sigs = sigs[i := (sigs ! i)\<lparr>sg_n_layers := sg_n_layers (sigs ! i) + 1\<rparr>]"

definition route ::
  "(nat \<Rightarrow> bool) option \<Rightarrow> (role \<Rightarrow> nat \<Rightarrow> tinfo option) \<Rightarrow> role \<Rightarrow> nat \<Rightarrow> (sig list, nat option) prog" where
  "route lmask ts r il sigs =
     (if \<not> owns lmask ts il then (Inr None, sigs)
      else case ts r il of
             None \<Rightarrow> (Inl (Runtime_error ''ExpertCache: missing expert tensor''), sigs)
           | Some t \<Rightarrow>
               (case find_sig (same_sig r t) sigs 0 of
                  Some i \<Rightarrow> (Inr (Some i), bump_sig i sigs)
                | None \<Rightarrow>
                    (Inr (Some (length sigs)),
                     bump_sig (length sigs)
                       (sigs @ [\<lparr>sg_role = r, sg_type = ti_type t, sg_ne0 = ti_ne0 t, sg_ne1 = ti_ne1 t,
                                 sg_slab = ti_nb2 t, sg_n_layers = 0\<rparr>]))))"

definition route_all ::
  "(nat \<Rightarrow> bool) option \<Rightarrow> (role \<Rightarrow> nat \<Rightarrow> tinfo option) \<Rightarrow> nat \<Rightarrow> (sig list, (role \<Rightarrow> nat option list)) prog" where
  "route_all lmask ts n_layer sigs =
     (case for_each (route lmask ts GATE) [0..<n_layer] sigs of
        (Inl x, s1) \<Rightarrow> (Inl x, s1)
      | (Inr g, s1) \<Rightarrow>
          (case for_each (route lmask ts UP) [0..<n_layer] s1 of
             (Inl x, s2) \<Rightarrow> (Inl x, s2)
           | (Inr u, s2) \<Rightarrow>
               (case for_each (route lmask ts DOWN) [0..<n_layer] s2 of
                  (Inl x, s3) \<Rightarrow> (Inl x, s3)
                | (Inr d, s3) \<Rightarrow> (Inr (\<lambda>r. case r of GATE \<Rightarrow> g | UP \<Rightarrow> u | DOWN \<Rightarrow> d), s3))))"

text \<open>The correctness floor: at least \<open>n_used\<close> slots, at most one per expert of the pool's layers.\<close>

definition slots_for :: "(nat \<Rightarrow> nat) \<Rightarrow> nat \<Rightarrow> nat \<Rightarrow> sig \<Rightarrow> nat" where
  "slots_for scale n_expert n_used s =
     (let cap = sg_n_layers s * n_expert; n0 = scale cap; n1 = (if n0 < n_used then n_used else n0)
      in if n1 > cap then cap else n1)"

definition make_pool ::
  "(nat \<Rightarrow> nat) \<Rightarrow> (nat \<Rightarrow> nat \<Rightarrow> nat \<Rightarrow> nat) \<Rightarrow> (nat \<Rightarrow> 'b list list) \<Rightarrow> nat \<Rightarrow> nat \<Rightarrow> nat \<Rightarrow> sig \<Rightarrow> 'b pool" where
  "make_pool scale gg_nb2 mem n_layer n_expert n_used s =
     (let n = slots_for scale n_expert n_used s
      in empty_pool n_layer n_expert (sg_role s) (gg_nb2 (sg_type s) (sg_ne0 s) (sg_ne1 s)) n (mem n))"

definition ExpertCache ::
  "(nat \<Rightarrow> bool) option \<Rightarrow> (role \<Rightarrow> nat \<Rightarrow> tinfo option) \<Rightarrow> (nat \<Rightarrow> nat) \<Rightarrow> (nat \<Rightarrow> nat \<Rightarrow> nat \<Rightarrow> nat) \<Rightarrow>
   (nat \<Rightarrow> 'b list list) \<Rightarrow> bool \<Rightarrow> nat \<Rightarrow> nat \<Rightarrow> nat \<Rightarrow> bool \<Rightarrow> nat option \<Rightarrow> exn + 'b ecache" where
  "ExpertCache lmask ts scale gg_nb2 mem alloc n_layer n_expert n_used ssd coal =
     (case route_all lmask ts n_layer [] of
        (Inl x, _) \<Rightarrow> Inl x
      | (Inr lp, sigs) \<Rightarrow>
          if \<not> alloc then Inl (Runtime_error ''the expert slot pools'')
          else Inr
            \<lparr>ec_n_layer = n_layer, ec_n_expert = n_expert, ec_n_used = n_used, ec_ssd = ssd, ec_coal = coal,
             ec_quota_on = False, ec_pools = map (make_pool scale gg_nb2 mem n_layer n_expert n_used) sigs,
             ec_layer_pool = lp, ec_clock = 0, ec_hits = 0, ec_misses = 0, ec_evictions = 0, ec_fetch_bytes = 0,
             ec_l_hits = replicate n_layer 0, ec_l_misses = replicate n_layer 0,
             ec_l_evict = replicate n_layer 0, ec_l_want = replicate n_layer 0,
             ec_l_wmiss = replicate n_layer 0\<rparr>)"

subsection \<open>Routing\<close>

lemma find_sig_Some: "find_sig P ss i = Some j \<Longrightarrow> i \<le> j \<and> j < i + length ss \<and> P (ss ! (j - i))"
proof (induction ss arbitrary: i)
  case (Cons s ss)
  then show ?case
    by (cases "P s") (auto dest!: Cons.IH simp: nth_Cons' Suc_diff_le)
qed simp

text \<open>Signatures only grow: a routed index keeps naming the same role, type and shape.\<close>

definition sig_id :: "sig \<Rightarrow> role \<times> nat \<times> nat \<times> nat" where
  "sig_id s = (sg_role s, sg_type s, sg_ne0 s, sg_ne1 s)"

definition extends :: "sig list \<Rightarrow> sig list \<Rightarrow> bool" where
  "extends ss ss' \<longleftrightarrow> length ss \<le> length ss' \<and>
     (\<forall>i < length ss. sig_id (ss' ! i) = sig_id (ss ! i) \<and> sg_n_layers (ss ! i) \<le> sg_n_layers (ss' ! i))"

lemma extends_refl: "extends ss ss"
  and extends_trans: "extends a b \<Longrightarrow> extends b c \<Longrightarrow> extends a c"
  by (auto simp: extends_def intro: le_trans)

definition routed :: "(role \<Rightarrow> nat \<Rightarrow> tinfo option) \<Rightarrow> role \<Rightarrow> nat \<Rightarrow> nat \<Rightarrow> sig list \<Rightarrow> bool" where
  "routed ts r il i ss \<longleftrightarrow> i < length ss \<and> 0 < sg_n_layers (ss ! i) \<and>
     (\<exists>t. ts r il = Some t \<and> sig_id (ss ! i) = (r, ti_type t, ti_ne0 t, ti_ne1 t))"

lemma routed_extends: "routed ts r il i ss \<Longrightarrow> extends ss ss' \<Longrightarrow> routed ts r il i ss'"
  unfolding routed_def extends_def by (metis less_le_trans)

definition live :: "sig list \<Rightarrow> bool" where "live ss \<longleftrightarrow> (\<forall>s\<in>set ss. 0 < sg_n_layers s)"

lemma route_ok:
  assumes "owns lmask ts il \<Longrightarrow> ts r il \<noteq> None" and lv: "live ss"
  shows "\<exists>x ss'. route lmask ts r il ss = (Inr x, ss') \<and> extends ss ss' \<and> live ss' \<and>
    (x = None \<longleftrightarrow> \<not> owns lmask ts il) \<and> (\<forall>i. x = Some i \<longrightarrow> routed ts r il i ss')"
proof (cases "owns lmask ts il")
  case False
  then show ?thesis using lv by (auto simp: route_def extends_refl)
next
  case True
  with assms obtain t where t: "ts r il = Some t" by auto
  show ?thesis
  proof (cases "find_sig (same_sig r t) ss 0")
    case None
    let ?new = "\<lparr>sg_role = r, sg_type = ti_type t, sg_ne0 = ti_ne0 t, sg_ne1 = ti_ne1 t, sg_slab = ti_nb2 t, sg_n_layers = 1\<rparr>"
    have "route lmask ts r il ss = (Inr (Some (length ss)), ss @ [?new])"
      using True t None by (simp add: route_def bump_sig_def)
    then show ?thesis using True t lv
      by (auto simp: extends_def routed_def sig_id_def nth_append live_def)
  next
    case (Some i)
    from find_sig_Some[OF Some] have i: "i < length ss" "same_sig r t (ss ! i)" by auto
    have "route lmask ts r il ss = (Inr (Some i), bump_sig i ss)"
      using True t Some by (simp add: route_def)
    then show ?thesis using True t i lv
      by (auto simp: extends_def routed_def sig_id_def bump_sig_def same_sig_def nth_list_update_if live_def
          dest!: subsetD[OF set_update_subset_insert])
  qed
qed

lemma route_role_ok:
  assumes "\<And>il. il < n \<Longrightarrow> owns lmask ts il \<Longrightarrow> ts r il \<noteq> None" "live ss"
  shows "\<exists>xs ss'. for_each (route lmask ts r) [0..<n] ss = (Inr xs, ss') \<and> extends ss ss' \<and> live ss' \<and> length xs = n \<and>
    (\<forall>il < n. (xs ! il = None \<longleftrightarrow> \<not> owns lmask ts il) \<and> (\<forall>i. xs ! il = Some i \<longrightarrow> routed ts r il i ss'))"
proof -
  let ?I = "\<lambda>W xs ss'. extends ss ss' \<and> live ss' \<and> (\<forall>j < length W. (xs ! j = None \<longleftrightarrow> \<not> owns lmask ts (W ! j)) \<and>
      (\<forall>i. xs ! j = Some i \<longrightarrow> routed ts r (W ! j) i ss'))"
  have "\<exists>xs ss'. for_each (route lmask ts r) [0..<n] ss = (Inr xs, ss') \<and> length xs = length [0..<n] \<and>
      ?I ([] @ [0..<n]) ([] @ xs) ss'"
  proof (rule for_each_rule)
    show "?I [] [] ss" using assms(2) by (simp add: extends_refl)
    fix W il post ss1 assume split: "[] @ [0..<n] = W @ il # post"
    then have "il \<in> set [0..<n]" by auto
    then have il: "owns lmask ts il \<Longrightarrow> ts r il \<noteq> None" using assms(1) by simp
    show "\<forall>xs. length xs = length W \<longrightarrow> ?I W xs ss1 \<longrightarrow>
        (\<exists>x ss'. route lmask ts r il ss1 = (Inr x, ss') \<and> ?I (W @ [il]) (xs @ [x]) ss')"
    proof (intro allI impI)
      fix xs assume len: "length xs = length W" and I: "?I W xs ss1"
      then have "live ss1" by blast
      from route_ok[of lmask ts il r ss1, OF il this] obtain x ss' where x: "route lmask ts r il ss1 = (Inr x, ss')" "extends ss1 ss'" "live ss'"
        "x = None \<longleftrightarrow> \<not> owns lmask ts il" "\<forall>i. x = Some i \<longrightarrow> routed ts r il i ss'" by blast
      then show "\<exists>x ss'. route lmask ts r il ss1 = (Inr x, ss') \<and> ?I (W @ [il]) (xs @ [x]) ss'"
        using len I extends_trans[of ss ss1 ss'] routed_extends[OF _ x(2)]
        by (auto simp: nth_append less_Suc_eq)
    qed
  qed simp
  then show ?thesis by auto
qed

subsection \<open>A fresh cache is consistent and holds any token's selection\<close>

text \<open>
  What the model file provides: a served layer has its three expert tensors, and their slab stride is
  the stride ggml computes for a tensor of that type and shape (expert tensors are contiguous).
\<close>

definition tensors_ok ::
  "(nat \<Rightarrow> bool) option \<Rightarrow> (role \<Rightarrow> nat \<Rightarrow> tinfo option) \<Rightarrow> (nat \<Rightarrow> nat \<Rightarrow> nat \<Rightarrow> nat) \<Rightarrow> 'b wsource \<Rightarrow> nat \<Rightarrow> bool" where
  "tensors_ok lmask ts gg_nb2 m n_layer \<longleftrightarrow>
     (\<forall>il < n_layer. \<forall>r. owns lmask ts il \<longrightarrow>
        (case ts r il of None \<Rightarrow> False
         | Some t \<Rightarrow> ws_nb2 m r il = ti_nb2 t \<and> ti_nb2 t = gg_nb2 (ti_type t) (ti_ne0 t) (ti_ne1 t) \<and> 0 < ti_nb2 t))"

lemma route_all_ok:
  assumes "tensors_ok lmask ts gg_nb2 m n"
  shows "\<exists>lp ss. route_all lmask ts n [] = (Inr lp, ss) \<and> live ss \<and>
    (\<forall>r. length (lp r) = n \<and> (\<forall>il < n. (lp r ! il = None \<longleftrightarrow> \<not> owns lmask ts il) \<and>
      (\<forall>i. lp r ! il = Some i \<longrightarrow> routed ts r il i ss)))"
proof -
  have has: "ts r il \<noteq> None" if "il < n" "owns lmask ts il" for r il
    using assms that by (auto simp: tensors_ok_def split: option.splits)
  have "live []" by (simp add: live_def)
  from route_role_ok[of n lmask ts GATE "[]", OF has this] obtain g s1 where
    g: "for_each (route lmask ts GATE) [0..<n] [] = (Inr g, s1)" "live s1" "length g = n"
    "\<forall>il < n. (g ! il = None \<longleftrightarrow> \<not> owns lmask ts il) \<and> (\<forall>i. g ! il = Some i \<longrightarrow> routed ts GATE il i s1)"
    by blast
  from route_role_ok[of n lmask ts UP s1, OF has g(2)] obtain u s2 where
    u: "for_each (route lmask ts UP) [0..<n] s1 = (Inr u, s2)" "extends s1 s2" "live s2" "length u = n"
    "\<forall>il < n. (u ! il = None \<longleftrightarrow> \<not> owns lmask ts il) \<and> (\<forall>i. u ! il = Some i \<longrightarrow> routed ts UP il i s2)"
    by blast
  from route_role_ok[of n lmask ts DOWN s2, OF has u(3)] obtain d s3 where
    d: "for_each (route lmask ts DOWN) [0..<n] s2 = (Inr d, s3)" "extends s2 s3" "live s3" "length d = n"
    "\<forall>il < n. (d ! il = None \<longleftrightarrow> \<not> owns lmask ts il) \<and> (\<forall>i. d ! il = Some i \<longrightarrow> routed ts DOWN il i s3)"
    by blast
  let ?lp = "\<lambda>r. case r of GATE \<Rightarrow> g | UP \<Rightarrow> u | DOWN \<Rightarrow> d"
  have "route_all lmask ts n [] = (Inr ?lp, s3)" using g(1) u(1) d(1) by (simp add: route_all_def)
  moreover have "length (?lp r) = n \<and> (\<forall>il < n. (?lp r ! il = None \<longleftrightarrow> \<not> owns lmask ts il) \<and>
      (\<forall>i. ?lp r ! il = Some i \<longrightarrow> routed ts r il i s3))" for r
  proof (cases r)
    case GATE
    then show ?thesis using g(3,4) routed_extends[OF _ extends_trans[OF u(2) d(2)]] by simp
  next
    case UP
    then show ?thesis using u(4,5) routed_extends[OF _ d(2)] by simp
  next
    case DOWN
    then show ?thesis using d(4,5) by simp
  qed
  ultimately show ?thesis using d(3) by blast
qed

lemma slots_for_bounds:
  assumes "0 < sg_n_layers s" "n_used \<le> n_expert"
  shows "n_used \<le> slots_for scale n_expert n_used s" "slots_for scale n_expert n_used s \<le> sg_n_layers s * n_expert"
proof -
  have "n_expert \<le> sg_n_layers s * n_expert" using assms(1) by (cases "sg_n_layers s") auto
  then have "n_used \<le> sg_n_layers s * n_expert" using assms(2) by (rule order_trans[rotated])
  then show "n_used \<le> slots_for scale n_expert n_used s" by (simp add: slots_for_def Let_def)
  show "slots_for scale n_expert n_used s \<le> sg_n_layers s * n_expert" by (auto simp: slots_for_def Let_def)
qed

lemma ec_inv_fresh:
  assumes lp: "\<And>r. length (lp r) = n"
    "\<And>r il. il < n \<Longrightarrow> lp GATE ! il \<noteq> None \<Longrightarrow> \<exists>i (t::tinfo). lp r ! il = Some i \<and> i < length ss \<and>
       sig_id (ss ! i) = (r, ti_type t, ti_ne0 t, ti_ne1 t) \<and>
       ws_nb2 m r il = gg_nb2 (ti_type t) (ti_ne0 t) (ti_ne1 t) \<and> 0 < ws_nb2 m r il"
    and mem: "\<And>k. length (mem k) = k" and pos: "0 < nE" "\<And>s. s \<in> set ss \<Longrightarrow> 0 < slots_for scale nE nU s"
    and c: "ec_n_layer c = n" "ec_n_expert c = nE" "ec_pools c = map (make_pool scale gg_nb2 mem n nE nU) ss"
      "ec_layer_pool c = lp"
  shows "ec_inv m P c"
proof -
  have "ec_static m c"
    unfolding ec_static_def c
  proof (intro conjI allI impI)
    fix layer r assume "serves c layer"
    then have "layer < n" "lp GATE ! layer \<noteq> None" by (auto simp: serves_def c)
    from lp(2)[OF this, of r] obtain i and t :: tinfo where "lp r ! layer = Some i" "i < length ss"
      "sig_id (ss ! i) = (r, ti_type t, ti_ne0 t, ti_ne1 t)"
      "ws_nb2 m r layer = gg_nb2 (ti_type t) (ti_ne0 t) (ti_ne1 t)" "0 < ws_nb2 m r layer" by blast
    then show "\<exists>pi. lp r ! layer = Some pi \<and> pi < length (map (make_pool scale gg_nb2 mem n nE nU) ss) \<and>
        pl_role (map (make_pool scale gg_nb2 mem n nE nU) ss ! pi) = r \<and>
        pl_nb2 (map (make_pool scale gg_nb2 mem n nE nU) ss ! pi) = ws_nb2 m r layer \<and> 0 < ws_nb2 m r layer \<and>
        quota_uniform (map (make_pool scale gg_nb2 mem n nE nU) ss ! pi) layer"
      using \<open>layer < n\<close> by (auto simp: make_pool_def empty_pool_def sig_id_def Let_def quota_uniform_def)
  qed (use lp(1) pos in auto)
  moreover have "ec_dyn c"
    unfolding ec_dyn_def c using pos mem
    by (auto simp: make_pool_def Let_def pool_wf_empty) (auto simp: empty_pool_def)
  moreover have "data_ok m P c"
    unfolding data_ok_def c by (auto simp: make_pool_def Let_def empty_pool_def slot_ok_def)
  ultimately show ?thesis by (simp add: ec_inv_def)
qed

lemma room_no_quota:
  assumes "\<not> ec_quota_on c" "serves c layer" "\<forall>e\<in>set ids. e < ec_n_expert c"
    "\<And>r. card (set ids) \<le> pl_n_slots (pool_at c r layer)"
  shows "room c layer ids"
  using assms by (simp add: room_def safe_slots_def)

lemma ExpertCache_fresh:
  assumes "tensors_ok lmask ts gg_nb2 m n" "0 < nU" "nU \<le> nE" "\<And>k. length (mem k) = k"
  shows "\<exists>c. ExpertCache lmask ts scale gg_nb2 mem True n nE nU ssd coal = Inr c \<and> ec_inv m {} c \<and> ec_ssd c = ssd \<and> ec_n_expert c = nE \<and>
    (\<forall>il < n. serves c il \<longleftrightarrow> owns lmask ts il) \<and>
    (\<forall>layer ids. serves c layer \<longrightarrow> set ids \<subseteq> {..<nE} \<longrightarrow> card (set ids) \<le> nU \<longrightarrow> room c layer ids)"
proof -
  from route_all_ok[OF assms(1)] obtain lp ss where
    lp: "route_all lmask ts n [] = (Inr lp, ss)" "live ss" "\<And>r. length (lp r) = n"
    "\<And>r il. il < n \<Longrightarrow> lp r ! il = None \<longleftrightarrow> \<not> owns lmask ts il"
    "\<And>r il i. il < n \<Longrightarrow> lp r ! il = Some i \<Longrightarrow> routed ts r il i ss" by blast
  define c where "c = projr (ExpertCache lmask ts scale gg_nb2 mem True n nE nU ssd coal)"
  have eq: "ExpertCache lmask ts scale gg_nb2 mem True n nE nU ssd coal = Inr c"
    by (simp add: c_def ExpertCache_def lp(1))
  have f: "ec_n_layer c = n" "ec_n_expert c = nE" "ec_layer_pool c = lp" "\<not> ec_quota_on c"
    "ec_ssd c = ssd"
    "ec_pools c = map (make_pool scale gg_nb2 mem n nE nU) ss"
    by (simp_all add: c_def ExpertCache_def lp(1))
  have slots: "nU \<le> slots_for scale nE nU s" if "s \<in> set ss" for s
    using slots_for_bounds(1) lp(2) assms(3) that by (auto simp: live_def)
  have rt: "\<exists>i (t::tinfo). lp r ! il = Some i \<and> i < length ss \<and> sig_id (ss ! i) = (r, ti_type t, ti_ne0 t, ti_ne1 t) \<and>
       ws_nb2 m r il = gg_nb2 (ti_type t) (ti_ne0 t) (ti_ne1 t) \<and> 0 < ws_nb2 m r il"
    if il: "il < n" "lp GATE ! il \<noteq> None" for r il
  proof -
    have own: "owns lmask ts il" using il(2) unfolding lp(4)[OF il(1)] by simp
    then obtain i where i: "lp r ! il = Some i" using lp(4)[OF il(1), of r] by auto
    from lp(5)[OF il(1) i] own assms(1) il(1) i show ?thesis
      by (auto simp: routed_def tensors_ok_def split: option.splits)
  qed
  have pos: "0 < nE" using assms(2,3) by linarith
  have spos: "0 < slots_for scale nE nU s" if "s \<in> set ss" for s
    using slots[OF that] assms(2) by linarith
  have inv: "ec_inv m {} c"
    by (rule ec_inv_fresh[OF lp(3) rt assms(4) pos spos f(1,2,6,3)])
  have sv: "serves c il \<longleftrightarrow> owns lmask ts il" if "il < n" for il
    using that lp(4)[OF that, of GATE] by (auto simp: serves_def f)
  have "room c layer ids" if "serves c layer" "set ids \<subseteq> {..<nE}" "card (set ids) \<le> nU" for layer ids
  proof (rule room_no_quota[OF f(4) that(1)])
    fix r
    have "pool_ix c r layer < length ss" using ec_routing(2)[OF inv that(1), of r] by (simp add: f)
    then have "nU \<le> pl_n_slots (pool_at c r layer)"
      using slots by (simp add: pool_at_def f make_pool_def Let_def empty_pool_def)
    with that(3) show "card (set ids) \<le> pl_n_slots (pool_at c r layer)" by simp
  qed (use that(2) f in auto)
  with eq inv sv f(2,5) show ?thesis by blast
qed

text \<open>
  C20. The constructor: with the expert tensors present it succeeds and the cache it builds is
  consistent and serves exactly the layers the device owns. On it, any selection of at most
  \<open>n_used\<close> experts of a served layer is delivered: \<open>ensure\<close> returns a slot per expert and role that
  holds that expert's slab. This is what the \<open>n_used\<close> floor on the pool size is for.
\<close>

theorem ExpertCache_correct:
  assumes "tensors_ok lmask ts gg_nb2 m n" "0 < nU" "nU \<le> nE" "\<forall>k. length (mem k) = k"
    and "\<forall>r il. \<forall>e < nE. expert_slab m ssd r il e \<noteq> None"
  shows "\<exists>c. ExpertCache lmask ts scale gg_nb2 mem True n nE nU ssd coal = Inr c \<and> ec_inv m {} c \<and>
    (\<forall>il < n. serves c il \<longleftrightarrow> owns lmask ts il) \<and>
    (\<forall>layer ids. serves c layer \<longrightarrow> set ids \<subseteq> {..<nE} \<longrightarrow> card (set ids) \<le> nU \<longrightarrow>
      (\<exists>outs c'. ensure m layer ids c = (Inr outs, c') \<and>
        (\<forall>r. \<forall>i < length ids. holds_slab m c' layer (ids ! i) r (outs r ! i))))"
proof -
  from assms(4) have mem: "length (mem k) = k" for k by blast
  from ExpertCache_fresh[OF assms(1-3) mem] obtain c where
    c: "ExpertCache lmask ts scale gg_nb2 mem True n nE nU ssd coal = Inr c" "ec_inv m {} c" "ec_ssd c = ssd"
    "ec_n_expert c = nE" "\<forall>il < n. serves c il \<longleftrightarrow> owns lmask ts il"
    "\<And>layer ids. serves c layer \<Longrightarrow> set ids \<subseteq> {..<nE} \<Longrightarrow> card (set ids) \<le> nU \<Longrightarrow> room c layer ids" by blast
  have "\<exists>outs c'. ensure m layer ids c = (Inr outs, c') \<and>
        (\<forall>r. \<forall>i < length ids. holds_slab m c' layer (ids ! i) r (outs r ! i))"
    if "serves c layer" "set ids \<subseteq> {..<nE}" "card (set ids) \<le> nU" for layer ids
    using ensure_ok[of m c layer ids] c(2,3) c(6)[OF that] assms(5) that(2)
    unfolding ensure_pre_def by blast
  with c show ?thesis by blast
qed

subsection \<open>A small instance\<close>

text \<open>One layer with four experts of two bytes each and two of them in use, in host memory.\<close>

definition demo_src :: "nat wsource" where
  "demo_src = \<lparr>ws_nb2 = \<lambda>_ _. 2, ws_data = \<lambda>r _. (case r of GATE \<Rightarrow> [0..<8] | UP \<Rightarrow> [8..<16] | DOWN \<Rightarrow> [16..<24]),
     ws_path = \<lambda>_ _. [], ws_off = \<lambda>_ _. 0, ws_fs = \<lambda>_. None\<rparr>"

definition demo_ts :: "role \<Rightarrow> nat \<Rightarrow> tinfo option" where
  "demo_ts = (\<lambda>_ _. Some \<lparr>ti_type = 0, ti_ne0 = 1, ti_ne1 = 2, ti_nb2 = 2\<rparr>)"

definition demo_new :: "exn + nat ecache" where
  "demo_new = ExpertCache None demo_ts (\<lambda>_. 0) (\<lambda>_ _ _. 2) (\<lambda>k. replicate k [0, 0]) True 1 4 2 False None"

lemma demo_ok:
  "tensors_ok None demo_ts (\<lambda>_ _ _. 2) demo_src 1"
  "\<forall>r il. \<forall>e < 4. expert_slab demo_src False r il e \<noteq> None"
  by (simp_all add: tensors_ok_def demo_ts_def demo_src_def expert_slab_def)

lemma demo_side: "(0::nat) < 2" "(2::nat) \<le> 4" "\<forall>k. length (replicate k [0, 0::nat]) = k"
  "owns None demo_ts 0" "set [3, 1, 3] \<subseteq> {..<4::nat}" "card (set [3, 1, 3::nat]) \<le> 2"
  by (simp_all add: owns_def demo_ts_def card_insert_if)

lemma demo_new_ok:
  "ec_inv demo_src {} (projr demo_new)" "demo_new = Inr (projr demo_new)" "ec_ssd (projr demo_new) = False"
  "ec_n_expert (projr demo_new) = 4" "serves (projr demo_new) 0"
  "\<And>ids. set ids \<subseteq> {..<4} \<Longrightarrow> card (set ids) \<le> 2 \<Longrightarrow> room (projr demo_new) 0 ids"
proof -
  have mem: "length (replicate k [0, 0::nat]) = k" for k by simp
  from ExpertCache_fresh[OF demo_ok(1) demo_side(1,2) mem, of "\<lambda>_. 0" False None]
  obtain c where c: "demo_new = Inr c" "ec_inv demo_src {} c" "ec_ssd c = False" "ec_n_expert c = 4"
    "\<forall>il < 1. serves c il \<longleftrightarrow> owns None demo_ts il"
    "\<And>layer ids. serves c layer \<Longrightarrow> set ids \<subseteq> {..<4} \<Longrightarrow> card (set ids) \<le> 2 \<Longrightarrow> room c layer ids"
    unfolding demo_new_def by blast
  have sv: "serves c 0" using c(5) demo_side(4) by simp
  have p: "projr demo_new = c" unfolding c(1) by (rule sum.sel(2))
  show "ec_inv demo_src {} (projr demo_new)" "demo_new = Inr (projr demo_new)" "ec_ssd (projr demo_new) = False"
    "ec_n_expert (projr demo_new) = 4" "serves (projr demo_new) 0"
    "\<And>ids. set ids \<subseteq> {..<4} \<Longrightarrow> card (set ids) \<le> 2 \<Longrightarrow> room (projr demo_new) 0 ids"
    unfolding p by (fact c(2) c(1) c(3) c(4) sv c(6)[OF sv])+
qed

theorem ExpertCache_correct_witness:
  "\<exists>c. demo_new = Inr c \<and> ec_inv demo_src {} c \<and> (\<exists>outs c'. ensure demo_src 0 [3, 1, 3] c = (Inr outs, c'))"
proof -
  from ExpertCache_correct[OF demo_ok(1) demo_side(1-3) demo_ok(2), of "\<lambda>_. 0" None]
  obtain c where c: "demo_new = Inr c" "ec_inv demo_src {} c" "\<forall>il < 1. serves c il \<longleftrightarrow> owns None demo_ts il"
    "\<And>layer ids. serves c layer \<Longrightarrow> set ids \<subseteq> {..<4} \<Longrightarrow> card (set ids) \<le> 2 \<Longrightarrow>
      \<exists>outs c'. ensure demo_src layer ids c = (Inr outs, c') \<and>
        (\<forall>r. \<forall>i < length ids. holds_slab demo_src c' layer (ids ! i) r (outs r ! i))"
    unfolding demo_new_def by blast
  have "serves c 0" using c(3) demo_side(4) by simp
  from c(4)[OF this demo_side(5,6)] c(1,2) show ?thesis by blast
qed

theorem ensure_correct_witness:
  "\<exists>outs c'. ensure demo_src 0 [3, 1, 3] (projr demo_new) = (Inr outs, c') \<and> ec_inv demo_src {} c' \<and>
     (\<forall>r. length (outs r) = length [3, 1, 3::nat] \<and>
       (\<forall>i < length [3, 1, 3::nat]. holds_slab demo_src c' 0 ([3, 1, 3] ! i) r (outs r ! i)))"
  by (rule ensure_correct)
    (use demo_new_ok(1-5) demo_new_ok(6)[OF demo_side(5,6)] demo_ok(2) in \<open>simp_all add: room_def\<close>)

text \<open>The instance after a first call, with two experts resident and counted.\<close>

definition demo_used :: "nat ecache" where
  "demo_used = snd (ensure demo_src 0 [3, 1, 3] (projr demo_new))"

lemma demo_used_ok: "ec_inv demo_src {} demo_used"
proof -
  have "ensure_pre demo_src (projr demo_new) 0 [3, 1, 3]"
    using demo_new_ok(1-5) demo_new_ok(6)[OF demo_side(5,6)] demo_ok(2) by (simp add: ensure_pre_def)
  from ensure_ok[OF this] show ?thesis by (auto simp: demo_used_def)
qed

end
