(* ===== verification/Expert_Quota.thy ===== *)
theory Expert_Quota
  imports Expert_Build "HOL-Library.Product_Lexorder"
begin

section \<open>Quotas, rebalancing, profiles and statistics of the expert cache\<close>

text \<open>
  The rest of \<open>core/expert_cache.cpp\<close>: \<open>compute_quota\<close> splits the slots of the pools among the layers by
  access count, \<open>rebalance\<close> applies the split and prefetches towards it, \<open>load_prefetch\<close> and
  \<open>save_profile\<close> carry access counts across runs, and the statistics. A profile file is its sequence of
  numbers (the decimal text format is not modelled). The code sorts profile entries by count with an
  unstable sort; the model uses the stable one of the possible orders.
\<close>

subsection \<open>compute\_quota\<close>

definition add_count :: "nat \<times> nat \<Rightarrow> (nat \<times> nat) list \<Rightarrow> (nat \<times> nat) list" where
  "add_count kv cnt =
     AList.update (fst kv) ((case map_of cnt (fst kv) of None \<Rightarrow> 0 | Some n \<Rightarrow> n) + snd kv) cnt"

definition counts :: "'b ecache \<Rightarrow> (nat \<times> nat) list" where
  "counts c = fold (\<lambda>p. fold add_count (pl_count p)) (ec_pools c) []"

definition ents :: "'b ecache \<Rightarrow> (nat \<times> nat) list" where
  "ents c = rev (sort (map (\<lambda>(k, n). (n, k)) (counts c)))"

definition take_slot :: "'b ecache \<Rightarrow> nat \<Rightarrow> nat list \<Rightarrow> nat list option" where
  "take_slot c il rem =
     (if \<not> serves c il then None
      else if list_ex (\<lambda>r. rem ! pool_ix c r il = 0) roles then None
      else Some (fold (\<lambda>r rem. rem[pool_ix c r il := rem ! pool_ix c r il - 1]) roles rem))"

definition give :: "'b ecache \<Rightarrow> nat \<Rightarrow> nat list \<times> nat list \<Rightarrow> (nat list \<times> nat list) option" where
  "give c il st = (case take_slot c il (snd st) of None \<Rightarrow> None | Some rem \<Rightarrow> Some (bump (fst st) il, rem))"

fun floor_fill :: "'b ecache \<Rightarrow> nat \<Rightarrow> nat \<Rightarrow> nat list \<times> nat list \<Rightarrow> nat list \<times> nat list" where
  "floor_fill c il 0 st = st"
| "floor_fill c il (Suc n) st = (case give c il st of None \<Rightarrow> st | Some st' \<Rightarrow> floor_fill c il n st')"

fun greedy :: "'b ecache \<Rightarrow> nat list \<Rightarrow> (nat \<times> nat) list \<Rightarrow> nat list \<times> nat list \<Rightarrow> nat list \<times> nat list" where
  "greedy c seen [] st = st"
| "greedy c seen (e # es) st =
     (let il = snd e div ec_n_expert c; seen' = bump seen il in
      if seen ! il < ec_n_used c then greedy c seen' es st
      else if fst st ! il \<ge> ec_n_expert c then greedy c seen' es st
      else case give c il st of None \<Rightarrow> greedy c seen' es st | Some st' \<Rightarrow> greedy c seen' es st')"

definition quota_floor :: "'b ecache \<Rightarrow> nat list \<times> nat list" where
  "quota_floor c =
     fold (\<lambda>il. floor_fill c il (ec_n_used c)) [0..<ec_n_layer c]
       (replicate (ec_n_layer c) 0, map pl_n_slots (ec_pools c))"

definition compute_quota :: "'b ecache \<Rightarrow> nat list" where
  "compute_quota c =
     (if counts c = [] then replicate (ec_n_layer c) 0
      else fst (greedy c (replicate (ec_n_layer c) 0) (ents c) (quota_floor c)))"

subsection \<open>rebalance\<close>

definition clear_counts :: "'b ecache \<Rightarrow> 'b ecache" where
  "clear_counts c = c\<lparr>ec_pools := map (\<lambda>p. p\<lparr>pl_count := []\<rparr>) (ec_pools c)\<rparr>"

definition set_quota :: "nat list \<Rightarrow> nat \<times> role \<Rightarrow> 'b ecache \<Rightarrow> 'b ecache" where
  "set_quota quota w c =
     (if \<not> serves c (fst w) then c
      else upd_pool (pool_ix c (snd w) (fst w))
             (\<lambda>p. p\<lparr>pl_quota := (pl_quota p)[fst w := int (quota ! fst w)]\<rparr>) c)"

definition apply_quotas :: "nat list \<Rightarrow> 'b ecache \<Rightarrow> 'b ecache" where
  "apply_quotas quota c = (fold (set_quota quota) (wants [0..<ec_n_layer c]) c)\<lparr>ec_quota_on := True\<rparr>"

definition fill_role :: "'b wsource \<Rightarrow> nat \<Rightarrow> nat \<Rightarrow> role \<Rightarrow> ('b ecache, unit) prog" where
  "fill_role m il ex r c =
     (let pi = pool_ix c r il; key = il * ec_n_expert c + ex in
      case map_of (pl_key2slot (ec_pools c ! pi)) key of
        Some _ \<Rightarrow> (Inr (), c)
      | None \<Rightarrow> (case install m pi key il ex r c of (Inl x, c') \<Rightarrow> (Inl x, c') | (Inr _, c') \<Rightarrow> (Inr (), c')))"

fun refill ::
  "'b wsource \<Rightarrow> nat list \<Rightarrow> nat \<Rightarrow> nat list \<Rightarrow> nat \<Rightarrow> (nat \<times> nat) list \<Rightarrow> ('b ecache, nat) prog" where
  "refill m quota budget seen filled [] c = (Inr filled, c)"
| "refill m quota budget seen filled (e # es) c =
     (if filled \<ge> budget then (Inr filled, c)
      else let il = snd e div ec_n_expert c; ex = snd e mod ec_n_expert c in
        if \<not> serves c il then refill m quota budget seen filled es c
        else if seen ! il \<ge> quota ! il then refill m quota budget seen filled es c
        else if list_all (\<lambda>r. resident c r il ex) roles then refill m quota budget (bump seen il) filled es c
        else case for_each (fill_role m il ex) roles c of
               (Inl x, c') \<Rightarrow> (Inl x, c')
             | (Inr _, c') \<Rightarrow> refill m quota budget (bump seen il) (filled + 1) es c')"

definition rebalance :: "'b wsource \<Rightarrow> nat \<Rightarrow> ('b ecache, nat) prog" where
  "rebalance m fill_budget c =
     (let quota = compute_quota c in
      if quota = [] then (Inr 0, c)
      else refill m quota fill_budget (replicate (ec_n_layer c) 0) 0 (ents c) (apply_quotas quota c))"

subsection \<open>Profiles\<close>

record profile =
  pf_ver :: int
  pf_n_layer :: int
  pf_n_expert :: int
  pf_ents :: "(int \<times> int \<times> int \<times> nat) list"

definition role_no :: "role \<Rightarrow> int" where "role_no r = (case r of GATE \<Rightarrow> 0 | UP \<Rightarrow> 1 | DOWN \<Rightarrow> 2)"

definition role_of_no :: "int \<Rightarrow> role" where "role_of_no i = (if i = 0 then GATE else if i = 1 then UP else DOWN)"

definition save_profile :: "'b ecache \<Rightarrow> profile" where
  "save_profile c =
     \<lparr>pf_ver = 1, pf_n_layer = int (ec_n_layer c), pf_n_expert = int (ec_n_expert c),
      pf_ents = concat (map (\<lambda>p. map (\<lambda>(k, n). (role_no (pl_role p), int (k div ec_n_expert c),
                  int (k mod ec_n_expert c), n)) (pl_count p)) (ec_pools c))\<rparr>"

definition entry_ok :: "'b ecache \<Rightarrow> int \<times> int \<times> int \<times> nat \<Rightarrow> bool" where
  "entry_ok c en =
     (case en of (r, l, e, n) \<Rightarrow>
        r \<ge> 0 \<and> r < 3 \<and> l \<ge> 0 \<and> l < int (ec_n_layer c) \<and> e \<ge> 0 \<and> e < int (ec_n_expert c) \<and> serves c (nat l))"

definition prefetch_one :: "'b wsource \<Rightarrow> int \<times> int \<times> int \<times> nat \<Rightarrow> ('b ecache, nat) prog" where
  "prefetch_one m en c =
     (case en of (r, l, e, n) \<Rightarrow>
        let role = role_of_no r; layer = nat l; ex = nat e; pi = pool_ix c role layer;
            p = ec_pools c ! pi; key = layer * ec_n_expert c + ex in
        if length (pl_key2slot p) \<ge> pl_n_slots p then (Inr 0, c)
        else if map_of (pl_key2slot p) key \<noteq> None then (Inr 0, c)
        else case install m pi key layer ex role c of
               (Inl x, c') \<Rightarrow> (Inl x, c') | (Inr _, c') \<Rightarrow> (Inr 1, c'))"

definition load_prefetch :: "'b wsource \<Rightarrow> profile option \<Rightarrow> ('b ecache, nat) prog" where
  "load_prefetch m file c =
     (case file of
        None \<Rightarrow> (Inr 0, c)
      | Some pf \<Rightarrow>
          if pf_ver pf \<noteq> 1 \<or> pf_n_layer pf \<noteq> int (ec_n_layer c) \<or> pf_n_expert pf \<noteq> int (ec_n_expert c)
          then (Inr 0, c)
          else case for_each (prefetch_one m)
                 (rev (sort_key (\<lambda>(r, l, e, n). n) (rev (filter (entry_ok c) (pf_ents pf))))) c of
                 (Inl x, c') \<Rightarrow> (Inl x, c')
               | (Inr ns, c') \<Rightarrow> (Inr (sum_list ns), c'))"

subsection \<open>Statistics\<close>

record layer_stat =
  ls_hits :: nat
  ls_misses :: nat
  ls_evictions :: nat
  ls_want :: nat
  ls_want_miss :: nat
  ls_resident :: nat

definition note_want :: "nat \<Rightarrow> bool \<Rightarrow> 'b ecache \<Rightarrow> 'b ecache" where
  "note_want layer absent c =
     c\<lparr>ec_l_want := bump (ec_l_want c) layer,
       ec_l_wmiss := (if absent then bump (ec_l_wmiss c) layer else ec_l_wmiss c)\<rparr>"

definition reset_layer_stats :: "'b ecache \<Rightarrow> 'b ecache" where
  "reset_layer_stats c =
     c\<lparr>ec_l_hits := map (\<lambda>_. 0) (ec_l_hits c), ec_l_misses := map (\<lambda>_. 0) (ec_l_misses c),
       ec_l_evict := map (\<lambda>_. 0) (ec_l_evict c), ec_l_want := map (\<lambda>_. 0) (ec_l_want c),
       ec_l_wmiss := map (\<lambda>_. 0) (ec_l_wmiss c)\<rparr>"

definition layer_stats :: "'b ecache \<Rightarrow> layer_stat list" where
  "layer_stats c =
     map (\<lambda>il. if \<not> serves c il
               then \<lparr>ls_hits = 0, ls_misses = 0, ls_evictions = 0, ls_want = 0, ls_want_miss = 0, ls_resident = 0\<rparr>
               else \<lparr>ls_hits = ec_l_hits c ! il, ls_misses = ec_l_misses c ! il, ls_evictions = ec_l_evict c ! il,
                     ls_want = ec_l_want c ! il, ls_want_miss = ec_l_wmiss c ! il,
                     ls_resident = length (filter (\<lambda>e. list_all (\<lambda>r. resident c r il e) roles) [0..<ec_n_expert c])\<rparr>)
       [0..<ec_n_layer c]"

subsection \<open>The split fits the pools\<close>

text \<open>
  \<open>uses c pi il\<close>: layer \<open>il\<close> takes slots of pool \<open>pi\<close>. The state of the split keeps, for every pool, the
  slots given to its layers plus the remaining ones equal to the pool's size.
\<close>

definition uses :: "'b ecache \<Rightarrow> nat \<Rightarrow> nat \<Rightarrow> bool" where
  "uses c pi il \<longleftrightarrow> serves c il \<and> (\<exists>r. pool_ix c r il = pi)"

definition share :: "'b ecache \<Rightarrow> nat list \<Rightarrow> nat \<Rightarrow> nat" where
  "share c quota pi = (\<Sum>il | il < ec_n_layer c \<and> uses c pi il. quota ! il)"

definition split_ok :: "'b ecache \<Rightarrow> nat list \<times> nat list \<Rightarrow> bool" where
  "split_ok c st \<longleftrightarrow> length (fst st) = ec_n_layer c \<and> length (snd st) = length (ec_pools c) \<and>
     (\<forall>pi < length (ec_pools c). share c (fst st) pi + snd st ! pi = pl_n_slots (ec_pools c ! pi)) \<and>
     (\<forall>il < ec_n_layer c. \<not> serves c il \<longrightarrow> fst st ! il = 0)"

lemma bump_nth: "i < length xs \<Longrightarrow> bump xs i ! j = (if j = i then xs ! i + 1 else xs ! j)"
  by (simp add: bump_def)

lemma length_bump [simp]: "length (bump xs i) = length xs"
  by (simp add: bump_def)

lemma sum_bump:
  assumes "finite A" "i < length xs"
  shows "(\<Sum>j\<in>A. bump xs i ! j) = (\<Sum>j\<in>A. xs ! j) + (if i \<in> A then 1 else 0)"
proof -
  have "(\<Sum>j\<in>A. bump xs i ! j) = (\<Sum>j\<in>A. xs ! j + (if j = i then 1 else 0))"
    by (rule sum.cong) (auto simp: bump_nth[OF assms(2)])
  also have "\<dots> = (\<Sum>j\<in>A. xs ! j) + (\<Sum>j\<in>A. if j = i then 1 else 0)" by (rule sum.distrib)
  finally show ?thesis using assms(1) by simp
qed

lemma share_bump:
  "il < ec_n_layer c \<Longrightarrow> length quota = ec_n_layer c \<Longrightarrow>
   share c (bump quota il) pi = share c quota pi + (if uses c pi il then 1 else 0)"
  unfolding share_def by (subst sum_bump) auto

lemma take_slot_nth:
  assumes inv: "ec_inv m P c" and take: "take_slot c il rem = Some rem'" and len: "length rem = length (ec_pools c)"
    and pi: "pi < length (ec_pools c)"
  shows "rem' ! pi + (if uses c pi il then 1 else 0) = rem ! pi" "length rem' = length rem" "serves c il"
proof -
  from take have sv: "serves c il" and pos: "0 < rem ! pool_ix c r il" for r
    by (cases r; auto simp: take_slot_def roles_def split: if_splits)+
  have ne: "pool_ix c GATE il \<noteq> pool_ix c UP il" "pool_ix c GATE il \<noteq> pool_ix c DOWN il"
    "pool_ix c UP il \<noteq> pool_ix c DOWN il"
    using roles_apart[OF inv sv] by auto
  have ln: "pool_ix c r il < length rem" for r using ec_routing(2)[OF inv sv] len by simp
  have u: "uses c pi il \<longleftrightarrow> pi \<in> {pool_ix c GATE il, pool_ix c UP il, pool_ix c DOWN il}"
    using sv by (auto simp: uses_def) (metis role.exhaust)
  have rem': "rem' = ((rem[pool_ix c GATE il := rem ! pool_ix c GATE il - 1])
      [pool_ix c UP il := rem ! pool_ix c UP il - 1])[pool_ix c DOWN il := rem ! pool_ix c DOWN il - 1]"
    using take ne ln by (auto simp: take_slot_def roles_def split: if_splits)
  show "rem' ! pi + (if uses c pi il then 1 else 0) = rem ! pi"
    unfolding rem' u using pos[of GATE] pos[of UP] pos[of DOWN] ne ln
    by (auto simp: nth_list_update_if)
  show "length rem' = length rem" by (simp add: rem')
  show "serves c il" by (rule sv)
qed

lemma give_ok:
  assumes inv: "ec_inv m P c" and st: "split_ok c st" and g: "give c il st = Some st'"
  shows "split_ok c st'" "fst st' = bump (fst st) il" "serves c il"
proof -
  from g obtain rem' where take: "take_slot c il (snd st) = Some rem'" and st': "st' = (bump (fst st) il, rem')"
    by (auto simp: give_def split: option.splits)
  have len: "length (fst st) = ec_n_layer c" "length (snd st) = length (ec_pools c)" using st by (auto simp: split_ok_def)
  note tk = take_slot_nth[OF inv take len(2)]
  show sv: "serves c il" using take by (auto simp: take_slot_def split: if_splits)
  have il: "il < ec_n_layer c" using sv by (simp add: serves_def)
  have pools: "0 < length (ec_pools c)" using ec_routing(2)[OF inv sv, of GATE] by auto
  have "share c (bump (fst st) il) pi + rem' ! pi = pl_n_slots (ec_pools c ! pi)"
    if "pi < length (ec_pools c)" for pi
    using st tk(1)[OF that] that share_bump[OF il len(1), of pi] by (auto simp: split_ok_def split: if_splits)
  then show "split_ok c st'"
    using st il sv tk(2)[OF pools] len by (auto simp: split_ok_def st' bump_nth)
  show "fst st' = bump (fst st) il" by (simp add: st')
qed

lemma floor_fill_ok:
  assumes "ec_inv m P c" "split_ok c st"
  shows "split_ok c (floor_fill c il n st)"
  using assms(2) by (induction n arbitrary: st) (auto split: option.splits intro: give_ok(1)[OF assms(1)])

lemma greedy_inv:
  assumes "\<And>il st st'. I st \<Longrightarrow> give c il st = Some st' \<Longrightarrow> I st'" "I st"
  shows "I (greedy c seen es st)"
  using assms(2)
proof (induction es arbitrary: seen st)
  case (Cons e es)
  then show ?case
    using assms(1)[OF Cons.prems] by (cases "give c (snd e div ec_n_expert c) st") (simp_all add: Let_def)
qed simp

lemma greedy_ok:
  assumes "ec_inv m P c" "split_ok c st"
  shows "split_ok c (greedy c seen es st)"
  by (rule greedy_inv[where I = "split_ok c"]) (use assms give_ok(1)[OF assms(1)] in blast)+

lemma fold_inv: "(\<And>x s. x \<in> set xs \<Longrightarrow> I s \<Longrightarrow> I (f x s)) \<Longrightarrow> I s \<Longrightarrow> I (fold f xs s)"
  by (induction xs arbitrary: s) auto

lemma quota_floor_ok:
  assumes "ec_inv m P c"
  shows "split_ok c (quota_floor c)"
  unfolding quota_floor_def
proof (rule fold_inv)
  show "split_ok c (replicate (ec_n_layer c) 0, map pl_n_slots (ec_pools c))"
    by (simp add: split_ok_def share_def)
qed (rule floor_fill_ok[OF assms])

lemma compute_quota_split:
  assumes "ec_inv m P c"
  shows "length (compute_quota c) = ec_n_layer c"
    "pi < length (ec_pools c) \<Longrightarrow> share c (compute_quota c) pi \<le> pl_n_slots (ec_pools c ! pi)"
    "il < ec_n_layer c \<Longrightarrow> \<not> serves c il \<Longrightarrow> compute_quota c ! il = 0"
proof -
  have ok: "split_ok c (greedy c (replicate (ec_n_layer c) 0) (ents c) (quota_floor c))"
    by (rule greedy_ok[OF assms quota_floor_ok[OF assms]])
  have sh: "share c (fst st) pi \<le> pl_n_slots (ec_pools c ! pi)" if "split_ok c st" "pi < length (ec_pools c)" for st
    using that unfolding split_ok_def by (metis le_add1)
  have z: "share c (replicate (ec_n_layer c) 0) pi = 0" by (simp add: share_def)
  show "length (compute_quota c) = ec_n_layer c"
    "pi < length (ec_pools c) \<Longrightarrow> share c (compute_quota c) pi \<le> pl_n_slots (ec_pools c ! pi)"
    "il < ec_n_layer c \<Longrightarrow> \<not> serves c il \<Longrightarrow> compute_quota c ! il = 0"
    using ok sh[OF ok] z by (auto simp: compute_quota_def) (auto simp: split_ok_def)
qed

subsection \<open>The floor\<close>

lemma give_mono: "ec_inv m P c \<Longrightarrow> split_ok c st \<Longrightarrow> give c il st = Some st' \<Longrightarrow> j < ec_n_layer c \<Longrightarrow> fst st ! j \<le> fst st' ! j"
  using give_ok[of m P c st il st'] by (auto simp: bump_nth split_ok_def serves_def)

lemma greedy_mono:
  assumes "ec_inv m P c" "split_ok c st" "j < ec_n_layer c"
  shows "fst st ! j \<le> fst (greedy c seen es st) ! j"
proof -
  have "split_ok c (greedy c seen es st) \<and> fst st ! j \<le> fst (greedy c seen es st) ! j"
  proof (rule greedy_inv)
    fix il s s' assume s: "split_ok c s \<and> fst st ! j \<le> fst s ! j" "give c il s = Some s'"
    then show "split_ok c s' \<and> fst st ! j \<le> fst s' ! j"
      using give_ok(1)[OF assms(1) _ s(2)] give_mono[OF assms(1) _ s(2) assms(3)] le_trans by blast
  qed (use assms(2) in simp)
  then show ?thesis by simp
qed

text \<open>The pools are large enough for one token's selection in every layer they serve.\<close>

definition floor_fits :: "'b ecache \<Rightarrow> bool" where
  "floor_fits c \<longleftrightarrow> (\<forall>pi < length (ec_pools c).
     ec_n_used c * card {il. il < ec_n_layer c \<and> uses c pi il} \<le> pl_n_slots (ec_pools c ! pi))"

definition floor_inv :: "'b ecache \<Rightarrow> nat list \<times> nat list \<Rightarrow> bool" where
  "floor_inv c st \<longleftrightarrow> split_ok c st \<and> (\<forall>il < ec_n_layer c. fst st ! il \<le> ec_n_used c)"

lemma give_succeeds:
  assumes inv: "ec_inv m P c" and fl: "floor_fits c" and st: "floor_inv c st"
    and sv: "serves c il" and lt: "fst st ! il < ec_n_used c"
  shows "\<exists>st'. give c il st = Some st'"
proof -
  have "0 < snd st ! pool_ix c r il" for r
  proof -
    let ?pi = "pool_ix c r il" and ?A = "{j. j < ec_n_layer c \<and> uses c (pool_ix c r il) j}"
    have pi: "?pi < length (ec_pools c)" by (rule ec_routing(2)[OF inv sv])
    have "share c (fst st) ?pi < (\<Sum>j\<in>?A. ec_n_used c)"
      unfolding share_def
    proof (rule sum_strict_mono_ex1)
      show "\<exists>a\<in>?A. fst st ! a < ec_n_used c"
        using sv lt by (intro bexI[of _ il]) (auto simp: uses_def serves_def)
    qed (use st in \<open>auto simp: floor_inv_def\<close>)
    also have "\<dots> \<le> pl_n_slots (ec_pools c ! ?pi)"
      using fl pi by (simp add: floor_fits_def mult.commute)
    finally show ?thesis using st pi by (auto simp: floor_inv_def split_ok_def)
  qed
  then show ?thesis
    using sv by (simp add: give_def take_slot_def list_ex_iff split: option.splits)
qed

lemma floor_fill_full:
  assumes inv: "ec_inv m P c" and fl: "floor_fits c" and sv: "serves c il"
    and "floor_inv c st" "fst st ! il + n = ec_n_used c"
  shows "floor_inv c (floor_fill c il n st) \<and>
    (\<forall>j < ec_n_layer c. fst (floor_fill c il n st) ! j = (if j = il then ec_n_used c else fst st ! j))"
  using assms(4,5)
proof (induction n arbitrary: st)
  case 0
  then show ?case by simp
next
  case (Suc n)
  have st: "split_ok c st" using Suc.prems(1) by (simp add: floor_inv_def)
  obtain st' where g: "give c il st = Some st'"
    using give_succeeds[OF inv fl Suc.prems(1) sv] Suc.prems(2) by auto
  note gk = give_ok[OF inv st g]
  have il: "il < length (fst st)" using sv st by (simp add: serves_def split_ok_def)
  have "floor_inv c st'" using Suc.prems gk il by (auto simp: floor_inv_def bump_nth)
  moreover have "fst st' ! il + n = ec_n_used c" using gk(2) il Suc.prems(2) by (simp add: bump_nth)
  ultimately show ?case using Suc.IH[of st'] g gk(2) il by (auto simp: bump_nth)
qed

lemma floor_fill_unserved: "\<not> serves c il \<Longrightarrow> floor_fill c il n st = st"
  by (cases n) (simp_all add: give_def take_slot_def)

lemma quota_floor_full:
  assumes inv: "ec_inv m P c" and fl: "floor_fits c"
  shows "\<forall>j < ec_n_layer c. fst (quota_floor c) ! j = (if serves c j then ec_n_used c else 0)"
proof -
  let ?s0 = "(replicate (ec_n_layer c) 0, map pl_n_slots (ec_pools c))"
  have "floor_inv c (fold (\<lambda>il. floor_fill c il (ec_n_used c)) [0..<k] ?s0) \<and>
      (\<forall>j < ec_n_layer c. fst (fold (\<lambda>il. floor_fill c il (ec_n_used c)) [0..<k] ?s0) ! j =
        (if serves c j \<and> j < k then ec_n_used c else 0))" if "k \<le> ec_n_layer c" for k
    using that
  proof (induction k)
    case 0
    show ?case by (simp add: floor_inv_def split_ok_def share_def)
  next
    case (Suc k)
    let ?s = "fold (\<lambda>il. floor_fill c il (ec_n_used c)) [0..<k] ?s0"
    have IH: "floor_inv c ?s" "\<forall>j < ec_n_layer c. fst ?s ! j = (if serves c j \<and> j < k then ec_n_used c else 0)"
      using Suc by auto
    show ?case
    proof (cases "serves c k")
      case True
      have "fst ?s ! k + ec_n_used c = ec_n_used c" using IH(2) Suc.prems by simp
      from floor_fill_full[OF inv fl True IH(1) this] IH(2) True show ?thesis
        by (auto simp: less_Suc_eq)
    next
      case False
      with IH show ?thesis by (auto simp: floor_fill_unserved less_Suc_eq)
    qed
  qed
  from this[of "ec_n_layer c"] show ?thesis by (auto simp: quota_floor_def)
qed

lemma compute_quota_ge:
  assumes inv: "ec_inv m P c" and "floor_fits c" "counts c \<noteq> []" "serves c il"
  shows "ec_n_used c \<le> compute_quota c ! il"
proof -
  have il: "il < ec_n_layer c" using assms(4) by (simp add: serves_def)
  have "ec_n_used c = fst (quota_floor c) ! il" using quota_floor_full[OF assms(1,2)] assms(4) il by simp
  also have "\<dots> \<le> compute_quota c ! il"
    using greedy_mono[OF inv quota_floor_ok[OF inv] il] assms(3) by (simp add: compute_quota_def)
  finally show ?thesis .
qed

subsection \<open>Frames: what no operation changes\<close>

definition ec_frame :: "'b ecache \<Rightarrow> 'b ecache \<Rightarrow> bool" where
  "ec_frame c c' \<longleftrightarrow> ec_core c' = ec_core c \<and> map pool_shape (ec_pools c') = map pool_shape (ec_pools c)"

lemma ec_frame_refl: "ec_frame c c"
  and ec_frame_trans: "ec_frame a b \<Longrightarrow> ec_frame b c \<Longrightarrow> ec_frame a c"
  by (simp_all add: ec_frame_def)

lemma ec_frame_upd:
  assumes "pool_shape (f (ec_pools c ! pi)) = pool_shape (ec_pools c ! pi)"
  shows "ec_frame c (upd_pool pi f c)"
proof -
  have "map pool_shape ((ec_pools c)[pi := f (ec_pools c ! pi)]) = map pool_shape (ec_pools c)"
    using assms by (simp add: map_update) (metis list_update_id map_update)
  then show ?thesis by (simp add: ec_frame_def upd_pool_def ec_core_def)
qed

lemma ec_frame_stats: "ec_core c' = ec_core c1 \<Longrightarrow> ec_pools c' = ec_pools c1 \<Longrightarrow> ec_frame c c1 \<Longrightarrow> ec_frame c c'"
  by (simp add: ec_frame_def)

lemma ec_frame_drop: "ec_frame c (drop_slot pi s c)"
proof (cases "pl_slot2key (ec_pools c ! pi) ! s")
  case None
  then show ?thesis by (simp add: drop_slot_def ec_frame_refl)
next
  case (Some k)
  have "ec_frame c (upd_pool pi (pool_drop (ec_n_expert c) s k) c)"
    by (rule ec_frame_upd) (simp add: pool_shape_def pool_drop_def)
  then show ?thesis using Some by (simp add: drop_slot_def ec_frame_def ec_core_def)
qed

lemma ec_frame_claim: "ec_frame c (claim_slot pi layer s key c)"
proof -
  have "ec_frame c (upd_pool pi (pool_claim layer s key (ec_clock c + 1)) c)"
    by (rule ec_frame_upd) (simp add: pool_shape_def pool_claim_def)
  then show ?thesis by (simp add: claim_slot_def ec_frame_def ec_core_def Let_def)
qed

lemma ec_frame_fetch: "ec_frame c (snd (fetch_slab m r layer e pi s c))"
proof -
  have "ec_frame c (upd_pool pi (pool_write s b) c)" for b
    by (rule ec_frame_upd) (simp add: pool_shape_def pool_write_def)
  then show ?thesis
    by (auto simp: fetch_slab_def upload_def ec_frame_def ec_core_def split: option.splits)
qed

lemma ec_frame_install: "ec_frame c (snd (install m pi key layer e r c))"
proof -
  have "ec_frame c (snd (fetch_slab m r layer e pi v (drop_slot pi v c)))" for v
    by (rule ec_frame_trans[OF ec_frame_drop ec_frame_fetch])
  moreover from this have "ec_frame c (claim_slot pi layer v key (snd (fetch_slab m r layer e pi v (drop_slot pi v c))))" for v
    by (rule ec_frame_trans[OF _ ec_frame_claim])
  ultimately show ?thesis
    unfolding install_def
    by (auto simp: ec_frame_refl split: option.splits prod.splits sum.splits) (metis snd_conv)+
qed

subsection \<open>rebalance keeps the cache consistent\<close>

definition quota_only :: "'b ecache \<Rightarrow> 'b ecache \<Rightarrow> bool" where
  "quota_only c c' \<longleftrightarrow> ec_core c' = ec_core c \<and> ec_clock c' = ec_clock c \<and> length (ec_pools c') = length (ec_pools c) \<and>
     (\<forall>pi < length (ec_pools c). (ec_pools c' ! pi)\<lparr>pl_quota := []\<rparr> = (ec_pools c ! pi)\<lparr>pl_quota := []\<rparr> \<and>
        length (pl_quota (ec_pools c' ! pi)) = length (pl_quota (ec_pools c ! pi)))"

lemma set_quota_only: "quota_only c (set_quota quota w c)"
proof -
  have "quota_only c (upd_pool pi (\<lambda>p. p\<lparr>pl_quota := (pl_quota p)[il := x]\<rparr>) c)" for pi il x
  proof -
    have "((ec_pools c)[pi := (ec_pools c ! pi)\<lparr>pl_quota := y\<rparr>] ! pj)\<lparr>pl_quota := []\<rparr> = (ec_pools c ! pj)\<lparr>pl_quota := []\<rparr> \<and>
        (length y = length (pl_quota (ec_pools c ! pi)) \<longrightarrow>
         length (pl_quota ((ec_pools c)[pi := (ec_pools c ! pi)\<lparr>pl_quota := y\<rparr>] ! pj)) = length (pl_quota (ec_pools c ! pj)))"
      if "pj < length (ec_pools c)" for pj y
      using that by (cases "pj = pi") auto
    then show ?thesis by (simp add: quota_only_def upd_pool_def ec_core_def)
  qed
  then show ?thesis by (simp add: set_quota_def quota_only_def)
qed

lemma quota_only_trans:
  assumes "quota_only a b" "quota_only b c"
  shows "quota_only a c"
  using assms unfolding quota_only_def by metis

definition quota_set :: "nat list \<Rightarrow> nat \<times> role \<Rightarrow> 'b ecache \<Rightarrow> bool" where
  "quota_set quota w c \<longleftrightarrow> (serves c (fst w) \<longrightarrow> pl_quota (pool_at c (snd w) (fst w)) ! fst w = int (quota ! fst w))"

lemma quota_set_step:
  assumes inv: "ec_inv m P c0" and q: "quota_only c0 c" and w: "quota_set quota w c \<or> w = w'"
  shows "quota_set quota w (set_quota quota w' c)"
proof -
  have core: "ec_core (set_quota quota w' c) = ec_core c" using set_quota_only[of c quota w'] by (simp add: quota_only_def)
  note cs = ec_core_simps[OF core] and cs0 = ec_core_simps[OF conjunct1[OF q[unfolded quota_only_def]]]
  show ?thesis
  proof (cases "serves c (fst w)")
    case False
    then show ?thesis by (simp add: quota_set_def cs)
  next
    case True
    then have sv0: "serves c0 (fst w)" by (simp add: cs0)
    let ?pi = "pool_ix c (snd w) (fst w)"
    have pi0: "?pi < length (ec_pools c0)" using ec_routing(2)[OF inv sv0, of "snd w"] by (simp add: cs0)
    then have pi: "?pi < length (ec_pools c)" using q by (simp add: quota_only_def)
    have "length (pl_quota (ec_pools c ! ?pi)) = ec_n_layer c0"
      using q pi0 pool_wfD(6)[OF ec_invD(1)[OF inv pi0]] by (simp add: quota_only_def)
    then have len: "fst w < length (pl_quota (ec_pools c ! ?pi))" using sv0 by (simp add: serves_def)
    show ?thesis
    proof (cases "serves c (fst w') \<and> pool_ix c (snd w') (fst w') = ?pi")
      case False
      then have "pool_at (set_quota quota w' c) (snd w) (fst w) = pool_at c (snd w) (fst w)"
        using cs unfolding pool_at_def by (auto simp: set_quota_def upd_pool_def)
      with w False True show ?thesis by (auto simp: quota_set_def cs)
    next
      case c: True
      then have at: "pool_at (set_quota quota w' c) (snd w) (fst w) =
          (ec_pools c ! ?pi)\<lparr>pl_quota := (pl_quota (ec_pools c ! ?pi))[fst w' := int (quota ! fst w')]\<rparr>"
        using cs pi unfolding pool_at_def by (auto simp: set_quota_def upd_pool_def)
      have "(pl_quota (ec_pools c ! ?pi))[fst w' := int (quota ! fst w')] ! fst w = int (quota ! fst w)"
        using w True len by (cases "fst w = fst w'") (auto simp: quota_set_def pool_at_def)
      then show ?thesis unfolding quota_set_def at by simp
    qed
  qed
qed

lemma set_quota_fold:
  assumes inv: "ec_inv m P c0"
  shows "quota_only c0 (fold (set_quota quota) ws c0) \<and> (\<forall>w\<in>set ws. quota_set quota w (fold (set_quota quota) ws c0))"
proof (induction ws rule: rev_induct)
  case Nil
  then show ?case by (simp add: quota_only_def)
next
  case (snoc w ws)
  let ?c = "fold (set_quota quota) ws c0"
  have "quota_only c0 (set_quota quota w ?c)"
    using quota_only_trans[OF _ set_quota_only] snoc by blast
  moreover have "quota_set quota w' (set_quota quota w ?c)" if "w' \<in> set (ws @ [w])" for w'
    by (rule quota_set_step[OF inv]) (use snoc that in auto)
  ultimately show ?case by simp
qed

lemma quota_only_inv:
  assumes inv: "ec_inv m P c" and q: "quota_only c c'"
    and uni: "\<And>layer r. serves c' layer \<Longrightarrow> quota_uniform (pool_at c' r layer) layer"
  shows "ec_inv m P c'"
proof -
  note cs = ec_core_simps[OF conjunct1[OF q[unfolded quota_only_def]]]
  have len: "length (ec_pools c') = length (ec_pools c)" and clk: "ec_clock c' = ec_clock c" using q by (simp_all add: quota_only_def)
  have same: "pl_role (ec_pools c' ! pi) = pl_role (ec_pools c ! pi)" "pl_nb2 (ec_pools c' ! pi) = pl_nb2 (ec_pools c ! pi)"
    "pl_n_slots (ec_pools c' ! pi) = pl_n_slots (ec_pools c ! pi)" "pl_clk (ec_pools c' ! pi) = pl_clk (ec_pools c ! pi)"
    "pl_slot2key (ec_pools c' ! pi) = pl_slot2key (ec_pools c ! pi)" "pl_t (ec_pools c' ! pi) = pl_t (ec_pools c ! pi)"
    "pl_key2slot (ec_pools c' ! pi) = pl_key2slot (ec_pools c ! pi)" "pl_slot_of (ec_pools c' ! pi) = pl_slot_of (ec_pools c ! pi)"
    "pl_occ (ec_pools c' ! pi) = pl_occ (ec_pools c ! pi)"
    "length (pl_quota (ec_pools c' ! pi)) = length (pl_quota (ec_pools c ! pi))" if "pi < length (ec_pools c)" for pi
    using q that unfolding quota_only_def by (cases "ec_pools c ! pi"; cases "ec_pools c' ! pi"; force)+
  have st: "ec_static m c'"
    unfolding ec_static_def
  proof (intro conjI allI impI)
    show "0 < ec_n_expert c'" "length (ec_layer_pool c' r) = ec_n_layer c'" for r
      using inv by (auto simp: ec_inv_def ec_static_def cs)
    fix layer r assume sv': "serves c' layer"
    then have sv: "serves c layer" by (simp add: cs)
    from inv sv obtain pi where "ec_layer_pool c r ! layer = Some pi" "pi < length (ec_pools c)"
      "pl_role (ec_pools c ! pi) = r" "pl_nb2 (ec_pools c ! pi) = ws_nb2 m r layer" "0 < ws_nb2 m r layer"
      unfolding ec_inv_def ec_static_def by blast
    with uni[OF sv', of r] same show "\<exists>pi. ec_layer_pool c' r ! layer = Some pi \<and> pi < length (ec_pools c') \<and>
        pl_role (ec_pools c' ! pi) = r \<and> pl_nb2 (ec_pools c' ! pi) = ws_nb2 m r layer \<and> 0 < ws_nb2 m r layer \<and>
        quota_uniform (ec_pools c' ! pi) layer"
      by (intro exI[of _ pi]) (simp add: cs len pool_at_def pool_ix_def)
  qed
  have "pool_wf (ec_n_layer c) (ec_n_expert c) (ec_pools c' ! pi)" if "pi < length (ec_pools c)" for pi
    by (rule pool_wf_same_maps[OF ec_invD(1)[OF inv that]]) (simp_all add: same[OF that])
  with inv st same show ?thesis
    unfolding ec_inv_def ec_dyn_def data_ok_def slot_ok_def cs len clk by simp
qed

lemma apply_quotas_inv:
  assumes inv: "ec_inv m P c"
  shows "ec_inv m P (apply_quotas quota c)"
    and "serves (apply_quotas quota c) layer = serves c layer"
    and "serves c layer \<Longrightarrow> pl_quota (pool_at (apply_quotas quota c) r layer) ! layer = int (quota ! layer)"
    and "ec_n_layer (apply_quotas quota c) = ec_n_layer c" "ec_n_expert (apply_quotas quota c) = ec_n_expert c"
      "ec_n_used (apply_quotas quota c) = ec_n_used c" "ec_ssd (apply_quotas quota c) = ec_ssd c"
      "ec_quota_on (apply_quotas quota c)"
    and "serves c layer \<Longrightarrow> pl_n_slots (pool_at (apply_quotas quota c) r layer) = pl_n_slots (pool_at c r layer)"
proof -
  let ?c1 = "fold (set_quota quota) (wants [0..<ec_n_layer c]) c"
  from set_quota_fold[OF inv, of quota "wants [0..<ec_n_layer c]"]
  have q: "quota_only c ?c1" and qs: "\<And>w. w \<in> set (wants [0..<ec_n_layer c]) \<Longrightarrow> quota_set quota w ?c1" by auto
  note cs = ec_core_simps[OF conjunct1[OF q[unfolded quota_only_def]]]
  have set1: "pl_quota (pool_at ?c1 r layer) ! layer = int (quota ! layer)" if "serves c layer" for r layer
  proof -
    have "(layer, r) \<in> set (wants [0..<ec_n_layer c])"
      using that by (cases r) (auto simp: wants_def roles_def serves_def)
    from qs[OF this] that show ?thesis by (simp add: quota_set_def cs)
  qed
  have inv1: "ec_inv m P ?c1"
    by (rule quota_only_inv[OF inv q]) (simp add: quota_uniform_def set1 cs)
  have flag: "serves (?c1\<lparr>ec_quota_on := True\<rparr>) = serves ?c1" "pool_at (?c1\<lparr>ec_quota_on := True\<rparr>) = pool_at ?c1"
    by (simp_all add: fun_eq_iff serves_def pool_at_def pool_ix_def)
  show "ec_inv m P (apply_quotas quota c)"
    using inv1 unfolding apply_quotas_def ec_inv_def ec_static_def ec_dyn_def data_ok_def by (simp add: flag)
  show "serves (apply_quotas quota c) layer = serves c layer" "ec_n_layer (apply_quotas quota c) = ec_n_layer c"
    "ec_n_expert (apply_quotas quota c) = ec_n_expert c" "ec_n_used (apply_quotas quota c) = ec_n_used c"
    "ec_ssd (apply_quotas quota c) = ec_ssd c" "ec_quota_on (apply_quotas quota c)"
    by (simp_all add: apply_quotas_def flag cs)
  show "serves c layer \<Longrightarrow> pl_quota (pool_at (apply_quotas quota c) r layer) ! layer = int (quota ! layer)"
    by (simp add: apply_quotas_def flag set1)
  show "pl_n_slots (pool_at (apply_quotas quota c) r layer) = pl_n_slots (pool_at c r layer)" if sv: "serves c layer"
  proof -
    have "(ec_pools ?c1 ! pool_ix c r layer)\<lparr>pl_quota := []\<rparr> = (ec_pools c ! pool_ix c r layer)\<lparr>pl_quota := []\<rparr>"
      using q ec_routing(2)[OF inv sv, of r] by (simp add: quota_only_def)
    then have "pl_n_slots (ec_pools ?c1 ! pool_ix c r layer) = pl_n_slots (ec_pools c ! pool_ix c r layer)"
      by (cases "ec_pools ?c1 ! pool_ix c r layer"; cases "ec_pools c ! pool_ix c r layer"; simp)
    then show ?thesis unfolding apply_quotas_def flag(2) by (simp only: pool_at_def cs)
  qed
qed

lemma fill_role_inv:
  assumes inv: "ec_inv m P c" and sv: "serves c il" and e: "ex < ec_n_expert c"
  shows "ec_inv m P (snd (fill_role m il ex r c)) \<and> ec_frame c (snd (fill_role m il ex r c))"
proof (cases "map_of (pl_key2slot (ec_pools c ! pool_ix c r il)) (il * ec_n_expert c + ex)")
  case None
  then have fits: "fits m c (pool_ix c r il) il ex r"
    using ec_routing[OF inv sv] e by (simp add: fits_def)
  have "snd (fill_role m il ex r c) = snd (install m (pool_ix c r il) (il * ec_n_expert c + ex) il ex r c)"
    using None by (simp add: fill_role_def Let_def split: prod.splits sum.splits)
  then show ?thesis using install_inv(1)[OF inv fits refl] ec_frame_install by metis
next
  case (Some s)
  then show ?thesis using inv by (simp add: fill_role_def ec_frame_refl)
qed

lemma fill_roles_inv:
  assumes "ec_inv m P c" "serves c il" "ex < ec_n_expert c"
  shows "ec_inv m P (snd (for_each (fill_role m il ex) rs c)) \<and> ec_frame c (snd (for_each (fill_role m il ex) rs c))"
proof (rule for_each_inv)
  fix r s assume "ec_inv m P s \<and> ec_frame c s"
  then have s: "ec_inv m P s" "ec_frame c s" "serves s il" "ex < ec_n_expert s"
    using assms(2,3) ec_core_simps[of s c] by (auto simp: ec_frame_def)
  then show "ec_inv m P (snd (fill_role m il ex r s)) \<and> ec_frame c (snd (fill_role m il ex r s))"
    using fill_role_inv[OF s(1,3,4)] ec_frame_trans by blast
qed (use assms ec_frame_refl in blast)

lemma refill_inv:
  assumes "ec_inv m P c"
  shows "ec_inv m P (snd (refill m quota budget seen filled es c)) \<and>
    ec_frame c (snd (refill m quota budget seen filled es c))"
  using assms
proof (induction es arbitrary: seen filled c)
  case Nil
  then show ?case by (simp add: ec_frame_refl)
next
  case (Cons e es)
  let ?il = "snd e div ec_n_expert c" and ?ex = "snd e mod ec_n_expert c"
  have nE: "?ex < ec_n_expert c" using Cons.prems by (simp add: ec_inv_def ec_static_def)
  show ?case
  proof (cases "budget \<le> filled")
    case True
    then show ?thesis using Cons.prems by (simp add: ec_frame_refl)
  next
    case open': False
    show ?thesis
    proof (cases "serves c ?il \<and> seen ! ?il < quota ! ?il")
      case False
      then have "refill m quota budget seen filled (e # es) c = refill m quota budget seen filled es c"
        using open' by (auto simp: Let_def not_less)
      then show ?thesis using Cons by simp
    next
      case True
      show ?thesis
      proof (cases "list_all (\<lambda>r. resident c r ?il ?ex) roles")
        case all: True
        then have "refill m quota budget seen filled (e # es) c = refill m quota budget (bump seen ?il) filled es c"
          using open' True by (simp add: Let_def)
        then show ?thesis using Cons by simp
      next
        case some: False
        obtain o1 c1 where c1: "for_each (fill_role m ?il ?ex) roles c = (o1, c1)"
          by (cases "for_each (fill_role m ?il ?ex) roles c")
        have i1: "ec_inv m P c1" "ec_frame c c1"
          using fill_roles_inv[OF Cons.prems conjunct1[OF True] nE, of roles] c1 by auto
        have "refill m quota budget seen filled (e # es) c =
            (case o1 of Inl x \<Rightarrow> (Inl x, c1) | Inr _ \<Rightarrow> refill m quota budget (bump seen ?il) (filled + 1) es c1)"
          using open' True some c1 by (simp add: Let_def split: sum.splits)
        then show ?thesis
          using i1 Cons.IH[OF i1(1)] ec_frame_trans[OF i1(2)] by (simp split: sum.splits)
      qed
    qed
  qed
qed

text \<open>No layer gets more than its experts, or than one token's selection.\<close>

lemma floor_fill_bound:
  assumes "ec_inv m P c" "split_ok c st" "j < ec_n_layer c"
  shows "fst (floor_fill c il n st) ! j \<le> (if j = il then fst st ! j + n else fst st ! j)"
  using assms(2)
proof (induction n arbitrary: st)
  case (Suc n)
  show ?case
  proof (cases "give c il st")
    case (Some st')
    note g = give_ok[OF assms(1) Suc.prems Some]
    have "il < length (fst st)" using g(3) Suc.prems by (simp add: serves_def split_ok_def)
    then have "fst st' ! j = (if j = il then fst st ! il + 1 else fst st ! j)" using g(2) by (simp add: bump_nth)
    then show ?thesis using Suc.IH[OF g(1)] Some by (auto split: if_splits)
  qed auto
qed simp

lemma quota_floor_bound:
  assumes inv: "ec_inv m P c" and j: "j < ec_n_layer c"
  shows "fst (quota_floor c) ! j \<le> ec_n_used c"
proof -
  let ?s0 = "(replicate (ec_n_layer c) 0, map pl_n_slots (ec_pools c))"
  have "split_ok c (fold (\<lambda>il. floor_fill c il (ec_n_used c)) [0..<k] ?s0) \<and>
      fst (fold (\<lambda>il. floor_fill c il (ec_n_used c)) [0..<k] ?s0) ! j \<le> (if j < k then ec_n_used c else 0)" for k
  proof (induction k)
    case 0
    show ?case using j by (simp add: split_ok_def share_def)
  next
    case (Suc k)
    let ?s = "fold (\<lambda>il. floor_fill c il (ec_n_used c)) [0..<k] ?s0"
    have "split_ok c ?s" using Suc by blast
    from floor_fill_bound[OF inv this j, of k "ec_n_used c"] floor_fill_ok[OF inv this, of k "ec_n_used c"] Suc
    show ?case by (auto simp: less_Suc_eq split: if_splits)
  qed
  from this[of "ec_n_layer c"] j show ?thesis by (simp add: quota_floor_def)
qed

lemma greedy_bound:
  assumes "ec_inv m P c" "split_ok c st" "j < ec_n_layer c" "fst st ! j \<le> B" "ec_n_expert c \<le> B"
  shows "fst (greedy c seen es st) ! j \<le> B"
  using assms(2,4)
proof (induction es arbitrary: seen st)
  case (Cons e es)
  let ?il = "snd e div ec_n_expert c"
  show ?case
  proof (cases "give c ?il st")
    case (Some st')
    note g = give_ok[OF assms(1) Cons.prems(1) Some]
    have il: "?il < length (fst st)" using g(3) Cons.prems by (simp add: serves_def split_ok_def)
    have "fst st' ! j \<le> B" if "fst st ! ?il < ec_n_expert c"
      using g(2) il that Cons.prems(2) assms(5) by (auto simp: bump_nth)
    then show ?thesis using Cons.IH[OF Cons.prems] Cons.IH[OF g(1)] Some by (simp add: Let_def not_le)
  qed (use Cons in \<open>simp add: Let_def\<close>)
qed simp

lemma compute_quota_bound:
  assumes "ec_inv m P c" "il < ec_n_layer c"
  shows "compute_quota c ! il \<le> max (ec_n_used c) (ec_n_expert c)"
proof -
  have "fst (quota_floor c) ! il \<le> max (ec_n_used c) (ec_n_expert c)"
    using quota_floor_bound[OF assms] by simp
  from greedy_bound[OF assms(1) quota_floor_ok[OF assms(1)] assms(2) this] show ?thesis
    using assms(2) by (simp add: compute_quota_def)
qed

text \<open>
  C21. \<open>compute_quota\<close> is a split every pool can honour: it names one quota per layer, the quotas of the
  layers that use a pool add up to at most the pool's slots, layers of another device get none, and no
  layer gets more slots than it has experts (or than \<open>n_used\<close>, should that be larger).
  Once experts have been counted and the pools have \<open>n_used\<close> slots per layer they serve, every served
  layer gets at least \<open>n_used\<close>, whatever the access counts are.
\<close>

theorem compute_quota_correct:
  assumes "ec_inv m P c"
  shows "length (compute_quota c) = ec_n_layer c \<and>
    (\<forall>pi < length (ec_pools c). share c (compute_quota c) pi \<le> pl_n_slots (ec_pools c ! pi)) \<and>
    (\<forall>il < ec_n_layer c. \<not> serves c il \<longrightarrow> compute_quota c ! il = 0) \<and>
    (\<forall>il < ec_n_layer c. compute_quota c ! il \<le> max (ec_n_used c) (ec_n_expert c)) \<and>
    (floor_fits c \<longrightarrow> counts c \<noteq> [] \<longrightarrow> (\<forall>il. serves c il \<longrightarrow> ec_n_used c \<le> compute_quota c ! il))"
  using compute_quota_split[OF assms] compute_quota_ge[OF assms] compute_quota_bound[OF assms] by blast

lemma room_frame:
  assumes inv: "ec_inv m P c" and fr: "ec_frame c c'" and rm: "room c layer ids"
  shows "room c' layer ids"
proof -
  note cs = ec_core_simps[OF conjunct1[OF fr[unfolded ec_frame_def]]]
  have sv: "serves c layer" using rm by (simp add: room_def)
  have "pool_shape (pool_at c' r layer) = pool_shape (pool_at c r layer)" for r
  proof -
    have "length (ec_pools c') = length (ec_pools c)" using fr unfolding ec_frame_def by (metis length_map)
    then show ?thesis
      using fr ec_routing(2)[OF inv sv, of r] unfolding ec_frame_def pool_at_def cs by (metis nth_map)
  qed
  then have "safe_slots qo (pool_at c' r layer) layer = safe_slots qo (pool_at c r layer) layer" for qo r
    by (simp add: safe_slots_def pool_shape_def)
  then show ?thesis using rm by (simp add: room_def cs)
qed

lemma rebalance_frame:
  assumes "ec_inv m P c"
  shows "ec_inv m P (snd (rebalance m budget c))"
    "compute_quota c \<noteq> [] \<Longrightarrow> ec_frame (apply_quotas (compute_quota c) c) (snd (rebalance m budget c))"
  using refill_inv[OF apply_quotas_inv(1)[OF assms]] assms by (auto simp: rebalance_def Let_def)

lemma room_apply_quotas:
  assumes inv: "ec_inv m P c" and fl: "floor_fits c" "counts c \<noteq> []" and sv: "serves c layer"
    and ids: "set ids \<subseteq> {..<ec_n_expert c}" "card (set ids) \<le> ec_n_used c"
  shows "room (apply_quotas (compute_quota c) c) layer ids"
proof -
  note aq = apply_quotas_inv[OF inv, where quota = "compute_quota c"]
  have "ec_n_used c \<le> pl_n_slots (pool_at c r layer)" for r
  proof -
    let ?pi = "pool_ix c r layer"
    have "layer \<in> {il. il < ec_n_layer c \<and> uses c ?pi il}" using sv by (auto simp: uses_def serves_def)
    then have "card {layer} \<le> card {il. il < ec_n_layer c \<and> uses c ?pi il}" by (intro card_mono) auto
    then have "ec_n_used c * 1 \<le> ec_n_used c * card {il. il < ec_n_layer c \<and> uses c ?pi il}"
      by (intro mult_le_mono2) simp
    also have "\<dots> \<le> pl_n_slots (ec_pools c ! ?pi)"
      using fl(1) ec_routing(2)[OF inv sv, of r] by (simp add: floor_fits_def)
    finally show ?thesis by (simp add: pool_at_def)
  qed
  then show ?thesis
    using compute_quota_ge[OF inv fl sv] sv ids aq(3,9) 
    by (auto simp: room_def aq(2,5,8) safe_slots_def intro: le_trans)
qed

lemma rebalance_quotas:
  assumes inv: "ec_inv m P c" and sv: "serves c layer"
  shows "ec_quota_on (snd (rebalance m budget c))" "serves (snd (rebalance m budget c)) layer"
    "pl_quota (pool_at (snd (rebalance m budget c)) r layer) ! layer = int (compute_quota c ! layer)"
proof -
  let ?c = "snd (rebalance m budget c)" and ?a = "apply_quotas (compute_quota c) c"
  have ne: "compute_quota c \<noteq> []" using compute_quota_split(1)[OF inv] sv by (auto simp: serves_def)
  note fr = rebalance_frame(2)[OF inv ne, of budget]
  note cs = ec_core_simps[OF conjunct1[OF fr[unfolded ec_frame_def]]]
  note aq = apply_quotas_inv[OF inv, where quota = "compute_quota c"]
  show "ec_quota_on ?c" "serves ?c layer" using aq(2,8) sv by (simp_all add: cs)
  have l: "pool_ix ?a r layer < length (ec_pools ?a)" by (rule ec_routing(2)[OF aq(1)]) (simp add: aq(2) sv)
  have "length (ec_pools ?c) = length (ec_pools ?a)" using fr unfolding ec_frame_def by (metis length_map)
  then have "pool_shape (pool_at ?c r layer) = pool_shape (pool_at ?a r layer)"
    using fr l unfolding ec_frame_def pool_at_def cs by (metis nth_map)
  then show "pl_quota (pool_at ?c r layer) ! layer = int (compute_quota c ! layer)"
    using aq(3)[OF sv, of r] by (simp add: pool_shape_def)
qed

text \<open>
  C22. \<open>rebalance\<close> puts the computed quotas in force and keeps the cache consistent, whether its
  prefetches succeed or throw: afterwards quotas are on, and every pool of every served layer carries
  that layer's quota. With them, every selection of at most \<open>n_used\<close> experts is still delivered, provided
  experts have been counted and the pools can hold
  \<open>n_used\<close> experts of each of their layers: then no layer's quota is below what a token needs.
\<close>

theorem rebalance_correct:
  assumes "ec_inv m {} c"
  shows "ec_inv m {} (snd (rebalance m budget c)) \<and>
    (\<forall>layer r. serves c layer \<longrightarrow> ec_quota_on (snd (rebalance m budget c)) \<and> serves (snd (rebalance m budget c)) layer \<and>
      pl_quota (pool_at (snd (rebalance m budget c)) r layer) ! layer = int (compute_quota c ! layer)) \<and>
    (floor_fits c \<longrightarrow> counts c \<noteq> [] \<longrightarrow>
      (\<forall>layer ids. serves c layer \<longrightarrow> set ids \<subseteq> {..<ec_n_expert c} \<longrightarrow> card (set ids) \<le> ec_n_used c \<longrightarrow>
        (\<forall>r. \<forall>e\<in>set ids. expert_slab m (ec_ssd c) r layer e \<noteq> None) \<longrightarrow>
        (\<exists>outs c'. ensure m layer ids (snd (rebalance m budget c)) = (Inr outs, c') \<and>
          (\<forall>r. \<forall>i < length ids. holds_slab m c' layer (ids ! i) r (outs r ! i)))))"
proof (intro conjI impI allI)
  let ?c = "snd (rebalance m budget c)"
  show inv': "ec_inv m {} ?c" by (rule rebalance_frame(1)[OF assms])
  show "ec_quota_on ?c" "serves ?c layer" "pl_quota (pool_at ?c r layer) ! layer = int (compute_quota c ! layer)" if "serves c layer" for layer r
    by (rule rebalance_quotas[OF assms that])+
  fix layer ids
  assume a: "floor_fits c" "counts c \<noteq> []" "serves c layer" "set ids \<subseteq> {..<ec_n_expert c}"
    "card (set ids) \<le> ec_n_used c" "\<forall>r. \<forall>e\<in>set ids. expert_slab m (ec_ssd c) r layer e \<noteq> None"
  have "compute_quota c \<noteq> []" using compute_quota_split(1)[OF assms] a(3) by (auto simp: serves_def)
  note fr = rebalance_frame(2)[OF assms this, of budget]
  have "room ?c layer ids"
    by (rule room_frame[OF apply_quotas_inv(1)[OF assms] fr room_apply_quotas[OF assms a(1-5)]])
  moreover have "ec_ssd ?c = ec_ssd c"
    using ec_core_simps(4)[of ?c "apply_quotas (compute_quota c) c"] fr apply_quotas_inv(7)[OF assms]
    by (simp add: ec_frame_def)
  ultimately show "\<exists>outs c'. ensure m layer ids ?c = (Inr outs, c') \<and>
      (\<forall>r. \<forall>i < length ids. holds_slab m c' layer (ids ! i) r (outs r ! i))"
    using ensure_ok[of m ?c layer ids] inv' a(6) by (auto simp: ensure_pre_def)
qed

subsection \<open>Prefetching fills free slots only\<close>

lemma pick_victim_free:
  assumes "s < pl_n_slots p" "pl_slot2key p ! s = None"
  shows "\<exists>v. pick_victim qo nE p layer = Some v \<and> v < pl_n_slots p \<and> pl_slot2key p ! v = None"
proof (cases "victim_scan (eligible qo nE p layer) p [0..<pl_n_slots p] None")
  case (Inl v)
  then show ?thesis using victim_scan_Inl[OF Inl] by (auto simp: pick_victim_def)
next
  case (Inr w)
  then show ?thesis using victim_scan_Inr_full[OF Inr, of s] assms by auto
qed

lemma ex_free_slot:
  assumes wf: "pool_wf nL nE p" and lt: "length (pl_key2slot p) < pl_n_slots p"
  shows "\<exists>s < pl_n_slots p. pl_slot2key p ! s = None"
proof (rule ccontr)
  assume "\<not> ?thesis"
  then have "{..<pl_n_slots p} \<subseteq> snd ` set (pl_key2slot p)"
  proof (intro subsetI)
    fix s assume "\<not> (\<exists>s<pl_n_slots p. pl_slot2key p ! s = None)" "s \<in> {..<pl_n_slots p}"
    then obtain k where "pl_slot2key p ! s = Some k" "s < pl_n_slots p" by auto
    then have "map_of (pl_key2slot p) k = Some s" by (simp add: pool_wfD(9)[OF wf])
    then show "s \<in> snd ` set (pl_key2slot p)" by (force dest: map_of_SomeD)
  qed
  then have "card {..<pl_n_slots p} \<le> card (snd ` set (pl_key2slot p))" by (intro card_mono) auto
  also have "\<dots> \<le> length (pl_key2slot p)"
    using card_image_le[of "set (pl_key2slot p)" snd] card_length[of "pl_key2slot p"] by simp
  finally show False using lt by simp
qed

definition grew :: "'b ecache \<Rightarrow> 'b ecache \<Rightarrow> bool" where
  "grew c c' \<longleftrightarrow> ec_frame c c' \<and> ec_evictions c' = ec_evictions c \<and>
     (\<forall>r l e. resident c r l e \<longrightarrow> resident c' r l e)"

lemma grew_refl: "grew c c" and grew_trans: "grew a b \<Longrightarrow> grew b c \<Longrightarrow> grew a c"
  by (auto simp: grew_def ec_frame_def)

lemma install_free:
  assumes inv: "ec_inv m P c" and fits: "fits m c pi layer e r" and key: "key = layer * ec_n_expert c + e"
    and lt: "length (pl_key2slot (ec_pools c ! pi)) < pl_n_slots (ec_pools c ! pi)"
  shows "grew c (snd (install m pi key layer e r c))"
proof -
  let ?p = "ec_pools c ! pi"
  have pi: "pi < length (ec_pools c)" using fits by (simp add: fits_def)
  note wf = ec_invD(1)[OF inv pi]
  from ex_free_slot[OF wf lt] pick_victim_free[of _ ?p "ec_quota_on c" "ec_n_expert c" layer]
  obtain v where v: "pick_victim (ec_quota_on c) (ec_n_expert c) ?p layer = Some v" "v < pl_n_slots ?p"
    "pl_slot2key ?p ! v = None" by blast
  have drop: "drop_slot pi v c = c" using v(3) by (simp add: drop_slot_def)
  show ?thesis
  proof (cases "expert_slab m (ec_ssd c) r layer e")
    case None
    then have "snd (install m pi key layer e r c) = c"
      using v(1) drop fits by (simp add: install_def fetch_slab_def fits_def)
    then show ?thesis by (simp add: grew_refl)
  next
    case (Some b)
    let ?c' = "snd (install m pi key layer e r c)"
    from install_eff[OF fits key v(1) Some] have eff: "ec_eff pi (pool_write v b
        (pool_replace (ec_n_expert c) layer v key (ec_clock c + 1) ?p)) (ec_clock c + 1) c ?c'" by auto
    have ev: "ec_evictions ?c' = ec_evictions c"
      using v(1) drop fits Some
      by (simp add: install_def fetch_slab_def fits_def claim_slot_def upload_def upd_pool_def Let_def)
    note cs = ec_core_simps[OF ec_eff_core[OF eff]]
    have kb: "key < ec_n_layer c * ec_n_expert c" "key div ec_n_expert c = layer" "map_of (pl_key2slot ?p) key = None"
      using fits key div_mult_bound by (auto simp: fits_def)
    have keep: "map_of (pl_key2slot (ec_pools ?c' ! pj)) k \<noteq> None" if "map_of (pl_key2slot (ec_pools c ! pj)) k \<noteq> None" for pj k
    proof (cases "pj = pi")
      case True
      with that obtain s where s: "map_of (pl_key2slot ?p) k = Some s" by auto
      with pool_lookup[OF wf s] v(3) kb(3) have "k \<noteq> key" "s \<noteq> v" by auto
      then have "map_of (pl_key2slot (pool_replace (ec_n_expert c) layer v key (ec_clock c + 1) ?p)) k = Some s"
        using pool_replace_lookup[OF wf v(2) kb(1,3), of layer "ec_clock c + 1" k s] kb(2) s by simp
      then show ?thesis using True ec_eff_pool[OF eff pi] by (simp add: pool_write_def)
    next
      case False
      then show ?thesis using that ec_eff_other[OF eff] by simp
    qed
    have "resident ?c' r' l x" if "resident c r' l x" for r' l x
      using that keep[of "pool_ix c r' l" "l * ec_n_expert c + x"] by (simp add: resident_def pool_at_def cs)
    then show ?thesis using ev ec_frame_install by (auto simp: grew_def)
  qed
qed

lemma role_of_role_no: "role_of_no (role_no r) = r"
  by (cases r) (simp_all add: role_of_no_def role_no_def)

lemma prefetch_one_inv:
  assumes inv: "ec_inv m P c" and en: "entry_ok c en"
  shows "ec_inv m P (snd (prefetch_one m en c)) \<and> grew c (snd (prefetch_one m en c))"
proof -
  obtain r l e n where en': "en = (r, l, e, n)" by (cases en)
  define pi where "pi = pool_ix c (role_of_no r) (nat l)"
  let ?p = "ec_pools c ! pi" and ?key = "nat l * ec_n_expert c + nat e"
  show ?thesis
  proof (cases "length (pl_key2slot ?p) < pl_n_slots ?p \<and> map_of (pl_key2slot ?p) ?key = None")
    case False
    then have "snd (prefetch_one m en c) = c"
      by (auto simp: prefetch_one_def en' pi_def Let_def)
    then show ?thesis using inv by (simp add: grew_refl)
  next
    case True
    have sv: "serves c (nat l)" using en by (simp add: entry_ok_def en')
    have fits: "fits m c pi (nat l) (nat e) (role_of_no r)"
      using True ec_routing[OF inv sv] en by (auto simp: fits_def pi_def entry_ok_def en')
    have "snd (prefetch_one m en c) = snd (install m pi ?key (nat l) (nat e) (role_of_no r) c)"
      using True by (auto simp: prefetch_one_def en' pi_def Let_def split: prod.splits sum.splits)
    then show ?thesis
      using install_inv(1)[OF inv fits refl] install_free[OF inv fits refl] True by simp
  qed
qed

text \<open>
  Loading a profile never costs a resident expert: whatever the file holds (entries out of range,
  of another device's layers, duplicates, a different model) and whether its reads succeed or throw,
  \<open>load_prefetch\<close> keeps the cache consistent, evicts nothing, and every expert that was resident stays
  resident.
\<close>

theorem load_prefetch_correct:
  assumes "ec_inv m P c"
  shows "ec_inv m P (snd (load_prefetch m file c)) \<and>
    ec_evictions (snd (load_prefetch m file c)) = ec_evictions c \<and>
    (\<forall>r l e. resident c r l e \<longrightarrow> resident (snd (load_prefetch m file c)) r l e)"
proof -
  have loop: "ec_inv m P (snd (for_each (prefetch_one m) ens c)) \<and> grew c (snd (for_each (prefetch_one m) ens c))"
    if "\<forall>en\<in>set ens. entry_ok c en" for ens
  proof (rule for_each_inv)
    fix en s assume en: "en \<in> set ens" and s: "ec_inv m P s \<and> grew c s"
    have "entry_ok s en"
      using that en ec_core_simps[of s c] s by (auto simp: entry_ok_def grew_def ec_frame_def split: prod.splits)
    with s prefetch_one_inv show "ec_inv m P (snd (prefetch_one m en s)) \<and> grew c (snd (prefetch_one m en s))"
      by (blast intro: grew_trans)
  qed (use assms grew_refl in blast)
  have "snd (load_prefetch m file c) = c \<or>
      (\<exists>ens. (\<forall>en\<in>set ens. entry_ok c en) \<and> snd (load_prefetch m file c) = snd (for_each (prefetch_one m) ens c))"
  proof (cases "file")
    case None
    then show ?thesis by (simp add: load_prefetch_def)
  next
    case (Some pf)
    let ?ens = "rev (sort_key (\<lambda>(r, l, e, n). n) (rev (filter (entry_ok c) (pf_ents pf))))"
    have "\<forall>en\<in>set ?ens. entry_ok c en" by auto
    moreover have "snd (load_prefetch m file c) = c \<or>
        snd (load_prefetch m file c) = snd (for_each (prefetch_one m) ?ens c)"
      using Some by (simp add: load_prefetch_def split: prod.splits sum.splits)
    ultimately show ?thesis by blast
  qed
  then show ?thesis using loop assms by (auto simp: grew_def)
qed

subsection \<open>Instances\<close>

lemma demo_used_shape:
  "ec_n_layer demo_used = 1" "ec_n_used demo_used = 2" "ec_n_expert demo_used = 4" "ec_ssd demo_used = False"
  "map pl_n_slots (ec_pools demo_used) = [2, 2, 2]" "counts demo_used \<noteq> []" "serves demo_used 0"
  by code_simp+

lemma demo_used_floor: "floor_fits demo_used"
  unfolding floor_fits_def
proof (intro allI impI)
  fix pi assume pi: "pi < length (ec_pools demo_used)"
  then have "pl_n_slots (ec_pools demo_used ! pi) = [2, 2, 2] ! pi" "pi < 3"
    using demo_used_shape(5) by (metis nth_map, metis length_map length_Cons list.size(3) numeral_3_eq_3)
  then have "pl_n_slots (ec_pools demo_used ! pi) = 2" by (auto simp: less_Suc_eq numeral_3_eq_3)
  moreover have "card {il. il < ec_n_layer demo_used \<and> uses demo_used pi il} \<le> card {0::nat}"
    by (rule card_mono) (auto simp: demo_used_shape)
  ultimately show "ec_n_used demo_used * card {il. il < ec_n_layer demo_used \<and> uses demo_used pi il}
      \<le> pl_n_slots (ec_pools demo_used ! pi)"
    by (simp add: demo_used_shape)
qed

theorem compute_quota_correct_witness: "ec_inv demo_src {} demo_used \<and> 2 \<le> compute_quota demo_used ! 0"
  using compute_quota_correct[OF demo_used_ok] demo_used_ok demo_used_floor demo_used_shape by simp

theorem rebalance_correct_witness:
  "ec_quota_on (snd (rebalance demo_src 5 demo_used)) \<and>
   (\<exists>outs c'. ensure demo_src 0 [0, 2] (snd (rebalance demo_src 5 demo_used)) = (Inr outs, c') \<and>
     holds_slab demo_src c' 0 2 DOWN (outs DOWN ! 1))"
proof -
  have "set [0, 2] \<subseteq> {..<ec_n_expert demo_used}" "card (set [0, 2::nat]) \<le> ec_n_used demo_used"
    "\<forall>r. \<forall>e\<in>set [0, 2]. expert_slab demo_src (ec_ssd demo_used) r 0 e \<noteq> None"
    using demo_ok(2) by (simp_all add: demo_used_shape)
  with rebalance_correct[OF demo_used_ok, of 5] demo_used_floor demo_used_shape(6,7)
  obtain outs c' where "ensure demo_src 0 [0, 2] (snd (rebalance demo_src 5 demo_used)) = (Inr outs, c')"
    "\<forall>r. \<forall>i < length [0, 2::nat]. holds_slab demo_src c' 0 ([0, 2] ! i) r (outs r ! i)"
    by blast
  moreover have "ec_quota_on (snd (rebalance demo_src 5 demo_used))" using rebalance_correct[OF demo_used_ok, of 5] demo_used_shape(7) by blast
  ultimately show ?thesis by fastforce
qed

theorem load_prefetch_correct_witness:
  "resident demo_used GATE 0 3 \<and>
   resident (snd (load_prefetch demo_src (Some \<lparr>pf_ver = 1, pf_n_layer = 1, pf_n_expert = 4, pf_ents = [(0, 0, 2, 7), (9, 0, 0, 1)]\<rparr>)
     demo_used)) GATE 0 3"
proof -
  have "resident demo_used GATE 0 3" by code_simp
  with load_prefetch_correct[OF demo_used_ok, of "Some \<lparr>pf_ver = 1, pf_n_layer = 1, pf_n_expert = 4, pf_ents = [(0, 0, 2, 7), (9, 0, 0, 1)]\<rparr>"]
  show ?thesis by blast
qed

subsection \<open>A read that fails\<close>

text \<open>
  On the SSD tier \<open>ensure\<close> registers the keys of its misses before it reads them, and nothing takes them
  back when the read throws. \<open>quiet c c'\<close>: same routing, keys and slot contents.
\<close>

definition quiet :: "'b ecache \<Rightarrow> 'b ecache \<Rightarrow> bool" where
  "quiet c c' \<longleftrightarrow> ec_core c' = ec_core c \<and> map pl_key2slot (ec_pools c') = map pl_key2slot (ec_pools c) \<and>
     map pl_t (ec_pools c') = map pl_t (ec_pools c)"

lemma map_upd_same: "f y = f (xs ! i) \<Longrightarrow> map f (xs[i := y]) = map f xs"
  by (metis list_update_id map_update)

lemma hit_maps:
  assumes "\<And>t p. f (pool_stamp s t p) = f p" "\<And>p. f (pool_count key p) = f p"
  shows "map f (ec_pools (count_hit pi layer s (upd_pool pi (pool_count key) c))) = map f (ec_pools c)"
  by (cases "pi < length (ec_pools c)") (simp_all add: count_hit_def Let_def upd_pool_def map_upd_same assms list_update_beyond not_less)

lemma quiet_hit: "quiet c (count_hit pi layer s (upd_pool pi (pool_count key) c))"
proof -
  have "ec_core (count_hit pi layer s (upd_pool pi (pool_count key) c)) = ec_core c"
    by (simp add: count_hit_def Let_def upd_pool_def ec_core_def)
  then show ?thesis
    unfolding quiet_def by (intro conjI hit_maps) (simp_all add: pool_stamp_def pool_count_def)
qed

text \<open>A call whose experts are all registered reads nothing.\<close>

lemma ssd_all_hits:
  assumes "\<And>e r. (e, r) \<in> set W \<Longrightarrow> pool_ix c r layer < length (ec_pools c) \<and>
      map_of (pl_key2slot (pool_at c r layer)) (layer * ec_n_expert c + e) = Some (f (e, r))"
  shows "\<exists>c'. for_each (ensure_ssd layer) W c = (Inr (map (\<lambda>w. (f w, None)) W), c') \<and> quiet c c'"
  using assms
proof (induction W arbitrary: c)
  case Nil
  then show ?case by (simp add: quiet_def)
next
  case (Cons w W)
  obtain e r where w: "w = (e, r)" by (cases w)
  let ?pi = "pool_ix c r layer" and ?key = "layer * ec_n_expert c + e"
  let ?c1 = "count_hit ?pi layer (f w) (upd_pool ?pi (pool_count ?key) c)"
  have hit: "map_of (pl_key2slot (ec_pools c ! ?pi)) ?key = Some (f w)" using Cons.prems[of e r] w by (simp add: pool_at_def)
  have one: "ensure_ssd layer w c = (Inr (f w, None), ?c1)" using hit w by (simp add: ensure_ssd_def Let_def)
  have q: "quiet c ?c1" by (rule quiet_hit)
  note cs = ec_core_simps[OF conjunct1[OF q[unfolded quiet_def]]]
  have len: "length (ec_pools ?c1) = length (ec_pools c)" using q unfolding quiet_def by (metis length_map)
  have keys: "pl_key2slot (ec_pools ?c1 ! i) = pl_key2slot (ec_pools c ! i)" if "i < length (ec_pools c)" for i
    using q that len unfolding quiet_def by (metis nth_map)
  have "\<exists>c'. for_each (ensure_ssd layer) W ?c1 = (Inr (map (\<lambda>w. (f w, None)) W), c') \<and> quiet ?c1 c'"
  proof (rule Cons.IH)
    fix e' r' assume "(e', r') \<in> set W"
    then show "pool_ix ?c1 r' layer < length (ec_pools ?c1) \<and>
        map_of (pl_key2slot (pool_at ?c1 r' layer)) (layer * ec_n_expert ?c1 + e') = Some (f (e', r'))"
      using Cons.prems[of e' r'] keys len by (simp add: cs pool_at_def)
  qed
  then show ?case using one q by (auto simp: quiet_def)
qed

lemma fetch_parallel_nil: "fetch_parallel m layer [] c = (Inr (), c)"
proof -
  have "plan_fetch (ec_coal c) (nb2_of c) [] = ([], [])"
    by (simp add: plan_fetch_def plan_role_def plan_rj_def COAL_MIN_def split: option.splits)
  moreover have "batches n [] = ([] :: fetch_job list list)" for n by (subst batches.simps) simp
  ultimately show ?thesis by (simp add: fetch_parallel_def)
qed

text \<open>Whatever a read does, it changes slot contents only; without its files it changes nothing.\<close>

lemma fetch_parallel_inv:
  assumes "\<And>rn c. I c \<Longrightarrow> I (snd (fetch_run_slabs m layer rn c))" "\<And>js c. I c \<Longrightarrow> I (snd (fetch_batch m layer js c))" "I c"
  shows "I (snd (fetch_parallel m layer jobs c))"
proof -
  obtain runs singles where p: "plan_fetch (ec_coal c) (nb2_of c) jobs = (runs, singles)" by (metis surj_pair)
  obtain x c1 where r: "for_each (fetch_run_slabs m layer) runs c = (x, c1)" by (metis surj_pair)
  have 1: "I c1" using for_each_inv[of runs I "fetch_run_slabs m layer" c] assms(1,3) r by simp
  have "I (snd (for_each (fetch_batch m layer) bs c1))" for bs
    by (rule for_each_inv) (use 1 assms(2) in auto)
  then show ?thesis using p r 1 by (auto simp: fetch_parallel_def split: sum.splits prod.splits) (metis snd_conv)+
qed

lemma uploads_written: "written c c1 \<Longrightarrow> written c (fold (\<lambda>j. upload (p j) (q j) (b j)) js c1)"
  by (induction js arbitrary: c1) (simp_all, metis written_trans written_upload)

lemma fetch_parallel_written: "written c (snd (fetch_parallel m layer jobs c))"
proof (rule fetch_parallel_inv[where I = "written c"])
  show "written c (snd (fetch_run_slabs m layer rn c1))" if "written c c1" for rn c1
    using that by (auto simp: fetch_run_slabs_def Let_def uploads_written split: option.splits)
  show "written c (snd (fetch_batch m layer js c1))" if "written c c1" for js c1
    using that by (auto simp: fetch_batch_def Let_def case_prod_unfold uploads_written)
qed (rule written_refl)

lemma fetch_parallel_missing:
  assumes "\<And>p. ws_fs m p = None"
  shows "snd (fetch_parallel m layer jobs c) = c"
proof (rule fetch_parallel_inv[where I = "\<lambda>s. s = c"])
  show "s = c \<Longrightarrow> snd (fetch_run_slabs m layer rn s) = c" for rn s
    by (simp add: fetch_run_slabs_def read_run_def assms)
  show "s = c \<Longrightarrow> snd (fetch_batch m layer js s) = c" for js s
    by (cases js) (simp_all add: fetch_batch_def read_job_def fread_at_def Let_def assms)
qed simp

text \<open>Reserving slots writes none.\<close>

lemma ensure_ssd_contents:
  "map pl_t (ec_pools (snd (for_each (ensure_ssd layer) W c))) = map pl_t (ec_pools c)"
proof (rule for_each_inv[where I = "\<lambda>s. map pl_t (ec_pools s) = map pl_t (ec_pools c)"])
  fix w :: "nat \<times> role" and s :: "'a ecache"
  assume s: "map pl_t (ec_pools s) = map pl_t (ec_pools c)"
  obtain e r where w: "w = (e, r)" by (cases w)
  have u: "map pl_t (ec_pools (upd_pool pi f s')) = map pl_t (ec_pools s')" if "\<And>p. pl_t (f p) = pl_t p" for pi f and s' :: "'a ecache"
    using that by (simp add: upd_pool_def map_upd_same)
  have d: "map pl_t (ec_pools (drop_slot pi v s')) = map pl_t (ec_pools s')" for pi v and s' :: "'a ecache"
    using u[of "pool_drop (ec_n_expert s') v _" pi s'] by (auto simp: drop_slot_def pool_drop_def split: option.splits)
  have cl: "map pl_t (ec_pools (claim_slot pi layer v key s')) = map pl_t (ec_pools s')" for pi v key and s' :: "'a ecache"
    using u[of "pool_claim layer v key _" pi s'] by (simp add: claim_slot_def Let_def pool_claim_def)
  have cl': "map pl_t (ec_pools (claim_slot pi l v key s')) = map pl_t (ec_pools s')" for pi l v key and s' :: "'a ecache"
    using u[of "pool_claim l v key _" pi s'] by (simp add: claim_slot_def Let_def pool_claim_def)
  have m: "map pl_t (ec_pools (count_miss layer (upd_pool pi (pool_count key) s))) = map pl_t (ec_pools s)" for pi key
    using u[of "pool_count key" pi s] by (simp add: count_miss_def pool_count_def)
  have h: "map pl_t (ec_pools (count_hit pi layer v (upd_pool pi (pool_count key) s))) = map pl_t (ec_pools s)" for pi v key
    using quiet_hit[of s pi layer v key] by (simp add: quiet_def)
  show "map pl_t (ec_pools (snd (ensure_ssd layer w s))) = map pl_t (ec_pools c)"
    using s by (simp add: ensure_ssd_def reserve_victim_def w Let_def h m d cl' split: option.splits)
qed simp

text \<open>
  C39. A failed read leaves stale slots. On the SSD tier, take any consistent cache and a call of
  \<open>ensure\<close> with room for its experts, and let the call throw, because some file cannot be read. Then all the
  experts of the call count as resident. The next call for them returns slots without reading
  anything, whatever the files hold by then, and returns them with the contents the failed call left; when the
  failed call read nothing at all, these are the contents from before it, that is the bytes of other
  experts or none.
\<close>

theorem failed_read_leaves_stale_slot:
  assumes "ec_inv m {} c" "ec_ssd c" "serves c layer" "\<forall>e\<in>set ids. e < ec_n_expert c"
    and "\<forall>r. card (set ids) \<le> safe_slots (ec_quota_on c) (pool_at c r layer) layer"
    and "ensure m' layer ids c = (Inl x, c')"
  shows "(\<forall>r. \<forall>e\<in>set ids. resident c' r layer e) \<and>
    (\<exists>outs c''. (\<forall>m''. ensure m'' layer ids c' = (Inr outs, c'')) \<and> map pl_t (ec_pools c'') = map pl_t (ec_pools c') \<and>
      (\<forall>r. length (outs r) = length ids \<and>
        (\<forall>i < length ids. map_of (pl_key2slot (pool_at c' r layer)) (layer * ec_n_expert c' + ids ! i) = Some (outs r ! i)))) \<and>
    ((\<forall>p. ws_fs m' p = None) \<longrightarrow> map pl_t (ec_pools c') = map pl_t (ec_pools c))"
proof -
  have rm: "room c layer ids" using assms(3-5) by (simp add: room_def)
  obtain rs c1 where c1: "for_each (ensure_ssd layer) (wants ids) c = (Inr rs, c1)" "length rs = length (wants ids)"
      and I: "loop_inv m layer c (pend rs) (wants ids) (map fst rs) c1"
    using ensure_loop_ssd[OF assms(1) rm] by blast
  have inv1: "ec_inv m (pend rs) c1" and core1: "ec_core c1 = ec_core c" using I by (auto simp: loop_inv_def)
  note cs1 = ec_core_simps[OF core1]
  have c': "c' = snd (fetch_parallel m' layer (List.map_filter snd rs) c1)"
    using assms(2,3,6) c1(1) by (auto simp: ensure_def split: sum.splits prod.splits)
  then have w: "written c1 c'" by (simp add: fetch_parallel_written)
  note cs = ec_core_simps[OF conjunct1[OF w[unfolded written_def]]]
  have sv: "serves c' layer" "ec_ssd c'" using assms(2,3) by (simp_all add: cs cs1)
  have pi: "pool_ix c1 r layer < length (ec_pools c1)" for r by (rule ec_routing(2)[OF inv1]) (simp add: cs1 assms(3))
  have keys: "pl_key2slot (pool_at c' r layer) = pl_key2slot (pool_at c1 r layer)" for r
    using pool_strip_simps(5)[OF written_pool(2)[OF w pi[of r]]] by (simp add: pool_at_def cs)
  define f where "f = (\<lambda>(e, r). the (map_of (pl_key2slot (pool_at c' r layer)) (layer * ec_n_expert c' + e)))"
  have hit: "map_of (pl_key2slot (pool_at c' r layer)) (layer * ec_n_expert c' + e) = Some (f (e, r))" if "(e, r) \<in> set (wants ids)" for e r
  proof -
    obtain i where i: "i < length (wants ids)" "wants ids ! i = (e, r)" using \<open>(e, r) \<in> set (wants ids)\<close> by (metis in_set_conv_nth)
    then have "map_of (pl_key2slot (pool_at c1 r layer)) (layer * ec_n_expert c + e) = Some (map fst rs ! i)"
      using I by (force simp: loop_inv_def)
    then show ?thesis by (simp add: keys cs cs1 f_def)
  qed
  have mem: "(e, r) \<in> set (wants ids)" if "e \<in> set ids" for e r using that by (cases r) (auto simp: wants_def roles_def)
  have res: "\<forall>r. \<forall>e\<in>set ids. resident c' r layer e"
    using hit[OF mem] sv(1) by (simp add: resident_def pool_at_def)
  have len: "length (ec_pools c') = length (ec_pools c1)" by (rule written_pool(1)[OF w])
  obtain c'' where c'': "for_each (ensure_ssd layer) (wants ids) c' = (Inr (map (\<lambda>w. (f w, None)) (wants ids)), c'')" "quiet c' c''"
    using ssd_all_hits[of "wants ids" c' layer f] hit pi len by (auto simp: cs)
  let ?outs = "out_slots ids (map f (wants ids))"
  have none: "List.map_filter snd (map (\<lambda>w. (f w, None)) W) = ([] :: fetch_job list)" for W
    by (induction W) (simp_all add: List.map_filter_def)
  have run: "ensure m'' layer ids c' = (Inr ?outs, c'')" for m''
    using sv c''(1) by (simp add: ensure_def none fetch_parallel_nil comp_def)
  have "list_all2 (\<lambda>w s. map_of (pl_key2slot (pool_at c' (snd w) layer)) (layer * ec_n_expert c' + fst w) = Some s) (wants ids) (map f (wants ids))"
    using hit by (auto simp: list_all2_conv_all_nth dest!: nth_mem)
  from out_slots_all2[of "\<lambda>e r s. map_of (pl_key2slot (pool_at c' r layer)) (layer * ec_n_expert c' + e) = Some s", OF this]
  have outs: "\<forall>r. length (?outs r) = length ids \<and>
        (\<forall>i < length ids. map_of (pl_key2slot (pool_at c' r layer)) (layer * ec_n_expert c' + ids ! i) = Some (?outs r ! i))"
    by (simp add: list_all2_conv_all_nth)
  have same: "map pl_t (ec_pools c') = map pl_t (ec_pools c)" if "\<forall>p. ws_fs m' p = None"
  proof -
    have "c' = c1" using c' fetch_parallel_missing[of m'] that by simp
    then show ?thesis using ensure_ssd_contents[of layer "wants ids" c] c1(1) by simp
  qed
  show ?thesis using res run c''(2) outs same unfolding quiet_def by blast
qed

text \<open>A cache on the SSD tier whose shard is missing.\<close>

definition disk_src :: "(string \<Rightarrow> nat list option) \<Rightarrow> nat wsource" where
  "disk_src fs = demo_src\<lparr>ws_path := \<lambda>_ _. ''shard'', ws_fs := fs\<rparr>"

definition disk_cache :: "nat ecache" where
  "disk_cache =
     projr (ExpertCache None demo_ts (\<lambda>_. 0) (\<lambda>_ _ _. 2) (\<lambda>k. replicate k [0, 0]) True 1 4 2 True None)"

lemma fetch_parallel_missing_fails:
  assumes "ec_coal c = None" "jobs \<noteq> []" "\<And>p. ws_fs m p = None"
  shows "fetch_parallel m layer jobs c = (Inl (Runtime_error ''ExpertCache: parallel SSD read failed''), c)"
proof -
  let ?n = "batch_size (nb2_of c) jobs"
  have b: "batches ?n jobs = take ?n jobs # batches ?n (drop ?n jobs)"
    using batch_size_pos[of "nb2_of c" jobs] assms(2) by (subst batches.simps) simp
  obtain j js where j: "take ?n jobs = j # js"
    using batch_size_pos[of "nb2_of c" jobs] assms(2) by (cases "take ?n jobs") auto
  have "read_job m layer c j = None" by (simp add: read_job_def fread_at_def Let_def assms(3))
  then show ?thesis
    by (simp add: fetch_parallel_def plan_fetch_def assms(1) b j fetch_batch_def)
qed

text \<open>A first call for one expert fails when its shard cannot be opened.\<close>

lemma disk_cache_fails: "\<exists>x c'. ensure (disk_src (\<lambda>_. None)) 0 [3] disk_cache = (Inl x, c')"
proof -
  have c: "serves disk_cache 0" "ec_ssd disk_cache" "ec_coal (snd (for_each (ensure_ssd 0) (wants [3]) disk_cache)) = None"
    by code_simp+
  have "case fst (for_each (ensure_ssd 0) (wants [3]) disk_cache) of Inl _ \<Rightarrow> False
      | Inr rs \<Rightarrow> List.map_filter snd rs \<noteq> []" by code_simp
  then obtain rs d where rs: "for_each (ensure_ssd 0) (wants [3]) disk_cache = (Inr rs, d)" "List.map_filter snd rs \<noteq> []"
    by (cases "for_each (ensure_ssd 0) (wants [3]) disk_cache") (auto split: sum.splits)
  have "\<And>p. ws_fs (disk_src (\<lambda>_. None)) p = None" by (simp add: disk_src_def)
  from fetch_parallel_missing_fails[OF _ rs(2) this, of d 0] show ?thesis
    using c rs(1) by (simp add: ensure_def)
qed

theorem failed_read_leaves_stale_slot_witness:
  "\<exists>x c'. ensure (disk_src (\<lambda>_. None)) 0 [3] disk_cache = (Inl x, c') \<and> resident c' GATE 0 3 \<and>
     (\<exists>outs c''. ensure (disk_src (\<lambda>_. Some [0..<24])) 0 [3] c' = (Inr outs, c'') \<and>
        map pl_t (ec_pools c'') = map pl_t (ec_pools disk_cache))"
proof -
  let ?m = "disk_src (\<lambda>_. None)"
  have ok: "tensors_ok None demo_ts (\<lambda>_ _ _. 2) ?m 1" by (simp add: tensors_ok_def demo_ts_def demo_src_def disk_src_def)
  from ExpertCache_fresh[OF ok demo_side(1,2), of "\<lambda>k. replicate k [0, 0]" "\<lambda>_. 0" True None]
  obtain c where c: "ExpertCache None demo_ts (\<lambda>_. 0) (\<lambda>_ _ _. 2) (\<lambda>k. replicate k [0, 0]) True 1 4 2 True None = Inr c"
    "ec_inv ?m {} c" "ec_ssd c = True" "ec_n_expert c = 4" "\<forall>il < 1. serves c il \<longleftrightarrow> owns None demo_ts il"
    "\<And>layer ids. serves c layer \<Longrightarrow> set ids \<subseteq> {..<4} \<Longrightarrow> card (set ids) \<le> 2 \<Longrightarrow> room c layer ids"
    by (metis length_replicate)
  have dc: "disk_cache = c" unfolding disk_cache_def c(1) by (rule sum.sel(2))
  have sv: "serves c 0" using c(5) demo_side(4) by simp
  have rm: "room c 0 [3]" by (rule c(6)[OF sv]) simp_all
  obtain x c' where e: "ensure ?m 0 [3] c = (Inl x, c')" using disk_cache_fails unfolding dc by blast
  have none: "\<forall>p. ws_fs ?m p = None" by (simp add: disk_src_def)
  have in_range: "\<forall>e\<in>set [3]. e < ec_n_expert c" by (simp add: c(4))
  have fits: "\<forall>r. card (set [3 :: nat]) \<le> safe_slots (ec_quota_on c) (pool_at c r 0) 0"
    using rm unfolding room_def by blast
  note T = failed_read_leaves_stale_slot[OF c(2) c(3)[simplified] sv in_range fits e]
  have "resident c' GATE 0 3" using conjunct1[OF T] by simp
  moreover obtain outs c'' where "ensure (disk_src (\<lambda>_. Some [0..<24])) 0 [3] c' = (Inr outs, c'')"
    "map pl_t (ec_pools c'') = map pl_t (ec_pools c')" using conjunct1[OF conjunct2[OF T]] by blast
  moreover have "map pl_t (ec_pools c') = map pl_t (ec_pools c)" using conjunct2[OF conjunct2[OF T]] none by blast
  ultimately show ?thesis unfolding dc using e by auto
qed

end
