(* ===== verification/Prefill.thy ===== *)
theory Prefill
  imports Expert_Quota
begin

section \<open>Batched prefill: slicing a layer's tokens to what the cache can hold\<close>

text \<open>
  The expert part of one layer of \<open>Runtime::decode_cached_batch\<close> (\<open>core/runtime.cpp\<close>): the selection
  \<open>sel\<close> is one row of \<open>n_used\<close> expert ids per token; \<open>plan_slices\<close> decides whether quotas are enforced
  for the batch and cuts the tokens into slices; then the layer's whole union is made resident when it
  fits, and each slice is ensured before its share of the feed-forward graph runs. What the graph
  computes is outside the model; the property is that its slot ids name the right weights.

  The cache is used here through a contract, the locale \<open>expert_provider\<close>, which the expert cache
  implements.
\<close>

subsection \<open>The contract\<close>

locale expert_provider =
  fixes inv :: "'s \<Rightarrow> bool" and fits :: "'s \<Rightarrow> nat \<Rightarrow> nat list \<Rightarrow> bool"
    and get :: "nat \<Rightarrow> nat list \<Rightarrow> ('s, 'o) prog" and good :: "'s \<Rightarrow> nat \<Rightarrow> nat list \<Rightarrow> 'o \<Rightarrow> bool"
  assumes get_ok: "inv s \<Longrightarrow> fits s l ids \<Longrightarrow> \<exists>out s'. get l ids s = (Inr out, s') \<and> inv s' \<and> good s' l ids out"
    and fits_kept: "inv s \<Longrightarrow> fits s l ids \<Longrightarrow> get l ids s = (Inr out, s') \<Longrightarrow> fits s l' ids' \<Longrightarrow> fits s' l' ids'"
begin

text \<open>A request with the state in which its consumer runs.\<close>

definition get_and_run :: "nat \<times> nat list \<Rightarrow> ('s, 'o \<times> 's) prog" where
  "get_and_run q s = (case get (fst q) (snd q) s of (Inl x, s') \<Rightarrow> (Inl x, s') | (Inr out, s') \<Rightarrow> (Inr (out, s'), s'))"

lemma requests_ok:
  assumes "inv s" "\<And>q. q \<in> set qs \<Longrightarrow> fits s (fst q) (snd q)"
  shows "\<exists>os s'. for_each get_and_run qs s = (Inr os, s') \<and> inv s' \<and>
    list_all2 (\<lambda>q (out, t). good t (fst q) (snd q) out) qs os"
  using assms
proof (induction qs arbitrary: s)
  case Nil
  then show ?case by simp
next
  case (Cons q qs)
  from get_ok[OF Cons.prems(1) Cons.prems(2)[of q]] obtain out s1 where
    1: "get (fst q) (snd q) s = (Inr out, s1)" "inv s1" "good s1 (fst q) (snd q) out" by auto
  have "\<exists>os s'. for_each get_and_run qs s1 = (Inr os, s') \<and> inv s' \<and>
      list_all2 (\<lambda>q (out, t). good t (fst q) (snd q) out) qs os"
    by (rule Cons.IH[OF 1(2)])
      (use fits_kept[OF Cons.prems(1) Cons.prems(2)[of q] 1(1)] Cons.prems(2) in auto)
  moreover have "get_and_run q s = (Inr (out, s1), s1)" using 1(1) by (simp add: get_and_run_def)
  ultimately show ?case using 1(3) by auto
qed

end

definition ec_fits :: "'b wsource \<Rightarrow> 'b ecache \<Rightarrow> nat \<Rightarrow> nat list \<Rightarrow> bool" where
  "ec_fits m c l ids \<longleftrightarrow> room c l ids \<and> (\<forall>r. \<forall>e\<in>set ids. expert_slab m (ec_ssd c) r l e \<noteq> None)"

definition ec_good :: "'b wsource \<Rightarrow> 'b ecache \<Rightarrow> nat \<Rightarrow> nat list \<Rightarrow> (role \<Rightarrow> nat list) \<Rightarrow> bool" where
  "ec_good m c l ids outs \<longleftrightarrow>
     (\<forall>r. length (outs r) = length ids \<and> (\<forall>i < length ids. holds_slab m c l (ids ! i) r (outs r ! i)))"

interpretation ec: expert_provider "ec_inv m {}" "ec_fits m" "ensure m" "ec_good m"
  for m :: "'b wsource"
proof
  fix c l ids assume inv: "ec_inv m {} c" and f: "ec_fits m c l ids"
  have pre: "ensure_pre m c l ids" using inv f by (simp add: ensure_pre_def ec_fits_def)
  from ensure_ok[OF pre] show "\<exists>out s'. ensure m l ids c = (Inr out, s') \<and> ec_inv m {} s' \<and> ec_good m s' l ids out"
    unfolding ec_good_def by blast
  fix out s' l' ids'
  assume "ensure m l ids c = (Inr out, s')" and f': "ec_fits m c l' ids'"
  with ensure_ok[OF pre] have fr: "ec_frame c s'" by (auto simp: ec_frame_def)
  then show "ec_fits m s' l' ids'"
    using f' room_frame[OF inv fr] ec_core_simps(4)[of s' c] by (auto simp: ec_fits_def ec_frame_def)
qed

subsection \<open>Planning the slices\<close>

definition set_quotas :: "bool \<Rightarrow> 'b ecache \<Rightarrow> 'b ecache" where
  "set_quotas on c = c\<lparr>ec_quota_on := on\<rparr>"

fun union_row :: "nat list \<Rightarrow> bool list \<times> nat list \<Rightarrow> bool list \<times> nat list" where
  "union_row [] st = st"
| "union_row (e # es) (useen, acc) =
     union_row es (if useen ! e then (useen, acc) else (useen[e := True], acc @ [e]))"

definition plan_list :: "nat \<Rightarrow> nat list list \<Rightarrow> nat list" where
  "plan_list n_exp sel = snd (fold union_row sel (replicate n_exp False, []))"

fun mark :: "nat list \<Rightarrow> bool list \<Rightarrow> bool list \<times> nat" where
  "mark [] seen = (seen, 0)"
| "mark (e # es) seen =
     (if seen ! e then mark es seen else (case mark es (seen[e := True]) of (s, n) \<Rightarrow> (s, n + 1)))"

fun cut :: "nat \<Rightarrow> nat \<Rightarrow> nat \<Rightarrow> nat list list \<Rightarrow> nat \<Rightarrow> nat \<Rightarrow> bool list \<Rightarrow> nat \<Rightarrow> (nat \<times> nat) list" where
  "cut n_exp cap max_slice [] t t0 seen ndist = [(t0, t - t0)]"
| "cut n_exp cap max_slice (row # rows) t t0 seen ndist =
     (case mark row seen of (seen1, nnew) \<Rightarrow>
        if (ndist + nnew > cap \<or> t - t0 \<ge> max_slice) \<and> t > t0
        then (case mark row (replicate n_exp False) of (seen2, nnew2) \<Rightarrow>
                (t0, t - t0) # cut n_exp cap max_slice rows (t + 1) t seen2 nnew2)
        else cut n_exp cap max_slice rows (t + 1) t0 seen1 (ndist + nnew))"

definition quota_choice :: "nat \<Rightarrow> nat list list \<Rightarrow> 'b ecache \<Rightarrow> bool" where
  "quota_choice il sel c = (int (length (plan_list (ec_n_expert c) sel)) \<le> quota_of c il - 8)"

definition plan_slices :: "nat \<Rightarrow> nat \<Rightarrow> nat list list \<Rightarrow> 'b ecache \<Rightarrow> (nat \<times> nat) list \<times> 'b ecache" where
  "plan_slices max_slice il sel c =
     (let c1 = set_quotas (quota_choice il sel c) c;
          cap = nat (max (int (ec_n_used c)) (capacity c1 il - 8))
      in (cut (ec_n_expert c) cap max_slice sel 0 0 (replicate (ec_n_expert c) False) 0, c1))"

text \<open>The requests of one layer, in order: the whole union first when it fits, then the slices.\<close>

definition slice_ids :: "nat list list \<Rightarrow> nat \<times> nat \<Rightarrow> nat list" where
  "slice_ids sel s = concat (take (snd s) (drop (fst s) sel))"

definition layer_requests :: "nat \<Rightarrow> nat list list \<Rightarrow> (nat \<times> nat) list \<Rightarrow> 'b ecache \<Rightarrow> (nat \<times> nat list) list" where
  "layer_requests il sel slices c =
     (let u = plan_list (ec_n_expert c) sel in
      (if length slices > 1 \<and> int (length u) \<le> capacity c il - 8 then [(il, u)] else []) @
      map (\<lambda>s. (il, slice_ids sel s)) slices)"

definition prefill_layer ::
  "'b wsource \<Rightarrow> nat \<Rightarrow> nat \<Rightarrow> nat list list \<Rightarrow> ('b ecache, ((role \<Rightarrow> nat list) \<times> 'b ecache) list) prog" where
  "prefill_layer m max_slice il sel c =
     (case plan_slices max_slice il sel c of (slices, c1) \<Rightarrow>
        for_each (\<lambda>q s. case ensure m (fst q) (snd q) s of (Inl x, s') \<Rightarrow> (Inl x, s') | (Inr out, s') \<Rightarrow> (Inr (out, s'), s'))
          (layer_requests il sel slices c1) c1)"

subsection \<open>The slices tile the batch and respect the bounds\<close>

definition seen_of :: "nat \<Rightarrow> nat set \<Rightarrow> bool list" where
  "seen_of n S = map (\<lambda>e. e \<in> S) [0..<n]"

lemma seen_of_empty: "replicate n False = seen_of n {}"
  by (simp add: seen_of_def map_replicate_const)

lemma seen_of_update: "e < n \<Longrightarrow> (seen_of n S)[e := True] = seen_of n (insert e S)"
  by (auto simp: seen_of_def list_eq_iff_nth_eq nth_list_update)

lemma mark_spec:
  "set row \<subseteq> {..<n} \<Longrightarrow> mark row (seen_of n S) = (seen_of n (S \<union> set row), card (set row - S))"
proof (induction row arbitrary: S)
  case Nil
  then show ?case by simp
next
  case (Cons e row)
  then have e: "e < n" "seen_of n S ! e \<longleftrightarrow> e \<in> S" by (auto simp: seen_of_def)
  show ?case
  proof (cases "e \<in> S")
    case True
    then have "set (e # row) - S = set row - S" "S \<union> set (e # row) = S \<union> set row" by auto
    then show ?thesis using Cons e True by simp
  next
    case False
    then have "set (e # row) - S = insert e (set row - insert e S)" by auto
    then have "card (set (e # row) - S) = card (set row - insert e S) + 1" by simp
    then show ?thesis using Cons e False by (simp add: seen_of_update insert_commute)
  qed
qed

fun positions :: "nat \<Rightarrow> 'a list list \<Rightarrow> (nat \<times> nat) list" where
  "positions t [] = []"
| "positions t (c # cs) = (t, length c) # positions (t + length c) cs"

definition chunk_ok :: "nat \<Rightarrow> nat \<Rightarrow> nat list list \<Rightarrow> bool" where
  "chunk_ok cap max_slice ch \<longleftrightarrow> card (set (concat ch)) \<le> cap \<and> length ch \<le> max_slice"

lemma cut_spec:
  assumes "0 < ms" "\<forall>row\<in>set rows. set row \<subseteq> {..<n} \<and> card (set row) \<le> cap"
    "t = t0 + length pre" "chunk_ok cap ms pre" "set (concat pre) \<subseteq> {..<n}"
  shows "\<exists>chs. cut n cap ms rows t t0 (seen_of n (set (concat pre))) (card (set (concat pre))) = positions t0 chs \<and>
    concat chs = pre @ rows \<and> (\<forall>ch\<in>set chs. chunk_ok cap ms ch)"
  using assms
proof (induction rows arbitrary: t t0 pre)
  case Nil
  then show ?case by (intro exI[of _ "[pre]"]) simp
next
  case (Cons row rows)
  let ?S = "set (concat pre)"
  have row: "set row \<subseteq> {..<n}" "card (set row) \<le> cap" using Cons.prems(2) by auto
  have fin: "finite ?S" by simp
  have cardu: "card ?S + card (set row - ?S) = card (?S \<union> set row)"
    by (metis Un_Diff_cancel card_Un_disjoint Diff_disjoint finite_Diff finite_set fin)
  have row1: "set (concat [row]) = set row" by simp
  show ?case
  proof (cases "(card ?S + card (set row - ?S) > cap \<or> t - t0 \<ge> ms) \<and> t > t0")
    case True
    have "\<exists>chs. cut n cap ms rows (t + 1) t (seen_of n (set (concat [row]))) (card (set (concat [row]))) = positions t chs \<and>
        concat chs = [row] @ rows \<and> (\<forall>ch\<in>set chs. chunk_ok cap ms ch)"
      by (rule Cons.IH) (use Cons.prems row in \<open>auto simp: chunk_ok_def Suc_le_eq\<close>)
    then obtain chs where "cut n cap ms rows (t + 1) t (seen_of n (set row)) (card (set row)) = positions t chs"
      "concat chs = row # rows" "\<forall>ch\<in>set chs. chunk_ok cap ms ch" by auto
    then show ?thesis
      using True Cons.prems(3,4) mark_spec[OF row(1), of ?S] mark_spec[OF row(1), of "{}"]
      by (intro exI[of _ "pre # chs"]) (simp add: seen_of_empty)
  next
    case False
    have "chunk_ok cap ms (pre @ [row])"
    proof (cases "pre = []")
      case True
      then show ?thesis using row Cons.prems(1) by (simp add: chunk_ok_def)
    next
      case ne: False
      then have "t > t0" using Cons.prems(3) by simp
      with False have "card (?S \<union> set row) \<le> cap" "t - t0 < ms" unfolding cardu[symmetric] by auto
      then show ?thesis using Cons.prems(3) by (simp add: chunk_ok_def)
    qed
    then have "\<exists>chs. cut n cap ms rows (t + 1) t0 (seen_of n (set (concat (pre @ [row])))) (card (set (concat (pre @ [row])))) = positions t0 chs \<and>
        concat chs = (pre @ [row]) @ rows \<and> (\<forall>ch\<in>set chs. chunk_ok cap ms ch)"
      by (intro Cons.IH) (use Cons.prems row in auto)
    moreover have u: "set (concat (pre @ [row])) = ?S \<union> set row" by simp
    moreover have "cut n cap ms (row # rows) t t0 (seen_of n ?S) (card ?S) =
        cut n cap ms rows (t + 1) t0 (seen_of n (?S \<union> set row)) (card (?S \<union> set row))"
      using False unfolding cut.simps mark_spec[OF row(1)] prod.case cardu by (rule if_not_P)
    ultimately show ?thesis by (simp only: append.assoc append_Cons append_Nil)
  qed
qed

lemma positions_slices:
  "(p, l) \<in> set (positions t chs) \<Longrightarrow> length pre = t \<Longrightarrow>
   \<exists>ch\<in>set chs. take l (drop p (pre @ concat chs)) = ch"
proof (induction chs arbitrary: t pre)
  case (Cons ch chs)
  show ?case
  proof (cases "(p, l) = (t, length ch)")
    case True
    then show ?thesis using Cons.prems(2) by simp
  next
    case False
    with Cons.prems have "(p, l) \<in> set (positions (t + length ch) chs)" by auto
    from Cons.IH[OF this, of "pre @ ch"] Cons.prems(2) show ?thesis by auto
  qed
qed simp

lemma union_row_spec:
  assumes "set row \<subseteq> {..<n}" "set acc = S" "distinct acc"
  shows "\<exists>acc'. union_row row (seen_of n S, acc) = (seen_of n (S \<union> set row), acc') \<and> set acc' = S \<union> set row \<and> distinct acc'"
  using assms
proof (induction row arbitrary: S acc)
  case (Cons e row)
  then have e: "e < n" "seen_of n S ! e \<longleftrightarrow> e \<in> S" by (auto simp: seen_of_def)
  show ?case
  proof (cases "e \<in> S")
    case True
    then show ?thesis using Cons.IH[of acc S] Cons.prems e by (auto simp: insert_absorb)
  next
    case False
    then show ?thesis
      using Cons.IH[of "acc @ [e]" "insert e S"] Cons.prems e by (auto simp: seen_of_update)
  qed
qed simp

lemma plan_list_spec:
  assumes "\<forall>row\<in>set sel. set row \<subseteq> {..<n}"
  shows "set (plan_list n sel) = set (concat sel)" "distinct (plan_list n sel)"
proof -
  have "\<exists>acc'. fold union_row sel (seen_of n S, acc) = (seen_of n (S \<union> set (concat sel)), acc') \<and>
      set acc' = S \<union> set (concat sel) \<and> distinct acc'" if "set acc = S" "distinct acc" for S acc
    using that assms
  proof (induction sel arbitrary: S acc)
    case (Cons row sel)
    from union_row_spec[of row n acc S] Cons.prems obtain acc1 where
      "union_row row (seen_of n S, acc) = (seen_of n (S \<union> set row), acc1)" "set acc1 = S \<union> set row" "distinct acc1" by auto
    with Cons.IH[of acc1 "S \<union> set row"] Cons.prems show ?case by (auto simp: Un_assoc)
  qed simp
  from this[of "[]" "{}"] show "set (plan_list n sel) = set (concat sel)" "distinct (plan_list n sel)"
    by (auto simp: plan_list_def seen_of_empty)
qed

subsection \<open>Every request of a layer fits\<close>

lemma fold_min_init:
  fixes f :: "'r \<Rightarrow> int"
  shows "fold (\<lambda>r acc. min acc (f r)) rs a \<le> a"
proof (induction rs arbitrary: a)
  case (Cons r rs)
  from Cons[of "min a (f r)"] show ?case by simp
qed simp

lemma fold_min_le:
  fixes f :: "'r \<Rightarrow> int"
  shows "r \<in> set rs \<Longrightarrow> fold (\<lambda>r acc. min acc (f r)) rs a \<le> f r"
proof (induction rs arbitrary: a)
  case (Cons x rs)
  then show ?case using fold_min_init[of f rs "min a (f x)"] by auto
qed simp

lemma in_roles: "r \<in> set roles"
  by (cases r) (simp_all add: roles_def)

lemma capacity_le:
  "serves c il \<Longrightarrow> capacity c il \<le> (if ec_quota_on c \<and> pl_quota (pool_at c r il) ! il \<ge> 0
     then max (pl_quota (pool_at c r il) ! il) (int (ec_n_used c)) else int (pl_n_slots (pool_at c r il)))"
  using fold_min_le[OF in_roles[of r]] by (simp only: capacity_def Let_def if_False not_not simp_thms)

lemma quota_of_le:
  "serves c il \<Longrightarrow> quota_of c il \<le>
     (if pl_quota (pool_at c r il) ! il \<ge> 0 then pl_quota (pool_at c r il) ! il else int (pl_n_slots (pool_at c r il)))"
  using fold_min_le[OF in_roles[of r]] by (simp only: quota_of_def Let_def if_False not_not simp_thms)

lemma set_quotas_simps:
  "ec_n_layer (set_quotas on c) = ec_n_layer c" "ec_n_expert (set_quotas on c) = ec_n_expert c"
  "ec_n_used (set_quotas on c) = ec_n_used c" "ec_ssd (set_quotas on c) = ec_ssd c"
  "ec_quota_on (set_quotas on c) = on" "ec_pools (set_quotas on c) = ec_pools c"
  "ec_layer_pool (set_quotas on c) = ec_layer_pool c" "ec_clock (set_quotas on c) = ec_clock c"
  "serves (set_quotas on c) = serves c" "pool_at (set_quotas on c) = pool_at c" "quota_of (set_quotas on c) = quota_of c"
  by (simp_all add: set_quotas_def fun_eq_iff serves_def pool_at_def pool_ix_def quota_of_def)

lemma set_quotas_inv [wf_intros]: "ec_inv m P c \<Longrightarrow> ec_inv m P (set_quotas on c)"
  unfolding ec_inv_def ec_static_def ec_dyn_def data_ok_def by (simp add: set_quotas_simps)

text \<open>What a batch needs: rows of valid experts, and pools that hold one token's selection.\<close>

definition batch_pre :: "'b wsource \<Rightarrow> 'b ecache \<Rightarrow> nat \<Rightarrow> nat list list \<Rightarrow> bool" where
  "batch_pre m c il sel \<longleftrightarrow> serves c il \<and>
     (\<forall>row\<in>set sel. length row = ec_n_used c \<and> set row \<subseteq> {..<ec_n_expert c}) \<and>
     (\<forall>r. ec_n_used c \<le> pl_n_slots (pool_at c r il) \<and>
        pl_quota (pool_at c r il) ! il \<le> int (pl_n_slots (pool_at c r il))) \<and>
     (\<forall>r. \<forall>e < ec_n_expert c. expert_slab m (ec_ssd c) r il e \<noteq> None)"

lemma request_fits:
  assumes pre: "batch_pre m c il sel" and c1: "c1 = set_quotas (quota_choice il sel c) c"
    and sub: "set ids \<subseteq> set (concat sel)"
    and bound: "int (card (set ids)) \<le> max (int (ec_n_used c)) (capacity c1 il - 8)"
  shows "ec_fits m c1 il ids"
proof -
  let ?u = "plan_list (ec_n_expert c) sel"
  have sv: "serves c il" using pre by (simp add: batch_pre_def)
  have rows: "\<forall>row\<in>set sel. set row \<subseteq> {..<ec_n_expert c}" using pre by (simp add: batch_pre_def)
  then have ids: "\<forall>e\<in>set ids. e < ec_n_expert c" using sub by fastforce
  have "card (set ids) \<le> card (set ?u)"
    using sub plan_list_spec(1)[OF rows] by (intro card_mono) auto
  then have cu: "card (set ids) \<le> length ?u" using distinct_card[OF plan_list_spec(2)[OF rows]] by simp
  have "card (set ids) \<le> safe_slots (ec_quota_on c1) (pool_at c1 r il) il" for r
  proof -
    have p: "ec_n_used c \<le> pl_n_slots (pool_at c r il)" "pl_quota (pool_at c r il) ! il \<le> int (pl_n_slots (pool_at c r il))"
      using pre by (auto simp: batch_pre_def)
    show ?thesis
    proof (cases "quota_choice il sel c")
      case True
      then have "int (card (set ids)) \<le> quota_of c il" using cu by (simp add: quota_choice_def)
      with quota_of_le[OF sv, of r] p(2) show ?thesis
        by (auto simp: c1 set_quotas_simps safe_slots_def le_nat_iff split: if_splits)
    next
      case False
      have "capacity c1 il \<le> int (pl_n_slots (pool_at c r il))"
        using capacity_le[of c1 il r] sv False by (simp add: c1 set_quotas_simps)
      with bound p(1) have "card (set ids) \<le> pl_n_slots (pool_at c r il)" by simp
      then show ?thesis using False by (simp add: c1 set_quotas_simps safe_slots_def)
    qed
  qed
  then show ?thesis
    using sv ids pre by (auto simp: ec_fits_def room_def c1 set_quotas_simps batch_pre_def)
qed

lemma plan_slices_spec:
  assumes pre: "batch_pre m c il sel" and ms: "0 < ms" and plan: "plan_slices ms il sel c = (slices, c1)"
  shows "c1 = set_quotas (quota_choice il sel c) c"
    "\<exists>chs. slices = positions 0 chs \<and> concat chs = sel \<and>
       (\<forall>ch\<in>set chs. chunk_ok (nat (max (int (ec_n_used c)) (capacity c1 il - 8))) ms ch)"
proof -
  show c1: "c1 = set_quotas (quota_choice il sel c) c" using plan by (simp add: plan_slices_def Let_def)
  let ?cap = "nat (max (int (ec_n_used c)) (capacity c1 il - 8))"
  have rows: "\<forall>row\<in>set sel. set row \<subseteq> {..<ec_n_expert c} \<and> card (set row) \<le> ?cap"
  proof
    fix row assume "row \<in> set sel"
    then have "length row = ec_n_used c" "set row \<subseteq> {..<ec_n_expert c}" using pre by (auto simp: batch_pre_def)
    then show "set row \<subseteq> {..<ec_n_expert c} \<and> card (set row) \<le> ?cap" using card_length[of row] by (simp add: le_nat_iff)
  qed
  have "slices = cut (ec_n_expert c) ?cap ms sel 0 0 (replicate (ec_n_expert c) False) 0"
    using plan by (auto simp: plan_slices_def Let_def)
  with cut_spec[OF ms rows, of 0 0 "[]"]
  show "\<exists>chs. slices = positions 0 chs \<and> concat chs = sel \<and> (\<forall>ch\<in>set chs. chunk_ok ?cap ms ch)"
    by (simp add: seen_of_empty chunk_ok_def)
qed

text \<open>
  Slicing is lossless: the slices cover the batch in order without gap or overlap, none is longer
  than the length cap, and none references more distinct experts than one \<open>ensure\<close> call may.
\<close>

theorem plan_slices_tile:
  assumes "batch_pre m c il sel" "0 < ms"
  shows "\<exists>chs. fst (plan_slices ms il sel c) = positions 0 chs \<and> concat chs = sel \<and>
    map (slice_ids sel) (fst (plan_slices ms il sel c)) = map concat chs \<and>
    (\<forall>ch\<in>set chs. length ch \<le> ms \<and>
       int (card (set (concat ch))) \<le> max (int (ec_n_used c)) (capacity (snd (plan_slices ms il sel c)) il - 8))"
proof -
  obtain slices c1 where plan: "plan_slices ms il sel c = (slices, c1)" by (cases "plan_slices ms il sel c")
  from plan_slices_spec(2)[OF assms plan] obtain chs where chs: "slices = positions 0 chs" "concat chs = sel"
    "\<forall>ch\<in>set chs. chunk_ok (nat (max (int (ec_n_used c)) (capacity c1 il - 8))) ms ch" by blast
  have "map (slice_ids (pre @ concat chs)) (positions (length pre) chs) = map concat chs" for pre :: "nat list list" and chs
  proof (induction chs arbitrary: pre)
    case (Cons ch chs)
    from Cons.IH[of "pre @ ch"] show ?case by (simp add: slice_ids_def)
  qed simp
  from this[of "[]" chs] have "map (slice_ids sel) slices = map concat chs" using chs by simp
  then show ?thesis using plan chs by (intro exI[of _ chs]) (auto simp: chunk_ok_def le_nat_iff)
qed

text \<open>
  C6. Prefill of a mixture-of-experts layer, on the layer-major path, always feeds the right weights: for any selection of the
  router, whatever is resident and whatever the quotas are, every \<open>ensure\<close> of the layer (the whole
  union and each slice) returns, and while its slice is computed all its slots hold the slabs of the
  selected experts.
\<close>

theorem prefill_layer_correct:
  assumes inv: "ec_inv m {} c" and pre: "batch_pre m c il sel" and ms: "0 < ms"
  shows "\<exists>os c'. prefill_layer m ms il sel c = (Inr os, c') \<and> ec_inv m {} c' \<and>
    list_all2 (\<lambda>q (outs, t). ec_good m t (fst q) (snd q) outs)
      (layer_requests il sel (fst (plan_slices ms il sel c)) (snd (plan_slices ms il sel c))) os"
proof -
  obtain slices c1 where plan: "plan_slices ms il sel c = (slices, c1)" by (cases "plan_slices ms il sel c")
  note spec = plan_slices_spec[OF pre ms plan]
  from spec(2) obtain chs where chs: "slices = positions 0 chs" "concat chs = sel"
    "\<forall>ch\<in>set chs. chunk_ok (nat (max (int (ec_n_used c)) (capacity c1 il - 8))) ms ch" by blast
  have inv1: "ec_inv m {} c1" unfolding spec(1) by (rule set_quotas_inv[OF inv])
  have rows: "\<forall>row\<in>set sel. set row \<subseteq> {..<ec_n_expert c}" using pre by (simp add: batch_pre_def)
  note pl = plan_list_spec[OF rows]
  have "ec_fits m c1 (fst q) (snd q)" if "q \<in> set (layer_requests il sel slices c1)" for q
  proof -
    from that consider (all) "q = (il, plan_list (ec_n_expert c1) sel)"
        "int (length (plan_list (ec_n_expert c1) sel)) \<le> capacity c1 il - 8"
      | (slice) s where "s \<in> set slices" "q = (il, slice_ids sel s)"
      by (auto simp: layer_requests_def Let_def split: if_splits)
    then show ?thesis
    proof cases
      case all
      then show ?thesis
        using request_fits[OF pre spec(1), of "plan_list (ec_n_expert c1) sel"] pl distinct_card[OF pl(2)]
        by (simp add: spec(1) set_quotas_simps)
    next
      case slice
      obtain p l where s: "s = (p, l)" by (cases s)
      from positions_slices[of p l 0 chs "[]"] slice(1) chs s obtain ch where
        ch: "ch \<in> set chs" "take l (drop p sel) = ch" by auto
      have "set (concat ch) \<subseteq> set (concat sel)" using ch(1) unfolding chs(2)[symmetric] by (simp, blast)
      moreover have "int (card (set (concat ch))) \<le> max (int (ec_n_used c)) (capacity c1 il - 8)"
        using chs(3) ch(1) by (auto simp: chunk_ok_def le_nat_iff)
      ultimately show ?thesis
        using request_fits[OF pre spec(1), of "concat ch"] slice(2) s ch(2) by (simp add: slice_ids_def)
    qed
  qed
  from ec.requests_ok[OF inv1 this] show ?thesis
    using plan by (simp add: prefill_layer_def ec.get_and_run_def[abs_def] cong: sum.case_cong)
qed

subsection \<open>An instance\<close>

lemma demo_batch: "batch_pre demo_src demo_used 0 [[3, 1], [0, 2], [1, 0]]"
proof -
  have "list_all (\<lambda>r. pl_n_slots (pool_at demo_used r 0) = 2 \<and> pl_quota (pool_at demo_used r 0) ! 0 = - 1) roles"
    by code_simp
  then have "pl_n_slots (pool_at demo_used r 0) = 2 \<and> pl_quota (pool_at demo_used r 0) ! 0 = - 1" for r
    using in_roles[of r] by (simp add: list_all_iff)
  then show ?thesis
    using demo_ok(2) by (auto simp: batch_pre_def demo_used_shape)
qed

theorem plan_slices_tile_witness:
  "\<exists>chs. fst (plan_slices 1024 0 [[3, 1], [0, 2], [1, 0]] demo_used) = positions 0 chs \<and> concat chs = [[3, 1], [0, 2], [1, 0::nat]]"
proof -
  have "(0::nat) < 1024" by simp
  from plan_slices_tile[OF demo_batch this] show ?thesis by blast
qed

theorem prefill_layer_correct_witness:
  "\<exists>os c'. prefill_layer demo_src 1024 0 [[3, 1], [0, 2], [1, 0]] demo_used = (Inr os, c') \<and> ec_inv demo_src {} c'"
proof -
  have "(0::nat) < 1024" by simp
  from prefill_layer_correct[OF demo_used_ok demo_batch this] show ?thesis by blast
qed

end
