(* ===== verification/Ticket_Lock.thy ===== *)
theory Ticket_Lock
  imports QW_Prelude
begin

section \<open>The server's ticket lock\<close>

text \<open>
  \<open>TicketLock\<close> of \<open>server/main.cpp\<close>. Its fields are guarded by the mutex \<open>m\<close>, so every piece of code
  between taking and releasing \<open>m\<close> is one atomic step: drawing a ticket (the first half of \<open>lock\<close> and
  \<open>lock_for\<close>), leaving the wait because the ticket is served, leaving it by timeout, and \<open>unlock\<close>.
  The threads are part of the state: a thread is idle, waits with a ticket (bounded or not) or holds
  the lock with one. A thread that finds its ticket served at once takes two steps here where the
  code takes one; that only adds interleavings. Ticket numbers are unbounded (the code's have 64 bits).
\<close>

subsection \<open>State machines\<close>

text \<open>Reachability and the invariant rule, for any transition system.\<close>

locale transition_system =
  fixes init :: "'s \<Rightarrow> bool" and step :: "'s \<Rightarrow> 's \<Rightarrow> bool"
begin

inductive reachable :: "'s \<Rightarrow> bool" where
  start: "init s \<Longrightarrow> reachable s"
| move: "reachable s \<Longrightarrow> step s s' \<Longrightarrow> reachable s'"

lemma invariant_rule:
  assumes "\<And>s. init s \<Longrightarrow> I s" "\<And>s s'. I s \<Longrightarrow> step s s' \<Longrightarrow> I s'" "reachable s"
  shows "I s"
  using assms(3) by induction (use assms(1,2) in blast)+

end

subsection \<open>The lock\<close>

record tlock =
  tl_next :: nat
  tl_serving :: nat
  tl_waiting :: int
  tl_dead :: "nat list"

definition TicketLock :: tlock where
  "TicketLock = \<lparr>tl_next = 0, tl_serving = 0, tl_waiting = 0, tl_dead = []\<rparr>"

definition draw :: "tlock \<Rightarrow> nat \<times> tlock" where
  "draw l = (tl_next l, l\<lparr>tl_next := tl_next l + 1, tl_waiting := tl_waiting l + 1\<rparr>)"

definition served :: "tlock \<Rightarrow> nat \<Rightarrow> bool" where
  "served l t = (tl_serving l = t)"

definition leave_wait :: "bool \<Rightarrow> nat \<Rightarrow> tlock \<Rightarrow> tlock" where
  "leave_wait got t l =
     l\<lparr>tl_waiting := tl_waiting l - 1, tl_dead := (if got then tl_dead l else List.insert t (tl_dead l))\<rparr>"

function skip_dead :: "nat \<Rightarrow> nat list \<Rightarrow> nat \<times> nat list" where
  "skip_dead s d = (if s \<in> set d then skip_dead (s + 1) (removeAll s d) else (s, d))"
  by pat_completeness auto
termination
  by (relation "measure (\<lambda>(s, d). length d)") (auto simp: length_removeAll_less)

declare skip_dead.simps [simp del]

definition unlock :: "tlock \<Rightarrow> tlock" where
  "unlock l = (case skip_dead (tl_serving l + 1) (tl_dead l) of (s, d) \<Rightarrow> l\<lparr>tl_serving := s, tl_dead := d\<rparr>)"

definition contended :: "tlock \<Rightarrow> bool" where "contended l = (tl_waiting l > 0)"

definition busy :: "tlock \<Rightarrow> bool" where "busy l = (tl_next l > tl_serving l)"

subsection \<open>Threads that use it\<close>

datatype tstate = Idle | Waiting bool nat | Holding nat

record 'tid tsys =
  ts_lock :: tlock
  ts_thr :: "'tid \<Rightarrow> tstate"

inductive tstep :: "'tid tsys \<Rightarrow> 'tid tsys \<Rightarrow> bool" where
  t_draw: "ts_thr s i = Idle \<Longrightarrow> draw (ts_lock s) = (t, l) \<Longrightarrow>
     tstep s \<lparr>ts_lock = l, ts_thr = (ts_thr s)(i := Waiting bounded t)\<rparr>"
| t_acquire: "ts_thr s i = Waiting bounded t \<Longrightarrow> served (ts_lock s) t \<Longrightarrow>
     tstep s \<lparr>ts_lock = leave_wait True t (ts_lock s), ts_thr = (ts_thr s)(i := Holding t)\<rparr>"
| t_timeout: "ts_thr s i = Waiting True t \<Longrightarrow> \<not> served (ts_lock s) t \<Longrightarrow>
     tstep s \<lparr>ts_lock = leave_wait False t (ts_lock s), ts_thr = (ts_thr s)(i := Idle)\<rparr>"
| t_unlock: "ts_thr s i = Holding t \<Longrightarrow>
     tstep s \<lparr>ts_lock = unlock (ts_lock s), ts_thr = (ts_thr s)(i := Idle)\<rparr>"

inductive_cases tstepE: "tstep s s'"

definition tinit :: "'tid tsys \<Rightarrow> bool" where
  "tinit s \<longleftrightarrow> s = \<lparr>ts_lock = TicketLock, ts_thr = \<lambda>_. Idle\<rparr>"

interpretation tl: transition_system tinit tstep .

subsection \<open>The invariant\<close>

definition has_ticket :: "'tid tsys \<Rightarrow> 'tid \<Rightarrow> nat \<Rightarrow> bool" where
  "has_ticket s i t \<longleftrightarrow> ts_thr s i = Holding t \<or> (\<exists>b. ts_thr s i = Waiting b t)"

definition waiters :: "'tid tsys \<Rightarrow> 'tid set" where
  "waiters s = {i. \<exists>b t. ts_thr s i = Waiting b t}"

text \<open>
  Every ticket between the served one and the next is owned by exactly one thread or abandoned; the
  served one is never abandoned, and only it can be held.
\<close>

definition tinv :: "'tid tsys \<Rightarrow> bool" where
  "tinv s \<longleftrightarrow>
     tl_serving (ts_lock s) \<le> tl_next (ts_lock s) \<and>
     (\<forall>i t. has_ticket s i t \<longrightarrow> tl_serving (ts_lock s) \<le> t \<and> t < tl_next (ts_lock s) \<and> t \<notin> set (tl_dead (ts_lock s))) \<and>
     (\<forall>i j t. has_ticket s i t \<longrightarrow> has_ticket s j t \<longrightarrow> i = j) \<and>
     (\<forall>i t. ts_thr s i = Holding t \<longrightarrow> t = tl_serving (ts_lock s)) \<and>
     (\<forall>t. tl_serving (ts_lock s) \<le> t \<longrightarrow> t < tl_next (ts_lock s) \<longrightarrow>
        t \<in> set (tl_dead (ts_lock s)) \<or> (\<exists>i. has_ticket s i t)) \<and>
     (\<forall>t \<in> set (tl_dead (ts_lock s)). tl_serving (ts_lock s) < t \<and> t < tl_next (ts_lock s)) \<and>
     finite (waiters s) \<and> tl_waiting (ts_lock s) = int (card (waiters s))"

lemma skip_dead_spec:
  assumes "skip_dead s d = (s', d')"
  shows "s \<le> s'" "s' \<notin> set d" "\<And>t. s \<le> t \<Longrightarrow> t < s' \<Longrightarrow> t \<in> set d" "set d' = set d - {s..<s'}"
proof -
  have "s \<le> s' \<and> s' \<notin> set d \<and> (\<forall>t. s \<le> t \<longrightarrow> t < s' \<longrightarrow> t \<in> set d) \<and> set d' = set d - {s..<s'}"
    using assms
  proof (induction s d rule: skip_dead.induct)
    case (1 s d)
    show ?case
    proof (cases "s \<in> set d")
      case True
      then have "skip_dead (s + 1) (removeAll s d) = (s', d')" using 1(2) by (subst (asm) skip_dead.simps) simp
      from 1(1)[OF True this] True show ?thesis
        by (auto simp: Suc_le_eq) (metis le_neq_implies_less)+
    next
      case False
      then show ?thesis using 1(2) by (subst (asm) skip_dead.simps) auto
    qed
  qed
  then show "s \<le> s'" "s' \<notin> set d" "\<And>t. s \<le> t \<Longrightarrow> t < s' \<Longrightarrow> t \<in> set d" "set d' = set d - {s..<s'}" by blast+
qed

lemma tinvD:
  assumes "tinv s"
  shows "tl_serving (ts_lock s) \<le> tl_next (ts_lock s)"
    "\<And>i t. has_ticket s i t \<Longrightarrow> tl_serving (ts_lock s) \<le> t \<and> t < tl_next (ts_lock s) \<and> t \<notin> set (tl_dead (ts_lock s))"
    "\<And>i j t. has_ticket s i t \<Longrightarrow> has_ticket s j t \<Longrightarrow> i = j"
    "\<And>i t. ts_thr s i = Holding t \<Longrightarrow> t = tl_serving (ts_lock s)"
    "\<And>t. tl_serving (ts_lock s) \<le> t \<Longrightarrow> t < tl_next (ts_lock s) \<Longrightarrow>
       t \<in> set (tl_dead (ts_lock s)) \<or> (\<exists>i. has_ticket s i t)"
    "\<And>t. t \<in> set (tl_dead (ts_lock s)) \<Longrightarrow> tl_serving (ts_lock s) < t \<and> t < tl_next (ts_lock s)"
    "finite (waiters s)" "tl_waiting (ts_lock s) = int (card (waiters s))"
  using assms unfolding tinv_def by blast+

lemma has_ticket_upd:
  "has_ticket \<lparr>ts_lock = l, ts_thr = (ts_thr s)(i := x)\<rparr> j t =
     (if j = i then x = Holding t \<or> (\<exists>b. x = Waiting b t) else has_ticket s j t)"
  by (simp add: has_ticket_def)

lemma waiters_upd:
  "waiters \<lparr>ts_lock = l, ts_thr = (ts_thr s)(i := x)\<rparr> =
     (case x of Waiting b t \<Rightarrow> insert i (waiters s) | _ \<Rightarrow> waiters s - {i})"
  by (cases x) (auto simp: waiters_def)

lemma not_waiter: "ts_thr s i = Idle \<or> (\<exists>t. ts_thr s i = Holding t) \<Longrightarrow> i \<notin> waiters s"
  by (auto simp: waiters_def)

lemma owner_has: "ts_thr s i = Idle \<Longrightarrow> \<not> has_ticket s i t" "ts_thr s i = Waiting b t \<Longrightarrow> has_ticket s i t' \<longleftrightarrow> t' = t"
  "ts_thr s i = Holding t \<Longrightarrow> has_ticket s i t' \<longleftrightarrow> t' = t"
  by (auto simp: has_ticket_def)

lemma card_waiter: "finite (waiters s) \<Longrightarrow> ts_thr s i = Waiting b t \<Longrightarrow> card (waiters s) = card (waiters s - {i}) + 1"
  using card_Suc_Diff1[of "waiters s" i] by (force simp: waiters_def)

lemma tinv_draw:
  assumes inv: "tinv s" and idle: "ts_thr s i = Idle" and d: "draw (ts_lock s) = (t, l)"
  shows "tinv \<lparr>ts_lock = l, ts_thr = (ts_thr s)(i := Waiting b t)\<rparr>" (is "tinv ?s")
proof -
  note I = tinvD[OF inv]
  have t: "t = tl_next (ts_lock s)" "tl_next l = t + 1" "tl_serving l = tl_serving (ts_lock s)"
    "tl_dead l = tl_dead (ts_lock s)" "tl_waiting l = tl_waiting (ts_lock s) + 1"
    using d by (auto simp: draw_def)
  have ht: "has_ticket ?s j t' \<longleftrightarrow> (if j = i then t' = t else has_ticket s j t')" for j t'
    by (auto simp: has_ticket_upd)
  have fresh: "\<not> has_ticket s j t" for j using I(2)[of j t] t(1) by auto
  have dead: "t \<notin> set (tl_dead l)" using I(6)[of t] t by auto
  have "t' \<in> set (tl_dead l) \<or> (\<exists>j. has_ticket ?s j t')" if "tl_serving l \<le> t'" "t' < tl_next l" for t'
  proof (cases "t' = t")
    case True
    then show ?thesis unfolding ht by auto
  next
    case False
    with I(5)[of t'] that t obtain j where "t' \<in> set (tl_dead l) \<or> has_ticket s j t'" by auto
    with owner_has(1)[OF idle] show ?thesis unfolding ht by metis
  qed
  moreover have "tl_serving l \<le> t' \<and> t' < tl_next l \<and> t' \<notin> set (tl_dead l)" if "has_ticket ?s j t'" for j t'
    using that I(1) I(2)[of j t'] t dead unfolding ht by (auto split: if_splits)
  moreover have "j = k" if "has_ticket ?s j t'" "has_ticket ?s k t'" for j k t'
    using that I(3)[of j t' k] fresh unfolding ht by (auto split: if_splits)
  moreover have "card (insert i (waiters s)) = card (waiters s) + 1" using not_waiter[of s i] idle I(7) by simp
  ultimately show ?thesis
    using I(1,4,6,7,8) t unfolding tinv_def waiters_upd by (simp add: less_SucI)
qed

lemma tinv_acquire:
  assumes inv: "tinv s" and w: "ts_thr s i = Waiting b t" and sv: "served (ts_lock s) t"
  shows "tinv \<lparr>ts_lock = leave_wait True t (ts_lock s), ts_thr = (ts_thr s)(i := Holding t)\<rparr>"
proof -
  note I = tinvD[OF inv]
  have same: "has_ticket \<lparr>ts_lock = l, ts_thr = (ts_thr s)(i := Holding t)\<rparr> j t' = has_ticket s j t'" for l j t'
    using owner_has(2)[OF w] by (auto simp: has_ticket_upd)
  show ?thesis
    using I card_waiter[OF I(7) w] sv unfolding tinv_def same waiters_upd leave_wait_def served_def by simp
qed

lemma tinv_timeout:
  assumes inv: "tinv s" and w: "ts_thr s i = Waiting b t" and sv: "\<not> served (ts_lock s) t"
  shows "tinv \<lparr>ts_lock = leave_wait False t (ts_lock s), ts_thr = (ts_thr s)(i := Idle)\<rparr>" (is "tinv ?s")
proof -
  note I = tinvD[OF inv]
  have ht: "has_ticket \<lparr>ts_lock = l, ts_thr = (ts_thr s)(i := Idle)\<rparr> j t' \<longleftrightarrow> j \<noteq> i \<and> has_ticket s j t'" for l j t'
    by (simp add: has_ticket_upd)
  have own: "has_ticket s i t" using owner_has(2)[OF w] by simp
  have other: "t' \<noteq> t" if "j \<noteq> i" "has_ticket s j t'" for j t' using I(3)[OF own] that by blast
  have "tl_serving (ts_lock s) < t \<and> t < tl_next (ts_lock s)" using I(2)[OF own] sv by (auto simp: served_def)
  moreover have "t' \<in> insert t (set (tl_dead (ts_lock s))) \<or> (\<exists>j. j \<noteq> i \<and> has_ticket s j t')"
    if "tl_serving (ts_lock s) \<le> t'" "t' < tl_next (ts_lock s)" for t'
    using I(5)[OF that] owner_has(2)[OF w] by (metis insertCI)
  moreover have "tl_serving (ts_lock s) \<le> t' \<and> t' < tl_next (ts_lock s) \<and> t' \<notin> insert t (set (tl_dead (ts_lock s)))"
    if "j \<noteq> i \<and> has_ticket s j t'" for j t'
    using I(2)[of j t'] other that by blast
  moreover have "\<forall>j k t'. j \<noteq> i \<and> has_ticket s j t' \<longrightarrow> k \<noteq> i \<and> has_ticket s k t' \<longrightarrow> j = k"
    using I(3) by blast
  ultimately show ?thesis
    using I(1,4,6,7,8) card_waiter[OF I(7) w] unfolding tinv_def ht waiters_upd leave_wait_def by simp
qed

lemma tinv_unlock:
  assumes inv: "tinv s" and h: "ts_thr s i = Holding t"
  shows "tinv \<lparr>ts_lock = unlock (ts_lock s), ts_thr = (ts_thr s)(i := Idle)\<rparr>" (is "tinv ?s")
proof -
  note I = tinvD[OF inv]
  let ?l = "ts_lock s"
  obtain s' d' where sk: "skip_dead (tl_serving ?l + 1) (tl_dead ?l) = (s', d')"
    by (cases "skip_dead (tl_serving ?l + 1) (tl_dead ?l)")
  note sd = skip_dead_spec[OF sk]
  have l': "tl_serving (unlock ?l) = s'" "tl_dead (unlock ?l) = d'" "tl_next (unlock ?l) = tl_next ?l"
    "tl_waiting (unlock ?l) = tl_waiting ?l" unfolding unlock_def sk by simp_all
  have ht: "has_ticket \<lparr>ts_lock = l, ts_thr = (ts_thr s)(i := Idle)\<rparr> j t' \<longleftrightarrow> j \<noteq> i \<and> has_ticket s j t'" for l j t'
    by (simp add: has_ticket_upd)
  have t: "t = tl_serving ?l" using I(4)[OF h] .
  have own: "has_ticket s i t" using owner_has(3)[OF h] by simp
  have lt: "tl_serving ?l < tl_next ?l" using I(2)[OF own] t by simp
  have le: "s' \<le> tl_next ?l"
  proof (rule ccontr)
    assume "\<not> s' \<le> tl_next ?l"
    then have "tl_next ?l \<in> set (tl_dead ?l)" using sd(3)[of "tl_next ?l"] lt by simp
    then show False using I(6) by blast
  qed
  have above: "s' \<le> t' \<and> t' \<notin> set d'" if "j \<noteq> i" "has_ticket s j t'" for j t'
  proof -
    have "t' \<noteq> t" using I(3)[OF own] that by blast
    with I(2)[OF that(2)] t have "tl_serving ?l + 1 \<le> t'" "t' \<notin> set (tl_dead ?l)" by auto
    with sd(3)[of t'] sd(4) show ?thesis by (metis DiffD1 not_le)
  qed
  have "t' \<in> set d' \<or> (\<exists>j. j \<noteq> i \<and> has_ticket s j t')" if "s' \<le> t'" "t' < tl_next ?l" for t'
  proof -
    have "tl_serving ?l \<le> t'" "t' \<noteq> t" using that sd(1) t by auto
    with I(5)[of t'] that owner_has(3)[OF h] have "t' \<in> set (tl_dead ?l) \<or> (\<exists>j. j \<noteq> i \<and> has_ticket s j t')" by metis
    with sd(4) that show ?thesis by auto
  qed
  moreover have "s' < t' \<and> t' < tl_next ?l" if "t' \<in> set d'" for t'
    using that sd(2,4) I(6)[of t'] sd(1) by (auto simp: not_less order.order_iff_strict)
  moreover have "waiters s - {i} = waiters s" using h by (auto simp: waiters_def)
  moreover have "ts_thr s j \<noteq> Holding t'" if "j \<noteq> i" for j t'
  proof
    assume "ts_thr s j = Holding t'"
    with I(4)[OF this] t have "has_ticket s j t" by (simp add: has_ticket_def)
    with I(3)[OF own] that show False by blast
  qed
  moreover have "s' \<le> t' \<and> t' < tl_next ?l \<and> t' \<notin> set d'" if "j \<noteq> i \<and> has_ticket s j t'" for j t'
    using above I(2)[of j t'] that by blast
  moreover have "\<forall>j k t'. j \<noteq> i \<and> has_ticket s j t' \<longrightarrow> k \<noteq> i \<and> has_ticket s k t' \<longrightarrow> j = k"
    using I(3) by blast
  ultimately show ?thesis
    using le I(7,8) unfolding tinv_def ht waiters_upd by (simp add: l')
qed

lemma tinv_reachable: "tl.reachable s \<Longrightarrow> tinv s"
proof (rule tl.invariant_rule[of tinv])
  show "tinv s" if "tinit s" for s :: "'a tsys"
    using that by (auto simp: tinit_def tinv_def TicketLock_def has_ticket_def waiters_def)
  show "tinv s'" if "tinv s" "tstep s s'" for s s' :: "'a tsys"
    using that(2) that(1) by cases (auto intro: tinv_draw tinv_acquire tinv_timeout tinv_unlock)
qed

subsection \<open>What the server relies on\<close>

text \<open>
  C8. Mutual exclusion: in every interleaving of any number of threads that lock, wait with a
  timeout and unlock, at most one thread holds the runtime.
\<close>

theorem ticket_lock_mutex:
  assumes "tl.reachable s" "ts_thr s i = Holding t" "ts_thr s j = Holding t'"
  shows "i = j"
proof -
  note I = tinvD[OF tinv_reachable[OF assms(1)]]
  have "t = t'" using I(4)[OF assms(2)] I(4)[OF assms(3)] by simp
  with assms show ?thesis by (intro I(3)[of i t j]) (simp_all add: has_ticket_def)
qed

text \<open>
  C18. No lost ticket: when some thread waits, either the lock is held, or a waiting thread (the one
  with the served ticket) can take it now. Abandoned tickets never block the queue, and \<open>busy\<close> and
  \<open>contended\<close> report exactly whether a fresh request would queue and whether somebody waits.
\<close>

theorem ticket_lock_progress:
  assumes "tl.reachable s"
  shows "(busy (ts_lock s) \<longleftrightarrow> (\<exists>i t. ts_thr s i = Holding t) \<or>
      (\<exists>i b t. ts_thr s i = Waiting b t \<and> served (ts_lock s) t)) \<and>
    (contended (ts_lock s) \<longleftrightarrow> (\<exists>i b t. ts_thr s i = Waiting b t)) \<and>
    (contended (ts_lock s) \<longrightarrow>
      (\<exists>j u. ts_thr s j = Holding u) \<or> (\<exists>j c u. ts_thr s j = Waiting c u \<and> served (ts_lock s) u))"
proof -
  note I = tinvD[OF tinv_reachable[OF assms]]
  have owner: "(\<exists>i t. ts_thr s i = Holding t) \<or> (\<exists>i b t. ts_thr s i = Waiting b t \<and> served (ts_lock s) t)"
    if "tl_serving (ts_lock s) < tl_next (ts_lock s)"
    using I(5)[of "tl_serving (ts_lock s)"] that I(6)[of "tl_serving (ts_lock s)"] by (auto simp: has_ticket_def served_def)
  have has: "tl_serving (ts_lock s) < tl_next (ts_lock s)" if "has_ticket s i t" for i t
    using I(2)[OF that] by linarith
  have "busy (ts_lock s) \<longleftrightarrow> (\<exists>i t. ts_thr s i = Holding t) \<or>
      (\<exists>i b t. ts_thr s i = Waiting b t \<and> served (ts_lock s) t)"
    using owner has by (fastforce simp: busy_def has_ticket_def)
  moreover have c: "contended (ts_lock s) \<longleftrightarrow> (\<exists>i b t. ts_thr s i = Waiting b t)"
    using I(7,8) by (auto simp: contended_def card_gt_0_iff waiters_def)
  moreover have "contended (ts_lock s) \<longrightarrow>
      (\<exists>j u. ts_thr s j = Holding u) \<or> (\<exists>j c u. ts_thr s j = Waiting c u \<and> served (ts_lock s) u)"
    using owner has unfolding c by (fastforce simp: has_ticket_def)
  ultimately show ?thesis by blast
qed

text \<open>
  First come, first served: a thread that takes the lock holds the smallest ticket of all threads
  still in the queue, so nobody is overtaken.
\<close>

theorem ticket_lock_fifo:
  assumes "tl.reachable s" "ts_thr s i = Waiting b t" "served (ts_lock s) t" "ts_thr s j = Waiting c u" "j \<noteq> i"
  shows "t < u"
proof -
  note I = tinvD[OF tinv_reachable[OF assms(1)]]
  have h: "has_ticket s i t" "has_ticket s j u" using assms by (auto simp: has_ticket_def)
  have "t \<le> u" using I(2)[OF h(2)] assms(3) by (simp add: served_def)
  moreover have "u \<noteq> t" using I(3)[OF h(1)] h(2) assms(5) by blast
  ultimately show ?thesis by simp
qed

subsection \<open>A run with an abandoned ticket\<close>

definition run_of :: "nat \<Rightarrow> nat \<Rightarrow> int \<Rightarrow> nat list \<Rightarrow> (nat \<Rightarrow> tstate) \<Rightarrow> nat tsys" where
  "run_of n sv w d f = \<lparr>ts_lock = \<lparr>tl_next = n, tl_serving = sv, tl_waiting = w, tl_dead = d\<rparr>, ts_thr = f\<rparr>"

lemma run_draw:
  "f i = Idle \<Longrightarrow> tl.reachable (run_of n sv w d f) \<Longrightarrow> n' = n + 1 \<Longrightarrow> w' = w + 1 \<Longrightarrow>
   tl.reachable (run_of n' sv w' d (f(i := Waiting b n)))"
  by (erule tl.move) (use tstep.t_draw[of "run_of n sv w d f" i n _ b] in \<open>simp add: run_of_def draw_def\<close>)

lemma run_acquire:
  "f i = Waiting b sv \<Longrightarrow> tl.reachable (run_of n sv w d f) \<Longrightarrow> w' = w - 1 \<Longrightarrow>
   tl.reachable (run_of n sv w' d (f(i := Holding sv)))"
  by (erule tl.move)
    (use tstep.t_acquire[of "run_of n sv w d f" i b sv] in \<open>simp add: run_of_def leave_wait_def served_def\<close>)

lemma run_timeout:
  "f i = Waiting True t \<Longrightarrow> t \<noteq> sv \<Longrightarrow> tl.reachable (run_of n sv w d f) \<Longrightarrow> w' = w - 1 \<Longrightarrow>
   tl.reachable (run_of n sv w' (List.insert t d) (f(i := Idle)))"
  by (erule tl.move)
    (use tstep.t_timeout[of "run_of n sv w d f" i t] in \<open>simp add: run_of_def leave_wait_def served_def\<close>)

lemma run_unlock:
  "f i = Holding t \<Longrightarrow> skip_dead (sv + 1) d = (sv', d') \<Longrightarrow> tl.reachable (run_of n sv w d f) \<Longrightarrow>
   tl.reachable (run_of n sv' w d' (f(i := Idle)))"
  by (erule tl.move) (use tstep.t_unlock[of "run_of n sv w d f" i t] in \<open>simp add: run_of_def unlock_def\<close>)

text \<open>Threads 0, 1 and 2 draw tickets, and 0 gets the lock.\<close>

definition run4 :: "nat tsys" where
  "run4 = run_of 3 0 2 [] ((\<lambda>_. Idle)(0 := Waiting False 0, 0 := Holding 0, 1 := Waiting True 1, 2 := Waiting False 2))"

lemma run4_reachable: "tl.reachable run4"
proof -
  have "tl.reachable (run_of 0 0 0 [] (\<lambda>_. Idle))"
    by (rule tl.start) (simp add: tinit_def run_of_def TicketLock_def)
  then have "tl.reachable (run_of 1 0 1 [] ((\<lambda>_. Idle)(0 := Waiting False 0)))" by (rule run_draw[rotated]) auto
  then have "tl.reachable (run_of 1 0 0 [] ((\<lambda>_. Idle)(0 := Waiting False 0, 0 := Holding 0)))"
    by (rule run_acquire[rotated]) auto
  then have "tl.reachable (run_of 2 0 1 [] ((\<lambda>_. Idle)(0 := Waiting False 0, 0 := Holding 0, 1 := Waiting True 1)))"
    by (rule run_draw[rotated]) auto
  then show ?thesis unfolding run4_def by (rule run_draw[rotated]) auto
qed

lemma run4_threads: "ts_thr run4 0 = Holding 0" "ts_thr run4 2 = Waiting False 2"
  by (simp_all add: run4_def run_of_def)

theorem ticket_lock_mutex_witness: "{j. ts_thr run4 j = Holding 0} = {0}"
  using ticket_lock_mutex[OF run4_reachable run4_threads(1)] run4_threads(1) by blast

theorem ticket_lock_progress_witness: "contended (ts_lock run4) \<and> busy (ts_lock run4)"
  using ticket_lock_progress[OF run4_reachable] run4_threads by blast

text \<open>Thread 1 gives up and 0 unlocks: ticket 1 is skipped, and 2 has the served ticket.\<close>

definition run7 :: "nat tsys" where
  "run7 = run_of 4 2 2 [] ((\<lambda>_. Idle)(0 := Waiting False 0, 0 := Holding 0, 1 := Waiting True 1, 2 := Waiting False 2,
     1 := Idle, 0 := Idle, 1 := Waiting False 3))"

lemma run7_reachable: "tl.reachable run7"
proof -
  have "tl.reachable (run_of 3 0 1 (List.insert 1 []) ((\<lambda>_. Idle)(0 := Waiting False 0, 0 := Holding 0, 1 := Waiting True 1,
      2 := Waiting False 2, 1 := Idle)))"
    by (rule run_timeout[OF _ _ run4_reachable[unfolded run4_def]]) auto
  then have "tl.reachable (run_of 3 2 1 [] ((\<lambda>_. Idle)(0 := Waiting False 0, 0 := Holding 0, 1 := Waiting True 1,
      2 := Waiting False 2, 1 := Idle, 0 := Idle)))"
    by (rule run_unlock[rotated 2]) (auto simp: skip_dead.simps)
  then show ?thesis unfolding run7_def by (rule run_draw[rotated]) auto
qed

lemma run7_threads: "ts_thr run7 2 = Waiting False 2" "ts_thr run7 1 = Waiting False 3" "served (ts_lock run7) 2"
  by (simp_all add: run7_def run_of_def served_def)

theorem ticket_lock_fifo_witness: "served (ts_lock run7) 2 \<and> (2::nat) < 3"
  using ticket_lock_fifo[OF run7_reachable run7_threads(1,3,2)] run7_threads(3) by simp

end
