(* ===== verification/Mtp.thy ===== *)
theory Mtp
  imports QW_Prelude
begin

section \<open>Self-speculative decoding\<close>

text \<open>
  \<open>Runtime::Impl::prefill\<close> and \<open>generate_mtp\<close> of \<open>core/runtime.cpp\<close>: the multi-token-prediction block
  drafts \<open>K\<close> tokens, the main model verifies them in one forward, the longest matching prefix is kept,
  and the caches are settled to the confirmed tokens.

  The neural network is a parameter. What it sees of the past is explicit: the attention cells the
  forward reads (\<open>rs_kv\<close>, tokens by position, of which the first \<open>n_past\<close> count) and the history the
  recurrent (gated-delta-net) state has absorbed (\<open>rs_rec\<close>). \<open>arg (kv, rec)\<close> is the arg-max token
  of the logits after a forward that saw \<open>kv\<close> and \<open>rec\<close>; nothing relates its value on inconsistent
  pairs to anything, so a stale cell or a wrong checkpoint would show. The main hidden state of a
  token is identified by the history it was computed from, the hidden of the draft block is opaque,
  and \<open>draft\<close> is any function of the block's cache. Timings and log lines are left out. Image embeddings
  replace token embeddings inside the network; of the pending ones (\<open>embd_ovr\<close>) the argument \<open>img\<close> says
  whether there are any and by how much they move \<open>mrope_next\<close> over the batch (theory \<open>Rope\<close>).

  \<open>decode\<close> refuses a batch that does not fit the context. \<open>decode_verify\<close> does not look: its \<open>K + 1\<close> cells
  are written even where the cache has no such cells, which is undefined behaviour and an \<open>Inl\<close> here.
  The draft block's cache has as many cells as the main one and its counter never passes \<open>n_past\<close>, so it
  does not run out first. The resident-only decode (\<open>QWEN_RESIDENT_DECODE\<close>), which masks the experts that
  are not on the device and so computes another function, is not covered.
\<close>

datatype hid = HMain "nat list \<times> nat list" | HBlock "(hid \<times> nat) list"

record rstate =
  rs_n_past :: nat
  rs_kv :: "nat list"
  rs_rec :: "nat list"
  rs_ckpt :: "nat list list"
  rs_backup :: "nat list"
  rs_logits :: "nat list \<times> nat list"
  rs_mrope_next :: nat
  rs_mtp_past :: nat
  rs_mtp_kv :: "(hid \<times> nat) list"
  rs_mtp_hidden :: hid
  rs_kv_toks :: "nat list"

text \<open>
  How the model runs: recurrent layers present, expert offload, the size test of the verify batch, whether a
  single token takes the one-graph path (\<open>cache_fast_enabled && !cpu_miss\<close>), and the size of the context.
\<close>

record mcfg =
  mc_gdn :: bool
  mc_ecache :: bool
  mc_batch_fits :: bool
  mc_no_batch_prefill :: bool
  mc_no_accept :: bool
  mc_fast :: bool
  mc_n_ctx :: nat

subsection \<open>Forward passes\<close>

text \<open>One token at position \<open>n_past\<close>: its cell is written and the recurrent state absorbs it.\<close>

definition fwd1 :: "nat \<Rightarrow> rstate \<Rightarrow> rstate" where
  "fwd1 t s =
     s\<lparr>rs_kv := take (rs_n_past s) (rs_kv s) @ t # drop (rs_n_past s + 1) (rs_kv s),
       rs_rec := rs_rec s @ [t], rs_n_past := rs_n_past s + 1\<rparr>"

definition view :: "mcfg \<Rightarrow> rstate \<Rightarrow> nat list \<times> nat list" where
  "view cf s =
     (let h = take (rs_n_past s) (rs_kv s) in (h, if mc_gdn cf then rs_rec s else h))"

definition context_overflow :: exn where "context_overflow = Runtime_error ''decode: context overflow''"
definition empty_tokens :: exn where "empty_tokens = Runtime_error ''decode: empty tokens''"

text \<open>
  \<open>decode\<close> over \<open>ts\<close>; \<open>adv\<close> is how far the rope counter moves over the batch. A single token in offload mode
  counts as text, and \<open>decode_cached_fast\<close> does not read the hidden state of the token back.
\<close>

definition single_fast :: "mcfg \<Rightarrow> nat list \<Rightarrow> bool" where
  "single_fast cf ts \<longleftrightarrow> length ts = 1 \<and> mc_ecache cf \<and> mc_fast cf"

definition decode_main :: "mcfg \<Rightarrow> nat \<Rightarrow> nat list \<Rightarrow> rstate \<Rightarrow> exn + rstate" where
  "decode_main cf adv ts s =
     (if ts = [] then Inl empty_tokens
      else if mc_n_ctx cf < rs_n_past s + length ts then Inl context_overflow
      else let s' = fold fwd1 ts s
        in Inr (s'\<lparr>rs_logits := view cf s',
                  rs_mrope_next := rs_mrope_next s + (if length ts = 1 \<and> mc_ecache cf then 1 else adv),
                  rs_mtp_hidden := (if single_fast cf ts then rs_mtp_hidden s else HMain (view cf s'))\<rparr>))"

text \<open>Hidden states of every token of a forward (\<open>bh_all\<close>, \<open>vH\<close>).\<close>

fun hiddens :: "mcfg \<Rightarrow> nat list \<Rightarrow> rstate \<Rightarrow> (nat list \<times> nat list) list" where
  "hiddens cf [] s = []"
| "hiddens cf (t # ts) s = view cf (fwd1 t s) # hiddens cf ts (fwd1 t s)"

fun recs_after :: "nat list \<Rightarrow> rstate \<Rightarrow> nat list list" where
  "recs_after [] s = []"
| "recs_after (t # ts) s = rs_rec (fwd1 t s) # recs_after ts (fwd1 t s)"

text \<open>The draft block's forward: one cell from the current hidden and a token.\<close>

definition mtp_step :: "nat \<Rightarrow> rstate \<Rightarrow> rstate" where
  "mtp_step t s =
     s\<lparr>rs_mtp_kv := take (rs_mtp_past s) (rs_mtp_kv s) @ [(rs_mtp_hidden s, t)],
       rs_mtp_past := rs_mtp_past s + 1\<rparr>"

definition mtp_resync :: "nat \<Rightarrow> rstate \<Rightarrow> rstate" where
  "mtp_resync t s = mtp_step t s"

text \<open>A batch of headless draft-block forwards over paired hiddens and tokens.\<close>

fun mtp_prefill_batch :: "(nat \<times> hid) list \<Rightarrow> rstate \<Rightarrow> rstate" where
  "mtp_prefill_batch [] s = s"
| "mtp_prefill_batch ((t, h) # ps) s =
     mtp_prefill_batch ps (s\<lparr>rs_mtp_kv := take (rs_mtp_past s) (rs_mtp_kv s) @ [(h, t)], rs_mtp_past := rs_mtp_past s + 1\<rparr>)"

subsection \<open>prefill\<close>

fun token_by_token :: "mcfg \<Rightarrow> nat \<Rightarrow> nat list \<Rightarrow> rstate \<Rightarrow> exn + rstate" where
  "token_by_token cf adv [] s = Inr s"
| "token_by_token cf adv [t] s = decode_main cf adv [t] s"
| "token_by_token cf adv (t # u # ts) s =
     (case decode_main cf adv [t] s of Inl e \<Rightarrow> Inl e | Inr s' \<Rightarrow> token_by_token cf 1 (u # ts) (mtp_resync u s'))"

text \<open>
  \<open>img\<close>: None without pending image embeddings, else how far they move the rope counter. With pending ones the
  token-by-token branch is left to a single token.
\<close>

definition prefill :: "mcfg \<Rightarrow> nat option \<Rightarrow> nat list \<Rightarrow> bool \<Rightarrow> rstate \<Rightarrow> exn + rstate" where
  "prefill cf img toks mtp_kv s =
     (let adv = (case img of None \<Rightarrow> length toks | Some m \<Rightarrow> m) in
      if toks = [] then Inr s
      else if \<not> mtp_kv then decode_main cf adv toks s
      else let s1 = (if rs_n_past s > 0 then mtp_resync (hd toks) s else s) in
        if length toks > 1 \<and> (\<not> mc_no_batch_prefill cf \<or> img \<noteq> None)
        then (case decode_main cf adv toks s1 of
            Inl e \<Rightarrow> Inl e
          | Inr s2 \<Rightarrow>
              let hs = hiddens cf toks s1; s3 = mtp_prefill_batch (zip (tl toks) (map HMain (butlast hs))) s2
              in Inr (s3\<lparr>rs_mtp_hidden := HMain (last hs)\<rparr>))
        else token_by_token cf (case img of None \<Rightarrow> 1 | Some m \<Rightarrow> m) toks s1)"

subsection \<open>generate\_mtp\<close>

text \<open>Drafting: \<open>K\<close> chained steps of the block, each on the hidden the previous one produced.\<close>

fun draft_loop :: "((hid \<times> nat) list \<Rightarrow> nat) \<Rightarrow> nat \<Rightarrow> nat \<Rightarrow> rstate \<Rightarrow> nat list \<times> rstate" where
  "draft_loop draft 0 t s = ([], s)"
| "draft_loop draft (Suc n) t s =
     (let s1 = mtp_step t s; d = draft (rs_mtp_kv s1) in
      if n = 0 then ([d], s1)
      else (case draft_loop draft n d (s1\<lparr>rs_mtp_hidden := HBlock (rs_mtp_kv s1)\<rparr>) of (ds, s2) \<Rightarrow> (d # ds, s2)))"

text \<open>
  The verify forward: per position the arg-max view and hidden, and per-token recurrent checkpoints
  when the graph takes them (in the resident path, or in the batched offload path).
\<close>

definition decode_verify :: "mcfg \<Rightarrow> nat list \<Rightarrow> rstate \<Rightarrow> exn + (nat list \<times> nat list) list \<times> rstate" where
  "decode_verify cf vtoks s =
     (if mc_n_ctx cf < rs_n_past s + length vtoks then Inl Undefined_behaviour
      else let s' = fold fwd1 vtoks s;
          ck = mc_gdn cf \<and> (\<not> mc_ecache cf \<or> mc_batch_fits cf)
      in Inr (hiddens cf vtoks s, s'\<lparr>rs_ckpt := (if ck then recs_after vtoks s else rs_ckpt s)\<rparr>))"

fun accept :: "nat list \<Rightarrow> nat list \<Rightarrow> nat" where
  "accept (v # vs) (d # ds) = (if v = d then Suc (accept vs ds) else 0)"
| "accept _ _ = 0"

definition settle :: "mcfg \<Rightarrow> nat \<Rightarrow> nat \<Rightarrow> nat list \<Rightarrow> nat \<Rightarrow> rstate \<Rightarrow> exn + rstate" where
  "settle cf p x drafts a s =
     (let use_ckpt = mc_gdn cf \<and> \<not> mc_ecache cf; v_from_batch = mc_ecache cf \<and> mc_batch_fits cf in
      if a = length drafts then Inr s
      else if use_ckpt \<or> (mc_gdn cf \<and> v_from_batch) then Inr (s\<lparr>rs_rec := rs_ckpt s ! a, rs_n_past := p + a + 1\<rparr>)
      else if mc_gdn cf then decode_main cf (a + 1) (x # take a drafts) (s\<lparr>rs_rec := rs_backup s, rs_n_past := p\<rparr>)
      else Inr (s\<lparr>rs_n_past := p + a + 1\<rparr>))"

fun resync_loop :: "(nat list \<times> nat list) list \<Rightarrow> nat list \<Rightarrow> rstate \<Rightarrow> rstate" where
  "resync_loop (h # hs) (d # ds) s = resync_loop hs ds (mtp_resync d (s\<lparr>rs_mtp_hidden := HMain h\<rparr>))"
| "resync_loop _ _ s = s"

text \<open>One cycle after token \<open>x\<close> was delivered: the accepted drafts, the next token and the settled state.\<close>

definition mtp_cycle ::
  "mcfg \<Rightarrow> (nat list \<times> nat list \<Rightarrow> nat) \<Rightarrow> ((hid \<times> nat) list \<Rightarrow> nat) \<Rightarrow> nat \<Rightarrow> nat \<Rightarrow> rstate \<Rightarrow> exn + nat list \<times> nat \<times> rstate" where
  "mtp_cycle cf arg draft K x s =
     (let p = rs_n_past s; mp0 = rs_mtp_past s; m0 = rs_mrope_next s;
          (drafts, s1) = draft_loop draft K x s;
          s2 = (if mc_gdn cf \<and> mc_ecache cf then s1\<lparr>rs_backup := rs_rec s1\<rparr> else s1)
      in case decode_verify cf (x # drafts) s2 of
          Inl e \<Rightarrow> Inl e
        | Inr (vH, s3) \<Rightarrow>
            let vA = map arg vH;
                a = (if mc_no_accept cf then 0 else accept vA drafts)
            in case settle cf p x drafts a s3 of
                Inl e \<Rightarrow> Inl e
              | Inr s4 \<Rightarrow>
                  let s5 = resync_loop (take a vH) (take a drafts) (s4\<lparr>rs_mtp_past := mp0 + 1\<rparr>);
                      s6 = s5\<lparr>rs_mtp_hidden := HMain (vH ! a), rs_kv_toks := rs_kv_toks s5 @ x # take a drafts,
                              rs_mrope_next := m0 + a + 1\<rparr>
                  in Inr (take a drafts, vA ! a, s6))"

text \<open>
  Delivering the accepted drafts. \<open>on_token ts\<close> is the callback's answer for the last of the tokens
  \<open>ts\<close> delivered so far. The result: tokens delivered so far, whether to stop, and whether by the callback.
\<close>

fun deliver :: "(nat list \<Rightarrow> bool) \<Rightarrow> nat \<Rightarrow> nat list \<Rightarrow> nat list \<Rightarrow> nat list \<times> bool \<times> bool" where
  "deliver on_token max_new out [] = (out, False, False)"
| "deliver on_token max_new out (d # ds) =
     (if \<not> on_token (out @ [d]) then (out @ [d], True, True)
      else if length (out @ [d]) \<ge> max_new then (out @ [d], True, False)
      else deliver on_token max_new (out @ [d]) ds)"

lemma deliver_out: "deliver on_token max_new out ds = (out', stop, cb) \<Longrightarrow> length out \<le> length out'"
  by (induction on_token max_new out ds rule: deliver.induct) (fastforce split: if_splits)+

lemma deliver_cb: "deliver on_token max_new out ds = (out', stop, cb) \<Longrightarrow> cb \<Longrightarrow> stop"
  by (induction on_token max_new out ds rule: deliver.induct) (auto split: if_splits)

text \<open>
  The generation loop. \<open>generated\<close> is the number of delivered tokens. The third component of the
  result is \<open>out_pending\<close>: set when the callback stopped the generation.
\<close>

function gen_loop ::
  "mcfg \<Rightarrow> (nat list \<times> nat list \<Rightarrow> nat) \<Rightarrow> ((hid \<times> nat) list \<Rightarrow> nat) \<Rightarrow> nat \<Rightarrow> (nat list \<Rightarrow> bool) \<Rightarrow> nat \<Rightarrow>
   nat list \<Rightarrow> nat \<Rightarrow> rstate \<Rightarrow> exn + nat list \<times> nat option \<times> rstate" where
  "gen_loop cf arg draft K on_token max_new out x s =
     (if length out \<ge> max_new then Inr (out, None, s)
      else if \<not> on_token (out @ [x]) then Inr (out @ [x], Some x, s)
      else if length (out @ [x]) \<ge> max_new then Inr (out @ [x], None, s)
      else case mtp_cycle cf arg draft K x s of
          Inl e \<Rightarrow> Inl e
        | Inr (acc, x', s') \<Rightarrow>
            (case deliver on_token max_new (out @ [x]) acc of (out', stop, cb) \<Rightarrow>
               if stop then Inr (out', if cb then Some x' else None, s')
               else gen_loop cf arg draft K on_token max_new out' x' s'))"
  by pat_completeness auto
termination
  by (relation "measure (\<lambda>(cf, arg, draft, K, on_token, max_new, out, x, s). max_new - length out)")
    (auto dest!: deliver_out[OF sym])

declare gen_loop.simps [simp del]

definition draft_count :: "nat \<Rightarrow> nat" where
  "draft_count n_draft = (if n_draft < 1 then 1 else n_draft)"

definition generate_mtp ::
  "mcfg \<Rightarrow> (nat list \<times> nat list \<Rightarrow> nat) \<Rightarrow> ((hid \<times> nat) list \<Rightarrow> nat) \<Rightarrow> nat option \<Rightarrow> nat list \<Rightarrow> nat \<Rightarrow> nat \<Rightarrow> (nat list \<Rightarrow> bool) \<Rightarrow>
   rstate \<Rightarrow> exn + nat list \<times> nat option \<times> rstate" where
  "generate_mtp cf arg draft img prompt max_new n_draft on_token s =
     (case (if prompt = [] then Inr s else prefill cf img prompt True s) of
        Inl e \<Rightarrow> Inl e
      | Inr s1 \<Rightarrow>
          let s2 = s1\<lparr>rs_kv_toks := rs_kv_toks s1 @ prompt\<rparr>
          in gen_loop cf arg draft (draft_count n_draft) on_token max_new [] (arg (rs_logits s2)) s2)"

subsection \<open>What the caches represent\<close>

text \<open>
  \<open>rep cf s h\<close>: the main caches hold exactly the history \<open>h\<close>. \<open>mrep s h\<close>: the draft block's cache pairs,
  for every position, the main hidden of the history so far with the next token, and the hidden for
  the next draft is that of the whole history (the invariant at the top of the generation loop).
\<close>

definition rep :: "mcfg \<Rightarrow> rstate \<Rightarrow> nat list \<Rightarrow> bool" where
  "rep cf s h \<longleftrightarrow> rs_n_past s = length h \<and> take (length h) (rs_kv s) = h \<and> (mc_gdn cf \<longrightarrow> rs_rec s = h)"

definition mcells :: "nat list \<Rightarrow> (hid \<times> nat) list" where
  "mcells h = map (\<lambda>i. (HMain (take (Suc i) h, take (Suc i) h), h ! Suc i)) [0..<length h - 1]"

definition mcache :: "rstate \<Rightarrow> nat list \<Rightarrow> bool" where
  "mcache s h \<longleftrightarrow> rs_mtp_past s = length h - 1 \<and> take (length h - 1) (rs_mtp_kv s) = mcells h"

definition mrep :: "rstate \<Rightarrow> nat list \<Rightarrow> bool" where
  "mrep s h \<longleftrightarrow> mcache s h \<and> (h \<noteq> [] \<longrightarrow> rs_mtp_hidden s = HMain (h, h))"

lemma rep_len: "rep cf s h \<Longrightarrow> length h \<le> length (rs_kv s)"
  unfolding rep_def by (metis length_take min.cobounded1)

lemma rep_fwd1: "rep cf s h \<Longrightarrow> rep cf (fwd1 t s) (h @ [t])"
  using rep_len[of cf s h] by (auto simp: rep_def fwd1_def)

lemma rep_fold: "rep cf s h \<Longrightarrow> rep cf (fold fwd1 ts s) (h @ ts)"
proof (induction ts arbitrary: s h)
  case (Cons t ts)
  from Cons.IH[OF rep_fwd1[OF Cons.prems, of t]] show ?case by simp
qed simp

lemma view_rep: "rep cf s h \<Longrightarrow> view cf s = (h, h)"
  by (auto simp: rep_def view_def Let_def)

lemma fwd1_frame [frame_simps]:
  "rs_mtp_past (fwd1 t s) = rs_mtp_past s" "rs_mtp_kv (fwd1 t s) = rs_mtp_kv s" "rs_kv_toks (fwd1 t s) = rs_kv_toks s"
  "rs_mtp_hidden (fwd1 t s) = rs_mtp_hidden s" "rs_backup (fwd1 t s) = rs_backup s" "rs_ckpt (fwd1 t s) = rs_ckpt s"
  "rs_mrope_next (fwd1 t s) = rs_mrope_next s"
  by (simp_all add: fwd1_def)

lemma fold_fwd1_frame [frame_simps]:
  "rs_mtp_past (fold fwd1 ts s) = rs_mtp_past s" "rs_mtp_kv (fold fwd1 ts s) = rs_mtp_kv s"
  "rs_kv_toks (fold fwd1 ts s) = rs_kv_toks s" "rs_mtp_hidden (fold fwd1 ts s) = rs_mtp_hidden s"
  "rs_backup (fold fwd1 ts s) = rs_backup s" "rs_ckpt (fold fwd1 ts s) = rs_ckpt s"
  "rs_mrope_next (fold fwd1 ts s) = rs_mrope_next s"
  by (induction ts arbitrary: s) (simp_all add: frame_simps)

lemma upt_Suc_map: "[0..<Suc n] = 0 # map Suc [0..<n]"
  by (simp add: map_Suc_upt upt_conv_Cons del: upt_Suc)

lemma hiddens_rep: "rep cf s h \<Longrightarrow> hiddens cf ts s = map (\<lambda>i. (h @ take (Suc i) ts, h @ take (Suc i) ts)) [0..<length ts]"
proof (induction ts arbitrary: s h)
  case (Cons t ts)
  note r = rep_fwd1[OF Cons.prems, of t]
  have "[0..<length (t # ts)] = 0 # map Suc [0..<length ts]" using upt_Suc_map[of "length ts"] by simp
  then show ?case using Cons.IH[OF r] view_rep[OF r] by (simp add: comp_def)
qed simp

lemma recs_after_eq: "recs_after ts s = map (\<lambda>i. rs_rec s @ take (Suc i) ts) [0..<length ts]"
proof (induction ts arbitrary: s)
  case (Cons t ts)
  have "[0..<length (t # ts)] = 0 # map Suc [0..<length ts]" using upt_Suc_map[of "length ts"] by simp
  then show ?case using Cons.IH[of "fwd1 t s"] by (simp add: comp_def fwd1_def)
qed simp

lemma mcells_snoc: "h \<noteq> [] \<Longrightarrow> mcells (h @ [t]) = mcells h @ [(HMain (h, h), t)]"
proof -
  assume h: "h \<noteq> []"
  then have u: "[0..<length (h @ [t]) - 1] = [0..<length h - 1] @ [length h - 1]"
    by (cases h) simp_all
  have "(HMain (take (Suc i) (h @ [t]), take (Suc i) (h @ [t])), (h @ [t]) ! Suc i) = (HMain (take (Suc i) h, take (Suc i) h), h ! Suc i)"
    if "i < length h - 1" for i using that by (simp add: nth_append less_diff_conv)
  then show ?thesis unfolding mcells_def u using h by (simp add: nth_append)
qed

lemma mcells_len [simp]: "length (mcells h) = length h - 1"
  by (simp add: mcells_def)

lemma mcache_step:
  assumes "mcache s h" "h \<noteq> []" "rs_mtp_hidden s = HMain (h, h)"
  shows "mcache (mtp_step t s) (h @ [t])"
proof -
  have "take (length h) (take (rs_mtp_past s) (rs_mtp_kv s) @ [(rs_mtp_hidden s, t)]) = mcells h @ [(HMain (h, h), t)]"
    using assms by (cases h) (simp_all add: mcache_def)
  then show ?thesis using assms by (simp add: mcache_def mtp_step_def mcells_snoc)
qed

lemma mtp_step_frame [frame_simps]:
  "rs_n_past (mtp_step t s) = rs_n_past s" "rs_kv (mtp_step t s) = rs_kv s" "rs_rec (mtp_step t s) = rs_rec s"
  "rs_kv_toks (mtp_step t s) = rs_kv_toks s" "rs_logits (mtp_step t s) = rs_logits s" "rs_backup (mtp_step t s) = rs_backup s"
  "rs_ckpt (mtp_step t s) = rs_ckpt s" "rs_mrope_next (mtp_step t s) = rs_mrope_next s"
  "rs_mtp_hidden (mtp_step t s) = rs_mtp_hidden s"
  by (simp_all add: mtp_step_def)

lemma rep_cong: "rep cf s h \<Longrightarrow> rs_n_past s' = rs_n_past s \<Longrightarrow> rs_kv s' = rs_kv s \<Longrightarrow> rs_rec s' = rs_rec s \<Longrightarrow> rep cf s' h"
  by (simp add: rep_def)

lemma mcache_cong: "mcache s h \<Longrightarrow> rs_mtp_past s' = rs_mtp_past s \<Longrightarrow> rs_mtp_kv s' = rs_mtp_kv s \<Longrightarrow> mcache s' h"
  by (simp add: mcache_def)

lemma decode_main_rep:
  assumes "rep cf s h" "ts \<noteq> []" "length h + length ts \<le> mc_n_ctx cf"
  obtains s' where "decode_main cf adv ts s = Inr s'" "rep cf s' (h @ ts)" "rs_logits s' = (h @ ts, h @ ts)"
    "rs_kv_toks s' = rs_kv_toks s" "rs_mtp_past s' = rs_mtp_past s" "rs_mtp_kv s' = rs_mtp_kv s"
    "\<not> single_fast cf ts \<Longrightarrow> rs_mtp_hidden s' = HMain (h @ ts, h @ ts)"
proof -
  let ?f = "fold fwd1 ts s"
  have n: "rs_n_past s = length h" using assms(1) by (simp add: rep_def)
  define s' where "s' = ?f\<lparr>rs_logits := view cf ?f,
                  rs_mrope_next := rs_mrope_next s + (if length ts = 1 \<and> mc_ecache cf then 1 else adv),
                  rs_mtp_hidden := (if single_fast cf ts then rs_mtp_hidden s else HMain (view cf ?f))\<rparr>"
  note r = rep_fold[OF assms(1), of ts]
  have "decode_main cf adv ts s = Inr s'" using assms(2,3) n by (simp add: decode_main_def Let_def s'_def)
  moreover have "rep cf s' (h @ ts)" by (rule rep_cong[OF r]) (simp_all add: s'_def)
  ultimately show ?thesis using that[of s'] view_rep[OF r] by (simp add: s'_def frame_simps)
qed

subsection \<open>prefill\<close>

lemma batch_frame [frame_simps]:
  "rs_n_past (mtp_prefill_batch ps s) = rs_n_past s" "rs_kv (mtp_prefill_batch ps s) = rs_kv s"
  "rs_rec (mtp_prefill_batch ps s) = rs_rec s" "rs_kv_toks (mtp_prefill_batch ps s) = rs_kv_toks s"
  "rs_logits (mtp_prefill_batch ps s) = rs_logits s" "rs_mrope_next (mtp_prefill_batch ps s) = rs_mrope_next s"
  by (induction ps s rule: mtp_prefill_batch.induct) simp_all

lemma batch_mcache:
  assumes "mcache s h" "h \<noteq> []"
  shows "mcache (mtp_prefill_batch (zip ts (map (\<lambda>i. HMain (h @ take i ts, h @ take i ts)) [0..<length ts])) s) (h @ ts)"
  using assms
proof (induction ts arbitrary: s h)
  case (Cons t ts)
  let ?s = "s\<lparr>rs_mtp_kv := take (rs_mtp_past s) (rs_mtp_kv s) @ [(HMain (h, h), t)], rs_mtp_past := rs_mtp_past s + 1\<rparr>"
  have "mcache (mtp_step t (s\<lparr>rs_mtp_hidden := HMain (h, h)\<rparr>)) (h @ [t])"
    by (rule mcache_step) (use Cons.prems in \<open>auto simp: mcache_def\<close>)
  then have "mcache ?s (h @ [t])" by (rule mcache_cong) (simp_all add: mtp_step_def)
  from Cons.IH[OF this] show ?case
    by (simp add: upt_Suc_map comp_def del: upt_Suc)
qed simp

definition slow_hidden :: "mcfg \<Rightarrow> bool" where
  "slow_hidden cf \<longleftrightarrow> \<not> (mc_ecache cf \<and> mc_fast cf)"

lemma slow_not_fast: "slow_hidden cf \<Longrightarrow> \<not> single_fast cf ts"
  by (simp add: slow_hidden_def single_fast_def)

lemma token_by_token_ok:
  assumes "rep cf s h" "length h + length (t # ts) \<le> mc_n_ctx cf"
  shows "\<exists>s'. token_by_token cf adv (t # ts) s = Inr s' \<and> rep cf s' (h @ t # ts) \<and> rs_logits s' = (h @ t # ts, h @ t # ts) \<and>
    rs_kv_toks s' = rs_kv_toks s \<and> (slow_hidden cf \<longrightarrow> mcache s (h @ [t]) \<longrightarrow> mrep s' (h @ t # ts))"
  using assms
proof (induction ts arbitrary: s h t adv)
  case Nil
  obtain s' where d: "decode_main cf adv [t] s = Inr s'" "rep cf s' (h @ [t])" "rs_logits s' = (h @ [t], h @ [t])"
    "rs_kv_toks s' = rs_kv_toks s" "rs_mtp_past s' = rs_mtp_past s" "rs_mtp_kv s' = rs_mtp_kv s"
    "\<not> single_fast cf [t] \<Longrightarrow> rs_mtp_hidden s' = HMain (h @ [t], h @ [t])"
    by (rule decode_main_rep[OF Nil.prems(1), of "[t]" adv]) (use Nil.prems(2) in auto)
  then show ?case using slow_not_fast[of cf "[t]"] by (auto simp: mrep_def elim!: mcache_cong)
next
  case (Cons u ts)
  obtain s' where d: "decode_main cf adv [t] s = Inr s'" "rep cf s' (h @ [t])"
    "rs_kv_toks s' = rs_kv_toks s" "rs_mtp_past s' = rs_mtp_past s" "rs_mtp_kv s' = rs_mtp_kv s"
    "\<not> single_fast cf [t] \<Longrightarrow> rs_mtp_hidden s' = HMain (h @ [t], h @ [t])"
    by (rule decode_main_rep[OF Cons.prems(1), of "[t]" adv]) (use Cons.prems(2) in auto)
  have m: "mcache (mtp_step u s') ((h @ [t]) @ [u])" if "slow_hidden cf" "mcache s (h @ [t])"
    by (rule mcache_step) (use that slow_not_fast d(4,5,6) in \<open>auto elim!: mcache_cong\<close>)
  have "rep cf (mtp_step u s') (h @ [t])" by (rule rep_cong[OF d(2)]) (simp_all add: frame_simps)
  from Cons.IH[OF this, of u 1] Cons.prems(2) d(1,3) m show ?case by (auto simp: mtp_resync_def frame_simps)
qed

text \<open>The hidden of the last prompt token is read back unless its forward was the one-graph path.\<close>

definition hidden_kept :: "mcfg \<Rightarrow> nat option \<Rightarrow> nat list \<Rightarrow> bool" where
  "hidden_kept cf img toks \<longleftrightarrow>
     slow_hidden cf \<or> toks = [] \<or> length toks > 1 \<and> (\<not> mc_no_batch_prefill cf \<or> img \<noteq> None)"

lemma prefill_ok:
  assumes r: "rep cf s h" and c: "length h + length toks \<le> mc_n_ctx cf"
  shows "\<exists>s'. prefill cf img toks True s = Inr s' \<and> rep cf s' (h @ toks) \<and> rs_kv_toks s' = rs_kv_toks s \<and>
    (toks \<noteq> [] \<longrightarrow> rs_logits s' = (h @ toks, h @ toks)) \<and> (toks = [] \<longrightarrow> s' = s) \<and>
    (hidden_kept cf img toks \<longrightarrow> mrep s h \<longrightarrow> mrep s' (h @ toks))"
proof (cases toks)
  case Nil
  then show ?thesis using assms by (simp add: prefill_def)
next
  case (Cons t ts)
  define s1 where "s1 = (if rs_n_past s > 0 then mtp_resync t s else s)"
  have r1: "rep cf s1 h" using r by (auto simp: s1_def mtp_resync_def frame_simps elim!: rep_cong)
  have m1: "mcache s1 (h @ [t])" if m: "mrep s h"
  proof (cases "h = []")
    case True
    then show ?thesis using m r by (simp add: s1_def rep_def mrep_def mcache_def mcells_def)
  next
    case False
    then have "0 < rs_n_past s" using r by (simp add: rep_def)
    then show ?thesis using mcache_step[of s h t] m False by (simp add: s1_def mtp_resync_def mrep_def)
  qed
  have kt: "rs_kv_toks s1 = rs_kv_toks s" by (simp add: s1_def mtp_resync_def frame_simps)
  show ?thesis
  proof (cases "length toks > 1 \<and> (\<not> mc_no_batch_prefill cf \<or> img \<noteq> None)")
    case True
    let ?hs = "hiddens cf toks s1" and ?adv = "case img of None \<Rightarrow> length toks | Some m \<Rightarrow> m"
    obtain s2 where d: "decode_main cf ?adv toks s1 = Inr s2" "rep cf s2 (h @ toks)" "rs_logits s2 = (h @ toks, h @ toks)"
      "rs_kv_toks s2 = rs_kv_toks s1" "rs_mtp_past s2 = rs_mtp_past s1" "rs_mtp_kv s2 = rs_mtp_kv s1"
      by (rule decode_main_rep[OF r1 _ c, of ?adv]) (use Cons in auto)
    have hs: "?hs = map (\<lambda>i. (h @ take (Suc i) toks, h @ take (Suc i) toks)) [0..<length toks]" by (rule hiddens_rep[OF r1])
    have bl: "map HMain (butlast ?hs) = map (\<lambda>i. HMain ((h @ [t]) @ take i ts, (h @ [t]) @ take i ts)) [0..<length ts]"
      unfolding hs unfolding Cons by (simp add: map_butlast[symmetric])
    have lst: "last ?hs = (h @ toks, h @ toks)" unfolding hs unfolding Cons by simp
    let ?s3 = "mtp_prefill_batch (zip (tl toks) (map HMain (butlast ?hs))) s2"
    have mc: "mcache ?s3 (h @ toks)" if "mrep s h"
    proof -
      have "mcache s2 (h @ [t])" by (rule mcache_cong[OF m1[OF that]]) (simp_all add: d)
      from batch_mcache[OF this, of ts] show ?thesis unfolding bl by (simp add: Cons)
    qed
    define s' where "s' = ?s3\<lparr>rs_mtp_hidden := HMain (h @ toks, h @ toks)\<rparr>"
    have s1': "(if rs_n_past s > 0 then mtp_resync (hd toks) s else s) = s1" by (simp add: Cons s1_def)
    have run: "prefill cf img toks True s = Inr s'"
      unfolding s'_def prefill_def Let_def s1' lst[symmetric] using True d(1) by auto
    have "rep cf s' (h @ toks)" by (rule rep_cong[OF d(2)]) (simp_all add: s'_def frame_simps)
    moreover have "mrep s' (h @ toks)" if "mrep s h"
      unfolding mrep_def by (intro conjI impI mcache_cong[OF mc[OF that]]) (simp_all add: s'_def)
    moreover have "rs_kv_toks s' = rs_kv_toks s \<and> rs_logits s' = (h @ toks, h @ toks)" using d kt by (simp add: s'_def frame_simps)
    ultimately show ?thesis using run Cons by blast
  next
    case False
    let ?adv = "case img of None \<Rightarrow> 1 | Some m \<Rightarrow> m"
    have "prefill cf img toks True s = token_by_token cf ?adv toks s1" using False Cons by (auto simp: prefill_def s1_def Let_def)
    moreover have "hidden_kept cf img toks = slow_hidden cf" using False Cons by (auto simp: hidden_kept_def)
    ultimately show ?thesis using token_by_token_ok[OF r1, of t ts ?adv] c Cons kt m1 by auto
  qed
qed

subsection \<open>One cycle\<close>

lemma draft_loop_frame:
  "draft_loop draft n t s = (ds, s') \<Longrightarrow> length ds = n \<and> rs_n_past s' = rs_n_past s \<and> rs_kv s' = rs_kv s \<and> rs_rec s' = rs_rec s \<and>
     rs_kv_toks s' = rs_kv_toks s \<and> rs_ckpt s' = rs_ckpt s"
proof (induction n arbitrary: t s ds s')
  case (Suc n)
  let ?s1 = "mtp_step t s" let ?d = "draft (rs_mtp_kv ?s1)"
  obtain ds2 s2 where rec: "draft_loop draft n ?d (?s1\<lparr>rs_mtp_hidden := HBlock (rs_mtp_kv ?s1)\<rparr>) = (ds2, s2)"
    by (cases "draft_loop draft n ?d (?s1\<lparr>rs_mtp_hidden := HBlock (rs_mtp_kv ?s1)\<rparr>)")
  from Suc.IH[OF rec] Suc.prems rec show ?case by (auto simp: Let_def frame_simps split: if_splits)
qed simp

text \<open>The first cell a draft writes is the right one: it uses the main hidden.\<close>

lemma draft_loop_cells:
  "draft_loop draft n t s = (ds, s') \<Longrightarrow> n \<noteq> 0 \<Longrightarrow>
     take (rs_mtp_past s + 1) (rs_mtp_kv s') = take (rs_mtp_past s) (rs_mtp_kv s) @ [(rs_mtp_hidden s, t)] \<or>
     length (rs_mtp_kv s) < rs_mtp_past s"
proof (induction n arbitrary: t s ds s')
  case (Suc n)
  let ?s1 = "mtp_step t s" let ?d = "draft (rs_mtp_kv ?s1)"
  let ?s1' = "?s1\<lparr>rs_mtp_hidden := HBlock (rs_mtp_kv ?s1)\<rparr>"
  show ?case
  proof (cases "n = 0 \<or> length (rs_mtp_kv s) < rs_mtp_past s")
    case True
    then show ?thesis using Suc.prems by (auto simp: Let_def mtp_step_def)
  next
    case False
    obtain ds2 s2 where rec: "draft_loop draft n ?d ?s1' = (ds2, s2)" by (cases "draft_loop draft n ?d ?s1'")
    then have s': "s' = s2" using Suc.prems False by (auto simp: Let_def)
    have len: "length (rs_mtp_kv ?s1') = rs_mtp_past s + 1" "rs_mtp_past ?s1' = rs_mtp_past s + 1"
      using False by (auto simp: mtp_step_def)
    from Suc.IH[OF rec] False len have "take (rs_mtp_past s + 2) (rs_mtp_kv s2) = rs_mtp_kv ?s1 @ [(rs_mtp_hidden ?s1', ?d)]" by simp
    then have "take (rs_mtp_past s + 1) (take (rs_mtp_past s + 2) (rs_mtp_kv s2)) = rs_mtp_kv ?s1" using len by simp
    then show ?thesis using s' by (simp add: mtp_step_def take_take)
  qed
qed simp

lemma accept_spec: "accept vs ds \<le> length ds" "accept vs ds \<le> length vs" "i < accept vs ds \<Longrightarrow> vs ! i = ds ! i"
proof -
  have "accept vs ds \<le> length ds \<and> accept vs ds \<le> length vs \<and> (\<forall>i < accept vs ds. vs ! i = ds ! i)"
    by (induction vs ds rule: accept.induct) (auto simp: less_Suc_eq_0_disj)
  then show "accept vs ds \<le> length ds" "accept vs ds \<le> length vs" "i < accept vs ds \<Longrightarrow> vs ! i = ds ! i" by blast+
qed

lemma resync_frame [frame_simps]:
  "rs_n_past (resync_loop hs ds s) = rs_n_past s" "rs_kv (resync_loop hs ds s) = rs_kv s"
  "rs_rec (resync_loop hs ds s) = rs_rec s" "rs_kv_toks (resync_loop hs ds s) = rs_kv_toks s"
  by (induction hs ds s rule: resync_loop.induct) (simp_all add: mtp_resync_def frame_simps)

lemma resync_mcache:
  assumes "mcache s g" "g \<noteq> []"
  shows "mcache (resync_loop (map (\<lambda>i. (g @ take i ds, g @ take i ds)) [0..<length ds]) ds s) (g @ ds)"
  using assms
proof (induction ds arbitrary: s g)
  case (Cons d ds)
  let ?s = "mtp_resync d (s\<lparr>rs_mtp_hidden := HMain (g, g)\<rparr>)"
  have "mcache ?s (g @ [d])" unfolding mtp_resync_def
    by (rule mcache_step) (use Cons.prems in \<open>auto elim!: mcache_cong\<close>)
  from Cons.IH[OF this] show ?case by (simp add: upt_Suc_map comp_def del: upt_Suc)
qed simp

lemma settle_ok:
  assumes r: "rep cf s2 h" and a: "a \<le> length drafts" and p: "p = length h"
    and v: "decode_verify cf (x # drafts) s2 = Inr (vH, s3)"
    and b: "mc_gdn cf \<and> mc_ecache cf \<longrightarrow> rs_backup s2 = h"
  shows "\<exists>s4. settle cf p x drafts a s3 = Inr s4 \<and> rep cf s4 (h @ x # take a drafts) \<and>
    rs_mtp_kv s4 = rs_mtp_kv s3 \<and> rs_kv_toks s4 = rs_kv_toks s3"
proof -
  let ?f = "fold fwd1 (x # drafts) s2"
  have room: "length h + Suc (length drafts) \<le> mc_n_ctx cf"
    using v r by (auto simp: decode_verify_def Let_def rep_def split: if_splits)
  have s3: "s3 = ?f\<lparr>rs_ckpt := (if mc_gdn cf \<and> (\<not> mc_ecache cf \<or> mc_batch_fits cf) then recs_after (x # drafts) s2 else rs_ckpt s2)\<rparr>"
    using v by (auto simp: decode_verify_def Let_def split: if_splits)
  have rf: "rep cf ?f (h @ x # drafts)" by (rule rep_fold[OF r])
  then have kv: "take (length h + Suc (length drafts)) (rs_kv s3) = h @ x # drafts" by (simp add: rep_def s3)
  have pre: "take (p + a + 1) (rs_kv s3) = h @ x # take a drafts"
  proof -
    have "take (p + a + 1) (take (length h + Suc (length drafts)) (rs_kv s3)) = h @ x # take a drafts"
      unfolding kv using p by simp
    then show ?thesis using a p by (simp add: take_take min_def split: if_splits)
  qed
  have rec0: "mc_gdn cf \<Longrightarrow> rs_rec s2 = h" using r by (simp add: rep_def)
  consider (full) "a = length drafts" | (ckpt) "a < length drafts" "mc_gdn cf" "\<not> mc_ecache cf \<or> mc_batch_fits cf"
    | (redo) "a < length drafts" "mc_gdn cf" "mc_ecache cf" "\<not> mc_batch_fits cf" | (attn) "a < length drafts" "\<not> mc_gdn cf"
    using a by linarith
  then show ?thesis
  proof cases
    case full
    then show ?thesis using rf by (auto simp: settle_def s3 elim!: rep_cong)
  next
    case ckpt
    have "rs_ckpt s3 ! a = h @ x # take a drafts"
      using ckpt rec0 by (simp add: s3 recs_after_eq del: upt_Suc recs_after.simps)
    then show ?thesis using ckpt pre p a by (auto simp: settle_def Let_def rep_def min_absorb1)
  next
    case redo
    let ?s = "s3\<lparr>rs_rec := rs_backup s3, rs_n_past := p\<rparr>"
    have "take p (rs_kv s3) = take p (take (p + a + 1) (rs_kv s3))" by simp
    also have "\<dots> = h" unfolding pre by (simp add: p)
    finally have "take p (rs_kv s3) = h" .
    moreover have "rs_backup s3 = h" using b redo by (simp add: s3 frame_simps)
    ultimately have "rep cf ?s h" using p by (simp add: rep_def)
    then obtain s4 where "decode_main cf (a + 1) (x # take a drafts) ?s = Inr s4" "rep cf s4 (h @ x # take a drafts)"
      "rs_kv_toks s4 = rs_kv_toks ?s" "rs_mtp_kv s4 = rs_mtp_kv ?s"
      by (rule decode_main_rep[of cf ?s h "x # take a drafts" "a + 1"]) (use redo room in auto)
    then show ?thesis using redo by (simp add: settle_def Let_def)
  next
    case attn
    then show ?thesis using pre p a by (auto simp: settle_def Let_def rep_def min_absorb1)
  qed
qed

lemma mtp_cycle_ok:
  assumes r: "rep cf s h" and K: "0 < K" and c: "length h + K + 1 \<le> mc_n_ctx cf"
  obtains acc x' s' where "mtp_cycle cf arg draft K x s = Inr (acc, x', s')"
    "rep cf s' (h @ x # acc)" "rs_kv_toks s' = rs_kv_toks s @ x # acc"
    "x' = arg (h @ x # acc, h @ x # acc)"
    "\<And>i. i < length acc \<Longrightarrow> acc ! i = arg (h @ x # take i acc, h @ x # take i acc)"
    "mrep s h \<Longrightarrow> h \<noteq> [] \<Longrightarrow> mrep s' (h @ x # acc)"
proof -
  obtain drafts s1 where d: "draft_loop draft K x s = (drafts, s1)" by (cases "draft_loop draft K x s")
  note df = draft_loop_frame[OF d]
  define s2 where "s2 = (if mc_gdn cf \<and> mc_ecache cf then s1\<lparr>rs_backup := rs_rec s1\<rparr> else s1)"
  have r2: "rep cf s2 h" using df r by (auto simp: s2_def elim!: rep_cong)
  obtain vH s3 where v: "decode_verify cf (x # drafts) s2 = Inr (vH, s3)"
    using r2 c df by (auto simp: decode_verify_def Let_def rep_def)
  have s3: "rs_mtp_kv s3 = rs_mtp_kv s1" "rs_kv_toks s3 = rs_kv_toks s1"
    using v by (auto simp: s2_def decode_verify_def Let_def frame_simps split: if_splits)
  have vH: "vH = map (\<lambda>i. (h @ x # take i drafts, h @ x # take i drafts)) [0..<Suc (length drafts)]"
    using v hiddens_rep[OF r2, of "x # drafts"] by (auto simp: decode_verify_def Let_def split: if_splits)
  have vHa: "vH ! i = (h @ x # take i drafts, h @ x # take i drafts)" if "i \<le> length drafts" for i
    using that by (simp add: vH del: upt_Suc)
  define a where "a = (if mc_no_accept cf then 0 else accept (map arg vH) drafts)"
  have a: "a \<le> length drafts" using accept_spec(1) by (simp add: a_def)
  define acc where "acc = take a drafts"
  have rp: "rs_n_past s = length h" using r by (simp add: rep_def)
  have bk: "mc_gdn cf \<and> mc_ecache cf \<longrightarrow> rs_backup s2 = h" using r df by (auto simp: s2_def rep_def)
  obtain s4 where s4: "settle cf (rs_n_past s) x drafts a s3 = Inr s4" "rep cf s4 (h @ x # acc)"
      "rs_mtp_kv s4 = rs_mtp_kv s3" "rs_kv_toks s4 = rs_kv_toks s3"
    using settle_ok[OF r2 a rp v bk] unfolding acc_def by blast
  define s5 where "s5 = resync_loop (take a vH) acc (s4\<lparr>rs_mtp_past := rs_mtp_past s + 1\<rparr>)"
  define s' where "s' = s5\<lparr>rs_mtp_hidden := HMain (vH ! a), rs_kv_toks := rs_kv_toks s5 @ x # acc, rs_mrope_next := rs_mrope_next s + a + 1\<rparr>"
  have res: "mtp_cycle cf arg draft K x s = Inr (acc, map arg vH ! a, s')"
    using d v s4(1) unfolding mtp_cycle_def Let_def s'_def s5_def a_def acc_def s2_def by simp
  have r5: "rep cf s5 (h @ x # acc)" by (rule rep_cong[OF s4(2)]) (simp_all add: s5_def frame_simps)
  have r': "rep cf s' (h @ x # acc)" by (rule rep_cong[OF r5]) (simp_all add: s'_def)
  have kt: "rs_kv_toks s' = rs_kv_toks s @ x # acc" using s3 s4(4) df by (simp add: s'_def s5_def frame_simps)
  have m': "mrep s' (h @ x # acc)" if m: "mrep s h" and h: "h \<noteq> []"
  proof -
    have mc: "mcache s h" using m by (simp add: mrep_def)
    have len: "length h - 1 \<le> length (rs_mtp_kv s)" using mc unfolding mcache_def by (metis length_take mcells_len min.cobounded1)
    have "take (length h) (rs_mtp_kv s1) = mcells h @ [(HMain (h, h), x)]"
      using draft_loop_cells[OF d] K mc len m h by (auto simp: mcache_def mrep_def)
    then have m4: "mcache (s4\<lparr>rs_mtp_past := rs_mtp_past s + 1\<rparr>) (h @ [x])"
      using mc h by (simp add: mcache_def s4(3) s3 mcells_snoc)
    have "take a vH = map (\<lambda>i. ((h @ [x]) @ take i acc, (h @ [x]) @ take i acc)) [0..<length acc]"
      using a vHa by (intro nth_equalityI) (simp_all add: vH min_def acc_def del: upt_Suc)
    with resync_mcache[OF m4, of acc] have "mcache s5 (h @ x # acc)" by (simp add: s5_def)
    then show ?thesis using vHa[OF a] by (auto simp: mrep_def s'_def acc_def elim!: mcache_cong)
  qed
  have x': "map arg vH ! a = arg (h @ x # acc, h @ x # acc)" using vHa[OF a] a by (simp add: vH acc_def del: upt_Suc)
  have ai: "acc ! i = arg (h @ x # take i acc, h @ x # take i acc)" if i: "i < length acc" for i
  proof -
    have ia: "i < a" "i < length drafts" using i a by (auto simp: acc_def)
    then have "i < accept (map arg vH) drafts" by (auto simp: a_def split: if_splits)
    from accept_spec(3)[OF this] ia vHa[of i] show ?thesis by (simp add: vH min_def acc_def del: upt_Suc)
  qed
  show ?thesis by (rule that[OF res r' kt x' ai m'])
qed

text \<open>The verify forward has no room: nothing in the loop looks.\<close>

lemma mtp_cycle_overflow:
  assumes "mc_n_ctx cf < rs_n_past s + K + 1"
  shows "mtp_cycle cf arg draft K x s = Inl Undefined_behaviour"
proof -
  obtain drafts s1 where d: "draft_loop draft K x s = (drafts, s1)" by (cases "draft_loop draft K x s")
  have "decode_verify cf (x # drafts) s2 = Inl Undefined_behaviour" if "rs_n_past s2 = rs_n_past s" for s2
    using that draft_loop_frame[OF d] assms by (simp add: decode_verify_def)
  then show ?thesis using d draft_loop_frame[OF d] unfolding mtp_cycle_def Let_def by simp
qed

subsection \<open>Speculation does not change the output\<close>

text \<open>Plain greedy decoding, the reference: \<open>g\<close> is the model's arg-max after a history.\<close>

fun greedy_seq :: "(nat list \<Rightarrow> nat) \<Rightarrow> nat list \<Rightarrow> nat \<Rightarrow> nat list" where
  "greedy_seq g h 0 = []"
| "greedy_seq g h (Suc n) = g h # greedy_seq g (h @ [g h]) n"

definition next_tok :: "(nat list \<times> nat list \<Rightarrow> nat) \<Rightarrow> nat list \<Rightarrow> nat" where
  "next_tok arg h = arg (h, h)"

lemma greedy_seq_len [simp]: "length (greedy_seq g h n) = n"
  by (induction n arbitrary: h) simp_all

definition is_greedy :: "(nat list \<Rightarrow> nat) \<Rightarrow> nat list \<Rightarrow> nat list \<Rightarrow> bool" where
  "is_greedy g h ts \<longleftrightarrow> (\<forall>i < length ts. ts ! i = g (h @ take i ts))"

lemma is_greedy_seq: "is_greedy g h ts \<Longrightarrow> ts = greedy_seq g h (length ts)"
proof (induction ts arbitrary: h)
  case (Cons t ts)
  have t: "t = g h" using Cons.prems by (force simp: is_greedy_def)
  have "is_greedy g (h @ [t]) ts"
    unfolding is_greedy_def
  proof (intro allI impI)
    fix i assume "i < length ts"
    then show "ts ! i = g ((h @ [t]) @ take i ts)" using Cons.prems by (force simp: is_greedy_def)
  qed
  from Cons.IH[OF this] t show ?case by simp
qed simp

lemma is_greedy_append:
  "is_greedy g h (us @ vs) \<longleftrightarrow> is_greedy g h us \<and> is_greedy g (h @ us) vs"
proof
  assume l: "is_greedy g h (us @ vs)"
  have "us ! i = g (h @ take i us)" if "i < length us" for i
    using l that unfolding is_greedy_def by (metis append_Nil2 diff_is_0_eq' length_append less_imp_le nth_append take0 take_append trans_less_add1)
  moreover have "vs ! i = g ((h @ us) @ take i vs)" if "i < length vs" for i
    using l[unfolded is_greedy_def, rule_format, of "length us + i"] that by simp
  ultimately show "is_greedy g h us \<and> is_greedy g (h @ us) vs" by (simp add: is_greedy_def)
next
  assume r: "is_greedy g h us \<and> is_greedy g (h @ us) vs"
  have "(us @ vs) ! i = g (h @ take i (us @ vs))" if "i < length (us @ vs)" for i
    using r that by (cases "i < length us") (auto simp: is_greedy_def nth_append)
  then show "is_greedy g h (us @ vs)" by (simp add: is_greedy_def)
qed

lemma is_greedy_take: "is_greedy g h (us @ vs) \<Longrightarrow> is_greedy g h us"
  by (simp add: is_greedy_append)

lemma deliver_spec:
  assumes "deliver on_token max_new out ds = (out', stop, cb)" "length out < max_new"
  shows "\<exists>us vs. ds = us @ vs \<and> out' = out @ us \<and> length out' \<le> max_new \<and> (\<not> stop \<longrightarrow> vs = [] \<and> length out' < max_new) \<and>
    (stop \<longrightarrow> us \<noteq> [] \<and> (if cb then \<not> on_token out' else length out' = max_new)) \<and>
    (\<forall>k < length us. \<not> (cb \<and> k + 1 = length us) \<longrightarrow> on_token (out @ take (k + 1) us))"
  using assms
proof (induction on_token max_new out ds rule: deliver.induct)
  case (1 on_token max_new out)
  then show ?case by simp
next
  case (2 on_token max_new out d ds)
  show ?case
  proof (cases "on_token (out @ [d]) \<and> length (out @ [d]) < max_new")
    case False
    then show ?thesis
      using "2.prems" by (intro exI[of _ "[d]"] exI[of _ ds]) (auto split: if_splits)
  next
    case True
    then have "deliver on_token max_new (out @ [d]) ds = (out', stop, cb)" using "2.prems"(1) by simp
    from "2.IH"[OF _ _ this] True have
      "\<exists>us vs. ds = us @ vs \<and> out' = (out @ [d]) @ us \<and> length out' \<le> max_new \<and> (\<not> stop \<longrightarrow> vs = [] \<and> length out' < max_new) \<and>
        (stop \<longrightarrow> us \<noteq> [] \<and> (if cb then \<not> on_token out' else length out' = max_new)) \<and>
        (\<forall>k < length us. \<not> (cb \<and> k + 1 = length us) \<longrightarrow> on_token ((out @ [d]) @ take (k + 1) us))"
      by (simp only: not_le not_not simp_thms)
    then obtain us vs where
      u: "ds = us @ vs" "out' = (out @ [d]) @ us" "length out' \<le> max_new" "\<not> stop \<longrightarrow> vs = [] \<and> length out' < max_new"
      "stop \<longrightarrow> us \<noteq> [] \<and> (if cb then \<not> on_token out' else length out' = max_new)"
      "\<forall>k < length us. \<not> (cb \<and> k + 1 = length us) \<longrightarrow> on_token ((out @ [d]) @ take (k + 1) us)" by blast
    have "on_token (out @ take (k + 1) (d # us))" if "k < length (d # us)" "\<not> (cb \<and> k + 1 = length (d # us))" for k
      using that True u(6) by (cases k) auto
    then show ?thesis using u by (intro exI[of _ "d # us"] exI[of _ vs]) auto
  qed
qed

text \<open>What a run of the loop guarantees, from a state that represents \<open>h0 @ out\<close>; \<open>M\<close>: the draft cache matched, too.\<close>

definition gen_post ::
  "mcfg \<Rightarrow> (nat list \<Rightarrow> nat) \<Rightarrow> (nat list \<Rightarrow> bool) \<Rightarrow> nat \<Rightarrow> bool \<Rightarrow> nat list \<Rightarrow> nat list \<times> nat option \<times> rstate \<Rightarrow> bool" where
  "gen_post cf g on_token max_new M h0 res \<longleftrightarrow>
     (case res of (out, pend, s) \<Rightarrow>
        is_greedy g h0 out \<and> length out \<le> max_new \<and>
        (if pend = None then length out = max_new else out \<noteq> [] \<and> \<not> on_token out) \<and>
        (\<forall>k. 0 < k \<longrightarrow> k < length out \<longrightarrow> on_token (take k out)) \<and>
        (\<exists>ext. rs_kv_toks s = h0 @ ext \<and> is_greedy g h0 ext \<and> rep cf s (h0 @ ext) \<and> (M \<longrightarrow> mrep s (h0 @ ext)) \<and>
           (\<forall>y. pend = Some y \<longrightarrow> y = g (h0 @ ext))))"

lemma is_greedy_one: "is_greedy g h [x] \<longleftrightarrow> x = g h"
  by (simp add: is_greedy_def)

lemma gen_loop_ok:
  assumes "rep cf s (h0 @ out)" "M \<longrightarrow> mrep s (h0 @ out)" "h0 \<noteq> []" "0 < K" "rs_kv_toks s = h0 @ out"
    "is_greedy (next_tok arg) h0 out" "x = next_tok arg (h0 @ out)" "length out \<le> max_new"
    "\<forall>k. 0 < k \<longrightarrow> k \<le> length out \<longrightarrow> on_token (take k out)" "length h0 + max_new + K \<le> mc_n_ctx cf + 1"
  shows "\<exists>res. gen_loop cf arg draft K on_token max_new out x s = Inr res \<and> gen_post cf (next_tok arg) on_token max_new M h0 res"
  using assms
proof (induction cf arg draft K on_token max_new out x s rule: gen_loop.induct)
  case (1 cf arg draft K on_token max_new out x s)
  let ?g = "next_tok arg"
  note p = "1.prems"
  have gx: "is_greedy ?g h0 (out @ [x])" using p(6,7) by (simp add: is_greedy_append is_greedy_one)
  have ontk: "on_token (take k (out @ [x]))" if "0 < k" "k < length (out @ [x])" for k
    using p(9) that by (simp add: less_Suc_eq_le)
  show ?case
  proof (cases "length out < max_new \<and> on_token (out @ [x]) \<and> length (out @ [x]) < max_new")
    case False
    then consider (full) "length out = max_new" | (cb) "length out < max_new" "\<not> on_token (out @ [x])"
      | (last) "on_token (out @ [x])" "length (out @ [x]) = max_new"
      using p(8) by (metis Suc_leI le_neq_implies_less length_append_singleton)
    then show ?thesis
    proof cases
      case full
      then have "gen_loop cf arg draft K on_token max_new out x s = Inr (out, None, s)" by (subst gen_loop.simps) simp
      then show ?thesis using full p by (auto simp: gen_post_def)
    next
      case cb
      then have "gen_loop cf arg draft K on_token max_new out x s = Inr (out @ [x], Some x, s)" by (subst gen_loop.simps) simp
      then show ?thesis using cb p gx ontk by (auto simp: gen_post_def)
    next
      case last
      then have "gen_loop cf arg draft K on_token max_new out x s = Inr (out @ [x], None, s)" by (subst gen_loop.simps) simp
      then show ?thesis using last p gx ontk by (auto simp: gen_post_def)
    qed
  next
    case True
    have room: "length (h0 @ out) + K + 1 \<le> mc_n_ctx cf" using p(10) True by simp
    obtain acc x' s' where c: "mtp_cycle cf arg draft K x s = Inr (acc, x', s')"
      and cy: "rep cf s' ((h0 @ out) @ x # acc)" "rs_kv_toks s' = rs_kv_toks s @ x # acc"
        "x' = arg ((h0 @ out) @ x # acc, (h0 @ out) @ x # acc)"
        "\<And>i. i < length acc \<Longrightarrow> acc ! i = arg ((h0 @ out) @ x # take i acc, (h0 @ out) @ x # take i acc)"
        "mrep s (h0 @ out) \<Longrightarrow> h0 @ out \<noteq> [] \<Longrightarrow> mrep s' ((h0 @ out) @ x # acc)"
      by (rule mtp_cycle_ok[where arg = arg and draft = draft and x = x, OF p(1,4) room]) blast
    obtain out' stop cb where d: "deliver on_token max_new (out @ [x]) acc = (out', stop, cb)"
      by (cases "deliver on_token max_new (out @ [x]) acc")
    have acc: "is_greedy ?g (h0 @ out @ [x]) acc" using cy(4) by (simp add: is_greedy_def next_tok_def)
    have ext: "is_greedy ?g h0 (out @ x # acc)" using gx acc is_greedy_append[of ?g h0 "out @ [x]" acc] by simp
    from deliver_spec[OF d] True obtain us vs where
      u: "acc = us @ vs" "out' = (out @ [x]) @ us" "length out' \<le> max_new" "\<not> stop \<longrightarrow> vs = [] \<and> length out' < max_new"
      "stop \<longrightarrow> us \<noteq> [] \<and> (if cb then \<not> on_token out' else length out' = max_new)"
      "\<forall>k < length us. \<not> (cb \<and> k + 1 = length us) \<longrightarrow> on_token ((out @ [x]) @ take (k + 1) us)" by blast
    have go: "is_greedy ?g h0 out'" using ext u(1,2) is_greedy_take[of ?g h0 out' vs] by simp
    have tk: "on_token (take k out')" if "0 < k" "k < length out' \<or> k = length out' \<and> \<not> cb" for k
    proof (cases "k \<le> length (out @ [x])")
      case True
      have "on_token (take k (out @ [x]))"
        using ontk[of k] that(1) True \<open>length out < max_new \<and> on_token (out @ [x]) \<and> length (out @ [x]) < max_new\<close>
        by (cases "k = length (out @ [x])") auto
      moreover have "take k out' = take k (out @ [x])" using True unfolding u(2) by (simp only: take_append) simp
      ultimately show ?thesis by simp
    next
      case False
      then obtain j where j: "k = length (out @ [x]) + (j + 1)" by (metis add.commute add_Suc_right le_Suc_ex not_less_eq_eq plus_1_eq_Suc)
      have "j < length us \<and> \<not> (cb \<and> j + 1 = length us)" using that(2) j u(2) by auto
      then have "on_token ((out @ [x]) @ take (j + 1) us)" using u(6) by blast
      then show ?thesis using j u(2) by simp
    qed
    have loop: "gen_loop cf arg draft K on_token max_new out x s =
        (if stop then Inr (out', if cb then Some x' else None, s') else gen_loop cf arg draft K on_token max_new out' x' s')"
      using True c d by (subst gen_loop.simps) simp
    show ?thesis
    proof (cases stop)
      case True
      have "\<exists>e. rs_kv_toks s' = h0 @ e \<and> is_greedy ?g h0 e \<and> rep cf s' (h0 @ e) \<and> (M \<longrightarrow> mrep s' (h0 @ e)) \<and> x' = ?g (h0 @ e)"
        using cy p(2,3,5) ext by (intro exI[of _ "out @ x # acc"]) (simp add: next_tok_def)
      then show ?thesis using True loop go u(3,5) tk u(2) by (auto simp: gen_post_def)
    next
      case False
      then have a: "acc = us" "out' = out @ x # acc" using u by auto
      have "\<exists>res. gen_loop cf arg draft K on_token max_new out' x' s' = Inr res \<and> gen_post cf ?g on_token max_new M h0 res"
      proof (rule "1.IH"[OF _ _ _ c _ _ d[symmetric]])
        show "is_greedy ?g h0 out'" by (rule go)
        show "\<forall>k. 0 < k \<longrightarrow> k \<le> length out' \<longrightarrow> on_token (take k out')"
        proof (intro allI impI)
          fix k assume "0 < k" "k \<le> length out'"
          then show "on_token (take k out')" using tk[of k] deliver_cb[OF d] False by (simp only: le_less) blast
        qed
      qed (use True False p cy a go u in \<open>auto simp: next_tok_def\<close>)
      then show ?thesis using loop False by simp
    qed
  qed
qed


subsection \<open>An instance\<close>

text \<open>A model that continues \<open>n\<close> by \<open>n + 1\<close>, with a draft block that is right every other time.\<close>

definition fresh_rs :: rstate where
  "fresh_rs = \<lparr>rs_n_past = 0, rs_kv = [], rs_rec = [], rs_ckpt = [], rs_backup = [], rs_logits = ([], []),
     rs_mrope_next = 0, rs_mtp_past = 0, rs_mtp_kv = [], rs_mtp_hidden = HBlock [], rs_kv_toks = []\<rparr>"

definition count_up :: "nat list \<times> nat list \<Rightarrow> nat" where
  "count_up v = last (fst v) + 1"

definition some_draft :: "(hid \<times> nat) list \<Rightarrow> nat" where
  "some_draft cs = (let t = snd (last cs) in if t mod 3 = 0 then 0 else t + 1)"

definition off_cfg :: mcfg where
  "off_cfg = \<lparr>mc_gdn = True, mc_ecache = True, mc_batch_fits = False, mc_no_batch_prefill = False, mc_no_accept = False,
     mc_fast = False, mc_n_ctx = 9\<rparr>"

lemma fresh_rep: "rep cf fresh_rs []" "mrep fresh_rs []" "rs_kv_toks fresh_rs = []"
  by (simp_all add: rep_def mrep_def mcache_def mcells_def fresh_rs_def)


subsection \<open>At the end of the context\<close>

text \<open>
  The server's callback stops a generation when \<open>n_past + 1\<close> reaches the context size, but a
  cycle writes \<open>K + 1\<close> cells at once. Whenever the prompt fits while fewer than \<open>K + 1\<close> cells are left
  behind it, more than one token is asked for and the callback accepts the first one, the generation
  writes outside the caches, whatever the model and the draft block compute; with two drafts or more
  this includes generations at whose first token the callback's test has not tripped.
\<close>

theorem generate_mtp_overruns:
  assumes "rep cf s h" "h @ prompt \<noteq> []" "prompt = [] \<longrightarrow> rs_logits s = (h, h)"
    and "length h + length prompt \<le> mc_n_ctx cf" "mc_n_ctx cf < length h + length prompt + draft_count n_draft + 1"
    and "1 < max_new" "on_token [next_tok arg (h @ prompt)]"
  shows "generate_mtp cf arg draft img prompt max_new n_draft on_token s = Inl Undefined_behaviour"
proof -
  let ?h = "h @ prompt"
  obtain s1 where s1: "(if prompt = [] then Inr s else prefill cf img prompt True s) = Inr s1"
      "rep cf s1 ?h" "rs_logits s1 = (?h, ?h)"
    using prefill_ok[OF assms(1,4), of img] assms(1-3) by (cases "prompt = []") auto
  let ?s2 = "s1\<lparr>rs_kv_toks := rs_kv_toks s1 @ prompt\<rparr>" and ?x = "next_tok arg ?h"
  have "mtp_cycle cf arg draft (draft_count n_draft) ?x ?s2 = Inl Undefined_behaviour"
    by (rule mtp_cycle_overflow) (use s1(2) assms(5) in \<open>simp add: rep_def\<close>)
  then have "gen_loop cf arg draft (draft_count n_draft) on_token max_new [] ?x ?s2 = Inl Undefined_behaviour"
    using assms(6,7) by (subst gen_loop.simps) simp
  then show ?thesis using s1(1,3) by (simp add: generate_mtp_def Let_def next_tok_def)
qed

theorem generate_mtp_overruns_witness:
  "generate_mtp off_cfg count_up some_draft None [1, 2, 3, 4, 5, 6, 7] 5 2 (\<lambda>out. 7 + 1 < mc_n_ctx off_cfg) fresh_rs =
     Inl Undefined_behaviour"
  by (rule generate_mtp_overruns[OF fresh_rep(1)]) (simp_all add: off_cfg_def draft_count_def)

end
