(* ===== verification/Cpp_String.thy ===== *)
theory Cpp_String
  imports QW_Prelude "HOL-Library.Sublist"
begin

section \<open>Operations of \<open>std::string\<close>\<close>

text \<open>
  The string operations the tokenizer, the chat templates and the server use. A position that the
  C++ functions report as \<open>npos\<close> is \<open>None\<close>. \<open>substr\<close> clamps at the end of the string as C++ does; every
  caller stays within the range where C++ does not throw.
\<close>

definition substr :: "string \<Rightarrow> nat \<Rightarrow> nat \<Rightarrow> string" where
  "substr s i n = take n (drop i s)"

text \<open>\<open>s.find(pat, from)\<close>\<close>

fun find_in :: "string \<Rightarrow> string \<Rightarrow> nat \<Rightarrow> nat option" where
  "find_in pat [] k = (if pat = [] then Some k else None)"
| "find_in pat (c # s) k = (if prefix pat (c # s) then Some k else find_in pat s (k + 1))"

definition str_find :: "string \<Rightarrow> string \<Rightarrow> nat \<Rightarrow> nat option" where
  "str_find s pat from = (if from \<le> length s then find_in pat (drop from s) from else None)"

text \<open>\<open>s.find_first_not_of(chars)\<close> and \<open>s.find_last_not_of(chars)\<close>\<close>

definition find_first_not_of :: "string \<Rightarrow> string \<Rightarrow> nat option" where
  "find_first_not_of s chars =
     (let k = length (takeWhile (\<lambda>c. c \<in> set chars) s) in if k < length s then Some k else None)"

definition find_last_not_of :: "string \<Rightarrow> string \<Rightarrow> nat option" where
  "find_last_not_of s chars =
     (let k = length (takeWhile (\<lambda>c. c \<in> set chars) (rev s)) in if k < length s then Some (length s - 1 - k) else None)"

text \<open>\<open>s.rfind(pat)\<close>\<close>

definition str_rfind :: "string \<Rightarrow> string \<Rightarrow> nat option" where
  "str_rfind s pat = find (\<lambda>i. prefix pat (drop i s)) (rev [0..<length s + 1])"

subsection \<open>What they return\<close>

lemma find_in_Some:
  "find_in pat s k = Some j \<Longrightarrow> k \<le> j \<and> j - k \<le> length s \<and> prefix pat (drop (j - k) s) \<and> (\<forall>i < j - k. \<not> prefix pat (drop i s))"
proof (induction pat s k rule: find_in.induct)
  case (2 pat c s k)
  show ?case
  proof (cases "prefix pat (c # s)")
    case False
    then have *: "k + 1 \<le> j \<and> j - (k + 1) \<le> length s \<and> prefix pat (drop (j - (k + 1)) s) \<and>
        (\<forall>i < j - (k + 1). \<not> prefix pat (drop i s))" using 2 by simp
    have "\<not> prefix pat (drop i (c # s))" if "i < j - k" for i
      using False * that by (cases i) auto
    moreover have "j - k = Suc (j - (k + 1))" using * by linarith
    ultimately show ?thesis using * by simp
  qed (use 2 in simp)
qed (auto split: if_splits)

lemma find_in_None: "find_in pat s k = None \<Longrightarrow> \<not> prefix pat (drop i s)"
proof (induction pat s k arbitrary: i rule: find_in.induct)
  case (2 pat c s k)
  then show ?case by (cases i) (auto split: if_splits)
qed (auto split: if_splits)

lemma str_find_Some:
  assumes "str_find s pat from = Some j"
  shows "from \<le> j" "j + length pat \<le> length s" "prefix pat (drop j s)" "\<And>i. from \<le> i \<Longrightarrow> i < j \<Longrightarrow> \<not> prefix pat (drop i s)"
proof -
  from assms have f: "from \<le> length s" "find_in pat (drop from s) from = Some j" by (auto simp: str_find_def split: if_splits)
  note * = find_in_Some[OF f(2)]
  then show 1: "from \<le> j" "prefix pat (drop j s)" by auto
  show "j + length pat \<le> length s" using * f(1) prefix_length_le[OF 1(2)] by auto
  fix i assume "from \<le> i" "i < j"
  then show "\<not> prefix pat (drop i s)" using * by (metis diff_less_mono drop_drop le_add_diff_inverse2)
qed

lemma str_find_None:
  assumes "str_find s pat from = None" "from \<le> i" "i \<le> length s"
  shows "\<not> prefix pat (drop i s)"
  using assms find_in_None[of pat "drop from s" "from" "i - from"] by (auto simp: str_find_def split: if_splits)

lemma str_find_at:
  assumes "from \<le> j" "j \<le> length s" "prefix pat (drop j s)"
  obtains k where "str_find s pat from = Some k" "k \<le> j"
proof (cases "str_find s pat from")
  case None
  then show ?thesis using str_find_None[OF None assms(1,2)] assms(3) by simp
next
  case (Some k)
  then show ?thesis using str_find_Some(4)[OF Some assms(1)] assms(3) that by (meson not_le)
qed

lemma substr_prefix: "prefix pat (drop i s) \<Longrightarrow> substr s i (length pat) = pat"
  by (auto simp: substr_def prefix_def)

lemma find_append: "find P (xs @ ys) = (case find P xs of None \<Rightarrow> find P ys | Some x \<Rightarrow> Some x)"
  by (induction xs) auto

lemma str_rfind_eq:
  assumes "i \<le> length s" "prefix pat (drop i s)" "\<And>j. i < j \<Longrightarrow> j \<le> length s \<Longrightarrow> \<not> prefix pat (drop j s)"
  shows "str_rfind s pat = Some i"
proof -
  have "[0..<length s + 1] = [0..<i] @ i # [Suc i..<length s + 1]"
    using assms(1) by (metis Suc_eq_plus1 le_imp_less_Suc upt_add_eq_append upt_conv_Cons zero_le le_add_diff_inverse2 add.commute less_imp_le add_0)
  then have "rev [0..<length s + 1] = rev [Suc i..<length s + 1] @ i # rev [0..<i]" by simp
  moreover have "\<not> prefix pat (drop j s)" if "j \<in> set (rev [Suc i..<length s + 1])" for j
    using that assms(3)[of j] by auto
  then have "find (\<lambda>i. prefix pat (drop i s)) (rev [Suc i..<length s + 1]) = None" unfolding find_None_iff by blast
  ultimately show ?thesis using assms(2) by (simp add: str_rfind_def find_append)
qed

end
