(* ===== verification/Utf8.thy ===== *)
theory Utf8
  imports Cpp_String "HOL-Library.Word"
begin

unbundle bit_operations_syntax

section \<open>UTF-8 and the byte alphabet of the tokenizer\<close>

text \<open>
  \<open>utf8_append\<close>, \<open>utf8_decode\<close> and \<open>build_byte_unicode\<close> of \<open>core/tokenizer.cpp\<close>. A C++ string is a
  list of 8-bit characters; a cast to \<open>char\<close> keeps the low eight bits (\<open>char_of\<close>), code points are
  natural numbers (the decoder builds at most 21 bits, so its 32-bit arithmetic never wraps).
\<close>

definition utf8_append :: "string \<Rightarrow> nat \<Rightarrow> string" where
  "utf8_append s cp =
     s @ (if cp < 0x80 then [char_of cp]
      else if cp < 0x800 then [char_of (0xC0 OR drop_bit 6 cp), char_of (0x80 OR (cp AND 0x3F))]
      else if cp < 0x10000 then
        [char_of (0xE0 OR drop_bit 12 cp), char_of (0x80 OR (drop_bit 6 cp AND 0x3F)), char_of (0x80 OR (cp AND 0x3F))]
      else [char_of (0xF0 OR drop_bit 18 cp), char_of (0x80 OR (drop_bit 12 cp AND 0x3F)),
            char_of (0x80 OR (drop_bit 6 cp AND 0x3F)), char_of (0x80 OR (cp AND 0x3F))])"

record CP =
  cp :: nat
  off :: nat
  len :: nat

text \<open>The length and the payload bits announced by a leading byte.\<close>

definition lead :: "nat \<Rightarrow> nat \<times> nat" where
  "lead c =
     (if c < 0x80 then (c, 1)
      else if drop_bit 5 c = 0x6 then (c AND 0x1F, 2)
      else if drop_bit 4 c = 0xE then (c AND 0x0F, 3)
      else if drop_bit 3 c = 0x1E then (c AND 0x07, 4)
      else (c, 1))"

definition tail_bits :: "nat \<Rightarrow> string \<Rightarrow> nat" where
  "tail_bits c ks = fold (\<lambda>k c. push_bit 6 c OR (of_char k AND 0x3F)) ks c"

lemma lead_pos: "0 < snd (lead c)"
  by (simp add: lead_def)

function utf8_decode_at :: "nat \<Rightarrow> string \<Rightarrow> CP list" where
  "utf8_decode_at i [] = []"
| "utf8_decode_at i (c # s) =
     (case lead (of_char c) of (b, n) \<Rightarrow>
        \<lparr>cp = tail_bits b (take (n - 1) s), off = i, len = n\<rparr> # utf8_decode_at (i + n) (drop (n - 1) s))"
  by pat_completeness auto
termination by (relation "measure (\<lambda>(i, s). length s)") auto

definition utf8_decode :: "string \<Rightarrow> CP list" where
  "utf8_decode s = utf8_decode_at 0 s"

subsection \<open>Decoding tiles the string\<close>

text \<open>Consecutive code points: each starts where the previous one ends.\<close>

fun tiles :: "nat \<Rightarrow> CP list \<Rightarrow> bool" where
  "tiles i [] = True"
| "tiles i (c # cs) = (off c = i \<and> 0 < len c \<and> tiles (i + len c) cs)"

definition span :: "CP list \<Rightarrow> nat" where
  "span cs = sum_list (map len cs)"

lemma tiles_append: "tiles i (cs @ ds) \<longleftrightarrow> tiles i cs \<and> tiles (i + span cs) ds"
  by (induction cs arbitrary: i) (auto simp: span_def add.assoc)

lemma tiles_decode: "tiles i (utf8_decode_at i s)"
proof (induction i s rule: utf8_decode_at.induct)
  case (2 i c s)
  obtain b n where l: "lead (of_char c) = (b, n)" by force
  then have "0 < n" using lead_pos[of "of_char c"] by simp
  then show ?case using "2.IH"[OF l[symmetric]] by (simp add: l)
qed simp

lemma span_decode: "length s \<le> span (utf8_decode_at i s)"
proof (induction i s rule: utf8_decode_at.induct)
  case (2 i c s)
  obtain b n where l: "lead (of_char c) = (b, n)" by force
  then have "0 < n" using lead_pos[of "of_char c"] by simp
  then show ?case using "2.IH"[OF l[symmetric]] by (simp add: l span_def)
qed (simp add: span_def)

subsection \<open>Arithmetic of the encoder\<close>

lemma and_low6: "x AND 63 = x mod (64::nat)"
  using take_bit_eq_mask[of 6 x] by (simp add: mask_eq_exp_minus_1 take_bit_eq_mod)

lemma or_low: "x < 2 ^ k \<Longrightarrow> push_bit k a OR x = push_bit k a + (x::nat)"
proof -
  assume "x < 2 ^ k"
  then have x: "x = take_bit k x" by (simp add: take_bit_eq_mod)
  have "push_bit k a AND take_bit k x = 0" by (rule bit_eqI) (auto simp: bit_simps)
  then show ?thesis by (metis x disjunctive_add_eq_or)
qed

lemma or_lows:
  "x < 64 \<Longrightarrow> 128 OR x = 128 + (x::nat)" "x < 32 \<Longrightarrow> 192 OR x = 192 + (x::nat)"
  "x < 16 \<Longrightarrow> 224 OR x = 224 + (x::nat)" "x < 8 \<Longrightarrow> 240 OR x = 240 + (x::nat)"
  "x < 64 \<Longrightarrow> push_bit 6 c OR x = c * 64 + (x::nat)"
  using or_low[of x 6 2] or_low[of x 5 6] or_low[of x 4 14] or_low[of x 3 30] or_low[of x 6 c]
  by (simp_all add: push_bit_eq_mult)

lemma enc_eq:
  assumes "n < 0x200000"
  shows "utf8_append s n =
    s @ (if n < 0x80 then [char_of n]
     else if n < 0x800 then [char_of (192 + n div 64), char_of (128 + n mod 64)]
     else if n < 0x10000 then [char_of (224 + n div 4096), char_of (128 + n div 64 mod 64), char_of (128 + n mod 64)]
     else [char_of (240 + n div 262144), char_of (128 + n div 4096 mod 64), char_of (128 + n div 64 mod 64), char_of (128 + n mod 64)])"
proof -
  have "n < 0x800 \<Longrightarrow> n div 64 < 32" "n < 0x10000 \<Longrightarrow> n div 4096 < 16" "n div 262144 < 8"
    using assms by (auto simp: less_mult_imp_div_less)
  then show ?thesis
    by (simp add: utf8_append_def drop_bit_eq_div and_low6 or_lows)
qed

lemma tail_bits_Cons:
  assumes "m < 64"
  shows "tail_bits c (char_of (128 + m) # ks) = tail_bits (c * 64 + m) ks"
proof -
  have "of_char (char_of (128 + m) :: char) = 128 + m" using assms by (simp add: of_char_of)
  moreover have "(128 + m) mod 64 = m" using assms by (subst mod_add_left_eq[symmetric]) simp
  ultimately show ?thesis by (simp add: tail_bits_def and_low6 or_lows assms)
qed

lemma lead_byte:
  "n < 0x80 \<Longrightarrow> lead n = (n, 1)" "m < 32 \<Longrightarrow> lead (192 + m) = (m, 2)"
  "m < 16 \<Longrightarrow> lead (224 + m) = (m, 3)" "m < 8 \<Longrightarrow> lead (240 + m) = (m, 4)"
proof -
  have "list_all (\<lambda>m. lead (192 + m) = (m, 2)) [0..<32] \<and> list_all (\<lambda>m. lead (224 + m) = (m, 3)) [0..<16] \<and>
    list_all (\<lambda>m. lead (240 + m) = (m, 4)) [0..<8]" by code_simp
  then show "m < 32 \<Longrightarrow> lead (192 + m) = (m, 2)" "m < 16 \<Longrightarrow> lead (224 + m) = (m, 3)" "m < 8 \<Longrightarrow> lead (240 + m) = (m, 4)"
    by (auto simp: list_all_iff)
qed (simp add: lead_def)

subsection \<open>Round trip\<close>

definition encode_cps :: "nat list \<Rightarrow> string" where
  "encode_cps ns = fold (\<lambda>n s. utf8_append s n) ns []"

lemma utf8_append_Nil: "utf8_append s n = s @ utf8_append [] n"
  by (simp add: utf8_append_def)

lemma encode_cps_simps [simp]: "encode_cps [] = []" "encode_cps (n # ns) = utf8_append [] n @ encode_cps ns"
proof -
  have *: "fold (\<lambda>n s. utf8_append s n) ns s = s @ encode_cps ns" for s ns
  proof (induction ns arbitrary: s)
    case (Cons n ns)
    have "fold (\<lambda>n s. utf8_append s n) (n # ns) s = s @ utf8_append [] n @ encode_cps ns"
      using Cons[of "utf8_append s n"] utf8_append_Nil[of s n] by simp
    moreover have "encode_cps (n # ns) = utf8_append [] n @ encode_cps ns"
      using Cons[of "utf8_append [] n"] by (simp add: encode_cps_def)
    ultimately show ?case by simp
  qed (simp add: encode_cps_def)
  show "encode_cps (n # ns) = utf8_append [] n @ encode_cps ns"
    using *[of ns "utf8_append [] n"] by (simp add: encode_cps_def)
qed (simp add: encode_cps_def)

lemma encode_cps_append [simp]: "encode_cps (ns @ ms) = encode_cps ns @ encode_cps ms"
  by (induction ns) simp_all

lemma of_char_small: "n < 256 \<Longrightarrow> of_char (char_of n :: char) = (n::nat)"
  by (simp add: of_char_of)

lemma digits64:
  "(n div 4096 * 64 + n div 64 mod 64) * 64 + n mod 64 = (n::nat)"
  "((n div 262144 * 64 + n div 4096 mod 64) * 64 + n div 64 mod 64) * 64 + n mod 64 = (n::nat)"
proof -
  have 1: "m div 4096 * 64 + m div 64 mod 64 = m div 64" for m :: nat
    using div_mult_mod_eq[of "m div 64" 64] by (simp add: div_mult2_eq[symmetric])
  then show "(n div 4096 * 64 + n div 64 mod 64) * 64 + n mod 64 = n" by (simp add: div_mult_mod_eq)
  have "n div 262144 * 64 + n div 4096 mod 64 = n div 4096"
    using 1[of "n div 64"] by (simp add: div_mult2_eq[symmetric])
  then show "((n div 262144 * 64 + n div 4096 mod 64) * 64 + n div 64 mod 64) * 64 + n mod 64 = n"
    by (simp add: 1 div_mult_mod_eq)
qed

lemma decode_enc1:
  assumes "n < 0x200000"
  shows "map cp (utf8_decode_at i (utf8_append [] n @ s)) = n # map cp (utf8_decode_at (i + length (utf8_append [] n)) s)"
proof -
  consider "n < 0x80" | "0x80 \<le> n" "n < 0x800" | "0x800 \<le> n" "n < 0x10000" | "0x10000 \<le> n" by linarith
  then show ?thesis
  proof cases
    case 1
    then show ?thesis by (simp add: enc_eq of_char_small lead_byte(1) tail_bits_def)
  next
    case 2
    then have "n div 64 < 32" by (simp add: less_mult_imp_div_less)
    with 2 show ?thesis by (simp add: enc_eq of_char_small lead_byte(2) tail_bits_Cons) (simp add: tail_bits_def)
  next
    case 3
    then have "n div 4096 < 16" by (simp add: less_mult_imp_div_less)
    moreover have "(n div 4096 * 64 + n div 64 mod 64) * 64 + n mod 64 = n"
      by (rule digits64(1))
    ultimately show ?thesis using 3 assms
      by (simp add: enc_eq of_char_small lead_byte(3) tail_bits_Cons numeral_2_eq_2[symmetric]) (simp add: tail_bits_def)
  next
    case 4
    have four: "i + 4 = Suc (Suc (Suc (Suc i)))" by simp
    from 4 have "n div 262144 < 8" using assms by (simp add: less_mult_imp_div_less)
    moreover have "((n div 262144 * 64 + n div 4096 mod 64) * 64 + n div 64 mod 64) * 64 + n mod 64 = n"
      by (rule digits64(2))
    ultimately show ?thesis using 4 assms
      by (simp add: enc_eq of_char_small lead_byte(4) tail_bits_Cons) (simp add: tail_bits_def four)
  qed
qed

lemma decode_encode_cps: "list_all (\<lambda>n. n < 0x200000) ns \<Longrightarrow> map cp (utf8_decode (encode_cps ns)) = ns"
proof -
  have "map cp (utf8_decode_at i (encode_cps ns)) = ns" if "list_all (\<lambda>n. n < 0x200000) ns" for i ns
    using that by (induction ns arbitrary: i) (simp_all add: decode_enc1)
  then show "list_all (\<lambda>n. n < 0x200000) ns \<Longrightarrow> map cp (utf8_decode (encode_cps ns)) = ns" by (simp add: utf8_decode_def)
qed

text \<open>
  UTF-8 round trip: decoding the bytes that \<open>utf8_append\<close> writes for any sequence of code points
  of at most 21 bits gives the sequence back.
\<close>

theorem utf8_roundtrip:
  assumes "\<forall>n \<in> set ns. n < 0x200000"
  shows "map cp (utf8_decode (fold (\<lambda>n s. utf8_append s n) ns [])) = ns"
  using decode_encode_cps[of ns] assms by (simp add: encode_cps_def list_all_iff)

theorem utf8_roundtrip_witness: "map cp (utf8_decode (fold (\<lambda>n s. utf8_append s n) [0x41, 0x3042, 0x1F600] [])) = [0x41, 0x3042, 0x1F600]"
  by (rule utf8_roundtrip) simp

subsection \<open>The byte alphabet\<close>

text \<open>
  The loop of \<open>build_byte_unicode\<close>: printable bytes stand for themselves, the others for consecutive
  code points from 256. The two maps are filled in the same iteration.
\<close>

definition in_printable :: "nat \<Rightarrow> bool" where
  "in_printable b = (b \<ge> 0x21 \<and> b \<le> 0x7E \<or> b \<ge> 0xA1 \<and> b \<le> 0xAC \<or> b \<ge> 0xAE \<and> b \<le> 0xFF)"

fun build_byte_unicode :: "nat \<Rightarrow> nat list \<Rightarrow> (nat \<times> nat) list" where
  "build_byte_unicode n [] = []"
| "build_byte_unicode n (b # bs) =
     (if in_printable b then (b, b) # build_byte_unicode n bs else (b, 256 + n) # build_byte_unicode (n + 1) bs)"

definition byte_unicode :: "(nat \<times> nat) list" where
  "byte_unicode = build_byte_unicode 0 [0..<256]"

definition byte_to_uni :: "char \<Rightarrow> nat" where
  "byte_to_uni b = (case map_of (rev byte_unicode) (of_char b) of Some u \<Rightarrow> u | None \<Rightarrow> 0)"

definition uni_to_byte :: "nat \<Rightarrow> char option" where
  "uni_to_byte u = map_option char_of (map_of (rev (map prod.swap byte_unicode)) u)"

lemma build_fst: "map fst (build_byte_unicode n bs) = bs"
  by (induction n bs rule: build_byte_unicode.induct) simp_all

lemma build_snd:
  assumes "set bs \<subseteq> {..<256}" "distinct bs"
  shows "distinct (map snd (build_byte_unicode n bs)) \<and>
    (\<forall>u \<in> snd ` set (build_byte_unicode n bs). u < 256 \<and> u \<in> set bs \<or> 256 + n \<le> u \<and> u < 256 + n + length bs)"
  using assms
proof (induction n bs rule: build_byte_unicode.induct)
  case (2 n b bs)
  show ?case
  proof (cases "in_printable b")
    case True
    with 2 show ?thesis by fastforce
  next
    case False
    with 2 show ?thesis by fastforce
  qed
qed simp

lemma build_printable: "(b, u) \<in> set (build_byte_unicode n bs) \<Longrightarrow> in_printable b \<Longrightarrow> u = b"
  by (induction n bs rule: build_byte_unicode.induct) (auto split: if_splits)

lemma byte_to_uni_in: "(of_char b, byte_to_uni b) \<in> set byte_unicode"
proof -
  have f: "map fst byte_unicode = [0..<256]" by (simp add: byte_unicode_def build_fst)
  then have "of_char b \<in> set (map fst byte_unicode)" by simp
  then obtain u where u: "(of_char b, u) \<in> set byte_unicode" by auto
  then have "map_of (rev byte_unicode) (of_char b) = Some u"
    using f by (simp add: rev_map[symmetric])
  with u show ?thesis by (simp add: byte_to_uni_def)
qed

lemma byte_to_uni_printable: "in_printable (of_char b) \<Longrightarrow> byte_to_uni b = of_char b"
  using byte_to_uni_in[of b] build_printable by (fastforce simp: byte_unicode_def)

lemma byte_uni: "uni_to_byte (byte_to_uni b) = Some b" "byte_to_uni b < 512"
proof -
  have tab: "distinct (map snd byte_unicode)" "\<forall>u \<in> snd ` set byte_unicode. u < 512"
    using build_snd[of "[0..<256]" 0] by (fastforce simp: byte_unicode_def)+
  have "(byte_to_uni b, of_char b) \<in> set (rev (map prod.swap byte_unicode))" using byte_to_uni_in[of b] by force
  then have "map_of (rev (map prod.swap byte_unicode)) (byte_to_uni b) = Some (of_char b)"
    using tab(1) by (intro map_of_is_SomeI) (simp_all add: rev_map[symmetric] comp_def)
  then show "uni_to_byte (byte_to_uni b) = Some b" by (simp add: uni_to_byte_def)
  show "byte_to_uni b < 512" using tab(2) byte_to_uni_in[of b] by force
qed

end
