(* ===== verification/Pretokenizer.thy ===== *)
theory Pretokenizer
  imports Utf8
begin

section \<open>Pre-tokenization\<close>

text \<open>
  The two scanners of \<open>core/tokenizer.cpp\<close> that cut a text into pieces before byte-pair encoding. Each
  loop iteration looks at the remaining code points and takes the first \<open>step\<close> of them as a piece; the
  index arithmetic of the code (\<open>i\<close>, \<open>j\<close>, \<open>nl_end\<close>) is relative to the remaining list here.
\<close>

subsection \<open>Code point classes\<close>

definition cp_in :: "nat \<Rightarrow> nat \<Rightarrow> nat \<Rightarrow> bool" where
  "cp_in c lo hi = (c \<ge> lo \<and> c \<le> hi)"

definition cp_is_number :: "nat \<Rightarrow> bool" where
  "cp_is_number c = (c \<ge> 0x30 \<and> c \<le> 0x39 \<or> cp_in c 0xFF10 0xFF19)"

definition cp_is_cjk_run :: "nat \<Rightarrow> bool" where
  "cp_is_cjk_run c = (cp_in c 0x4E00 0x9FA5 \<or> cp_in c 0x3040 0x309F \<or> cp_in c 0x30A0 0x30FF)"

definition cp_is_punct_or_symbol :: "nat \<Rightarrow> bool" where
  "cp_is_punct_or_symbol c =
     (if c < 0x80 then
        c \<ge> 0x21 \<and> c \<le> 0x2F \<or> c \<ge> 0x3A \<and> c \<le> 0x40 \<or> c \<ge> 0x5B \<and> c \<le> 0x60 \<or> c \<ge> 0x7B \<and> c \<le> 0x7E
      else cp_in c 0x00A1 0x00BF \<or> c = 0x00D7 \<or> c = 0x00F7 \<or> cp_in c 0x2000 0x206F \<or> cp_in c 0x20A0 0x20CF \<or>
        cp_in c 0x2190 0x2BFF \<or> cp_in c 0x2E00 0x2E7F \<or> cp_in c 0x3000 0x303F \<or> cp_in c 0xFE10 0xFE6F \<or>
        cp_in c 0xFF01 0xFF0F \<or> cp_in c 0xFF1A 0xFF20 \<or> cp_in c 0xFF3B 0xFF40 \<or> cp_in c 0xFF5B 0xFF65)"

definition cp_is_mark :: "nat \<Rightarrow> bool" where
  "cp_is_mark c =
     (cp_in c 0x0300 0x036F \<or> cp_in c 0x1AB0 0x1AFF \<or> cp_in c 0x20D0 0x20FF \<or> cp_in c 0xFE20 0xFE2F)"

definition cp_is_space :: "nat \<Rightarrow> bool" where
  "cp_is_space c = (c = 0x20 \<or> c = 0x09 \<or> c = 0x0A \<or> c = 0x0D \<or> c = 0x0B \<or> c = 0x0C)"

definition cp_is_letter :: "nat \<Rightarrow> bool" where
  "cp_is_letter c =
     (if c < 0x80 then c \<ge> 0x41 \<and> c \<le> 0x5A \<or> c \<ge> 0x61 \<and> c \<le> 0x7A
      else \<not> cp_is_space c \<and> \<not> cp_is_number c \<and> \<not> cp_is_punct_or_symbol c \<and> \<not> cp_is_mark c)"

definition is_nl :: "nat \<Rightarrow> bool" where "is_nl c = (c = 0x0A \<or> c = 0x0D)"

subsection \<open>Runs\<close>

text \<open>The length of the longest prefix of characters with a property (the \<open>while (j < n && ...) ++j\<close> loops).\<close>

definition run :: "('a \<Rightarrow> bool) \<Rightarrow> 'a list \<Rightarrow> nat" where
  "run P cs = length (takeWhile P cs)"

lemma run_le: "run P cs \<le> length cs"
  by (simp add: run_def length_takeWhile_le)

lemma run_drop_le: "n \<le> length cs \<Longrightarrow> n + run P (drop n cs) \<le> length cs"
  using run_le[of P "drop n cs"] by simp

lemma run_take_le: "run P (take n cs) \<le> length cs"
  using run_le[of P "take n cs"] by simp

lemma run_Cons: "run P (c # cs) = (if P c then Suc (run P cs) else 0)"
  by (simp add: run_def)

text \<open>One past the last line break of a run, or 0.\<close>

fun nl_end :: "nat \<Rightarrow> nat list \<Rightarrow> nat \<Rightarrow> nat" where
  "nl_end k [] e = e"
| "nl_end k (c # cs) e = nl_end (k + 1) cs (if is_nl c then k + 1 else e)"

lemma nl_end_le: "e \<le> k \<Longrightarrow> nl_end k cs e \<le> k + length cs"
  by (induction k cs e rule: nl_end.induct) (auto split: if_splits)

text \<open>The white-space rules at the end of both scanners; 0 when no white space starts here.\<close>

definition space_step :: "nat list \<Rightarrow> nat" where
  "space_step cs =
     (let j = run cp_is_space cs; e = nl_end 0 (take j cs) 0 in
      if e > 0 then e else if j < length cs \<and> j > 1 then j - 1 else j)"

lemma space_step_bounds: "space_step cs \<le> length cs" "cs \<noteq> [] \<Longrightarrow> cp_is_space (hd cs) \<Longrightarrow> 0 < space_step cs"
proof -
  let ?j = "run cp_is_space cs"
  have "nl_end 0 (take ?j cs) 0 \<le> length cs" using nl_end_le[of 0 0 "take ?j cs"] by simp
  then show "space_step cs \<le> length cs" using run_le[of cp_is_space cs] by (auto simp: space_step_def Let_def)
  show "cs \<noteq> [] \<Longrightarrow> cp_is_space (hd cs) \<Longrightarrow> 0 < space_step cs"
    by (cases cs) (auto simp: space_step_def Let_def run_Cons)
qed

subsection \<open>The qwen scanner\<close>

definition q_letter :: "nat \<Rightarrow> bool" where
  "q_letter c = (if c < 0x80 then c \<ge> 0x41 \<and> c \<le> 0x5A \<or> c \<ge> 0x61 \<and> c \<le> 0x7A else cp_is_letter c \<or> cp_is_mark c)"

definition q_punct :: "nat \<Rightarrow> bool" where
  "q_punct c = (\<not> cp_is_space c \<and> \<not> q_letter c \<and> \<not> cp_is_number c)"

definition lower :: "nat \<Rightarrow> nat" where
  "lower c = (if c \<ge> 0x41 \<and> c \<le> 0x5A then c + 32 else c)"

text \<open>The contractions \<open>'s 't 'm 'd 're 've 'll\<close>: how many code points they take, or 0.\<close>

definition contraction :: "nat list \<Rightarrow> nat" where
  "contraction cs =
     (if length cs > 1 \<and> cs ! 0 = 0x27 then
        let d = lower (cs ! 1) in
        if d = 0x73 \<or> d = 0x74 \<or> d = 0x6D \<or> d = 0x64 then 2
        else if length cs > 2 then
          let e = lower (cs ! 2) in
          if d = 0x72 \<and> e = 0x65 \<or> d = 0x76 \<and> e = 0x65 \<or> d = 0x6C \<and> e = 0x6C then 3 else 0
        else 0
      else 0)"

definition punct_step :: "(nat \<Rightarrow> bool) \<Rightarrow> nat list \<Rightarrow> nat" where
  "punct_step P cs =
     (let j0 = (if hd cs = 0x20 then 1 else 0); j = j0 + run P (drop j0 cs) in j + run is_nl (drop j cs))"

definition qwen_step :: "nat \<Rightarrow> nat list \<Rightarrow> nat" where
  "qwen_step max_digits cs =
     (let c = hd cs in
      if contraction cs > 0 then contraction cs
      else if q_letter c then 1 + run q_letter (tl cs)
      else if \<not> is_nl c \<and> \<not> cp_is_number c \<and> length cs > 1 \<and> q_letter (cs ! 1) then 2 + run q_letter (drop 2 cs)
      else if cp_is_number c then 1 + run cp_is_number (take (max_digits - 1) (tl cs))
      else if q_punct c \<or> c = 0x20 \<and> length cs > 1 \<and> q_punct (cs ! 1) then punct_step q_punct cs
      else space_step cs)"

lemma contraction_le: "contraction cs \<le> length cs"
  by (simp add: contraction_def Let_def)

lemma punct_step_bounds:
  assumes "cs \<noteq> []"
  shows "punct_step P cs \<le> length cs"
    and "P (hd cs) \<or> hd cs = 0x20 \<and> length cs > 1 \<and> P (cs ! 1) \<Longrightarrow> 0 < punct_step P cs"
proof -
  let ?j0 = "if hd cs = 0x20 then 1 else 0"
  have "?j0 \<le> length cs" using assms by (cases cs) auto
  then have "?j0 + run P (drop ?j0 cs) \<le> length cs" by (rule run_drop_le)
  then show "punct_step P cs \<le> length cs" unfolding punct_step_def Let_def by (rule run_drop_le)
  show "P (hd cs) \<or> hd cs = 0x20 \<and> length cs > 1 \<and> P (cs ! 1) \<Longrightarrow> 0 < punct_step P cs"
    using assms by (cases cs) (auto simp: punct_step_def Let_def run_Cons)
qed

text \<open>The scanner never stalls: what is neither letter, digit nor punctuation is white space.\<close>

lemma qwen_step_bounds:
  assumes "cs \<noteq> []"
  shows "0 < qwen_step md cs \<and> qwen_step md cs \<le> length cs"
proof -
  obtain c r where cs: "cs = c # r" using assms by (cases cs) auto
  have "0 < space_step cs" if "\<not> q_letter c" "\<not> cp_is_number c" "\<not> q_punct c"
    using that space_step_bounds(2)[of cs] by (auto simp: cs q_punct_def)
  moreover have "2 + run q_letter (drop 2 cs) \<le> length cs" if "length cs > 1"
    using that by (intro run_drop_le) simp
  ultimately show ?thesis
    using punct_step_bounds[of cs q_punct] space_step_bounds(1)[of cs] contraction_le[of cs] run_le[of q_letter r]
      run_take_le[of cp_is_number "md - 1" r] by (auto simp: qwen_step_def Let_def cs)
qed

function qwen_split :: "nat \<Rightarrow> CP list \<Rightarrow> CP list list" where
  "qwen_split md cs =
     (if cs = [] then [] else let k = qwen_step md (map cp cs) in take k cs # qwen_split md (drop k cs))"
  by pat_completeness auto
termination
proof (relation "measure (\<lambda>(md, cs). length cs)")
  fix md k and cs :: "CP list"
  assume "cs \<noteq> []" "k = qwen_step md (map cp cs)"
  then show "((md, drop k cs), md, cs) \<in> measure (\<lambda>(md, cs). length cs)"
    using qwen_step_bounds[of "map cp cs" md] by simp
qed simp

declare qwen_split.simps [simp del]

subsection \<open>The deepseek-v3 scanner\<close>

definition rule3_letter :: "nat \<Rightarrow> bool" where
  "rule3_letter c = (cp_is_letter c \<and> \<not> cp_is_cjk_run c \<or> cp_is_mark c)"

definition ascii_letter :: "nat \<Rightarrow> bool" where
  "ascii_letter c = (c < 0x80 \<and> cp_is_letter c)"

definition prefix_ok :: "nat \<Rightarrow> bool" where
  "prefix_ok c = (c \<noteq> 0x0D \<and> c \<noteq> 0x0A \<and> \<not> cp_is_letter c \<and> \<not> cp_is_punct_or_symbol c \<and> \<not> cp_is_number c)"

definition deepseek_step :: "nat list \<Rightarrow> nat" where
  "deepseek_step cs =
     (let c = hd cs in
      if cp_is_number c then 1 + run cp_is_number (take 2 (tl cs))
      else if cp_is_cjk_run c then 1 + run cp_is_cjk_run (tl cs)
      else if c < 0x80 \<and> cp_is_punct_or_symbol c \<and> length cs > 1 \<and> ascii_letter (cs ! 1)
      then 2 + run ascii_letter (drop 2 cs)
      else if rule3_letter c then 1 + run rule3_letter (tl cs)
      else if prefix_ok c \<and> length cs > 1 \<and> rule3_letter (cs ! 1) then 2 + run rule3_letter (drop 2 cs)
      else if cp_is_punct_or_symbol c \<or> c = 0x20 \<and> length cs > 1 \<and> cp_is_punct_or_symbol (cs ! 1)
      then punct_step cp_is_punct_or_symbol cs
      else if space_step cs > 0 then space_step cs
      else 1)"

lemma deepseek_step_bounds:
  assumes "cs \<noteq> []"
  shows "0 < deepseek_step cs \<and> deepseek_step cs \<le> length cs"
proof -
  obtain c r where cs: "cs = c # r" using assms by (cases cs) auto
  have "2 + run P (drop 2 cs) \<le> length cs" if "length cs > 1" for P
    using that by (intro run_drop_le) simp
  then show ?thesis
    using punct_step_bounds[of cs cp_is_punct_or_symbol] space_step_bounds(1)[of cs] run_le[of cp_is_cjk_run r]
      run_le[of rule3_letter r] run_take_le[of cp_is_number 2 r] by (auto simp: deepseek_step_def Let_def cs)
qed

function deepseek_split :: "CP list \<Rightarrow> CP list list" where
  "deepseek_split cs =
     (if cs = [] then [] else let k = deepseek_step (map cp cs) in take k cs # deepseek_split (drop k cs))"
  by pat_completeness auto
termination
proof (relation "measure length")
  fix k and cs :: "CP list"
  assume "cs \<noteq> []" "k = deepseek_step (map cp cs)"
  then show "(drop k cs, cs) \<in> measure length" using deepseek_step_bounds[of "map cp cs"] by simp
qed simp

declare deepseek_split.simps [simp del]

subsection \<open>Pieces\<close>

definition emit :: "string \<Rightarrow> CP list \<Rightarrow> string" where
  "emit text cs = substr text (off (hd cs)) (off (last cs) + len (last cs) - off (hd cs))"

datatype Pre = QWEN | DEEPSEEK3 | LLAMA3

definition pretokenize_qwen :: "nat \<Rightarrow> string \<Rightarrow> string list" where
  "pretokenize_qwen max_digits text = map (emit text) (qwen_split max_digits (utf8_decode text))"

definition pretokenize_deepseek3 :: "string \<Rightarrow> string list" where
  "pretokenize_deepseek3 text = map (emit text) (deepseek_split (utf8_decode text))"

definition pretokenize :: "Pre \<Rightarrow> string \<Rightarrow> string list" where
  "pretokenize pre text =
     (case pre of DEEPSEEK3 \<Rightarrow> pretokenize_deepseek3 text
      | LLAMA3 \<Rightarrow> pretokenize_qwen 3 text
      | QWEN \<Rightarrow> pretokenize_qwen 1 text)"

subsection \<open>What every scanner guarantees\<close>

text \<open>
  A scanner that always takes at least one and at most all of the remaining code points: its pieces
  are nonempty and concatenate to the text, whatever bytes the text has.
\<close>

lemma substr_append: "substr s i m @ substr s (i + m) n = substr s i (m + n)"
  by (simp add: substr_def take_add add.commute)

lemma tiles_last: "tiles i cs \<Longrightarrow> cs \<noteq> [] \<Longrightarrow> off (last cs) + len (last cs) = i + span cs"
  by (induction cs arbitrary: i) (auto simp: span_def)

lemma tiles_off: "tiles i cs \<Longrightarrow> cs \<noteq> [] \<Longrightarrow> off (hd cs) = i"
  by (cases cs) auto

lemma span_pos: "tiles i cs \<Longrightarrow> cs \<noteq> [] \<Longrightarrow> 0 < span cs"
  by (cases cs) (auto simp: span_def)

lemma emit_tiles: "tiles i cs \<Longrightarrow> cs \<noteq> [] \<Longrightarrow> emit text cs = substr text i (span cs)"
  by (simp add: emit_def tiles_last tiles_off)

lemma decode_off: "x \<in> set (utf8_decode_at i s) \<Longrightarrow> off x < i + length s"
proof (induction i s rule: utf8_decode_at.induct)
  case (2 i c s)
  obtain b n where l: "lead (of_char c) = (b, n)" by force
  then have "0 < n" using lead_pos[of "of_char c"] by simp
  then show ?case using "2.IH"[OF l[symmetric]] "2.prems" by (cases "n - 1 < length s") (auto simp: l)
qed simp

locale scanner =
  fixes step :: "nat list \<Rightarrow> nat"
    and split :: "CP list \<Rightarrow> CP list list"
  assumes split_Nil: "split [] = []"
    and split_step: "cs \<noteq> [] \<Longrightarrow> split cs = take (step (map cp cs)) cs # split (drop (step (map cp cs)) cs)"
    and step_bounds: "ns \<noteq> [] \<Longrightarrow> 0 < step ns \<and> step ns \<le> length ns"
begin

lemma scan_induct:
  assumes "P []"
    and "\<And>cs k. cs \<noteq> [] \<Longrightarrow> k = step (map cp cs) \<Longrightarrow> 0 < k \<Longrightarrow> k \<le> length cs \<Longrightarrow> P (drop k cs) \<Longrightarrow> P cs"
  shows "P cs"
proof (induction cs rule: length_induct)
  case (1 cs)
  show ?case
  proof (cases "cs = []")
    case False
    with step_bounds[of "map cp cs"] have "0 < step (map cp cs)" "step (map cp cs) \<le> length cs" by auto
    with False 1 show ?thesis by (intro assms(2)[OF False refl]) auto
  qed (simp add: assms(1))
qed

lemma pieces_tile: "tiles i cs \<Longrightarrow> concat (map (emit text) (split cs)) = substr text i (span cs)"
proof (induction cs arbitrary: i rule: scan_induct)
  case 1
  then show ?case by (simp add: split_Nil span_def substr_def)
next
  case (2 cs k)
  have cs: "cs = take k cs @ drop k cs" by simp
  have t: "tiles i (take k cs)" "tiles (i + span (take k cs)) (drop k cs)"
    using "2.prems" tiles_append[of i "take k cs" "drop k cs"] by auto
  have ne: "take k cs \<noteq> []" using 2 by auto
  have "concat (map (emit text) (split cs)) = emit text (take k cs) @ concat (map (emit text) (split (drop k cs)))"
    using split_step[OF "2.hyps"(1)] 2(2) by simp
  also have "\<dots> = substr text i (span (take k cs)) @ substr text (i + span (take k cs)) (span (drop k cs))"
    using emit_tiles[OF t(1) ne] "2.IH"[OF t(2)] by simp
  also have "\<dots> = substr text i (span (take k cs @ drop k cs))"
    unfolding substr_append by (simp only: span_def map_append sum_list_append)
  finally show ?case by simp
qed

lemma pieces_text: "concat (map (emit text) (split (utf8_decode text))) = text"
  using pieces_tile[OF tiles_decode, of "text" 0 "text"] span_decode[of "text" 0] by (simp add: utf8_decode_def substr_def)

lemma piece_parts: "g \<in> set (split cs) \<Longrightarrow> tiles i cs \<Longrightarrow> g \<noteq> [] \<and> set g \<subseteq> set cs \<and> (\<exists>j. tiles j g)"
proof (induction cs arbitrary: i rule: scan_induct)
  case 1
  then show ?case by (simp add: split_Nil)
next
  case (2 cs k)
  have t: "tiles i (take k cs)" "tiles (i + span (take k cs)) (drop k cs)"
    using "2.prems" tiles_append[of i "take k cs" "drop k cs"] by auto
  have "g = take k cs \<or> g \<in> set (split (drop k cs))" using "2.prems"(1) split_step[OF "2.hyps"(1)] 2(2) by simp
  then show ?case
    using "2.hyps" "2.IH"[OF _ t(2)] t(1) set_take_subset[of k cs] set_drop_subset[of k cs] by auto
qed

lemma piece_nonempty: "g \<in> set (split (utf8_decode text)) \<Longrightarrow> emit text g \<noteq> []"
proof -
  assume "g \<in> set (split (utf8_decode text))"
  then obtain j where g: "g \<noteq> []" "set g \<subseteq> set (utf8_decode text)" "tiles j g"
    using piece_parts[OF _ tiles_decode] by (metis utf8_decode_def)
  have "hd g \<in> set (utf8_decode_at 0 text)" using g(1,2) hd_in_set[of g] unfolding utf8_decode_def by blast
  then have "off (hd g) < length text" using decode_off[of "hd g" 0 "text"] by simp
  with g show ?thesis using emit_tiles[of j g "text"] tiles_off[of j g] span_pos[of j g] by (simp add: substr_def)
qed

end

interpretation qwen: scanner "qwen_step md" "qwen_split md"
  by unfold_locales (use qwen_split.simps qwen_step_bounds in \<open>auto simp: Let_def\<close>)

interpretation deepseek: scanner deepseek_step deepseek_split
  by unfold_locales (use deepseek_split.simps deepseek_step_bounds in \<open>auto simp: Let_def\<close>)

lemma pretokenize_concat: "concat (pretokenize pre text) = text"
  using qwen.pieces_text deepseek.pieces_text
  by (cases pre) (simp_all add: pretokenize_def pretokenize_qwen_def pretokenize_deepseek3_def)

text \<open>
  C35. Pre-tokenization is lossless: for every text, valid UTF-8 or not, and each of the three
  pre-tokenizers, the scan ends, the pieces concatenate to the text and none is empty.
\<close>

theorem pretokenize_lossless: "concat (pretokenize pre text) = text \<and> [] \<notin> set (pretokenize pre text)"
proof (cases pre)
  case QWEN
  then show ?thesis using qwen.pieces_text qwen.piece_nonempty by (force simp: pretokenize_def pretokenize_qwen_def)
next
  case DEEPSEEK3
  then show ?thesis using deepseek.pieces_text deepseek.piece_nonempty by (force simp: pretokenize_def pretokenize_deepseek3_def)
next
  case LLAMA3
  then show ?thesis using qwen.pieces_text qwen.piece_nonempty by (force simp: pretokenize_def pretokenize_qwen_def)
qed

end
