(* ===== verification/Deepseek_Scan.thy ===== *)
theory Deepseek_Scan
  imports Pretokenizer "HOL-Library.Code_Target_Nat"
begin

section \<open>The fused deepseek-v3 scan against the three splits in sequence\<close>

text \<open>
  The comment above \<open>pretokenize_deepseek3\<close> says that one scan replaces three splits run in sequence:
  first the number runs are cut out, then the CJK runs, and the third rule set sees each remaining
  stretch on its own. The sequential form is stated here as the reference: the text is cut into
  maximal stretches of one class and each stretch is scanned alone.
\<close>

definition cls :: "nat \<Rightarrow> nat" where
  "cls c = (if cp_is_number c then 0 else if cp_is_cjk_run c then 1 else 2)"

function class_runs :: "CP list \<Rightarrow> CP list list" where
  "class_runs [] = []"
| "class_runs (c # cs) =
     (let k = run (\<lambda>d. cls (cp d) = cls (cp c)) cs in (c # take k cs) # class_runs (drop k cs))"
  by pat_completeness auto
termination by (relation "measure length") auto

definition sequential_split :: "CP list \<Rightarrow> CP list list" where
  "sequential_split cs = concat (map deepseek_split (class_runs cs))"

subsection \<open>A stretch and what follows it\<close>

text \<open>Two blanks right before a number or a CJK character: the case the fusion does not cover.\<close>

definition blank :: "nat \<Rightarrow> bool" where
  "blank c = (cp_is_space c \<and> \<not> is_nl c)"

definition wide_gap :: "nat list \<Rightarrow> nat \<Rightarrow> bool" where
  "wide_gap cs i = (blank (cs ! i) \<and> blank (cs ! (i + 1)) \<and> cls (cs ! (i + 2)) \<noteq> 2)"

definition narrow :: "nat list \<Rightarrow> bool" where
  "narrow cs = (\<forall>i < length cs - 2. \<not> wide_gap cs i)"

lemma run_append: "rest = [] \<or> \<not> P (hd rest) \<Longrightarrow> run P (g @ rest) = run P g"
  by (induction g) (auto simp: run_def takeWhile_eq_Nil_iff)

lemmas cp_class_defs = cp_is_number_def cp_is_cjk_run_def cp_in_def cp_is_letter_def cp_is_mark_def
  cp_is_punct_or_symbol_def cp_is_space_def is_nl_def

lemma number_class:
  assumes "cp_is_number c"
  shows "\<not> cp_is_cjk_run c" "\<not> cp_is_letter c" "\<not> cp_is_mark c" "\<not> cp_is_punct_or_symbol c" "\<not> cp_is_space c" "\<not> is_nl c"
proof -
  consider "0x30 \<le> c" "c \<le> 0x39" | "0xFF10 \<le> c" "c \<le> 0xFF19"
    using assms by (auto simp: cp_is_number_def cp_in_def)
  then have "\<not> cp_is_cjk_run c \<and> \<not> cp_is_letter c \<and> \<not> cp_is_mark c \<and> \<not> cp_is_punct_or_symbol c \<and> \<not> cp_is_space c \<and> \<not> is_nl c"
    by cases (simp_all add: cp_class_defs)
  then show "\<not> cp_is_cjk_run c" "\<not> cp_is_letter c" "\<not> cp_is_mark c" "\<not> cp_is_punct_or_symbol c" "\<not> cp_is_space c" "\<not> is_nl c"
    by blast+
qed

lemma cjk_class:
  assumes "cp_is_cjk_run c"
  shows "\<not> cp_is_number c" "c \<ge> 0x80" "\<not> cp_is_mark c" "\<not> cp_is_punct_or_symbol c" "\<not> cp_is_space c" "\<not> is_nl c"
proof -
  consider "0x4E00 \<le> c" "c \<le> 0x9FA5" | "0x3040 \<le> c" "c \<le> 0x30FF"
    using assms by (auto simp: cp_is_cjk_run_def cp_in_def)
  then have "\<not> cp_is_number c \<and> c \<ge> 0x80 \<and> \<not> cp_is_mark c \<and> \<not> cp_is_punct_or_symbol c \<and> \<not> cp_is_space c \<and> \<not> is_nl c"
    by cases (simp_all add: cp_class_defs)
  then show "\<not> cp_is_number c" "c \<ge> 0x80" "\<not> cp_is_mark c" "\<not> cp_is_punct_or_symbol c" "\<not> cp_is_space c" "\<not> is_nl c"
    by blast+
qed

lemma foreign:
  assumes "cls c \<noteq> 2"
  shows "\<not> ascii_letter c" "\<not> rule3_letter c" "\<not> cp_is_punct_or_symbol c" "\<not> cp_is_space c" "\<not> is_nl c"
  using assms number_class[of c] cjk_class[of c]
  by (auto simp: cls_def ascii_letter_def rule3_letter_def split: if_splits)

lemma nl_end_0: "nl_end k cs 0 = 0 \<longleftrightarrow> \<not> list_ex is_nl cs"
proof -
  have "nl_end k cs e = 0 \<longleftrightarrow> \<not> list_ex is_nl cs \<and> e = 0" for e
    by (induction k cs e rule: nl_end.induct) auto
  then show ?thesis by simp
qed

lemma run_all: "run P g = length g \<Longrightarrow> list_all P g"
  by (induction g) (auto simp: run_def split: if_splits)

lemma space_step_append:
  assumes "narrow (g @ rest)" "rest = [] \<or> cls (hd rest) \<noteq> 2" "g \<noteq> []"
  shows "space_step (g @ rest) = space_step g"
proof -
  let ?j = "run cp_is_space g"
  have r: "run cp_is_space (g @ rest) = ?j" using assms(2) foreign(4) by (intro run_append) blast
  have t: "take ?j (g @ rest) = take ?j g" using run_le[of cp_is_space g] by simp
  show ?thesis
  proof (cases "nl_end 0 (take ?j g) 0 = 0 \<and> ?j = length g \<and> ?j > 1 \<and> rest \<noteq> []")
    case False
    then show ?thesis using run_le[of cp_is_space g] unfolding space_step_def Let_def r t by auto
  next
    case True
    then have b: "list_all blank g"
      using run_all[of cp_is_space g] by (auto simp: nl_end_0 list_ex_iff list_all_iff blank_def)
    have "0 < length rest" using True by simp
    then have "length g - 2 < length (g @ rest) - 2" using True by (simp only: length_append) linarith
    moreover have "wide_gap (g @ rest) (length g - 2)"
      using True b assms(2) by (auto simp: wide_gap_def nth_append list_all_length hd_conv_nth Suc_diff_Suc numeral_2_eq_2)
    ultimately show ?thesis using assms(1) by (auto simp: narrow_def)
  qed
qed

lemma punct_step_append:
  assumes "g \<noteq> []" "rest = [] \<or> cls (hd rest) \<noteq> 2" "length g > 1 \<or> hd g \<noteq> 0x20"
  shows "punct_step cp_is_punct_or_symbol (g @ rest) = punct_step cp_is_punct_or_symbol g"
proof -
  let ?P = cp_is_punct_or_symbol
  let ?z = "if hd g = 0x20 then 1 else 0"
  let ?j = "?z + run ?P (drop ?z g)"
  have j0: "?z \<le> length g" using assms(1) by (cases g) auto
  have j: "?j \<le> length g" by (rule run_drop_le[OF j0])
  have "drop ?z (g @ rest) = drop ?z g @ rest" using j0 by simp
  then have "run ?P (drop ?z (g @ rest)) = run ?P (drop ?z g)"
    using run_append[of rest ?P "drop ?z g"] assms(2) foreign(3) by metis
  moreover have "drop ?j (g @ rest) = drop ?j g @ rest" using j by simp
  then have "run is_nl (drop ?j (g @ rest)) = run is_nl (drop ?j g)"
    using run_append[of rest is_nl "drop ?j g"] assms(2) foreign(5) by metis
  moreover have "hd (g @ rest) = hd g" using assms(1) by simp
  ultimately show ?thesis by (simp only: punct_step_def Let_def)
qed

text \<open>The scan takes the same piece whether or not it sees what follows the stretch.\<close>

lemma deepseek_step_append:
  assumes "g \<noteq> []" "\<forall>c \<in> set g. cls c = k" "rest = [] \<or> cls (hd rest) \<noteq> k" "narrow (g @ rest)"
  shows "deepseek_step (g @ rest) = deepseek_step g"
proof -
  obtain c r where g: "g = c # r" using assms(1) by (cases g) auto
  then have k: "cls c = k" using assms(2) by simp
  consider (num) "k = 0" "cp_is_number c" | (cjk) "k = 1" "\<not> cp_is_number c" "cp_is_cjk_run c"
    | (other) "k = 2" "\<not> cp_is_number c" "\<not> cp_is_cjk_run c"
    using k by (auto simp: cls_def split: if_splits)
  then show ?thesis
  proof cases
    case num
    have "rest = [] \<or> \<not> cp_is_number (hd rest)" using assms(3) num(1) by (auto simp: cls_def)
    then have "run cp_is_number (take 2 (r @ rest)) = run cp_is_number (take 2 r)"
      by (simp only: take_append) (rule run_append, metis hd_take take_eq_Nil2 neq0_conv)
    then show ?thesis using num by (simp add: deepseek_step_def g)
  next
    case cjk
    have "rest = [] \<or> \<not> cp_is_cjk_run (hd rest)" using assms(3) cjk(1) number_class(1) by (auto simp: cls_def split: if_splits)
    then show ?thesis using cjk by (simp add: deepseek_step_def g run_append)
  next
    case other
    have f: "rest = [] \<or> cls (hd rest) \<noteq> 2" using assms(3) other(1) by simp
    have h: "hd (g @ rest) = c" "hd g = c" by (simp_all add: g)
    have n1: "length (g @ rest) > 1 \<and> P ((g @ rest) ! 1) \<longleftrightarrow> length g > 1 \<and> P (g ! 1)"
      if "rest = [] \<or> \<not> P (hd rest)" for P
      using that by (cases r; cases rest) (auto simp: g)
    have r1: "run P (tl (g @ rest)) = run P (tl g)" if "rest = [] \<or> \<not> P (hd rest)" for P
      using that by (simp add: g run_append)
    have r2: "run P (drop 2 (g @ rest)) = run P (drop 2 g)" if "rest = [] \<or> \<not> P (hd rest)" "length g > 1" for P
      using that run_append[of rest P "drop 2 g"] by simp
    have fs: "rest = [] \<or> \<not> ascii_letter (hd rest)" "rest = [] \<or> \<not> rule3_letter (hd rest)"
      "rest = [] \<or> \<not> cp_is_punct_or_symbol (hd rest)" using f foreign by blast+
    note ss = space_step_append[OF assms(4) f assms(1)] and ps = punct_step_append[OF assms(1) f]
    show ?thesis
      unfolding deepseek_step_def Let_def h n1[of ascii_letter, OF fs(1)] n1[of rule3_letter, OF fs(2)] n1[of cp_is_punct_or_symbol, OF fs(3)] r1[of rule3_letter, OF fs(2)] ss
    proof (intro if_cong refl)
      assume "c < 128 \<and> cp_is_punct_or_symbol c \<and> 1 < length g \<and> ascii_letter (g ! 1)"
      then show "2 + run ascii_letter (drop 2 (g @ rest)) = 2 + run ascii_letter (drop 2 g)" by (simp only: r2[of ascii_letter, OF fs(1)])
    next
      assume "prefix_ok c \<and> 1 < length g \<and> rule3_letter (g ! 1)"
      then show "2 + run rule3_letter (drop 2 (g @ rest)) = 2 + run rule3_letter (drop 2 g)" by (simp only: r2[of rule3_letter, OF fs(2)])
    next
      assume "cp_is_punct_or_symbol c \<or> c = 32 \<and> 1 < length g \<and> cp_is_punct_or_symbol (g ! 1)"
      moreover have "\<not> cp_is_punct_or_symbol 32" by (simp add: cp_is_punct_or_symbol_def)
      ultimately show "punct_step cp_is_punct_or_symbol (g @ rest) = punct_step cp_is_punct_or_symbol g"
        using ps h(2) by metis
    qed (use other in simp_all)
  qed
qed

subsection \<open>Equivalence\<close>

lemma narrow_drop: "narrow cs \<Longrightarrow> narrow (drop k cs)"
  unfolding narrow_def wide_gap_def
proof (intro allI impI)
  fix i assume n: "\<forall>i<length cs - 2. \<not> (blank (cs ! i) \<and> blank (cs ! (i + 1)) \<and> cls (cs ! (i + 2)) \<noteq> 2)"
    and i: "i < length (drop k cs) - 2"
  then have "k + i < length cs - 2" by simp
  with n i show "\<not> (blank (drop k cs ! i) \<and> blank (drop k cs ! (i + 1)) \<and> cls (drop k cs ! (i + 2)) \<noteq> 2)"
    by (auto simp: add.assoc)
qed

lemma narrow_append: "narrow (g @ rest) \<Longrightarrow> narrow rest"
  using narrow_drop[of "g @ rest" "length g"] by simp

lemma split_stretch:
  assumes "\<forall>c \<in> set g. cls (cp c) = k" "rest = [] \<or> cls (cp (hd rest)) \<noteq> k" "narrow (map cp (g @ rest))"
  shows "deepseek_split (g @ rest) = deepseek_split g @ deepseek_split rest"
  using assms
proof (induction g rule: deepseek.scan_induct)
  case 1
  then show ?case by (simp add: deepseek.split_Nil)
next
  case (2 g n)
  have "deepseek_step (map cp g @ map cp rest) = deepseek_step (map cp g)"
    using "2.prems" "2.hyps"(1) by (intro deepseek_step_append[of _ k]) (auto simp: hd_map)
  then have n: "deepseek_step (map cp (g @ rest)) = n" using "2.hyps"(2) by simp
  have "deepseek_split (drop n g @ rest) = deepseek_split (drop n g) @ deepseek_split rest"
  proof (rule "2.IH")
    show "\<forall>c \<in> set (drop n g). cls (cp c) = k" using "2.prems"(1) set_drop_subset[of n g] by blast
    show "narrow (map cp (drop n g @ rest))"
      using narrow_drop[OF "2.prems"(3), of n] "2.hyps"(4) by (simp add: drop_map)
  qed (rule "2.prems"(2))
  then show ?case
    using "2.hyps" deepseek.split_step[of "g @ rest"] deepseek.split_step[of g] unfolding n by simp
qed

lemma class_runs_split: "narrow (map cp cs) \<Longrightarrow> deepseek_split cs = sequential_split cs"
proof (induction cs rule: class_runs.induct)
  case 1
  then show ?case by (simp add: sequential_split_def deepseek.split_Nil)
next
  case (2 c cs)
  let ?P = "\<lambda>d. cls (cp d) = cls (cp c)"
  let ?n = "run ?P cs"
  have t: "\<forall>d \<in> set (c # take ?n cs). cls (cp d) = cls (cp c)"
    by (auto simp: run_def takeWhile_eq_take[symmetric] dest: set_takeWhileD)
  have d: "drop ?n cs = [] \<or> cls (cp (hd (drop ?n cs))) \<noteq> cls (cp c)"
    using hd_dropWhile[of ?P cs] by (auto simp: run_def dropWhile_eq_drop[symmetric])
  have cs: "c # cs = (c # take ?n cs) @ drop ?n cs" by simp
  have n: "narrow (map cp ((c # take ?n cs) @ drop ?n cs))" using "2.prems" cs by metis
  then have "narrow (map cp (drop ?n cs))" using narrow_append[OF n[unfolded map_append]] by simp
  then have "deepseek_split (drop ?n cs) = sequential_split (drop ?n cs)" using "2.IH" by simp
  then show ?case
    using split_stretch[OF t d n] unfolding cs[symmetric] by (simp add: sequential_split_def Let_def)
qed

text \<open>
  C36. The fused scan computes the three splits in sequence on every text in which no two blanks stand
  directly before a number or a CJK character.
\<close>

theorem deepseek_fused_equiv:
  assumes "narrow (map cp (utf8_decode text))"
  shows "pretokenize_deepseek3 text = map (emit text) (sequential_split (utf8_decode text))"
  using class_runs_split[OF assms] by (simp add: pretokenize_deepseek3_def)

theorem deepseek_fused_equiv_witness:
  "pretokenize_deepseek3 ''a 12'' = map (emit ''a 12'') (sequential_split (utf8_decode ''a 12''))"
proof -
  have "map cp (utf8_decode ''a 12'') = [0x61, 0x20, 0x31, 0x32]" by code_simp
  moreover have "\<not> blank 0x61" "\<not> blank 0x31" by code_simp+
  ultimately have "narrow (map cp (utf8_decode ''a 12''))"
    by (auto simp: narrow_def wide_gap_def less_Suc_eq numeral_2_eq_2)
  then show ?thesis by (rule deepseek_fused_equiv)
qed

text \<open>
  The remaining case differs from the comment in the code: before a number, two blanks are one
  piece in sequence (the third rule set sees the end of its stretch) and two pieces in the fused scan.
\<close>

theorem deepseek_fused_differs:
  "pretokenize_deepseek3 ''  1'' = ['' '', '' '', ''1''] \<and>
   map (emit ''  1'') (sequential_split (utf8_decode ''  1'')) = [''  '', ''1'']"
  by code_simp

end
