(* ===== verification/Tokenizer.thy ===== *)
theory Tokenizer
  imports Deepseek_Scan "HOL-Library.AList"
begin

section \<open>The byte-level BPE tokenizer\<close>

text \<open>
  \<open>Tokenizer\<close> of \<open>core/tokenizer.cpp\<close>. Token ids are integers (\<open>int32_t\<close>); hash maps filled by
  assignment in a loop keep the last value of a key, which is the first match in the reversed list.
  Special tokens are sorted by length with an unstable sort; the model uses the stable one of the
  possible orders. The scan of \<open>encode\<close> for special tokens runs on fuel, one unit per iteration.
\<close>

record Vocab =
  v_tokens :: "string list"
  v_merges :: "string list"
  v_token_types :: "int list"
  v_bos_id :: int
  v_eos_id :: int
  v_add_bos :: bool
  v_pre :: string
  v_chat_template :: string

record tokenizer =
  tk_token_ids :: "(string \<times> nat) list"
  tk_id_to_token :: "string list"
  tk_merge_rank :: "(string \<times> nat) list"
  tk_bos :: int
  tk_eos :: int
  tk_add_bos :: bool
  tk_template_bos :: bool
  tk_pre :: Pre
  tk_ignore_merges :: bool
  tk_special :: "(string \<times> nat) list"
  tk_special_first :: "bool list"

definition indexed :: "'a list \<Rightarrow> ('a \<times> nat) list" where
  "indexed xs = zip xs [0..<length xs]"

definition template_bos :: "string \<Rightarrow> bool" where
  "template_bos t =
     (case find_first_not_of t [CHR 0x20, CHR 0x09, CHR 0x0D, CHR 0x0A] of
        None \<Rightarrow> False
      | Some i \<Rightarrow>
          if substr t i 2 = ''{{'' then
            (case str_find t ''}}'' i of
               None \<Rightarrow> False
             | Some e \<Rightarrow> str_find (substr t i (e - i)) ''bos_token'' 0 \<noteq> None)
          else False)"

definition specials :: "Vocab \<Rightarrow> (string \<times> nat) list" where
  "specials v =
     map (\<lambda>(t, i, ty). (t, i))
       (filter (\<lambda>(t, i, ty). (ty = 3 \<or> ty = 4) \<and> t \<noteq> [])
          (zip (v_tokens v) (zip [0..<length (v_tokens v)] (v_token_types v))))"

definition first_bytes :: "(string \<times> nat) list \<Rightarrow> bool list" where
  "first_bytes sp = fold (\<lambda>(t, i) f. f[of_char (hd t) := True]) sp (replicate 256 False)"

definition Tokenizer :: "Vocab \<Rightarrow> tokenizer" where
  "Tokenizer v =
     (let pre = (if v_pre v = ''deepseek-v3'' then DEEPSEEK3 else if v_pre v = ''lfm2'' then LLAMA3 else QWEN)
      in \<lparr>tk_token_ids = rev (indexed (v_tokens v)), tk_id_to_token = v_tokens v,
          tk_merge_rank = rev (indexed (v_merges v)), tk_bos = v_bos_id v, tk_eos = v_eos_id v,
          tk_add_bos = v_add_bos v, tk_template_bos = template_bos (v_chat_template v), tk_pre = pre,
          tk_ignore_merges = (pre = LLAMA3),
          tk_special = rev (sort_key (\<lambda>sp. length (fst sp)) (rev (specials v))),
          tk_special_first = first_bytes (specials v)\<rparr>)"

definition chat_wants_bos :: "tokenizer \<Rightarrow> bool" where
  "chat_wants_bos t = (tk_add_bos t \<or> tk_template_bos t)"

definition find_id :: "tokenizer \<Rightarrow> string \<Rightarrow> nat option" where
  "find_id t s = map_of (tk_token_ids t) s"

definition token_to_id :: "tokenizer \<Rightarrow> string \<Rightarrow> int" where
  "token_to_id t s = (case find_id t s of None \<Rightarrow> - 1 | Some i \<Rightarrow> int i)"

subsection \<open>bpe\_encode\_piece\<close>

definition byte_symbol :: "char \<Rightarrow> string" where
  "byte_symbol b = utf8_append [] (byte_to_uni b)"

text \<open>The leftmost adjacent pair of lowest rank: \<open>(best_rank, best_i)\<close>.\<close>

fun best_pair :: "(string \<Rightarrow> nat option) \<Rightarrow> string list \<Rightarrow> nat \<Rightarrow> (nat \<times> nat) option \<Rightarrow> (nat \<times> nat) option" where
  "best_pair rk (a # b # ss) i best =
     best_pair rk (b # ss) (i + 1)
       (case rk (a @ '' '' @ b) of
          None \<Rightarrow> best
        | Some r \<Rightarrow> (case best of None \<Rightarrow> Some (r, i) | Some (r0, i0) \<Rightarrow> if r < r0 then Some (r, i) else best))"
| "best_pair rk _ i best = best"

definition merge_at :: "nat \<Rightarrow> string list \<Rightarrow> string list" where
  "merge_at i ss = take i ss @ [ss ! i @ ss ! (i + 1)] @ drop (i + 2) ss"

lemma best_pair_range:
  "best_pair rk ss i best = Some (r, j) \<Longrightarrow> best = Some (r, j) \<or> i \<le> j \<and> j + 1 < i + length ss"
  by (induction rk ss i best rule: best_pair.induct) (fastforce split: option.splits if_splits)+

lemma merge_at_length: "i + 1 < length ss \<Longrightarrow> length (merge_at i ss) = length ss - 1"
  by (simp add: merge_at_def)

function merge_loop :: "(string \<Rightarrow> nat option) \<Rightarrow> string list \<Rightarrow> string list" where
  "merge_loop rk ss =
     (if length ss > 1 then
        (case best_pair rk ss 0 None of None \<Rightarrow> ss | Some (r, i) \<Rightarrow> merge_loop rk (merge_at i ss))
      else ss)"
  by pat_completeness auto
termination
  by (relation "measure (\<lambda>(rk, ss). length ss)") (auto dest!: best_pair_range simp: merge_at_length)

declare merge_loop.simps [simp del]

definition symbol_ids :: "tokenizer \<Rightarrow> string \<Rightarrow> nat list" where
  "symbol_ids t s =
     (case find_id t s of
        Some i \<Rightarrow> [i]
      | None \<Rightarrow> List.map_filter (\<lambda>c. find_id t (utf8_append [] (cp c))) (utf8_decode s))"

definition bpe_encode_piece :: "tokenizer \<Rightarrow> string \<Rightarrow> nat list" where
  "bpe_encode_piece t piece =
     concat (map (symbol_ids t) (merge_loop (map_of (tk_merge_rank t)) (map byte_symbol piece)))"

subsection \<open>encode and decode\<close>

definition match_special :: "tokenizer \<Rightarrow> string \<Rightarrow> nat \<Rightarrow> (nat \<times> nat) option" where
  "match_special t text pos =
     (if \<not> tk_special_first t ! of_char (text ! pos) then None
      else map_option (\<lambda>sp. (snd sp, length (fst sp)))
             (List.find (\<lambda>sp. substr text pos (length (fst sp)) = fst sp) (tk_special t)))"

definition piece_ids :: "tokenizer \<Rightarrow> string \<Rightarrow> nat list" where
  "piece_ids t piece =
     (case (if tk_ignore_merges t then find_id t (concat (map byte_symbol piece)) else None) of
        Some i \<Rightarrow> [i]
      | None \<Rightarrow> bpe_encode_piece t piece)"

definition flush :: "tokenizer \<Rightarrow> string \<Rightarrow> nat \<Rightarrow> nat \<Rightarrow> nat list" where
  "flush t text a b =
     (if b \<le> a then [] else concat (map (piece_ids t) (pretokenize (tk_pre t) (substr text a (b - a)))))"

fun encode_scan :: "nat \<Rightarrow> tokenizer \<Rightarrow> string \<Rightarrow> nat \<Rightarrow> nat \<Rightarrow> nat list \<Rightarrow> (nat \<times> nat list) option" where
  "encode_scan fuel t text i run_from ids =
     (if i \<ge> length text then Some (run_from, ids)
      else case fuel of
        0 \<Rightarrow> None
      | Suc n \<Rightarrow>
          (case match_special t text i of
             None \<Rightarrow> encode_scan n t text (i + 1) run_from ids
           | Some (sp, l) \<Rightarrow> encode_scan n t text (i + l) (i + l) (ids @ flush t text run_from i @ [sp])))"

definition encode :: "tokenizer \<Rightarrow> string \<Rightarrow> bool \<Rightarrow> bool \<Rightarrow> int list option" where
  "encode t text add_bos parse_special =
     (let ids0 = (if add_bos \<and> tk_bos t \<ge> 0 then [tk_bos t] else []) in
      case (if parse_special then encode_scan (length text) t text 0 0 [] else Some (0, [])) of
        None \<Rightarrow> None
      | Some (run_from, ids) \<Rightarrow> Some (ids0 @ map int (ids @ flush t text run_from (length text))))"

definition decode_token :: "tokenizer \<Rightarrow> int \<Rightarrow> string" where
  "decode_token t tok =
     (if tok < 0 \<or> tok \<ge> int (length (tk_id_to_token t)) then []
      else List.map_filter (\<lambda>c. uni_to_byte (cp c)) (utf8_decode (tk_id_to_token t ! nat tok)))"

definition decode :: "tokenizer \<Rightarrow> int list \<Rightarrow> string" where
  "decode t toks = concat (map (decode_token t) toks)"

subsection \<open>Merging\<close>

text \<open>A pair that could still be merged, and the rank order in which the code picks one.\<close>

definition mergeable :: "(string \<Rightarrow> nat option) \<Rightarrow> string list \<Rightarrow> nat \<Rightarrow> bool" where
  "mergeable rk ss i = (i + 1 < length ss \<and> rk (ss ! i @ '' '' @ ss ! (i + 1)) \<noteq> None)"

lemma best_pair_None: "best_pair rk ss i best = None \<Longrightarrow> best = None \<and> \<not> mergeable rk ss j"
proof (induction rk ss i best arbitrary: j rule: best_pair.induct)
  case (1 rk a b ss i best)
  have n: "rk (a @ '' '' @ b) = None" "best = None" "\<not> mergeable rk (b # ss) (j - 1)"
    using "1.IH"[of "j - 1"] "1.prems" by (auto split: option.splits if_splits)
  then show ?case by (cases j) (auto simp: mergeable_def)
qed (auto simp: mergeable_def)

lemma merge_loop_normal: "\<not> mergeable rk (merge_loop rk ss) i"
proof (induction rk ss rule: merge_loop.induct)
  case (1 rk ss)
  show ?case
  proof (cases "length ss > 1")
    case True
    then show ?thesis
      using 1 best_pair_None[of rk ss 0 None] by (subst merge_loop.simps) (auto split: option.split)
  next
    case False
    then show ?thesis by (subst merge_loop.simps) (simp add: mergeable_def)
  qed
qed

text \<open>Symbols stay the images of consecutive groups of bytes.\<close>

definition group_symbol :: "string \<Rightarrow> string" where
  "group_symbol g = encode_cps (map byte_to_uni g)"

lemma group_symbol_append: "group_symbol g @ group_symbol h = group_symbol (g @ h)"
  by (simp add: group_symbol_def)

lemma byte_symbol_group: "byte_symbol b = group_symbol [b]"
  by (simp add: byte_symbol_def group_symbol_def)

lemma merge_at_groups:
  assumes "i + 1 < length gs"
  shows "\<exists>hs. merge_at i (map group_symbol gs) = map group_symbol hs \<and> concat hs = concat gs"
proof (intro exI conjI)
  let ?hs = "take i gs @ [gs ! i @ gs ! (i + 1)] @ drop (i + 2) gs"
  have "gs = take i gs @ gs ! i # gs ! (i + 1) # drop (i + 2) gs"
    using assms by (simp add: Cons_nth_drop_Suc)
  then have "concat gs = concat (take i gs @ gs ! i # gs ! (i + 1) # drop (i + 2) gs)" by simp
  then show "concat ?hs = concat gs" by simp
  show "merge_at i (map group_symbol gs) = map group_symbol ?hs"
    using assms by (simp add: merge_at_def take_map drop_map group_symbol_append)
qed

lemma merge_loop_groups:
  "ss = map group_symbol gs \<Longrightarrow> \<exists>hs. merge_loop rk ss = map group_symbol hs \<and> concat hs = concat gs"
proof (induction rk ss arbitrary: gs rule: merge_loop.induct)
  case (1 rk ss)
  show ?case
  proof (cases "length ss > 1 \<and> best_pair rk ss 0 None \<noteq> None")
    case True
    then obtain r i where b: "best_pair rk ss 0 None = Some (r, i)" by auto
    then have "i + 1 < length gs" using best_pair_range[OF b] 1(2) by simp
    then obtain hs where hs: "merge_at i ss = map group_symbol hs" "concat hs = concat gs"
      using merge_at_groups[of i gs] 1(2) by auto
    from True b have "length ss > 1" by simp
    from "1.IH"[OF this b refl hs(1)] obtain ks where "merge_loop rk (merge_at i ss) = map group_symbol ks" "concat ks = concat hs"
      by auto
    then show ?thesis using True b hs(2) by (subst merge_loop.simps) auto
  next
    case False
    then have "merge_loop rk ss = ss" by (subst merge_loop.simps) (auto split: option.split)
    then show ?thesis using 1(2) by auto
  qed
qed

subsection \<open>Round trip\<close>

lemma map_filter_map: "List.map_filter (\<lambda>c. f (g c)) xs = List.map_filter f (map g xs)"
  by (induction xs) (auto simp: List.map_filter_simps split: option.split)

text \<open>The id table of a constructed tokenizer points back at the token texts.\<close>

lemma find_id_Tokenizer: "find_id (Tokenizer v) s = Some i \<Longrightarrow> i < length (v_tokens v) \<and> v_tokens v ! i = s"
  by (auto dest!: map_of_SomeD simp: find_id_def Tokenizer_def Let_def indexed_def set_zip)

lemma find_id_total: "s \<in> set (v_tokens v) \<Longrightarrow> find_id (Tokenizer v) s \<noteq> None"
  by (simp add: find_id_def Tokenizer_def Let_def indexed_def map_of_eq_None_iff flip: set_map)

lemma decode_token_nth:
  "i < length (v_tokens v) \<Longrightarrow>
    decode_token (Tokenizer v) (int i) = List.map_filter (\<lambda>c. uni_to_byte (cp c)) (utf8_decode (v_tokens v ! i))"
  by (simp add: decode_token_def Tokenizer_def Let_def)

lemma decode_group: "List.map_filter (\<lambda>c. uni_to_byte (cp c)) (utf8_decode (group_symbol g)) = g"
proof -
  have "map cp (utf8_decode (group_symbol g)) = map byte_to_uni g"
    unfolding group_symbol_def using byte_uni(2)
    by (intro decode_encode_cps) (auto simp: list_all_iff intro: less_trans[of _ 512])
  moreover have "List.map_filter uni_to_byte (map byte_to_uni g) = g"
    by (induction g) (simp_all add: List.map_filter_simps byte_uni(1))
  ultimately show ?thesis unfolding map_filter_map[of uni_to_byte cp] by simp
qed

lemma find_id_decode: "find_id (Tokenizer v) (group_symbol g) = Some i \<Longrightarrow> decode_token (Tokenizer v) (int i) = g"
  using find_id_Tokenizer[of v "group_symbol g" i] decode_token_nth[of i v] decode_group[of g] by simp

definition full_bytes :: "Vocab \<Rightarrow> bool" where
  "full_bytes v \<longleftrightarrow> (\<forall>b. byte_symbol b \<in> set (v_tokens v))"

lemma decode_append [simp]: "decode t (xs @ ys) = decode t xs @ decode t ys" "decode t [] = []" "decode t [x] = decode_token t x"
  by (simp_all add: decode_def)

lemma decode_Cons: "decode t (x # xs) = decode_token t x @ decode t xs"
  by (simp add: decode_def)

lemma symbol_ids_decode:
  assumes "full_bytes v"
  shows "decode (Tokenizer v) (map int (symbol_ids (Tokenizer v) (group_symbol g))) = g"
proof (cases "find_id (Tokenizer v) (group_symbol g)")
  case None
  let ?f = "\<lambda>u. find_id (Tokenizer v) (utf8_append [] u)"
  have "map cp (utf8_decode (group_symbol g)) = map byte_to_uni g"
    unfolding group_symbol_def using byte_uni(2)
    by (intro decode_encode_cps) (auto simp: list_all_iff intro: less_trans[of _ 512])
  moreover have "decode (Tokenizer v) (map int (List.map_filter ?f (map byte_to_uni g))) = g"
  proof (induction g)
    case (Cons b g)
    obtain i where i: "find_id (Tokenizer v) (byte_symbol b) = Some i"
      using find_id_total[of "byte_symbol b" v] assms by (auto simp: full_bytes_def)
    then have "decode_token (Tokenizer v) (int i) = [b]" using find_id_decode[of v "[b]" i] by (simp add: byte_symbol_group)
    then show ?case using Cons i by (simp add: List.map_filter_simps byte_symbol_def[symmetric] decode_Cons)
  qed (simp add: List.map_filter_simps)
  ultimately show ?thesis using None unfolding symbol_ids_def map_filter_map[of ?f cp] by simp
next
  case (Some i)
  then show ?thesis by (simp add: symbol_ids_def find_id_decode)
qed

lemma concat_byte_symbols: "concat (map byte_symbol p) = group_symbol p"
  by (induction p) (simp_all add: byte_symbol_def group_symbol_def)

lemma decode_concat_map:
  "(\<And>x. x \<in> set xs \<Longrightarrow> decode t (map int (f x)) = h x) \<Longrightarrow> decode t (map int (concat (map f xs))) = concat (map h xs)"
  by (induction xs) simp_all

lemma piece_decode:
  assumes "full_bytes v"
  shows "decode (Tokenizer v) (map int (piece_ids (Tokenizer v) p)) = p"
proof -
  let ?t = "Tokenizer v"
  have "map byte_symbol p = map group_symbol (map (\<lambda>b. [b]) p)" by (simp add: byte_symbol_group)
  from merge_loop_groups[OF this, of "map_of (tk_merge_rank ?t)"] obtain hs where
    hs: "merge_loop (map_of (tk_merge_rank ?t)) (map byte_symbol p) = map group_symbol hs" "concat hs = p"
    by auto
  have "decode ?t (map int (concat (map (\<lambda>g. symbol_ids ?t (group_symbol g)) hs))) = concat (map (\<lambda>g. g) hs)"
    by (rule decode_concat_map) (rule symbol_ids_decode[OF assms])
  then have "decode ?t (map int (bpe_encode_piece ?t p)) = p" using hs by (simp add: bpe_encode_piece_def comp_def)
  then show ?thesis
    using find_id_decode[of v p] by (auto simp: piece_ids_def concat_byte_symbols split: option.split)
qed

lemma flush_decode:
  assumes "full_bytes v"
  shows "decode (Tokenizer v) (map int (flush (Tokenizer v) text a b)) = substr text a (b - a)"
proof -
  have "decode (Tokenizer v) (map int (concat (map (piece_ids (Tokenizer v)) ps))) = concat (map (\<lambda>p. p) ps)" for ps
    by (rule decode_concat_map) (rule piece_decode[OF assms])
  moreover have "concat (pretokenize pre s) = s" for pre s using pretokenize_concat by blast
  ultimately show ?thesis by (simp add: flush_def substr_def)
qed

subsection \<open>Special tokens\<close>

lemma specials_nth: "(s, i) \<in> set (specials v) \<Longrightarrow> i < length (v_tokens v) \<and> v_tokens v ! i = s \<and> s \<noteq> []"
  by (auto simp: specials_def set_zip)

lemma first_bytes_length: "length (first_bytes sp) = 256"
proof -
  have "length (fold (\<lambda>(t, i) f. f[of_char (hd t) := True]) sp f) = length f" for f :: "bool list"
    by (induction sp arbitrary: f) auto
  then show ?thesis by (simp add: first_bytes_def)
qed

lemma first_bytes_nth:
  assumes "n < 256"
  shows "first_bytes sp ! n \<longleftrightarrow> (\<exists>p \<in> set sp. of_char (hd (fst p)) = n)"
proof -
  have "fold (\<lambda>(t, i) f. f[of_char (hd t) := True]) sp f ! n \<longleftrightarrow> f ! n \<or> (\<exists>p \<in> set sp. of_char (hd (fst p)) = n)"
    if "length f = 256" for f :: "bool list"
    using that
  proof (induction sp arbitrary: f)
    case (Cons q sp)
    then have "fold (\<lambda>(t, i) f. f[of_char (hd t) := True]) sp (f[of_char (hd (fst q)) := True]) ! n \<longleftrightarrow>
        f[of_char (hd (fst q)) := True] ! n \<or> (\<exists>p \<in> set sp. of_char (hd (fst p)) = n)" by simp
    moreover have "f[of_char (hd (fst q)) := True] ! n \<longleftrightarrow> f ! n \<or> of_char (hd (fst q)) = n"
      using assms Cons.prems by (simp add: nth_list_update)
    ultimately show ?case by (cases q) (simp add: disj_assoc)
  qed simp
  then show ?thesis using assms by (simp add: first_bytes_def)
qed

lemma special_prefix: "substr text pos (length s) = s \<longleftrightarrow> prefix s (drop pos text)"
  by (auto simp: substr_def prefix_def) (metis append_take_drop_id)

lemma set_special: "set (tk_special (Tokenizer v)) = set (specials v)"
  by (simp add: Tokenizer_def Let_def)

lemma special_sorted: "i \<le> j \<Longrightarrow> j < length (tk_special (Tokenizer v)) \<Longrightarrow>
    length (fst (tk_special (Tokenizer v) ! j)) \<le> length (fst (tk_special (Tokenizer v) ! i))"
proof -
  assume ij: "i \<le> j" "j < length (tk_special (Tokenizer v))"
  let ?f = "\<lambda>sp :: string \<times> nat. length (fst sp)"
  have "sorted (rev (map ?f (tk_special (Tokenizer v))))"
    by (simp add: Tokenizer_def Let_def rev_map[symmetric])
  then have "sorted_wrt (\<ge>) (map ?f (tk_special (Tokenizer v)))" by (simp add: sorted_wrt_rev)
  then show ?thesis using ij by (cases "i = j") (auto dest: sorted_wrt_nth_less[of _ _ i j])
qed

lemma match_special_Some:
  assumes "match_special (Tokenizer v) text pos = Some (i, l)"
  shows "\<exists>s. (s, i) \<in> set (specials v) \<and> l = length s \<and> prefix s (drop pos text) \<and>
    (\<forall>p \<in> set (specials v). prefix (fst p) (drop pos text) \<longrightarrow> length (fst p) \<le> l)"
proof -
  let ?S = "tk_special (Tokenizer v)" and ?P = "\<lambda>sp :: string \<times> nat. prefix (fst sp) (drop pos text)"
  from assms obtain q where q: "List.find ?P ?S = Some q" "i = snd q" "l = length (fst q)"
    by (auto simp: match_special_def special_prefix split: if_splits)
  then obtain k where k: "k < length ?S" "?P (?S ! k)" "q = ?S ! k" "\<forall>m < k. \<not> ?P (?S ! m)"
    by (auto simp: find_Some_iff)
  have "length (fst p) \<le> l" if p: "p \<in> set ?S" "?P p" for p
  proof -
    obtain m where m: "m < length ?S" "?S ! m = p" using p(1) by (auto simp: in_set_conv_nth)
    then have "k \<le> m" using k(4) p(2) by (metis not_le)
    then show ?thesis using special_sorted[of k m v] m q(3) k(3) by simp
  qed
  then show ?thesis using k q by (intro exI[of _ "fst q"]) (auto simp flip: set_special)
qed

lemma match_special_None:
  assumes "match_special (Tokenizer v) text pos = None" "pos < length text" "p \<in> set (specials v)"
  shows "\<not> prefix (fst p) (drop pos text)"
proof
  assume pre: "prefix (fst p) (drop pos text)"
  have "fst p \<noteq> []" using specials_nth[of "fst p" "snd p" v] assms(3) by simp
  with pre assms(2) have "hd (fst p) = text ! pos" by (cases "fst p") (auto simp: Cons_nth_drop_Suc[symmetric])
  then have "first_bytes (specials v) ! of_char (text ! pos)" using assms(3) by (auto simp: first_bytes_nth)
  then have "tk_special_first (Tokenizer v) ! of_char (text ! pos)" by (simp add: Tokenizer_def Let_def)
  then have "\<forall>q \<in> set (specials v). \<not> prefix (fst q) (drop pos text)"
    using assms(1) set_special[of v] by (auto simp: match_special_def special_prefix find_None_iff)
  then show False using pre assms(3) by blast
qed

text \<open>
  A special token written in a prompt is recognised as the longest one that starts there, and a
  position where none starts is left to the pre-tokenizer; the first-byte table never hides a match.
\<close>

theorem match_special_longest:
  assumes "pos < length text"
  shows "case match_special (Tokenizer v) text pos of
      None \<Rightarrow> \<not> (\<exists>p \<in> set (specials v). prefix (fst p) (drop pos text))
    | Some (i, l) \<Rightarrow> \<exists>s. (s, i) \<in> set (specials v) \<and> v_tokens v ! i = s \<and> l = length s \<and> 0 < l \<and> prefix s (drop pos text) \<and>
        (\<forall>p \<in> set (specials v). prefix (fst p) (drop pos text) \<longrightarrow> length (fst p) \<le> l)"
proof (cases "match_special (Tokenizer v) text pos")
  case None
  then show ?thesis using match_special_None[OF None assms] by auto
next
  case (Some a)
  then obtain i l where "match_special (Tokenizer v) text pos = Some (i, l)" by (cases a) auto
  note m = this
  from match_special_Some[OF m] obtain s where s: "(s, i) \<in> set (specials v)" "l = length s" "prefix s (drop pos text)"
    "\<forall>p \<in> set (specials v). prefix (fst p) (drop pos text) \<longrightarrow> length (fst p) \<le> l" by blast
  moreover have "v_tokens v ! i = s" "0 < l" using specials_nth[OF s(1)] s(2) by auto
  ultimately show ?thesis by (simp only: m option.case prod.case) blast
qed

subsection \<open>encode and decode\<close>

definition plain_specials :: "Vocab \<Rightarrow> bool" where
  "plain_specials v \<longleftrightarrow> (\<forall>p \<in> set (specials v). decode_token (Tokenizer v) (int (snd p)) = fst p)"

lemma take_substr: "a \<le> b \<Longrightarrow> take a s @ substr s a (b - a) = take b s"
  unfolding substr_def by (metis le_add_diff_inverse take_add)

lemma encode_scan_decode:
  assumes "full_bytes v" "plain_specials v" "decode (Tokenizer v) (map int ids) = take run_from text" "run_from \<le> i"
    "i \<le> length text" "length text - i \<le> fuel"
  shows "\<exists>rf ids'. encode_scan fuel (Tokenizer v) text i run_from ids = Some (rf, ids') \<and> rf \<le> length text \<and>
    decode (Tokenizer v) (map int ids') = take rf text"
  using assms(3-6)
proof (induction fuel arbitrary: i run_from ids)
  case 0
  then show ?case by auto
next
  case (Suc n)
  let ?t = "Tokenizer v"
  show ?case
  proof (cases "i < length text")
    case True
    show ?thesis
    proof (cases "match_special ?t text i")
      case None
      then show ?thesis using Suc.IH[of ids run_from "i + 1"] Suc.prems True by auto
    next
      case (Some a)
      then obtain sp l where m: "match_special ?t text i = Some (sp, l)" by (cases a) auto
      from match_special_Some[OF m] obtain s where s: "(s, sp) \<in> set (specials v)" "l = length s" "prefix s (drop i text)" by blast
      have "substr text i l = s" using s(2,3) substr_prefix by blast
      moreover have l: "0 < l" "i + l \<le> length text"
        using specials_nth[OF s(1)] s(2) prefix_length_le[OF s(3)] True by auto
      moreover have "decode_token ?t (int sp) = s" using assms(2) s(1) by (auto simp: plain_specials_def)
      ultimately have "decode ?t (map int (ids @ flush ?t text run_from i @ [sp])) = take (i + l) text"
        using Suc.prems(1,2) take_substr[of run_from i "text"] take_substr[of i "i + l" "text"]
        by (simp add: flush_decode[OF assms(1)]) (metis append.assoc)
      then show ?thesis using Suc.IH[of "ids @ flush ?t text run_from i @ [sp]" "i + l" "i + l"] l Suc.prems True m by simp
    qed
  qed (use Suc.prems in auto)
qed

text \<open>
  C9. Encoding is total and lossless for a vocabulary with a token for every byte: \<open>encode\<close> returns, and \<open>decode\<close>
  gives back the text, after the text of the BOS token when one is added, whatever the merges and for each
  pre-tokenizer. With special tokens recognised (\<open>parse_special\<close>, the default) this needs in addition that the
  text of every special token decodes to itself (\<open>plain_specials\<close>). It does for special tokens written in the
  characters the byte alphabet keeps; it does not for a text with a character outside that alphabet, such as
  the full-width bar U+FF5C of the deepseek vocabularies.
\<close>

theorem tokenizer_roundtrip:
  assumes "full_bytes v" "parse_special \<longrightarrow> plain_specials v"
  shows "\<exists>ids. encode (Tokenizer v) text add_bos parse_special = Some ids \<and>
    decode (Tokenizer v) ids = (if add_bos \<and> v_bos_id v \<ge> 0 then decode_token (Tokenizer v) (v_bos_id v) else []) @ text"
proof -
  let ?t = "Tokenizer v"
  have "\<exists>rf ids. (if parse_special then encode_scan (length text) ?t text 0 0 [] else Some (0, [])) = Some (rf, ids) \<and>
      rf \<le> length text \<and> decode ?t (map int ids) = take rf text"
    using encode_scan_decode[OF assms(1), of "[]" 0 "text" 0 "length text"] assms(2) by simp
  then obtain rf ids where e: "(if parse_special then encode_scan (length text) ?t text 0 0 [] else Some (0, [])) = Some (rf, ids)"
    "rf \<le> length text" "decode ?t (map int ids) = take rf text" by blast
  have "tk_bos ?t = v_bos_id v" by (simp add: Tokenizer_def Let_def)
  then show ?thesis
    using e(2,3) take_substr[OF e(2), of "text"] by (auto simp: encode_def Let_def e(1) flush_decode[OF assms(1)])
qed

text \<open>
  C34. Byte-pair merging ends, keeps the text of the piece, and stops only when no adjacent pair of
  symbols is a merge of the vocabulary.
\<close>

theorem bpe_normal_form:
  "concat (merge_loop rk (map byte_symbol piece)) = concat (map byte_symbol piece) \<and>
   (\<nexists>i. mergeable rk (merge_loop rk (map byte_symbol piece)) i)"
proof -
  have "map byte_symbol piece = map group_symbol (map (\<lambda>b. [b]) piece)" by (simp add: byte_symbol_group)
  from merge_loop_groups[OF this, of rk] obtain hs where
    hs: "merge_loop rk (map byte_symbol piece) = map group_symbol hs" "concat hs = piece" by auto
  have "concat (map group_symbol hs) = group_symbol (concat hs)"
    by (induction hs) (simp_all add: group_symbol_def)
  then have "concat (merge_loop rk (map byte_symbol piece)) = concat (map byte_symbol piece)"
    using hs by (simp add: concat_byte_symbols)
  then show ?thesis using merge_loop_normal by blast
qed

subsection \<open>An instance\<close>

definition demo_vocab :: Vocab where
  "demo_vocab =
     \<lparr>v_tokens = map (\<lambda>b. byte_symbol (char_of b)) [0..<256] @ [''ab'', ''<s>''], v_merges = [''a b''],
      v_token_types = replicate 257 1 @ [3], v_bos_id = 257, v_eos_id = 257, v_add_bos = True,
      v_pre = ''lfm2'', v_chat_template = []\<rparr>"

lemma demo_full: "full_bytes demo_vocab"
proof -
  have "byte_symbol b \<in> (\<lambda>b. byte_symbol (char_of b)) ` set [0..<256::nat]" for b
    by (rule image_eqI[of _ _ "of_char b"]) simp_all
  then show ?thesis by (simp add: full_bytes_def demo_vocab_def)
qed

lemma demo_specials: "specials demo_vocab = [(''<s>'', 257)]"
proof -
  define A :: "string list" where "A = map (\<lambda>b. byte_symbol (char_of b)) [0..<256] @ [''ab'']"
  have v: "v_tokens demo_vocab = A @ [''<s>'']" "v_token_types demo_vocab = replicate 257 1 @ [3]"
    by (simp_all add: demo_vocab_def A_def)
  have n: "length A = 257" "[0..<258] = [0..<257] @ [257]" by (simp_all add: A_def upt_Suc_append[symmetric])
  have "zip (A @ [''<s>'']) (zip [0..<258] (replicate 257 1 @ [3])) =
      zip A (zip [0..<257] (replicate 257 1)) @ [(''<s>'', 257, 3 :: int)]"
    unfolding n(2) by (simp add: n(1))
  moreover have "filter (\<lambda>(t, i, ty). (ty = 3 \<or> ty = 4) \<and> t \<noteq> []) (zip A (zip [0..<257] (replicate 257 (1 :: int)))) = []"
    by (rule filter_False) (auto dest!: set_zip_rightD)
  ultimately show ?thesis unfolding specials_def v by (simp add: n(1))
qed

lemma demo_plain: "plain_specials demo_vocab"
proof -
  have "v_tokens demo_vocab ! 257 = ''<s>''" by (simp add: demo_vocab_def nth_append)
  moreover have "group_symbol ''<s>'' = ''<s>''"
    by (simp add: group_symbol_def byte_to_uni_printable in_printable_def utf8_append_def) code_simp
  then have "List.map_filter (\<lambda>c. uni_to_byte (cp c)) (utf8_decode ''<s>'') = ''<s>''" using decode_group[of "''<s>''"] by simp
  ultimately show ?thesis
    using decode_token_nth[of 257 demo_vocab] by (simp add: plain_specials_def demo_specials) (simp add: demo_vocab_def)
qed

theorem tokenizer_roundtrip_witness:
  "\<exists>ids. encode (Tokenizer demo_vocab) ''1ab<s>'' False True = Some ids \<and> decode (Tokenizer demo_vocab) ids = ''1ab<s>''"
  using tokenizer_roundtrip[OF demo_full, of True "''1ab<s>''" False] demo_plain by simp

theorem match_special_longest_witness:
  "(3::nat) < length ''1ab<s>'' \<and>
   (case match_special (Tokenizer demo_vocab) ''1ab<s>'' 3 of None \<Rightarrow> False | Some (i, l) \<Rightarrow> l \<le> 3)"
proof -
  have "prefix (fst (''<s>'', 257::nat)) (drop 3 ''1ab<s>'')" by simp
  then show ?thesis
    using match_special_longest[of 3 "''1ab<s>''" demo_vocab] by (auto simp: demo_specials split: option.splits)
qed

end
