(* ===== verification/Sampler.thy ===== *)
theory Sampler
  imports Complex_Main QW_Prelude "HOL-Library.AList"
begin

section \<open>Token sampling\<close>

text \<open>
  \<open>core/sampler.cpp\<close>. The floating-point type is any linearly ordered field, so rounding is not
  modelled; the exponential and the random draw are parameters: \<open>expf\<close>, and \<open>unif s\<close>, the draw of
  \<open>std::uniform_real_distribution(0, s)\<close>. Sorting is unstable in the code; the model uses the stable
  one of the possible orders. Scratch buffers are values.
\<close>

record 'f SamplerConfig =
  temperature :: 'f
  top_p :: 'f
  top_k :: int
  repeat_penalty :: 'f
  presence_penalty :: 'f
  frequency_penalty :: 'f
  repeat_last_n :: int

record 'f sampler =
  cfg :: "'f SamplerConfig"
  recent :: "int list"
  tok_counts :: "(int \<times> nat) list"

definition Sampler :: "'f SamplerConfig \<Rightarrow> 'f sampler" where
  "Sampler c = \<lparr>cfg = c, recent = [], tok_counts = []\<rparr>"

definition penalized :: "'f :: linordered_field sampler \<Rightarrow> bool" where
  "penalized s =
     (repeat_last_n (cfg s) > 0 \<and>
      (repeat_penalty (cfg s) \<noteq> 1 \<or> presence_penalty (cfg s) \<noteq> 0 \<or> frequency_penalty (cfg s) \<noteq> 0))"

subsection \<open>The penalty window\<close>

definition count_up1 :: "int \<Rightarrow> (int \<times> nat) list \<Rightarrow> (int \<times> nat) list" where
  "count_up1 x m = AList.update x (case map_of m x of None \<Rightarrow> 1 | Some n \<Rightarrow> n + 1) m"

definition count_down :: "int \<Rightarrow> (int \<times> nat) list \<Rightarrow> (int \<times> nat) list" where
  "count_down old m =
     (case map_of m old of
        None \<Rightarrow> m
      | Some n \<Rightarrow> if n - 1 = 0 then AList.delete old m else AList.update old (n - 1) m)"

fun trim_window :: "int \<Rightarrow> int list \<times> (int \<times> nat) list \<Rightarrow> int list \<times> (int \<times> nat) list" where
  "trim_window n ([], m) = ([], m)"
| "trim_window n (old # xs, m) =
     (if int (length (old # xs)) > n then trim_window n (xs, count_down old m) else (old # xs, m))"

definition sampler_accept :: "int \<Rightarrow> 'f :: linordered_field sampler \<Rightarrow> 'f sampler" where
  "sampler_accept x s =
     (if \<not> penalized s then s
      else case trim_window (repeat_last_n (cfg s)) (recent s @ [x], count_up1 x (tok_counts s)) of
             (r, m) \<Rightarrow> s\<lparr>recent := r, tok_counts := m\<rparr>)"

definition prime :: "int list \<Rightarrow> 'f :: linordered_field sampler \<Rightarrow> 'f sampler" where
  "prime prompt s =
     (if \<not> penalized s then s
      else let n = min (length prompt) (nat (repeat_last_n (cfg s)))
           in fold sampler_accept (drop (length prompt - n) prompt) s)"

subsection \<open>sample\<close>

definition penalize1 :: "'f :: linordered_field SamplerConfig \<Rightarrow> int \<times> nat \<Rightarrow> 'f list \<Rightarrow> 'f list" where
  "penalize1 c kv ls =
     (if fst kv < 0 \<or> fst kv \<ge> int (length ls) then ls
      else let i = nat (fst kv); l = ls ! i;
               l1 = (if repeat_penalty c \<noteq> 1 then if l > 0 then l / repeat_penalty c else l * repeat_penalty c else l)
           in ls[i := l1 - (presence_penalty c + frequency_penalty c * of_nat (snd kv))])"

definition penalties :: "'f :: linordered_field sampler \<Rightarrow> 'f list \<Rightarrow> 'f list" where
  "penalties s logits =
     (if penalized s \<and> tok_counts s \<noteq> [] then fold (penalize1 (cfg s)) (tok_counts s) logits else logits)"

fun argmax_from :: "'f :: linorder list \<Rightarrow> nat \<Rightarrow> nat list \<Rightarrow> nat" where
  "argmax_from ls best [] = best"
| "argmax_from ls best (i # js) = argmax_from ls (if ls ! i > ls ! best then i else best) js"

definition argmax :: "'f :: linorder list \<Rightarrow> nat" where
  "argmax ls = argmax_from ls 0 [1..<length ls]"

definition sort_desc :: "('f :: linorder \<times> nat) list \<Rightarrow> ('f \<times> nat) list" where
  "sort_desc ws = rev (sort_key fst (rev ws))"

definition top_k_of :: "'f :: linordered_field SamplerConfig \<Rightarrow> 'f list \<Rightarrow> ('f \<times> nat) list" where
  "top_k_of c lg =
     (let n = length lg; k = (if top_k c > 0 then min (nat (top_k c)) n else n)
      in take k (sort_desc (zip lg [0..<n])))"

definition softmax :: "('f \<Rightarrow> 'f) \<Rightarrow> 'f :: linordered_field SamplerConfig \<Rightarrow> ('f \<times> nat) list \<Rightarrow> ('f \<times> nat) list" where
  "softmax expf c work = map (\<lambda>(l, i). (expf ((l - fst (hd work)) / temperature c), i)) work"

fun nucleus_cut :: "'f :: linordered_field \<Rightarrow> 'f \<Rightarrow> 'f \<Rightarrow> ('f \<times> nat) list \<Rightarrow> nat" where
  "nucleus_cut p tot cum [] = 0"
| "nucleus_cut p tot cum (w # ws) =
     (let cum' = cum + fst w / tot in if cum' \<ge> p then 1 else 1 + nucleus_cut p tot cum' ws)"

fun pick :: "'f :: linordered_field \<Rightarrow> ('f \<times> nat) list \<Rightarrow> nat option" where
  "pick r [] = None"
| "pick r (w # ws) = (if r - fst w \<le> 0 then Some (snd w) else pick (r - fst w) ws)"

definition sample ::
  "('f \<Rightarrow> 'f) \<Rightarrow> ('f \<Rightarrow> 'f) \<Rightarrow> 'f list \<Rightarrow> 'f :: linordered_field sampler \<Rightarrow> nat" where
  "sample expf unif logits s =
     (let lg = penalties s logits; c = cfg s in
      if temperature c \<le> 0 then argmax lg
      else let work = softmax expf c (top_k_of c lg);
               tot = sum_list (map fst work);
               work' = (if top_p c < 1 then take (nucleus_cut (top_p c) tot 0 work) work else work);
               tot' = (if top_p c < 1 then sum_list (map fst work') else tot)
           in case pick (unif tot') work' of Some i \<Rightarrow> i | None \<Rightarrow> snd (last work'))"

subsection \<open>The window holds the last tokens and their counts\<close>

definition lastn :: "nat \<Rightarrow> 'a list \<Rightarrow> 'a list" where
  "lastn n xs = drop (length xs - n) xs"

definition counts_ok :: "(int \<times> nat) list \<Rightarrow> int list \<Rightarrow> bool" where
  "counts_ok m xs \<longleftrightarrow> distinct (map fst m) \<and>
     (\<forall>x. map_of m x = (if x \<in> set xs then Some (count_list xs x) else None))"

lemma lastn_append_lastn: "lastn n (lastn n xs @ ys) = lastn n (xs @ ys)"
proof (cases "length xs \<le> n")
  case False
  then have "length (lastn n xs @ ys) - n = length ys" "length (xs @ ys) - n = (length xs - n) + length ys"
    by (simp_all add: lastn_def)
  then show ?thesis unfolding lastn_def using False by (simp add: drop_append add.commute)
qed (simp add: lastn_def)

lemma counts_up: "counts_ok m xs \<Longrightarrow> counts_ok (count_up1 x m) (xs @ [x])"
  by (auto simp: counts_ok_def count_up1_def distinct_update update_conv' split: option.split)

lemma counts_down:
  assumes "counts_ok m (x # xs)"
  shows "counts_ok (count_down x m) xs"
proof -
  have "map_of m x = Some (Suc (count_list xs x))" "distinct (map fst m)" using assms by (auto simp: counts_ok_def)
  moreover have "count_list xs x = 0 \<longleftrightarrow> x \<notin> set xs" by (simp add: count_list_0_iff)
  ultimately show ?thesis
    using assms by (auto simp: counts_ok_def count_down_def distinct_update distinct_delete update_conv' delete_conv')
qed

lemma trim_window_spec:
  assumes "counts_ok m xs" "0 < n"
  shows "fst (trim_window (int n) (xs, m)) = lastn n xs \<and> counts_ok (snd (trim_window (int n) (xs, m))) (lastn n xs)"
  using assms
proof (induction "int n" "(xs, m)" arbitrary: xs m rule: trim_window.induct)
  case (2 old xs m)
  show ?case
  proof (cases "length (old # xs) > n")
    case True
    then have "lastn n (old # xs) = lastn n xs" by (auto simp: lastn_def Suc_diff_le)
    then show ?thesis using 2 True counts_down by simp
  next
    case False
    then show ?thesis using 2 by (simp add: lastn_def)
  qed
qed (simp add: lastn_def)

definition window_ok :: "'f :: linordered_field sampler \<Rightarrow> int list \<Rightarrow> bool" where
  "window_ok s hist \<longleftrightarrow> recent s = lastn (nat (repeat_last_n (cfg s))) hist \<and> counts_ok (tok_counts s) (recent s)"

lemma accept_window:
  assumes "penalized s" "window_ok s hist"
  shows "window_ok (sampler_accept x s) (hist @ [x]) \<and> cfg (sampler_accept x s) = cfg s"
proof -
  let ?n = "nat (repeat_last_n (cfg s))"
  have n: "0 < ?n" "int ?n = repeat_last_n (cfg s)" using assms(1) by (auto simp: penalized_def)
  have "counts_ok (count_up1 x (tok_counts s)) (recent s @ [x])" 
    using assms(2) unfolding window_ok_def by (blast intro: counts_up)
  from trim_window_spec[OF this n(1)] show ?thesis
    using assms n(2) by (auto simp: sampler_accept_def window_ok_def lastn_append_lastn split: prod.split)
qed

lemma accepts_window:
  assumes "penalized s" "window_ok s hist"
  shows "window_ok (fold sampler_accept xs s) (hist @ xs) \<and> cfg (fold sampler_accept xs s) = cfg s"
  using assms
proof (induction xs arbitrary: s hist)
  case (Cons x xs)
  have "penalized (sampler_accept x s)" using accept_window[OF Cons.prems, of x] Cons.prems(1) by (simp add: penalized_def)
  then show ?case using Cons.IH[of "sampler_accept x s" "hist @ [x]"] accept_window[OF Cons.prems, of x] by simp
qed simp

text \<open>
  The penalty window is exact: after \<open>prime\<close> with a prompt and \<open>accept\<close> of the generated tokens it
  holds the last \<open>repeat_last_n\<close> tokens of prompt and output together, and the counters hold each
  token's number of occurrences in it, with no entry for a token that has left.
\<close>

theorem sampler_window:
  assumes "penalized (Sampler c)"
  shows "let s = fold sampler_accept gen (prime prompt (Sampler c)); w = lastn (nat (repeat_last_n c)) (prompt @ gen) in
    recent s = w \<and> distinct (map fst (tok_counts s)) \<and>
    (\<forall>x. map_of (tok_counts s) x = (if x \<in> set w then Some (count_list w x) else None))"
proof -
  let ?n = "nat (repeat_last_n c)" and ?S = "Sampler c"
  have e: "window_ok ?S []" by (simp add: window_ok_def Sampler_def lastn_def counts_ok_def)
  have "drop (length prompt - min (length prompt) ?n) prompt = lastn ?n prompt" by (simp add: lastn_def min_def)
  then have p: "prime prompt ?S = fold sampler_accept (lastn ?n prompt) ?S" using assms by (simp add: prime_def Sampler_def)
  have "window_ok (fold sampler_accept (lastn ?n prompt @ gen) ?S) (lastn ?n prompt @ gen)"
    using accepts_window[OF assms e, of "lastn ?n prompt @ gen"] by simp
  moreover have "cfg (fold sampler_accept (lastn ?n prompt @ gen) ?S) = c"
    using accepts_window[OF assms e, of "lastn ?n prompt @ gen"] by (simp add: Sampler_def)
  ultimately show ?thesis
    by (simp add: window_ok_def p lastn_append_lastn counts_ok_def Let_def)
qed

subsection \<open>What a sample can be\<close>

lemma penalties_length [simp]: "length (penalties s logits) = length logits"
proof -
  have "length (fold (penalize1 c) m ls) = length ls" for c and m :: "(int \<times> nat) list" and ls :: "'a list"
    by (induction m arbitrary: ls) (auto simp: penalize1_def Let_def)
  then show ?thesis by (simp add: penalties_def)
qed

lemma argmax_from_spec:
  assumes "best < m" "m \<le> n" "\<forall>j < m. ls ! j \<le> ls ! best" "\<forall>j < best. ls ! j < ls ! best"
  shows "let i = argmax_from ls best [m..<n] in i < n \<and> (\<forall>j < n. ls ! j \<le> ls ! i) \<and> (\<forall>j < i. ls ! j < ls ! i)"
  using assms
proof (induction "n - m" arbitrary: m best)
  case (Suc d)
  then have u: "[m..<n] = m # [Suc m..<n]" by (simp add: upt_rec)
  let ?b = "if ls ! m > ls ! best then m else best"
  have "\<forall>j < Suc m. ls ! j \<le> ls ! ?b" "\<forall>j < ?b. ls ! j < ls ! ?b" "?b < Suc m" "Suc m \<le> n"
    using Suc.prems Suc.hyps(2) by (auto simp: less_Suc_eq)
  then show ?case using Suc.hyps(1)[of "Suc m" ?b] Suc.hyps(2) by (simp add: u)
qed auto

lemma argmax_spec: "ls \<noteq> [] \<Longrightarrow> argmax ls < length ls \<and> (\<forall>j < length ls. ls ! j \<le> ls ! argmax ls) \<and> (\<forall>j < argmax ls. ls ! j < ls ! argmax ls)"
  using argmax_from_spec[of 0 1 "length ls" ls] by (cases ls) (auto simp: argmax_def Let_def)

lemma sort_desc_facts:
  "set (sort_desc ws) = set ws" "length (sort_desc ws) = length ws" "distinct (sort_desc ws) = distinct ws"
  "i < j \<Longrightarrow> j < length ws \<Longrightarrow> fst (sort_desc ws ! j) \<le> fst (sort_desc ws ! i)"
proof -
  have "sorted (rev (map fst (sort_desc ws)))" by (simp add: sort_desc_def rev_map[symmetric])
  then have "sorted_wrt (\<ge>) (map fst (sort_desc ws))" by (simp add: sorted_wrt_rev)
  then show "i < j \<Longrightarrow> j < length ws \<Longrightarrow> fst (sort_desc ws ! j) \<le> fst (sort_desc ws ! i)"
    by (auto dest: sorted_wrt_nth_less[of _ _ i j] simp: sort_desc_def)
qed (simp_all add: sort_desc_def)

lemma sort_desc_nth:
  assumes "m < length lg"
  defines "w \<equiv> sort_desc (zip lg [0..<length lg])"
  shows "snd (w ! m) < length lg" "lg ! snd (w ! m) = fst (w ! m)" "card {j. j < length lg \<and> lg ! j > lg ! snd (w ! m)} \<le> m"
proof -
  have len: "length w = length lg" by (simp add: w_def sort_desc_facts(2))
  have el: "snd (w ! k) < length lg \<and> lg ! snd (w ! k) = fst (w ! k)" if "k < length lg" for k
  proof -
    have "w ! k \<in> set (zip lg [0..<length lg])"
      using that len nth_mem[of k w] by (simp add: w_def sort_desc_facts(1))
    then show ?thesis by (auto simp: set_zip)
  qed
  then show "snd (w ! m) < length lg" "lg ! snd (w ! m) = fst (w ! m)" using assms(1) by auto
  have "{j. j < length lg \<and> lg ! j > lg ! snd (w ! m)} \<subseteq> snd ` (!) w ` {..<m}"
  proof
    fix j assume j: "j \<in> {j. j < length lg \<and> lg ! j > lg ! snd (w ! m)}"
    then have "(lg ! j, j) \<in> set w" by (auto simp: w_def sort_desc_facts(1) set_zip)
    then obtain k where k: "k < length lg" "w ! k = (lg ! j, j)" using len by (metis in_set_conv_nth)
    have "k < m"
    proof (rule ccontr)
      assume "\<not> k < m"
      then have "fst (w ! k) \<le> fst (w ! m)"
        using sort_desc_facts(4)[of m k "zip lg [0..<length lg]"] k(1) by (cases "k = m") (auto simp: w_def)
      then show False using j k(2) el[OF assms(1)] by (simp add: not_le[symmetric])
    qed
    then show "j \<in> snd ` (!) w ` {..<m}" using k(2) by force
  qed
  then have "card {j. j < length lg \<and> lg ! j > lg ! snd (w ! m)} \<le> card (snd ` (!) w ` {..<m})" by (intro card_mono) auto
  also have "\<dots> \<le> m" by (metis card_image_le card_lessThan finite_imageI finite_lessThan image_image)
  finally show "card {j. j < length lg \<and> lg ! j > lg ! snd (w ! m)} \<le> m" .
qed

lemma nucleus_cut_spec:
  "ws \<noteq> [] \<Longrightarrow> 0 < nucleus_cut p t cum ws \<and> nucleus_cut p t cum ws \<le> length ws"
  "0 < m \<Longrightarrow> m < nucleus_cut p t cum ws \<Longrightarrow> cum + sum_list (map fst (take m ws)) / t < p"
proof -
  show "ws \<noteq> [] \<Longrightarrow> 0 < nucleus_cut p t cum ws \<and> nucleus_cut p t cum ws \<le> length ws"
  proof (induction p t cum ws rule: nucleus_cut.induct)
    case (2 p t cum w ws)
    then show ?case by (cases ws) (auto simp: Let_def)
  qed simp
  show "0 < m \<Longrightarrow> m < nucleus_cut p t cum ws \<Longrightarrow> cum + sum_list (map fst (take m ws)) / t < p"
  proof (induction p t cum ws arbitrary: m rule: nucleus_cut.induct)
    case (2 p t cum w ws)
    then obtain k where k: "m = Suc k" "cum + fst w / t < p" "k < nucleus_cut p t (cum + fst w / t) ws"
      by (cases m) (auto simp: Let_def split: if_splits)
    show ?case
    proof (cases k)
      case (Suc l)
      then show ?thesis using 2(1)[OF refl, of k] k by (simp add: not_le add_divide_distrib add.assoc)
    qed (use k in simp)
  qed simp
qed

lemma pick_in: "pick r ws = Some i \<Longrightarrow> \<exists>m < length ws. snd (ws ! m) = i"
  by (induction r ws rule: pick.induct) (auto split: if_splits simp: gr0_conv_Suc nth_Cons' intro: exI[of _ "Suc _"])

lemma top_k_nth:
  assumes "m < length (top_k_of c lg)"
  shows "m < length lg" "top_k_of c lg ! m = sort_desc (zip lg [0..<length lg]) ! m" "0 < top_k c \<longrightarrow> int m < top_k c"
  using assms by (auto simp: top_k_of_def Let_def sort_desc_facts(2) split: if_splits)

lemma top_k_nonempty: "lg \<noteq> [] \<Longrightarrow> top_k_of c lg \<noteq> []"
  using sort_desc_facts(2)[of "zip lg [0..<length lg]"] by (auto simp: top_k_of_def Let_def)

lemma softmax_snd: "length (softmax expf c ws) = length ws" "m < length ws \<Longrightarrow> snd (softmax expf c ws ! m) = snd (ws ! m)"
  by (simp_all add: softmax_def case_prod_beta)

text \<open>The position in the sorted list of the token a draw returns.\<close>

lemma sample_pos:
  fixes expf unif :: "'f :: linordered_field \<Rightarrow> 'f"
  assumes "logits \<noteq> []" "0 < temperature (cfg s)"
  defines "w \<equiv> softmax expf (cfg s) (top_k_of (cfg s) (penalties s logits))"
  shows "\<exists>m < length w. snd (w ! m) = sample expf unif logits s \<and>
    (top_p (cfg s) < 1 \<and> 0 < m \<longrightarrow> sum_list (map fst (take m w)) / sum_list (map fst w) < top_p (cfg s))"
proof -
  let ?p = "top_p (cfg s)" and ?t = "sum_list (map fst w)"
  let ?n = "if ?p < 1 then nucleus_cut ?p ?t 0 w else length w"
  have "penalties s logits \<noteq> []" using assms(1) penalties_length[of s logits] by (metis length_0_conv)
  then have w: "w \<noteq> []" using top_k_nonempty softmax_snd(1) unfolding w_def by (metis length_0_conv)
  have n: "0 < ?n" "?n \<le> length w" using nucleus_cut_spec(1)[OF w, of ?p ?t 0] w by auto
  define u where "u = unif (sum_list (map fst (take ?n w)))"
  have s: "sample expf unif logits s = (case pick u (take ?n w) of Some i \<Rightarrow> i | None \<Rightarrow> snd (last (take ?n w)))"
    unfolding sample_def Let_def w_def u_def using assms(2) by (cases "?p < 1") (simp_all cong: option.case_cong)
  have "\<exists>m < ?n. snd (w ! m) = sample expf unif logits s"
  proof (cases "pick u (take ?n w)")
    case None
    then show ?thesis using n w s by (intro exI[of _ "?n - 1"]) (auto simp: last_conv_nth)
  next
    case (Some i)
    then show ?thesis using pick_in[OF Some] n s by auto
  qed
  then obtain m where "m < ?n" "snd (w ! m) = sample expf unif logits s" by blast
  then show ?thesis using n nucleus_cut_spec(2)[of m ?p ?t 0 w] by (intro exI[of _ m]) auto
qed

text \<open>
  C32. What \<open>sample\<close> returns: a token of the vocabulary. At temperature 0 it is the first one with the
  largest penalised logit. Otherwise fewer than \<open>top_k\<close> tokens have a larger logit, and, when nucleus
  sampling is on, the tokens sorted before it have less than \<open>top_p\<close> of the probability mass. This holds
  for every outcome of the random draw.
\<close>

theorem sample_correct:
  assumes "logits \<noteq> []"
  shows "let lg = penalties s logits; i = sample expf unif logits s; w = softmax expf (cfg s) (top_k_of (cfg s) lg) in
    i < length logits \<and>
    (if temperature (cfg s) \<le> 0 then (\<forall>j < length logits. lg ! j \<le> lg ! i) \<and> (\<forall>j < i. lg ! j < lg ! i)
     else (0 < top_k (cfg s) \<longrightarrow> int (card {j. j < length logits \<and> lg ! j > lg ! i}) < top_k (cfg s)) \<and>
       (\<exists>m < length w. snd (w ! m) = i \<and>
          (top_p (cfg s) < 1 \<and> 0 < m \<longrightarrow> sum_list (map fst (take m w)) / sum_list (map fst w) < top_p (cfg s))))"
proof (cases "temperature (cfg s) \<le> 0")
  case True
  have "penalties s logits \<noteq> []" using assms penalties_length[of s logits] by (metis length_0_conv)
  with True show ?thesis using argmax_spec[of "penalties s logits"] by (simp add: sample_def Let_def)
next
  case False
  let ?lg = "penalties s logits"
  let ?v = "top_k_of (cfg s) ?lg"
  let ?w = "softmax expf (cfg s) ?v" and ?i = "sample expf unif logits s"
  obtain m where m: "m < length ?w" "snd (?w ! m) = ?i"
    "top_p (cfg s) < 1 \<and> 0 < m \<longrightarrow> sum_list (map fst (take m ?w)) / sum_list (map fst ?w) < top_p (cfg s)"
    using sample_pos[OF assms, of s] False by auto
  then have mv: "m < length ?v" by (simp add: softmax_snd(1))
  note t = top_k_nth[OF mv]
  have i: "?i = snd (sort_desc (zip ?lg [0..<length ?lg]) ! m)" using m(2) softmax_snd(2)[OF mv] t(2) by simp
  have "?i < length logits" "card {j. j < length logits \<and> ?lg ! j > ?lg ! ?i} \<le> m"
    using sort_desc_nth(1,3)[OF t(1)] unfolding i by simp_all
  moreover from this(2) t(3) have "0 < top_k (cfg s) \<longrightarrow> int (card {j. j < length logits \<and> ?lg ! j > ?lg ! ?i}) < top_k (cfg s)"
    by linarith
  ultimately show ?thesis unfolding Let_def using False m by (simp only: if_False) blast
qed

subsection \<open>An instance\<close>

definition demo_cfg :: "rat SamplerConfig" where
  "demo_cfg = \<lparr>temperature = 1, top_p = 9 / 10, top_k = 2, repeat_penalty = 2, presence_penalty = 0,
     frequency_penalty = 0, repeat_last_n = 3\<rparr>"

theorem sampler_window_witness:
  "recent (fold sampler_accept [7, 8] (prime [1, 2, 3, 7] (Sampler demo_cfg))) = [7, 7, 8]"
  using sampler_window[of demo_cfg "[7, 8]" "[1, 2, 3, 7]"]
  by (simp add: penalized_def Sampler_def demo_cfg_def lastn_def Let_def)

theorem sample_correct_witness:
  "sample (\<lambda>x. if x < 0 then 1 / 4 else 1) (\<lambda>x. x) [1, 5, 3 :: rat] (Sampler demo_cfg) < 3"
  using sample_correct[of "[1, 5, 3 :: rat]" "Sampler demo_cfg" "\<lambda>x. if x < 0 then 1 / 4 else 1" "\<lambda>x. x"]
  by (simp add: Let_def)

end
