(* ===== verification/Base64.thy ===== *)
theory Base64
  imports QW_Prelude "HOL-Library.Word"
begin

unbundle bit_operations_syntax

section \<open>Base64 decoding of inline images\<close>

text \<open>
  \<open>base64_decode\<close> of \<open>server/main.cpp\<close>. The accumulator \<open>acc\<close> is a 32-bit \<open>int\<close> that is shifted left for
  every character and never masked, so it overflows on every input of more than five characters. It
  is a 32-bit word here, with the wrap-around the compilers in use give it. \<open>bits\<close> never exceeds 13,
  where the arithmetic and the logical right shift agree on the byte that is pushed.
\<close>

definition b64_chars :: string where
  "b64_chars = ''ABCDEFGHIJKLMNOPQRSTUVWXYZabcdefghijklmnopqrstuvwxyz0123456789+/''"

definition tbl :: "char \<Rightarrow> nat option" where
  "tbl c = map_of (zip b64_chars [0..<64]) c"

fun b64_loop :: "string \<Rightarrow> 32 word \<Rightarrow> nat \<Rightarrow> nat list \<Rightarrow> nat list" where
  "b64_loop [] acc bits out = out"
| "b64_loop (c # cs) acc bits out =
     (if c = CHR ''='' \<or> c = CHR 0x0A \<or> c = CHR 0x0D then b64_loop cs acc bits out
      else case tbl c of
        None \<Rightarrow> b64_loop cs acc bits out
      | Some v \<Rightarrow>
          let acc' = push_bit 6 acc OR word_of_nat v; bits' = bits + 6 in
          if bits' \<ge> 8 then b64_loop cs acc' (bits' - 8) (out @ [unat (drop_bit (bits' - 8) acc' AND 0xFF)])
          else b64_loop cs acc' bits' out)"

definition base64_decode :: "string \<Rightarrow> nat list" where
  "base64_decode s = b64_loop s 0 0 []"

subsection \<open>The reference encoding\<close>

text \<open>RFC 4648: three bytes become four characters, a shorter rest is padded with \<open>=\<close>.\<close>

definition b64_char :: "nat \<Rightarrow> char" where
  "b64_char v = b64_chars ! v"

fun b64_encode :: "nat list \<Rightarrow> string" where
  "b64_encode [] = []"
| "b64_encode [a] = [b64_char (a div 4), b64_char (a mod 4 * 16), CHR ''='', CHR ''='']"
| "b64_encode [a, b] = [b64_char (a div 4), b64_char (a mod 4 * 16 + b div 16), b64_char (b mod 16 * 4), CHR ''='']"
| "b64_encode (a # b # c # r) =
     [b64_char (a div 4), b64_char (a mod 4 * 16 + b div 16), b64_char (b mod 16 * 4 + c div 64), b64_char (c mod 64)] @ b64_encode r"

subsection \<open>The bits that matter\<close>

text \<open>
  A decoder on numbers that keeps only the pending bits: \<open>p\<close> is the value of the low \<open>bits\<close> bits of the
  accumulator.
\<close>

fun b64_ref :: "nat list \<Rightarrow> nat \<Rightarrow> nat \<Rightarrow> nat list" where
  "b64_ref [] p bits = []"
| "b64_ref (v # vs) p bits =
     (let p' = p * 64 + v; n = bits + 6 in
      if n \<ge> 8 then p' div 2 ^ (n - 8) # b64_ref vs (p' mod 2 ^ (n - 8)) (n - 8) else b64_ref vs p' n)"

definition sextets :: "string \<Rightarrow> nat list" where
  "sextets s = List.map_filter tbl (filter (\<lambda>c. c \<notin> {CHR ''='', CHR 0x0A, CHR 0x0D}) s)"

lemma tbl_lt: "tbl c = Some v \<Longrightarrow> v < 64"
  by (auto simp: tbl_def set_zip dest!: map_of_SomeD)

lemma or_shift6:
  fixes acc :: "32 word"
  assumes "v < 64"
  shows "push_bit 6 acc OR word_of_nat v = acc * 64 + word_of_nat v"
proof -
  have v: "word_of_nat v = take_bit 6 (word_of_nat v :: 32 word)"
    using assms take_bit_nat_eq_self[of v 6] by (simp add: take_bit_of_nat)
  have "push_bit 6 acc AND take_bit 6 (word_of_nat v) = 0" by (rule bit_eqI) (auto simp: bit_simps)
  then have "push_bit 6 acc OR word_of_nat v = push_bit 6 acc + word_of_nat v" using v by (metis disjunctive_add_eq_or)
  also have "\<dots> = acc * 64 + word_of_nat v" by (simp add: push_bit_eq_mult)
  finally show ?thesis .
qed

lemma acc_step:
  fixes acc :: "32 word"
  assumes "v < 64" "n \<le> 26" "unat acc mod 2 ^ n = p"
  shows "unat (push_bit 6 acc OR word_of_nat v) mod 2 ^ (n + 6) = p * 64 + v"
proof -
  have d: "(2 :: nat) ^ (n + 6) dvd 2 ^ 32" using assms(2) by (intro le_imp_power_dvd) simp
  have "unat (acc * 64 + word_of_nat v) mod 2 ^ (n + 6) = (unat acc * 64 + v) mod 2 ^ 32 mod 2 ^ (n + 6)"
    using assms(1) take_bit_nat_eq_self[of v 32] by (simp add: unat_word_ariths unsigned_of_nat mod_simps)
  also have "\<dots> = (unat acc * 64 + v) mod 2 ^ (n + 6)" using d by (simp add: mod_mod_cancel)
  also have "\<dots> = (unat acc mod 2 ^ n) * 64 + v"
  proof -
    have "unat acc * 64 + v = 2 ^ (n + 6) * (unat acc div 2 ^ n) + ((unat acc mod 2 ^ n) * 64 + v)"
    proof -
      have "(a * b + c) * 64 + v = (b * 64) * a + (c * 64 + v)" for a b c :: nat by (simp add: algebra_simps)
      from this[of "unat acc div 2 ^ n" "2 ^ n" "unat acc mod 2 ^ n"] show ?thesis
        unfolding div_mult_mod_eq by (simp only: power_add) simp
    qed
    moreover have "(unat acc mod 2 ^ n) * 64 + v < 2 ^ (n + 6)"
    proof -
      have "unat acc mod 2 ^ n + 1 \<le> 2 ^ n" by (simp add: Suc_leI)
      then have "(unat acc mod 2 ^ n + 1) * 64 \<le> 2 ^ n * 64" by (rule mult_le_mono1)
      then show ?thesis using assms(1) by (simp add: power_add)
    qed
    ultimately show ?thesis by (metis mod_mult_self4 mod_less)
  qed
  finally show ?thesis using assms by (simp add: or_shift6)
qed

text \<open>The wrapping accumulator and the pending bits give the same bytes.\<close>

lemma byte_of_acc:
  fixes acc :: "32 word"
  assumes "unat acc mod 2 ^ (n + 8) = q" "n + 8 \<le> 32"
  shows "unat (drop_bit n acc AND 0xFF) = q div 2 ^ n" "unat acc mod 2 ^ n = q mod 2 ^ n"
proof -
  have "drop_bit n acc AND 0xFF = take_bit 8 (drop_bit n acc)"
    by (simp add: take_bit_eq_mask mask_eq_exp_minus_1)
  then have "unat (drop_bit n acc AND 0xFF) = take_bit 8 (unat (drop_bit n acc))"
    by (simp only: unsigned_take_bit_eq)
  also have "\<dots> = unat acc div 2 ^ n mod 2 ^ 8"
    unfolding unat_drop_bit_eq by (simp only: take_bit_eq_mod drop_bit_eq_div)
  also have "\<dots> = unat acc mod 2 ^ (n + 8) div 2 ^ n" by (simp add: mod_mult2_eq power_add)
  finally show "unat (drop_bit n acc AND 0xFF) = q div 2 ^ n" using assms(1) by simp
  show "unat acc mod 2 ^ n = q mod 2 ^ n" unfolding assms(1)[symmetric] by (simp add: power_add mod_mult2_eq)
qed

lemma b64_loop_ref:
  assumes "unat acc mod 2 ^ bits = p" "bits < 8"
  shows "b64_loop s acc bits out = out @ b64_ref (sextets s) p bits"
  using assms
proof (induction s acc bits out arbitrary: p rule: b64_loop.induct)
  case (1 acc bits out)
  then show ?case by (simp add: sextets_def List.map_filter_simps)
next
  case (2 c cs acc bits out)
  show ?case
  proof (cases "c = CHR ''='' \<or> c = CHR 0x0A \<or> c = CHR 0x0D \<or> tbl c = None")
    case True
    then have "sextets (c # cs) = sextets cs" "b64_loop (c # cs) acc bits out = b64_loop cs acc bits out"
      by (auto simp: sextets_def List.map_filter_simps)
    then show ?thesis using 2 True by auto
  next
    case False
    then obtain v where v: "tbl c = Some v" by auto
    define A where "A = push_bit 6 acc OR word_of_nat v"
    have s: "sextets (c # cs) = v # sextets cs" using False v by (auto simp: sextets_def List.map_filter_simps)
    have a: "unat A mod 2 ^ (bits + 6) = p * 64 + v"
      unfolding A_def using acc_step[OF tbl_lt[OF v] _ "2.prems"(1)] "2.prems"(2) by simp
    have nc: "\<not> (c = CHR ''='' \<or> c = CHR 0x0A \<or> c = CHR 0x0D)" using False by blast
    have loop: "b64_loop (c # cs) acc bits out =
        (if bits + 6 \<ge> 8 then b64_loop cs A (bits + 6 - 8) (out @ [unat (drop_bit (bits + 6 - 8) A AND 0xFF)])
         else b64_loop cs A (bits + 6) out)"
      unfolding A_def using nc v by (simp add: Let_def)
    show ?thesis
    proof (cases "bits + 6 \<ge> 8")
      case True
      define k where "k = bits + 6 - 8"
      then have k: "bits + 6 = k + 8" "k < 8" using True "2.prems"(2) by auto
      have q: "unat (drop_bit k A AND 0xFF) = (p * 64 + v) div 2 ^ k" "unat A mod 2 ^ k = (p * 64 + v) mod 2 ^ k"
        using byte_of_acc[of A k "p * 64 + v"] a k by auto
      have "b64_loop cs A k (out @ [unat (drop_bit k A AND 0xFF)]) =
          (out @ [unat (drop_bit k A AND 0xFF)]) @ b64_ref (sextets cs) ((p * 64 + v) mod 2 ^ k) k"
        using "2.IH"(3)[OF nc v refl refl True] q(2) k(2) unfolding A_def k_def by blast
      then show ?thesis unfolding loop s k_def[symmetric] using True q(1) k by (simp del: b64_loop.simps add: Let_def)
    next
      case le: False
      have "b64_loop cs A (bits + 6) out = out @ b64_ref (sextets cs) (p * 64 + v) (bits + 6)"
        using "2.IH"(4)[OF nc v refl refl le] a le unfolding A_def by simp
      then show ?thesis unfolding loop s using le by (simp del: b64_loop.simps add: Let_def)
    qed
  qed
qed

subsection \<open>Decoding the encoding\<close>

lemma b64_table: "list_all (\<lambda>v. tbl (b64_char v) = Some v \<and> b64_char v \<notin> {CHR ''='', CHR 0x0A, CHR 0x0D}) [0..<64]"
  by code_simp

lemma sextets_Cons: "v < 64 \<Longrightarrow> sextets (b64_char v # s) = v # sextets s"
  using b64_table by (auto simp: list_all_iff sextets_def List.map_filter_simps)

lemma sextets_pad: "sextets (CHR ''='' # s) = sextets s" "sextets [] = []"
  by (simp_all add: sextets_def List.map_filter_simps)

lemma b64_ref_steps:
  "b64_ref (x # y # vs) 0 0 = (x * 64 + y) div 16 # b64_ref vs ((x * 64 + y) mod 16) 4"
  "b64_ref (x # vs) p 4 = (p * 64 + x) div 4 # b64_ref vs ((p * 64 + x) mod 4) 2"
  "b64_ref (x # vs) p 2 = (p * 64 + x) # b64_ref vs 0 0"
  by (simp_all add: Let_def)

lemma groups:
  assumes "b < (256 :: nat)" "c < 256"
  shows "(a div 4 * 64 + (a mod 4 * 16 + b div 16)) div 16 = a" "(a div 4 * 64 + (a mod 4 * 16 + b div 16)) mod 16 = b div 16"
    "(b div 16 * 64 + (b mod 16 * 4 + c div 64)) div 4 = b" "(b div 16 * 64 + (b mod 16 * 4 + c div 64)) mod 4 = c div 64"
    "c div 64 * 64 + c mod 64 = c"
proof -
  have e1: "a div 4 * 64 + (a mod 4 * 16 + b div 16) = a * 16 + b div 16"
    using div_mult_mod_eq[of a 4] by linarith
  have "b div 16 < 16" using assms(1) by (simp add: less_mult_imp_div_less)
  then show "(a div 4 * 64 + (a mod 4 * 16 + b div 16)) div 16 = a" "(a div 4 * 64 + (a mod 4 * 16 + b div 16)) mod 16 = b div 16"
    unfolding e1 by simp_all
  have e2: "b div 16 * 64 + (b mod 16 * 4 + c div 64) = b * 4 + c div 64"
    using div_mult_mod_eq[of b 16] by linarith
  have "c div 64 < 4" using assms(2) by (simp add: less_mult_imp_div_less)
  then show "(b div 16 * 64 + (b mod 16 * 4 + c div 64)) div 4 = b" "(b div 16 * 64 + (b mod 16 * 4 + c div 64)) mod 4 = c div 64"
    unfolding e2 by simp_all
qed simp

lemma sextet_bounds:
  "a < (256 :: nat) \<Longrightarrow> a div 4 < 64" "b < 256 \<Longrightarrow> a mod 4 * 16 + b div 16 < 64" "c < 256 \<Longrightarrow> b mod 16 * 4 + c div 64 < 64"
  "a mod 4 * 16 < 64" "b mod 16 * 4 < 64"
proof -
  have "b div 16 < 16" if "b < 256" for b :: nat using that by (simp add: less_mult_imp_div_less)
  moreover have "c div 64 < 4" if "c < 256" for c :: nat using that by (simp add: less_mult_imp_div_less)
  moreover have "a mod 4 < 4" "b mod 16 < 16" for a b :: nat by simp_all
  ultimately show "b < 256 \<Longrightarrow> a mod 4 * 16 + b div 16 < 64" "c < 256 \<Longrightarrow> b mod 16 * 4 + c div 64 < 64"
    "a mod 4 * 16 < 64" "b mod 16 * 4 < 64" by fastforce+
qed (simp add: less_mult_imp_div_less)

lemma b64_ref_encode: "\<forall>b \<in> set bs. b < 256 \<Longrightarrow> b64_ref (sextets (b64_encode bs)) 0 0 = bs"
proof (induction bs rule: b64_encode.induct)
  case (2 a)
  then show ?case using groups(1)[of 0 0 a] by (simp add: sextets_Cons sextets_pad sextet_bounds b64_ref_steps)
next
  case (3 a b)
  then show ?case
    using groups(1,2)[of b 0 a] groups(3)[of b 0] by (simp add: sextets_Cons sextets_pad sextet_bounds b64_ref_steps del: b64_ref.simps(2))
next
  case (4 a b c r)
  then show ?case
    using groups(1,2)[of b c a] groups(3-5)[of b c] by (simp add: sextets_Cons sextets_pad sextet_bounds b64_ref_steps del: b64_ref.simps(2))
qed (simp_all add: sextets_pad)

text \<open>
  C38. Base64 round trip: decoding the RFC 4648 encoding of any byte sequence gives it back, for every
  length and padding, although the 32-bit accumulator overflows on the way.
\<close>

theorem base64_roundtrip:
  assumes "\<forall>b \<in> set bs. b < 256"
  shows "base64_decode (b64_encode bs) = bs"
  using b64_loop_ref[of 0 0 0 "b64_encode bs" "[]"] b64_ref_encode[OF assms] by (simp add: base64_decode_def)

theorem base64_roundtrip_witness: "base64_decode (b64_encode [1, 2, 250, 77, 0, 255, 9]) = [1, 2, 250, 77, 0, 255, 9]"
  by (rule base64_roundtrip) simp

end
