(* ===== verification/Server_Text.thy ===== *)
theory Server_Text
  imports Utf8
begin

section \<open>Text helpers of the server\<close>

text \<open>
  \<open>split_reasoning\<close>, \<open>marker_holdback\<close> and \<open>utf8_clip\<close> of \<open>server/main.cpp\<close>.
\<close>

definition nl :: char where "nl = CHR 0x0A"
definition is_ws :: "char \<Rightarrow> bool" where
  "is_ws c = (c = CHR 0x0A \<or> c = CHR '' '' \<or> c = CHR 0x09 \<or> c = CHR 0x0D)"

text \<open>\<open>while (!s.empty() && p(s.back())) s.pop_back()\<close>\<close>

definition trim_back :: "(char \<Rightarrow> bool) \<Rightarrow> string \<Rightarrow> string" where
  "trim_back P s = rev (dropWhile P (rev s))"

lemma trim_back_append: "s = trim_back P s @ rev (takeWhile P (rev s))"
  unfolding trim_back_def by (metis rev_append rev_rev_ident takeWhile_dropWhile_id)

lemma trim_back_rest: "\<exists>w. s = trim_back P s @ w \<and> (\<forall>c \<in> set w. P c)"
  using trim_back_append[of s P] by (metis set_rev set_takeWhileD)

subsection \<open>split\_reasoning\<close>

text \<open>The content, and the reasoning when the text has a \<open></think>\<close>.\<close>

definition split_reasoning :: "string \<Rightarrow> string \<times> string option" where
  "split_reasoning text =
     (case str_find text ''</think>'' 0 of
        None \<Rightarrow> (text, None)
      | Some p \<Rightarrow>
          let r0 = substr text 0 p;
              r1 = (case find_first_not_of r0 [CHR '' '', CHR 0x0A] of
                      None \<Rightarrow> r0
                    | Some k \<Rightarrow> if substr r0 k 7 = ''<think>'' then drop (k + 7) r0 else r0);
              r2 = dropWhile (\<lambda>c. c = nl) r1;
              r3 = trim_back (\<lambda>c. c = nl \<or> c = CHR '' '') r2
          in (dropWhile (\<lambda>c. c = nl) (drop (p + 8) text), Some r3))"

subsection \<open>marker\_holdback\<close>

fun longest_overlap :: "string \<Rightarrow> string \<Rightarrow> nat \<Rightarrow> nat" where
  "longest_overlap s marker 0 = 0"
| "longest_overlap s marker (Suc n) =
     (if drop (length s - Suc n) s = take (Suc n) marker then Suc n else longest_overlap s marker n)"

definition marker_holdback :: "string \<Rightarrow> string \<Rightarrow> nat" where
  "marker_holdback s marker =
     (let k = longest_overlap s marker (min (length s) (length marker - 1))
      in length s - length (trim_back is_ws (take (length s - k) s)))"

lemma longest_overlap_le: "longest_overlap s marker n \<le> n"
  by (induction n) auto

lemma longest_overlap_ge:
  "0 < m \<Longrightarrow> m \<le> n \<Longrightarrow> drop (length s - m) s = take m marker \<Longrightarrow> m \<le> longest_overlap s marker n"
proof (induction n)
  case (Suc n)
  then show ?case by (cases "m = Suc n") auto
qed simp

lemma holdback_le: "marker_holdback s marker \<le> length s"
  by (simp add: marker_holdback_def Let_def)

lemma holdback_ge: "longest_overlap s marker (min (length s) (length marker - 1)) \<le> marker_holdback s marker"
proof -
  let ?k = "longest_overlap s marker (min (length s) (length marker - 1))"
  have "length (trim_back is_ws (take (length s - ?k) s)) \<le> length s - ?k"
    using length_dropWhile_le[of is_ws "rev (take (length s - ?k) s)"] by (simp add: trim_back_def)
  moreover have "?k \<le> length s" using longest_overlap_le[of s marker "min (length s) (length marker - 1)"] by simp
  ultimately show ?thesis unfolding marker_holdback_def Let_def by linarith
qed

text \<open>
  A marker that starts before the end of \<open>s\<close> and is completed by later text starts in the part that is
  held back.
\<close>

lemma holdback_covers:
  assumes "prefix marker (drop j (s @ t))" "j < length s" "length s < j + length marker"
  shows "length s - marker_holdback s marker \<le> j"
proof -
  let ?m = "length s - j"
  have j: "?m + j = length s" using assms(2) by simp
  obtain zs where "drop j (s @ t) = marker @ zs" using assms(1) unfolding prefix_def by blast
  then have "drop j s @ t = marker @ zs" using assms(2) by simp
  then have "take ?m (drop j s @ t) = take ?m (marker @ zs)" by simp
  then have "drop j s = take ?m marker" using assms(2,3) by simp
  then have "drop (length s - ?m) s = take ?m marker" using assms(2) by simp
  then have "?m \<le> longest_overlap s marker (min (length s) (length marker - 1))"
    using assms(2,3) by (intro longest_overlap_ge) auto
  then show ?thesis using holdback_ge[of s marker] assms(2) by linarith
qed

text \<open>What is held back is white space followed by a proper prefix of the marker.\<close>

lemma holdback_shape:
  "\<exists>w k. drop (length s - marker_holdback s marker) s = w @ take k marker \<and> (\<forall>c \<in> set w. is_ws c) \<and>
     k \<le> length marker - 1"
proof -
  let ?k = "longest_overlap s marker (min (length s) (length marker - 1))"
  let ?u = "take (length s - ?k) s"
  obtain w where w: "?u = trim_back is_ws ?u @ w" "\<forall>c \<in> set w. is_ws c" using trim_back_rest[of ?u is_ws] by blast
  have k: "?k \<le> length s" "?k \<le> length marker - 1"
    using longest_overlap_le[of s marker "min (length s) (length marker - 1)"] by auto
  have o: "drop (length s - ?k) s = take ?k marker"
  proof -
    have "n \<le> length s \<Longrightarrow> drop (length s - longest_overlap s marker n) s = take (longest_overlap s marker n) marker" for n
      by (induction n) auto
    then show ?thesis by simp
  qed
  have "length (trim_back is_ws ?u) \<le> length s" using w(1) by (metis append_take_drop_id length_append le_add1 trans_le_add1)
  then have "length s - marker_holdback s marker = length (trim_back is_ws ?u)" by (simp add: marker_holdback_def Let_def)
  moreover have "s = trim_back is_ws ?u @ w @ take ?k marker"
    using w(1) o by (metis append.assoc append_take_drop_id)
  ultimately have "drop (length s - marker_holdback s marker) s = w @ take ?k marker" by (metis append_eq_conv_conj)
  then show ?thesis using w(2) k(2) by blast
qed

subsection \<open>utf8\_clip\<close>

definition need :: "nat \<Rightarrow> nat" where
  "need c = (if c AND 0xF8 = 0xF0 then 4 else if c AND 0xF0 = 0xE0 then 3 else 2)"

text \<open>The scan from the end: at most four bytes, stopping at an ASCII or a lead byte.\<close>

fun clip_keep :: "nat \<Rightarrow> string \<Rightarrow> nat \<Rightarrow> nat" where
  "clip_keep sz [] i = sz"
| "clip_keep sz (ch # cs) i =
     (let c = of_char ch in
      if i \<ge> 4 then sz
      else if c AND 0x80 = 0 then sz
      else if c AND 0xC0 = 0xC0 then (if i + 1 < need c then sz - 1 - i else sz)
      else clip_keep sz cs (i + 1))"

definition utf8_clip :: "string \<Rightarrow> string \<Rightarrow> string \<times> string" where
  "utf8_clip pend piece =
     (let s = pend @ piece; keep = clip_keep (length s) (rev s) 0 in (take keep s, drop keep s))"

lemma and_field: "b AND push_bit n (mask k) = push_bit n (take_bit k (drop_bit n (b::nat)))"
  by (rule bit_eqI) (auto simp: bit_simps)

lemma and_fields:
  "b AND 0x80 = (b div 128 mod 2) * (128::nat)" "b AND 0xC0 = (b div 64 mod 4) * (64::nat)"
  "b AND 0xF8 = (b div 8 mod 32) * (8::nat)" "b AND 0xF0 = (b div 16 mod 16) * (16::nat)"
  using and_field[of b 7 1] and_field[of b 6 2] and_field[of b 3 5] and_field[of b 4 4]
  by (simp_all add: push_bit_eq_mult drop_bit_eq_div take_bit_eq_mod mask_eq_exp_minus_1)

lemma byte_class:
  assumes "b < (256::nat)"
  shows "(b AND 0x80 = 0) = (b < 128)" "(b AND 0xC0 = 0xC0) = (b \<ge> 192)"
proof -
  have "b div 128 < 2" "b div 64 < 4" using assms by (simp_all add: less_mult_imp_div_less)
  moreover have "b div 128 = 0 \<longleftrightarrow> b < 128" by (simp add: div_eq_0_iff)
  moreover have "3 \<le> b div 64 \<longleftrightarrow> 192 \<le> b" by (simp add: less_eq_div_iff_mult_less_eq)
  ultimately show "(b AND 0x80 = 0) = (b < 128)" "(b AND 0xC0 = 0xC0) = (b \<ge> 192)"
    unfolding and_fields by auto
qed

lemma need_lead:
  "m < 32 \<Longrightarrow> need (192 + m) = 2" "m < 16 \<Longrightarrow> need (224 + m) = 3" "m < 8 \<Longrightarrow> need (240 + m) = 4"
proof -
  have d: "(k * q + m) div q = k + m div q" if "0 < q" for k q m :: nat using that by simp
  assume "m < 32"
  then have "m div 8 < 4" "m div 16 < 2" by (simp_all add: less_mult_imp_div_less)
  then show "need (192 + m) = 2" using d[of 8 24 m] d[of 16 12 m] by (simp add: need_def and_fields)
next
  have d: "(k * q + m) div q = k + m div q" if "0 < q" for k q m :: nat using that by simp
  assume "m < 16"
  then have "m div 8 < 2" "m div 16 = 0" by (simp_all add: less_mult_imp_div_less)
  then show "need (224 + m) = 3" using d[of 8 28 m] d[of 16 14 m] by (simp add: need_def and_fields)
next
  have d: "(k * q + m) div q = k + m div q" if "0 < q" for k q m :: nat using that by simp
  assume "m < 8"
  then show "need (240 + m) = 4" using d[of 8 30 m] by (simp add: need_def and_fields)
qed

definition cont :: "char \<Rightarrow> bool" where
  "cont c \<longleftrightarrow> of_char c \<ge> (128::nat) \<and> of_char c < (192::nat)"

text \<open>The bytes of a code point: one ASCII byte, or a lead byte that announces its continuation bytes.\<close>

lemma enc_shape:
  assumes "n < 0x200000"
  shows "\<exists>l ks. utf8_append [] n = l # ks \<and> list_all cont ks \<and> length ks \<le> 3 \<and>
    (of_char l < (128::nat) \<and> ks = [] \<or> of_char l \<ge> (192::nat) \<and> need (of_char l) = Suc (length ks))"
proof -
  have c: "cont (char_of (128 + m))" if "m < 64" for m :: nat using that by (simp add: cont_def of_char_small)
  have m64: "x mod 64 < (64::nat)" for x by simp
  consider "n < 0x80" | "0x80 \<le> n" "n < 0x800" | "0x800 \<le> n" "n < 0x10000" | "0x10000 \<le> n" by linarith
  then show ?thesis
  proof cases
    case 1
    then show ?thesis by (auto simp: enc_eq of_char_small)
  next
    case 2
    then have "n div 64 < 32" by (simp add: less_mult_imp_div_less)
    moreover from this have "need (192 + n div 64) = 2" by (rule need_lead)
    ultimately show ?thesis using 2 c[OF m64] by (auto simp: enc_eq of_char_small)
  next
    case 3
    then have "n div 4096 < 16" by (simp add: less_mult_imp_div_less)
    moreover from this have "need (224 + n div 4096) = 3" by (rule need_lead)
    ultimately show ?thesis using 3 c[OF m64] by (auto simp: enc_eq of_char_small)
  next
    case 4
    then have "n div 262144 < 8" using assms by (simp add: less_mult_imp_div_less)
    moreover from this have "need (240 + n div 262144) = 4" by (rule need_lead)
    ultimately show ?thesis using 4 assms c[OF m64] by (auto simp: enc_eq of_char_small)
  qed
qed

lemma clip_conts:
  assumes "list_all cont ks" "i + length ks \<le> 4"
  shows "clip_keep sz (rev ks @ cs) i = clip_keep sz cs (i + length ks)"
  using assms
proof (induction ks arbitrary: i cs rule: rev_induct)
  case (snoc k ks)
  have b: "of_char k < (256::nat)" by simp
  have "clip_keep sz (k # rev ks @ cs) i = clip_keep sz (rev ks @ cs) (i + 1)"
    using snoc.prems byte_class[OF b] by (auto simp: cont_def Let_def)
  then show ?case using snoc.IH[of "i + 1" cs] snoc.prems by simp
qed simp

lemma clip_char:
  assumes "of_char l \<ge> (192::nat)" "list_all cont ks" "length ks \<le> 3"
  shows "clip_keep sz (rev (l # ks) @ cs) 0 = (if Suc (length ks) < need (of_char l) then sz - Suc (length ks) else sz)"
proof -
  have b: "of_char l < (256::nat)" by simp
  have "clip_keep sz (rev ks @ l # cs) 0 = clip_keep sz (l # cs) (length ks)"
    using clip_conts[of ks 0 sz "l # cs"] assms by simp
  then show ?thesis using assms byte_class[OF b] by (auto simp: Let_def)
qed

text \<open>
  Chunks end at character boundaries: when the text so far is a sequence of complete UTF-8
  characters followed by an incomplete one (or none), \<open>utf8_clip\<close> emits exactly the complete characters
  and keeps the incomplete bytes for the next piece.
\<close>

theorem utf8_clip_boundary:
  assumes "pend @ piece = encode_cps ns @ q" "\<forall>n \<in> set ns. n < 0x200000" "n < 0x200000" "strict_prefix q (utf8_append [] n)"
  shows "utf8_clip pend piece = (encode_cps ns, q)"
proof -
  let ?s = "encode_cps ns @ q"
  have "clip_keep (length ?s) (rev ?s) 0 = length (encode_cps ns)"
  proof (cases q)
    case Nil
    show ?thesis
    proof (cases ns rule: rev_cases)
      case (snoc ms k)
      obtain l ks where l: "utf8_append [] k = l # ks" "list_all cont ks" "length ks \<le> 3"
        "of_char l < (128::nat) \<and> ks = [] \<or> of_char l \<ge> (192::nat) \<and> need (of_char l) = Suc (length ks)"
        using enc_shape[of k] assms(2) snoc by auto
      have b: "of_char l < (256::nat)" by simp
      show ?thesis
        using l clip_char[of l ks "length ?s" "rev (encode_cps ms)"] byte_class[OF b]
        by (auto simp: snoc Nil Let_def)
    qed (simp add: Nil)
  next
    case (Cons c q')
    obtain l ks where l: "utf8_append [] n = l # ks" "list_all cont ks" "length ks \<le> 3"
      "of_char l < (128::nat) \<and> ks = [] \<or> of_char l \<ge> (192::nat) \<and> need (of_char l) = Suc (length ks)"
      using enc_shape[OF assms(3)] by blast
    then have c: "c = l" "strict_prefix q' ks" using assms(4) Cons by auto
    then obtain zs where k: "ks = q' @ zs" "zs \<noteq> []" by (auto simp: strict_prefix_def prefix_def)
    then have "of_char l \<ge> (192::nat)" "need (of_char l) = Suc (length ks)" using l(4) by auto
    moreover have "list_all cont q'" "length q' \<le> 3" "length q' < length ks" using l(2,3) k by auto
    ultimately show ?thesis using clip_char[of l q' "length ?s" "rev (encode_cps ns)"] by (simp add: Cons c(1))
  qed
  then show ?thesis unfolding utf8_clip_def Let_def assms(1) by simp
qed

theorem utf8_clip_boundary_witness:
  "utf8_clip (take 2 (utf8_append [] 0x3042)) (drop 2 (utf8_append [] 0x3042) @ take 1 (utf8_append [] 0x3044)) =
     (encode_cps [0x3042], take 1 (utf8_append [] 0x3044))"
  by (rule utf8_clip_boundary[of _ _ _ _ "0x3044"]) (simp_all add: enc_eq)

end
