(* ===== verification/Chat_Stream.thy ===== *)
theory Chat_Stream
  imports Server_Text
begin

section \<open>The streaming filter of chat completions\<close>

text \<open>
  \<open>emit_piece\<close> and the tail flush of \<open>finish\<close> in \<open>server/main.cpp\<close>: generated text arrives in pieces
  (one token each) and leaves as reasoning and content deltas, cut at \<open></think>\<close> and at the opening
  marker of a tool call. The socket write and the JSON envelope are left out; a chunk is the flag for
  \<open>role\<close>, its field and its text.
\<close>

datatype Phase = Reason | Content | Tool

record sstate =
  ss_text :: string
  ss_hold :: string
  ss_phase :: Phase
  ss_skip_lead :: bool
  ss_await_think :: bool
  ss_skip_lead_r :: bool
  ss_role_sent :: bool
  ss_pend_r :: string
  ss_utf8_pend :: string

type_synonym chunk = "bool \<times> string \<times> string"

definition think_end :: string where "think_end = ''</think>''"

text \<open>
  The decision whether a reply opens \<open><think>\<close> itself: \<open>None\<close> while it is open, otherwise whether it
  does and the text that is left.
\<close>

definition await :: "string \<Rightarrow> (bool \<times> string) option" where
  "await hold =
     (case find_first_not_of hold [CHR '' '', CHR 0x0A] of
        None \<Rightarrow> None
      | Some k \<Rightarrow>
          let hd_text = drop k hold in
          if length hd_text < 7 \<and> take (length hd_text) ''<think>'' = hd_text then None
          else if take 7 hd_text = ''<think>'' then Some (True, drop 7 hd_text)
          else Some (False, hold))"

text \<open>The \<open>again\<close> loop: phase, held text, \<open>skip_lead\<close>, and the two outputs.\<close>

fun rank :: "Phase \<Rightarrow> nat" where
  "rank Reason = 2" | "rank Content = 1" | "rank Tool = 0"

definition marker_of :: "string \<Rightarrow> Phase \<Rightarrow> string" where
  "marker_of tool_open ph = (if ph = Reason then think_end else tool_open)"

function phase_loop ::
  "string \<Rightarrow> Phase \<Rightarrow> string \<Rightarrow> bool \<Rightarrow> string \<times> string \<Rightarrow> Phase \<times> string \<times> bool \<times> string \<times> string" where
  "phase_loop tool_open ph hold skip outs =
     (if ph = Tool then (ph, hold, skip, outs)
      else let rphase = (ph = Reason); marker = marker_of tool_open ph;
               put = (\<lambda>s. if rphase then (fst outs @ s, snd outs) else (fst outs, snd outs @ s)) in
        case str_find hold marker 0 of
          None \<Rightarrow>
            let hb = marker_holdback hold marker in
            if length hold > hb
            then (ph, drop (length hold - hb) hold, skip, put (take (length hold - hb) hold))
            else (ph, hold, skip, outs)
        | Some p \<Rightarrow>
            phase_loop tool_open (if rphase then Content else Tool) (drop (p + length marker) hold) rphase
              (put (trim_back is_ws (take p hold))))"
  by pat_completeness auto
termination
proof (relation "measure (\<lambda>(t, ph, h, s, os). rank ph)")
  fix tool_open ph hold skip outs rphase marker put p
  assume "ph \<noteq> Tool" "rphase = (ph = Reason)"
  then show "((tool_open, if rphase then Content else Tool, drop (p + length marker) hold, rphase, put (trim_back is_ws (take p hold))),
      tool_open, ph, hold, skip, outs) \<in> measure (\<lambda>(t, ph, h, s, os). rank ph)"
    by (cases ph) auto
qed simp

declare phase_loop.simps [simp del]

text \<open>Newlines at the start of a channel are dropped while its flag is set.\<close>

definition skip_newlines :: "bool \<Rightarrow> string \<Rightarrow> string \<times> bool" where
  "skip_newlines flag out =
     (if flag \<and> out \<noteq> [] then (let o1 = dropWhile (\<lambda>c. c = nl) out in (o1, o1 = [])) else (out, flag))"

definition emit_filtered :: "string \<Rightarrow> sstate \<Rightarrow> chunk list \<times> sstate" where
  "emit_filtered tool_open st =
     (case phase_loop tool_open (ss_phase st) (ss_hold st) (ss_skip_lead st) ([], []) of
        (ph, h, sk, rout, cout) \<Rightarrow>
          case skip_newlines (ss_skip_lead_r st) rout of (rout1, skr) \<Rightarrow>
          case skip_newlines sk cout of (cout1, sk1) \<Rightarrow>
          case utf8_clip (ss_pend_r st) rout1 of (rout2, pr) \<Rightarrow>
          case utf8_clip (ss_utf8_pend st) cout1 of (cout2, pc) \<Rightarrow>
          let chunks = (if rout2 \<noteq> [] then [(\<not> ss_role_sent st, ''reasoning_content'', rout2)] else []);
              role1 = (ss_role_sent st \<or> rout2 \<noteq> []);
              chunks2 = (if cout2 \<noteq> [] then [(\<not> role1, ''content'', cout2)] else [])
          in (chunks @ chunks2,
              st\<lparr>ss_hold := h, ss_phase := ph, ss_skip_lead := sk1, ss_skip_lead_r := skr, ss_pend_r := pr,
                 ss_utf8_pend := pc, ss_role_sent := (role1 \<or> cout2 \<noteq> [])\<rparr>))"

definition emit_piece :: "string \<Rightarrow> string \<Rightarrow> sstate \<Rightarrow> chunk list \<times> sstate" where
  "emit_piece tool_open piece st =
     (let st1 = st\<lparr>ss_text := ss_text st @ piece, ss_hold := ss_hold st @ piece\<rparr> in
      if \<not> ss_await_think st1 then emit_filtered tool_open st1
      else case await (ss_hold st1) of
        None \<Rightarrow> ([], st1)
      | Some (True, h) \<Rightarrow>
          emit_filtered tool_open (st1\<lparr>ss_await_think := False, ss_hold := h, ss_phase := Reason, ss_skip_lead_r := True\<rparr>)
      | Some (False, h) \<Rightarrow> emit_filtered tool_open (st1\<lparr>ss_await_think := False\<rparr>))"

fun stream :: "string \<Rightarrow> string list \<Rightarrow> sstate \<Rightarrow> chunk list \<times> sstate" where
  "stream tool_open [] st = ([], st)"
| "stream tool_open (p # ps) st =
     (case emit_piece tool_open p st of (cs, st1) \<Rightarrow> case stream tool_open ps st1 of (ds, st2) \<Rightarrow> (cs @ ds, st2))"

text \<open>The text that \<open>finish\<close> flushes when no tool call was parsed.\<close>

definition flush_tail :: "string \<Rightarrow> sstate \<Rightarrow> string" where
  "flush_tail tool_open st =
     (if ss_hold st = [] then []
      else trim_back (\<lambda>c. c = nl \<or> c = CHR '' '')
             ((if ss_phase st = Reason then ss_pend_r st else ss_utf8_pend st) @
              (if ss_phase st = Tool then tool_open else []) @ ss_hold st))"

subsection \<open>Markers across pieces\<close>

lemma find_in_shift:
  assumes "\<forall>j < length u. \<not> prefix m (drop j (u @ x))"
  shows "find_in m (u @ x) k = find_in m x (k + length u)"
  using assms
proof (induction u arbitrary: k)
  case (Cons c u)
  have n: "\<not> prefix m (c # u @ x)" using Cons.prems by force
  have "\<forall>j < length u. \<not> prefix m (drop j (u @ x))" using Cons.prems by (metis Suc_less_eq append_Cons drop_Suc_Cons length_Cons)
  then show ?case using Cons.IH[of "k + 1"] n by simp
qed simp

lemma find_in_add: "find_in m x (k + n) = map_option (\<lambda>j. j + n) (find_in m x k)"
  by (induction m x k rule: find_in.induct) auto

lemma str_find_shift:
  assumes "\<forall>j < length u. \<not> prefix m (drop j (u @ x))"
  shows "str_find (u @ x) m 0 = map_option (\<lambda>j. j + length u) (str_find x m 0)"
  using find_in_shift[OF assms, of 0] find_in_add[of m x 0 "length u"] by (simp add: str_find_def)

lemma trim_back_keep: "u = [] \<or> \<not> P (last u) \<Longrightarrow> trim_back P (u @ x) = u @ trim_back P x"
proof -
  assume u: "u = [] \<or> \<not> P (last u)"
  have "dropWhile P (rev x @ rev u) = dropWhile P (rev x) @ rev u"
  proof (cases "\<forall>c \<in> set x. P c")
    case True
    then have "dropWhile P (rev x @ rev u) = dropWhile P (rev u)" "dropWhile P (rev x) = []"
      by (simp_all add: dropWhile_append dropWhile_eq_Nil_conv)
    then show ?thesis using u by (cases u rule: rev_cases) auto
  qed (auto simp: dropWhile_append)
  then show ?thesis by (simp add: trim_back_def)
qed

lemma trim_back_last: "trim_back P s = [] \<or> \<not> P (last (trim_back P s))"
  using hd_dropWhile[of P "rev s"] by (auto simp: trim_back_def last_rev)

text \<open>The emitted part of a text without the marker, and the suffix that is held back.\<close>

definition kept :: "string \<Rightarrow> string \<Rightarrow> string" where
  "kept m t = take (length t - marker_holdback t m) t"

definition held :: "string \<Rightarrow> string \<Rightarrow> string" where
  "held m t = drop (length t - marker_holdback t m) t"

lemma kept_held: "t = kept m t @ held m t"
  by (simp add: kept_def held_def)

lemma take_sub: "take n t = a @ w \<Longrightarrow> take (length a) t = a"
  by (metis append_take_drop_id append.assoc append_eq_conv_conj)

lemma kept_trim:
  "kept m t = trim_back is_ws (take (length t - longest_overlap t m (min (length t) (length m - 1))) t)"
proof -
  let ?u = "take (length t - longest_overlap t m (min (length t) (length m - 1))) t"
  obtain w where w: "?u = trim_back is_ws ?u @ w" using trim_back_rest by blast
  then have l: "length (trim_back is_ws ?u) \<le> length t" by (metis append_take_drop_id length_append le_add1 trans_le_add1)
  then have "length t - marker_holdback t m = length (trim_back is_ws ?u)" by (simp add: marker_holdback_def Let_def)
  moreover have "take (length (trim_back is_ws ?u)) t = trim_back is_ws ?u"
    using take_sub[OF w] .
  ultimately show ?thesis by (simp add: kept_def)
qed

lemma kept_last: "kept m t = [] \<or> \<not> is_ws (last (kept m t))"
  unfolding kept_trim by (rule trim_back_last)

lemma kept_no_marker:
  assumes "str_find t m 0 = None" "m \<noteq> []"
  shows "\<forall>j < length (kept m t). \<not> prefix m (drop j (kept m t @ held m t @ p))"
proof (intro allI impI notI)
  fix j assume j: "j < length (kept m t)" and pre: "prefix m (drop j (kept m t @ held m t @ p))"
  have e: "kept m t @ held m t @ p = t @ p" using kept_held[of t m] by (metis append.assoc)
  have jt: "j < length t" using j by (simp add: kept_def)
  show False
  proof (cases "length t < j + length m")
    case True
    then have "length t - marker_holdback t m \<le> j" using holdback_covers[of m j t p] pre jt e by simp
    then show False using j by (simp add: kept_def)
  next
    case False
    then have "prefix m (drop j t)" using pre jt unfolding e by (auto simp: prefix_def append_eq_append_conv2)
    then show False using str_find_None[OF assms(1), of j] jt by simp
  qed
qed

text \<open>Holding back depends only on the held text and the new piece.\<close>

lemma overlap_held:
  assumes "0 < k" "k \<le> length m - 1" "drop (length (t @ p) - k) (t @ p) = take k m"
  shows "k \<le> length (held m t @ p)"
proof (rule ccontr)
  assume "\<not> k \<le> length (held m t @ p)"
  then have big: "length (held m t) + length p < k" by simp
  then have kl: "k - length p \<le> length t" using assms(1,2) arg_cong[OF assms(3), of length] by (simp add: min_def split: if_splits)
  have "drop (length (t @ p) - k) (t @ p) = drop (length t - (k - length p)) t @ p"
    using big by (simp add: diff_le_mono2)
  then have "drop (length t - (k - length p)) t = take (k - length p) (take k m)"
    using assms(3) kl by (metis append_eq_conv_conj diff_diff_cancel length_drop)
  then have "drop (length t - (k - length p)) t = take (k - length p) m" by simp
  then have "k - length p \<le> longest_overlap t m (min (length t) (length m - 1))"
    using big kl assms(2) by (intro longest_overlap_ge) auto
  then have "k - length p \<le> marker_holdback t m" using holdback_ge le_trans by blast
  moreover have "length (held m t) = marker_holdback t m" using holdback_le[of t m] by (simp add: held_def)
  ultimately show False using big by simp
qed

lemma longest_overlap_suffix:
  assumes "\<And>k. 0 < k \<Longrightarrow> k \<le> n \<Longrightarrow> drop (length (u @ x) - k) (u @ x) = take k m \<Longrightarrow> k \<le> length x"
  shows "longest_overlap (u @ x) m n = longest_overlap x m (min (length x) n)"
  using assms
proof (induction n)
  case (Suc n)
  have IH: "longest_overlap (u @ x) m n = longest_overlap x m (min (length x) n)"
    by (rule Suc.IH) (use Suc.prems in auto)
  show ?case
  proof (cases "Suc n \<le> length x")
    case True
    then have "drop (length (u @ x) - Suc n) (u @ x) = drop (length x - Suc n) x" by simp
    moreover have "min (length x) (Suc n) = Suc n" "min (length x) n = n" using True by simp_all
    ultimately show ?thesis using IH by (simp only: longest_overlap.simps)
  next
    case False
    then have "drop (length (u @ x) - Suc n) (u @ x) \<noteq> take (Suc n) m" using Suc.prems[of "Suc n"] by auto
    then show ?thesis using False IH by (simp add: min_def)
  qed
qed simp

lemma holdback_shift:
  assumes "m \<noteq> []"
  shows "marker_holdback (t @ p) m = marker_holdback (held m t @ p) m"
proof -
  let ?u = "kept m t" and ?x = "held m t @ p"
  have e: "t @ p = ?u @ ?x" using kept_held[of t m] by (metis append.assoc)
  let ?n = "min (length (?u @ ?x)) (length m - 1)"
  have "longest_overlap (?u @ ?x) m ?n = longest_overlap ?x m (min (length ?x) ?n)"
    using overlap_held[of _ m t p] unfolding e by (intro longest_overlap_suffix) auto
  moreover have "min (length ?x) ?n = min (length ?x) (length m - 1)" by auto
  ultimately have k: "longest_overlap (?u @ ?x) m ?n = longest_overlap ?x m (min (length ?x) (length m - 1))" by simp
  let ?k = "longest_overlap ?x m (min (length ?x) (length m - 1))"
  have kx: "?k \<le> length ?x" using longest_overlap_le[of ?x m "min (length ?x) (length m - 1)"] by simp
  have "take (length (?u @ ?x) - ?k) (?u @ ?x) = ?u @ take (length ?x - ?k) ?x" using kx by simp
  then have "trim_back is_ws (take (length (?u @ ?x) - ?k) (?u @ ?x)) = ?u @ trim_back is_ws (take (length ?x - ?k) ?x)"
    using trim_back_keep[of ?u is_ws, OF kept_last] by metis
  then have "length (?u @ ?x) - length (trim_back is_ws (take (length (?u @ ?x) - ?k) (?u @ ?x))) =
      length ?x - length (trim_back is_ws (take (length ?x - ?k) ?x))" by simp
  then show ?thesis unfolding e marker_holdback_def Let_def k .
qed

subsection \<open>The loop on a text in two parts\<close>

definition put_out :: "Phase \<Rightarrow> string \<times> string \<Rightarrow> string \<Rightarrow> string \<times> string" where
  "put_out ph outs s = (if ph = Reason then (fst outs @ s, snd outs) else (fst outs, snd outs @ s))"

definition next_phase :: "Phase \<Rightarrow> Phase" where
  "next_phase ph = (if ph = Reason then Content else Tool)"

lemma put_put: "put_out ph (put_out ph outs s) t = put_out ph outs (s @ t)"
  by (simp add: put_out_def)

lemma phase_loop_Tool: "phase_loop to Tool h sk os = (Tool, h, sk, os)"
  by (subst phase_loop.simps) simp

lemma phase_loop_None:
  "ph \<noteq> Tool \<Longrightarrow> str_find h (marker_of to ph) 0 = None \<Longrightarrow>
    phase_loop to ph h sk os = (ph, held (marker_of to ph) h, sk, put_out ph os (kept (marker_of to ph) h))"
  using holdback_le[of h "marker_of to ph"]
  by (subst phase_loop.simps) (auto simp: Let_def put_out_def held_def kept_def)

lemma phase_loop_Some:
  "ph \<noteq> Tool \<Longrightarrow> str_find h (marker_of to ph) 0 = Some p \<Longrightarrow>
    phase_loop to ph h sk os =
      phase_loop to (next_phase ph) (drop (p + length (marker_of to ph)) h) (ph = Reason) (put_out ph os (trim_back is_ws (take p h)))"
  by (subst phase_loop.simps) (simp add: Let_def put_out_def next_phase_def cong: if_cong)

lemma str_find_ext:
  assumes "str_find t m 0 = Some k" "m \<noteq> []"
  shows "str_find (t @ p) m 0 = Some k"
proof -
  note f = str_find_Some[OF assms(1)]
  have kl: "k < length t" using f(2) assms(2) by (cases m) auto
  have e: "prefix m (drop k (t @ p))" using f(3) kl by (auto simp: prefix_def)
  then obtain j where j: "str_find (t @ p) m 0 = Some j" "j \<le> k" using str_find_at[of 0 k "t @ p" m] kl by auto
  have "prefix m (drop j t)"
  proof -
    have "prefix m (drop j t @ p)" using str_find_Some(3)[OF j(1)] j(2) kl by simp
    moreover have "length m \<le> length (drop j t)" using f(2) j(2) by simp
    ultimately show ?thesis by (metis prefix_append prefix_length_prefix prefixI)
  qed
  then have "\<not> j < k" using f(4)[of j] by auto
  then show ?thesis using j by simp
qed

lemma phase_loop_held:
  assumes "ph \<noteq> Tool" "marker_of to ph \<noteq> []" "str_find t (marker_of to ph) 0 = None"
  shows "phase_loop to ph (t @ p) sk os = phase_loop to ph (held (marker_of to ph) t @ p) sk (put_out ph os (kept (marker_of to ph) t))"
proof -
  let ?m = "marker_of to ph"
  let ?u = "kept ?m t" and ?x = "held ?m t @ p"
  have e: "t @ p = ?u @ ?x" using kept_held[of t ?m] by (metis append.assoc)
  have f: "str_find (t @ p) ?m 0 = map_option (\<lambda>j. j + length ?u) (str_find ?x ?m 0)"
    unfolding e by (rule str_find_shift[OF kept_no_marker[OF assms(3,2)]])
  show ?thesis
  proof (cases "str_find ?x ?m 0")
    case None
    define n where "n = marker_holdback ?x ?m"
    have h: "marker_holdback (t @ p) ?m = n" unfolding n_def by (rule holdback_shift[OF assms(2)])
    have n: "n \<le> length ?x" unfolding n_def by (rule holdback_le)
    have "held ?m (t @ p) = drop (length (?u @ ?x) - n) (?u @ ?x)" "kept ?m (t @ p) = take (length (?u @ ?x) - n) (?u @ ?x)"
      unfolding e[symmetric] by (simp_all only: held_def[of ?m "t @ p"] kept_def[of ?m "t @ p"] h)
    moreover have "drop (length (?u @ ?x) - n) (?u @ ?x) = held ?m ?x" "take (length (?u @ ?x) - n) (?u @ ?x) = ?u @ kept ?m ?x"
      using n by (simp_all add: held_def[of ?m ?x] kept_def[of ?m ?x] n_def[symmetric])
    ultimately have "held ?m (t @ p) = held ?m ?x" "kept ?m (t @ p) = ?u @ kept ?m ?x" by simp_all
    then show ?thesis using None f assms(1) by (simp add: phase_loop_None put_put)
  next
    case (Some j)
    have j: "j \<le> length ?x" using str_find_Some(2)[OF Some] by simp
    have "trim_back is_ws (take (j + length ?u) (t @ p)) = ?u @ trim_back is_ws (take j ?x)"
      unfolding e using trim_back_keep[of ?u is_ws, OF kept_last] by simp
    moreover have "drop (j + length ?u + length ?m) (t @ p) = drop (j + length ?m) ?x"
      unfolding e by (simp add: add.commute add.left_commute)
    ultimately show ?thesis using Some f assms(1) by (simp add: phase_loop_Some put_put)
  qed
qed

lemma phase_loop_append:
  assumes "to \<noteq> []"
  shows "phase_loop to ph (t @ p) sk os =
    (case phase_loop to ph t sk os of (ph', h, sk', os') \<Rightarrow> phase_loop to ph' (h @ p) sk' os')"
proof (induction "rank ph" arbitrary: ph t sk os rule: less_induct)
  case less
  have m: "marker_of to ph \<noteq> []" using assms by (simp add: marker_of_def think_end_def)
  show ?case
  proof (cases "ph = Tool")
    case False
    then have r: "rank (next_phase ph) < rank ph" by (cases ph) (auto simp: next_phase_def)
    show ?thesis
    proof (cases "str_find t (marker_of to ph) 0")
      case None
      then show ?thesis using phase_loop_held[OF False m None] phase_loop_None[OF False None] by simp
    next
      case (Some k)
      have kl: "k + length (marker_of to ph) \<le> length t" using str_find_Some(2)[OF Some] by simp
      have "phase_loop to ph (t @ p) sk os = phase_loop to (next_phase ph) (drop (k + length (marker_of to ph)) t @ p) (ph = Reason)
          (put_out ph os (trim_back is_ws (take k t)))"
        using phase_loop_Some[OF False str_find_ext[OF Some m]] kl by simp
      then show ?thesis using less[OF r] phase_loop_Some[OF False Some] by simp
    qed
  qed (simp add: phase_loop_Tool)
qed

subsection \<open>One piece after another\<close>

lemma phase_loop_acc:
  "phase_loop to ph h sk (a, b) = (case phase_loop to ph h sk ([], []) of (ph', h', sk', r, c) \<Rightarrow> (ph', h', sk', a @ r, b @ c))"
proof (induction "rank ph" arbitrary: ph h sk a b rule: less_induct)
  case less
  show ?case
  proof (cases "ph = Tool")
    case False
    then have r: "rank (next_phase ph) < rank ph" by (cases ph) (auto simp: next_phase_def)
    show ?thesis
    proof (cases "str_find h (marker_of to ph) 0")
      case None
      then show ?thesis using phase_loop_None[OF False None] by (simp add: put_out_def)
    next
      case (Some k)
      let ?h = "drop (k + length (marker_of to ph)) h" and ?s = "trim_back is_ws (take k h)"
      obtain x y where xy: "put_out ph ([], []) ?s = (x, y)" by force
      then have "put_out ph (a, b) ?s = (a @ x, b @ y)" by (auto simp: put_out_def split: if_splits)
      then show ?thesis
        using phase_loop_Some[OF False Some] less[OF r, of ?h "ph = Reason" x y] less[OF r, of ?h "ph = Reason" "a @ x" "b @ y"] xy
        by (auto split: prod.splits)
    qed
  qed (simp add: phase_loop_Tool)
qed

text \<open>The flag \<open>skip_lead\<close> only passes through, and is set exactly by the step from reasoning to content.\<close>

lemma phase_loop_skip:
  assumes "phase_loop to ph h sk os = (ph', h', sk', os')"
  shows "rank ph' \<le> rank ph" "sk' \<Longrightarrow> ph' = ph \<and> sk \<or> ph = Reason" "ph' = Reason \<Longrightarrow> snd os' = snd os"
    "phase_loop to ph h sk2 os = (ph', h', if ph' = ph then sk2 else sk', os')"
proof -
  have "rank ph' \<le> rank ph \<and> (sk' \<longrightarrow> ph' = ph \<and> sk \<or> ph = Reason) \<and> (ph' = Reason \<longrightarrow> snd os' = snd os) \<and>
      phase_loop to ph h sk2 os = (ph', h', if ph' = ph then sk2 else sk', os')"
    using assms
  proof (induction "rank ph" arbitrary: ph h sk os sk2 rule: less_induct)
    case less
    show ?case
    proof (cases "ph = Tool")
      case False
      then have r: "rank (next_phase ph) < rank ph" by (cases ph) (auto simp: next_phase_def)
      show ?thesis
      proof (cases "str_find h (marker_of to ph) 0")
        case None
        then show ?thesis using less.prems phase_loop_None[OF False None] by (auto simp: put_out_def)
      next
        case (Some k)
        have "phase_loop to (next_phase ph) (drop (k + length (marker_of to ph)) h) (ph = Reason)
            (put_out ph os (trim_back is_ws (take k h))) = (ph', h', sk', os')"
          using less.prems phase_loop_Some[OF False Some] by simp
        note IH = less.hyps[OF r this, of "ph = Reason"]
        have n: "ph' \<noteq> ph" using IH r by auto
        have "phase_loop to ph h sk2 os = (ph', h', sk', os')" using less.prems phase_loop_Some[OF False Some] by simp
        moreover have "next_phase ph \<noteq> Reason" by (simp add: next_phase_def)
        moreover from this have "ph' \<noteq> Reason" using IH by (cases "next_phase ph") auto
        ultimately show ?thesis using IH r n by auto
      qed
    qed (use less.prems in \<open>simp add: phase_loop_Tool\<close>)
  qed
  then show "rank ph' \<le> rank ph" "sk' \<Longrightarrow> ph' = ph \<and> sk \<or> ph = Reason" "ph' = Reason \<Longrightarrow> snd os' = snd os"
    "phase_loop to ph h sk2 os = (ph', h', if ph' = ph then sk2 else sk', os')" by blast+
qed

definition opens :: "string \<Rightarrow> bool option" where
  "opens d = (if length d < 7 \<and> prefix d ''<think>'' then None else Some (prefix ''<think>'' d))"

lemma opens_ext: "opens d = Some b \<Longrightarrow> opens (d @ p) = Some b"
proof (cases b)
  case True
  assume "opens d = Some b"
  then have "prefix ''<think>'' d" using True by (auto simp: opens_def split: if_splits)
  then have "prefix ''<think>'' (d @ p)" "\<not> length (d @ p) < 7" by (auto simp: prefix_def)
  then show ?thesis using True by (simp add: opens_def)
next
  case False
  assume "opens d = Some b"
  then have n: "\<not> prefix ''<think>'' d" "\<not> (length d < 7 \<and> prefix d ''<think>'')" using False by (auto simp: opens_def split: if_splits)
  have "\<not> prefix d ''<think>''"
  proof
    assume d: "prefix d ''<think>''"
    then have "length d = length ''<think>''" using n(2) prefix_length_le[OF d] by simp
    then have "d = ''<think>''" using d by (metis prefix_def append_eq_conv_conj take_all_iff order_refl)
    then show False using n(1) by simp
  qed
  then have "\<not> prefix ''<think>'' (d @ p)" "\<not> prefix (d @ p) ''<think>''"
    using n(1) by (metis prefix_same_cases prefix_append prefixI prefix_order.refl, metis append_prefixD)
  then show ?thesis using False by (simp add: opens_def)
qed

lemma opens_len: "opens d = Some b \<Longrightarrow> b \<Longrightarrow> 7 \<le> length d"
  by (auto simp: opens_def prefix_def split: if_splits)

lemma special7: "take (length m) d = m \<longleftrightarrow> prefix m d"
  unfolding prefix_def by (metis append_eq_conv_conj append_take_drop_id)

lemma await_opens:
  "await t = (let k = length (takeWhile (\<lambda>c. c \<in> set [CHR '' '', CHR 0x0A]) t) in
     if k < length t then map_option (\<lambda>b. (b, if b then drop 7 (drop k t) else t)) (opens (drop k t)) else None)"
proof -
  have 1: "take (length d) ''<think>'' = d \<longleftrightarrow> prefix d ''<think>''" for d
    unfolding prefix_def by (metis append_eq_conv_conj append_take_drop_id)
  have 2: "take 7 d = ''<think>'' \<longleftrightarrow> prefix ''<think>'' d" for d
    using special7[of "''<think>''" d] by (simp add: eval_nat_numeral)
  show ?thesis unfolding await_def find_first_not_of_def Let_def 1 2 opens_def by auto
qed

lemma await_ext: "await t = Some (b, h) \<Longrightarrow> await (t @ p) = Some (b, h @ p)"
proof -
  assume a: "await t = Some (b, h)"
  let ?P = "\<lambda>c. c \<in> set [CHR '' '', CHR 0x0A]"
  let ?k = "length (takeWhile ?P t)"
  have k: "?k < length t" "opens (drop ?k t) = Some b" "h = (if b then drop 7 (drop ?k t) else t)"
    using a by (auto simp: await_opens Let_def split: if_splits)
  have ex: "\<exists>c \<in> set t. \<not> ?P c" using k(1) by (metis takeWhile_eq_all_conv less_irrefl)
  then have tw: "takeWhile ?P (t @ p) = takeWhile ?P t" by (metis takeWhile_append1)
  have d: "drop ?k (t @ p) = drop ?k t @ p" using k(1) by simp
  have l: "b \<Longrightarrow> 7 \<le> length (drop ?k t)" using k(2) opens_len by blast
  show ?thesis using k l opens_ext[OF k(2), of p] unfolding await_opens Let_def tw d by (auto simp: d)
qed

subsection \<open>The whole text at once\<close>

text \<open>What the filter makes of a text given in one piece, before newlines are dropped and bytes held back.\<close>

definition raw :: "string \<Rightarrow> Phase \<Rightarrow> bool \<Rightarrow> string \<Rightarrow> bool \<times> Phase \<times> string \<times> bool \<times> string \<times> string" where
  "raw to ph aw t =
     (if aw then
        (case await t of
           None \<Rightarrow> (True, ph, t, False, [], [])
         | Some (opened, h) \<Rightarrow> (False, phase_loop to (if opened then Reason else ph) h False ([], [])))
      else (False, phase_loop to ph t False ([], [])))"

definition chan :: "string \<Rightarrow> chunk list \<Rightarrow> string" where
  "chan f cs = concat (map (\<lambda>(r, g, s). if g = f then s else []) cs)"

abbreviation drop_nl :: "string \<Rightarrow> string" where
  "drop_nl \<equiv> dropWhile (\<lambda>c. c = nl)"

text \<open>Everything handed to a channel: the chunks sent and the bytes waiting for their character.\<close>

definition rtot :: "chunk list \<Rightarrow> sstate \<Rightarrow> string" where "rtot cs st = chan ''reasoning_content'' cs @ ss_pend_r st"
definition ctot :: "chunk list \<Rightarrow> sstate \<Rightarrow> string" where "ctot cs st = chan ''content'' cs @ ss_utf8_pend st"

definition sinv :: "string \<Rightarrow> Phase \<Rightarrow> bool \<Rightarrow> string \<Rightarrow> chunk list \<Rightarrow> sstate \<Rightarrow> bool" where
  "sinv to ph aw t cs st \<longleftrightarrow>
     (case raw to ph aw t of (aw', ph', h, sk, r, c) \<Rightarrow>
        ss_await_think st = aw' \<and> ss_phase st = ph' \<and> ss_hold st = h \<and> ss_text st = t \<and>
        drop_nl (rtot cs st) = drop_nl r \<and> drop_nl (ctot cs st) = drop_nl c \<and>
        (ss_skip_lead st \<or> ph' = Reason \<longrightarrow> ctot cs st = []) \<and> (ss_skip_lead_r st \<longrightarrow> rtot cs st = []) \<and>
        (aw' \<longrightarrow> rtot cs st = [] \<and> ctot cs st = []))"

lemma dropWhile_app: "dropWhile P (a @ x) = (if dropWhile P a = [] then dropWhile P x else dropWhile P a @ x)"
  by (induction a) auto

lemma drop_nl_append: "drop_nl a = drop_nl b \<Longrightarrow> drop_nl (a @ x) = drop_nl (b @ x)"
  by (simp only: dropWhile_app)

lemma skip_step:
  assumes "drop_nl tot = drop_nl r" "flag \<longrightarrow> tot = []" "skip_newlines flag x = (x1, flag1)"
  shows "drop_nl (tot @ x1) = drop_nl (r @ x) \<and> (flag1 \<longrightarrow> tot @ x1 = [])"
proof (cases "flag \<and> x \<noteq> []")
  case True
  then have "x1 = drop_nl x" "flag1 = (x1 = [])" "tot = []" using assms by (auto simp: skip_newlines_def Let_def)
  moreover have "drop_nl (drop_nl x) = drop_nl x" by (induction x) auto
  ultimately show ?thesis using drop_nl_append[OF assms(1), of x] by (metis append_Nil)
next
  case False
  then have "x1 = x" "flag1 = flag" using assms(3) by (auto simp: skip_newlines_def split: if_splits)
  then show ?thesis using False drop_nl_append[OF assms(1), of x] assms(2) by auto
qed

lemma clip_append: "utf8_clip p x = (y, q) \<Longrightarrow> y @ q = p @ x"
  unfolding utf8_clip_def Let_def by (metis append_take_drop_id fst_conv snd_conv)

lemma chan_append: "chan f (cs @ ds) = chan f cs @ chan f ds"
  by (simp add: chan_def)

text \<open>The part of \<open>emit_piece\<close> after the decision on \<open><think>\<close>.\<close>

lemma emit_step:
  assumes to: "to \<noteq> []"
    and st: "drop_nl (rtot cs st) = drop_nl r" "drop_nl (ctot cs st) = drop_nl c"
      "ss_skip_lead st \<or> ss_phase st = Reason \<longrightarrow> ctot cs st = []" "ss_skip_lead_r st \<longrightarrow> rtot cs st = []" "\<not> ss_await_think st"
    and e: "emit_piece to p st = (ds, st')"
    and l: "phase_loop to (ss_phase st) (ss_hold st @ p) sk ([], []) = (ph, h, sk', x, y)"
  shows "ss_phase st' = ph \<and> ss_hold st' = h \<and> ss_text st' = ss_text st @ p \<and> \<not> ss_await_think st' \<and>
    drop_nl (rtot (cs @ ds) st') = drop_nl (r @ x) \<and> drop_nl (ctot (cs @ ds) st') = drop_nl (c @ y) \<and>
    (ss_skip_lead st' \<or> ph = Reason \<longrightarrow> ctot (cs @ ds) st' = []) \<and> (ss_skip_lead_r st' \<longrightarrow> rtot (cs @ ds) st' = [])"
proof -
  let ?sk = "if ph = ss_phase st then ss_skip_lead st else sk'"
  have l2: "phase_loop to (ss_phase st) (ss_hold st @ p) (ss_skip_lead st) ([], []) = (ph, h, ?sk, x, y)"
    using phase_loop_skip(4)[OF l, of "ss_skip_lead st"] by simp
  have sk: "?sk \<longrightarrow> ctot cs st = []" using phase_loop_skip(2)[OF l2] st(3) by auto
  have rk: "rank ph \<le> rank (ss_phase st)" by (rule phase_loop_skip(1)[OF l])
  have pr: "ph = Reason \<Longrightarrow> y = [] \<and> ss_phase st = Reason" using phase_loop_skip(3)[OF l] rk by (cases "ss_phase st") auto
  obtain x1 skr where x1: "skip_newlines (ss_skip_lead_r st) x = (x1, skr)" by force
  obtain y1 sk1 where y1: "skip_newlines ?sk y = (y1, sk1)" by force
  obtain x2 pr2 where x2: "utf8_clip (ss_pend_r st) x1 = (x2, pr2)" by force
  obtain y2 pc2 where y2: "utf8_clip (ss_utf8_pend st) y1 = (y2, pc2)" by force
  have s': "ss_phase st' = ph" "ss_hold st' = h" "ss_text st' = ss_text st @ p" "\<not> ss_await_think st'" "ss_skip_lead st' = sk1"
    "ss_skip_lead_r st' = skr" "ss_pend_r st' = pr2" "ss_utf8_pend st' = pc2" "chan ''reasoning_content'' ds = x2" "chan ''content'' ds = y2"
    using e st(5) by (auto simp: emit_piece_def emit_filtered_def Let_def l2 x1 y1 x2 y2 chan_def)
  have r': "rtot (cs @ ds) st' = rtot cs st @ x1" and c': "ctot (cs @ ds) st' = ctot cs st @ y1"
    using clip_append[OF x2] clip_append[OF y2] by (simp_all add: rtot_def ctot_def chan_append s')
  have "ph = Reason \<Longrightarrow> y1 = []" using pr y1 by (auto simp: skip_newlines_def)
  then show ?thesis
    using skip_step[OF st(1) st(4) x1] skip_step[OF st(2) sk y1] st(3) pr by (auto simp: s' r' c')
qed

lemma sinv_going:
  assumes to: "to \<noteq> []" and I: "sinv to ph aw t cs st" and e: "emit_piece to p st = (ds, st')" and na: "\<not> ss_await_think st"
  shows "sinv to ph aw (t @ p) (cs @ ds) st'"
proof -
  obtain ph0 h0 where r: "raw to ph aw t = (False, phase_loop to ph0 h0 False ([], []))"
    "raw to ph aw (t @ p) = (False, phase_loop to ph0 (h0 @ p) False ([], []))"
  proof (cases aw)
    case True
    then obtain b h where "await t = Some (b, h)" using I na by (cases "await t") (auto simp: sinv_def raw_def)
    then show ?thesis using that[of "if b then Reason else ph" h] await_ext[of t b h p] True by (simp add: raw_def)
  qed (use that[of ph t] in \<open>simp add: raw_def\<close>)
  obtain ph1 h1 sk1 r1 c1 where l: "phase_loop to ph0 h0 False ([], []) = (ph1, h1, sk1, r1, c1)" by (metis prod_cases5)
  have st: "ss_phase st = ph1" "ss_hold st = h1" "ss_text st = t" "drop_nl (rtot cs st) = drop_nl r1" "drop_nl (ctot cs st) = drop_nl c1"
    "ss_skip_lead st \<or> ss_phase st = Reason \<longrightarrow> ctot cs st = []" "ss_skip_lead_r st \<longrightarrow> rtot cs st = []"
    using I by (auto simp: sinv_def r(1) l)
  obtain ph2 h2 sk2 x y where l2: "phase_loop to (ss_phase st) (ss_hold st @ p) sk1 ([], []) = (ph2, h2, sk2, x, y)"
    by (metis prod_cases5)
  then have "phase_loop to ph0 (h0 @ p) False ([], []) = (ph2, h2, sk2, r1 @ x, c1 @ y)"
    using phase_loop_append[OF to, of ph0 h0 p] phase_loop_acc[of to ph1 "h1 @ p" sk1 r1 c1] st(1,2) by (simp add: l)
  then show ?thesis
    using emit_step[OF to st(4,5,6,7) na e l2] st(3) by (auto simp: sinv_def r(2))
qed

lemma sinv_waiting:
  assumes to: "to \<noteq> []" and I: "sinv to ph aw t cs st" and e: "emit_piece to p st = (ds, st')" and a: "ss_await_think st"
  shows "sinv to ph aw (t @ p) (cs @ ds) st'"
proof -
  have w: "aw" "await t = None" "ss_phase st = ph" "ss_hold st = t" "ss_text st = t" "rtot cs st = []" "ctot cs st = []"
    using I a by (auto simp: sinv_def raw_def split: if_splits option.splits prod.splits)
  show ?thesis
  proof (cases "await (t @ p)")
    case None
    then have "ds = []" "st' = st\<lparr>ss_text := t @ p, ss_hold := t @ p\<rparr>" using e a w by (auto simp: emit_piece_def Let_def)
    then show ?thesis using None w a by (simp add: sinv_def raw_def rtot_def ctot_def)
  next
    case (Some bh)
    obtain b h where b: "await (t @ p) = Some (b, h)" using Some by (cases bh) auto
    define s2 where "s2 = st\<lparr>ss_text := t @ p, ss_hold := h, ss_await_think := False,
        ss_phase := (if b then Reason else ph), ss_skip_lead_r := (b \<or> ss_skip_lead_r st)\<rparr>"
    have hb: "\<not> b \<Longrightarrow> h = t @ p" using b by (auto simp: await_opens Let_def split: if_splits)
    have "emit_piece to p st = emit_piece to [] s2"
      using a w b hb by (cases b; cases st) (simp_all add: emit_piece_def s2_def)
    then have e2: "emit_piece to [] s2 = (ds, st')" using e by simp
    obtain ph2 h2 sk2 x y where l2: "phase_loop to (if b then Reason else ph) h False ([], []) = (ph2, h2, sk2, x, y)"
      by (metis prod_cases5)
    have tot: "rtot cs s2 = []" "ctot cs s2 = []" using w(6,7) by (simp_all add: s2_def rtot_def ctot_def)
    have "phase_loop to (ss_phase s2) (ss_hold s2 @ []) False ([], []) = (ph2, h2, sk2, x, y)" using l2 by (simp add: s2_def)
    note l3 = this
    have s2: "ss_text s2 = t @ p" "\<not> ss_await_think s2" by (simp_all add: s2_def)
    have "ss_phase st' = ph2 \<and> ss_hold st' = h2 \<and> ss_text st' = t @ p \<and> \<not> ss_await_think st' \<and>
      drop_nl (rtot (cs @ ds) st') = drop_nl x \<and> drop_nl (ctot (cs @ ds) st') = drop_nl y \<and>
      (ss_skip_lead st' \<or> ph2 = Reason \<longrightarrow> ctot (cs @ ds) st' = []) \<and> (ss_skip_lead_r st' \<longrightarrow> rtot (cs @ ds) st' = [])"
      using emit_step[OF to, of cs s2 "[]" "[]", OF _ _ _ _ s2(2) e2 l3] tot s2(1) by simp
    then show ?thesis by (simp add: sinv_def raw_def b w(1) l2)
  qed
qed

lemma sinv_stream:
  assumes "to \<noteq> []" "sinv to ph aw t cs st" "stream to ps st = (ds, st')"
  shows "sinv to ph aw (t @ concat ps) (cs @ ds) st'"
  using assms(2,3)
proof (induction ps arbitrary: t cs st ds)
  case (Cons p ps)
  obtain ds1 st1 where e: "emit_piece to p st = (ds1, st1)" by force
  obtain ds2 where s: "stream to ps st1 = (ds2, st')" "ds = ds1 @ ds2" using Cons.prems(2) e by (auto split: prod.splits)
  have "sinv to ph aw (t @ p) (cs @ ds1) st1"
    using sinv_going[OF assms(1) Cons.prems(1) e] sinv_waiting[OF assms(1) Cons.prems(1) e] by blast
  from Cons.IH[OF this s(1)] show ?case using s(2) by simp
qed simp

definition fresh_stream :: "Phase \<Rightarrow> bool \<Rightarrow> sstate" where
  "fresh_stream ph aw = \<lparr>ss_text = [], ss_hold = [], ss_phase = ph, ss_skip_lead = False, ss_await_think = aw,
     ss_skip_lead_r = False, ss_role_sent = False, ss_pend_r = [], ss_utf8_pend = []\<rparr>"

lemma sinv_fresh: "to \<noteq> [] \<Longrightarrow> ph \<noteq> Tool \<Longrightarrow> sinv to ph aw [] [] (fresh_stream ph aw)"
proof -
  assume t: "to \<noteq> []" "ph \<noteq> Tool"
  have m: "str_find [] (marker_of to ph) 0 = None" using t by (auto simp: str_find_def marker_of_def think_end_def)
  have "phase_loop to ph [] False ([], []) = (ph, [], False, [], [])"
    using phase_loop_None[OF t(2) m] by (simp add: put_out_def held_def kept_def)
  moreover have "await [] = None" by (simp add: await_opens)
  ultimately show ?thesis by (simp add: sinv_def raw_def fresh_stream_def rtot_def ctot_def chan_def)
qed

lemma stream_raw:
  assumes "to \<noteq> []" "ph \<noteq> Tool" "stream to ps (fresh_stream ph aw) = (cs, st)"
  shows "sinv to ph aw (concat ps) cs st"
  using sinv_stream[OF assms(1) sinv_fresh[OF assms(1,2)] assms(3)] by simp

text \<open>
  C17. The stream does not depend on how the text is cut into pieces: after any sequence of pieces the
  phase, the held text, and everything handed to the reasoning and to the content channel are those
  of the same text in a single piece, up to newlines at the start of a channel. So a marker that is
  split over tokens is always recognised, and nothing is lost or sent twice.
\<close>

theorem stream_chunking:
  assumes "to \<noteq> []" "ph \<noteq> Tool" "stream to ps (fresh_stream ph aw) = (cs, st)"
    "stream to [concat ps] (fresh_stream ph aw) = (cs1, st1)"
  shows "ss_phase st = ss_phase st1 \<and> ss_hold st = ss_hold st1 \<and> ss_await_think st = ss_await_think st1 \<and>
    drop_nl (rtot cs st) = drop_nl (rtot cs1 st1) \<and> drop_nl (ctot cs st) = drop_nl (ctot cs1 st1)"
proof -
  obtain aw' ph' h sk r c where raw: "raw to ph aw (concat ps) = (aw', ph', h, sk, r, c)" by (metis prod_cases6)
  have one: "concat [concat ps] = concat ps" by simp
  show ?thesis using stream_raw[OF assms(1-3)] stream_raw[OF assms(1,2,4)] unfolding sinv_def one raw by simp
qed

text \<open>Text without the marker stays free of it when its end is held back or trimmed.\<close>

lemma kept_free: "str_find t m 0 = None \<Longrightarrow> m \<noteq> [] \<Longrightarrow> \<not> sublist m (kept m t)"
proof
  assume n: "str_find t m 0 = None" "m \<noteq> []" and "sublist m (kept m t)"
  then obtain a b where "kept m t = a @ m @ b" by (auto simp: sublist_def)
  then have "t = (a @ m @ b) @ held m t" using kept_held[of t m] by simp
  then obtain z where "t = a @ m @ z" by simp
  then have "prefix m (drop (length a) t)" "length a \<le> length t" by auto
  then show False using str_find_None[OF n(1)] by blast
qed

lemma before_free:
  assumes "str_find t m 0 = Some k" "m \<noteq> []"
  shows "\<not> sublist m (trim_back P (take k t))"
proof
  assume "sublist m (trim_back P (take k t))"
  moreover obtain w where "take k t = trim_back P (take k t) @ w" using trim_back_rest by blast
  ultimately obtain a b where ab: "take k t = a @ m @ b @ w" by (metis sublist_def append.assoc)
  have "length (take k t) \<le> k" by simp
  then have "length a < k" using ab assms(2) by (cases m) auto
  moreover have "prefix m (drop (length a) t)"
  proof -
    obtain z where "t = a @ m @ z" using ab append_take_drop_id[of k t] by (metis append.assoc)
    then show ?thesis by auto
  qed
  ultimately show False using str_find_Some(4)[OF assms(1)] by blast
qed

lemma phase_loop_free:
  assumes "to \<noteq> []" "phase_loop to ph h sk ([], []) = (ph', h', sk', r, c)"
  shows "\<not> sublist think_end r \<and> \<not> sublist to c"
proof -
  have t: "think_end \<noteq> []" by (simp add: think_end_def)
  have tool: "phase_loop to Tool h sk os = (Tool, h, sk, os)" for h sk os by (rule phase_loop_Tool)
  have content: "\<not> sublist to c" if "phase_loop to Content h sk (x, []) = (ph', h', sk', r, c)" for h sk x ph' h' sk' r c
  proof (cases "str_find h to 0")
    case None
    then show ?thesis using that phase_loop_None[of Content h to sk] kept_free[OF None assms(1)]
      by (auto simp: marker_of_def put_out_def)
  next
    case (Some k)
    then show ?thesis using that phase_loop_Some[of Content h to k sk] before_free[OF Some assms(1)]
      by (auto simp: marker_of_def put_out_def next_phase_def tool)
  qed
  have nc: "r = x" if "phase_loop to Content h sk (x, y) = (ph', h', sk', r, c)" for h sk x y ph' h' sk' r c
    using that phase_loop_None[of Content h to sk "(x, y)"] phase_loop_Some[of Content h to _ sk "(x, y)"]
    by (cases "str_find h to 0") (auto simp: marker_of_def put_out_def next_phase_def tool)
  show ?thesis
  proof (cases ph)
    case Reason
    show ?thesis
    proof (cases "str_find h think_end 0")
      case None
      then show ?thesis using assms Reason phase_loop_None[of Reason h to sk] kept_free[OF None t]
        by (auto simp: marker_of_def put_out_def)
    next
      case (Some k)
      then have "phase_loop to Content (drop (k + length think_end) h) True (trim_back is_ws (take k h), []) = (ph', h', sk', r, c)"
        using assms(2) Reason phase_loop_Some[of Reason h to k sk] by (simp add: marker_of_def put_out_def next_phase_def)
      then show ?thesis using content nc before_free[OF Some t] by metis
    qed
  next
    case Content
    then show ?thesis using content[of h sk "[]"] nc[of h sk "[]" "[]"] assms t by fastforce
  next
    case Tool
    then show ?thesis using assms tool t by auto
  qed
qed

text \<open>
  C31. Two leaks that pieces could cause do not happen in the filtering of a stream: in every run from the reasoning or
  the content phase, the reasoning channel never contains \<open></think>\<close> and the content channel never contains the marker that
  opens a tool call, even when the marker arrives in several pieces; this holds for what was sent together with the
  bytes still waiting. The marker must not start with a newline. Nothing is said of \<open></think>\<close> in the
  content phase and of the tool-call marker inside reasoning, which are sent as they are, nor of \<open>finish\<close>, which sends a
  tool-call block it cannot parse as content.
\<close>

theorem stream_no_markup:
  assumes "to \<noteq> []" "ph \<noteq> Tool" "stream to ps (fresh_stream ph aw) = (cs, st)" "nl \<noteq> hd to"
  shows "\<not> sublist think_end (rtot cs st) \<and> \<not> sublist to (ctot cs st)"
proof -
  obtain aw' ph' h sk r c where raw: "raw to ph aw (concat ps) = (aw', ph', h, sk, r, c)" by (metis prod_cases6)
  have free: "\<not> sublist think_end r" "\<not> sublist to c"
    using raw assms(1) phase_loop_free[OF assms(1)]
    by (auto simp: raw_def think_end_def split: if_splits option.splits prod.splits)
  have drop: "\<not> sublist m x" if "\<not> sublist m y" "drop_nl x = drop_nl y" "m \<noteq> []" "nl \<noteq> hd m" for m x y
  proof
    assume "sublist m x"
    then obtain a b where x: "x = a @ m @ b" by (auto simp: sublist_def)
    have "drop_nl (m @ b) = m @ b" using that(3,4) by (cases m) auto
    then have "drop_nl x = drop_nl a @ m @ b" unfolding x by (simp add: dropWhile_app)
    then have "sublist m (drop_nl y)" using that(2) by (auto simp: sublist_def)
    moreover have "sublist (drop_nl y) y" using suffix_dropWhile suffix_imp_sublist by blast
    ultimately show False using that(1) sublist_order.order_trans by blast
  qed
  have "drop_nl (rtot cs st) = drop_nl r" "drop_nl (ctot cs st) = drop_nl c"
    using stream_raw[OF assms(1-3)] by (auto simp: sinv_def raw)
  then show ?thesis using drop free assms(1,4) by (auto simp: think_end_def nl_def)
qed

subsection \<open>Instances\<close>

definition demo_reply :: "string list" where
  "demo_reply = [''hm'', ''</th'', ''ink>'', [CHR 0x0A], ''ok <to'', ''ol_call>'', ''<function=f>'']"

definition demo_open :: string where "demo_open = ''<tool_call>''"

lemma demo_run:
  "stream demo_open demo_reply (fresh_stream Reason False) =
     ([(True, ''reasoning_content'', ''hm''), (False, ''content'', ''ok'')], snd (stream demo_open demo_reply (fresh_stream Reason False)))"
  by code_simp

theorem stream_chunking_witness:
  "ss_phase (snd (stream demo_open demo_reply (fresh_stream Reason False))) =
     ss_phase (snd (stream demo_open [concat demo_reply] (fresh_stream Reason False)))"
proof -
  have "demo_open \<noteq> []" "Reason \<noteq> Tool" by (simp_all add: demo_open_def)
  from stream_chunking[OF this surjective_pairing surjective_pairing] show ?thesis by blast
qed

theorem stream_no_markup_witness:
  "\<not> sublist demo_open (ctot (fst (stream demo_open demo_reply (fresh_stream Reason False)))
     (snd (stream demo_open demo_reply (fresh_stream Reason False))))"
proof -
  have "demo_open \<noteq> []" "Reason \<noteq> Tool" "nl \<noteq> hd demo_open" by (simp_all add: demo_open_def nl_def)
  from stream_no_markup[OF this(1,2) surjective_pairing this(3)] show ?thesis by blast
qed

text \<open>
  The newlines at the start of the content are the one thing that does depend on the pieces: when
  the first content and the whole tool marker arrive in one piece, the flag that drops them has been
  cleared again before it is read.
\<close>

theorem stream_newlines_depend:
  "chan ''content'' (fst (stream demo_open [''r</think>'', [CHR 0x0A], ''ok'', ''<tool_call>''] (fresh_stream Reason False))) = ''ok'' \<and>
   chan ''content'' (fst (stream demo_open [''r</think>'', [CHR 0x0A], ''ok<tool_call>''] (fresh_stream Reason False))) = CHR 0x0A # ''ok''"
  by code_simp

end
