(* ===== verification/Ngram_Table.thy ===== *)
theory Ngram_Table
  imports QW_Prelude "HOL-Library.Word" "HOL-Library.Product_Lexorder"
begin

unbundle bit_operations_syntax

section \<open>The n-gram hash embedding table\<close>

text \<open>
  \<open>NgramTable\<close> of \<open>core/ngram_table.cpp\<close>: the host-side hash that names the table rows of a token, with
  the token history it carries from one batch to the next, and the gathering of rows from memory or
  from the model file through a bounded least-recently-used row cache.

  Token ids and row numbers are 32-bit integers in the code and integers here; the hash itself runs on
  64-bit words and wraps as in the code. A row is a list of bytes; the dequantiser (\<open>to_float\<close> of the
  tensor library) is a parameter \<open>deq\<close>. The model file is its list of bytes, and a read past its end
  fails as \<open>fread\<close> does.
\<close>

type_synonym byte = "8 word"

datatype Mode = OFF | DISK | RAM

definition mode_name :: "Mode \<Rightarrow> string" where
  "mode_name m = (case m of OFF \<Rightarrow> ''off'' | DISK \<Rightarrow> ''disk'' | RAM \<Rightarrow> ''ram'')"

definition parse_mode :: "string \<Rightarrow> Mode option" where
  "parse_mode s =
     (if s = ''off'' \<or> s = ''0'' \<or> s = ''none'' then Some OFF
      else if s = ''disk'' \<or> s = ''ssd'' then Some DISK
      else if s = ''ram'' \<or> s = ''mem'' then Some RAM
      else None)"

record ngram_stats =
  st_rows :: nat
  st_hits :: nat
  st_reads :: nat

record ngram_table =
  ng_n_heads :: nat
  ng_head_dim :: nat
  ng_ngram :: nat
  ng_per_gram :: nat
  ng_eos :: int
  ng_mult :: "64 word list"
  ng_offset :: "64 word list"
  ng_vocab :: "64 word list"
  ng_row_bytes :: nat
  ng_n_rows :: nat
  ng_file_off :: nat
  ng_fp :: "byte list"
  ng_ram :: "byte list"
  ng_cache_cap :: nat
  ng_cache_data :: "byte list"
  ng_lru :: "int list"
  ng_cache_index :: "(int \<times> nat) list"
  ng_free_slots :: "nat list"
  ng_mode :: Mode
  ng_stats :: ngram_stats

subsection \<open>Hashing a batch of tokens\<close>

text \<open>The predecessor of token \<open>i\<close> at distance \<open>s\<close>: in the batch, else in the carried history.\<close>

definition prev :: "int \<Rightarrow> int list \<Rightarrow> int list \<Rightarrow> nat \<Rightarrow> nat \<Rightarrow> int" where
  "prev eos prev_hist tokens i s =
     (if s \<le> i then tokens ! (i - s)
      else let k = int (length prev_hist) - int (s - i) in
        if 0 \<le> k \<and> k < int (length prev_hist) then prev_hist ! nat k else eos)"

text \<open>The context entries at the listed distances; an end-of-sequence hides everything behind it.\<close>

fun ctx_loop :: "int \<Rightarrow> (nat \<Rightarrow> int) \<Rightarrow> nat list \<Rightarrow> bool \<Rightarrow> int list" where
  "ctx_loop eos pv [] is_cut = []"
| "ctx_loop eos pv (s # ss) is_cut =
     (let c = (if is_cut then eos else pv s) in c # ctx_loop eos pv ss (is_cut \<or> c = eos))"

definition token_ctx :: "ngram_table \<Rightarrow> int list \<Rightarrow> int list \<Rightarrow> nat \<Rightarrow> int list" where
  "token_ctx t prev_hist tokens i =
     tokens ! i # ctx_loop (ng_eos t) (prev (ng_eos t) prev_hist tokens i) [1..<ng_ngram t] False"

definition mixed :: "ngram_table \<Rightarrow> int list \<Rightarrow> nat \<Rightarrow> 64 word" where
  "mixed t ctx g =
     fold (\<lambda>j m. m XOR (word_of_int (ctx ! j) * ng_mult t ! j)) [1..<g] (word_of_int (ctx ! 0) * ng_mult t ! 0)"

definition head_row :: "ngram_table \<Rightarrow> 64 word \<Rightarrow> nat \<Rightarrow> int" where
  "head_row t m hi = sint (ucast (m mod ng_vocab t ! hi + ng_offset t ! hi) :: 32 word)"

text \<open>The writes \<open>(hi, row)\<close> of one token, in the order of the two inner loops.\<close>

definition token_writes :: "ngram_table \<Rightarrow> int list \<Rightarrow> (nat \<times> int) list" where
  "token_writes t ctx =
     concat (map (\<lambda>g. map (\<lambda>h. ((g - 2) * ng_per_gram t + h, head_row t (mixed t ctx g) ((g - 2) * ng_per_gram t + h)))
                       [0..<ng_per_gram t])
               [2..<ng_ngram t + 1])"

definition hash_rows :: "ngram_table \<Rightarrow> int list \<Rightarrow> int list \<times> int list \<Rightarrow> int list \<times> int list" where
  "hash_rows t tokens = (\<lambda>(hist, out).
     let prev_hist = replicate (ng_ngram t - 1 - length hist) (ng_eos t) @ hist;
         base_out = length out;
         out' = fold (\<lambda>i out. fold (\<lambda>(hi, r) out. out[base_out + i * ng_n_heads t + hi := r])
                          (token_writes t (token_ctx t prev_hist tokens i)) out)
                  [0..<length tokens] (out @ replicate (length tokens * ng_n_heads t) 0);
         all = prev_hist @ tokens
     in (drop (length all - (ng_ngram t - 1)) all, out'))"

text \<open>What the model loader has checked of the geometry (\<open>core/model.cpp\<close>).\<close>

definition ng_geometry :: "ngram_table \<Rightarrow> bool" where
  "ng_geometry t \<longleftrightarrow> 2 \<le> ng_ngram t \<and> ng_n_heads t = (ng_ngram t - 1) * ng_per_gram t \<and>
     length (ng_mult t) = ng_ngram t \<and> length (ng_offset t) = ng_n_heads t \<and> length (ng_vocab t) = ng_n_heads t"

text \<open>
  The reference: over the whole sequence, the context of token \<open>i\<close> at distance \<open>s\<close> is the token there,
  unless the sequence starts later or an end-of-sequence lies in between.
\<close>

definition seq_ctx :: "int \<Rightarrow> int list \<Rightarrow> nat \<Rightarrow> nat \<Rightarrow> int" where
  "seq_ctx eos seq i s = (if s \<le> i \<and> eos \<notin> set (drop (i - s) (take i seq)) then seq ! (i - s) else eos)"

definition seq_rows :: "ngram_table \<Rightarrow> int list \<Rightarrow> nat \<Rightarrow> int list" where
  "seq_rows t seq i = map snd (token_writes t (map (seq_ctx (ng_eos t) seq i) [0..<ng_ngram t]))"

subsection \<open>The batches see the context of the whole sequence\<close>

lemma ctx_loop_eq:
  assumes "is_cut \<longleftrightarrow> (\<exists>r \<in> {1..<a}. pv r = eos)" "1 \<le> a"
  shows "ctx_loop eos pv [a..<n] is_cut = map (\<lambda>s. if \<exists>r \<in> {1..<s}. pv r = eos then eos else pv s) [a..<n]"
  using assms
proof (induction "n - a" arbitrary: a is_cut)
  case (Suc k)
  let ?c = "if is_cut then eos else pv a"
  have a: "a < n" using Suc.hyps(2) by simp
  have "(is_cut \<or> ?c = eos) \<longleftrightarrow> (\<exists>r \<in> {1..<Suc a}. pv r = eos)"
    using Suc.prems by (auto simp: less_Suc_eq)
  from Suc.hyps(1)[OF _ this] Suc.hyps(2) a
  have "ctx_loop eos pv [Suc a..<n] (is_cut \<or> ?c = eos) =
      map (\<lambda>s. if \<exists>r \<in> {1..<s}. pv r = eos then eos else pv s) [Suc a..<n]" by simp
  then show ?case using Suc.prems(1) a by (simp only: upt_conv_Cons[OF a] ctx_loop.simps Let_def list.map)
qed simp

lemma prev_hist_seq:
  assumes "length ph + length ys = length all" "all = ph @ ys" "i < length ys" "s \<le> length ph" "1 \<le> s"
  shows "prev eos ph ys i s = all ! (length ph + i - s)"
proof (cases "s \<le> i")
  case True
  then have e: "length ph + i - s = length ph + (i - s)" by simp
  show ?thesis unfolding assms(2) e nth_append_length_plus using True by (simp add: prev_def)
next
  case False
  then have "nat (int (length ph) - int (s - i)) = length ph + i - s" "s - i \<le> length ph" "length ph + i - s < length ph"
    using assms by linarith+
  then show ?thesis using assms False by (simp add: prev_def nth_append Let_def of_nat_diff)
qed

text \<open>The history after the tokens \<open>xs\<close> from a fresh start.\<close>

definition hist_of :: "ngram_table \<Rightarrow> int list \<Rightarrow> int list" where
  "hist_of t xs = drop (length xs) (replicate (ng_ngram t - 1) (ng_eos t) @ xs)"

lemma hist_of_len [simp]: "length (hist_of t xs) = ng_ngram t - 1"
  by (simp add: hist_of_def)

lemma hist_of_nth:
  assumes "k < ng_ngram t - 1"
  shows "hist_of t xs ! k = (if ng_ngram t - 1 \<le> length xs + k then xs ! (length xs + k - (ng_ngram t - 1)) else ng_eos t)"
proof -
  define m where "m = ng_ngram t - 1"
  have "hist_of t xs ! k = (replicate m (ng_eos t) @ xs) ! (length xs + k)"
    unfolding hist_of_def m_def[symmetric] by (rule nth_drop) simp
  also have "\<dots> = (if m \<le> length xs + k then xs ! (length xs + k - m) else ng_eos t)"
    by (simp add: nth_append)
  finally show ?thesis by (simp only: m_def)
qed

lemma prev_hist_of:
  assumes "i < length ys" "1 \<le> s" "s < ng_ngram t"
  shows "prev (ng_eos t) (hist_of t xs) ys i s =
      (if s \<le> length xs + i then (xs @ ys) ! (length xs + i - s) else ng_eos t)"
proof -
  let ?m = "ng_ngram t - 1"
  have "prev (ng_eos t) (hist_of t xs) ys i s = (hist_of t xs @ ys) ! (?m + i - s)"
    using assms by (subst prev_hist_seq[where all = "hist_of t xs @ ys"]) auto
  also have "\<dots> = (if s \<le> length xs + i then (xs @ ys) ! (length xs + i - s) else ng_eos t)"
  proof (cases "s \<le> i")
    case True
    then have e: "?m + i - s = length (hist_of t xs) + (i - s)" "length xs + i - s = length xs + (i - s)"
      by simp_all
    show ?thesis unfolding e nth_append_length_plus using True by simp
  next
    case False
    then have k: "?m + i - s < ?m" using assms by linarith
    have e: "(?m \<le> length xs + (?m + i - s)) = (s \<le> length xs + i)"
      "length xs + (?m + i - s) - ?m = length xs + i - s" using assms False by linarith+
    have l: "length xs + i - s < length xs" if "s \<le> length xs + i" using False that by linarith
    have "(hist_of t xs @ ys) ! (?m + i - s) = hist_of t xs ! (?m + i - s)"
      by (rule nth_append_left) (use k in simp)
    also have "\<dots> = (if s \<le> length xs + i then xs ! (length xs + i - s) else ng_eos t)"
      unfolding hist_of_nth[OF k] e ..
    finally show ?thesis using nth_append_left[OF l] by simp
  qed
  finally show ?thesis .
qed

lemma token_ctx_eq:
  assumes "i < length ys" "2 \<le> ng_ngram t"
  shows "token_ctx t (hist_of t xs) ys i = map (seq_ctx (ng_eos t) (xs @ ys) (length xs + i)) [0..<ng_ngram t]"
proof -
  let ?e = "ng_eos t" and ?p = "prev (ng_eos t) (hist_of t xs) ys i" and ?q = "xs @ ys" and ?n = "length xs + i"
  have "(if \<exists>r \<in> {1..<s}. ?p r = ?e then ?e else ?p s) = seq_ctx ?e ?q ?n s" if s: "1 \<le> s" "s < ng_ngram t" for s
  proof -
    have p: "?p r = (if r \<le> ?n then ?q ! (?n - r) else ?e)" if "1 \<le> r" "r \<le> s" for r
      using prev_hist_of[OF assms(1) that(1)] that s by simp
    have mem: "?e \<in> set (drop (?n - s) (take ?n ?q)) \<longleftrightarrow> (\<exists>r \<in> {1..s}. ?q ! (?n - r) = ?e)" if "s \<le> ?n"
    proof -
      have "set (drop (?n - s) (take ?n ?q)) = (!) ?q ` {?n - s..<?n}"
      proof -
        have "drop (?n - s) (take ?n ?q) = map ((!) ?q) [?n - s..<?n]"
          using assms(1) by (intro nth_equalityI) (auto simp del: take_append drop_append simp: min_def)
        then show ?thesis by simp
      qed
      also have "{?n - s..<?n} = (\<lambda>r. ?n - r) ` {1..s}"
      proof (intro set_eqI iffI)
        fix x assume "x \<in> {?n - s..<?n}"
        then show "x \<in> (\<lambda>r. ?n - r) ` {1..s}" using that by (intro image_eqI[of _ _ "?n - x"]) auto
      qed (use that in auto)
      finally have *: "set (drop (?n - s) (take ?n ?q)) = (\<lambda>r. ?q ! (?n - r)) ` {1..s}" by (simp add: image_image del: drop_append take_append)
      show ?thesis unfolding * image_iff by metis
    qed
    show ?thesis
    proof (cases "s \<le> ?n")
      case True
      have "(\<exists>r \<in> {1..s}. ?q ! (?n - r) = ?e) \<longleftrightarrow> (\<exists>r \<in> {1..s}. ?p r = ?e)"
        using True p by (intro bex_cong) auto
      moreover have "{1..s} = insert s {1..<s}" using s(1) by auto
      ultimately have "(\<exists>r \<in> {1..s}. ?q ! (?n - r) = ?e) \<longleftrightarrow> (\<exists>r \<in> {1..<s}. ?p r = ?e) \<or> ?p s = ?e"
        by auto
      then show ?thesis using True p[of s] s(1) mem by (auto simp: seq_ctx_def)
    next
      case False
      then show ?thesis using p[of s] s(1) by (simp add: seq_ctx_def)
    qed
  qed
  then have "map (\<lambda>s. if \<exists>r \<in> {1..<s}. ?p r = ?e then ?e else ?p s) [1..<ng_ngram t] = map (seq_ctx ?e ?q ?n) [1..<ng_ngram t]"
    by (intro map_cong) auto
  moreover have "ys ! i = seq_ctx ?e ?q ?n 0" using assms(1) by (simp add: seq_ctx_def nth_append)
  moreover have "[0..<ng_ngram t] = 0 # [1..<ng_ngram t]" using assms(2) by (simp add: upt_conv_Cons)
  moreover have "ctx_loop ?e ?p [1..<ng_ngram t] False = map (\<lambda>s. if \<exists>r \<in> {1..<s}. ?p r = ?e then ?e else ?p s) [1..<ng_ngram t]"
    by (rule ctx_loop_eq) auto
  ultimately show ?thesis by (simp add: token_ctx_def)
qed

lemma token_writes_fst: "map fst (token_writes t ctx) = [0..<(ng_ngram t - 1) * ng_per_gram t]"
proof -
  have "concat (map (\<lambda>g. map (\<lambda>h. (g - 2) * p + h) [0..<p]) [2..<n + 2]) = [0..<n * p]" for n p :: nat
  proof (induction n)
    case (Suc n)
    have "map (\<lambda>h. n * p + h) [0..<p] = [n * p..<n * p + p]"
      by (rule nth_equalityI) auto
    moreover have "[0..<n * p] @ [n * p..<n * p + p] = [0..<Suc n * p]"
      by (simp add: upt_add_eq_append[of 0 "n * p" p] add.commute[of p])
    moreover have "[2..<Suc n + 2] = [2..<n + 2] @ [n + 2]" by simp
    ultimately show ?case using Suc by (simp del: upt_Suc)
  qed simp
  from this[where p = "ng_per_gram t" and n = "ng_ngram t - 1"] show ?thesis
    by (cases "ng_ngram t") (auto simp: token_writes_def map_concat comp_def)
qed

text \<open>Writing a token's rows one by one fills its section of the output.\<close>

lemma fold_writes:
  assumes "map fst ws = [0..<length ws]" "b = length xs"
  shows "fold (\<lambda>(hi, r) out. out[b + hi := r]) ws (xs @ replicate (length ws) z @ zs) = xs @ map snd ws @ zs"
proof -
  have "fold (\<lambda>(hi, r) out. out[b + hi := r]) us (xs @ replicate (length us + n) z @ zs) = xs @ map snd us @ replicate n z @ zs"
    if "map fst us = [0..<length us]" for us n
    using that
  proof (induction us arbitrary: n rule: rev_induct)
    case (snoc w us)
    obtain hi r where w: "w = (hi, r)" by (cases w)
    have 1: "map fst us = [0..<length us]" "hi = length us" using snoc.prems by (simp_all add: w)
    have "fold (\<lambda>(hi, r) out. out[b + hi := r]) us (xs @ replicate (length us + Suc n) z @ zs) = xs @ map snd us @ replicate (Suc n) z @ zs"
      by (rule snoc.IH[OF 1(1)])
    then show ?case using 1(2) assms(2) by (simp add: w list_update_append)
  qed simp
  from this[OF assms(1), of 0] show ?thesis by simp
qed

lemma fold_tokens:
  assumes "\<And>i. map fst (W i) = [0..<h]" "b = length xs"
  shows "fold (\<lambda>i out. fold (\<lambda>(hi, r) out. out[b + i * h + hi := r]) (W i) out) [0..<n] (xs @ replicate (n * h) z @ zs) =
      xs @ concat (map (\<lambda>i. map snd (W i)) [0..<n]) @ zs"
proof (induction n arbitrary: zs)
  case (Suc n)
  have len: "length (W i) = h" for i using arg_cong[OF assms(1)[of i], of length] by simp
  have rep: "replicate (Suc n * h) z = replicate (n * h) z @ replicate h z" by (simp add: replicate_add[symmetric] add.commute)
  let ?ys = "xs @ concat (map (\<lambda>i. map snd (W i)) [0..<n])"
  have ly: "b + n * h = length ?ys" using assms(2) len by (simp add: length_concat comp_def sum_list_triv)
  have "fold (\<lambda>(hi, r) out. out[b + n * h + hi := r]) (W n) (?ys @ replicate (length (W n)) z @ zs) = ?ys @ map snd (W n) @ zs"
    by (rule fold_writes) (use assms(1)[of n] len ly in auto)
  then have "fold (\<lambda>(hi, r) out. out[b + n * h + hi := r]) (W n)
      (fold (\<lambda>i out. fold (\<lambda>(hi, r) out. out[b + i * h + hi := r]) (W i) out) [0..<n] (xs @ replicate (n * h) z @ replicate h z @ zs)) =
      ?ys @ map snd (W n) @ zs"
    unfolding Suc[of "replicate h z @ zs"] len by simp
  then show ?case unfolding rep by simp
qed simp

lemma hash_rows_step:
  assumes "ng_geometry t" "hist = hist_of t xs \<or> (xs = [] \<and> hist = [])"
  shows "hash_rows t ys (hist, out) =
    (hist_of t (xs @ ys), out @ concat (map (\<lambda>i. seq_rows t (xs @ ys) (length xs + i)) [0..<length ys]))"
proof -
  let ?n = "ng_ngram t - 1"
  define ph where "ph = replicate (?n - length hist) (ng_eos t) @ hist"
  have ph: "ph = hist_of t xs"
    using assms(2) by (auto simp: ph_def hist_of_def)
  let ?W = "\<lambda>i. token_writes t (token_ctx t ph ys i)"
  have h: "map fst (?W i) = [0..<ng_n_heads t]" for i
    using assms(1) by (simp add: token_writes_fst ng_geometry_def)
  have o: "fold (\<lambda>i out. fold (\<lambda>(hi, r) o'. o'[length out0 + i * ng_n_heads t + hi := r]) (?W i) out) [0..<length ys]
      (out0 @ replicate (length ys * ng_n_heads t) 0) = out0 @ concat (map (\<lambda>i. map snd (?W i)) [0..<length ys])" for out0
    using fold_tokens[of ?W "ng_n_heads t" "length out0" out0 "length ys" 0 "[]", OF h refl] by simp
  have s: "map snd (?W i) = seq_rows t (xs @ ys) (length xs + i)" if "i < length ys" for i
    using that assms(1) by (simp add: ph seq_rows_def token_ctx_eq ng_geometry_def)
  have d: "drop (length (ph @ ys) - ?n) (ph @ ys) = hist_of t (xs @ ys)"
  proof -
    have "length (ph @ ys) - ?n = length ys" by (simp add: ph)
    moreover have "drop (length ys) (drop (length xs) (replicate ?n (ng_eos t) @ xs) @ ys) =
        drop (length xs + length ys) (replicate ?n (ng_eos t) @ xs @ ys)"
      by (metis add.commute append.assoc append_eq_conv_conj drop_append drop_drop length_append length_replicate
          le_add2 diff_is_0_eq drop_0)
    ultimately show ?thesis by (simp add: ph hist_of_def)
  qed
  have "concat (map (\<lambda>i. map snd (?W i)) [0..<length ys]) = concat (map (\<lambda>i. seq_rows t (xs @ ys) (length xs + i)) [0..<length ys])"
    using s by (intro arg_cong[of _ _ concat] map_cong) auto
  with o[of out] have f: "fold (\<lambda>i. fold (\<lambda>(hi, r) o'. o'[length out + i * ng_n_heads t + hi := r]) (?W i)) [0..<length ys]
      (out @ replicate (length ys * ng_n_heads t) 0) = out @ concat (map (\<lambda>i. seq_rows t (xs @ ys) (length xs + i)) [0..<length ys])"
    by simp
  show ?thesis
    unfolding hash_rows_def prod.case Let_def ph_def[symmetric] d f ..
qed

lemma seq_rows_prefix: "i < length xs \<Longrightarrow> seq_rows t (xs @ ys) i = seq_rows t xs i"
  by (simp add: seq_rows_def seq_ctx_def[abs_def] nth_append less_imp_diff_less cong: if_cong)

lemma seq_rows_split:
  "concat (map (seq_rows t (xs @ ys)) [0..<length (xs @ ys)]) =
     concat (map (seq_rows t xs) [0..<length xs]) @ concat (map (\<lambda>i. seq_rows t (xs @ ys) (length xs + i)) [0..<length ys])"
proof -
  have "[0..<length (xs @ ys)] = [0..<length xs] @ map ((+) (length xs)) [0..<length ys]"
    by (rule nth_equalityI) (auto simp: nth_append)
  moreover have "map (seq_rows t (xs @ ys)) [0..<length xs] = map (seq_rows t xs) [0..<length xs]"
    by (intro map_cong) (auto simp: seq_rows_prefix)
  ultimately show ?thesis by (simp only: map_append concat_append map_map comp_def)
qed

lemma hash_rows_fold:
  assumes "ng_geometry t" "hist = hist_of t xs \<or> (xs = [] \<and> hist = [])" "out = out0 @ concat (map (seq_rows t xs) [0..<length xs])"
  shows "snd (fold (hash_rows t) chunks (hist, out)) =
    out0 @ concat (map (seq_rows t (xs @ concat chunks)) [0..<length (xs @ concat chunks)])"
  using assms
proof (induction chunks arbitrary: xs hist out)
  case (Cons c cs)
  have "hash_rows t c (hist, out) = (hist_of t (xs @ c), out0 @ concat (map (seq_rows t (xs @ c)) [0..<length (xs @ c)]))"
    unfolding hash_rows_step[OF assms(1) Cons.prems(2)] seq_rows_split by (simp add: Cons.prems(3))
  then show ?case using Cons.IH[OF assms(1) disjI1[OF refl] refl, of "xs @ c"] by simp
qed simp

lemma seq_rows_range:
  assumes "ng_geometry t" "r \<in> set (seq_rows t seq i)"
    "\<And>hi. hi < ng_n_heads t \<Longrightarrow> 0 < unat (ng_vocab t ! hi) \<and> unat (ng_offset t ! hi) + unat (ng_vocab t ! hi) \<le> ng_n_rows t"
    "ng_n_rows t \<le> 2 ^ 31"
  shows "0 \<le> r \<and> r < int (ng_n_rows t)"
proof -
  obtain m hi where r: "r = head_row t m hi" "hi \<in> fst ` set (token_writes t (map (seq_ctx (ng_eos t) seq i) [0..<ng_ngram t]))"
    using assms(2) by (auto simp: seq_rows_def token_writes_def image_iff)
  have "fst ` set (token_writes t (map (seq_ctx (ng_eos t) seq i) [0..<ng_ngram t])) = {0..<ng_n_heads t}"
    using arg_cong[OF token_writes_fst, of set] assms(1) by (simp add: ng_geometry_def)
  then have hi: "hi < ng_n_heads t" using r(2) by simp
  let ?w = "m mod ng_vocab t ! hi + ng_offset t ! hi"
  have v: "0 < unat (ng_vocab t ! hi)" "unat (ng_offset t ! hi) + unat (ng_vocab t ! hi) \<le> ng_n_rows t" using assms(3)[OF hi] by auto
  have "unat (m mod ng_vocab t ! hi) < unat (ng_vocab t ! hi)" using v(1) by (simp add: unat_mod)
  then have b: "unat (m mod ng_vocab t ! hi) + unat (ng_offset t ! hi) < ng_n_rows t" using v(2) by linarith
  then have "unat ?w = unat (m mod ng_vocab t ! hi) + unat (ng_offset t ! hi)"
    using assms(4) by (subst unat_add_lem[THEN iffD1]) auto
  with b have u: "unat ?w < ng_n_rows t" "unat ?w < 2 ^ 31" using assms(4) by linarith+
  have "unat (ucast ?w :: 32 word) = unat ?w"
    using u(2) by (simp add: unsigned_ucast_eq take_bit_nat_eq_self)
  then have "uint (ucast ?w :: 32 word) = int (unat ?w)" by (metis uint_nat)
  moreover have "sint (ucast ?w :: 32 word) = signed_take_bit 31 (uint (ucast ?w :: 32 word))"
    by (simp add: sint_uint)
  moreover have "signed_take_bit 31 (int n) = int n" if "n < 2 ^ 31" for n :: nat
    by (rule signed_take_bit_int_eq_self) (use that in auto)
  ultimately have "sint (ucast ?w :: 32 word) = int (unat ?w)"
    using u(2) by metis
  then show ?thesis unfolding r(1) head_row_def using u(1) by (metis of_nat_0_le_iff of_nat_less_iff)
qed

subsection \<open>Rows from memory and from the file\<close>

text \<open>The bytes of row \<open>r\<close> in the model file.\<close>

definition table_row :: "ngram_table \<Rightarrow> int \<Rightarrow> byte list" where
  "table_row t r = take (ng_row_bytes t) (drop (ng_file_off t + nat r * ng_row_bytes t) (ng_fp t))"

text \<open>A negative row number casts to an offset no file has.\<close>

definition read_row :: "ngram_table \<Rightarrow> int \<Rightarrow> exn + byte list" where
  "read_row t row =
     (if 0 \<le> row \<and> ng_file_off t + nat row * ng_row_bytes t + ng_row_bytes t \<le> length (ng_fp t)
      then Inr (table_row t row) else Inl (Runtime_error ''ngram table: read failed at row ''))"

definition cached :: "int \<Rightarrow> ngram_table \<Rightarrow> byte list option \<times> ngram_table" where
  "cached row t =
     (case map_of (ng_cache_index t) row of
        None \<Rightarrow> (None, t)
      | Some idx \<Rightarrow> (Some (take (ng_row_bytes t) (drop (idx * ng_row_bytes t) (ng_cache_data t))),
                    t\<lparr>ng_lru := row # remove1 row (ng_lru t)\<rparr>))"

text \<open>The slot a new row goes to: a free one, the one of the least recently used row, or the next unused one.\<close>

definition claim_slot :: "ngram_table \<Rightarrow> (exn + nat) \<times> ngram_table" where
  "claim_slot t =
     (if ng_free_slots t \<noteq> [] then (Inr (last (ng_free_slots t)), t\<lparr>ng_free_slots := butlast (ng_free_slots t)\<rparr>)
      else if ng_cache_cap t \<le> length (ng_cache_index t) then
        (if ng_lru t = [] then (Inl Undefined_behaviour, t)
         else let victim = last (ng_lru t); t1 = t\<lparr>ng_lru := butlast (ng_lru t)\<rparr> in
           (case map_of (ng_cache_index t) victim of
              None \<Rightarrow> (Inl Undefined_behaviour, t1)
            | Some idx \<Rightarrow> (Inr idx, t1\<lparr>ng_cache_index := AList.delete victim (ng_cache_index t)\<rparr>)))
      else (Inr (length (ng_cache_index t)), t))"

definition insert_row :: "int \<Rightarrow> byte list \<Rightarrow> ngram_table \<Rightarrow> (exn + unit) \<times> ngram_table" where
  "insert_row row bs t =
     (if ng_cache_cap t = 0 then (Inr (), t)
      else case claim_slot t of
        (Inl e, t1) \<Rightarrow> (Inl e, t1)
      | (Inr idx, t1) \<Rightarrow>
          (Inr (), t1\<lparr>ng_cache_data := take (idx * ng_row_bytes t) (ng_cache_data t) @ bs @ drop (idx * ng_row_bytes t + ng_row_bytes t) (ng_cache_data t),
                     ng_lru := row # ng_lru t1, ng_cache_index := AList.update row idx (ng_cache_index t1)\<rparr>))"

text \<open>First pass of \<open>gather\<close>: cached rows go out at once, the others are put in \<open>order\<close>.\<close>

fun gather_hits :: "(byte list \<Rightarrow> 'f) \<Rightarrow> (int \<times> nat) list \<Rightarrow> 'f list \<Rightarrow> ngram_table \<Rightarrow> (int \<times> nat) list \<times> 'f list \<times> ngram_table" where
  "gather_hits deq [] dst t = ([], dst, t)"
| "gather_hits deq ((row, i) # rs) dst t =
     (case cached row t of
        (Some bs, t1) \<Rightarrow> gather_hits deq rs (dst[i := deq bs]) (t1\<lparr>ng_stats := (ng_stats t1)\<lparr>st_hits := st_hits (ng_stats t1) + 1\<rparr>\<rparr>)
      | (None, t1) \<Rightarrow> (case gather_hits deq rs dst t1 of (ord, dst', t2) \<Rightarrow> ((row, i) # ord, dst', t2)))"

text \<open>Second pass: the misses in ascending order; equal rows are read once.\<close>

fun gather_reads :: "(byte list \<Rightarrow> 'f) \<Rightarrow> (int \<times> nat) list \<Rightarrow> int \<Rightarrow> byte list \<Rightarrow> 'f list \<Rightarrow> ngram_table \<Rightarrow> (exn + 'f list) \<times> ngram_table" where
  "gather_reads deq [] last_row row_buf dst t = (Inr dst, t)"
| "gather_reads deq ((row, i) # es) last_row row_buf dst t =
     (if row \<noteq> last_row then
        (case read_row t row of
           Inl e \<Rightarrow> (Inl e, t)
         | Inr bs \<Rightarrow>
             (case insert_row row bs t of
                (Inl e, t1) \<Rightarrow> (Inl e, t1)
              | (Inr _, t1) \<Rightarrow> gather_reads deq es row bs (dst[i := deq bs])
                  (t1\<lparr>ng_stats := (ng_stats t1)\<lparr>st_reads := st_reads (ng_stats t1) + 1\<rparr>\<rparr>)))
      else gather_reads deq es last_row row_buf (dst[i := deq row_buf]) t)"

definition gather_disk :: "(byte list \<Rightarrow> 'f) \<Rightarrow> int list \<Rightarrow> 'f list \<Rightarrow> ngram_table \<Rightarrow> (exn + 'f list) \<times> ngram_table" where
  "gather_disk deq rows dst t =
     (case gather_hits deq (zip rows [0..<length rows]) dst t of
        (ord, dst', t1) \<Rightarrow> gather_reads deq (sort ord) (-1) (replicate (ng_row_bytes t) 0) dst' t1)"

fun gather_ram :: "(byte list \<Rightarrow> 'f) \<Rightarrow> ngram_table \<Rightarrow> (int \<times> nat) list \<Rightarrow> 'f list \<Rightarrow> exn + 'f list" where
  "gather_ram deq t [] dst = Inr dst"
| "gather_ram deq t ((row, i) # rs) dst =
     (if 0 \<le> row \<and> nat row * ng_row_bytes t + ng_row_bytes t \<le> length (ng_ram t)
      then gather_ram deq t rs (dst[i := deq (take (ng_row_bytes t) (drop (nat row * ng_row_bytes t) (ng_ram t)))])
      else Inl Undefined_behaviour)"

definition gather :: "(byte list \<Rightarrow> 'f) \<Rightarrow> int list \<Rightarrow> 'f list \<Rightarrow> ngram_table \<Rightarrow> (exn + 'f list) \<times> ngram_table" where
  "gather deq rows dst t =
     (let t0 = t\<lparr>ng_stats := (ng_stats t)\<lparr>st_rows := st_rows (ng_stats t) + length rows\<rparr>\<rparr> in
      if ng_mode t = RAM then
        (case gather_ram deq t0 (zip rows [0..<length rows]) dst of
           Inl e \<Rightarrow> (Inl e, t0)
         | Inr dst' \<Rightarrow> (Inr dst', t0\<lparr>ng_stats := (ng_stats t0)\<lparr>st_hits := st_hits (ng_stats t0) + length rows\<rparr>\<rparr>))
      else gather_disk deq rows dst t0)"

definition resident_bytes :: "ngram_table \<Rightarrow> nat" where
  "resident_bytes t = (if ng_mode t = RAM then length (ng_ram t) else length (ng_cache_data t))"

subsection \<open>The row cache holds rows of the table\<close>

definition same_table :: "ngram_table \<Rightarrow> ngram_table \<Rightarrow> bool" where
  "same_table t t' \<longleftrightarrow> ng_row_bytes t' = ng_row_bytes t \<and> ng_n_rows t' = ng_n_rows t \<and> ng_file_off t' = ng_file_off t \<and>
     ng_fp t' = ng_fp t \<and> ng_ram t' = ng_ram t \<and> ng_cache_cap t' = ng_cache_cap t \<and> ng_mode t' = ng_mode t"

definition cache_keys :: "ngram_table \<Rightarrow> int set" where
  "cache_keys t = fst ` set (ng_cache_index t)"

definition cache_ok :: "ngram_table \<Rightarrow> bool" where
  "cache_ok t \<longleftrightarrow> ng_free_slots t = [] \<and> distinct (map fst (ng_cache_index t)) \<and>
     snd ` set (ng_cache_index t) = {..<length (ng_cache_index t)} \<and> distinct (ng_lru t) \<and> set (ng_lru t) = cache_keys t \<and>
     length (ng_cache_index t) \<le> ng_cache_cap t \<and> length (ng_cache_data t) = ng_cache_cap t * ng_row_bytes t \<and>
     (\<forall>(r, i) \<in> set (ng_cache_index t). take (ng_row_bytes t) (drop (i * ng_row_bytes t) (ng_cache_data t)) = table_row t r)"

lemma same_table_refl [simp]: "same_table t t"
  by (simp add: same_table_def)

lemma same_table_trans: "same_table t t1 \<Longrightarrow> same_table t1 t2 \<Longrightarrow> same_table t t2"
  by (simp add: same_table_def)

lemma same_table_row: "same_table t t' \<Longrightarrow> table_row t' = table_row t"
  by (simp add: same_table_def table_row_def fun_eq_iff)

lemma stats_frame [frame_simps]:
  "cache_ok (t\<lparr>ng_stats := st\<rparr>) = cache_ok t" "cache_keys (t\<lparr>ng_stats := st\<rparr>) = cache_keys t"
  "same_table t' (t\<lparr>ng_stats := st\<rparr>) = same_table t' t" "same_table (t\<lparr>ng_stats := st\<rparr>) t' = same_table t t'"
  "table_row (t\<lparr>ng_stats := st\<rparr>) = table_row t" "read_row (t\<lparr>ng_stats := st\<rparr>) = read_row t"
  by (simp_all add: cache_ok_def cache_keys_def same_table_def table_row_def read_row_def fun_eq_iff)

lemma cached_ok:
  assumes "cache_ok t" "cached row t = (r, t1)"
  shows "cache_ok t1" "cache_keys t1 = cache_keys t" "same_table t t1"
    "r = (if row \<in> cache_keys t then Some (table_row t row) else None)"
proof -
  have d: "distinct (map fst (ng_cache_index t))" using assms(1) by (simp add: cache_ok_def)
  show 1: "cache_keys t1 = cache_keys t" "same_table t t1"
    using assms(2) by (auto simp: cached_def cache_keys_def same_table_def split: option.splits)
  have k: "map_of (ng_cache_index t) row = None \<longleftrightarrow> row \<notin> cache_keys t" by (simp add: cache_keys_def map_of_eq_None_iff)
  show "r = (if row \<in> cache_keys t then Some (table_row t row) else None)"
  proof (cases "map_of (ng_cache_index t) row")
    case None
    then show ?thesis using assms(2) k by (simp add: cached_def)
  next
    case (Some i)
    then have "(row, i) \<in> set (ng_cache_index t)" by (rule map_of_SomeD)
    then show ?thesis using Some assms k by (auto simp: cached_def cache_ok_def)
  qed
  show "cache_ok t1"
  proof (cases "map_of (ng_cache_index t) row")
    case None
    then show ?thesis using assms by (simp add: cached_def)
  next
    case (Some i)
    then have t1: "t1 = t\<lparr>ng_lru := row # remove1 row (ng_lru t)\<rparr>" and "row \<in> cache_keys t"
      using assms(2) k by (auto simp: cached_def)
    then have "row \<in> set (ng_lru t)" "distinct (ng_lru t)" using assms(1) by (auto simp: cache_ok_def)
    then have "distinct (row # remove1 row (ng_lru t))" "set (row # remove1 row (ng_lru t)) = set (ng_lru t)" by auto
    then show ?thesis using assms(1) unfolding t1 cache_ok_def by (simp add: cache_keys_def table_row_def)
  qed
qed

lemma alist_update_new: "k \<notin> fst ` set al \<Longrightarrow> AList.update k v al = al @ [(k, v)]"
  by (induction al) auto

lemma alist_delete_keys: "fst ` set (AList.delete k al) = fst ` set al - {k}"
  by (auto simp: AList.delete_eq image_iff)

lemma alist_delete_split:
  assumes "distinct (map fst al)" "(v, i) \<in> set al"
  shows "set al = insert (v, i) (set (AList.delete v al))"
  using assms
proof (induction al)
  case (Cons p al)
  obtain k j where p: "p = (k, j)" by (cases p)
  show ?case
  proof (cases "k = v")
    case True
    then have "v \<notin> fst ` set al" using Cons.prems(1) by (simp add: p)
    then have "AList.delete v al = al" by (rule delete_id)
    moreover have "(v, i) \<notin> set al" using \<open>v \<notin> fst ` set al\<close> by (metis fst_conv imageI)
    ultimately show ?thesis using True Cons.prems(2) by (simp add: p)
  next
    case False
    have d: "distinct (map fst al)" and m: "(v, i) \<in> set al" using Cons.prems False by (auto simp: p)
    note h = Cons.IH[OF d m]
    have e: "AList.delete v ((k, j) # al) = (k, j) # AList.delete v al" using False by simp
    show ?thesis unfolding p e list.set(2) by (subst h) (rule insert_commute)
  qed
qed simp

text \<open>
  What \<open>claim_slot\<close> leaves: room for one more row at a slot no remaining row uses.
\<close>

lemma claim_slot_ok:
  assumes "cache_ok t" "0 < ng_cache_cap t"
  obtains idx t1 where "claim_slot t = (Inr idx, t1)" "same_table t t1" "ng_cache_data t1 = ng_cache_data t"
    "cache_keys t1 \<subseteq> cache_keys t" "distinct (map fst (ng_cache_index t1))" "set (ng_cache_index t1) \<subseteq> set (ng_cache_index t)"
    "idx \<notin> snd ` set (ng_cache_index t1)" "insert idx (snd ` set (ng_cache_index t1)) = {..<Suc (length (ng_cache_index t1))}"
    "length (ng_cache_index t1) < ng_cache_cap t" "distinct (ng_lru t1)" "set (ng_lru t1) = cache_keys t1" "ng_free_slots t1 = []"
proof (cases "ng_cache_cap t \<le> length (ng_cache_index t)")
  case False
  then show ?thesis using assms that[of "length (ng_cache_index t)" t]
    by (auto simp: claim_slot_def cache_ok_def lessThan_Suc)
next
  case True
  let ?I = "ng_cache_index t"
  have full: "length ?I = ng_cache_cap t" using True assms(1) by (simp add: cache_ok_def)
  have d: "distinct (map fst ?I)" and s: "snd ` set ?I = {..<length ?I}" and l: "distinct (ng_lru t)" "set (ng_lru t) = cache_keys t"
    and f: "ng_free_slots t = []" using assms(1) by (simp_all add: cache_ok_def)
  have "?I \<noteq> []" using full assms(2) by auto
  then have ne: "ng_lru t \<noteq> []" using l(2) by (auto simp: cache_keys_def)
  define v where "v = last (ng_lru t)"
  have "v \<in> cache_keys t" using ne l(2) unfolding v_def by (metis last_in_set)
  then obtain idx where vi: "(v, idx) \<in> set ?I" by (auto simp: cache_keys_def)
  then have m: "map_of ?I v = Some idx" using d by simp
  define J where "J = AList.delete v ?I"
  have Jk: "fst ` set J = cache_keys t - {v}" by (simp add: J_def alist_delete_keys cache_keys_def)
  have Jd: "distinct (map fst J)" unfolding J_def by (rule distinct_delete[OF d])
  have Js: "set J \<subseteq> set ?I" by (auto simp: J_def AList.delete_eq)
  have ck: "card (cache_keys t) = length ?I" using distinct_card[OF d] by (simp add: cache_keys_def)
  have "length J = card (fst ` set J)" using distinct_card[OF Jd] by simp
  also have "\<dots> = length ?I - 1"
    unfolding Jk using \<open>v \<in> cache_keys t\<close> by (simp add: card_Diff_singleton ck)
  finally have len: "Suc (length J) = length ?I" using \<open>?I \<noteq> []\<close> by (cases ?I) auto
  have "distinct (map snd ?I)" by (rule card_distinct) (simp add: s)
  then have inj: "inj_on snd (set ?I)" by (simp add: distinct_map)
  have J: "set ?I = insert (v, idx) (set J)" unfolding J_def by (rule alist_delete_split[OF d vi])
  have "(v, idx) \<notin> set J" using Jk by (metis Diff_iff fst_conv imageI insertI1)
  then have 1: "idx \<notin> snd ` set J" using inj J by (auto simp: inj_on_def image_iff)
  have 2: "insert idx (snd ` set J) = {..<Suc (length J)}" using s J len by simp
  have 3: "set (butlast (ng_lru t)) = cache_keys t - {v}" "distinct (butlast (ng_lru t))"
  proof -
    have e: "ng_lru t = butlast (ng_lru t) @ [v]" using ne by (simp add: v_def)
    then have "distinct (butlast (ng_lru t) @ [v])" "set (butlast (ng_lru t) @ [v]) = cache_keys t" using l by metis+
    then show "set (butlast (ng_lru t)) = cache_keys t - {v}" "distinct (butlast (ng_lru t))" by auto
  qed
  let ?t = "t\<lparr>ng_lru := butlast (ng_lru t), ng_cache_index := J\<rparr>"
  have c: "claim_slot t = (Inr idx, ?t)"
    using True f ne m by (simp add: claim_slot_def Let_def v_def[symmetric] J_def)
  have k: "cache_keys ?t = cache_keys t - {v}" using Jk by (simp add: cache_keys_def)
  show ?thesis
    by (rule that[OF c]) (use Jd Js 1 2 3 len full k f in \<open>auto simp: same_table_def\<close>)
qed

lemma insert_row_ok:
  assumes "cache_ok t" "row \<notin> cache_keys t" "bs = table_row t row" "length bs = ng_row_bytes t"
  obtains t' where "insert_row row bs t = (Inr (), t')" "cache_ok t'" "same_table t t'" "cache_keys t' \<subseteq> insert row (cache_keys t)"
proof (cases "ng_cache_cap t = 0")
  case True
  then show ?thesis using assms that[of t] by (auto simp: insert_row_def)
next
  case False
  let ?rb = "ng_row_bytes t" and ?d = "ng_cache_data t"
  obtain idx t1 where c: "claim_slot t = (Inr idx, t1)" and st: "same_table t t1" and cd: "ng_cache_data t1 = ?d"
    and ks: "cache_keys t1 \<subseteq> cache_keys t" and dk: "distinct (map fst (ng_cache_index t1))"
    and si: "set (ng_cache_index t1) \<subseteq> set (ng_cache_index t)" and ni: "idx \<notin> snd ` set (ng_cache_index t1)"
    and ins: "insert idx (snd ` set (ng_cache_index t1)) = {..<Suc (length (ng_cache_index t1))}"
    and lt: "length (ng_cache_index t1) < ng_cache_cap t" and lr: "distinct (ng_lru t1)" "set (ng_lru t1) = cache_keys t1"
    and fr: "ng_free_slots t1 = []"
    using claim_slot_ok[OF assms(1)] False by blast
  have rk: "row \<notin> cache_keys t1" using ks assms(2) by blast
  define D where "D = take (idx * ?rb) ?d @ bs @ drop (idx * ?rb + ?rb) ?d"
  let ?J = "ng_cache_index t1 @ [(row, idx)]"
  define t' where "t' = t1\<lparr>ng_cache_data := D, ng_lru := row # ng_lru t1, ng_cache_index := ?J\<rparr>"
  have e: "insert_row row bs t = (Inr (), t')"
    using False c rk by (simp add: insert_row_def t'_def alist_update_new cache_keys_def D_def)
  have "idx < ng_cache_cap t" using ins lt by (metis Suc_le_eq insertI1 lessThan_iff less_le_trans)
  then have "idx * ?rb + ?rb \<le> ng_cache_cap t * ?rb" using mult_le_mono1[of "Suc idx" "ng_cache_cap t" ?rb] by simp
  then have room: "idx * ?rb + ?rb \<le> length ?d" and ld: "length ?d = ng_cache_cap t * ?rb"
    using assms(1) by (simp_all add: cache_ok_def)
  note put = slice_put[OF room assms(4), folded D_def]
  have data: "take ?rb (drop (i * ?rb) D) = table_row t r" if "(r, i) \<in> set ?J" for r i
  proof (cases "(r, i) = (row, idx)")
    case True
    then show ?thesis using put(1) assms(3) by simp
  next
    case False
    then have i: "(r, i) \<in> set (ng_cache_index t1)" using that by auto
    then have "i \<noteq> idx" using ni by force
    then have "take ?rb (drop (i * ?rb) D) = take ?rb (drop (i * ?rb) ?d)" using put(3) slice_apart[of idx i ?rb] by blast
    then show ?thesis using i si assms(1) by (auto simp: cache_ok_def)
  qed
  have k': "cache_keys t' = insert row (cache_keys t1)" by (simp add: t'_def cache_keys_def)
  have s': "same_table t t'" using st by (simp add: t'_def same_table_def)
  have "cache_ok t'"
    unfolding cache_ok_def k'
  proof (intro conjI)
    show "distinct (map fst (ng_cache_index t'))" using dk rk by (auto simp: t'_def cache_keys_def)
    show "snd ` set (ng_cache_index t') = {..<length (ng_cache_index t')}" using ins by (simp add: t'_def)
    show "\<forall>(r, i) \<in> set (ng_cache_index t'). take (ng_row_bytes t') (drop (i * ng_row_bytes t') (ng_cache_data t')) = table_row t' r"
      using data same_table_row[OF s'] s' by (auto simp: t'_def same_table_def)
    show "length (ng_cache_data t') = ng_cache_cap t' * ng_row_bytes t'"
      using put(2) ld s' by (simp add: t'_def same_table_def)
  qed (use lr rk lt fr s' in \<open>auto simp: t'_def same_table_def\<close>)
  then show ?thesis using e s' k' ks that[of t'] by blast
qed

subsection \<open>gather returns the rows of the table\<close>

text \<open>The writes both passes make into the destination.\<close>

definition put_rows :: "(int \<Rightarrow> 'f) \<Rightarrow> (int \<times> nat) list \<Rightarrow> 'f list \<Rightarrow> 'f list" where
  "put_rows F ws dst = fold (\<lambda>(r, i) d. d[i := F r]) ws dst"

lemma put_rows_simps [simp]:
  "put_rows F [] dst = dst" "put_rows F ((r, i) # ws) dst = put_rows F ws (dst[i := F r])"
  "put_rows F (us @ ws) dst = put_rows F ws (put_rows F us dst)" "length (put_rows F ws dst) = length dst"
  by (simp_all add: put_rows_def) (induction ws arbitrary: dst; auto)

lemma put_rows_nth:
  assumes "\<forall>(r, i) \<in> set ws. r = rows ! i" "j < length dst"
  shows "put_rows F ws dst ! j = (if j \<in> snd ` set ws then F (rows ! j) else dst ! j)"
  using assms
proof (induction ws arbitrary: dst)
  case (Cons w ws)
  obtain r i where w: "w = (r, i)" by (cases w)
  have "put_rows F ws (dst[i := F r]) ! j = (if j \<in> snd ` set ws then F (rows ! j) else dst[i := F r] ! j)"
    using Cons by simp
  then show ?case using Cons.prems by (auto simp: w nth_list_update)
qed simp

lemma put_rows_all:
  assumes "set ws = set (zip rows [0..<length rows])" "length dst = length rows"
  shows "put_rows F ws dst = map F rows"
proof (rule nth_equalityI)
  fix j assume j: "j < length (put_rows F ws dst)"
  have "\<forall>(r, i) \<in> set ws. r = rows ! i" using assms(1) by (auto simp: in_set_zip)
  moreover have "(rows ! j, j) \<in> set ws" using assms j by (auto simp: in_set_zip)
  then have "j \<in> snd ` set ws" by (metis imageI snd_conv)
  ultimately show "put_rows F ws dst ! j = map F rows ! j" using put_rows_nth[of ws rows j dst F] assms(2) j by simp
qed (use assms in simp)

lemma gather_hits_ok:
  assumes "cache_ok t" "gather_hits deq rs dst t = (ord, dst', t')"
  shows "ord = filter (\<lambda>(r, i). r \<notin> cache_keys t) rs"
    "dst' = put_rows (\<lambda>r. deq (table_row t r)) (filter (\<lambda>(r, i). r \<in> cache_keys t) rs) dst"
    "cache_ok t' \<and> cache_keys t' = cache_keys t \<and> same_table t t'"
proof -
  have "ord = filter (\<lambda>(r, i). r \<notin> cache_keys t) rs \<and>
    dst' = put_rows (\<lambda>r. deq (table_row t r)) (filter (\<lambda>(r, i). r \<in> cache_keys t) rs) dst \<and>
    cache_ok t' \<and> cache_keys t' = cache_keys t \<and> same_table t t'"
    using assms
  proof (induction rs arbitrary: dst t ord)
    case (Cons x rs)
    obtain row i where x: "x = (row, i)" by (cases x)
    obtain r t1 where c: "cached row t = (r, t1)" by (cases "cached row t")
    note ok = cached_ok[OF Cons.prems(1) c]
    note eq = same_table_row[OF ok(3)]
    show ?case
    proof (cases "row \<in> cache_keys t")
      case True
      let ?t = "t1\<lparr>ng_stats := (ng_stats t1)\<lparr>st_hits := st_hits (ng_stats t1) + 1\<rparr>\<rparr>"
      have "gather_hits deq rs (dst[i := deq (table_row t row)]) ?t = (ord, dst', t')"
        using Cons.prems(2) True c ok(4) by (simp add: x)
      from Cons.IH[OF _ this] show ?thesis
        using True ok(1-3) eq same_table_trans[OF ok(3)] by (simp add: x frame_simps)
    next
      case False
      obtain ord1 where "gather_hits deq rs dst t1 = (ord1, dst', t')" "ord = (row, i) # ord1"
        using Cons.prems(2) False c ok(4) by (auto simp: x split: prod.splits)
      then show ?thesis using Cons.IH[OF ok(1)] False ok(1-3) eq same_table_trans[OF ok(3)] by (simp add: x)
    qed
  qed simp
  then show "ord = filter (\<lambda>(r, i). r \<notin> cache_keys t) rs"
    "dst' = put_rows (\<lambda>r. deq (table_row t r)) (filter (\<lambda>(r, i). r \<in> cache_keys t) rs) dst"
    "cache_ok t' \<and> cache_keys t' = cache_keys t \<and> same_table t t'" by blast+
qed

definition table_in_file :: "ngram_table \<Rightarrow> bool" where
  "table_in_file t \<longleftrightarrow> ng_file_off t + ng_n_rows t * ng_row_bytes t \<le> length (ng_fp t)"

lemma read_row_ok:
  assumes "table_in_file t" "0 \<le> r" "r < int (ng_n_rows t)"
  shows "read_row t r = Inr (table_row t r)" "length (table_row t r) = ng_row_bytes t"
proof -
  have "Suc (nat r) \<le> ng_n_rows t" using assms(2,3) by linarith
  then have "nat r * ng_row_bytes t + ng_row_bytes t \<le> ng_n_rows t * ng_row_bytes t"
    using mult_le_mono1[of "Suc (nat r)" "ng_n_rows t" "ng_row_bytes t"] by simp
  then show "read_row t r = Inr (table_row t r)" "length (table_row t r) = ng_row_bytes t"
    using assms(1,2) by (simp_all add: read_row_def table_in_file_def table_row_def)
qed

lemma gather_reads_ok:
  assumes "cache_ok t" "table_in_file t" "sorted (map fst es)"
    "\<forall>(r, i) \<in> set es. 0 \<le> r \<and> r < int (ng_n_rows t) \<and> last_row \<le> r \<and> (r \<noteq> last_row \<longrightarrow> r \<notin> cache_keys t)"
    "0 \<le> last_row \<Longrightarrow> row_buf = table_row t last_row"
  shows "\<exists>t'. gather_reads deq es last_row row_buf dst t = (Inr (put_rows (\<lambda>r. deq (table_row t r)) es dst), t') \<and> cache_ok t' \<and> same_table t t'"
  using assms
proof (induction es arbitrary: last_row row_buf dst t)
  case (Cons x es)
  obtain row i where x: "x = (row, i)" by (cases x)
  show ?case
  proof (cases "row = last_row")
    case True
    then show ?thesis using Cons.IH[of t last_row row_buf "dst[i := deq row_buf]"] Cons.prems by (auto simp: x)
  next
    case False
    have r: "0 \<le> row" "row < int (ng_n_rows t)" "row \<notin> cache_keys t" "last_row < row" using Cons.prems(4) False by (auto simp: x)
    note rd = read_row_ok[OF Cons.prems(2) r(1,2)]
    obtain t1 where t1: "insert_row row (table_row t row) t = (Inr (), t1)" "cache_ok t1" "same_table t t1"
      "cache_keys t1 \<subseteq> insert row (cache_keys t)"
      using insert_row_ok[OF Cons.prems(1) r(3) refl rd(2)] by blast
    let ?t = "t1\<lparr>ng_stats := (ng_stats t1)\<lparr>st_reads := st_reads (ng_stats t1) + 1\<rparr>\<rparr>"
    note eq = same_table_row[OF t1(3)]
    have later: "r' \<noteq> row \<longrightarrow> r' \<notin> cache_keys t1" if "(r', j) \<in> set es" for r' j
    proof -
      have "row \<le> r'" using Cons.prems(3) that by (force simp: x)
      then show ?thesis using Cons.prems(4) r(4) t1(4) that by (force simp: x)
    qed
    have "\<exists>t'. gather_reads deq es row (table_row t row) (dst[i := deq (table_row t row)]) ?t =
        (Inr (put_rows (\<lambda>r. deq (table_row ?t r)) es (dst[i := deq (table_row t row)])), t') \<and> cache_ok t' \<and> same_table ?t t'"
    proof (rule Cons.IH)
      show "cache_ok ?t" "table_in_file ?t" "sorted (map fst es)" "table_row t row = table_row ?t row"
        using t1 Cons.prems(2,3) eq by (simp_all add: frame_simps x table_in_file_def same_table_def)
      show "\<forall>(r, i) \<in> set es. 0 \<le> r \<and> r < int (ng_n_rows ?t) \<and> row \<le> r \<and> (r \<noteq> row \<longrightarrow> r \<notin> cache_keys ?t)"
        using Cons.prems(3,4) t1(3) later by (fastforce simp: x frame_simps same_table_def)
    qed
    then show ?thesis using False rd(1) t1(1,3) eq by (auto simp: x frame_simps intro: same_table_trans)
  qed
qed simp

lemma gather_disk_ok:
  assumes "cache_ok t" "table_in_file t" "\<forall>r \<in> set rows. 0 \<le> r \<and> r < int (ng_n_rows t)" "length dst = length rows"
  shows "\<exists>t'. gather_disk deq rows dst t = (Inr (map (\<lambda>r. deq (table_row t r)) rows), t') \<and> cache_ok t' \<and> same_table t t'"
proof -
  let ?z = "zip rows [0..<length rows]"
  obtain ord dst1 t1 where h: "gather_hits deq ?z dst t = (ord, dst1, t1)" by (metis prod_cases3)
  note ok = gather_hits_ok[OF assms(1) h]
  have st: "same_table t t1" "cache_ok t1" "cache_keys t1 = cache_keys t" using ok(3) by auto
  note eq = same_table_row[OF st(1)]
  have srt: "sorted (map fst (sort ord))"
  proof -
    have "sorted_wrt (\<le>) (sort ord)" by simp
    then have "sorted_wrt (\<lambda>a b. fst a \<le> fst b) (sort ord)" by (rule sorted_wrt_mono_rel[rotated]) (auto simp: less_eq_prod_def)
    then show ?thesis by (simp add: sorted_wrt_map)
  qed
  have "\<exists>t'. gather_reads deq (sort ord) (-1) (replicate (ng_row_bytes t) 0) dst1 t1 =
      (Inr (put_rows (\<lambda>r. deq (table_row t1 r)) (sort ord) dst1), t') \<and> cache_ok t' \<and> same_table t1 t'"
  proof (rule gather_reads_ok[OF st(2) _ srt])
    show "table_in_file t1" using assms(2) st(1) by (simp add: table_in_file_def same_table_def)
    show "\<forall>(r, i) \<in> set (sort ord). 0 \<le> r \<and> r < int (ng_n_rows t1) \<and> - 1 \<le> r \<and> (r \<noteq> - 1 \<longrightarrow> r \<notin> cache_keys t1)"
      using assms(3) st(1) unfolding ok(1) st(3) by (fastforce simp: same_table_def dest: set_zip_leftD)
  qed simp
  then obtain t' where g: "gather_disk deq rows dst t = (Inr (put_rows (\<lambda>r. deq (table_row t r)) (sort ord) dst1), t')" "cache_ok t'" "same_table t1 t'"
    using h eq by (auto simp: gather_disk_def)
  have "put_rows (\<lambda>r. deq (table_row t r)) (sort ord) dst1 =
      put_rows (\<lambda>r. deq (table_row t r)) (filter (\<lambda>(r, i). r \<in> cache_keys t) ?z @ sort ord) dst" by (simp add: ok(2))
  also have "\<dots> = map (\<lambda>r. deq (table_row t r)) rows"
    by (rule put_rows_all) (auto simp: ok(1) assms(4))
  finally show ?thesis using g same_table_trans[OF st(1) g(3)] by simp
qed

lemma gather_ram_ok:
  assumes "ng_ram t = take (ng_n_rows t * ng_row_bytes t) (drop (ng_file_off t) (ng_fp t))" "table_in_file t"
    "\<forall>(r, i) \<in> set rs. 0 \<le> r \<and> r < int (ng_n_rows t)"
  shows "gather_ram deq t rs dst = Inr (put_rows (\<lambda>r. deq (table_row t r)) rs dst)"
  using assms(3)
proof (induction rs arbitrary: dst)
  case (Cons x rs)
  obtain r i where x: "x = (r, i)" by (cases x)
  let ?b = "ng_row_bytes t"
  have r: "0 \<le> r" "r < int (ng_n_rows t)" using Cons.prems by (auto simp: x)
  have "Suc (nat r) \<le> ng_n_rows t" using r by linarith
  then have b: "nat r * ?b + ?b \<le> ng_n_rows t * ?b"
    using mult_le_mono1[of "Suc (nat r)" "ng_n_rows t" ?b] by simp
  have "length (ng_ram t) = ng_n_rows t * ?b" using assms(1,2) by (simp add: table_in_file_def)
  moreover have "take ?b (drop (nat r * ?b) (ng_ram t)) = table_row t r"
    unfolding assms(1) table_row_def using b by (simp add: drop_take min_def add.commute)
  ultimately show ?case using Cons r b by (simp add: x)
qed simp

subsection \<open>Construction\<close>

text \<open>The metadata the constructor reads, and the table tensor as the model file describes it.\<close>

record ple_hparams =
  ple_n_heads :: nat
  ple_head_dim :: nat
  ple_ngram_size :: nat
  ple_heads_per_ngram :: nat
  ple_eos_token_id :: int
  ple_layer_multipliers :: "64 word list"
  ple_head_offsets :: "64 word list"
  ple_head_vocab_sizes :: "64 word list"

record ple_tensor =
  pt_ne0 :: nat
  pt_ne1 :: nat
  pt_row_size :: nat
  pt_to_float :: bool
  pt_is_f32 :: bool
  pt_offset :: nat

definition RAM_CHUNK :: nat where "RAM_CHUNK = 67108864"

function ram_load :: "byte list \<Rightarrow> nat \<Rightarrow> nat \<Rightarrow> byte list \<Rightarrow> exn + byte list" where
  "ram_load file off bytes acc =
     (if length acc < bytes then
        let chunk = min RAM_CHUNK (bytes - length acc) in
        if off + length acc + chunk \<le> length file
        then ram_load file off bytes (acc @ take chunk (drop (off + length acc) file))
        else Inl (Runtime_error ''ngram table: short read loading the table'')
      else Inr acc)"
  by pat_completeness auto
termination by (relation "measure (\<lambda>(file, off, bytes, acc). bytes - length acc)") (auto simp: RAM_CHUNK_def)

declare ram_load.simps [simp del]

definition off_table :: ngram_table where
  "off_table = \<lparr>ng_n_heads = 0, ng_head_dim = 0, ng_ngram = 0, ng_per_gram = 0, ng_eos = 0, ng_mult = [], ng_offset = [],
     ng_vocab = [], ng_row_bytes = 0, ng_n_rows = 0, ng_file_off = 0, ng_fp = [], ng_ram = [], ng_cache_cap = 0,
     ng_cache_data = [], ng_lru = [], ng_cache_index = [], ng_free_slots = [], ng_mode = OFF,
     ng_stats = \<lparr>st_rows = 0, st_hits = 0, st_reads = 0\<rparr>\<rparr>"

definition NgramTable :: "ple_hparams \<Rightarrow> ple_tensor option \<Rightarrow> byte list option \<Rightarrow> Mode \<Rightarrow> nat \<Rightarrow> exn + ngram_table" where
  "NgramTable hp tensor file mode cache_mb =
     (if ple_n_heads hp = 0 then Inr off_table
      else let im = off_table\<lparr>ng_n_heads := ple_n_heads hp, ng_head_dim := ple_head_dim hp, ng_ngram := ple_ngram_size hp,
             ng_per_gram := ple_heads_per_ngram hp, ng_eos := ple_eos_token_id hp, ng_mult := ple_layer_multipliers hp,
             ng_offset := ple_head_offsets hp, ng_vocab := ple_head_vocab_sizes hp, ng_mode := mode\<rparr> in
        if mode = OFF then Inr im
        else (case tensor of
          None \<Rightarrow> Inl (Runtime_error ''model declares PLE but has no per_layer_token_embd.weight'')
        | Some pt \<Rightarrow>
            if pt_ne0 pt \<noteq> ple_head_dim hp then Inl (Runtime_error ''ngram table: row width does not match ple head dim'')
            else if \<not> pt_to_float pt \<and> \<not> pt_is_f32 pt then Inl (Runtime_error ''ngram table: no dequantiser for '')
            else (case file of
              None \<Rightarrow> Inl (Runtime_error ''ngram table: cannot open '')
            | Some bs \<Rightarrow>
                let im' = im\<lparr>ng_n_rows := pt_ne1 pt, ng_row_bytes := pt_row_size pt, ng_file_off := pt_offset pt, ng_fp := bs\<rparr> in
                if mode = RAM then
                  (case ram_load bs (pt_offset pt) (pt_ne1 pt * pt_row_size pt) [] of
                     Inl e \<Rightarrow> Inl e
                   | Inr ram \<Rightarrow> Inr (im'\<lparr>ng_ram := ram\<rparr>))
                else if cache_mb \<noteq> 0 \<and> pt_row_size pt = 0 then Inl Undefined_behaviour
                else let rows = (if cache_mb = 0 then 0 else (cache_mb * 2 ^ 20) div pt_row_size pt);
                         cap = min rows (pt_ne1 pt)
                     in Inr (im'\<lparr>ng_cache_cap := cap, ng_cache_data := replicate (cap * pt_row_size pt) 0\<rparr>))))"

text \<open>A usable table: its rows are in the file, in memory a copy of them, on disk a consistent row cache.\<close>

definition nt_ok :: "ngram_table \<Rightarrow> bool" where
  "nt_ok t \<longleftrightarrow> table_in_file t \<and>
     (ng_mode t = RAM \<and> ng_ram t = take (ng_n_rows t * ng_row_bytes t) (drop (ng_file_off t) (ng_fp t)) \<or>
      ng_mode t = DISK \<and> cache_ok t)"

lemma ram_load_ok:
  assumes "off + bytes \<le> length fl" "length acc \<le> bytes" "acc = take (length acc) (drop off fl)"
  shows "ram_load fl off bytes acc = Inr (take bytes (drop off fl))"
  using assms
proof (induction fl off bytes acc rule: ram_load.induct)
  case (1 fl off bytes acc)
  show ?case
  proof (cases "length acc < bytes")
    case True
    define chunk where "chunk = min RAM_CHUNK (bytes - length acc)"
    have c: "off + length acc + chunk \<le> length fl" "length acc + chunk \<le> bytes" using 1(2,3) by (simp_all add: chunk_def)
    let ?acc = "acc @ take chunk (drop (off + length acc) fl)"
    have "?acc = take (length acc + chunk) (drop off fl)"
      unfolding take_add 1(4)[symmetric] by (simp add: add.commute)
    moreover have "length ?acc = length acc + chunk" using c by simp
    ultimately have "ram_load fl off bytes ?acc = Inr (take bytes (drop off fl))"
      using 1(1)[OF True chunk_def c(1)] 1(2) c(2) by simp
    then show ?thesis using True c(1) by (subst ram_load.simps) (simp add: chunk_def[symmetric])
  next
    case False
    then have "length acc = bytes" using 1(3) by simp
    then show ?thesis using False 1(4) by (subst ram_load.simps) simp
  qed
qed

lemma NgramTable_ok:
  assumes "NgramTable hp (Some pt) (Some bs) mode cache_mb = Inr t" "mode \<noteq> OFF" "ple_n_heads hp \<noteq> 0"
    "pt_offset pt + pt_ne1 pt * pt_row_size pt \<le> length bs"
  shows "nt_ok t" "ng_n_rows t = pt_ne1 pt"
proof -
  have "nt_ok t \<and> ng_n_rows t = pt_ne1 pt"
  proof (cases "mode = RAM")
    case True
    have "ram_load bs (pt_offset pt) (pt_ne1 pt * pt_row_size pt) [] = Inr (take (pt_ne1 pt * pt_row_size pt) (drop (pt_offset pt) bs))"
      by (rule ram_load_ok) (use assms(4) in auto)
    then show ?thesis using assms True by (auto simp: NgramTable_def Let_def nt_ok_def table_in_file_def split: if_splits)
  next
    case False
    then have "mode = DISK" using assms(2) by (cases mode) auto
    then show ?thesis using assms
      by (auto simp: NgramTable_def Let_def nt_ok_def table_in_file_def cache_ok_def cache_keys_def off_table_def split: if_splits)
  qed
  then show "nt_ok t" "ng_n_rows t = pt_ne1 pt" by simp_all
qed

lemma gather_ok:
  assumes "nt_ok t" "\<forall>r \<in> set rows. 0 \<le> r \<and> r < int (ng_n_rows t)" "length dst = length rows"
  shows "\<exists>t'. gather deq rows dst t = (Inr (map (\<lambda>r. deq (table_row t r)) rows), t') \<and> nt_ok t' \<and> same_table t t'"
proof -
  let ?t = "t\<lparr>ng_stats := (ng_stats t)\<lparr>st_rows := st_rows (ng_stats t) + length rows\<rparr>\<rparr>"
  have tf: "table_in_file t" using assms(1) by (simp add: nt_ok_def)
  show ?thesis
  proof (cases "ng_mode t = RAM")
    case True
    then have "ng_ram ?t = take (ng_n_rows ?t * ng_row_bytes ?t) (drop (ng_file_off ?t) (ng_fp ?t))" "table_in_file ?t"
      using assms(1) by (auto simp: nt_ok_def table_in_file_def)
    then have "gather_ram deq ?t (zip rows [0..<length rows]) dst =
        Inr (put_rows (\<lambda>r. deq (table_row ?t r)) (zip rows [0..<length rows]) dst)"
      by (rule gather_ram_ok) (use assms(2) in \<open>auto dest: set_zip_leftD\<close>)
    also have "put_rows (\<lambda>r. deq (table_row ?t r)) (zip rows [0..<length rows]) dst = map (\<lambda>r. deq (table_row t r)) rows"
      by (subst put_rows_all) (auto simp: assms(3) frame_simps)
    finally show ?thesis using True assms(1) by (auto simp: gather_def Let_def nt_ok_def table_in_file_def frame_simps)
  next
    case False
    then have m: "ng_mode t = DISK" "cache_ok ?t" using assms(1) by (auto simp: nt_ok_def frame_simps)
    have "\<exists>t'. gather_disk deq rows dst ?t = (Inr (map (\<lambda>r. deq (table_row ?t r)) rows), t') \<and> cache_ok t' \<and> same_table ?t t'"
      by (rule gather_disk_ok[OF m(2)]) (use assms tf in \<open>auto simp: table_in_file_def\<close>)
    then show ?thesis using False m(1) tf by (auto simp: gather_def Let_def nt_ok_def table_in_file_def frame_simps same_table_def)
  qed
qed

subsection \<open>A store of rows\<close>

text \<open>What the runtime uses of the table: batches of row numbers in, the rows out, in any order of calls.\<close>

locale row_store =
  fixes fetch :: "int list \<Rightarrow> 's \<Rightarrow> (exn + 'f list) \<times> 's"
    and inv :: "'s \<Rightarrow> bool"
    and row :: "int \<Rightarrow> 'f"
    and valid :: "int \<Rightarrow> bool"
  assumes fetch_ok: "inv s \<Longrightarrow> \<forall>r \<in> set rs. valid r \<Longrightarrow> \<exists>s'. fetch rs s = (Inr (map row rs), s') \<and> inv s'"
begin

lemma fetch_all:
  assumes "inv s" "\<forall>rs \<in> set batches. \<forall>r \<in> set rs. valid r"
  shows "\<exists>s'. for_each fetch batches s = (Inr (map (map row) batches), s') \<and> inv s'"
  using assms
proof (induction batches arbitrary: s)
  case (Cons b bs)
  obtain s1 where s1: "fetch b s = (Inr (map row b), s1)" "inv s1" using fetch_ok[OF Cons.prems(1)] Cons.prems(2) by fastforce
  obtain s' where "for_each fetch bs s1 = (Inr (map (map row) bs), s')" "inv s'" using Cons.IH[OF s1(2)] Cons.prems(2) by auto
  then show ?case using s1(1) by simp
qed simp

end

definition gather_fresh :: "(byte list \<Rightarrow> 'f) \<Rightarrow> 'f \<Rightarrow> int list \<Rightarrow> ngram_table \<Rightarrow> (exn + 'f list) \<times> ngram_table" where
  "gather_fresh deq z rows = gather deq rows (replicate (length rows) z)"

interpretation ngrams: row_store "gather_fresh deq z" "\<lambda>t. nt_ok t \<and> same_table t0 t" "\<lambda>r. deq (table_row t0 r)"
  "\<lambda>r. 0 \<le> r \<and> r < int (ng_n_rows t0)" for deq z t0
proof
  fix s rs
  assume s: "nt_ok s \<and> same_table t0 s" and r: "\<forall>r \<in> set rs. 0 \<le> r \<and> r < int (ng_n_rows t0)"
  obtain s' where "gather deq rs (replicate (length rs) z) s = (Inr (map (\<lambda>r. deq (table_row s r)) rs), s')" "nt_ok s'" "same_table s s'"
    using gather_ok[of s rs "replicate (length rs) z" deq] s r by (auto simp: same_table_def)
  then show "\<exists>s'. gather_fresh deq z rs s = (Inr (map (\<lambda>r. deq (table_row t0 r)) rs), s') \<and> nt_ok s' \<and> same_table t0 s'"
    using s same_table_row[of t0 s] same_table_trans[of t0 s s'] by (auto simp: gather_fresh_def)
qed

subsection \<open>Properties\<close>

text \<open>
  C16. Consecutive calls of \<open>hash_rows\<close> see the context a single pass would: from an empty history and for
  every way a sequence is cut into batches, the rows are those of the whole sequence, each computed from the
  tokens before it up to the last end-of-sequence, and each lies inside the table when the hash ranges do.
\<close>

theorem hash_rows_chunked:
  assumes "ng_geometry t" "ng_n_rows t \<le> 2 ^ 31"
    "\<And>hi. hi < ng_n_heads t \<Longrightarrow> 0 < unat (ng_vocab t ! hi) \<and> unat (ng_offset t ! hi) + unat (ng_vocab t ! hi) \<le> ng_n_rows t"
  shows "snd (fold (hash_rows t) chunks ([], out)) =
      out @ concat (map (seq_rows t (concat chunks)) [0..<length (concat chunks)]) \<and>
    set (snd (fold (hash_rows t) chunks ([], []))) \<subseteq> {r. 0 \<le> r \<and> r < int (ng_n_rows t)}"
proof
  show "snd (fold (hash_rows t) chunks ([], out)) = out @ concat (map (seq_rows t (concat chunks)) [0..<length (concat chunks)])"
    using hash_rows_fold[OF assms(1), of "[]" "[]" out out chunks] by simp
  have "snd (fold (hash_rows t) chunks ([], [])) = concat (map (seq_rows t (concat chunks)) [0..<length (concat chunks)])"
    using hash_rows_fold[OF assms(1), of "[]" "[]" "[]" "[]" chunks] by simp
  then show "set (snd (fold (hash_rows t) chunks ([], []))) \<subseteq> {r. 0 \<le> r \<and> r < int (ng_n_rows t)}"
    using seq_rows_range[OF assms(1) _ assms(3,2)] by auto
qed

definition small_hp :: ple_hparams where
  "small_hp = \<lparr>ple_n_heads = 2, ple_head_dim = 2, ple_ngram_size = 3, ple_heads_per_ngram = 1, ple_eos_token_id = 0,
     ple_layer_multipliers = [3, 5, 7], ple_head_offsets = [0, 2], ple_head_vocab_sizes = [2, 3]\<rparr>"

definition small_pt :: ple_tensor where
  "small_pt = \<lparr>pt_ne0 = 2, pt_ne1 = 5, pt_row_size = 2, pt_to_float = True, pt_is_f32 = False, pt_offset = 1\<rparr>"

definition small_file :: "byte list" where
  "small_file = [255, 10, 11, 20, 21, 30, 31, 40, 41, 50, 51]"

definition small_table :: "Mode \<Rightarrow> ngram_table" where
  "small_table m = (case NgramTable small_hp (Some small_pt) (Some small_file) m 1 of Inr t \<Rightarrow> t | Inl _ \<Rightarrow> off_table)"

lemma small_table_ok:
  "NgramTable small_hp (Some small_pt) (Some small_file) DISK 1 = Inr (small_table DISK)"
  "ng_geometry (small_table DISK)" "ng_n_rows (small_table DISK) = 5" "ng_n_heads (small_table DISK) = 2"
  "ng_vocab (small_table DISK) = [2, 3]" "ng_offset (small_table DISK) = [0, 2]"
  by (simp_all add: small_table_def NgramTable_def small_hp_def small_pt_def small_file_def Let_def ng_geometry_def off_table_def)

theorem hash_rows_chunked_witness:
  "snd (fold (hash_rows (small_table DISK)) [[4, 0], [], [9, 2]] ([], [])) =
     [] @ concat (map (seq_rows (small_table DISK) (concat [[4, 0], [], [9, 2]])) [0..<length (concat [[4::int, 0], [], [9, 2]])]) \<and>
   set (snd (fold (hash_rows (small_table DISK)) [[4, 0], [], [9, 2]] ([], []))) \<subseteq> {r. 0 \<le> r \<and> r < int (ng_n_rows (small_table DISK))}"
proof (rule hash_rows_chunked[OF small_table_ok(2)])
  show "ng_n_rows (small_table DISK) \<le> 2 ^ 31" by (simp add: small_table_ok)
  show "\<And>hi. hi < ng_n_heads (small_table DISK) \<Longrightarrow> 0 < unat (ng_vocab (small_table DISK) ! hi) \<and>
      unat (ng_offset (small_table DISK) ! hi) + unat (ng_vocab (small_table DISK) ! hi) \<le> ng_n_rows (small_table DISK)"
    by (auto simp: small_table_ok less_2_cases_iff)
qed

text \<open>
  C19. Once built, the table serves every batch of row numbers in range with exactly the rows of the file,
  whether they come from memory or from disk through the row cache, and whatever the earlier calls were.
\<close>

theorem ngram_gather_correct:
  assumes "NgramTable hp (Some pt) (Some bs) mode cache_mb = Inr t" "mode \<noteq> OFF" "ple_n_heads hp \<noteq> 0"
    "pt_offset pt + pt_ne1 pt * pt_row_size pt \<le> length bs"
    "\<forall>rs \<in> set batches. \<forall>r \<in> set rs. 0 \<le> r \<and> r < int (pt_ne1 pt)"
  shows "\<exists>t'. for_each (gather_fresh deq z) batches t = (Inr (map (map (\<lambda>r. deq (table_row t r))) batches), t') \<and> nt_ok t'"
  using ngrams.fetch_all[of t t batches deq z] NgramTable_ok[OF assms(1-4)] assms(5) by auto

theorem ngram_gather_correct_witness:
  "\<exists>t'. for_each (gather_fresh id []) [[3, 0, 3], [1], [0, 4]] (small_table DISK) =
     (Inr [[[40, 41], [10, 11], [40, 41]], [[20, 21]], [[10, 11], [50, 51]]], t') \<and> nt_ok t'"
proof -
  have "map (map (\<lambda>r. id (table_row (small_table DISK) r))) [[3, 0, 3], [1], [0, 4]] =
      [[[40, 41], [10, 11], [40, 41]], [[20, 21]], [[10, 11], [50, 51]]]"
    by (simp add: small_table_def NgramTable_def small_hp_def small_pt_def small_file_def Let_def off_table_def table_row_def)
  with ngram_gather_correct[OF small_table_ok(1), of "[[3, 0, 3], [1], [0, 4]]" id "[]"] show ?thesis
    by (simp add: small_hp_def small_pt_def small_file_def)
qed

end
