(* ===== verification/Runtime_State.thy ===== *)
theory Runtime_State
  imports Ngram_Table
begin

section \<open>The state behind the cached tokens, and its byte stream\<close>

text \<open>
  What \<open>Runtime::Impl\<close> of \<open>core/runtime.cpp\<close> keeps per layer (key and value rows of the attention layers,
  convolution and state-space tensors of the recurrent ones, the index keys and the n-gram convolution of
  the sparse models), how it is allocated and sized, and how \<open>save_state\<close> and \<open>load_state\<close> write it to a
  byte stream and read it back.

  A tensor is its row stride and its bytes. The tensor library refuses an access past the end of a
  tensor by aborting the process; that and a null dereference are \<open>Undefined_behaviour\<close> here. A
  reader throws when the stream is too short; the message is the caller's.
\<close>

subsection \<open>Shape of a model\<close>

record hparams =
  hp_n_layer :: nat
  hp_n_embd :: nat
  hp_n_head_kv :: nat
  hp_n_embd_head :: nat
  hp_n_head_kv_l :: "nat list"
  hp_use_mrope :: bool
  hp_has_gdn :: bool
  hp_ssm_d_inner :: nat
  hp_ssm_n_group :: nat
  hp_ssm_d_state :: nat
  hp_ssm_d_conv :: nat
  hp_ssm_dt_rank :: nat
  hp_full_attn_interval :: nat
  hp_has_shortconv :: bool
  hp_shortconv_l_cache :: nat
  hp_nextn_predict_layers :: nat
  hp_hc_count :: nat
  hp_indexer_head_dim :: nat
  hp_indexer_top_k :: nat
  hp_compress_ratios :: "nat list"
  hp_ple_ngram_size :: nat
  hp_ple_conv_kernel :: nat
  hp_ple_n_heads :: nat
  hp_ple_layers :: "nat list"

definition has_recurrent :: "hparams \<Rightarrow> bool" where
  "has_recurrent hp = (hp_has_gdn hp \<or> hp_has_shortconv hp)"

definition head_count_kv :: "hparams \<Rightarrow> nat \<Rightarrow> nat" where
  "head_count_kv hp il = (if il < length (hp_n_head_kv_l hp) then hp_n_head_kv_l hp ! il else hp_n_head_kv hp)"

definition n_main :: "hparams \<Rightarrow> nat" where
  "n_main hp = hp_n_layer hp - hp_nextn_predict_layers hp"

definition is_recurrent :: "hparams \<Rightarrow> nat \<Rightarrow> bool" where
  "is_recurrent hp il =
     (if hp_has_shortconv hp then il < hp_n_layer hp \<and> head_count_kv hp il = 0
      else if \<not> hp_has_gdn hp then False
      else il < n_main hp \<and> (il + 1) mod hp_full_attn_interval hp \<noteq> 0)"

definition n_embd_hc :: "hparams \<Rightarrow> nat" where
  "n_embd_hc hp = (if 0 < hp_hc_count hp then hp_hc_count hp * hp_n_embd hp else hp_n_embd hp)"

definition compress_ratio :: "hparams \<Rightarrow> nat \<Rightarrow> nat" where
  "compress_ratio hp il = (if il < length (hp_compress_ratios hp) then hp_compress_ratios hp ! il else 0)"

definition has_qsa :: "hparams \<Rightarrow> bool" where
  "has_qsa hp = (0 < hp_indexer_top_k hp)"

definition has_ple :: "hparams \<Rightarrow> bool" where
  "has_ple hp = (0 < hp_ple_n_heads hp)"

definition is_ple :: "hparams \<Rightarrow> nat \<Rightarrow> bool" where
  "is_ple hp il = (il < length (hp_ple_layers hp) \<and> hp_ple_layers hp ! il \<noteq> 0)"

definition hp_ple_conv_state :: "hparams \<Rightarrow> nat" where
  "hp_ple_conv_state hp = (if has_ple hp then (hp_ple_conv_kernel hp - 1) * hp_ple_ngram_size hp else 0)"

subsection \<open>Allocation\<close>

record tensor =
  te_nb1 :: nat
  te_data :: "byte list"

definition nbytes :: "tensor \<Rightarrow> nat" where
  "nbytes t = length (te_data t)"

text \<open>A new tensor of \<open>ne0\<close> by \<open>ne1\<close> elements of \<open>w\<close> bytes; the bytes are zero once \<open>zero_states\<close> has run.\<close>

definition new_tensor :: "nat \<Rightarrow> nat \<Rightarrow> nat \<Rightarrow> tensor" where
  "new_tensor w ne0 ne1 = \<lparr>te_nb1 = w * ne0, te_data = replicate (w * ne0 * ne1) 0\<rparr>"

record layer_state =
  k_cache :: "tensor option"
  v_cache :: "tensor option"
  conv_state :: "tensor option"
  ssm_state :: "tensor option"
  idx_k_cache :: "tensor option"
  ple_conv_state :: "tensor option"

definition no_state :: layer_state where
  "no_state = \<lparr>k_cache = None, v_cache = None, conv_state = None, ssm_state = None, idx_k_cache = None, ple_conv_state = None\<rparr>"

text \<open>\<open>use_ple\<close> after the n-gram table has been built for the mode \<open>m\<close>.\<close>

definition use_ple :: "hparams \<Rightarrow> Mode \<Rightarrow> bool" where
  "use_ple hp m = ((if has_ple hp then m else OFF) \<noteq> OFF \<and> has_ple hp)"

definition alloc_layer :: "hparams \<Rightarrow> nat \<Rightarrow> Mode \<Rightarrow> nat \<Rightarrow> layer_state" where
  "alloc_layer hp n_ctx m il =
     (let conv_ch = hp_ssm_d_inner hp + 2 * hp_ssm_n_group hp * hp_ssm_d_state hp;
          S = hp_ssm_d_state hp; H_v = hp_ssm_dt_rank hp;
          st = (if is_recurrent hp il \<and> hp_has_shortconv hp then
                  no_state\<lparr>conv_state := Some (new_tensor 4 (hp_shortconv_l_cache hp - 1) (hp_n_embd hp))\<rparr>
                else if is_recurrent hp il then
                  no_state\<lparr>conv_state := Some (new_tensor 4 (hp_ssm_d_conv hp - 1) conv_ch),
                           ssm_state := Some (new_tensor 4 S (S * H_v))\<rparr>
                else let gqa_l = head_count_kv hp il * hp_n_embd_head hp in
                  no_state\<lparr>k_cache := Some (new_tensor 2 gqa_l n_ctx), v_cache := Some (new_tensor 2 gqa_l n_ctx),
                           idx_k_cache := (if has_qsa hp \<and> 0 < compress_ratio hp il
                                           then Some (new_tensor 4 (hp_indexer_head_dim hp) n_ctx) else None)\<rparr>)
      in if use_ple hp m \<and> is_ple hp il
         then st\<lparr>ple_conv_state := Some (new_tensor 4 (hp_ple_conv_state hp) (n_embd_hc hp))\<rparr> else st)"

text \<open>\<open>Impl::state_bytes\<close>: what the planner reserves for a layer before anything is built.\<close>

definition planned_bytes :: "hparams \<Rightarrow> nat \<Rightarrow> string \<Rightarrow> nat \<Rightarrow> nat" where
  "planned_bytes hp n_ctx ngram_mode il =
     (if is_recurrent hp il \<and> hp_has_shortconv hp then (hp_shortconv_l_cache hp - 1) * hp_n_embd hp * 4
      else if is_recurrent hp il then
        (hp_ssm_d_conv hp - 1) * (hp_ssm_d_inner hp + 2 * hp_ssm_n_group hp * hp_ssm_d_state hp) * 4 +
        hp_ssm_d_state hp * hp_ssm_d_state hp * hp_ssm_dt_rank hp * 4
      else 2 * (head_count_kv hp il * hp_n_embd_head hp) * n_ctx * 2 +
        (if has_qsa hp \<and> 0 < compress_ratio hp il then hp_indexer_head_dim hp * n_ctx * 4 else 0)) +
     (if has_ple hp \<and> ngram_mode \<noteq> ''off'' \<and> is_ple hp il then hp_ple_conv_state hp * n_embd_hc hp * 4 else 0)"

definition opt_bytes :: "tensor option \<Rightarrow> nat" where
  "opt_bytes t = (case t of None \<Rightarrow> 0 | Some t \<Rightarrow> nbytes t)"

definition layer_bytes :: "layer_state \<Rightarrow> nat" where
  "layer_bytes l = opt_bytes (k_cache l) + opt_bytes (v_cache l) + opt_bytes (conv_state l) + opt_bytes (ssm_state l) +
     opt_bytes (idx_k_cache l) + opt_bytes (ple_conv_state l)"

lemma new_tensor_bytes [simp]: "nbytes (new_tensor w a b) = w * a * b"
  by (simp add: nbytes_def new_tensor_def)

text \<open>
  What the planner reserves for the state of a layer is exactly what \<open>init\<close> allocates for it, for every kind
  of layer, unless the n-gram mode is spelled \<open>0\<close> or \<open>none\<close>: then it also counts the n-gram convolution that
  mode \<open>off\<close> leaves out.
\<close>

theorem planned_bytes_exact:
  assumes "parse_mode ngram_mode = Some m"
  shows "planned_bytes hp n_ctx ngram_mode il = layer_bytes (alloc_layer hp n_ctx m il) +
    (if ngram_mode \<in> {''0'', ''none''} \<and> has_ple hp \<and> is_ple hp il then hp_ple_conv_state hp * n_embd_hc hp * 4 else 0)"
proof -
  let ?p = "if has_ple hp \<and> ngram_mode \<noteq> ''off'' \<and> is_ple hp il then hp_ple_conv_state hp * n_embd_hc hp * 4 else 0"
  have m: "m = OFF \<longleftrightarrow> ngram_mode = ''off'' \<or> ngram_mode \<in> {''0'', ''none''}"
    using assms by (auto simp: parse_mode_def split: if_splits)
  have base: "planned_bytes hp n_ctx ngram_mode il - ?p =
      layer_bytes ((alloc_layer hp n_ctx m il)\<lparr>ple_conv_state := None\<rparr>)"
    by (simp add: planned_bytes_def alloc_layer_def layer_bytes_def opt_bytes_def no_state_def Let_def algebra_simps)
  have ge: "?p \<le> planned_bytes hp n_ctx ngram_mode il" by (simp add: planned_bytes_def)
  have ple: "layer_bytes (alloc_layer hp n_ctx m il) = layer_bytes ((alloc_layer hp n_ctx m il)\<lparr>ple_conv_state := None\<rparr>) +
      (if use_ple hp m \<and> is_ple hp il then hp_ple_conv_state hp * n_embd_hc hp * 4 else 0)"
    by (simp add: alloc_layer_def layer_bytes_def opt_bytes_def no_state_def Let_def)
  show ?thesis
  proof (cases "has_ple hp \<and> is_ple hp il")
    case True
    then show ?thesis using base ge ple m by (auto simp: use_ple_def)
  next
    case False
    then show ?thesis using base ge ple by (auto simp: use_ple_def)
  qed
qed

subsection \<open>The runtime's session state\<close>

record prompt_ckpt =
  pc_pos :: nat
  pc_mtp_past :: nat
  pc_mrope :: int
  pc_hidden :: "32 word list"
  pc_blob :: "byte list"

record rt =
  rt_hp :: hparams
  rt_n_ctx :: nat
  rt_n_past :: nat
  rt_mtp_past :: nat
  rt_mrope_next :: int
  rt_kv_toks :: "int list"
  rt_mtp_hidden :: "32 word list"
  rt_layers :: "layer_state list"
  rt_ngram_hist :: "int list"
  rt_pk :: "prompt_ckpt list"

definition zero_tensor :: "tensor option \<Rightarrow> tensor option" where
  "zero_tensor = map_option (\<lambda>t. t\<lparr>te_data := replicate (nbytes t) 0\<rparr>)"

definition zero_states :: "rt \<Rightarrow> rt" where
  "zero_states st = st\<lparr>rt_layers := map (\<lambda>l. l\<lparr>conv_state := zero_tensor (conv_state l), ssm_state := zero_tensor (ssm_state l),
       ple_conv_state := zero_tensor (ple_conv_state l), idx_k_cache := zero_tensor (idx_k_cache l),
       k_cache := zero_tensor (k_cache l), v_cache := zero_tensor (v_cache l)\<rparr>) (rt_layers st), rt_ngram_hist := []\<rparr>"

definition reset :: "rt \<Rightarrow> rt" where
  "reset st = zero_states (st\<lparr>rt_n_past := 0, rt_mtp_past := 0, rt_mrope_next := 0, rt_kv_toks := [], rt_pk := []\<rparr>)"

text \<open>The state of a new runtime: every tensor allocated and zeroed.\<close>

definition init_rt :: "hparams \<Rightarrow> nat \<Rightarrow> Mode \<Rightarrow> rt" where
  "init_rt hp n_ctx m = \<lparr>rt_hp = hp, rt_n_ctx = n_ctx, rt_n_past = 0, rt_mtp_past = 0, rt_mrope_next = 0, rt_kv_toks = [],
     rt_mtp_hidden = (if 0 < hp_nextn_predict_layers hp then replicate (hp_n_embd hp) 0 else []),
     rt_layers = map (alloc_layer hp n_ctx m) [0..<hp_n_layer hp], rt_ngram_hist = [], rt_pk = []\<rparr>"

subsection \<open>Byte streams\<close>

definition le32 :: "32 word \<Rightarrow> byte list" where
  "le32 w = [ucast w, ucast (drop_bit 8 w), ucast (drop_bit 16 w), ucast (drop_bit 24 w)]"

definition of_le32 :: "byte \<Rightarrow> byte \<Rightarrow> byte \<Rightarrow> byte \<Rightarrow> 32 word" where
  "of_le32 a b c d = ucast a OR push_bit 8 (ucast b) OR push_bit 16 (ucast c) OR push_bit 24 (ucast d)"

fun words_of :: "byte list \<Rightarrow> 32 word list" where
  "words_of (a # b # c # d # bs) = of_le32 a b c d # words_of bs"
| "words_of _ = []"

definition bytes_of :: "32 word list \<Rightarrow> byte list" where
  "bytes_of ws = concat (map le32 ws)"

text \<open>\<open>src\<close>: the next \<open>n\<close> bytes of the stream, or the reader's exception.\<close>

definition src :: "string \<Rightarrow> nat \<Rightarrow> byte list \<Rightarrow> exn + byte list \<times> byte list" where
  "src msg n bs = (if n \<le> length bs then Inr (take n bs, drop n bs) else Inl (Runtime_error msg))"

subsection \<open>save\_state\<close>

definition STATE_MAGIC :: "32 word" where "STATE_MAGIC = 0x33535351"

record state_header =
  sh_magic :: "32 word"
  sh_n_layer :: int
  sh_n_ctx :: int
  sh_n_embd_gqa :: int
  sh_n_past :: int
  sh_mtp_past :: int
  sh_n_toks :: int
  sh_n_hidden :: int
  sh_mrope_next :: int

definition SIZEOF_HEADER :: nat where "SIZEOF_HEADER = 36"

definition header_words :: "state_header \<Rightarrow> 32 word list" where
  "header_words h = [sh_magic h, word_of_int (sh_n_layer h), word_of_int (sh_n_ctx h), word_of_int (sh_n_embd_gqa h),
     word_of_int (sh_n_past h), word_of_int (sh_mtp_past h), word_of_int (sh_n_toks h), word_of_int (sh_n_hidden h),
     word_of_int (sh_mrope_next h)]"

definition n_embd_gqa :: "hparams \<Rightarrow> int" where
  "n_embd_gqa hp = sint (of_nat (hp_n_head_kv hp * hp_n_embd_head hp) :: 32 word)"

definition header_of :: "rt \<Rightarrow> state_header" where
  "header_of st = \<lparr>sh_magic = STATE_MAGIC, sh_n_layer = int (hp_n_layer (rt_hp st)), sh_n_ctx = int (rt_n_ctx st),
     sh_n_embd_gqa = n_embd_gqa (rt_hp st), sh_n_past = int (rt_n_past st), sh_mtp_past = int (rt_mtp_past st),
     sh_n_toks = int (length (rt_kv_toks st)), sh_n_hidden = int (length (rt_mtp_hidden st)), sh_mrope_next = rt_mrope_next st\<rparr>"

definition dump :: "tensor option \<Rightarrow> nat \<Rightarrow> exn + byte list" where
  "dump t n = (case t of
     None \<Rightarrow> Inl Undefined_behaviour
   | Some t \<Rightarrow> if n = 0 then Inr [] else if n \<le> nbytes t then Inr (take n (te_data t)) else Inl Undefined_behaviour)"

definition app :: "exn + byte list \<Rightarrow> exn + byte list \<Rightarrow> exn + byte list" where
  "app x y = (case x of Inl e \<Rightarrow> Inl e | Inr a \<Rightarrow> (case y of Inl e \<Rightarrow> Inl e | Inr b \<Rightarrow> Inr (a @ b)))"

definition stride :: "tensor option \<Rightarrow> nat" where
  "stride t = (case t of None \<Rightarrow> 0 | Some t \<Rightarrow> te_nb1 t)"

definition save_layer :: "nat \<Rightarrow> layer_state \<Rightarrow> exn + byte list" where
  "save_layer rows l =
     (if k_cache l \<noteq> None then
        app (dump (k_cache l) (rows * stride (k_cache l))) (dump (v_cache l) (rows * stride (v_cache l)))
      else
        app (dump (conv_state l) (opt_bytes (conv_state l)))
          (if ssm_state l = None then Inr [] else dump (ssm_state l) (opt_bytes (ssm_state l))))"

definition rows_at :: "hparams \<Rightarrow> nat \<Rightarrow> nat \<Rightarrow> nat \<Rightarrow> nat" where
  "rows_at hp mtp_past n_past il = (if n_main hp \<le> il then mtp_past else n_past)"

fun save_layers :: "(nat \<Rightarrow> nat) \<Rightarrow> nat \<Rightarrow> layer_state list \<Rightarrow> exn + byte list" where
  "save_layers rows il [] = Inr []"
| "save_layers rows il (l # ls) = app (save_layer (rows il) l) (save_layers rows (il + 1) ls)"

definition save_state :: "rt \<Rightarrow> exn + byte list" where
  "save_state st =
     app (Inr (bytes_of (header_words (header_of st)) @ bytes_of (map word_of_int (rt_kv_toks st)) @ bytes_of (rt_mtp_hidden st)))
       (save_layers (rows_at (rt_hp st) (rt_mtp_past st) (rt_n_past st)) 0 (rt_layers st))"

definition state_bytes :: "rt \<Rightarrow> nat" where
  "state_bytes st =
     SIZEOF_HEADER + length (rt_kv_toks st) * 4 + length (rt_mtp_hidden st) * 4 +
     sum_list (map (\<lambda>(il, l).
        if k_cache l \<noteq> None then 2 * rows_at (rt_hp st) (rt_mtp_past st) (rt_n_past st) il * stride (k_cache l)
        else opt_bytes (conv_state l) + opt_bytes (ssm_state l)) (enumerate 0 (rt_layers st)))"

subsection \<open>load\_state\<close>

definition parse_header :: "byte list \<Rightarrow> state_header" where
  "parse_header bs = (let w = words_of bs in
     \<lparr>sh_magic = w ! 0, sh_n_layer = sint (w ! 1), sh_n_ctx = sint (w ! 2), sh_n_embd_gqa = sint (w ! 3), sh_n_past = sint (w ! 4),
      sh_mtp_past = sint (w ! 5), sh_n_toks = sint (w ! 6), sh_n_hidden = sint (w ! 7), sh_mrope_next = sint (w ! 8)\<rparr>)"

definition header_ok :: "rt \<Rightarrow> state_header \<Rightarrow> bool" where
  "header_ok st h \<longleftrightarrow> sh_magic h = STATE_MAGIC \<and> sh_n_layer h = int (hp_n_layer (rt_hp st)) \<and> sh_n_ctx h = int (rt_n_ctx st) \<and>
     sh_n_embd_gqa h = n_embd_gqa (rt_hp st) \<and> 0 \<le> sh_n_past h \<and> sh_n_past h \<le> int (rt_n_ctx st) \<and> 0 \<le> sh_mtp_past h \<and>
     0 \<le> sh_n_toks h \<and> 0 \<le> sh_n_hidden h"

definition fill :: "string \<Rightarrow> nat \<Rightarrow> tensor option \<Rightarrow> byte list \<Rightarrow> (exn + byte list) \<times> tensor option" where
  "fill msg n t bs =
     (case t of
        None \<Rightarrow> (Inl Undefined_behaviour, t)
      | Some u \<Rightarrow>
          if n = 0 then (Inr bs, t)
          else (case src msg n bs of
            Inl e \<Rightarrow> (Inl e, t)
          | Inr (buf, bs') \<Rightarrow>
              if n \<le> nbytes u then (Inr bs', Some (u\<lparr>te_data := buf @ drop n (te_data u)\<rparr>)) else (Inl Undefined_behaviour, t)))"

definition fill_layer :: "string \<Rightarrow> nat \<Rightarrow> layer_state \<Rightarrow> byte list \<Rightarrow> (exn + byte list) \<times> layer_state" where
  "fill_layer msg rows l bs =
     (if k_cache l \<noteq> None then
        (case fill msg (rows * stride (k_cache l)) (k_cache l) bs of
           (Inl e, k) \<Rightarrow> (Inl e, l\<lparr>k_cache := k\<rparr>)
         | (Inr bs1, k) \<Rightarrow>
             (case fill msg (rows * stride (v_cache l)) (v_cache l) bs1 of
                (r, v) \<Rightarrow> (r, l\<lparr>k_cache := k, v_cache := v\<rparr>)))
      else
        (case fill msg (opt_bytes (conv_state l)) (conv_state l) bs of
           (Inl e, c) \<Rightarrow> (Inl e, l\<lparr>conv_state := c\<rparr>)
         | (Inr bs1, c) \<Rightarrow>
             if ssm_state l = None then (Inr bs1, l\<lparr>conv_state := c\<rparr>)
             else (case fill msg (opt_bytes (ssm_state l)) (ssm_state l) bs1 of
                     (r, s) \<Rightarrow> (r, l\<lparr>conv_state := c, ssm_state := s\<rparr>))))"

fun fill_layers :: "string \<Rightarrow> (nat \<Rightarrow> nat) \<Rightarrow> nat \<Rightarrow> layer_state list \<Rightarrow> byte list \<Rightarrow> (exn + byte list) \<times> layer_state list" where
  "fill_layers msg rows il [] bs = (Inr bs, [])"
| "fill_layers msg rows il (l # ls) bs =
     (case fill_layer msg (rows il) l bs of
        (Inl e, l') \<Rightarrow> (Inl e, l' # ls)
      | (Inr bs', l') \<Rightarrow> (case fill_layers msg rows (il + 1) ls bs' of (r, ls') \<Rightarrow> (r, l' # ls')))"

definition load_state :: "string \<Rightarrow> byte list \<Rightarrow> rt \<Rightarrow> (exn + byte list) \<times> rt" where
  "load_state msg bs st =
     (case src msg SIZEOF_HEADER bs of
        Inl e \<Rightarrow> (Inl e, st)
      | Inr (hb, bs1) \<Rightarrow>
          let h = parse_header hb in
          if \<not> header_ok st h
          then (Inl (Runtime_error ''load_state: header mismatch (different model/n_ctx or corrupt slot)''), st)
          else (case src msg (nat (sh_n_toks h) * 4) bs1 of
            Inl e \<Rightarrow> (Inl e, st)
          | Inr (tb, bs2) \<Rightarrow>
              (case src msg (nat (sh_n_hidden h) * 4) bs2 of
                 Inl e \<Rightarrow> (Inl e, st)
               | Inr (hid, bs3) \<Rightarrow>
                   (case fill_layers msg (rows_at (rt_hp st) (nat (sh_mtp_past h)) (nat (sh_n_past h))) 0 (rt_layers st) bs3 of
                      (Inl e, ls) \<Rightarrow> (Inl e, st\<lparr>rt_layers := ls\<rparr>)
                    | (Inr bs4, ls) \<Rightarrow>
                        (Inr bs4, st\<lparr>rt_layers := ls, rt_n_past := nat (sh_n_past h), rt_mtp_past := nat (sh_mtp_past h),
                           rt_mrope_next := sh_mrope_next h, rt_kv_toks := map sint (words_of tb),
                           rt_mtp_hidden := words_of hid, rt_pk := []\<rparr>)))))"

subsection \<open>Streams of words\<close>

lemma of_le32_le32: "of_le32 (ucast w) (ucast (drop_bit 8 w)) (ucast (drop_bit 16 w)) (ucast (drop_bit 24 w)) = w"
proof (rule bit_word_eqI)
  fix n assume n: "n < LENGTH(32)"
  have "n < 8 \<or> n \<in> {8..<16} \<or> n \<in> {16..<24} \<or> n \<in> {24..<32}" using n by auto
  then show "bit (of_le32 (ucast w) (ucast (drop_bit 8 w)) (ucast (drop_bit 16 w)) (ucast (drop_bit 24 w))) n = bit w n"
    using n by (auto simp: of_le32_def bit_or_iff bit_push_bit_iff bit_ucast_iff bit_drop_bit_eq)
qed

lemma le32_len [simp]: "length (le32 w) = 4"
  by (simp add: le32_def)

lemma bytes_of_simps [simp]: "bytes_of [] = []" "bytes_of (w # ws) = le32 w @ bytes_of ws" "length (bytes_of ws) = length ws * 4"
  by (simp_all add: bytes_of_def) (induction ws; simp)

lemma words_of_bytes_of [simp]: "words_of (bytes_of ws) = ws"
  by (induction ws) (auto simp: le32_def of_le32_le32)

lemma src_bytes_of:
  assumes "n = length ws * 4"
  shows "src msg n (bytes_of ws @ bs) = Inr (bytes_of ws, bs)"
  by (simp add: src_def assms)

subsection \<open>Well-formed states\<close>

definition shape :: "tensor option \<Rightarrow> (nat \<times> nat) option" where
  "shape = map_option (\<lambda>t. (te_nb1 t, nbytes t))"

definition same_shape :: "layer_state \<Rightarrow> layer_state \<Rightarrow> bool" where
  "same_shape l l' \<longleftrightarrow> shape (k_cache l') = shape (k_cache l) \<and> shape (v_cache l') = shape (v_cache l) \<and>
     shape (conv_state l') = shape (conv_state l) \<and> shape (ssm_state l') = shape (ssm_state l)"

text \<open>A write that keeps the shape and touches nothing outside the stream.\<close>

definition outside_stream :: "layer_state \<Rightarrow> tensor option \<times> tensor option" where
  "outside_stream l = (idx_k_cache l, ple_conv_state l)"

definition rewritten :: "layer_state \<Rightarrow> layer_state \<Rightarrow> bool" where
  "rewritten l l' \<longleftrightarrow> same_shape l l' \<and> outside_stream l' = outside_stream l"

definition layer_ok :: "nat \<Rightarrow> layer_state \<Rightarrow> bool" where
  "layer_ok n_ctx l \<longleftrightarrow> (if k_cache l \<noteq> None
     then \<exists>nb1. shape (k_cache l) = Some (nb1, n_ctx * nb1) \<and> shape (v_cache l) = Some (nb1, n_ctx * nb1)
     else conv_state l \<noteq> None)"

definition int32 :: "int set" where "int32 = {- (2 ^ 31)..<2 ^ 31}"

definition rt_wf :: "rt \<Rightarrow> bool" where
  "rt_wf st \<longleftrightarrow> length (rt_layers st) = hp_n_layer (rt_hp st) \<and> (\<forall>l \<in> set (rt_layers st). layer_ok (rt_n_ctx st) l) \<and>
     rt_n_past st \<le> rt_n_ctx st \<and> rt_mtp_past st \<le> rt_n_ctx st \<and> rt_n_ctx st < 2 ^ 31 \<and> hp_n_layer (rt_hp st) < 2 ^ 31 \<and>
     set (rt_kv_toks st) \<subseteq> int32 \<and> length (rt_kv_toks st) < 2 ^ 31 \<and> length (rt_mtp_hidden st) < 2 ^ 31 \<and> rt_mrope_next st \<in> int32"

lemma init_rt_wf:
  assumes "n_ctx < 2 ^ 31" "hp_n_layer hp < 2 ^ 31" "hp_n_embd hp < 2 ^ 31"
  shows "rt_wf (init_rt hp n_ctx m)"
proof -
  have "layer_ok n_ctx (alloc_layer hp n_ctx m il)" for il
    by (auto simp: layer_ok_def alloc_layer_def Let_def no_state_def shape_def new_tensor_def nbytes_def)
  then show ?thesis using assms by (auto simp: rt_wf_def init_rt_def int32_def)
qed

lemma sint_of_int32: "x \<in> int32 \<Longrightarrow> sint (word_of_int x :: 32 word) = x"
  by (simp add: int32_def sint_uint unsigned_of_int signed_take_bit_take_bit) (simp add: signed_take_bit_int_eq_self)

lemma small_int32: "n < 2 ^ 31 \<Longrightarrow> int n \<in> int32"
  by (auto simp: int32_def)

text \<open>What of a layer counts: the rows in use, or the whole recurrent state.\<close>

definition layer_view :: "nat \<Rightarrow> layer_state \<Rightarrow> byte list option list" where
  "layer_view rows l =
     (if k_cache l \<noteq> None
      then [map_option (\<lambda>t. take (rows * te_nb1 t) (te_data t)) (k_cache l), map_option (\<lambda>t. take (rows * te_nb1 t) (te_data t)) (v_cache l)]
      else [map_option te_data (conv_state l), map_option te_data (ssm_state l)])"

definition layers_view :: "(nat \<Rightarrow> nat) \<Rightarrow> nat \<Rightarrow> layer_state list \<Rightarrow> byte list option list list" where
  "layers_view rows il ls = map (\<lambda>(i, l). layer_view (rows i) l) (enumerate il ls)"

definition saved_view :: "rt \<Rightarrow> nat \<times> nat \<times> int \<times> int list \<times> 32 word list \<times> byte list option list list" where
  "saved_view st = (rt_n_past st, rt_mtp_past st, rt_mrope_next st, rt_kv_toks st, rt_mtp_hidden st,
     layers_view (rows_at (rt_hp st) (rt_mtp_past st) (rt_n_past st)) 0 (rt_layers st))"

text \<open>
  What the stream leaves out, as far as it is in use: the index keys of the cached tokens, the n-gram
  convolution, and the token history of the n-gram hash. A model without index and n-gram module
  (\<open>no_side_state\<close>) has none of it.
\<close>

definition no_side_state :: "hparams \<Rightarrow> bool" where
  "no_side_state hp \<longleftrightarrow> \<not> has_qsa hp \<and> \<not> has_ple hp"

definition side_view :: "rt \<Rightarrow> (byte list option \<times> byte list option) list \<times> int list" where
  "side_view st =
     (map (\<lambda>l. (map_option (\<lambda>t. take (rt_n_past st * te_nb1 t) (te_data t)) (idx_k_cache l), map_option te_data (ple_conv_state l)))
        (rt_layers st),
      if has_ple (rt_hp st) then rt_ngram_hist st else [])"

definition session_view :: "rt \<Rightarrow> (nat \<times> nat \<times> int \<times> int list \<times> 32 word list \<times> byte list option list list) \<times>
    (byte list option \<times> byte list option) list \<times> int list" where
  "session_view st = (saved_view st, side_view st)"

text \<open>The layers of a model without index and n-gram module have nothing outside the stream.\<close>

definition side_free :: "rt \<Rightarrow> bool" where
  "side_free st \<longleftrightarrow> no_side_state (rt_hp st) \<and> (\<forall>l \<in> set (rt_layers st). outside_stream l = (None, None))"

lemma init_side_free: "no_side_state hp \<Longrightarrow> side_free (init_rt hp n_ctx m)"
  by (auto simp: side_free_def no_side_state_def init_rt_def alloc_layer_def no_state_def outside_stream_def use_ple_def Let_def)

definition layer_size :: "nat \<Rightarrow> layer_state \<Rightarrow> nat" where
  "layer_size rows l = (if k_cache l \<noteq> None then 2 * rows * stride (k_cache l) else opt_bytes (conv_state l) + opt_bytes (ssm_state l))"

subsection \<open>A saved state reads back\<close>

lemma shape_eq: "shape t' = shape t \<Longrightarrow> stride t' = stride t \<and> opt_bytes t' = opt_bytes t \<and> (t' = None \<longleftrightarrow> t = None)"
  by (cases t; cases t') (auto simp: shape_def stride_def opt_bytes_def)

lemma dump_fill:
  assumes "t = Some u" "t' = Some u'" "nbytes u' = nbytes u" "n \<le> nbytes u"
  shows "dump t n = Inr (take n (te_data u))"
    "fill msg n t' (take n (te_data u) @ bs) = (Inr bs, Some (u'\<lparr>te_data := take n (te_data u) @ drop n (te_data u')\<rparr>))"
  using assms by (auto simp: dump_def fill_def src_def nbytes_def)

lemma layer_roundtrip:
  assumes "layer_ok n_ctx l" "rows \<le> n_ctx" "same_shape l l'"
  shows "\<exists>a l2. save_layer rows l = Inr a \<and> length a = layer_size rows l \<and> fill_layer msg rows l' (a @ bs) = (Inr bs, l2) \<and>
     rewritten l' l2 \<and> layer_view rows l2 = layer_view rows l"
proof (cases "k_cache l")
  case None
  then obtain c where c: "conv_state l = Some c" using assms(1) by (auto simp: layer_ok_def)
  then obtain c' where c': "conv_state l' = Some c'" "nbytes c' = nbytes c" "te_nb1 c' = te_nb1 c" and k': "k_cache l' = None"
    using assms(3) None by (auto simp: same_shape_def shape_def)
  have dc: "take (nbytes c) (te_data c) = te_data c" "drop (nbytes c) (te_data c') = []" using c' by (simp_all add: nbytes_def)
  show ?thesis
  proof (cases "ssm_state l")
    case s: None
    then have "ssm_state l' = None" using assms(3) by (simp add: same_shape_def shape_def)
    then show ?thesis
      using None c c' k' s dump_fill(1)[OF c c'(1,2) le_refl] dump_fill(2)[OF c c'(1,2) le_refl, of msg bs] dc
      by (auto simp: save_layer_def fill_layer_def app_def opt_bytes_def layer_size_def same_shape_def rewritten_def outside_stream_def shape_def layer_view_def nbytes_def)
  next
    case s: (Some s)
    then obtain s' where s': "ssm_state l' = Some s'" "nbytes s' = nbytes s" "te_nb1 s' = te_nb1 s"
      using assms(3) by (auto simp: same_shape_def shape_def)
    have ds: "take (nbytes s) (te_data s) = te_data s" "drop (nbytes s) (te_data s') = []" using s' by (simp_all add: nbytes_def)
    show ?thesis
      using None c c' k' s s' dump_fill(1)[OF c c'(1,2) le_refl] dump_fill(2)[OF c c'(1,2) le_refl, of msg "te_data s @ bs"] dump_fill(1)[OF s s'(1,2) le_refl] dump_fill(2)[OF s s'(1,2) le_refl, of msg bs] dc ds
      by (auto simp: save_layer_def fill_layer_def app_def opt_bytes_def layer_size_def same_shape_def rewritten_def outside_stream_def shape_def layer_view_def nbytes_def)
  qed
next
  case (Some k)
  then obtain v nb1 where v: "v_cache l = Some v" and nb: "te_nb1 k = nb1" "te_nb1 v = nb1" "nbytes k = n_ctx * nb1" "nbytes v = n_ctx * nb1"
    using assms(1) by (auto simp: layer_ok_def shape_def)
  obtain k' v' where k': "k_cache l' = Some k'" "nbytes k' = nbytes k" "te_nb1 k' = nb1" and v': "v_cache l' = Some v'" "nbytes v' = nbytes v" "te_nb1 v' = nb1"
    using assms(3) Some v nb by (auto simp: same_shape_def shape_def)
  have le: "rows * nb1 \<le> nbytes k" "rows * nb1 \<le> nbytes v" using assms(2) nb by (simp_all add: mult_le_mono1)
  define n where "n = rows * nb1"
  note le = le[folded n_def]
  let ?a = "take n (te_data k)" and ?b = "take n (te_data v)"
  note dk = dump_fill(1)[OF Some k'(1,2) le(1)] dump_fill(2)[OF Some k'(1,2) le(1), of msg "?b @ bs"] and dv = dump_fill(1)[OF v v'(1,2) le(2)] dump_fill(2)[OF v v'(1,2) le(2), of msg bs]
  have la: "length ?a = n" "length ?b = n" using le by (simp_all add: nbytes_def)
  define l2 where "l2 = l'\<lparr>k_cache := Some (k'\<lparr>te_data := ?a @ drop n (te_data k')\<rparr>), v_cache := Some (v'\<lparr>te_data := ?b @ drop n (te_data v')\<rparr>)\<rparr>"
  have st: "stride (k_cache l) = nb1" "stride (v_cache l) = nb1" "stride (k_cache l') = nb1" "stride (v_cache l') = nb1"
    using Some v k' v' nb by (simp_all add: stride_def)
  have "save_layer rows l = Inr (?a @ ?b)" using Some dk(1) dv(1) st by (simp add: save_layer_def app_def n_def)
  moreover have "length (?a @ ?b) = layer_size rows l" using la Some st by (simp add: layer_size_def n_def)
  moreover have "fill_layer msg rows l' ((?a @ ?b) @ bs) = (Inr bs, l2)"
    using dk(2) dv(2) k'(1) v'(1) st by (simp add: fill_layer_def n_def[symmetric] l2_def)
  moreover have "rewritten l' l2"
    using k' v' la le by (simp add: rewritten_def outside_stream_def same_shape_def shape_def l2_def nbytes_def)
  moreover have "layer_view rows l2 = layer_view rows l"
    using Some v k' v' nb la by (simp add: layer_view_def l2_def n_def[symmetric])
  ultimately show ?thesis by blast
qed

lemma enumerate_Cons: "enumerate n (x # xs) = (n, x) # enumerate (Suc n) xs"
  by simp

lemma layers_roundtrip:
  assumes "\<forall>l \<in> set ls. layer_ok n_ctx l" "\<forall>i. rows i \<le> n_ctx" "list_all2 same_shape ls ls'"
  shows "\<exists>a ls2. save_layers rows il ls = Inr a \<and> length a = sum_list (map (\<lambda>(i, l). layer_size (rows i) l) (enumerate il ls)) \<and>
     fill_layers msg rows il ls' (a @ bs) = (Inr bs, ls2) \<and> list_all2 rewritten ls' ls2 \<and> layers_view rows il ls2 = layers_view rows il ls"
  using assms(3,1)
proof (induction ls ls' arbitrary: il rule: list_all2_induct)
  case Nil
  then show ?case by (simp add: layers_view_def)
next
  case (Cons l ls l' ls')
  obtain b ls2 where b: "save_layers rows (Suc il) ls = Inr b" "length b = sum_list (map (\<lambda>(i, l). layer_size (rows i) l) (enumerate (Suc il) ls))"
    "fill_layers msg rows (Suc il) ls' (b @ bs) = (Inr bs, ls2)" "list_all2 rewritten ls' ls2"
    "layers_view rows (Suc il) ls2 = layers_view rows (Suc il) ls"
    using Cons by fastforce
  obtain a l2 where a: "save_layer (rows il) l = Inr a" "length a = layer_size (rows il) l"
    "fill_layer msg (rows il) l' (a @ b @ bs) = (Inr (b @ bs), l2)" "rewritten l' l2" "layer_view (rows il) l2 = layer_view (rows il) l"
    using layer_roundtrip[of n_ctx l "rows il" l' msg "b @ bs"] Cons.hyps(1) Cons.prems assms(2) by auto
  have "save_layers rows il (l # ls) = Inr (a @ b)" using a(1) b(1) by (simp add: app_def)
  moreover have "fill_layers msg rows il (l' # ls') ((a @ b) @ bs) = (Inr bs, l2 # ls2)" using a(3) b(3) by simp
  moreover have "layers_view rows il (l2 # ls2) = layers_view rows il (l # ls)" using a(5) b(5) by (simp add: layers_view_def)
  ultimately show ?case using a(2,4) b(2,4) by (intro exI[of _ "a @ b"] exI[of _ "l2 # ls2"]) simp
qed

lemma header_roundtrip:
  assumes "rt_wf st"
  shows "parse_header (bytes_of (header_words (header_of st))) = header_of st"
proof -
  have "sint (word_of_int (n_embd_gqa hp) :: 32 word) = n_embd_gqa hp" for hp by (simp add: n_embd_gqa_def)
  moreover have "int (hp_n_layer (rt_hp st)) \<in> int32" "int (rt_n_ctx st) \<in> int32" "int (rt_n_past st) \<in> int32" "int (rt_mtp_past st) \<in> int32"
    "int (length (rt_kv_toks st)) \<in> int32" "int (length (rt_mtp_hidden st)) \<in> int32" "rt_mrope_next st \<in> int32"
    using assms by (auto simp: rt_wf_def intro!: small_int32)
  ultimately show ?thesis
    unfolding parse_header_def words_of_bytes_of Let_def header_words_def header_of_def
    by (simp only: sint_of_int32 nth_Cons_0 nth_Cons_numeral state_header.simps pred_numeral_simps BitM.simps
        nth_Cons_Suc One_nat_def numeral_nat)
qed

lemma load_save:
  assumes "rt_wf st" "rt_hp st' = rt_hp st" "rt_n_ctx st' = rt_n_ctx st" "list_all2 same_shape (rt_layers st) (rt_layers st')"
  obtains a st2 where "save_state st = Inr a" "length a = state_bytes st" "load_state msg (a @ bs) st' = (Inr bs, st2)"
    "saved_view st2 = saved_view st" "rt_pk st2 = []" "rt_hp st2 = rt_hp st" "rt_n_ctx st2 = rt_n_ctx st"
    "list_all2 rewritten (rt_layers st') (rt_layers st2)" "rt_ngram_hist st2 = rt_ngram_hist st'"
proof -
  let ?rows = "rows_at (rt_hp st) (rt_mtp_past st) (rt_n_past st)"
  let ?toks = "map word_of_int (rt_kv_toks st) :: 32 word list"
  have ok: "\<forall>l \<in> set (rt_layers st). layer_ok (rt_n_ctx st) l" "\<forall>i. ?rows i \<le> rt_n_ctx st"
    using assms(1) by (auto simp: rt_wf_def rows_at_def)
  obtain d ls2 where d: "save_layers ?rows 0 (rt_layers st) = Inr d"
    "length d = sum_list (map (\<lambda>(i, l). layer_size (?rows i) l) (enumerate 0 (rt_layers st)))"
    "fill_layers msg ?rows 0 (rt_layers st') (d @ bs) = (Inr bs, ls2)" "list_all2 rewritten (rt_layers st') ls2"
    "layers_view ?rows 0 ls2 = layers_view ?rows 0 (rt_layers st)"
    using layers_roundtrip[OF ok assms(4)] by blast
  define hb where "hb = bytes_of (header_words (header_of st))"
  define a where "a = hb @ bytes_of ?toks @ bytes_of (rt_mtp_hidden st) @ d"
  have lh: "length hb = SIZEOF_HEADER" by (simp add: hb_def header_words_def SIZEOF_HEADER_def)
  have 1: "save_state st = Inr a" by (simp add: save_state_def d(1) app_def a_def hb_def)
  have 2: "length a = state_bytes st"
    using d(2) lh by (simp add: a_def state_bytes_def layer_size_def case_prod_unfold)
  have h: "parse_header hb = header_of st" unfolding hb_def by (rule header_roundtrip[OF assms(1)])
  have hok: "header_ok st' (header_of st)"
    using assms(1,2,3) by (simp add: header_ok_def header_of_def rt_wf_def)
  have s1: "src msg SIZEOF_HEADER (a @ bs) = Inr (hb, bytes_of ?toks @ bytes_of (rt_mtp_hidden st) @ d @ bs)"
    using lh by (simp add: src_def a_def)
  have toks: "map sint (map word_of_int (rt_kv_toks st) :: 32 word list) = rt_kv_toks st"
    using assms(1) by (auto simp: rt_wf_def sint_of_int32 comp_def intro!: map_idI)
  define st2 where "st2 = st'\<lparr>rt_layers := ls2, rt_n_past := rt_n_past st, rt_mtp_past := rt_mtp_past st, rt_mrope_next := rt_mrope_next st,
      rt_kv_toks := rt_kv_toks st, rt_mtp_hidden := rt_mtp_hidden st, rt_pk := []\<rparr>"
  have hf: "nat (sh_n_toks (header_of st)) = length ?toks" "nat (sh_n_hidden (header_of st)) = length (rt_mtp_hidden st)"
    "nat (sh_n_past (header_of st)) = rt_n_past st" "nat (sh_mtp_past (header_of st)) = rt_mtp_past st" "sh_mrope_next (header_of st) = rt_mrope_next st"
    by (simp_all add: header_of_def)
  have 3: "load_state msg (a @ bs) st' = (Inr bs, st2)"
    unfolding load_state_def s1
    by (simp only: sum.case prod.case Let_def h hok hf not_True_eq_False if_False src_bytes_of[OF refl] assms(2) d(3) toks words_of_bytes_of st2_def)
  have 4: "saved_view st2 = saved_view st" using d(5) assms(2) by (simp add: saved_view_def st2_def)
  show ?thesis using that[OF 1 2 3 4] d(4) assms(2,3) by (simp add: st2_def)
qed

subsection \<open>Every other stream\<close>

lemma fill_result:
  assumes "t = Some u" "fill msg n t bs = (r, t')"
  shows "shape t' = shape t" "r = Inl Undefined_behaviour \<Longrightarrow> nbytes u < n"
    "r = Inl e \<Longrightarrow> e = Undefined_behaviour \<or> e = Runtime_error msg"
  using assms by (auto simp: fill_def src_def shape_def nbytes_def split: if_splits)

lemma fill_layer_result:
  assumes "layer_ok n_ctx l" "fill_layer msg rows l bs = (r, l')"
  shows "rewritten l l'" "r = Inl Undefined_behaviour \<Longrightarrow> n_ctx < rows" "r = Inl e \<Longrightarrow> e = Undefined_behaviour \<or> e = Runtime_error msg"
proof -
  have "rewritten l l' \<and> (r = Inl Undefined_behaviour \<longrightarrow> n_ctx < rows) \<and> (r = Inl e \<longrightarrow> e = Undefined_behaviour \<or> e = Runtime_error msg)"
  proof (cases "k_cache l")
    case None
    then obtain c where c: "conv_state l = Some c" using assms(1) by (auto simp: layer_ok_def)
    obtain r1 c1 where f1: "fill msg (opt_bytes (conv_state l)) (conv_state l) bs = (r1, c1)" by (cases "fill msg (opt_bytes (conv_state l)) (conv_state l) bs")
    note c1 = fill_result[OF c f1]
    have n1: "r1 \<noteq> Inl Undefined_behaviour" using c1(2) c by (auto simp: opt_bytes_def)
    show ?thesis
    proof (cases r1)
      case (Inl e1)
      then show ?thesis using assms(2) None f1 c1 n1 by (auto simp: fill_layer_def rewritten_def same_shape_def outside_stream_def)
    next
      case (Inr b1)
      show ?thesis
      proof (cases "ssm_state l")
        case s: None
        then show ?thesis using assms(2) None f1 c1 Inr by (auto simp: fill_layer_def rewritten_def same_shape_def outside_stream_def)
      next
        case s: (Some u)
        obtain r2 s1 where f2: "fill msg (opt_bytes (ssm_state l)) (ssm_state l) b1 = (r2, s1)" by (cases "fill msg (opt_bytes (ssm_state l)) (ssm_state l) b1")
        note s1 = fill_result[OF s f2]
        have "r2 \<noteq> Inl Undefined_behaviour" using s1(2) s by (auto simp: opt_bytes_def)
        then show ?thesis using assms(2) None f1 f2 c1 s1 s Inr by (auto simp: fill_layer_def rewritten_def same_shape_def outside_stream_def)
      qed
    qed
  next
    case (Some k)
    then obtain v nb1 where v: "v_cache l = Some v" and nb: "te_nb1 k = nb1" "te_nb1 v = nb1" "nbytes k = n_ctx * nb1" "nbytes v = n_ctx * nb1"
      using assms(1) by (auto simp: layer_ok_def shape_def)
    have st: "stride (k_cache l) = nb1" "stride (v_cache l) = nb1" using Some v nb by (simp_all add: stride_def)
    obtain r1 k1 where f1: "fill msg (rows * nb1) (k_cache l) bs = (r1, k1)" by (cases "fill msg (rows * nb1) (k_cache l) bs")
    note k1 = fill_result[OF Some f1]
    have n1: "r1 = Inl Undefined_behaviour \<Longrightarrow> n_ctx < rows" using k1(2) nb by simp
    show ?thesis
    proof (cases r1)
      case (Inl e1)
      then show ?thesis using assms(2) Some f1 k1 n1 st by (auto simp: fill_layer_def rewritten_def same_shape_def outside_stream_def)
    next
      case (Inr b1)
      obtain r2 v1 where f2: "fill msg (rows * nb1) (v_cache l) b1 = (r2, v1)" by (cases "fill msg (rows * nb1) (v_cache l) b1")
      note v1 = fill_result[OF v f2]
      have "r2 = Inl Undefined_behaviour \<Longrightarrow> n_ctx < rows" using v1(2) nb by simp
      then show ?thesis using assms(2) Some f1 f2 k1 v1 Inr st by (auto simp: fill_layer_def rewritten_def same_shape_def outside_stream_def)
    qed
  qed
  then show "rewritten l l'" "r = Inl Undefined_behaviour \<Longrightarrow> n_ctx < rows" "r = Inl e \<Longrightarrow> e = Undefined_behaviour \<or> e = Runtime_error msg" by blast+
qed

lemma rewritten_refl [simp]: "rewritten l l"
  by (simp add: rewritten_def same_shape_def)

lemma fill_layers_result:
  assumes "\<forall>l \<in> set ls. layer_ok n_ctx l" "fill_layers msg rows il ls bs = (r, ls')"
  shows "list_all2 rewritten ls ls' \<and> (r = Inl Undefined_behaviour \<longrightarrow> (\<exists>i. n_ctx < rows i)) \<and>
    (\<forall>e. r = Inl e \<longrightarrow> e = Undefined_behaviour \<or> e = Runtime_error msg)"
  using assms
proof (induction ls arbitrary: il bs ls')
  case (Cons l ls)
  obtain r1 l1 where f: "fill_layer msg (rows il) l bs = (r1, l1)" by (cases "fill_layer msg (rows il) l bs")
  have ok: "layer_ok n_ctx l" using Cons.prems(1) by simp
  note l1 = fill_layer_result[OF ok f]
  show ?case
  proof (cases r1)
    case (Inl e)
    then show ?thesis using Cons.prems(2) f l1 by (auto simp: list_all2_refl)
  next
    case (Inr b)
    obtain r2 ls2 where f2: "fill_layers msg rows (il + 1) ls b = (r2, ls2)" by (cases "fill_layers msg rows (il + 1) ls b")
    then show ?thesis using Cons.IH[of "il + 1" b ls2] Cons.prems f l1(1) Inr by auto
  qed
qed auto

subsection \<open>Properties\<close>

lemma rewritten_outside: "list_all2 rewritten ls ls2 \<Longrightarrow> map outside_stream ls2 = map outside_stream ls"
  by (induction rule: list_all2_induct) (auto simp: rewritten_def)

lemma side_free_view:
  assumes "side_free st"
  shows "side_view st = (replicate (length (rt_layers st)) (None, None), [])"
proof -
  have none: "idx_k_cache l = None \<and> ple_conv_state l = None" if "l \<in> set (rt_layers st)" for l
    using assms that by (simp add: side_free_def outside_stream_def)
  then have "map (\<lambda>l. (map_option (\<lambda>t. take (rt_n_past st * te_nb1 t) (te_data t)) (idx_k_cache l), map_option te_data (ple_conv_state l)))
      (rt_layers st) = map (\<lambda>_. (None, None)) (rt_layers st)" by (intro map_cong refl) (simp add: none)
  then show ?thesis
    using assms by (simp add: side_view_def side_free_def no_side_state_def map_replicate_const)
qed

text \<open>
  C10. The stream of a state, read into any state of the same model and context size, restores what the stream
  carries: the token history, the counters, the hidden state and the keys, values and recurrent bytes in use; it
  consumes exactly the \<open>state_bytes\<close> announced, and drops the old checkpoints. It carries neither the index keys nor
  the n-gram convolution and history: these stay those of the state it is read into. So in a model without
  index and n-gram module the whole session state is back.
\<close>

theorem load_save_roundtrip:
  assumes "rt_wf st" "rt_hp st' = rt_hp st" "rt_n_ctx st' = rt_n_ctx st" "list_all2 same_shape (rt_layers st) (rt_layers st')"
  shows "\<exists>a st2. save_state st = Inr a \<and> length a = state_bytes st \<and> load_state msg (a @ bs) st' = (Inr bs, st2) \<and>
     saved_view st2 = saved_view st \<and> rt_pk st2 = [] \<and>
     map outside_stream (rt_layers st2) = map outside_stream (rt_layers st') \<and> rt_ngram_hist st2 = rt_ngram_hist st' \<and>
     (side_free st \<and> side_free st' \<longrightarrow> session_view st2 = session_view st)"
proof -
  obtain a st2 where a: "save_state st = Inr a" "length a = state_bytes st" "load_state msg (a @ bs) st' = (Inr bs, st2)"
    "saved_view st2 = saved_view st" "rt_pk st2 = []" "rt_hp st2 = rt_hp st" "list_all2 rewritten (rt_layers st') (rt_layers st2)"
    "rt_ngram_hist st2 = rt_ngram_hist st'"
    using load_save[OF assms, of msg bs] by metis
  note out = rewritten_outside[OF a(7)]
  have "session_view st2 = session_view st" if free: "side_free st" "side_free st'"
  proof -
    have "list_all (\<lambda>p. p = (None, None)) (map outside_stream (rt_layers st2))"
      unfolding out using free(2) by (simp add: list_all_iff side_free_def)
    then have "side_free st2" using free(1) a(6) by (simp add: side_free_def list_all_iff)
    moreover have "length (rt_layers st2) = length (rt_layers st)"
      using list_all2_lengthD[OF a(7)] list_all2_lengthD[OF assms(4)] by simp
    ultimately show ?thesis using free(1) a(4) by (simp add: session_view_def side_free_view)
  qed
  then show ?thesis using a out by blast
qed

definition tiny_hp :: hparams where
  "tiny_hp = \<lparr>hp_n_layer = 3, hp_n_embd = 1, hp_n_head_kv = 1, hp_n_embd_head = 1, hp_n_head_kv_l = [], hp_use_mrope = False,
     hp_has_gdn = True, hp_ssm_d_inner = 1, hp_ssm_n_group = 1, hp_ssm_d_state = 1, hp_ssm_d_conv = 2, hp_ssm_dt_rank = 1,
     hp_full_attn_interval = 2, hp_has_shortconv = False, hp_shortconv_l_cache = 0, hp_nextn_predict_layers = 1, hp_hc_count = 0,
     hp_indexer_head_dim = 0, hp_indexer_top_k = 0, hp_compress_ratios = [], hp_ple_ngram_size = 0, hp_ple_conv_kernel = 0,
     hp_ple_n_heads = 0, hp_ple_layers = []\<rparr>"

theorem planned_bytes_exact_witness:
  "planned_bytes tiny_hp 4 ''disk'' 1 = layer_bytes (alloc_layer tiny_hp 4 DISK 1)"
  using planned_bytes_exact[of "''disk''" DISK tiny_hp 4 1] by (simp add: parse_mode_def)

text \<open>A state with two tokens whose tensors hold distinguishable bytes.\<close>

definition mark_tensor :: "byte \<Rightarrow> tensor option \<Rightarrow> tensor option" where
  "mark_tensor b = map_option (\<lambda>t. t\<lparr>te_data := map (\<lambda>i. b + of_nat i) [0..<nbytes t]\<rparr>)"

definition two_token_state :: rt where
  "two_token_state = (let st = init_rt tiny_hp 4 DISK in
     st\<lparr>rt_n_past := 2, rt_mtp_past := 1, rt_mrope_next := 2, rt_kv_toks := [7, -1], rt_mtp_hidden := [0x3F800000],
        rt_layers := map (\<lambda>l. l\<lparr>k_cache := mark_tensor 10 (k_cache l), v_cache := mark_tensor 40 (v_cache l),
           conv_state := mark_tensor 70 (conv_state l), ssm_state := mark_tensor 100 (ssm_state l)\<rparr>) (rt_layers st)\<rparr>)"

lemma two_token_wf:
  "rt_wf two_token_state" "rt_hp (init_rt tiny_hp 4 DISK) = rt_hp two_token_state" "rt_n_ctx (init_rt tiny_hp 4 DISK) = rt_n_ctx two_token_state"
  "list_all2 same_shape (rt_layers two_token_state) (rt_layers (init_rt tiny_hp 4 DISK))"
proof -
  have m: "shape (mark_tensor b t) = shape t" for b t by (cases t) (simp_all add: mark_tensor_def shape_def nbytes_def)
  have mn: "(mark_tensor b t = None) = (t = None)" for b t by (simp add: mark_tensor_def)
  have ok: "layer_ok 4 l \<Longrightarrow> layer_ok 4 (l\<lparr>k_cache := mark_tensor 10 (k_cache l), v_cache := mark_tensor 40 (v_cache l),
      conv_state := mark_tensor 70 (conv_state l), ssm_state := mark_tensor 100 (ssm_state l)\<rparr>)" for l
    by (simp add: layer_ok_def m mn split: if_splits)
  have i: "rt_wf (init_rt tiny_hp 4 DISK)" by (rule init_rt_wf) (simp_all add: tiny_hp_def)
  show "rt_wf two_token_state"
    using i ok by (auto simp: rt_wf_def two_token_state_def Let_def init_rt_def int32_def)
  show "rt_hp (init_rt tiny_hp 4 DISK) = rt_hp two_token_state" "rt_n_ctx (init_rt tiny_hp 4 DISK) = rt_n_ctx two_token_state"
    by (simp_all add: two_token_state_def Let_def)
  show "list_all2 same_shape (rt_layers two_token_state) (rt_layers (init_rt tiny_hp 4 DISK))"
    by (simp add: two_token_state_def Let_def list_all2_map1 same_shape_def m list_all2_same)
qed

lemma two_token_side_free: "side_free two_token_state" "side_free (init_rt tiny_hp 4 DISK)"
proof -
  have p: "no_side_state tiny_hp" by (simp add: no_side_state_def has_qsa_def has_ple_def tiny_hp_def)
  show i: "side_free (init_rt tiny_hp 4 DISK)" by (rule init_side_free[OF p])
  have "rt_hp two_token_state = rt_hp (init_rt tiny_hp 4 DISK)" using two_token_wf(2) by simp
  then show "side_free two_token_state"
    using i by (auto simp: side_free_def) (auto simp: two_token_state_def Let_def outside_stream_def)
qed

theorem load_save_roundtrip_witness:
  "\<exists>a st2. save_state two_token_state = Inr a \<and> length a = state_bytes two_token_state \<and>
     load_state ''short blob'' (a @ [1, 2]) (init_rt tiny_hp 4 DISK) = (Inr [1, 2], st2) \<and>
     session_view st2 = session_view two_token_state \<and> rt_pk st2 = []"
  using load_save_roundtrip[OF two_token_wf, of "''short blob''" "[1, 2]"] two_token_side_free by blast

text \<open>
  Whatever the stream holds, a failed \<open>load_state\<close> reports the reader's exception or the header mismatch and
  leaves counters, tokens and checkpoints as they were (only tensor bytes of the layers may have changed, never
  their shapes); an access out of bounds needs a header with more draft-block rows than the context has.
\<close>

theorem load_state_errors:
  assumes "rt_wf st" "load_state msg bs st = (Inl e, st')"
  shows "st' = st\<lparr>rt_layers := rt_layers st'\<rparr> \<and> list_all2 rewritten (rt_layers st) (rt_layers st') \<and>
    (e = Runtime_error msg \<or> e = Runtime_error ''load_state: header mismatch (different model/n_ctx or corrupt slot)'' \<or>
     e = Undefined_behaviour \<and> int (rt_n_ctx st) < sh_mtp_past (parse_header (take SIZEOF_HEADER bs)))"
proof -
  let ?h = "parse_header (take SIZEOF_HEADER bs)"
  let ?rows = "rows_at (rt_hp st) (nat (sh_mtp_past ?h)) (nat (sh_n_past ?h))"
  have same: ?thesis if "st' = st" "e = Runtime_error msg \<or> e = Runtime_error ''load_state: header mismatch (different model/n_ctx or corrupt slot)''"
    using that by (auto simp: list_all2_same)
  have ok: "\<forall>l \<in> set (rt_layers st). layer_ok (rt_n_ctx st) l" using assms(1) by (simp add: rt_wf_def)
  show ?thesis
  proof (cases "SIZEOF_HEADER \<le> length bs \<and> header_ok st ?h \<and> nat (sh_n_toks ?h) * 4 + nat (sh_n_hidden ?h) * 4 \<le> length bs - SIZEOF_HEADER")
    case False
    then show ?thesis using assms(2) by (intro same) (auto simp: load_state_def src_def Let_def split: if_splits)
  next
    case True
    let ?bs3 = "drop (nat (sh_n_hidden ?h) * 4) (drop (nat (sh_n_toks ?h) * 4) (drop SIZEOF_HEADER bs))"
    obtain r ls where f: "fill_layers msg ?rows 0 (rt_layers st) ?bs3 = (r, ls)" by (cases "fill_layers msg ?rows 0 (rt_layers st) ?bs3")
    note fl = fill_layers_result[OF ok f]
    have s: "src msg SIZEOF_HEADER bs = Inr (take SIZEOF_HEADER bs, drop SIZEOF_HEADER bs)"
      "src msg (nat (sh_n_toks ?h) * 4) (drop SIZEOF_HEADER bs) =
         Inr (take (nat (sh_n_toks ?h) * 4) (drop SIZEOF_HEADER bs), drop (nat (sh_n_toks ?h) * 4) (drop SIZEOF_HEADER bs))"
      "src msg (nat (sh_n_hidden ?h) * 4) (drop (nat (sh_n_toks ?h) * 4) (drop SIZEOF_HEADER bs)) =
         Inr (take (nat (sh_n_hidden ?h) * 4) (drop (nat (sh_n_toks ?h) * 4) (drop SIZEOF_HEADER bs)), ?bs3)"
      using True by (auto simp: src_def)
    have hok: "header_ok st ?h" using True by blast
    have "load_state msg bs st = (case (r, ls) of (Inl e, ls) \<Rightarrow> (Inl e, st\<lparr>rt_layers := ls\<rparr>)
        | (Inr bs4, ls) \<Rightarrow> (Inr bs4, st\<lparr>rt_layers := ls, rt_n_past := nat (sh_n_past ?h), rt_mtp_past := nat (sh_mtp_past ?h),
             rt_mrope_next := sh_mrope_next ?h,
             rt_kv_toks := map sint (words_of (take (nat (sh_n_toks ?h) * 4) (drop SIZEOF_HEADER bs))),
             rt_mtp_hidden := words_of (take (nat (sh_n_hidden ?h) * 4) (drop (nat (sh_n_toks ?h) * 4) (drop SIZEOF_HEADER bs))), rt_pk := []\<rparr>))"
      unfolding load_state_def s(1) by (simp only: sum.case prod.case Let_def s(2,3) hok not_True_eq_False if_False f)
    then have r: "r = Inl e" "st' = st\<lparr>rt_layers := ls\<rparr>"
      using assms(2) by (cases r; simp)+
    have "int (rt_n_ctx st) < sh_mtp_past ?h" if "rt_n_ctx st < ?rows i" for i
      using that True by (auto simp: rows_at_def header_ok_def split: if_splits)
    then show ?thesis using fl r by auto
  qed
qed

definition short_stream :: "byte list" where
  "short_stream = bytes_of (header_words (header_of two_token_state)) @ [7, 0, 0, 0]"

theorem load_state_errors_witness:
  "fst (load_state ''short read'' short_stream two_token_state) = Inl (Runtime_error ''short read'') \<and>
   rt_kv_toks (snd (load_state ''short read'' short_stream two_token_state)) = [7, -1]"
proof -
  have p: "take SIZEOF_HEADER short_stream = bytes_of (header_words (header_of two_token_state))"
    by (simp add: short_stream_def SIZEOF_HEADER_def header_words_def)
  have h: "parse_header (take SIZEOF_HEADER short_stream) = header_of two_token_state"
    unfolding p by (rule header_roundtrip[OF two_token_wf(1)])
  have hok: "header_ok two_token_state (header_of two_token_state)"
    using two_token_wf(1) by (simp add: header_ok_def header_of_def rt_wf_def)
  have "load_state ''short read'' short_stream two_token_state = (Inl (Runtime_error ''short read''), two_token_state)"
    unfolding load_state_def src_def h Let_def
    by (simp add: hok h) (simp add: header_of_def two_token_state_def Let_def short_stream_def SIZEOF_HEADER_def header_words_def)
  from load_state_errors[OF two_token_wf(1) this] this show ?thesis
    by (simp add: two_token_state_def Let_def)
qed

text \<open>
  The index keys of sparse attention, the convolution state of the n-gram module and the token history of its
  hash are not part of the stream: after a slot has been loaded, they are still those of the sequence that ran before.
\<close>

theorem load_state_keeps_ngram_state:
  assumes "rt_wf st" "rt_hp st' = rt_hp st" "rt_n_ctx st' = rt_n_ctx st" "list_all2 same_shape (rt_layers st) (rt_layers st')"
  shows "\<exists>a st2. save_state st = Inr a \<and> load_state msg a st' = (Inr [], st2) \<and> rt_kv_toks st2 = rt_kv_toks st \<and>
     rt_ngram_hist st2 = rt_ngram_hist st' \<and> map outside_stream (rt_layers st2) = map outside_stream (rt_layers st')"
proof -
  obtain a st2 where a: "save_state st = Inr a" "load_state msg (a @ []) st' = (Inr [], st2)" "saved_view st2 = saved_view st"
    "list_all2 rewritten (rt_layers st') (rt_layers st2)" "rt_ngram_hist st2 = rt_ngram_hist st'"
    using load_save[OF assms, of msg "[]"] by metis
  show ?thesis using a rewritten_outside[OF a(4)] by (auto simp: saved_view_def)
qed

theorem load_state_keeps_ngram_state_witness:
  "\<exists>a st2. save_state two_token_state = Inr a \<and>
     load_state ''short blob'' a ((init_rt tiny_hp 4 DISK)\<lparr>rt_ngram_hist := [3, 4]\<rparr>) = (Inr [], st2) \<and>
     rt_kv_toks st2 = [7, -1] \<and> rt_ngram_hist st2 = [3, 4] \<and>
     map outside_stream (rt_layers st2) = map outside_stream (rt_layers (init_rt tiny_hp 4 DISK))"
proof -
  have t: "rt_kv_toks two_token_state = [7, -1]" by (simp add: two_token_state_def Let_def)
  show ?thesis
    using load_state_keeps_ngram_state[OF two_token_wf(1), of "(init_rt tiny_hp 4 DISK)\<lparr>rt_ngram_hist := [3, 4]\<rparr>" "''short blob''"]
      two_token_wf(2-4) by (simp add: t)
qed

definition mtp_only_hp :: hparams where
  "mtp_only_hp = tiny_hp\<lparr>hp_n_layer := 1, hp_has_gdn := False\<rparr>"

definition overrun_stream :: "byte list" where
  "overrun_stream = bytes_of [STATE_MAGIC, 1, 1, 1, 0, 2, 0, 0, 0] @ bytes_of []  @ bytes_of [] @ [1, 2, 3, 4]"

text \<open>
  The header check does not bound the draft-block rows by the context size: a slot file with one row too many
  makes \<open>load_state\<close> write past the end of a tensor instead of reporting a corrupt slot.
\<close>

theorem load_state_overrun:
  "fst (load_state ''short read'' overrun_stream (init_rt mtp_only_hp 1 DISK)) = Inl Undefined_behaviour"
proof -
  let ?st = "init_rt mtp_only_hp 1 DISK"
  let ?hb = "bytes_of [STATE_MAGIC, 1, 1, 1, 0, 2, 0, 0, 0]"
  have l: "length ?hb = 36" by simp
  have s1: "src ''short read'' SIZEOF_HEADER overrun_stream = Inr (?hb, [1, 2, 3, 4])"
    by (simp add: src_def overrun_stream_def SIZEOF_HEADER_def)
  have p: "parse_header ?hb = \<lparr>sh_magic = STATE_MAGIC, sh_n_layer = 1, sh_n_ctx = 1, sh_n_embd_gqa = 1, sh_n_past = 0,
      sh_mtp_past = 2, sh_n_toks = 0, sh_n_hidden = 0, sh_mrope_next = 0\<rparr>"
    unfolding parse_header_def words_of_bytes_of Let_def by (simp add: eval_nat_numeral)
  have g: "n_embd_gqa mtp_only_hp = 1" by (simp add: n_embd_gqa_def mtp_only_hp_def tiny_hp_def)
  have hp: "rt_hp ?st = mtp_only_hp" by (simp add: init_rt_def)
  have hok: "header_ok ?st (parse_header ?hb)"
    unfolding p by (simp add: header_ok_def init_rt_def g) (simp add: mtp_only_hp_def)
  have r: "rows_at mtp_only_hp 2 0 0 = 2" by (simp add: rows_at_def n_main_def mtp_only_hp_def tiny_hp_def)
  have k: "alloc_layer mtp_only_hp 1 DISK 0 = no_state\<lparr>k_cache := Some (new_tensor 2 1 1), v_cache := Some (new_tensor 2 1 1)\<rparr>"
    by (simp add: alloc_layer_def is_recurrent_def mtp_only_hp_def tiny_hp_def head_count_kv_def has_qsa_def use_ple_def has_ple_def no_state_def)
  have n1: "hp_n_layer mtp_only_hp = 1" by (simp add: mtp_only_hp_def)
  define L where "L = no_state\<lparr>k_cache := Some (new_tensor 2 1 1), v_cache := Some (new_tensor 2 1 1)\<rparr>"
  have ls: "rt_layers ?st = [L]" by (simp add: init_rt_def n1 k[simplified] L_def)
  have fL: "fill_layer ''short read'' 2 L [1, 2, 3, 4] = (Inl Undefined_behaviour, L)"
    by (simp add: L_def fill_layer_def stride_def fill_def src_def new_tensor_def no_state_def nbytes_def)
  have f: "fill_layers ''short read'' (rows_at mtp_only_hp 2 0) 0 (rt_layers ?st) [1, 2, 3, 4] =
      (Inl Undefined_behaviour, rt_layers ?st)"
    unfolding ls by (simp add: r fL)
  show ?thesis
  proof -
    have src0: "src msg 0 bs = Inr ([], bs)" for msg bs by (simp add: src_def)
    have n: "nat (sh_n_toks (parse_header ?hb)) * 4 = 0" "nat (sh_n_hidden (parse_header ?hb)) * 4 = 0"
      "nat (sh_mtp_past (parse_header ?hb)) = 2" "nat (sh_n_past (parse_header ?hb)) = 0"
      unfolding p by simp_all
    show ?thesis
      unfolding load_state_def s1 by (simp only: sum.case prod.case Let_def hok not_True_eq_False if_False n src0 hp f fst_conv)
  qed
qed

end
