(* ===== verification/Prompt_Ckpt.thy ===== *)
theory Prompt_Ckpt
  imports Runtime_State
begin

section \<open>Prompt checkpoints and rewinding\<close>

text \<open>
  \<open>pk_snapshot\<close>, \<open>pk_best\<close> and \<open>pk_rewind\<close> of \<open>core/runtime.cpp\<close>: key and value rows survive a rewind in
  place, the recurrent state does not, so it is kept in host snapshots at a bounded number of prompt
  positions.

  The network is a parameter \<open>net\<close>: what a forward leaves in a key/value row, in the recurrent tensors and in the
  hidden state, as functions of the items it has absorbed. An item is whatever fills one cell of the cache: a token,
  or one embedding of an image; its type is left open. \<open>faithful N st h\<close> says that the state \<open>st\<close> is what
  a network \<open>N\<close> leaves after exactly the items \<open>h\<close>, for a model without index and n-gram module: the state
  those keep is in neither a checkpoint nor the byte stream, and no claim about exact states covers it. \<open>rt_kv_toks\<close> holds one token per
  item (a placeholder for an image embedding); \<open>draft_ok\<close> is the same for the multi-token-prediction block,
  if it is tracked (\<open>nf_drafts\<close>: plain decoding leaves the block behind).
  The limit on the number of checkpoints (the environment variable \<open>QWEN_PROMPT_CKPTS\<close>) is a parameter.
\<close>

subsection \<open>The operations\<close>

definition layer_blob :: "layer_state \<Rightarrow> byte list" where
  "layer_blob l = (case conv_state l of
     None \<Rightarrow> []
   | Some c \<Rightarrow> te_data c @ (case ssm_state l of None \<Rightarrow> [] | Some s \<Rightarrow> te_data s))"

fun pk_insert :: "prompt_ckpt \<Rightarrow> prompt_ckpt list \<Rightarrow> prompt_ckpt list" where
  "pk_insert c [] = [c]"
| "pk_insert c (a # as) =
     (if pc_pos a < pc_pos c then a # pk_insert c as else if pc_pos a = pc_pos c then c # as else c # a # as)"

text \<open>The checkpoint to evict, scanning all but the newest, from the gap of the first one to position 0.\<close>

definition pk_worst :: "prompt_ckpt list \<Rightarrow> nat" where
  "pk_worst pk = fst (fold (\<lambda>i (worst, wgap).
       let gap = int (pc_pos (pk ! i)) - int (pc_pos (pk ! (i - 1))) in
       if gap < wgap then (i, gap) else (worst, wgap)) [1..<length pk - 1] (0, int (pc_pos (pk ! 0))))"

lemma pk_worst_less: "2 \<le> length pk \<Longrightarrow> pk_worst pk < length pk - 1"
proof -
  assume l: "2 \<le> length pk"
  have "fst (fold (\<lambda>i (worst, wgap).
       let gap = int (pc_pos (pk ! i)) - int (pc_pos (pk ! (i - 1))) in
       if gap < wgap then (i, gap) else (worst, wgap)) is s) < n" if "\<forall>i \<in> set is. i < n" "fst s < n" for "is" s n
    using that by (induction "is" arbitrary: s) (auto simp: Let_def split: prod.splits)
  from this[of "[1..<length pk - 1]" "length pk - 1" "(0, int (pc_pos (pk ! 0)))"] l show ?thesis
    by (simp add: pk_worst_def)
qed

lemma pk_worst_short: "length pk < 2 \<Longrightarrow> pk_worst pk = 0"
  by (simp add: pk_worst_def)

function pk_evict :: "nat \<Rightarrow> prompt_ckpt list \<Rightarrow> prompt_ckpt list" where
  "pk_evict m pk = (if m < length pk then let w = pk_worst pk in pk_evict m (take w pk @ drop (w + 1) pk) else pk)"
  by pat_completeness auto
termination
proof (relation "measure (length \<circ> snd)")
  fix m and pk :: "prompt_ckpt list" and w
  assume "m < length pk" "w = pk_worst pk"
  then have "w < length pk" using pk_worst_less[of pk] pk_worst_short[of pk] by (cases "2 \<le> length pk") auto
  then show "((m, take w pk @ drop (w + 1) pk), m, pk) \<in> measure (length \<circ> snd)" by simp
qed simp

declare pk_evict.simps [simp del]

definition take_ckpt :: "rt \<Rightarrow> prompt_ckpt" where
  "take_ckpt st = \<lparr>pc_pos = rt_n_past st, pc_mtp_past = rt_mtp_past st, pc_mrope = rt_mrope_next st, pc_hidden = rt_mtp_hidden st,
     pc_blob = concat (map layer_blob (rt_layers st))\<rparr>"

definition pk_snapshot :: "nat \<Rightarrow> rt \<Rightarrow> rt" where
  "pk_snapshot pk_max st =
     (if \<not> has_recurrent (rt_hp st) \<or> pk_max = 0 then st
      else if rt_n_past st = 0 then st
      else if rt_pk st \<noteq> [] \<and> pc_pos (last (rt_pk st)) = rt_n_past st then st
      else st\<lparr>rt_pk := pk_evict pk_max (pk_insert (take_ckpt st) (rt_pk st))\<rparr>)"

text \<open>The loops of \<open>pk_best\<close> and \<open>pk_rewind\<close>: the last checkpoint before the first one past \<open>n\<close>.\<close>

fun last_upto :: "nat \<Rightarrow> prompt_ckpt list \<Rightarrow> nat \<Rightarrow> int" where
  "last_upto n [] i = -1"
| "last_upto n (c # cs) i =
     (if n < pc_pos c then -1 else let r = last_upto n cs (i + 1) in if r = -1 then int i else r)"

definition pk_best :: "int \<Rightarrow> rt \<Rightarrow> int" where
  "pk_best n st =
     (if n \<le> 0 then -1
      else if \<not> has_recurrent (rt_hp st) then
        (if rt_mrope_next st = int (rt_n_past st) then min n (int (rt_n_past st)) else -1)
      else let bi = last_upto (nat n) (rt_pk st) 0 in if bi < 0 then -1 else int (pc_pos (rt_pk st ! nat bi)))"

definition set_part :: "tensor \<Rightarrow> byte list \<Rightarrow> exn + tensor \<times> byte list" where
  "set_part t blob = (if nbytes t \<le> length blob then Inr (t\<lparr>te_data := take (nbytes t) blob\<rparr>, drop (nbytes t) blob) else Inl Undefined_behaviour)"

definition restore_layer :: "layer_state \<Rightarrow> byte list \<Rightarrow> exn + layer_state \<times> byte list" where
  "restore_layer l blob =
     (case conv_state l of
        None \<Rightarrow> Inr (l, blob)
      | Some c \<Rightarrow>
          (case set_part c blob of
             Inl e \<Rightarrow> Inl e
           | Inr (c', b1) \<Rightarrow>
               (case ssm_state l of
                  None \<Rightarrow> Inr (l\<lparr>conv_state := Some c'\<rparr>, b1)
                | Some s \<Rightarrow>
                    (case set_part s b1 of
                       Inl e \<Rightarrow> Inl e
                     | Inr (s', b2) \<Rightarrow> Inr (l\<lparr>conv_state := Some c', ssm_state := Some s'\<rparr>, b2)))))"

fun restore_layers :: "layer_state list \<Rightarrow> byte list \<Rightarrow> exn + layer_state list" where
  "restore_layers [] blob = Inr []"
| "restore_layers (l # ls) blob =
     (case restore_layer l blob of
        Inl e \<Rightarrow> Inl e
      | Inr (l', b) \<Rightarrow> (case restore_layers ls b of Inl e \<Rightarrow> Inl e | Inr ls' \<Rightarrow> Inr (l' # ls')))"

definition resize :: "nat \<Rightarrow> int list \<Rightarrow> int list" where
  "resize n xs = take n xs @ replicate (n - length xs) 0"

definition pk_rewind :: "nat \<Rightarrow> rt \<Rightarrow> (exn + int) \<times> rt" where
  "pk_rewind n st =
     (if length (rt_kv_toks st) \<le> n then (Inr (int (length (rt_kv_toks st))), st)
      else if \<not> has_recurrent (rt_hp st) then
        (if rt_mrope_next st \<noteq> int (rt_n_past st) then (Inr (-1), st)
         else (Inr (int n), st\<lparr>rt_n_past := n, rt_mrope_next := int n,
                 rt_mtp_past := (if n < rt_mtp_past st then n else rt_mtp_past st), rt_kv_toks := resize n (rt_kv_toks st)\<rparr>))
      else let bi = last_upto n (rt_pk st) 0 in
        if bi < 0 then (Inr (-1), st)
        else let c = rt_pk st ! nat bi in
          (case restore_layers (rt_layers st) (pc_blob c) of
             Inl e \<Rightarrow> (Inl e, st)
           | Inr ls \<Rightarrow> (Inr (int (pc_pos c)),
               st\<lparr>rt_layers := ls, rt_n_past := pc_pos c, rt_mtp_past := pc_mtp_past c, rt_mrope_next := pc_mrope c,
                  rt_mtp_hidden := pc_hidden c, rt_kv_toks := resize (pc_pos c) (rt_kv_toks st),
                  rt_pk := take (nat bi + 1) (rt_pk st)\<rparr>)))"

subsection \<open>What a state stands for\<close>

record 'x net =
  nf_row :: "nat \<Rightarrow> 'x list \<Rightarrow> byte list \<times> byte list"
  nf_draft_row :: "nat \<Rightarrow> 'x list \<Rightarrow> byte list \<times> byte list"
  nf_rec :: "nat \<Rightarrow> 'x list \<Rightarrow> byte list \<times> byte list"
  nf_hid :: "'x list \<Rightarrow> 32 word list"
  nf_pos :: "'x list \<Rightarrow> int"
  nf_drafts :: bool

definition row_of :: "tensor \<Rightarrow> nat \<Rightarrow> byte list" where
  "row_of t i = take (te_nb1 t) (drop (i * te_nb1 t) (te_data t))"

definition rows_hold :: "nat \<Rightarrow> (nat \<Rightarrow> byte list \<times> byte list) \<Rightarrow> layer_state \<Rightarrow> bool" where
  "rows_hold n F l \<longleftrightarrow> (\<forall>k v. k_cache l = Some k \<longrightarrow> v_cache l = Some v \<longrightarrow> (\<forall>i < n. (row_of k i, row_of v i) = F i))"

definition rec_holds :: "byte list \<times> byte list \<Rightarrow> layer_state \<Rightarrow> bool" where
  "rec_holds b l \<longleftrightarrow> (\<forall>c. conv_state l = Some c \<longrightarrow> te_data c = fst b) \<and> (\<forall>s. ssm_state l = Some s \<longrightarrow> te_data s = snd b)"

definition faithful :: "'x net \<Rightarrow> rt \<Rightarrow> 'x list \<Rightarrow> bool" where
  "faithful N st h \<longleftrightarrow> no_side_state (rt_hp st) \<and> rt_wf st \<and> rt_n_past st = length h \<and> 0 \<le> rt_mrope_next st \<and> rt_mrope_next st \<le> int (rt_n_past st) \<and>
     (hp_use_mrope (rt_hp st) \<longrightarrow> rt_mrope_next st = nf_pos N h) \<and>
     (\<forall>il < n_main (rt_hp st). il < length (rt_layers st) \<longrightarrow>
        rows_hold (length h) (\<lambda>i. nf_row N il (take (i + 1) h)) (rt_layers st ! il)) \<and>
     (\<forall>il < length (rt_layers st). rec_holds (nf_rec N il h) (rt_layers st ! il))"

definition draft_ok :: "'x net \<Rightarrow> rt \<Rightarrow> 'x list \<Rightarrow> bool" where
  "draft_ok N st h \<longleftrightarrow> (nf_drafts N \<longrightarrow> rt_mtp_past st \<le> length h - 1 \<and> (h \<noteq> [] \<longrightarrow> rt_mtp_hidden st = nf_hid N h) \<and>
     (\<forall>il. n_main (rt_hp st) \<le> il \<longrightarrow> il < length (rt_layers st) \<longrightarrow>
        rows_hold (rt_mtp_past st) (\<lambda>i. nf_draft_row N il (take (i + 2) h)) (rt_layers st ! il)))"

text \<open>
  The network's recurrent states have the sizes of the tensors and exist only in recurrent models; its hidden
  state fits a vector. Positions grow by at most one per item (an image may take fewer positions than cells), so that
  as many positions as items means one position per item; that is what rewinding an attention-only model uses.
\<close>

definition layer_fits :: "'x net \<Rightarrow> nat \<Rightarrow> layer_state \<Rightarrow> bool" where
  "layer_fits N il l \<longleftrightarrow> (conv_state l = None \<longrightarrow> ssm_state l = None) \<and> (k_cache l \<noteq> None \<longrightarrow> conv_state l = None) \<and>
     (\<forall>h. (\<forall>c. conv_state l = Some c \<longrightarrow> length (fst (nf_rec N il h)) = nbytes c) \<and>
          (\<forall>s. ssm_state l = Some s \<longrightarrow> length (snd (nf_rec N il h)) = nbytes s))"

definition net_fits :: "'x net \<Rightarrow> rt \<Rightarrow> bool" where
  "net_fits N st \<longleftrightarrow> (\<forall>il < length (rt_layers st). layer_fits N il (rt_layers st ! il)) \<and> (\<forall>h. length (nf_hid N h) < 2 ^ 31) \<and>
     (\<not> has_recurrent (rt_hp st) \<longrightarrow> (\<forall>l \<in> set (rt_layers st). conv_state l = None)) \<and>
     (\<not> has_recurrent (rt_hp st) \<longrightarrow> hp_use_mrope (rt_hp st) \<longrightarrow>
        (\<forall>h. nf_pos N h = int (length h) \<longrightarrow> (\<forall>n \<le> length h. nf_pos N (take n h) = int n)))"

fun rec_blob :: "'x net \<Rightarrow> 'x list \<Rightarrow> nat \<Rightarrow> layer_state list \<Rightarrow> byte list" where
  "rec_blob N h il [] = []"
| "rec_blob N h il (l # ls) =
     (if conv_state l = None then [] else fst (nf_rec N il h) @ (if ssm_state l = None then [] else snd (nf_rec N il h))) @
     rec_blob N h (il + 1) ls"

definition ckpt_ok :: "'x net \<Rightarrow> rt \<Rightarrow> 'x list \<Rightarrow> prompt_ckpt \<Rightarrow> bool" where
  "ckpt_ok N st h c \<longleftrightarrow> 0 < pc_pos c \<and> pc_pos c \<le> length h \<and> pc_blob c = rec_blob N (take (pc_pos c) h) 0 (rt_layers st) \<and>
     0 \<le> pc_mrope c \<and> pc_mrope c \<le> int (pc_pos c) \<and>
     (hp_use_mrope (rt_hp st) \<longrightarrow> pc_mrope c = nf_pos N (take (pc_pos c) h)) \<and>
     length (pc_hidden c) < 2 ^ 31 \<and> pc_mtp_past c \<le> rt_n_ctx st \<and>
     (nf_drafts N \<longrightarrow> pc_hidden c = nf_hid N (take (pc_pos c) h) \<and> pc_mtp_past c \<le> pc_pos c - 1 \<and> pc_mtp_past c \<le> rt_mtp_past st)"

definition ckpt_less :: "'x net \<Rightarrow> prompt_ckpt \<Rightarrow> prompt_ckpt \<Rightarrow> bool" where
  "ckpt_less N a b \<longleftrightarrow> pc_pos a < pc_pos b \<and> (nf_drafts N \<longrightarrow> pc_mtp_past a \<le> pc_mtp_past b)"

definition pk_ok :: "'x net \<Rightarrow> rt \<Rightarrow> 'x list \<Rightarrow> bool" where
  "pk_ok N st h \<longleftrightarrow> sorted_wrt (ckpt_less N) (rt_pk st) \<and> (\<forall>c \<in> set (rt_pk st). ckpt_ok N st h c)"

subsection \<open>Taking and evicting\<close>

lemma pk_insert_last: "\<forall>a \<in> set pk. pc_pos a < pc_pos c \<Longrightarrow> pk_insert c pk = pk @ [c]"
  by (induction pk) auto

lemma pk_evict_ok:
  assumes "0 < m" "sorted_wrt R pk"
  shows "set (pk_evict m pk) \<subseteq> set pk \<and> sorted_wrt R (pk_evict m pk) \<and> length (pk_evict m pk) \<le> m \<and>
    (pk \<noteq> [] \<longrightarrow> pk_evict m pk \<noteq> [] \<and> last (pk_evict m pk) = last pk)"
  using assms
proof (induction m pk rule: pk_evict.induct)
  case (1 m pk)
  show ?case
  proof (cases "m < length pk")
    case True
    define w where "w = pk_worst pk"
    define pk' where "pk' = take w pk @ drop (w + 1) pk"
    have w: "w < length pk - 1" using pk_worst_less[of pk] True 1(2) by (simp add: w_def)
    have d: "drop (w + 1) pk \<noteq> []" using w by simp
    have srt: "sorted_wrt R pk'"
    proof -
      have "pk = take w pk @ pk ! w # drop (w + 1) pk" using w by (simp add: id_take_nth_drop[symmetric])
      then have "sorted_wrt R (take w pk @ pk ! w # drop (w + 1) pk)" using 1(3) by simp
      then show ?thesis unfolding pk'_def by (auto simp: sorted_wrt_append)
    qed
    have "set pk' \<subseteq> set pk" by (auto simp: pk'_def dest: in_set_takeD in_set_dropD)
    moreover have "pk' \<noteq> []" "last pk' = last pk" using d w by (simp_all add: pk'_def last_append)
    moreover have "pk_evict m pk = pk_evict m pk'" using True by (subst pk_evict.simps) (simp add: w_def pk'_def Let_def)
    ultimately show ?thesis using 1(1)[OF True w_def] 1(2) srt unfolding pk'_def[symmetric] by (auto simp: True)
  next
    case False
    then show ?thesis using 1(3) by (subst (1 2 3 4 5) pk_evict.simps) simp
  qed
qed

lemma rec_blob_eq:
  assumes "\<forall>i < length ls. rec_holds (nf_rec N (il + i) h) (ls ! i)"
  shows "concat (map layer_blob ls) = rec_blob N h il ls"
  using assms
proof (induction ls arbitrary: il)
  case (Cons l ls)
  have "\<forall>i < length ls. rec_holds (nf_rec N (il + 1 + i) h) (ls ! i)" using Cons.prems by (metis Suc_less_eq add_Suc_right add_Suc_shift length_Cons nth_Cons_Suc plus_1_eq_Suc add.assoc)
  moreover have "rec_holds (nf_rec N il h) l" using Cons.prems by force
  ultimately show ?case using Cons.IH[of "il + 1"] by (auto simp: layer_blob_def rec_holds_def split: option.splits)
qed simp

subsection \<open>Finding and restoring\<close>

lemma last_upto_cases:
  "last_upto n cs i = -1 \<and> (cs = [] \<or> n < pc_pos (hd cs)) \<or>
   (\<exists>j < length cs. last_upto n cs i = int (i + j) \<and> (\<forall>k \<le> j. pc_pos (cs ! k) \<le> n) \<and>
      (j + 1 < length cs \<longrightarrow> n < pc_pos (cs ! (j + 1))))"
proof (induction n cs i rule: last_upto.induct)
  case (2 n c cs i)
  show ?case
  proof (cases "n < pc_pos c")
    case False
    from 2[OF False] show ?thesis
    proof
      assume l: "last_upto n cs (i + 1) = -1 \<and> (cs = [] \<or> n < pc_pos (hd cs))"
      then have "0 < length (c # cs) \<and> last_upto n (c # cs) i = int (i + 0) \<and> (\<forall>k \<le> 0. pc_pos ((c # cs) ! k) \<le> n) \<and>
          (0 + 1 < length (c # cs) \<longrightarrow> n < pc_pos ((c # cs) ! (0 + 1)))"
        using False by (cases cs) (auto simp: Let_def)
      then show ?thesis by blast
    next
      assume "\<exists>j < length cs. last_upto n cs (i + 1) = int (i + 1 + j) \<and> (\<forall>k \<le> j. pc_pos (cs ! k) \<le> n) \<and>
          (j + 1 < length cs \<longrightarrow> n < pc_pos (cs ! (j + 1)))"
      then obtain j where j: "j < length cs" "last_upto n cs (i + 1) = int (i + 1 + j)" "\<forall>k \<le> j. pc_pos (cs ! k) \<le> n"
        "j + 1 < length cs \<longrightarrow> n < pc_pos (cs ! (j + 1))" by blast
      have "\<forall>k \<le> Suc j. pc_pos ((c # cs) ! k) \<le> n" using j(3) False by (auto simp: nth_Cons split: nat.splits)
      then have "Suc j < length (c # cs) \<and> last_upto n (c # cs) i = int (i + Suc j) \<and> (\<forall>k \<le> Suc j. pc_pos ((c # cs) ! k) \<le> n) \<and>
          (Suc j + 1 < length (c # cs) \<longrightarrow> n < pc_pos ((c # cs) ! (Suc j + 1)))"
        using j False by (simp add: Let_def)
      then show ?thesis by blast
    qed
  qed simp
qed simp

lemma set_part_append: "length a = nbytes t \<Longrightarrow> set_part t (a @ b) = Inr (t\<lparr>te_data := a\<rparr>, b)"
  by (simp add: set_part_def)

lemma restore_layer_ok:
  assumes "layer_fits N il l"
  shows "\<exists>l'. restore_layer l (rec_blob N h il [l] @ b) = Inr (l', b) \<and> same_shape l l' \<and> rec_holds (nf_rec N il h) l' \<and>
    k_cache l' = k_cache l \<and> v_cache l' = v_cache l"
proof (cases "conv_state l")
  case None
  then show ?thesis using assms by (auto simp: restore_layer_def layer_fits_def same_shape_def rec_holds_def)
next
  case (Some c)
  then have c: "length (fst (nf_rec N il h)) = nbytes c" using assms by (simp add: layer_fits_def)
  show ?thesis
  proof (cases "ssm_state l")
    case s: None
    then show ?thesis using Some c
      by (auto simp: restore_layer_def same_shape_def rec_holds_def set_part_append shape_def nbytes_def)
  next
    case s: (Some u)
    then have u: "length (snd (nf_rec N il h)) = nbytes u" using assms by (simp add: layer_fits_def)
    then show ?thesis using Some s c
      by (auto simp: restore_layer_def same_shape_def rec_holds_def set_part_append shape_def nbytes_def)
  qed
qed

lemma restore_layers_ok:
  assumes "\<forall>i < length ls. layer_fits N (il + i) (ls ! i)"
  shows "\<exists>ls'. restore_layers ls (rec_blob N h il ls) = Inr ls' \<and> list_all2 same_shape ls ls' \<and>
    (\<forall>i < length ls. rec_holds (nf_rec N (il + i) h) (ls' ! i) \<and> k_cache (ls' ! i) = k_cache (ls ! i) \<and> v_cache (ls' ! i) = v_cache (ls ! i))"
  using assms
proof (induction ls arbitrary: il)
  case (Cons l ls)
  have l: "layer_fits N il l" using Cons.prems by force
  have "layer_fits N (il + 1 + i) (ls ! i)" if "i < length ls" for i
    using Cons.prems[rule_format, of "Suc i"] that by simp
  from Cons.IH[of "il + 1"] this obtain ls' where ls': "restore_layers ls (rec_blob N h (il + 1) ls) = Inr ls'" "list_all2 same_shape ls ls'"
    "\<forall>i < length ls. rec_holds (nf_rec N (il + 1 + i) h) (ls' ! i) \<and> k_cache (ls' ! i) = k_cache (ls ! i) \<and> v_cache (ls' ! i) = v_cache (ls ! i)"
    by blast
  obtain l' where l': "restore_layer l (rec_blob N h il [l] @ rec_blob N h (il + 1) ls) = Inr (l', rec_blob N h (il + 1) ls)" "same_shape l l'"
    "rec_holds (nf_rec N il h) l'" "k_cache l' = k_cache l" "v_cache l' = v_cache l"
    using restore_layer_ok[OF l, of h "rec_blob N h (il + 1) ls"] by blast
  have e: "rec_blob N h il (l # ls) = rec_blob N h il [l] @ rec_blob N h (il + 1) ls" by simp
  have "restore_layers (l # ls) (rec_blob N h il (l # ls)) = Inr (l' # ls')"
    unfolding e by (simp only: restore_layers.simps l'(1) ls'(1) sum.case prod.case)
  moreover have "\<forall>i < length (l # ls). rec_holds (nf_rec N (il + i) h) ((l' # ls') ! i) \<and>
      k_cache ((l' # ls') ! i) = k_cache ((l # ls) ! i) \<and> v_cache ((l' # ls') ! i) = v_cache ((l # ls) ! i)"
    using ls'(3) l'(3-5) by (auto simp: nth_Cons split: nat.splits)
  ultimately show ?case using ls'(2) l'(2) by (intro exI[of _ "l' # ls'"]) simp
qed simp

lemma layer_ok_shape: "layer_ok n l \<Longrightarrow> same_shape l l' \<Longrightarrow> layer_ok n l'"
  using shape_eq[of "k_cache l'" "k_cache l"] shape_eq[of "conv_state l'" "conv_state l"]
  by (auto simp: layer_ok_def same_shape_def)

lemma layers_ok_shape:
  "list_all2 same_shape ls ls' \<Longrightarrow> \<forall>l \<in> set ls. layer_ok n l \<Longrightarrow> \<forall>l \<in> set ls'. layer_ok n l"
  by (induction rule: list_all2_induct) (auto intro: layer_ok_shape)

subsection \<open>The snapshot\<close>

lemma faithful_rec: "faithful N st h \<Longrightarrow> \<forall>i < length (rt_layers st). rec_holds (nf_rec N (0 + i) h) (rt_layers st ! i)"
  by (simp add: faithful_def)

lemma pk_snapshot_frame [frame_simps]:
  "rt_hp (pk_snapshot m st) = rt_hp st" "rt_layers (pk_snapshot m st) = rt_layers st" "rt_n_past (pk_snapshot m st) = rt_n_past st"
  "rt_mtp_past (pk_snapshot m st) = rt_mtp_past st" "rt_kv_toks (pk_snapshot m st) = rt_kv_toks st" "rt_n_ctx (pk_snapshot m st) = rt_n_ctx st"
  "rt_mrope_next (pk_snapshot m st) = rt_mrope_next st" "rt_mtp_hidden (pk_snapshot m st) = rt_mtp_hidden st"
  by (simp_all add: pk_snapshot_def)

lemma take_ckpt_ok:
  assumes "faithful N st h" "draft_ok N st h" "h \<noteq> []"
  shows "ckpt_ok N st h (take_ckpt st)"
proof -
  have p: "rt_n_past st = length h" and w: "rt_wf st" using assms(1) by (simp_all add: faithful_def)
  have "concat (map layer_blob (rt_layers st)) = rec_blob N h 0 (rt_layers st)" by (rule rec_blob_eq[OF faithful_rec[OF assms(1)]])
  then show ?thesis using assms p w by (auto simp: ckpt_ok_def take_ckpt_def draft_ok_def faithful_def rt_wf_def)
qed

lemma pk_snapshot_pk:
  assumes "faithful N st h" "draft_ok N st h" "pk_ok N st h"
  shows "pk_ok N (pk_snapshot m st) h" "length (rt_pk st) \<le> m \<Longrightarrow> length (rt_pk (pk_snapshot m st)) \<le> m"
    "has_recurrent (rt_hp st) \<Longrightarrow> 0 < m \<Longrightarrow> h \<noteq> [] \<Longrightarrow> rt_pk (pk_snapshot m st) \<noteq> [] \<and> pc_pos (last (rt_pk (pk_snapshot m st))) = length h"
proof -
  let ?s = "pk_snapshot m st"
  have p: "rt_n_past st = length h" using assms(1) by (simp add: faithful_def)
  have le: "\<forall>c \<in> set (rt_pk st). pc_pos c \<le> length h" using assms(3) by (simp add: pk_ok_def ckpt_ok_def)
  have srt: "sorted_wrt (ckpt_less N) (rt_pk st)" using assms(3) by (simp add: pk_ok_def)
  have "pk_ok N ?s h \<and> (length (rt_pk st) \<le> m \<longrightarrow> length (rt_pk ?s) \<le> m) \<and>
    (has_recurrent (rt_hp st) \<longrightarrow> 0 < m \<longrightarrow> h \<noteq> [] \<longrightarrow> rt_pk ?s \<noteq> [] \<and> pc_pos (last (rt_pk ?s)) = length h)"
  proof (cases "\<not> has_recurrent (rt_hp st) \<or> m = 0 \<or> h = [] \<or> rt_pk st \<noteq> [] \<and> pc_pos (last (rt_pk st)) = length h")
    case True
    then have "?s = st" using p by (auto simp: pk_snapshot_def)
    then show ?thesis using True assms(3) by auto
  next
    case False
    have lt: "\<forall>a \<in> set (rt_pk st). pc_pos a < pc_pos (take_ckpt st)"
    proof
      fix a assume a: "a \<in> set (rt_pk st)"
      then have ne: "rt_pk st \<noteq> []" by auto
      then have e: "rt_pk st = butlast (rt_pk st) @ [last (rt_pk st)]" by simp
      have "pc_pos (last (rt_pk st)) < length h" using le False ne last_in_set[OF ne] by (metis le_neq_implies_less)
      moreover have "pc_pos a \<le> pc_pos (last (rt_pk st))"
      proof -
        have "sorted_wrt (ckpt_less N) (butlast (rt_pk st) @ [last (rt_pk st)])" using srt e by metis
        moreover have "a \<in> set (butlast (rt_pk st)) \<or> a = last (rt_pk st)" using a e by (metis in_set_conv_decomp set_ConsD rotate1.simps(2) set_rotate1)
        ultimately show ?thesis by (auto simp: sorted_wrt_append ckpt_less_def)
      qed
      ultimately show "pc_pos a < pc_pos (take_ckpt st)" using p by (simp add: take_ckpt_def)
    qed
    let ?pk = "rt_pk st @ [take_ckpt st]"
    have s: "?s = st\<lparr>rt_pk := pk_evict m ?pk\<rparr>" using False p by (auto simp: pk_snapshot_def pk_insert_last[OF lt])
    have "nf_drafts N \<Longrightarrow> \<forall>a \<in> set (rt_pk st). pc_mtp_past a \<le> rt_mtp_past st" using assms(3) by (simp add: pk_ok_def ckpt_ok_def)
    then have "sorted_wrt (ckpt_less N) ?pk" using srt lt by (auto simp: sorted_wrt_append ckpt_less_def take_ckpt_def)
    from pk_evict_ok[OF _ this, of m] False
    have ev: "set (pk_evict m ?pk) \<subseteq> set ?pk" "sorted_wrt (ckpt_less N) (pk_evict m ?pk)" "length (pk_evict m ?pk) \<le> m"
      "pk_evict m ?pk \<noteq> []" "last (pk_evict m ?pk) = take_ckpt st" by auto
    have "\<forall>c \<in> set ?pk. ckpt_ok N st h c" using take_ckpt_ok[OF assms(1,2)] False assms(3) by (auto simp: pk_ok_def)
    moreover have "ckpt_ok N (st\<lparr>rt_pk := x\<rparr>) h c = ckpt_ok N st h c" for x c by (simp add: ckpt_ok_def)
    ultimately show ?thesis using ev p by (auto simp: s pk_ok_def take_ckpt_def)
  qed
  then show "pk_ok N ?s h" "length (rt_pk st) \<le> m \<Longrightarrow> length (rt_pk ?s) \<le> m"
    "has_recurrent (rt_hp st) \<Longrightarrow> 0 < m \<Longrightarrow> h \<noteq> [] \<Longrightarrow> rt_pk ?s \<noteq> [] \<and> pc_pos (last (rt_pk ?s)) = length h" by blast+
qed

subsection \<open>The rewind\<close>

lemma resize_short: "n \<le> length xs \<Longrightarrow> resize n xs = take n xs"
  by (simp add: resize_def)

lemma rows_hold_mono:
  assumes "rows_hold n F l" "m \<le> n" "\<And>i. i < m \<Longrightarrow> G i = F i" "k_cache l' = k_cache l" "v_cache l' = v_cache l"
  shows "rows_hold m G l'"
  using assms by (auto simp: rows_hold_def)

lemma main_rows_prefix:
  assumes "faithful N st h" "p \<le> length h" "il < n_main (rt_hp st)" "il < length (rt_layers st)" "k_cache l' = k_cache (rt_layers st ! il)" "v_cache l' = v_cache (rt_layers st ! il)"
  shows "rows_hold p (\<lambda>i. nf_row N il (take (i + 1) (take p h))) l'"
proof (rule rows_hold_mono[OF _ assms(2) _ assms(5,6)])
  show "rows_hold (length h) (\<lambda>i. nf_row N il (take (i + 1) h)) (rt_layers st ! il)" using assms(1,3,4) by (simp add: faithful_def)
qed (simp add: min_def)

lemma draft_rows_prefix:
  assumes "draft_ok N st h" "m \<le> rt_mtp_past st" "m \<le> p - 1" "n_main (rt_hp st) \<le> il" "il < length (rt_layers st)"
    "k_cache l' = k_cache (rt_layers st ! il)" "v_cache l' = v_cache (rt_layers st ! il)" "nf_drafts N"
  shows "rows_hold m (\<lambda>i. nf_draft_row N il (take (i + 2) (take p h))) l'"
proof (rule rows_hold_mono[OF _ assms(2) _ assms(6,7)])
  show "rows_hold (rt_mtp_past st) (\<lambda>i. nf_draft_row N il (take (i + 2) h)) (rt_layers st ! il)" using assms(1,4,5,8) by (simp add: draft_ok_def)
  fix i assume "i < m"
  then have "min (i + 2) p = i + 2" using assms(3) by simp
  then show "nf_draft_row N il (take (i + 2) (take p h)) = nf_draft_row N il (take (i + 2) h)" by (simp del: add_2_eq_Suc')
qed

lemma pk_rewind_recurrent:
  assumes "faithful N st h" "draft_ok N st h" "pk_ok N st h" "net_fits N st" "length (rt_kv_toks st) = length h" "has_recurrent (rt_hp st)" "n < length h"
  obtains (none) "last_upto n (rt_pk st) 0 = -1" "pk_rewind n st = (Inr (-1), st)"
  | (some) j st' p where "last_upto n (rt_pk st) 0 = int j" "j < length (rt_pk st)" "p = pc_pos (rt_pk st ! j)" "0 < p" "p \<le> n"
      "pk_rewind n st = (Inr (int p), st')" "faithful N st' (take p h)" "draft_ok N st' (take p h)" "pk_ok N st' (take p h)"
      "rt_kv_toks st' = take p (rt_kv_toks st)" "list_all2 same_shape (rt_layers st) (rt_layers st')" "rt_hp st' = rt_hp st" "rt_n_ctx st' = rt_n_ctx st"
      "length (rt_pk st') \<le> length (rt_pk st)"
proof -
  from last_upto_cases[of n "rt_pk st" 0] consider
      "last_upto n (rt_pk st) 0 = -1"
    | j where "j < length (rt_pk st)" "last_upto n (rt_pk st) 0 = int j" "\<forall>k \<le> j. pc_pos (rt_pk st ! k) \<le> n" by auto
  then show ?thesis
  proof cases
    case 1
    then show ?thesis using none assms(5-7) by (simp add: pk_rewind_def)
  next
    case (2 j)
    let ?c = "rt_pk st ! j"
    define p where "p = pc_pos ?c"
    have c: "ckpt_ok N st h ?c" using assms(3) 2(1) by (simp add: pk_ok_def)
    have p: "0 < p" "p \<le> n" "p \<le> length h" using c 2(3) by (auto simp: ckpt_ok_def p_def)
    have wf: "rt_wf st" using assms(1) by (simp add: faithful_def)
    obtain ls where ls: "restore_layers (rt_layers st) (pc_blob ?c) = Inr ls" "list_all2 same_shape (rt_layers st) ls"
      "\<forall>i < length (rt_layers st). rec_holds (nf_rec N i (take p h)) (ls ! i) \<and> k_cache (ls ! i) = k_cache (rt_layers st ! i) \<and>
        v_cache (ls ! i) = v_cache (rt_layers st ! i)"
      using restore_layers_ok[of "rt_layers st" N 0 "take p h"] assms(4) c by (auto simp: net_fits_def ckpt_ok_def p_def)
    have len: "length ls = length (rt_layers st)" using ls(2) by (simp add: list_all2_lengthD)
    define st' where "st' = st\<lparr>rt_layers := ls, rt_n_past := p, rt_mtp_past := pc_mtp_past ?c, rt_mrope_next := pc_mrope ?c,
        rt_mtp_hidden := pc_hidden ?c, rt_kv_toks := take p (rt_kv_toks st), rt_pk := take (j + 1) (rt_pk st)\<rparr>"
    have r: "pk_rewind n st = (Inr (int p), st')"
      using assms(5-7) 2(2) ls(1) p by (simp add: pk_rewind_def Let_def st'_def p_def resize_short)
    have m: "nf_drafts N \<Longrightarrow> pc_mtp_past ?c \<le> p - 1" "nf_drafts N \<Longrightarrow> pc_mtp_past ?c \<le> rt_mtp_past st"
      using c by (auto simp: ckpt_ok_def p_def)
    have wf': "rt_wf st'"
    proof -
      have "\<forall>l \<in> set ls. layer_ok (rt_n_ctx st) l" using layers_ok_shape[OF ls(2)] wf by (simp add: rt_wf_def)
      moreover have "p \<le> rt_n_ctx st" using p(3) wf assms(1) by (simp add: rt_wf_def faithful_def)
      moreover have "set (take p (rt_kv_toks st)) \<subseteq> int32" using wf set_take_subset[of p "rt_kv_toks st"] by (auto simp: rt_wf_def)
      moreover have "length (pc_hidden ?c) < 2 ^ 31" "pc_mtp_past ?c \<le> rt_n_ctx st" using c by (auto simp: ckpt_ok_def)
      moreover have "pc_mrope ?c \<in> int32"
        using c \<open>p \<le> rt_n_ctx st\<close> wf unfolding ckpt_ok_def rt_wf_def int32_def p_def by auto
      ultimately show ?thesis using wf len assms(5) p(3) by (auto simp: rt_wf_def st'_def)
    qed
    have f': "faithful N st' (take p h)"
      unfolding faithful_def
    proof (intro conjI allI impI)
      fix il assume "il < n_main (rt_hp st')" "il < length (rt_layers st')"
      then show "rows_hold (length (take p h)) (\<lambda>i. nf_row N il (take (i + 1) (take p h))) (rt_layers st' ! il)"
        using main_rows_prefix[OF assms(1) p(3), of il "ls ! il"] ls(3) len p(3) by (simp add: st'_def min_def)
    qed (use wf' p ls(3) len c assms(1) in \<open>auto simp: st'_def ckpt_ok_def p_def faithful_def\<close>)
    have d': "draft_ok N st' (take p h)"
      unfolding draft_ok_def
    proof (intro conjI allI impI)
      fix il assume "nf_drafts N" "n_main (rt_hp st') \<le> il" "il < length (rt_layers st')"
      then show "rows_hold (rt_mtp_past st') (\<lambda>i. nf_draft_row N il (take (i + 2) (take p h))) (rt_layers st' ! il)"
        using draft_rows_prefix[OF assms(2) m(2,1), of il "ls ! il"] ls(3) len by (simp add: st'_def)
    qed (use m p c in \<open>auto simp: st'_def ckpt_ok_def p_def min_def\<close>)
    have srt: "sorted_wrt (ckpt_less N) (rt_pk st)" using assms(3) by (simp add: pk_ok_def)
    have shp: "rec_blob N h' i (rt_layers st) = rec_blob N h' i ls" for h' i
      using ls(2)
    proof (induction arbitrary: i rule: list_all2_induct)
      case (Cons x xs y ys)
      then show ?case using shape_eq[of "conv_state y" "conv_state x"] shape_eq[of "ssm_state y" "ssm_state x"] by (simp add: same_shape_def)
    qed simp
    have pk': "pk_ok N st' (take p h)"
      unfolding pk_ok_def
    proof
      show "sorted_wrt (ckpt_less N) (rt_pk st')" using sorted_wrt_take[OF srt] by (simp add: st'_def)
      show "\<forall>d \<in> set (rt_pk st'). ckpt_ok N st' (take p h) d"
      proof
        fix d assume "d \<in> set (rt_pk st')"
        then have "\<exists>k < Suc j. d = rt_pk st ! k" using 2(1) by (auto simp: st'_def in_set_conv_nth)
        then obtain k where k: "k \<le> j" "d = rt_pk st ! k" by (auto simp: less_Suc_eq_le)
        have d: "ckpt_ok N st h d" using assms(3) k 2(1) by (simp add: pk_ok_def)
        have "k = j \<or> ckpt_less N d ?c" using k 2(1) sorted_wrt_nth_less[OF srt, of k j] by (cases "k = j") auto
        then have dp: "pc_pos d \<le> p" "nf_drafts N \<longrightarrow> pc_mtp_past d \<le> pc_mtp_past ?c"
          using k(2) by (auto simp: p_def ckpt_less_def)
        have t: "take (pc_pos d) (take p h) = take (pc_pos d) h" using dp(1) by (simp add: min_def)
        show "ckpt_ok N st' (take p h) d"
          using d dp p unfolding ckpt_ok_def t by (auto simp: st'_def shp)
      qed
    qed
    show ?thesis
      by (rule some[OF 2(2,1) p_def p(1,2) r f' d' pk']) (use ls(2) in \<open>simp_all add: st'_def\<close>)
  qed
qed

lemma net_fits_shape:
  assumes "net_fits N st" "rt_hp st' = rt_hp st" "list_all2 same_shape (rt_layers st) (rt_layers st')"
  shows "net_fits N st'"
proof -
  have f: "layer_fits N il l'" if "layer_fits N il l" "same_shape l l'" for il l l'
    using that shape_eq[of "conv_state l'" "conv_state l"] shape_eq[of "ssm_state l'" "ssm_state l"] shape_eq[of "k_cache l'" "k_cache l"]
    by (fastforce simp: layer_fits_def same_shape_def opt_bytes_def split: option.splits)
  have len: "length (rt_layers st') = length (rt_layers st)" using assms(3) by (simp add: list_all2_lengthD)
  have s: "same_shape (rt_layers st ! il) (rt_layers st' ! il)" if "il < length (rt_layers st)" for il
    using list_all2_nthD[OF assms(3) that] .
  have "\<forall>il < length (rt_layers st'). layer_fits N il (rt_layers st' ! il)" using assms(1) f s len by (auto simp: net_fits_def)
  moreover have "\<not> has_recurrent (rt_hp st) \<longrightarrow> (\<forall>l \<in> set (rt_layers st'). conv_state l = None)"
  proof (intro impI ballI)
    fix l assume a: "\<not> has_recurrent (rt_hp st)" "l \<in> set (rt_layers st')"
    then obtain il where il: "il < length (rt_layers st)" "l = rt_layers st' ! il" using len by (auto simp: in_set_conv_nth)
    then have "conv_state (rt_layers st ! il) = None" using assms(1) a(1) by (simp add: net_fits_def)
    then show "conv_state l = None" using s[OF il(1)] shape_eq[of "conv_state l" "conv_state (rt_layers st ! il)"] il(2) by (simp add: same_shape_def)
  qed
  ultimately show ?thesis using assms(1,2) by (simp add: net_fits_def)
qed

lemma pk_rewind_attention:
  assumes "faithful N st h" "net_fits N st" "length (rt_kv_toks st) = length h" "\<not> has_recurrent (rt_hp st)" "n < length h" "rt_mrope_next st = int (rt_n_past st)"
  shows "pk_rewind n st = (Inr (int n), st\<lparr>rt_n_past := n, rt_mrope_next := int n,
                 rt_mtp_past := (if n < rt_mtp_past st then n else rt_mtp_past st), rt_kv_toks := take n (rt_kv_toks st)\<rparr>)"
    "faithful N (st\<lparr>rt_n_past := n, rt_mrope_next := int n,
                 rt_mtp_past := (if n < rt_mtp_past st then n else rt_mtp_past st), rt_kv_toks := take n (rt_kv_toks st)\<rparr>) (take n h)"
proof -
  show "pk_rewind n st = (Inr (int n), st\<lparr>rt_n_past := n, rt_mrope_next := int n,
                 rt_mtp_past := (if n < rt_mtp_past st then n else rt_mtp_past st), rt_kv_toks := take n (rt_kv_toks st)\<rparr>)"
    using assms by (simp add: pk_rewind_def resize_short)
  let ?s = "st\<lparr>rt_n_past := n, rt_mrope_next := int n,
                 rt_mtp_past := (if n < rt_mtp_past st then n else rt_mtp_past st), rt_kv_toks := take n (rt_kv_toks st)\<rparr>"
  have wf: "rt_wf st" using assms(1) by (simp add: faithful_def)
  have "int n \<in> int32" using assms(3,5) wf by (intro small_int32) (simp add: rt_wf_def)
  moreover have "set (take n (rt_kv_toks st)) \<subseteq> int32" using wf set_take_subset[of n "rt_kv_toks st"] by (auto simp: rt_wf_def)
  ultimately have wf': "rt_wf ?s" using wf assms(1,3,5) by (auto simp: rt_wf_def faithful_def)
  show "faithful N ?s (take n h)"
    unfolding faithful_def
  proof (intro conjI allI impI)
    fix il assume "il < n_main (rt_hp ?s)" "il < length (rt_layers ?s)"
    then show "rows_hold (length (take n h)) (\<lambda>i. nf_row N il (take (i + 1) (take n h))) (rt_layers ?s ! il)"
      using main_rows_prefix[OF assms(1), of n il "rt_layers st ! il"] assms(5) by (simp add: min_def)
  next
    fix il assume il: "il < length (rt_layers ?s)"
    then have "conv_state (rt_layers st ! il) = None" "ssm_state (rt_layers st ! il) = None"
      using assms(2,4) by (auto simp: net_fits_def layer_fits_def)
    then show "rec_holds (nf_rec N il (take n h)) (rt_layers ?s ! il)" by (simp add: rec_holds_def)
  next
    assume m: "hp_use_mrope (rt_hp ?s)"
    then have "nf_pos N h = int (length h)" using assms(1,6) by (simp add: faithful_def)
    then show "rt_mrope_next ?s = nf_pos N (take n h)" using assms(2,4,5) m by (simp add: net_fits_def)
  qed (use wf' assms(1,5) in \<open>auto simp: faithful_def\<close>)
qed

subsection \<open>Loading and resetting\<close>

lemma row_of_take:
  assumes "i < n"
  shows "row_of t i = take (te_nb1 t) (drop (i * te_nb1 t) (take (n * te_nb1 t) (te_data t)))"
proof -
  have "i * te_nb1 t + te_nb1 t \<le> n * te_nb1 t" using mult_le_mono1[of "Suc i" n "te_nb1 t"] assms by simp
  then have "te_nb1 t \<le> n * te_nb1 t - i * te_nb1 t" by linarith
  then show ?thesis by (simp add: row_of_def drop_take min_def)
qed

lemma rows_hold_view:
  assumes "rows_hold n F l" "same_shape l l'" "layer_view n l' = layer_view n l"
  shows "rows_hold n F l'"
  unfolding rows_hold_def
proof (intro allI impI)
  fix k' v' i assume kv: "k_cache l' = Some k'" "v_cache l' = Some v'" "i < n"
  obtain k v where k: "k_cache l = Some k" "v_cache l = Some v" "te_nb1 k' = te_nb1 k" "te_nb1 v' = te_nb1 v"
    using assms(2) kv(1,2) by (cases "k_cache l"; cases "v_cache l") (auto simp: same_shape_def shape_def)
  have "take (n * te_nb1 k) (te_data k') = take (n * te_nb1 k) (te_data k)" "take (n * te_nb1 v) (te_data v') = take (n * te_nb1 v) (te_data v)"
    using assms(3) kv k by (auto simp: layer_view_def)
  then have "row_of k' i = row_of k i" "row_of v' i = row_of v i"
    using k(3,4) row_of_take[OF kv(3)] by metis+
  then show "(row_of k' i, row_of v' i) = F i" using assms(1) k kv(3) by (simp add: rows_hold_def)
qed

lemma rec_holds_view:
  assumes "rec_holds b l" "layer_fits N il l" "same_shape l l'" "layer_view n l' = layer_view n l"
  shows "rec_holds b l'"
proof (cases "k_cache l")
  case None
  then have "k_cache l' = None" using assms(3) by (simp add: same_shape_def shape_def)
  then show ?thesis using None assms(1,4) by (cases "conv_state l"; cases "ssm_state l") (auto simp: layer_view_def rec_holds_def)
next
  case (Some k)
  then have "conv_state l = None" "ssm_state l = None" using assms(2) by (auto simp: layer_fits_def)
  then have "conv_state l' = None" "ssm_state l' = None" using assms(3) by (simp_all add: same_shape_def shape_def)
  then show ?thesis by (simp add: rec_holds_def)
qed

lemma layers_view_nth: "il < length ls \<Longrightarrow> layers_view rows i ls ! il = layer_view (rows (i + il)) (ls ! il)"
  by (simp add: layers_view_def nth_enumerate_eq)

lemma faithful_view:
  assumes "faithful N st h" "net_fits N st" "saved_view st2 = saved_view st" "rt_hp st2 = rt_hp st" "rt_n_ctx st2 = rt_n_ctx st"
    "list_all2 same_shape (rt_layers st) (rt_layers st2)"
  shows "faithful N st2 h" "draft_ok N st h \<Longrightarrow> draft_ok N st2 h" "rt_kv_toks st2 = rt_kv_toks st"
proof -
  have e: "rt_n_past st2 = rt_n_past st" "rt_mtp_past st2 = rt_mtp_past st" "rt_mrope_next st2 = rt_mrope_next st"
    "rt_kv_toks st2 = rt_kv_toks st" "rt_mtp_hidden st2 = rt_mtp_hidden st"
    "layers_view (rows_at (rt_hp st) (rt_mtp_past st) (rt_n_past st)) 0 (rt_layers st2) =
     layers_view (rows_at (rt_hp st) (rt_mtp_past st) (rt_n_past st)) 0 (rt_layers st)"
    using assms(3,4) by (auto simp: saved_view_def)
  have len: "length (rt_layers st2) = length (rt_layers st)" using assms(6) by (simp add: list_all2_lengthD)
  have v: "layer_view (rows_at (rt_hp st) (rt_mtp_past st) (rt_n_past st) il) (rt_layers st2 ! il) =
      layer_view (rows_at (rt_hp st) (rt_mtp_past st) (rt_n_past st) il) (rt_layers st ! il)" if "il < length (rt_layers st)" for il
    using layers_view_nth[of il "rt_layers st2" "rows_at (rt_hp st) (rt_mtp_past st) (rt_n_past st)" 0]
      layers_view_nth[of il "rt_layers st" "rows_at (rt_hp st) (rt_mtp_past st) (rt_n_past st)" 0] that len e(6) by simp
  have s: "same_shape (rt_layers st ! il) (rt_layers st2 ! il)" if "il < length (rt_layers st)" for il
    using list_all2_nthD[OF assms(6) that] .
  have wf: "rt_wf st" "rt_n_past st = length h" using assms(1) by (simp_all add: faithful_def)
  have vm: "layer_view (length h) (rt_layers st2 ! il) = layer_view (length h) (rt_layers st ! il)"
    if "il < length (rt_layers st)" "il < n_main (rt_hp st)" for il
    using v[OF that(1)] that(2) wf(2) by (simp add: rows_at_def)
  have vd: "layer_view (rt_mtp_past st) (rt_layers st2 ! il) = layer_view (rt_mtp_past st) (rt_layers st ! il)"
    if "il < length (rt_layers st)" "n_main (rt_hp st) \<le> il" for il
    using v[OF that(1)] that(2) by (simp add: rows_at_def)
  have wf2: "rt_wf st2" using wf(1) layers_ok_shape[OF assms(6)] e(1-5) assms(4,5) len by (simp add: rt_wf_def)
  show "faithful N st2 h"
    unfolding faithful_def
  proof (intro conjI allI impI)
    fix il assume il: "il < n_main (rt_hp st2)" "il < length (rt_layers st2)"
    have "rows_hold (length h) (\<lambda>i. nf_row N il (take (i + 1) h)) (rt_layers st ! il)" using assms(1,4) il len by (simp add: faithful_def)
    then show "rows_hold (length h) (\<lambda>i. nf_row N il (take (i + 1) h)) (rt_layers st2 ! il)"
      using rows_hold_view[OF _ s vm] il len assms(4) by simp
  next
    fix il assume il: "il < length (rt_layers st2)"
    then have "rec_holds (nf_rec N il h) (rt_layers st ! il)" "layer_fits N il (rt_layers st ! il)"
      using assms(1,2) len by (simp_all add: faithful_def net_fits_def)
    then show "rec_holds (nf_rec N il h) (rt_layers st2 ! il)" using rec_holds_view[OF _ _ s v] il len by simp
  qed (use wf2 e wf assms(1,4) in \<open>simp_all add: faithful_def\<close>)
  show "draft_ok N st2 h" if d: "draft_ok N st h"
    unfolding draft_ok_def
  proof (intro conjI allI impI)
    fix il assume il: "nf_drafts N" "n_main (rt_hp st2) \<le> il" "il < length (rt_layers st2)"
    have "rows_hold (rt_mtp_past st) (\<lambda>i. nf_draft_row N il (take (i + 2) h)) (rt_layers st ! il)" using d assms(4) il len by (simp add: draft_ok_def)
    then show "rows_hold (rt_mtp_past st2) (\<lambda>i. nf_draft_row N il (take (i + 2) h)) (rt_layers st2 ! il)"
      using rows_hold_view[OF _ s vd] il len assms(4) e(2) by simp
  qed (use e d in \<open>simp_all add: draft_ok_def\<close>)
  show "rt_kv_toks st2 = rt_kv_toks st" by (rule e(4))
qed

text \<open>The network starts from zeroed recurrent states.\<close>

definition net_start :: "'x net \<Rightarrow> rt \<Rightarrow> bool" where
  "net_start N st \<longleftrightarrow> nf_pos N [] = 0 \<and>
     (\<forall>il < length (rt_layers st). \<forall>t. (conv_state (rt_layers st ! il) = Some t \<longrightarrow> fst (nf_rec N il []) = replicate (nbytes t) 0) \<and>
        (ssm_state (rt_layers st ! il) = Some t \<longrightarrow> snd (nf_rec N il []) = replicate (nbytes t) 0))"

lemma zero_shape: "shape (zero_tensor t) = shape t"
  by (cases t) (simp_all add: zero_tensor_def shape_def nbytes_def)

lemma reset_shape: "list_all2 same_shape (rt_layers st) (rt_layers (reset st))"
  by (simp add: reset_def zero_states_def list_all2_map2 same_shape_def zero_shape list_all2_same)

lemma reset_frame [simp]: "rt_hp (reset st) = rt_hp st" "rt_n_ctx (reset st) = rt_n_ctx st" "rt_kv_toks (reset st) = []" "rt_pk (reset st) = []"
  "rt_n_past (reset st) = 0" "rt_mtp_past (reset st) = 0" "rt_mrope_next (reset st) = 0" "rt_mtp_hidden (reset st) = rt_mtp_hidden st"
  by (simp_all add: reset_def zero_states_def)

lemma reset_ok:
  assumes "rt_wf st" "net_start N st" "no_side_state (rt_hp st)"
  shows "faithful N (reset st) []" "draft_ok N (reset st) []" "pk_ok N (reset st) []"
proof -
  have len: "length (rt_layers (reset st)) = length (rt_layers st)" using reset_shape list_all2_lengthD by metis
  have wf: "rt_wf (reset st)" using assms(1) layers_ok_shape[OF reset_shape, of st "rt_n_ctx st"] len by (simp add: rt_wf_def int32_def)
  have "rec_holds (nf_rec N il []) (rt_layers (reset st) ! il)" if "il < length (rt_layers st)" for il
    using assms(2) that by (auto simp: rec_holds_def reset_def zero_states_def zero_tensor_def net_start_def)
  then show "faithful N (reset st) []" using wf assms(2,3) len by (simp add: faithful_def rows_hold_def net_start_def)
  show "draft_ok N (reset st) []" by (simp add: draft_ok_def rows_hold_def)
  show "pk_ok N (reset st) []" by (simp add: pk_ok_def)
qed

subsection \<open>Properties\<close>

lemma pk_best_recurrent: "has_recurrent (rt_hp st) \<Longrightarrow> 0 < n \<Longrightarrow>
    pk_best (int n) st = (let bi = last_upto n (rt_pk st) 0 in if bi < 0 then -1 else int (pc_pos (rt_pk st ! nat bi)))"
  by (simp add: pk_best_def)

lemma last_upto_all:
  assumes "cs \<noteq> []" "\<forall>c \<in> set cs. pc_pos c \<le> n"
  shows "last_upto n cs i = int (i + length cs - 1)"
proof -
  from last_upto_cases[of n cs i] show ?thesis
  proof
    assume "last_upto n cs i = -1 \<and> (cs = [] \<or> n < pc_pos (hd cs))"
    then show ?thesis using assms by (cases cs) auto
  next
    assume "\<exists>j < length cs. last_upto n cs i = int (i + j) \<and> (\<forall>k \<le> j. pc_pos (cs ! k) \<le> n) \<and>
      (j + 1 < length cs \<longrightarrow> n < pc_pos (cs ! (j + 1)))"
    then obtain j where j: "j < length cs" "last_upto n cs i = int (i + j)" "j + 1 < length cs \<longrightarrow> n < pc_pos (cs ! (j + 1))" by blast
    have "\<not> j + 1 < length cs" using j(3) assms(2) by (metis nth_mem not_less)
    then have "i + j = i + length cs - 1" using j(1) by simp
    then show ?thesis using j(2) by simp
  qed
qed

text \<open>
  A snapshot leaves the session as it is and keeps all checkpoints valid, sorted and within their limit,
  however many have been taken; in a recurrent model the newest position is always kept, so a rewind to the
  snapshot just taken is possible.
\<close>

theorem pk_snapshot_correct:
  assumes "faithful N st h" "draft_ok N st h" "pk_ok N st h" "length (rt_pk st) \<le> m" "has_recurrent (rt_hp st)" "0 < m" "h \<noteq> []"
  shows "faithful N (pk_snapshot m st) h \<and> draft_ok N (pk_snapshot m st) h \<and> pk_ok N (pk_snapshot m st) h \<and>
    length (rt_pk (pk_snapshot m st)) \<le> m \<and> pk_best (int (length h)) (pk_snapshot m st) = int (length h)"
proof -
  let ?s = "pk_snapshot m st"
  note pk = pk_snapshot_pk(1)[OF assms(1-3), of m] pk_snapshot_pk(2)[OF assms(1-4)] pk_snapshot_pk(3)[OF assms(1-3), of m]
  have 1: "faithful N ?s h" "draft_ok N ?s h" using assms(1,2) by (simp_all add: faithful_def draft_ok_def rt_wf_def frame_simps)
  have ne: "rt_pk ?s \<noteq> []" "pc_pos (last (rt_pk ?s)) = length h" using pk(3)[OF assms(5-7)] by auto
  have "\<forall>c \<in> set (rt_pk ?s). pc_pos c \<le> length h" using pk(1) by (simp add: pk_ok_def ckpt_ok_def)
  from last_upto_all[OF ne(1) this, of 0] have "last_upto (length h) (rt_pk ?s) 0 = int (length (rt_pk ?s) - 1)" by simp
  then have "pk_best (int (length h)) ?s = int (length h)"
    using ne assms(5,7) by (subst pk_best_recurrent) (auto simp: frame_simps Let_def last_conv_nth)
  then show ?thesis using 1 pk by blast
qed

text \<open>
  C11. A rewind of a model without index and n-gram module: it returns the position \<open>pk_best\<close> announces. That is
  -1 and nothing has changed, or a position at or before the requested one, and then the counters, the rope
  position, the token history, the key and value rows of the main layers and the recurrent tensors are exactly what the
  network leaves after that prefix of the items (tokens or image embeddings). In a recurrent model
  the remaining checkpoints stay valid and so does the draft block; in an attention-only model nothing is claimed of
  the draft block, and the rewind is refused exactly when the next position differs from the number of cells, that is after an image.
  It never reads or writes out of bounds.
\<close>

theorem pk_rewind_correct:
  assumes "faithful N st h" "draft_ok N st h" "pk_ok N st h" "net_fits N st" "length (rt_kv_toks st) = length h" "0 < n" "n < length h"
  shows "\<exists>r st'. pk_rewind n st = (Inr r, st') \<and> r = pk_best (int n) st \<and>
    (r = -1 \<and> st' = st \<or>
     (\<exists>p. r = int p \<and> 0 < p \<and> p \<le> n \<and> rt_kv_toks st' = take p (rt_kv_toks st) \<and> faithful N st' (take p h) \<and>
       (has_recurrent (rt_hp st) \<longrightarrow> draft_ok N st' (take p h) \<and> pk_ok N st' (take p h)))) \<and>
    (\<not> has_recurrent (rt_hp st) \<longrightarrow> r = (if rt_mrope_next st = int (length h) then int n else -1))"
proof (cases "has_recurrent (rt_hp st)")
  case True
  show ?thesis
  proof (rule pk_rewind_recurrent[OF assms(1-5) True assms(7)])
    assume "last_upto n (rt_pk st) 0 = -1" "pk_rewind n st = (Inr (-1), st)"
    then show ?thesis using pk_best_recurrent[OF True assms(6)] True by simp
  next
    fix j st' p
    assume "last_upto n (rt_pk st) 0 = int j" "p = pc_pos (rt_pk st ! j)" "0 < p" "p \<le> n" "pk_rewind n st = (Inr (int p), st')"
      "faithful N st' (take p h)" "draft_ok N st' (take p h)" "pk_ok N st' (take p h)" "rt_kv_toks st' = take p (rt_kv_toks st)"
    then show ?thesis using pk_best_recurrent[OF True assms(6)] True by auto
  qed
next
  case False
  have np: "rt_n_past st = length h" using assms(1) by (simp add: faithful_def)
  show ?thesis
  proof (cases "rt_mrope_next st = int (rt_n_past st)")
    case m: True
    note a = pk_rewind_attention[OF assms(1,4,5) False assms(7) m]
    have "pk_best (int n) st = int n" using False m np assms(6,7) by (simp add: pk_best_def)
    then show ?thesis using a False assms(6) m np by auto
  next
    case m: False
    then show ?thesis using False assms(5-7) np by (simp add: pk_best_def pk_rewind_def)
  qed
qed

subsection \<open>A concrete session\<close>

text \<open>A network whose rows and states tell how many tokens it has seen, and its state after two tokens.\<close>

definition count_net :: "int net" where
  "count_net = \<lparr>nf_row = (\<lambda>il h. (replicate 2 (of_nat (length h)), replicate 2 (of_nat (length h + 10)))),
     nf_draft_row = (\<lambda>il h. (replicate 2 (of_nat (length h + 20)), replicate 2 (of_nat (length h + 30)))),
     nf_rec = (\<lambda>il h. (replicate 12 (of_nat (length h)), replicate 4 (of_nat (length h)))),
     nf_hid = (\<lambda>h. [of_nat (length h)]), nf_pos = (\<lambda>h. int (length h)), nf_drafts = True\<rparr>"

definition kv_layer :: "byte list \<Rightarrow> byte list \<Rightarrow> layer_state" where
  "kv_layer a b = no_state\<lparr>k_cache := Some \<lparr>te_nb1 = 2, te_data = a\<rparr>, v_cache := Some \<lparr>te_nb1 = 2, te_data = b\<rparr>\<rparr>"

definition rec_layer :: "byte \<Rightarrow> layer_state" where
  "rec_layer b = no_state\<lparr>conv_state := Some \<lparr>te_nb1 = 4, te_data = replicate 12 b\<rparr>, ssm_state := Some \<lparr>te_nb1 = 4, te_data = replicate 4 b\<rparr>\<rparr>"

definition counted_layers :: "layer_state list" where
  "counted_layers = [rec_layer 2, kv_layer [1, 1, 2, 2, 0, 0, 0, 0] [11, 11, 12, 12, 0, 0, 0, 0], kv_layer [22, 22, 0, 0, 0, 0, 0, 0] [32, 32, 0, 0, 0, 0, 0, 0]]"

definition counted_ckpt :: prompt_ckpt where
  "counted_ckpt = \<lparr>pc_pos = 1, pc_mtp_past = 0, pc_mrope = 1, pc_hidden = [1], pc_blob = replicate 16 1\<rparr>"

definition counted_state :: rt where
  "counted_state = (init_rt tiny_hp 4 DISK)\<lparr>rt_n_past := 2, rt_mtp_past := 1, rt_mrope_next := 2, rt_kv_toks := [7, -1],
     rt_mtp_hidden := [2], rt_layers := counted_layers, rt_pk := [counted_ckpt]\<rparr>"

lemma counted_fields:
  "rt_layers counted_state = counted_layers" "rt_n_past counted_state = 2" "rt_mtp_past counted_state = 1" "rt_kv_toks counted_state = [7, -1]"
  "rt_mtp_hidden counted_state = [2]" "rt_hp counted_state = tiny_hp" "rt_n_ctx counted_state = 4" "rt_pk counted_state = [counted_ckpt]"
  "rt_mrope_next counted_state = 2"
  by (simp_all add: counted_state_def init_rt_def)

lemma counted_nth: "il < length counted_layers \<Longrightarrow> il = 0 \<or> il = 1 \<or> il = 2"
  by (auto simp: counted_layers_def)

lemma counted_rows:
  "rows_hold 2 (\<lambda>i. nf_row count_net il (take (i + 1) [7, -1])) (counted_layers ! 1)"
  "rows_hold 1 (\<lambda>i. nf_draft_row count_net il (take (i + 2) [7, -1])) (counted_layers ! 2)"
proof -
  have "(row_of k i, row_of v i) = nf_row count_net il (take (i + 1) [7, -1])"
    if "k_cache (counted_layers ! 1) = Some k" "v_cache (counted_layers ! 1) = Some v" "i < 2" for k v i
    using less_2_cases[OF that(3)] that(1,2) by (auto simp: counted_layers_def kv_layer_def row_of_def count_net_def numeral_2_eq_2)
  then show "rows_hold 2 (\<lambda>i. nf_row count_net il (take (i + 1) [7, -1])) (counted_layers ! 1)" by (simp only: rows_hold_def) blast
  show "rows_hold 1 (\<lambda>i. nf_draft_row count_net il (take (i + 2) [7, -1])) (counted_layers ! 2)"
    by (auto simp: rows_hold_def counted_layers_def kv_layer_def row_of_def count_net_def numeral_2_eq_2)
qed

lemma counted_ok:
  "faithful count_net counted_state [7, -1]" "draft_ok count_net counted_state [7, -1]" "pk_ok count_net counted_state [7, -1]"
  "net_fits count_net counted_state" "has_recurrent (rt_hp counted_state)"
proof -
  have hp: "n_main tiny_hp = 2" "hp_n_layer tiny_hp = 3" "has_recurrent tiny_hp" "\<not> hp_use_mrope tiny_hp" "no_side_state tiny_hp"
    by (simp_all add: n_main_def tiny_hp_def has_recurrent_def no_side_state_def has_qsa_def has_ple_def)
  show "has_recurrent (rt_hp counted_state)" by (simp add: counted_fields hp)
  have wf: "rt_wf counted_state"
    by (simp add: rt_wf_def counted_fields hp int32_def) (simp add: counted_layers_def layer_ok_def kv_layer_def rec_layer_def shape_def nbytes_def no_state_def)
  have rows0: "rows_hold n F (counted_layers ! 0)" for n F by (simp add: rows_hold_def counted_layers_def rec_layer_def no_state_def)
  have recs: "rec_holds (nf_rec count_net il [7, -1]) (counted_layers ! il)" if "il < length counted_layers" for il
    using counted_nth[OF that] by (auto simp: rec_holds_def counted_layers_def rec_layer_def kv_layer_def no_state_def count_net_def)
  show "faithful count_net counted_state [7, -1]"
    unfolding faithful_def
  proof (intro conjI allI impI)
    fix il assume "il < n_main (rt_hp counted_state)" "il < length (rt_layers counted_state)"
    then have "il = 0 \<or> il = 1" by (auto simp: counted_fields hp)
    then show "rows_hold (length [7, -1::int]) (\<lambda>i. nf_row count_net il (take (i + 1) [7, -1])) (rt_layers counted_state ! il)"
      using rows0 counted_rows(1) by (auto simp: counted_fields numeral_2_eq_2)
  qed (use wf recs in \<open>simp_all add: counted_fields hp\<close>)
  show "draft_ok count_net counted_state [7, -1]"
    unfolding draft_ok_def
  proof (intro conjI allI impI)
    fix il assume "n_main (rt_hp counted_state) \<le> il" "il < length (rt_layers counted_state)"
    then have "il = 2" using counted_nth[of il] by (auto simp: counted_fields hp)
    then show "rows_hold (rt_mtp_past counted_state) (\<lambda>i. nf_draft_row count_net il (take (i + 2) [7, -1])) (rt_layers counted_state ! il)"
      using counted_rows(2) by (simp only: counted_fields)
  qed (simp_all add: counted_fields count_net_def)
  have blob: "rec_blob count_net [7] 0 counted_layers = replicate 16 1"
    by (simp add: counted_layers_def rec_layer_def kv_layer_def no_state_def count_net_def eval_nat_numeral)
  have hid: "nf_hid count_net [7] = [1]" by (simp add: count_net_def)
  show "pk_ok count_net counted_state [7, -1]"
    by (simp add: pk_ok_def counted_fields ckpt_ok_def hp) (simp add: counted_ckpt_def blob hid int32_def)
  have fit: "layer_fits count_net il (counted_layers ! il)" if "il < length counted_layers" for il
    using counted_nth[OF that] by (auto simp: layer_fits_def counted_layers_def rec_layer_def kv_layer_def no_state_def count_net_def nbytes_def)
  show "net_fits count_net counted_state"
    using fit by (simp add: net_fits_def counted_fields hp) (simp add: count_net_def)
qed

theorem pk_snapshot_correct_witness:
  "pk_best (int (length [7, -1 :: int])) (pk_snapshot 8 counted_state) = int (length [7, -1 :: int])"
  using pk_snapshot_correct[OF counted_ok(1-3) _ counted_ok(5), of 8] by (simp add: counted_fields)

theorem pk_rewind_correct_witness:
  "pk_best 1 counted_state = 1 \<and>
   (\<exists>st'. pk_rewind 1 counted_state = (Inr 1, st') \<and> rt_kv_toks st' = [7] \<and> faithful count_net st' [7])"
proof -
  have b: "pk_best 1 counted_state = 1"
    using counted_ok(5) by (simp add: pk_best_def counted_fields) (simp add: counted_ckpt_def Let_def)
  have "length (rt_kv_toks counted_state) = length [7, -1 :: int]" by (simp add: counted_fields)
  from pk_rewind_correct[OF counted_ok(1-4) this, of 1]
  obtain r st' where "pk_rewind 1 counted_state = (Inr r, st')" "r = pk_best (int 1) counted_state"
    "r = -1 \<and> st' = counted_state \<or>
     (\<exists>p. r = int p \<and> 0 < p \<and> p \<le> 1 \<and> rt_kv_toks st' = take p (rt_kv_toks counted_state) \<and> faithful count_net st' (take p [7, -1]))"
    by auto
  then show ?thesis using b by (auto simp: counted_fields)
qed

end
