(* ===== verification/Rope.thy ===== *)
theory Rope
  imports Prompt_Ckpt
begin

section \<open>Rotary positions and image spans\<close>

text \<open>
  \<open>fill_rope_pos_spans\<close> of \<open>core/runtime.cpp\<close>: the positions the tokens of a batch get, in one dimension or, with
  M-RoPE, as (time, row, column), where an image is a span of tokens laid out on its patch grid. And the
  clipping of image spans to a part of a batch, which \<open>Impl::decode\<close> and the server do when they cut a prompt into
  chunks. Embeddings are opaque; the data of a span has one per token.
\<close>

record 'e embd_override =
  eo_first :: int
  eo_count :: int
  eo_data :: "'e list"
  eo_grid_h :: int
  eo_grid_w :: int

subsection \<open>Positions\<close>

text \<open>\<open>lround (sqrt n)\<close>: the least k with n at most k (k + 1); a half is never reached on integers.\<close>

function sqrt_from :: "nat \<Rightarrow> nat \<Rightarrow> nat" where
  "sqrt_from n k = (if n \<le> k * k + k then k else sqrt_from n (k + 1))"
  by pat_completeness auto
termination
  by (relation "measure (\<lambda>(n, k). n - k)") auto

declare sqrt_from.simps [simp del]

definition round_sqrt :: "nat \<Rightarrow> nat" where
  "round_sqrt n = sqrt_from n 0"

definition grid_w :: "'e embd_override \<Rightarrow> int" where
  "grid_w s = (let gw = (if 0 < eo_grid_w s then eo_grid_w s else int (round_sqrt (nat (eo_count s)))) in if gw < 1 then 1 else gw)"

definition grid_h :: "'e embd_override \<Rightarrow> int" where
  "grid_h s = (if 0 < eo_grid_h s then eo_grid_h s else (eo_count s + grid_w s - 1) div grid_w s)"

definition span_at :: "'e embd_override list \<Rightarrow> nat \<Rightarrow> 'e embd_override option" where
  "span_at spans i = find (\<lambda>s. eo_first s = int i) spans"

definition span_pos :: "int \<Rightarrow> int \<Rightarrow> nat \<Rightarrow> int \<times> int \<times> int" where
  "span_pos base gw k = (base, base + int k div gw, base + int k mod gw)"

text \<open>The loop over the tokens; a span that counts no token would never be left, hence \<open>None\<close>.\<close>

partial_function (option) rope_loop :: "'e embd_override list \<Rightarrow> nat \<Rightarrow> nat \<Rightarrow> int \<Rightarrow> ((int \<times> int \<times> int) list \<times> int) option" where
  "rope_loop spans n i cur =
     (if n \<le> i then Some ([], cur)
      else case span_at spans i of
        Some s \<Rightarrow>
          Option.bind (rope_loop spans n (i + min (nat (eo_count s)) (n - i)) (cur + max (grid_h s) (grid_w s)))
            (\<lambda>(ps, c). Some (map (span_pos cur (grid_w s)) [0..<min (nat (eo_count s)) (n - i)] @ ps, c))
      | None \<Rightarrow> Option.bind (rope_loop spans n (i + 1) (cur + 1)) (\<lambda>(ps, c). Some ((cur, cur, cur) # ps, c)))"

declare rope_loop.simps [code]

text \<open>The positions as they are stored, the four sections one after the other, and the position after the batch.\<close>

definition sections :: "(int \<times> int \<times> int) list \<Rightarrow> int list" where
  "sections ps = map fst ps @ map (fst \<circ> snd) ps @ map (snd \<circ> snd) ps @ replicate (length ps) 0"

definition fill_rope_pos :: "bool \<Rightarrow> nat \<Rightarrow> nat \<Rightarrow> int \<Rightarrow> 'e embd_override list \<Rightarrow> (int list \<times> int) option" where
  "fill_rope_pos use_mrope n_past n start spans =
     (if \<not> use_mrope then Some (map (\<lambda>i. int (n_past + i)) [0..<n], start)
      else map_option (\<lambda>(ps, c). (sections ps, c)) (rope_loop spans n 0 start))"

subsection \<open>Clipping the spans to a chunk\<close>

text \<open>The clipped spans are built from first, count and data only: the grid is not passed on.\<close>

definition clip_span :: "int \<Rightarrow> int \<Rightarrow> 'e embd_override \<Rightarrow> 'e embd_override option" where
  "clip_span pos n s =
     (let lo = max (eo_first s) pos; hi = min (eo_first s + eo_count s) (pos + n) in
      if lo < hi then Some \<lparr>eo_first = lo - pos, eo_count = hi - lo, eo_data = drop (nat (lo - eo_first s)) (eo_data s), eo_grid_h = 0, eo_grid_w = 0\<rparr>
      else None)"

definition chunk_ovr :: "int \<Rightarrow> int \<Rightarrow> 'e embd_override list \<Rightarrow> 'e embd_override list" where
  "chunk_ovr pos n ovr = List.map_filter (clip_span pos n) ovr"

subsection \<open>Grids\<close>

lemma sqrt_from_least: "k \<le> m \<Longrightarrow> (\<forall>j. k \<le> j \<longrightarrow> j < m \<longrightarrow> j * j + j < n) \<Longrightarrow> n \<le> m * m + m \<Longrightarrow> sqrt_from n k = m"
proof (induction n k rule: sqrt_from.induct)
  case (1 n k)
  show ?case
  proof (cases "n \<le> k * k + k")
    case True
    then have "k = m" using "1.prems" by (metis le_neq_implies_less not_less order_refl)
    then show ?thesis using True by (subst sqrt_from.simps) simp
  next
    case False
    then have "k < m" using "1.prems" by (metis le_neq_implies_less)
    then have "sqrt_from n (k + 1) = m" using 1 False by simp
    then show ?thesis using False by (subst sqrt_from.simps) simp
  qed
qed

lemma round_sqrt_eq:
  assumes "0 < m \<Longrightarrow> (m - 1) * (m - 1) + (m - 1) < n" "n \<le> m * m + m"
  shows "round_sqrt n = m"
  unfolding round_sqrt_def
proof (rule sqrt_from_least)
  show "\<forall>j. 0 \<le> j \<longrightarrow> j < m \<longrightarrow> j * j + j < n"
  proof (intro allI impI)
    fix j assume j: "j < m"
    then have "j \<le> m - 1" by simp
    then have "j * j + j \<le> (m - 1) * (m - 1) + (m - 1)" using mult_le_mono by (metis add_le_mono)
    then show "j * j + j < n" using assms(1) j by (metis gr_zeroI not_less0 order_le_less_trans)
  qed
qed (use assms in auto)

lemma grid_w_pos: "0 < grid_w s"
  by (simp add: grid_w_def Let_def)

lemma grid_rows: "0 < eo_count s \<Longrightarrow> eo_grid_h s = 0 \<Longrightarrow> k < eo_count s \<Longrightarrow> 0 \<le> k \<Longrightarrow> k div grid_w s < grid_h s"
proof -
  assume a: "0 < eo_count s" "eo_grid_h s = 0" "k < eo_count s" "0 \<le> k"
  have g: "0 < grid_w s" by (rule grid_w_pos)
  have "k div grid_w s + 1 = (k + grid_w s) div grid_w s" using div_add_self2[of "grid_w s" k] g by linarith
  also have "\<dots> \<le> (eo_count s + grid_w s - 1) div grid_w s" using a g by (intro zdiv_mono1) simp_all
  finally show ?thesis using a(2) by (simp add: grid_h_def)
qed


subsection \<open>The loop\<close>

definition span_wf :: "'e embd_override \<Rightarrow> bool" where
  "span_wf s \<longleftrightarrow> 0 \<le> eo_first s \<and> 0 < eo_count s"

text \<open>
  A span without its patch grid, as clipping leaves it; the loop then guesses a grid from the number of patches,
  and \<open>guessed s\<close> says that it guesses the one the span had.
\<close>

definition degrid :: "'e embd_override \<Rightarrow> 'e embd_override" where
  "degrid s = s\<lparr>eo_grid_h := 0, eo_grid_w := 0\<rparr>"

definition guessed :: "'e embd_override \<Rightarrow> bool" where
  "guessed s \<longleftrightarrow> grid_w (degrid s) = grid_w s \<and> grid_h (degrid s) = grid_h s"

lemma degrid_simps [simp]: "eo_first (degrid s) = eo_first s" "eo_count (degrid s) = eo_count s" "eo_data (degrid s) = eo_data s"
  "eo_grid_h (degrid s) = 0" "eo_grid_w (degrid s) = 0" "span_wf (degrid s) = span_wf s"
  by (simp_all add: degrid_def span_wf_def)

lemma span_at_degrid: "span_at (map degrid spans) i = map_option degrid (span_at spans i)"
  by (induction spans) (simp_all add: span_at_def)

lemma span_at_Some: "span_at spans i = Some s \<Longrightarrow> s \<in> set spans \<and> eo_first s = int i"
  by (auto simp: span_at_def find_Some_iff in_set_conv_nth)

text \<open>Putting positions before those of the rest.\<close>

definition after :: "'p list \<Rightarrow> ('p list \<times> int) option \<Rightarrow> ('p list \<times> int) option" where
  "after xs r = Option.bind r (\<lambda>(ps, c). Some (xs @ ps, c))"

lemma after_simps [simp]: "after xs None = None" "after xs (Some (ps, c)) = Some (xs @ ps, c)" "after [] r = r"
  by (simp_all add: after_def)

lemma after_after [simp]: "after xs (after ys r) = after (xs @ ys) r"
  by (cases r) (auto simp: after_def)

lemma after_bind: "Option.bind (after xs r) (\<lambda>(ps, c). after ps (f c)) = after xs (Option.bind r (\<lambda>(ps, c). after ps (f c)))"
  by (cases r) (auto simp: after_def[of xs r])

lemma rope_done: "n \<le> i \<Longrightarrow> rope_loop spans n i cur = Some ([], cur)"
  by (subst rope_loop.simps) simp

lemma rope_text: "i < n \<Longrightarrow> span_at spans i = None \<Longrightarrow>
    rope_loop spans n i cur = after [(cur, cur, cur)] (rope_loop spans n (i + 1) (cur + 1))"
  by (subst rope_loop.simps) (simp add: after_def)

lemma rope_span: "i < n \<Longrightarrow> span_at spans i = Some s \<Longrightarrow> m = min (nat (eo_count s)) (n - i) \<Longrightarrow>
    rope_loop spans n i cur = after (map (span_pos cur (grid_w s)) [0..<m]) (rope_loop spans n (i + m) (cur + max (grid_h s) (grid_w s)))"
  by (subst rope_loop.simps) (simp add: after_def)

definition in_range :: "int \<Rightarrow> int \<Rightarrow> int \<times> int \<times> int \<Rightarrow> bool" where
  "in_range a b p \<longleftrightarrow> a \<le> fst p \<and> fst p < b \<and> a \<le> fst (snd p) \<and> fst (snd p) < b \<and> a \<le> snd (snd p) \<and> snd (snd p) < b"

lemma in_range_mono: "in_range a b p \<Longrightarrow> a' \<le> a \<Longrightarrow> b \<le> b' \<Longrightarrow> in_range a' b' p"
  by (auto simp: in_range_def)

lemma span_pos_range:
  assumes "span_wf s" "k < nat (eo_count s)" "eo_grid_h s = 0"
  shows "in_range cur (cur + max (grid_h s) (grid_w s)) (span_pos cur (grid_w s) k)"
proof -
  have g: "0 < grid_w s" by (rule grid_w_pos)
  have "int k div grid_w s < grid_h s" using assms by (intro grid_rows) (auto simp: span_wf_def)
  moreover have "0 \<le> int k div grid_w s" using g by (simp add: pos_imp_zdiv_nonneg_iff)
  moreover have "0 \<le> int k mod grid_w s" "int k mod grid_w s < grid_w s" using g by simp_all
  ultimately show ?thesis using g by (simp add: in_range_def span_pos_def less_max_iff_disj)
qed

lemma rope_total:
  assumes "\<forall>s \<in> set spans. span_wf s \<and> eo_grid_h s = 0"
  shows "\<exists>ps c. rope_loop spans n i cur = Some (ps, c) \<and> length ps = n - i \<and> cur \<le> c \<and> (\<forall>p \<in> set ps. in_range cur c p)"
proof (induction "n - i" arbitrary: i cur rule: less_induct)
  case less
  show ?case
  proof (cases "i < n")
    case False
    then show ?thesis by (simp add: rope_done)
  next
    case True
    show ?thesis
    proof (cases "span_at spans i")
      case None
      have "n - (i + 1) < n - i" using True by simp
      from less[OF this] obtain ps c where r: "rope_loop spans n (i + 1) (cur + 1) = Some (ps, c)" "length ps = n - (i + 1)" "cur + 1 \<le> c"
        "\<forall>p \<in> set ps. in_range (cur + 1) c p" by blast
      have "in_range cur c (cur, cur, cur)" using r(3) by (simp add: in_range_def)
      then show ?thesis using r True rope_text[OF True None] in_range_mono[of "cur + 1" c _ cur c] by auto
    next
      case (Some s)
      have s: "span_wf s" "eo_grid_h s = 0" using span_at_Some[OF Some] assms by blast+
      define m where "m = min (nat (eo_count s)) (n - i)"
      have m: "0 < m" "m \<le> n - i" "m \<le> nat (eo_count s)" using s True by (auto simp: m_def span_wf_def)
      define c1 where "c1 = cur + max (grid_h s) (grid_w s)"
      have "n - (i + m) < n - i" using m True by simp
      from less[OF this, of c1] obtain ps c where r: "rope_loop spans n (i + m) c1 = Some (ps, c)" "length ps = n - (i + m)" "c1 \<le> c"
        "\<forall>p \<in> set ps. in_range c1 c p" by blast
      have cc: "cur \<le> c1" using grid_w_pos[of s] by (simp add: c1_def)
      have 1: "in_range cur c (span_pos cur (grid_w s) k)" if "k < m" for k
        using span_pos_range[OF s(1) _ s(2), of k cur] that m(3) r(3) in_range_mono[of cur c1 _ cur c] unfolding c1_def[symmetric] by simp
      have 2: "\<forall>p \<in> set ps. in_range cur c p" using r(4) cc in_range_mono[of c1 c _ cur c] by blast
      show ?thesis
        using rope_span[OF True Some m_def, of cur] r 1 2 m cc unfolding c1_def[symmetric] by auto
    qed
  qed
qed

text \<open>A loop up to \<open>n\<close> passes through every cut no span straddles.\<close>

definition no_straddle :: "nat \<Rightarrow> 'e embd_override \<Rightarrow> bool" where
  "no_straddle p s \<longleftrightarrow> \<not> (eo_first s < int p \<and> int p < eo_first s + eo_count s)"

lemma rope_cut:
  assumes "\<forall>s \<in> set spans. span_wf s \<and> no_straddle a s" "a \<le> n" "i \<le> a"
  shows "rope_loop spans n i cur = Option.bind (rope_loop spans a i cur)
    (\<lambda>(ps, c). after ps (rope_loop spans n a c))"
  using assms(3)
proof (induction "a - i" arbitrary: i cur rule: less_induct)
  case less
  show ?case
  proof (cases "i < a")
    case False
    then have "i = a" using less.prems by simp
    then show ?thesis by (simp add: rope_done)
  next
    case True
    then have n: "i < n" using assms(2) by simp
    show ?thesis
    proof (cases "span_at spans i")
      case None
      have "a - (i + 1) < a - i" "i + 1 \<le> a" using True by simp_all
      from less.hyps[OF this, of "cur + 1"] show ?thesis
        unfolding rope_text[OF n None] rope_text[OF True None]
        by (simp only: after_bind)
    next
      case (Some s)
      have s: "s \<in> set spans" "eo_first s = int i" using span_at_Some[OF Some] by auto
      then have w: "span_wf s" "no_straddle a s" using assms(1) by auto
      have fit: "i + nat (eo_count s) \<le> a" using w s(2) True by (auto simp: no_straddle_def span_wf_def)
      define m where "m = nat (eo_count s)"
      have m: "m = min (nat (eo_count s)) (n - i)" "m = min (nat (eo_count s)) (a - i)" "0 < m" "i + m \<le> a"
        using fit assms(2) w(1) by (auto simp: m_def span_wf_def)
      have "a - (i + m) < a - i" using m(3) True by linarith
      from less.hyps[OF this m(4), of "cur + max (grid_h s) (grid_w s)"] show ?thesis
        unfolding rope_span[OF n Some m(1)] rope_span[OF True Some m(2)]
        by (simp only: after_bind)
    qed
  qed
qed


text \<open>Two span lists that agree on a stretch, shifted by \<open>p\<close>, give the same positions on it.\<close>

definition same_span :: "nat \<Rightarrow> 'e embd_override option \<Rightarrow> 'e embd_override option \<Rightarrow> bool" where
  "same_span room a b \<longleftrightarrow> (case (a, b) of
     (None, None) \<Rightarrow> True
   | (Some s, Some t) \<Rightarrow> min (nat (eo_count s)) room = min (nat (eo_count t)) room \<and> grid_w s = grid_w t \<and> grid_h s = grid_h t \<and> 0 < eo_count s
   | _ \<Rightarrow> False)"

lemma rope_shift:
  assumes "\<forall>i < m. same_span (m - i) (span_at S (p + i)) (span_at T i)" "i \<le> m"
  shows "rope_loop S (p + m) (p + i) cur = rope_loop T m i cur"
  using assms(2)
proof (induction "m - i" arbitrary: i cur rule: less_induct)
  case less
  show ?case
  proof (cases "i < m")
    case False
    then show ?thesis by (simp add: rope_done)
  next
    case True
    then have sm: "same_span (m - i) (span_at S (p + i)) (span_at T i)" using assms(1) by blast
    have pi: "p + i < p + m" using True by simp
    show ?thesis
    proof (cases "span_at T i")
      case None
      then have S: "span_at S (p + i) = None" using sm by (auto simp: same_span_def split: option.splits)
      have "m - (i + 1) < m - i" "i + 1 \<le> m" using True by simp_all
      from less.hyps[OF this, of "cur + 1"] show ?thesis
        using rope_text[OF pi S] rope_text[OF True None] by (simp add: add.assoc)
    next
      case (Some t)
      then obtain s where S: "span_at S (p + i) = Some s" "min (nat (eo_count s)) (m - i) = min (nat (eo_count t)) (m - i)"
          "grid_w s = grid_w t" "grid_h s = grid_h t" "0 < eo_count s"
        using sm by (auto simp: same_span_def split: option.splits)
      define q where "q = min (nat (eo_count t)) (m - i)"
      have q: "q = min (nat (eo_count s)) (p + m - (p + i))" "0 < q" "i + q \<le> m" using S(2,5) True by (auto simp: q_def)
      have "m - (i + q) < m - i" using q(2) True by linarith
      from less.hyps[OF this q(3), of "cur + max (grid_h t) (grid_w t)"] show ?thesis
        using rope_span[OF pi S(1) q(1), of cur] rope_span[OF True Some q_def, of cur] S(3,4) by (simp add: add.assoc)
    qed
  qed
qed

text \<open>Clipping spans no chunk boundary straddles shifts them and drops their grids.\<close>

lemma clip_whole:
  assumes "span_wf s" "no_straddle p s" "no_straddle (p + m) s"
  shows "clip_span (int p) (int m) s = (if int p \<le> eo_first s \<and> eo_first s < int (p + m)
     then Some ((degrid s)\<lparr>eo_first := eo_first s - int p\<rparr>) else None)"
  using assms by (cases s) (auto simp: clip_span_def Let_def span_wf_def no_straddle_def max_def min_def degrid_def)

lemma span_at_chunk:
  assumes "\<forall>s \<in> set spans. span_wf s \<and> no_straddle p s \<and> no_straddle (p + m) s" "i < m"
  shows "span_at (chunk_ovr (int p) (int m) spans) i = map_option (\<lambda>s. (degrid s)\<lparr>eo_first := eo_first s - int p\<rparr>) (span_at spans (p + i))"
  using assms(1)
proof (induction spans)
  case (Cons s spans)
  have c: "clip_span (int p) (int m) s = (if int p \<le> eo_first s \<and> eo_first s < int (p + m)
     then Some ((degrid s)\<lparr>eo_first := eo_first s - int p\<rparr>) else None)" using Cons.prems by (intro clip_whole) auto
  show ?case using Cons c assms(2) by (auto simp: span_at_def chunk_ovr_def List.map_filter_def)
qed (simp add: span_at_def chunk_ovr_def List.map_filter_def)

lemma grid_first [simp]: "grid_w (s\<lparr>eo_first := x\<rparr>) = grid_w s" "grid_h (s\<lparr>eo_first := x\<rparr>) = grid_h s"
  by (simp_all add: grid_w_def grid_h_def)

lemma rope_chunk:
  assumes "\<forall>s \<in> set spans. span_wf s \<and> no_straddle p s \<and> no_straddle (p + m) s"
  shows "rope_loop (map degrid spans) (p + m) p cur = rope_loop (chunk_ovr (int p) (int m) spans) m 0 cur"
proof -
  have "same_span (m - i) (span_at (map degrid spans) (p + i)) (span_at (chunk_ovr (int p) (int m) spans) i)" if "i < m" for i
    using span_at_chunk[OF assms that] span_at_Some[of spans "p + i"] assms
    by (cases "span_at spans (p + i)") (auto simp: same_span_def span_wf_def span_at_degrid)
  then show ?thesis using rope_shift[of m "map degrid spans" p "chunk_ovr (int p) (int m) spans" 0 cur] by simp
qed

lemma rope_guessed:
  assumes "\<forall>s \<in> set spans. span_wf s \<and> guessed s"
  shows "rope_loop (map degrid spans) n 0 cur = rope_loop spans n 0 cur"
proof -
  have "same_span (n - i) (span_at (map degrid spans) (0 + i)) (span_at spans i)" if "i < n" for i
    using span_at_Some[of spans i] assms by (cases "span_at spans i") (auto simp: same_span_def span_wf_def span_at_degrid guessed_def)
  then show ?thesis using rope_shift[of n "map degrid spans" 0 spans 0 cur] by simp
qed

lemma rope_split:
  assumes "\<forall>s \<in> set spans. span_wf s \<and> no_straddle a s \<and> no_straddle n s" "a \<le> n"
  shows "\<exists>ps ps' c c'. rope_loop (chunk_ovr 0 (int a) spans) a 0 start = Some (ps, c) \<and>
    rope_loop (chunk_ovr (int a) (int (n - a)) spans) (n - a) 0 c = Some (ps', c') \<and>
    rope_loop (map degrid spans) n 0 start = Some (ps @ ps', c') \<and> length ps = a \<and> length ps' = n - a \<and>
    (\<forall>p \<in> set (ps @ ps'). in_range start c' p)"
proof -
  let ?S = "map degrid spans"
  have wf: "\<forall>s \<in> set ?S. span_wf s \<and> eo_grid_h s = 0" using assms(1) by simp
  have cut: "\<forall>s \<in> set ?S. span_wf s \<and> no_straddle a s" using assms(1) by (simp add: no_straddle_def)
  have h: "\<forall>s \<in> set spans. span_wf s \<and> no_straddle 0 s \<and> no_straddle (0 + a) s" using assms(1) by (auto simp: no_straddle_def span_wf_def)
  have t: "\<forall>s \<in> set spans. span_wf s \<and> no_straddle a s \<and> no_straddle (a + (n - a)) s" using assms by simp
  obtain ps c where 1: "rope_loop ?S a 0 start = Some (ps, c)" "length ps = a" "start \<le> c" "\<forall>p \<in> set ps. in_range start c p"
    using rope_total[OF wf, of a 0 start] by auto
  obtain ps' c' where 2: "rope_loop ?S n a c = Some (ps', c')" "length ps' = n - a" "c \<le> c'" "\<forall>p \<in> set ps'. in_range c c' p"
    using rope_total[OF wf, of n a c] by auto
  have "rope_loop ?S n 0 start = Some (ps @ ps', c')" using rope_cut[OF cut assms(2), of 0 start] 1 2 by simp
  moreover have "rope_loop (chunk_ovr 0 (int a) spans) a 0 start = Some (ps, c)" using rope_chunk[OF h, of start] 1 by simp
  moreover have "rope_loop (chunk_ovr (int a) (int (n - a)) spans) (n - a) 0 c = Some (ps', c')" using rope_chunk[OF t, of c] 2 assms(2) by simp
  moreover have "\<forall>p \<in> set (ps @ ps'). in_range start c' p"
    using 1(3,4) 2(3,4) in_range_mono[of start c _ start c'] in_range_mono[of c c' _ start c'] by auto
  ultimately show ?thesis using 1(2) 2(2) by metis
qed

text \<open>
  C33. A batch cut in two, each part with its clipped image spans and starting where the other ended: as long as no
  image straddles a cut, every token gets the position it has in the whole batch of the same spans
  without patch grids, section by section, with M-RoPE and without, and the position handed on is the same. With
  M-RoPE all positions lie between the start and the position handed on. Clipping drops an explicit patch grid
  even of an image that is not cut; where the grid guessed from the number of patches is the image's own, and for spans
  that came without a grid, the positions are those of the batch as it is.
\<close>

theorem rope_chunked:
  assumes "\<forall>s \<in> set spans. span_wf s \<and> no_straddle a s \<and> no_straddle n s" "a \<le> n"
  shows "\<exists>ps ps' c c'.
     (let store = (\<lambda>ps. if use_mrope then sections ps else map fst ps) in
      fill_rope_pos use_mrope n_past a start (chunk_ovr 0 (int a) spans) = Some (store ps, c) \<and>
      fill_rope_pos use_mrope (n_past + a) (n - a) c (chunk_ovr (int a) (int (n - a)) spans) = Some (store ps', c') \<and>
      fill_rope_pos use_mrope n_past n start (map degrid spans) = Some (store (ps @ ps'), c')) \<and>
     length ps = a \<and> length ps' = n - a \<and> (use_mrope \<longrightarrow> (\<forall>p \<in> set (ps @ ps'). in_range start c' p)) \<and>
     ((\<forall>s \<in> set spans. guessed s) \<longrightarrow>
        fill_rope_pos use_mrope n_past n start (map degrid spans) = fill_rope_pos use_mrope n_past n start spans)"
proof (cases use_mrope)
  case True
  from rope_split[OF assms, of start] obtain ps ps' c c' where r: "rope_loop (chunk_ovr 0 (int a) spans) a 0 start = Some (ps, c)"
    "rope_loop (chunk_ovr (int a) (int (n - a)) spans) (n - a) 0 c = Some (ps', c')" "rope_loop (map degrid spans) n 0 start = Some (ps @ ps', c')"
    "length ps = a" "length ps' = n - a" "\<forall>p \<in> set (ps @ ps'). in_range start c' p" by blast
  show ?thesis
    by (rule exI[of _ ps], rule exI[of _ ps'], rule exI[of _ c], rule exI[of _ c'])
      (use True r assms(1) rope_guessed[of spans n start] in \<open>auto simp: fill_rope_pos_def\<close>)
next
  case False
  define line where "line i m = map (\<lambda>k. (int (n_past + i + k), 0 :: int, 0 :: int)) [0..<m]" for i m
  have f: "map fst (line i m) = map (\<lambda>k. int (n_past + i + k)) [0..<m]" for i m by (simp add: line_def comp_def)
  have j: "map fst (line 0 a @ line a (n - a)) = map (\<lambda>k. int (n_past + k)) [0..<n]"
    by (rule nth_equalityI) (use assms(2) in \<open>auto simp: f nth_append\<close>)
  show ?thesis
    by (rule exI[of _ "line 0 a"], rule exI[of _ "line a (n - a)"], rule exI[of _ start], rule exI[of _ start])
      (use False j f[of 0 a] f[of a "n - a"] in \<open>auto simp: fill_rope_pos_def line_def\<close>)
qed

definition two_images :: "nat embd_override list" where
  "two_images = [\<lparr>eo_first = 0, eo_count = 4, eo_data = [1, 2, 3, 4], eo_grid_h = 2, eo_grid_w = 2\<rparr>,
     \<lparr>eo_first = 5, eo_count = 2, eo_data = [5, 6], eo_grid_h = 0, eo_grid_w = 0\<rparr>]"

theorem rope_chunked_witness:
  "\<exists>ps ps' c c'. fill_rope_pos True 7 5 0 (chunk_ovr 0 5 two_images) = Some (sections ps, c) \<and>
    fill_rope_pos True 12 3 c (chunk_ovr 5 3 two_images) = Some (sections ps', c') \<and>
    fill_rope_pos True 7 8 0 two_images = Some (sections (ps @ ps'), c') \<and> length ps = 5"
proof -
  have r: "round_sqrt 4 = 2" by (rule round_sqrt_eq) simp_all
  have w: "\<forall>s \<in> set two_images. span_wf s \<and> no_straddle 5 s \<and> no_straddle 8 s"
    by (simp add: two_images_def span_wf_def no_straddle_def)
  have g: "\<forall>s \<in> set two_images. guessed s"
    using r by (simp add: two_images_def guessed_def grid_w_def grid_h_def degrid_def)
  from rope_chunked[OF w, of True 7 0, unfolded Let_def if_True] obtain ps ps' c c' where
    "fill_rope_pos True 7 5 0 (chunk_ovr 0 (int 5) two_images) = Some (sections ps, c)"
    "fill_rope_pos True (7 + 5) (8 - 5) c (chunk_ovr (int 5) (int (8 - 5)) two_images) = Some (sections ps', c')"
    "fill_rope_pos True 7 8 0 (map degrid two_images) = Some (sections (ps @ ps'), c')" "length ps = 5"
    "fill_rope_pos True 7 8 0 (map degrid two_images) = fill_rope_pos True 7 8 0 two_images"
    using g by force
  then show ?thesis by (intro exI[of _ ps] exI[of _ ps'] exI[of _ c] exI[of _ c']) simp
qed

lemma rope_text_run:
  assumes "\<forall>j. i \<le> j \<longrightarrow> j < n \<longrightarrow> span_at spans j = None" "i \<le> n"
  shows "rope_loop spans n i cur = Some (map (\<lambda>k. (cur + int k, cur + int k, cur + int k)) [0..<n - i], cur + int (n - i))"
  using assms
proof (induction "n - i" arbitrary: i cur)
  case 0
  then show ?case by (simp add: rope_done)
next
  case (Suc d)
  then have i: "i < n" "d = n - (i + 1)" by simp_all
  have "rope_loop spans n (i + 1) (cur + 1) = Some (map (\<lambda>k. (cur + 1 + int k, cur + 1 + int k, cur + 1 + int k)) [0..<d], cur + 1 + int d)"
    using Suc.hyps(1)[OF i(2)] Suc.prems i by simp
  moreover have "[0..<n - i] = 0 # map Suc [0..<d]" using i Suc.hyps(2) by (simp add: map_Suc_upt upt_conv_Cons)
  ultimately show ?case using rope_text[OF i(1), of spans cur] Suc.prems(1) i(1) Suc.hyps(2) by (simp add: comp_def algebra_simps)
qed

definition photo :: "unit embd_override" where
  "photo = \<lparr>eo_first = 0, eo_count = 576, eo_data = replicate 576 (), eo_grid_h = 0, eo_grid_w = 0\<rparr>"

lemma photo_end:
  assumes "round_sqrt (nat k) = m" "0 < k" "k \<le> int n" "(k + int m - 1) div int m = int h" "0 < m" "h \<le> m"
  shows "map_option snd (rope_loop [\<lparr>eo_first = 0, eo_count = k, eo_data = d, eo_grid_h = 0, eo_grid_w = 0\<rparr>] n 0 cur) = Some (cur + int m + (int n - k))"
proof -
  let ?s = "\<lparr>eo_first = 0, eo_count = k, eo_data = d, eo_grid_h = 0, eo_grid_w = 0\<rparr>"
  have g: "grid_w ?s = int m" "grid_h ?s = int h" using assms by (simp_all add: grid_w_def grid_h_def)
  have at0: "span_at [?s] 0 = Some ?s" by (simp add: span_at_def)
  have "rope_loop [?s] n 0 cur = after (map (span_pos cur (int m)) [0..<nat k]) (rope_loop [?s] n (nat k) (cur + int m))"
    using rope_span[OF _ at0, of n "nat k" cur] assms(2,3,6) g by (simp add: max_def min_def)
  moreover have "rope_loop [?s] n (nat k) (cur + int m) = Some (map (\<lambda>j. (cur + int m + int j, cur + int m + int j, cur + int m + int j)) [0..<n - nat k], cur + int m + int (n - nat k))"
    using assms(2,3) by (intro rope_text_run) (auto simp: span_at_def)
  ultimately show ?thesis using assms(2,3) by (simp add: of_nat_diff)
qed

text \<open>
  An image of 576 tokens (a 24 x 24 grid) in a prompt of 600 tokens: at once, the prompt ends at position 48;
  cut into the default chunks of 512 tokens, the two parts of the image are taken for a 23 x 23 and an 8 x 8
  image, and the prompt ends at position 55.
\<close>

theorem rope_split_image:
  "map_option snd (rope_loop [photo] 600 0 0) = Some 48 \<and>
   map_option snd (rope_loop (chunk_ovr 0 512 [photo]) 512 0 0) = Some 23 \<and>
   map_option snd (rope_loop (chunk_ovr 512 88 [photo]) 88 0 23) = Some 55"
proof -
  have r: "round_sqrt 576 = 24" "round_sqrt 512 = 23" "round_sqrt 64 = 8" by (rule round_sqrt_eq; simp)+
  have a: "map_option snd (rope_loop [photo] 600 0 0) = Some 48"
    unfolding photo_def using photo_end[of 576 24 600 24 "replicate 576 ()" 0] r by simp
  have c1: "chunk_ovr 0 512 [photo] = [\<lparr>eo_first = 0, eo_count = 512, eo_data = eo_data photo, eo_grid_h = 0, eo_grid_w = 0\<rparr>]"
    by (simp add: chunk_ovr_def clip_span_def photo_def List.map_filter_def Let_def del: replicate.simps)
  have c2: "chunk_ovr 512 88 [photo] = [\<lparr>eo_first = 0, eo_count = 64, eo_data = drop 512 (eo_data photo), eo_grid_h = 0, eo_grid_w = 0\<rparr>]"
    by (simp add: chunk_ovr_def clip_span_def photo_def List.map_filter_def Let_def del: replicate.simps)
  show ?thesis
    using a photo_end[of 512 23 512 23 "eo_data photo" 0] photo_end[of 64 8 88 8 "drop 512 (eo_data photo)" 23] r
    unfolding c1 c2 by simp
qed

end
