(* ===== verification/Prefix_Cache.thy ===== *)
theory Prefix_Cache
  imports Rope Tokenizer
begin

section \<open>The server's prompt prefix cache\<close>

text \<open>
  \<open>match_cov\<close>, the snapshot slots and \<open>prepare_prompt\<close>, \<open>ensure_state\<close> of \<open>server/main.cpp\<close>: how a request finds the
  longest reusable state (the live one, a checkpoint of it, or a slot parked in memory or in a file) and
  which tokens are left to prefill.

  The functions are written over the operations of the runtime they call (\<open>kv_ops\<close>); the laws these obey
  are the locale \<open>kv_runtime\<close> below, and the model of the runtime is an instance of it. Files are a map from
  paths to bytes; a disk on which writing fails is the flag \<open>pf_disk_ok\<close>. Log lines, timing and the progress
  record are left out. Prompts are nonempty: the chat templates always produce tokens.
\<close>

record img_span =
  is_first :: int
  is_count :: int
  is_hash :: "64 word"

record slot =
  sl_toks :: "int list"
  sl_imgs :: "img_span list"
  sl_stamp :: nat
  sl_blob :: "byte list"
  sl_path :: string

text \<open>The operations of the runtime the cache uses.\<close>

record 's kv_ops =
  op_toks :: "'s \<Rightarrow> int list"
  op_save :: "'s \<Rightarrow> exn + byte list"
  op_load :: "string \<Rightarrow> byte list \<Rightarrow> 's \<Rightarrow> (exn + byte list) \<times> 's"
  op_reset :: "'s \<Rightarrow> 's"
  op_best :: "int \<Rightarrow> 's \<Rightarrow> int"
  op_rewind :: "nat \<Rightarrow> 's \<Rightarrow> (exn + int) \<times> 's"

record 's prefix_cache =
  pf_rt :: 's
  pf_kv_imgs :: "img_span list"
  pf_slots :: "slot list"
  pf_clock :: nat
  pf_origin :: int
  pf_owner :: nat
  pf_ssd :: bool
  pf_files :: "string \<Rightarrow> byte list option"
  pf_disk_ok :: bool

subsection \<open>Matching a prompt\<close>

fun common :: "int list \<Rightarrow> int list \<Rightarrow> nat" where
  "common (x # xs) (y # ys) = (if x = y then Suc (common xs ys) else 0)"
| "common _ _ = 0"

text \<open>The first position where a prompt differs from the cached tokens; the last prompt token is never reused.\<close>

definition divergence :: "int list \<Rightarrow> int list \<Rightarrow> nat" where
  "divergence kv prompt = (let lim = min (length kv) (length prompt - 1) in common (take lim kv) (take lim prompt))"

text \<open>Taking tokens until their text is at least \<open>need\<close> long: the text and the number of tokens taken.\<close>

fun grow :: "tokenizer \<Rightarrow> nat \<Rightarrow> int list \<Rightarrow> string \<Rightarrow> nat \<Rightarrow> string \<times> nat" where
  "grow tk need [] sp j = (sp, j)"
| "grow tk need (t # ts) sp j = (if length sp < need then grow tk need ts (sp @ decode_token tk t) (j + 1) else (sp, j))"

definition straddles :: "nat \<Rightarrow> img_span \<Rightarrow> bool" where
  "straddles n s \<longleftrightarrow> is_first s < int n \<and> is_first s + is_count s > int n"

definition inside :: "nat \<Rightarrow> img_span \<Rightarrow> bool" where
  "inside n s \<longleftrightarrow> is_first s + is_count s \<le> int n"

definition match_cov :: "tokenizer \<Rightarrow> int list \<Rightarrow> img_span list \<Rightarrow> int list \<Rightarrow> img_span list \<Rightarrow> int" where
  "match_cov tk kv kimgs prompt spans =
     (if kv = [] \<or> prompt = [] then -1
      else
        let n0 = divergence kv prompt;
            covered0 = (n0 = length kv);
            (n, covered) =
              (if 0 < n0 \<and> \<not> covered0 then
                 let skv = decode tk (drop n0 kv);
                     (sp, j) = grow tk (length skv) (take (length prompt - 1 - n0) (drop n0 prompt)) [] n0
                 in if sp = skv then (j, True) else (n0, covered0)
               else (n0, covered0))
        in if \<not> covered \<or> n = 0 then -1
           else if \<exists>s \<in> set spans. straddles n s then -1
           else if filter (inside n) spans \<noteq> kimgs then -1
           else int n)"

subsection \<open>Slot files\<close>

definition le64 :: "64 word \<Rightarrow> byte list" where
  "le64 w = le32 (ucast w) @ le32 (ucast (drop_bit 32 w))"

definition of_le64 :: "32 word \<Rightarrow> 32 word \<Rightarrow> 64 word" where
  "of_le64 a b = ucast a OR push_bit 32 (ucast b)"

definition img_bytes :: "img_span \<Rightarrow> byte list" where
  "img_bytes s = bytes_of [word_of_int (is_first s), word_of_int (is_count s)] @ le64 (is_hash s)"

fun imgs_of_words :: "32 word list \<Rightarrow> img_span list" where
  "imgs_of_words (a # b # c # d # ws) = \<lparr>is_first = sint a, is_count = sint b, is_hash = of_le64 c d\<rparr> # imgs_of_words ws"
| "imgs_of_words _ = []"

definition SLOT_MAGIC :: "32 word" where "SLOT_MAGIC = 0x314C5351"

definition slot_header :: "int list \<Rightarrow> img_span list \<Rightarrow> byte list" where
  "slot_header toks imgs =
     bytes_of [SLOT_MAGIC, of_nat (length toks), of_nat (length imgs)] @ bytes_of (map word_of_int toks) @ concat (map img_bytes imgs)"

definition slot_skip :: "slot \<Rightarrow> nat" where
  "slot_skip sl = 12 + length (sl_toks sl) * 4 + length (sl_imgs sl) * 16"

text \<open>Reading the metadata of a slot file at startup; \<open>None\<close> leaves the slot empty.\<close>

definition read_slot_meta :: "byte list \<Rightarrow> (int list \<times> img_span list) option" where
  "read_slot_meta f =
     (if length f < 12 then None
      else let w = words_of (take 12 f); n_toks = unat (w ! 1); n_imgs = unat (w ! 2) in
        if w ! 0 \<noteq> SLOT_MAGIC \<or> \<not> n_toks < 10 * 1024 * 1024 \<or> \<not> n_imgs < 4096 then None
        else if length f < 12 + n_toks * 4 + n_imgs * 16 then None
        else Some (map sint (words_of (take (n_toks * 4) (drop 12 f))),
                   imgs_of_words (words_of (take (n_imgs * 16) (drop (12 + n_toks * 4) f)))))"

fun restore_slots :: "(string \<Rightarrow> byte list option) \<Rightarrow> slot list \<Rightarrow> nat \<Rightarrow> slot list \<times> nat" where
  "restore_slots files [] clock = ([], clock)"
| "restore_slots files (sl # sls) clock =
     (case Option.bind (files (sl_path sl)) read_slot_meta of
        None \<Rightarrow> (case restore_slots files sls clock of (r, c) \<Rightarrow> (sl\<lparr>sl_toks := [], sl_imgs := []\<rparr> # r, c))
      | Some (toks, imgs) \<Rightarrow>
          (case restore_slots files sls (clock + 1) of
             (r, c) \<Rightarrow> (sl\<lparr>sl_toks := toks, sl_imgs := imgs, sl_stamp := clock + 1\<rparr> # r, c)))"

subsection \<open>Parking the live state\<close>

text \<open>The first empty slot, else the least recently used one, never \<open>avoid\<close>.\<close>

fun lru_slot :: "int \<Rightarrow> slot list \<Rightarrow> int \<Rightarrow> nat \<Rightarrow> int \<Rightarrow> int" where
  "lru_slot avoid [] i oldest s = s"
| "lru_slot avoid (sl # sls) i oldest s =
     (if i = avoid then lru_slot avoid sls (i + 1) oldest s
      else if sl_toks sl = [] then i
      else if sl_stamp sl < oldest then lru_slot avoid sls (i + 1) (sl_stamp sl) i
      else lru_slot avoid sls (i + 1) oldest s)"

definition UINT64_MAX :: nat where "UINT64_MAX = 2 ^ 64 - 1"

definition write_slot :: "'s kv_ops \<Rightarrow> nat \<Rightarrow> 's prefix_cache \<Rightarrow> 's prefix_cache" where
  "write_slot R s pc =
     (let lt = op_toks R (pf_rt pc);
          sl = (pf_slots pc ! s)\<lparr>sl_toks := lt, sl_imgs := pf_kv_imgs pc, sl_stamp := pf_clock pc + 1\<rparr>;
          pc1 = pc\<lparr>pf_clock := pf_clock pc + 1\<rparr> in
      if pf_ssd pc then
        (case (if pf_disk_ok pc then op_save R (pf_rt pc) else Inl (Runtime_error ''short write'')) of
           Inl e \<Rightarrow> pc1\<lparr>pf_files := (pf_files pc)(sl_path sl := None), pf_slots := (pf_slots pc)[s := sl\<lparr>sl_toks := [], sl_imgs := []\<rparr>]\<rparr>
         | Inr b \<Rightarrow> pc1\<lparr>pf_files := (pf_files pc)(sl_path sl \<mapsto> slot_header lt (pf_kv_imgs pc) @ b), pf_slots := (pf_slots pc)[s := sl]\<rparr>)
      else
        (case op_save R (pf_rt pc) of
           Inl e \<Rightarrow> pc1\<lparr>pf_slots := (pf_slots pc)[s := sl\<lparr>sl_blob := []\<rparr>]\<rparr>
         | Inr b \<Rightarrow> pc1\<lparr>pf_slots := (pf_slots pc)[s := sl\<lparr>sl_blob := b\<rparr>]\<rparr>))"

definition save_live :: "'s kv_ops \<Rightarrow> int \<Rightarrow> 's prefix_cache \<Rightarrow> 's prefix_cache" where
  "save_live R avoid pc =
     (let lt = op_toks R (pf_rt pc) in
      if lt = [] \<or> pf_slots pc = [] then pc
      else let s = (if pf_origin pc < 0 \<or> pf_origin pc = avoid then lru_slot avoid (pf_slots pc) 0 UINT64_MAX (-1) else pf_origin pc) in
        if s < 0 then pc
        else if pf_origin pc = s \<and> length (sl_toks (pf_slots pc ! nat s)) = length lt then
          pc\<lparr>pf_slots := (pf_slots pc)[nat s := (pf_slots pc ! nat s)\<lparr>sl_stamp := pf_clock pc + 1\<rparr>], pf_clock := pf_clock pc + 1\<rparr>
        else write_slot R (nat s) pc)"

subsection \<open>Loading a slot\<close>

definition load_slot :: "'s kv_ops \<Rightarrow> nat \<Rightarrow> 's prefix_cache \<Rightarrow> bool \<times> 's prefix_cache" where
  "load_slot R s pc =
     (let sl = pf_slots pc ! s;
          (r, rt') =
            (if pf_ssd pc then
               (case pf_files pc (sl_path sl) of
                  None \<Rightarrow> (Inl (Runtime_error ''slot file missing''), pf_rt pc)
                | Some f \<Rightarrow> op_load R ''short read'' (drop (slot_skip sl) f) (pf_rt pc))
             else op_load R ''short blob'' (sl_blob sl) (pf_rt pc))
      in case r of
        Inl e \<Rightarrow> (False, pc\<lparr>pf_rt := op_reset R rt',
                    pf_files := (if pf_ssd pc then (pf_files pc)(sl_path sl := None) else pf_files pc),
                    pf_slots := (pf_slots pc)[s := sl\<lparr>sl_toks := [], sl_imgs := [], sl_blob := []\<rparr>]\<rparr>)
      | Inr _ \<Rightarrow> (True, pc\<lparr>pf_rt := rt', pf_kv_imgs := sl_imgs sl,
                    pf_slots := (pf_slots pc)[s := sl\<lparr>sl_stamp := pf_clock pc + 1\<rparr>], pf_clock := pf_clock pc + 1\<rparr>))"

subsection \<open>prepare\_prompt and ensure\_state\<close>

fun best_slot :: "tokenizer \<Rightarrow> int list \<Rightarrow> img_span list \<Rightarrow> slot list \<Rightarrow> int \<Rightarrow> int \<times> int \<Rightarrow> int \<times> int" where
  "best_slot tk prompt spans [] i (best, bcov) = (best, bcov)"
| "best_slot tk prompt spans (sl # sls) i (best, bcov) =
     (if sl_toks sl = [] then best_slot tk prompt spans sls (i + 1) (best, bcov)
      else let c = match_cov tk (sl_toks sl) (sl_imgs sl) prompt spans in
        best_slot tk prompt spans sls (i + 1) (if bcov < c then (i, c) else (best, bcov)))"

text \<open>Loading the slot that covers most of the prompt, when it beats a rewind; else parking a state about to be reset.\<close>

definition try_slots ::
  "'s kv_ops \<Rightarrow> tokenizer \<Rightarrow> int list \<Rightarrow> img_span list \<Rightarrow> int \<Rightarrow> int \<Rightarrow> 's prefix_cache \<Rightarrow> int \<times> int \<times> 's prefix_cache" where
  "try_slots R tk prompt spans n rew pc =
     (if n < 0 \<and> pf_slots pc \<noteq> [] then
        (case best_slot tk prompt spans (pf_slots pc) 0 (-1, -1) of
           (best, bcov) \<Rightarrow>
             if 0 \<le> best \<and> rew < bcov then
               (case load_slot R (nat best) (save_live R best pc) of
                  (True, pc') \<Rightarrow> (bcov, -1, pc'\<lparr>pf_origin := best\<rparr>)
                | (False, pc') \<Rightarrow> (n, rew, pc'))
             else if rew \<le> 0 then (n, rew, save_live R (-1) pc)
             else (n, rew, pc))
      else (n, rew, pc))"

definition try_rewind :: "'s kv_ops \<Rightarrow> int \<Rightarrow> int \<Rightarrow> 's prefix_cache \<Rightarrow> int \<times> 's prefix_cache" where
  "try_rewind R n rew pc =
     (if n < 0 \<and> 0 < rew then
        (case op_rewind R (nat rew) (pf_rt pc) of
           (Inr r, rt') \<Rightarrow> (if 0 < r then r else n, pc\<lparr>pf_rt := rt'\<rparr>)
         | (Inl e, rt') \<Rightarrow> (n, pc\<lparr>pf_rt := rt'\<rparr>))
      else (n, pc))"

definition rewind_target :: "'s kv_ops \<Rightarrow> int list \<Rightarrow> img_span list \<Rightarrow> int \<Rightarrow> 's prefix_cache \<Rightarrow> int" where
  "rewind_target R prompt spans n pc =
     (let d = divergence (op_toks R (pf_rt pc)) prompt in
      if n < 0 \<and> pf_kv_imgs pc = [] \<and> spans = [] \<and> 0 < d then op_best R (int d) (pf_rt pc) else -1)"

text \<open>The part of \<open>prepare_prompt\<close> that makes the live state the longest usable prefix: how many prompt tokens it covers.\<close>

definition reuse :: "'s kv_ops \<Rightarrow> tokenizer \<Rightarrow> int list \<Rightarrow> img_span list \<Rightarrow> 's prefix_cache \<Rightarrow> int \<times> 's prefix_cache" where
  "reuse R tk prompt spans pc =
     (let n = match_cov tk (op_toks R (pf_rt pc)) (pf_kv_imgs pc) prompt spans in
      case try_slots R tk prompt spans n (rewind_target R prompt spans n pc) pc of
        (n1, rew, pc1) \<Rightarrow>
          (case try_rewind R n1 rew pc1 of
             (n2, pc2) \<Rightarrow> if n2 < 0 then (0, pc2\<lparr>pf_rt := op_reset R (pf_rt pc2), pf_origin := -1\<rparr>) else (n2, pc2)))"

definition shift_overrides :: "int \<Rightarrow> 'd embd_override list \<Rightarrow> 'd embd_override list" where
  "shift_overrides n ovr =
     map (\<lambda>o1. \<lparr>eo_first = eo_first o1 - n, eo_count = eo_count o1, eo_data = eo_data o1, eo_grid_h = 0, eo_grid_w = 0\<rparr>)
       (filter (\<lambda>o1. n \<le> eo_first o1) ovr)"

definition prepare_prompt ::
  "'s kv_ops \<Rightarrow> tokenizer \<Rightarrow> int list \<Rightarrow> 'd embd_override list \<Rightarrow> img_span list \<Rightarrow> nat \<Rightarrow> 's prefix_cache \<Rightarrow>
   (int \<times> int list \<times> 'd embd_override list) \<times> 's prefix_cache" where
  "prepare_prompt R tk prompt ovr spans owner pc =
     (case reuse R tk prompt spans pc of
        (n, pc1) \<Rightarrow>
          ((n, if 0 < n then drop (nat n) prompt else prompt, if 0 < n then shift_overrides n ovr else ovr),
           pc1\<lparr>pf_kv_imgs := spans, pf_owner := owner\<rparr>))"

definition yieldable :: "bool \<Rightarrow> 's prefix_cache \<Rightarrow> bool" where
  "yieldable is_contended pc = (is_contended \<and> pf_slots pc \<noteq> [])"

fun find_slot :: "int list \<Rightarrow> slot list \<Rightarrow> int \<Rightarrow> int" where
  "find_slot toks [] i = -1"
| "find_slot toks (sl # sls) i = (if sl_toks sl \<noteq> [] \<and> sl_toks sl = toks then i else find_slot toks sls (i + 1))"

text \<open>The result: whether the state is available, and whether the caller has to decode its tokens again.\<close>

definition ensure_state :: "'s kv_ops \<Rightarrow> nat \<Rightarrow> int list \<Rightarrow> img_span list \<Rightarrow> bool \<Rightarrow> 's prefix_cache \<Rightarrow> (bool \<times> bool) \<times> 's prefix_cache" where
  "ensure_state R owner my_toks my_imgs had_images pc =
     (if pf_owner pc = owner then ((True, False), pc)
      else
        let s = find_slot my_toks (pf_slots pc) 0;
            (loaded, pc1) = (if 0 \<le> s then load_slot R (nat s) (save_live R s pc) else (False, pc))
        in if loaded then ((True, False), pc1\<lparr>pf_origin := s, pf_owner := owner\<rparr>)
           else if had_images then ((False, False), pc1)
           else let pc2 = save_live R (-1) pc1 in
             ((True, True), pc2\<lparr>pf_rt := op_reset R (pf_rt pc2), pf_origin := -1, pf_owner := owner, pf_kv_imgs := my_imgs\<rparr>))"

subsection \<open>What a match means\<close>

lemma common_le: "common xs ys \<le> length xs" "common xs ys \<le> length ys"
  by (induction xs ys rule: common.induct) auto

lemma common_take: "take (common xs ys) xs = take (common xs ys) ys"
  by (induction xs ys rule: common.induct) auto

lemma common_full: "common xs ys = length xs \<Longrightarrow> xs = take (length xs) ys"
  using common_take[of xs ys] by simp

lemma divergence_spec:
  "divergence kv prompt \<le> length kv" "divergence kv prompt \<le> length prompt - 1"
  "take (divergence kv prompt) kv = take (divergence kv prompt) prompt"
proof -
  define lim where "lim = min (length kv) (length prompt - 1)"
  have d: "divergence kv prompt = common (take lim kv) (take lim prompt)" by (simp add: divergence_def lim_def Let_def)
  have le: "divergence kv prompt \<le> lim" unfolding d using common_le(1)[of "take lim kv" "take lim prompt"] by simp
  then show "divergence kv prompt \<le> length kv" "divergence kv prompt \<le> length prompt - 1" by (simp_all add: lim_def)
  have "take (divergence kv prompt) (take lim kv) = take (divergence kv prompt) (take lim prompt)" unfolding d by (rule common_take)
  then show "take (divergence kv prompt) kv = take (divergence kv prompt) prompt" using le by (simp add: min_def)
qed

lemma grow_spec:
  assumes "grow tk n ts sp j = (sp', j')"
  shows "\<exists>k \<le> length ts. j' = j + k \<and> sp' = sp @ decode tk (take k ts)"
  using assms
proof (induction tk n ts sp j rule: grow.induct)
  case (2 tk n t ts sp j)
  show ?case
  proof (cases "length sp < n")
    case True
    then obtain k where "k \<le> length ts" "j' = j + 1 + k" "sp' = (sp @ decode_token tk t) @ decode tk (take k ts)" using 2 by auto
    then show ?thesis by (intro exI[of _ "Suc k"]) (simp add: decode_Cons)
  qed (use 2 in auto)
qed auto

lemma match_cov_ok:
  assumes "match_cov tk kv kimgs prompt spans = r" "0 \<le> r"
  shows "0 < r" "nat r < length prompt" "decode tk kv = decode tk (take (nat r) prompt)" "filter (inside (nat r)) spans = kimgs"
    "\<forall>s \<in> set spans. \<not> straddles (nat r) s"
proof -
  define n0 where "n0 = divergence kv prompt"
  have ne: "kv \<noteq> []" "prompt \<noteq> []" using assms by (auto simp: match_cov_def split: if_splits)
  have le: "n0 \<le> length kv" "n0 \<le> length prompt - 1" and t0: "take n0 kv = take n0 prompt"
    unfolding n0_def by (rule divergence_spec)+
  obtain n c where nc: "(if 0 < n0 \<and> n0 \<noteq> length kv then
       let skv = decode tk (drop n0 kv); (sp, j) = grow tk (length skv) (take (length prompt - 1 - n0) (drop n0 prompt)) [] n0
       in if sp = skv then (j, True) else (n0, n0 = length kv)
     else (n0, n0 = length kv)) = (n, c)" by (metis surj_pair)
  have m: "match_cov tk kv kimgs prompt spans = (if \<not> c \<or> n = 0 then -1 else if \<exists>s \<in> set spans. straddles n s then -1
      else if filter (inside n) spans \<noteq> kimgs then -1 else int n)"
    unfolding match_cov_def by (simp only: Let_def n0_def[symmetric] nc[unfolded Let_def] prod.case ne simp_thms if_False)
  have r: "c" "n \<noteq> 0" "\<not> (\<exists>s \<in> set spans. straddles n s)" "filter (inside n) spans = kimgs" "r = int n"
    using assms m by (auto split: if_splits)
  have tx: "decode tk kv = decode tk (take n prompt) \<and> n \<le> length prompt - 1"
  proof (cases "n0 = length kv")
    case True
    then show ?thesis using nc t0 le by auto
  next
    case False
    have n0: "0 < n0"
    proof (rule ccontr)
      assume "\<not> 0 < n0"
      then show False using nc r(1) False by (simp split: if_splits)
    qed
    obtain sp j where g: "grow tk (length (decode tk (drop n0 kv))) (take (length prompt - 1 - n0) (drop n0 prompt)) [] n0 = (sp, j)"
      by (metis surj_pair)
    have sj: "sp = decode tk (drop n0 kv)" "n = j" using nc n0 False r(1) g by (auto simp: Let_def split: if_splits)
    obtain k where k: "k \<le> length (take (length prompt - 1 - n0) (drop n0 prompt))" "j = n0 + k"
      "sp = [] @ decode tk (take k (take (length prompt - 1 - n0) (drop n0 prompt)))" using grow_spec[OF g] by blast
    have kl: "k \<le> length prompt - 1 - n0" using k(1) by simp
    have "decode tk kv = decode tk (take n0 kv) @ decode tk (drop n0 kv)" by (metis append_take_drop_id decode_append(1))
    also have "\<dots> = decode tk (take n0 prompt) @ decode tk (take k (drop n0 prompt))"
      using sj(1) k(3) kl t0 by (simp add: min_def)
    also have "\<dots> = decode tk (take (n0 + k) prompt)" by (simp add: take_add)
    finally show ?thesis using sj(2) k(2) kl le by simp
  qed
  show "0 < r" "nat r < length prompt" "decode tk kv = decode tk (take (nat r) prompt)" "filter (inside (nat r)) spans = kimgs"
    "\<forall>s \<in> set spans. \<not> straddles (nat r) s"
    using r tx ne by (auto simp: neq_Nil_conv)
qed

lemma lru_slot_range:
  "lru_slot avoid sls i oldest s = s \<or> (i \<le> lru_slot avoid sls i oldest s \<and> lru_slot avoid sls i oldest s < i + int (length sls) \<and>
     lru_slot avoid sls i oldest s \<noteq> avoid)"
proof (induction avoid sls i oldest s rule: lru_slot.induct)
  case (2 avoid sl sls i oldest s)
  then show ?case by (cases "i = avoid"; cases "sl_toks sl = []"; cases "sl_stamp sl < oldest") auto
qed simp

lemma best_slot_spec:
  assumes "best_slot tk prompt spans sls i (b, c) = (b', c')" "c \<ge> -1"
  shows "(b', c') = (b, c) \<or> (i \<le> b' \<and> b' < i + int (length sls) \<and> 0 \<le> c' \<and> sl_toks (sls ! nat (b' - i)) \<noteq> [] \<and>
     match_cov tk (sl_toks (sls ! nat (b' - i))) (sl_imgs (sls ! nat (b' - i))) prompt spans = c')"
  using assms
proof (induction sls arbitrary: i b c)
  case (Cons sl sls)
  define c2 where "c2 = match_cov tk (sl_toks sl) (sl_imgs sl) prompt spans"
  have shift: "nat (b' - i) = Suc (nat (b' - (i + 1)))" if "i + 1 \<le> b'" using that by simp
  show ?case
  proof (cases "sl_toks sl \<noteq> [] \<and> c < c2")
    case True
    then have "best_slot tk prompt spans sls (i + 1) (i, c2) = (b', c')" "c2 \<ge> -1" using Cons.prems by (simp_all add: c2_def Let_def)
    from Cons.IH[OF this] show ?thesis
    proof
      assume "(b', c') = (i, c2)"
      then show ?thesis using True Cons.prems(2) by (auto simp: c2_def)
    next
      assume a: "i + 1 \<le> b' \<and> b' < i + 1 + int (length sls) \<and> 0 \<le> c' \<and> sl_toks (sls ! nat (b' - (i + 1))) \<noteq> [] \<and>
        match_cov tk (sl_toks (sls ! nat (b' - (i + 1)))) (sl_imgs (sls ! nat (b' - (i + 1)))) prompt spans = c'"
      then show ?thesis using shift by auto
    qed
  next
    case False
    then have "best_slot tk prompt spans sls (i + 1) (b, c) = (b', c')" using Cons.prems by (auto simp: c2_def Let_def split: if_splits)
    from Cons.IH[OF this Cons.prems(2)] shift show ?thesis by auto
  qed
qed simp

lemma find_slot_spec:
  "find_slot toks sls i = -1 \<or> (i \<le> find_slot toks sls i \<and> find_slot toks sls i < i + int (length sls) \<and>
     sl_toks (sls ! nat (find_slot toks sls i - i)) = toks \<and> toks \<noteq> [])"
proof (induction toks sls i rule: find_slot.induct)
  case (2 toks sl sls i)
  show ?case
  proof (cases "sl_toks sl \<noteq> [] \<and> sl_toks sl = toks")
    case False
    have "nat (find_slot toks sls (i + 1) - i) = Suc (nat (find_slot toks sls (i + 1) - (i + 1)))" if "i + 1 \<le> find_slot toks sls (i + 1)"
      using that by simp
    then show ?thesis using 2[OF False] False by auto
  qed auto
qed simp

lemma find_slot_finds: "toks \<noteq> [] \<Longrightarrow> toks \<in> sl_toks ` set sls \<Longrightarrow> i \<le> find_slot toks sls i"
  by (induction toks sls i rule: find_slot.induct) force+

text \<open>A cache all of whose states are text, and that the operations of text sessions keep it so.\<close>

definition text_only :: "'s prefix_cache \<Rightarrow> bool" where
  "text_only pc \<longleftrightarrow> pf_kv_imgs pc = [] \<and> (\<forall>sl \<in> set (pf_slots pc). sl_imgs sl = [])"

lemma text_only_update:
  assumes "text_only pc" "pf_kv_imgs pc' = []" "pf_slots pc' = (pf_slots pc)[s := sl]" "s < length (pf_slots pc) \<Longrightarrow> sl_imgs sl = []"
  shows "text_only pc'"
  using assms set_update_subset_insert[of "pf_slots pc" s sl]
  by (cases "s < length (pf_slots pc)") (auto simp: text_only_def list_update_beyond)

lemma text_only_write:
  assumes "text_only pc"
  shows "text_only (write_slot R s pc)"
proof -
  have k: "pf_kv_imgs pc = []" using assms by (simp add: text_only_def)
  have "\<exists>sl. pf_kv_imgs (write_slot R s pc) = [] \<and> pf_slots (write_slot R s pc) = (pf_slots pc)[s := sl] \<and> sl_imgs sl = []"
    by (auto simp: write_slot_def Let_def k split: sum.splits)
  then show ?thesis using text_only_update[OF assms] by metis
qed

lemma text_only_nth: "text_only pc \<Longrightarrow> s < length (pf_slots pc) \<Longrightarrow> sl_imgs (pf_slots pc ! s) = []"
  by (simp add: text_only_def)

lemma text_only_save_live:
  assumes "text_only pc"
  shows "text_only (save_live R avoid pc)"
proof -
  have "text_only (pc\<lparr>pf_slots := (pf_slots pc)[s := (pf_slots pc ! s)\<lparr>sl_stamp := c\<rparr>], pf_clock := c\<rparr>)" for s c
    by (rule text_only_update[OF assms, of _ s "(pf_slots pc ! s)\<lparr>sl_stamp := c\<rparr>"])
      (use assms text_only_nth[OF assms] in \<open>simp_all add: text_only_def\<close>)
  then show ?thesis using assms text_only_write[OF assms] by (simp add: save_live_def Let_def)
qed

lemma text_only_load_slot:
  assumes "text_only pc" "s < length (pf_slots pc)"
  shows "text_only (snd (load_slot R s pc))"
proof -
  have "sl_imgs (pf_slots pc ! s) = []" "pf_kv_imgs pc = []" using assms text_only_nth by (auto simp: text_only_def)
  then show ?thesis
    by (auto simp: load_slot_def Let_def split: prod.splits sum.splits intro: text_only_update[OF assms(1)])
qed

subsection \<open>The contract of the runtime, and the cache over it\<close>

text \<open>
  \<open>ok im s\<close>: a state whose history has the images \<open>im\<close>; \<open>ok [] s\<close> is the promise for text, that the state is what
  its tokens say. \<open>compat s\<close>: a state of the same model, whatever it holds; \<open>holds im b ts\<close>: the bytes \<open>b\<close> were saved
  from a state with \<open>ok im\<close> and tokens \<open>ts\<close>. A promise stays valid when images are added to the list.
\<close>

locale kv_runtime =
  fixes R :: "'s kv_ops"
    and ok :: "img_span list \<Rightarrow> 's \<Rightarrow> bool"
    and compat :: "'s \<Rightarrow> bool"
    and holds :: "img_span list \<Rightarrow> byte list \<Rightarrow> int list \<Rightarrow> bool"
  assumes ok_compat: "ok im s \<Longrightarrow> compat s"
    and ok_more: "ok im s \<Longrightarrow> (im' = [] \<Longrightarrow> im = []) \<Longrightarrow> ok im' s"
    and save_ok: "ok im s \<Longrightarrow> \<exists>b. op_save R s = Inr b \<and> holds im b (op_toks R s)"
    and load_ok: "compat s \<Longrightarrow> holds im b ts \<Longrightarrow> \<exists>s'. op_load R msg b s = (Inr [], s') \<and> ok im s' \<and> op_toks R s' = ts"
    and reset_ok: "compat s \<Longrightarrow> ok [] (op_reset R s) \<and> op_toks R (op_reset R s) = []"
    and rewind_all: "length (op_toks R s) \<le> n \<Longrightarrow> op_rewind R n s = (Inr (int (length (op_toks R s))), s)"
    and rewind_ok: "ok [] s \<Longrightarrow> 0 < n \<Longrightarrow> n < length (op_toks R s) \<Longrightarrow> \<exists>r s'. op_rewind R n s = (Inr r, s') \<and> ok [] s' \<and>
      (r = -1 \<and> s' = s \<or> (\<exists>p. r = int p \<and> 0 < p \<and> p \<le> n \<and> op_toks R s' = take p (op_toks R s)))"
    and best_range: "0 < d \<Longrightarrow> -1 \<le> op_best R d s \<and> op_best R d s \<le> d"
begin

definition slot_ok :: "bool \<Rightarrow> (string \<Rightarrow> byte list option) \<Rightarrow> slot \<Rightarrow> bool" where
  "slot_ok ssd files sl \<longleftrightarrow> sl_toks sl = [] \<or>
     (if ssd then files (sl_path sl) = None \<or>
        (\<exists>b. files (sl_path sl) = Some (slot_header (sl_toks sl) (sl_imgs sl) @ b) \<and> holds (sl_imgs sl) b (sl_toks sl))
      else holds (sl_imgs sl) (sl_blob sl) (sl_toks sl))"

lemma reset_any: "compat s \<Longrightarrow> ok im (op_reset R s) \<and> op_toks R (op_reset R s) = []"
  using reset_ok[of s] ok_more[of "[]" "op_reset R s" im] by blast

lemma slot_ok_stamp: "slot_ok ssd files (sl\<lparr>sl_stamp := c\<rparr>) = slot_ok ssd files sl"
  by (simp add: slot_ok_def)

definition cache_inv :: "'s prefix_cache \<Rightarrow> bool" where
  "cache_inv pc \<longleftrightarrow> ok (pf_kv_imgs pc) (pf_rt pc) \<and> (\<forall>sl \<in> set (pf_slots pc). slot_ok (pf_ssd pc) (pf_files pc) sl) \<and>
     distinct (map sl_path (pf_slots pc)) \<and> pf_origin pc < int (length (pf_slots pc))"

lemma slot_header_len: "length (slot_header toks imgs) = 12 + length toks * 4 + length imgs * 16"
proof -
  have "length (concat (map img_bytes imgs)) = length imgs * 16" by (induction imgs) (simp_all add: img_bytes_def le64_def)
  then show ?thesis by (simp add: slot_header_def)
qed

text \<open>Replacing one slot, its path kept, and possibly its file.\<close>

lemma slots_update:
  assumes "cache_inv pc" "s < length (pf_slots pc)" "pf_slots pc' = (pf_slots pc)[s := sl]" "sl_path sl = sl_path (pf_slots pc ! s)"
    "\<forall>p. p \<noteq> sl_path sl \<longrightarrow> pf_files pc' p = pf_files pc p" "slot_ok (pf_ssd pc) (pf_files pc') sl" "ok (pf_kv_imgs pc') (pf_rt pc')"
    "pf_ssd pc' = pf_ssd pc" "pf_origin pc' = pf_origin pc"
  shows "cache_inv pc'"
proof -
  have d: "distinct (map sl_path (pf_slots pc))" using assms(1) by (simp add: cache_inv_def)
  have m: "map sl_path ((pf_slots pc)[s := sl]) = map sl_path (pf_slots pc)"
    using assms(2,4) by (simp add: map_update list_update_same_conv)
  have "slot_ok (pf_ssd pc) (pf_files pc') x" if x: "x \<in> set ((pf_slots pc)[s := sl])" for x
  proof -
    obtain i where i: "i < length (pf_slots pc)" "x = (pf_slots pc)[s := sl] ! i" using x by (auto simp: in_set_conv_nth)
    show ?thesis
    proof (cases "i = s")
      case False
      then have e: "x = pf_slots pc ! i" using i by simp
      have "sl_path x \<noteq> sl_path sl"
        using d i(1) assms(2,4) False e by (metis length_map nth_eq_iff_index_eq nth_map)
      then have f: "pf_files pc' (sl_path x) = pf_files pc (sl_path x)" using assms(5) by blast
      have "slot_ok (pf_ssd pc) (pf_files pc) x" using assms(1) i(1) e by (simp add: cache_inv_def)
      then show ?thesis unfolding slot_ok_def f .
    qed (use i assms(2,6) in simp)
  qed
  then show ?thesis using assms(1,3,7-9) d m by (simp add: cache_inv_def)
qed

lemma write_slot_inv:
  assumes "cache_inv pc" "s < length (pf_slots pc)"
  shows "cache_inv (write_slot R s pc)" "pf_rt (write_slot R s pc) = pf_rt pc" "pf_kv_imgs (write_slot R s pc) = pf_kv_imgs pc"
    "pf_origin (write_slot R s pc) = pf_origin pc" "pf_owner (write_slot R s pc) = pf_owner pc" "length (pf_slots (write_slot R s pc)) = length (pf_slots pc)"
    "pf_ssd (write_slot R s pc) = pf_ssd pc" "i \<noteq> s \<Longrightarrow> pf_slots (write_slot R s pc) ! i = pf_slots pc ! i"
proof -
  define sl where "sl = (pf_slots pc ! s)\<lparr>sl_toks := op_toks R (pf_rt pc), sl_imgs := pf_kv_imgs pc, sl_stamp := pf_clock pc + 1\<rparr>"
  have okr: "ok (pf_kv_imgs pc) (pf_rt pc)" using assms(1) by (simp add: cache_inv_def)
  obtain b where b: "op_save R (pf_rt pc) = Inr b" "holds (pf_kv_imgs pc) b (op_toks R (pf_rt pc))" using save_ok[OF okr] by blast
  define pc' where "pc' = write_slot R s pc"
  have frame: "pf_rt pc' = pf_rt pc \<and> pf_kv_imgs pc' = pf_kv_imgs pc \<and> pf_origin pc' = pf_origin pc \<and> pf_owner pc' = pf_owner pc \<and>
    pf_ssd pc' = pf_ssd pc \<and> length (pf_slots pc') = length (pf_slots pc) \<and> (i \<noteq> s \<longrightarrow> pf_slots pc' ! i = pf_slots pc ! i)"
    using b by (simp add: pc'_def write_slot_def Let_def)
  have slots: "\<exists>sl'. pf_slots pc' = (pf_slots pc)[s := sl'] \<and> sl_path sl' = sl_path (pf_slots pc ! s) \<and>
      (\<forall>p. p \<noteq> sl_path sl' \<longrightarrow> pf_files pc' p = pf_files pc p) \<and> slot_ok (pf_ssd pc) (pf_files pc') sl'"
  proof (cases "pf_ssd pc")
    case ssd: True
    then show ?thesis
    proof (cases "pf_disk_ok pc")
      case True
      then show ?thesis using ssd b
        by (intro exI[of _ sl]) (auto simp: pc'_def write_slot_def Let_def sl_def slot_ok_def)
    next
      case False
      then show ?thesis using ssd
        by (intro exI[of _ "sl\<lparr>sl_toks := [], sl_imgs := []\<rparr>"]) (auto simp: pc'_def write_slot_def Let_def sl_def slot_ok_def)
    qed
  next
    case False
    then show ?thesis using b
      by (intro exI[of _ "sl\<lparr>sl_blob := b\<rparr>"]) (auto simp: pc'_def write_slot_def Let_def sl_def slot_ok_def)
  qed
  have "cache_inv pc'"
    using slots slots_update[OF assms, of pc'] frame okr by metis
  then show "cache_inv (write_slot R s pc)" "pf_rt (write_slot R s pc) = pf_rt pc" "pf_kv_imgs (write_slot R s pc) = pf_kv_imgs pc"
    "pf_origin (write_slot R s pc) = pf_origin pc" "pf_owner (write_slot R s pc) = pf_owner pc" "length (pf_slots (write_slot R s pc)) = length (pf_slots pc)"
    "pf_ssd (write_slot R s pc) = pf_ssd pc" "i \<noteq> s \<Longrightarrow> pf_slots (write_slot R s pc) ! i = pf_slots pc ! i"
    using frame unfolding pc'_def by blast+
qed

lemma save_live_inv:
  assumes "cache_inv pc" "-1 \<le> avoid"
  shows "cache_inv (save_live R avoid pc)" "pf_rt (save_live R avoid pc) = pf_rt pc" "pf_kv_imgs (save_live R avoid pc) = pf_kv_imgs pc"
    "pf_owner (save_live R avoid pc) = pf_owner pc" "pf_origin (save_live R avoid pc) = pf_origin pc" "length (pf_slots (save_live R avoid pc)) = length (pf_slots pc)"
    "pf_ssd (save_live R avoid pc) = pf_ssd pc" "0 \<le> avoid \<Longrightarrow> pf_slots (save_live R avoid pc) ! nat avoid = pf_slots pc ! nat avoid"
proof -
  define pc' where "pc' = save_live R avoid pc"
  define s where "s = (if pf_origin pc < 0 \<or> pf_origin pc = avoid then lru_slot avoid (pf_slots pc) 0 UINT64_MAX (-1) else pf_origin pc)"
  have sl: "pc' = (if op_toks R (pf_rt pc) = [] \<or> pf_slots pc = [] then pc else if s < 0 then pc
      else if pf_origin pc = s \<and> length (sl_toks (pf_slots pc ! nat s)) = length (op_toks R (pf_rt pc)) then
        pc\<lparr>pf_slots := (pf_slots pc)[nat s := (pf_slots pc ! nat s)\<lparr>sl_stamp := pf_clock pc + 1\<rparr>], pf_clock := pf_clock pc + 1\<rparr>
      else write_slot R (nat s) pc)"
    unfolding pc'_def save_live_def Let_def s_def by (rule refl)
  have "cache_inv pc' \<and> pf_rt pc' = pf_rt pc \<and> pf_kv_imgs pc' = pf_kv_imgs pc \<and> pf_owner pc' = pf_owner pc \<and> pf_origin pc' = pf_origin pc \<and>
    length (pf_slots pc') = length (pf_slots pc) \<and> pf_ssd pc' = pf_ssd pc \<and> (0 \<le> avoid \<longrightarrow> pf_slots pc' ! nat avoid = pf_slots pc ! nat avoid)"
  proof (cases "op_toks R (pf_rt pc) = [] \<or> pf_slots pc = [] \<or> s < 0")
    case True
    then have "pc' = pc" by (auto simp: sl)
    then show ?thesis using assms by simp
  next
    case False
    have sr: "s < int (length (pf_slots pc))" "s \<noteq> avoid"
      using False lru_slot_range[of avoid "pf_slots pc" 0 UINT64_MAX "-1"] assms(1) by (auto simp: s_def cache_inv_def split: if_splits)
    then have sn: "nat s < length (pf_slots pc)" and ne: "0 \<le> avoid \<Longrightarrow> nat s \<noteq> nat avoid" using False by auto
    show ?thesis
    proof (cases "pf_origin pc = s \<and> length (sl_toks (pf_slots pc ! nat s)) = length (op_toks R (pf_rt pc))")
      case True
      let ?sl = "(pf_slots pc ! nat s)\<lparr>sl_stamp := pf_clock pc + 1\<rparr>"
      have e: "pc' = pc\<lparr>pf_slots := (pf_slots pc)[nat s := ?sl], pf_clock := pf_clock pc + 1\<rparr>"
        using True False by (simp only: sl) simp
      have "slot_ok (pf_ssd pc) (pf_files pc) (pf_slots pc ! nat s)" using assms(1) sn by (simp add: cache_inv_def)
      then have so: "slot_ok (pf_ssd pc) (pf_files pc) ?sl" by (simp add: slot_ok_stamp)
      have "cache_inv pc'"
        by (rule slots_update[OF assms(1) sn, of pc' ?sl]) (use assms(1) so in \<open>auto simp: cache_inv_def e\<close>)
      then show ?thesis using ne by (auto simp: e)
    next
      case no: False
      have e: "pc' = write_slot R (nat s) pc"
        using no False by (auto simp: sl)
      show ?thesis using write_slot_inv[OF assms(1) sn] ne by (auto simp: e)
    qed
  qed
  then show "cache_inv (save_live R avoid pc)" "pf_rt (save_live R avoid pc) = pf_rt pc" "pf_kv_imgs (save_live R avoid pc) = pf_kv_imgs pc"
    "pf_owner (save_live R avoid pc) = pf_owner pc" "pf_origin (save_live R avoid pc) = pf_origin pc" "length (pf_slots (save_live R avoid pc)) = length (pf_slots pc)"
    "pf_ssd (save_live R avoid pc) = pf_ssd pc" "0 \<le> avoid \<Longrightarrow> pf_slots (save_live R avoid pc) ! nat avoid = pf_slots pc ! nat avoid"
    unfolding pc'_def by blast+
qed

lemma load_slot_inv:
  assumes "cache_inv pc" "s < length (pf_slots pc)" "sl_toks (pf_slots pc ! s) \<noteq> []" "load_slot R s pc = (b, pc')"
  shows "cache_inv pc'" "pf_owner pc' = pf_owner pc" "length (pf_slots pc') = length (pf_slots pc)" "pf_origin pc' = pf_origin pc"
    "b \<Longrightarrow> op_toks R (pf_rt pc') = sl_toks (pf_slots pc ! s) \<and> pf_kv_imgs pc' = sl_imgs (pf_slots pc ! s)"
    "\<not> b \<Longrightarrow> op_toks R (pf_rt pc') = [] \<and> pf_kv_imgs pc' = pf_kv_imgs pc" "\<not> pf_ssd pc \<Longrightarrow> b"
proof -
  let ?sl = "pf_slots pc ! s"
  have okr: "ok (pf_kv_imgs pc) (pf_rt pc)" and cr: "compat (pf_rt pc)" using assms(1) ok_compat by (auto simp: cache_inv_def)
  have so: "slot_ok (pf_ssd pc) (pf_files pc) ?sl" using assms(1,2) by (simp add: cache_inv_def)
  have "cache_inv pc' \<and> pf_owner pc' = pf_owner pc \<and> length (pf_slots pc') = length (pf_slots pc) \<and> pf_origin pc' = pf_origin pc \<and>
    (b \<longrightarrow> op_toks R (pf_rt pc') = sl_toks ?sl \<and> pf_kv_imgs pc' = sl_imgs ?sl) \<and> (\<not> b \<longrightarrow> op_toks R (pf_rt pc') = [] \<and> pf_kv_imgs pc' = pf_kv_imgs pc) \<and> (\<not> pf_ssd pc \<longrightarrow> b)"
  proof (cases "pf_ssd pc \<and> pf_files pc (sl_path ?sl) = None")
    case True
    have e: "b = False" "pc' = pc\<lparr>pf_rt := op_reset R (pf_rt pc), pf_files := (pf_files pc)(sl_path ?sl := None),
        pf_slots := (pf_slots pc)[s := ?sl\<lparr>sl_toks := [], sl_imgs := [], sl_blob := []\<rparr>]\<rparr>"
      using assms(4) True by (auto simp: load_slot_def Let_def)
    have "cache_inv pc'"
      by (rule slots_update[OF assms(1,2), of pc' "?sl\<lparr>sl_toks := [], sl_imgs := [], sl_blob := []\<rparr>"])
        (use reset_any[OF cr] in \<open>auto simp: e slot_ok_def\<close>)
    then show ?thesis using reset_any[OF cr] True by (simp add: e)
  next
    case False
    define bs where "bs = (if pf_ssd pc then drop (slot_skip ?sl) (the (pf_files pc (sl_path ?sl))) else sl_blob ?sl)"
    define msg where "msg = (if pf_ssd pc then ''short read'' else ''short blob'')"
    have h: "holds (sl_imgs ?sl) bs (sl_toks ?sl)"
      using so assms(3) False by (auto simp: slot_ok_def bs_def slot_skip_def slot_header_len split: if_splits)
    obtain rt' where rt': "op_load R msg bs (pf_rt pc) = (Inr [], rt')" "ok (sl_imgs ?sl) rt'" "op_toks R rt' = sl_toks ?sl"
      using load_ok[OF cr h] by blast
    let ?nsl = "?sl\<lparr>sl_stamp := pf_clock pc + 1\<rparr>"
    have e: "b = True" "pc' = pc\<lparr>pf_rt := rt', pf_kv_imgs := sl_imgs ?sl, pf_slots := (pf_slots pc)[s := ?nsl], pf_clock := pf_clock pc + 1\<rparr>"
      using assms(4) False rt'(1) by (auto simp: load_slot_def Let_def bs_def msg_def split: if_splits option.splits)
    have so': "slot_ok (pf_ssd pc) (pf_files pc) ?nsl" using so by (simp add: slot_ok_stamp)
    have "cache_inv pc'"
      by (rule slots_update[OF assms(1,2), of pc' ?nsl]) (use rt'(2) so' in \<open>auto simp: e\<close>)
    then show ?thesis using rt'(3) by (simp add: e)
  qed
  then show "cache_inv pc'" "pf_owner pc' = pf_owner pc" "length (pf_slots pc') = length (pf_slots pc)" "pf_origin pc' = pf_origin pc"
    "b \<Longrightarrow> op_toks R (pf_rt pc') = sl_toks ?sl \<and> pf_kv_imgs pc' = sl_imgs ?sl"
    "\<not> b \<Longrightarrow> op_toks R (pf_rt pc') = [] \<and> pf_kv_imgs pc' = pf_kv_imgs pc" "\<not> pf_ssd pc \<Longrightarrow> b" by blast+
qed

lemma set_origin_inv: "cache_inv pc \<Longrightarrow> i < int (length (pf_slots pc)) \<Longrightarrow> cache_inv (pc\<lparr>pf_origin := i\<rparr>)"
  by (simp add: cache_inv_def)

lemma set_rt_inv: "cache_inv pc \<Longrightarrow> ok (pf_kv_imgs pc) rt' \<Longrightarrow> cache_inv (pc\<lparr>pf_rt := rt'\<rparr>)"
  by (simp add: cache_inv_def)

lemma reset_inv: "cache_inv pc \<Longrightarrow> cache_inv (pc\<lparr>pf_rt := op_reset R (pf_rt pc), pf_origin := -1\<rparr>)"
  using reset_any ok_compat by (simp add: cache_inv_def) blast

text \<open>What \<open>reuse\<close> promises of its result.\<close>

definition reuse_post :: "tokenizer \<Rightarrow> int list \<Rightarrow> img_span list \<Rightarrow> int \<Rightarrow> 's prefix_cache \<Rightarrow> bool" where
  "reuse_post tk prompt spans n pc \<longleftrightarrow> cache_inv pc \<and> 0 \<le> n \<and> n < int (length prompt) \<and>
     decode tk (op_toks R (pf_rt pc)) = decode tk (take (nat n) prompt) \<and>
     (n = 0 \<longrightarrow> ok [] (pf_rt pc)) \<and>
     (0 < n \<longrightarrow> filter (inside (nat n)) spans = pf_kv_imgs pc \<and> (\<forall>s \<in> set spans. \<not> straddles (nat n) s))"

lemma before_divergence:
  assumes "match_cov tk kv [] prompt [] < 0" "0 < divergence kv prompt"
  shows "divergence kv prompt < length kv"
proof -
  have "divergence kv prompt \<noteq> length kv"
  proof
    assume d: "divergence kv prompt = length kv"
    have "kv \<noteq> []" "prompt \<noteq> []" using assms(2) divergence_spec(1,2)[of kv prompt] by auto
    then have "match_cov tk kv [] prompt [] = int (length kv)"
      unfolding match_cov_def Let_def d by simp
    then show False using assms(1) by simp
  qed
  then show ?thesis using divergence_spec(1)[of kv prompt] by simp
qed

lemma save_live_stage:
  assumes "cache_inv pc" "-1 \<le> avoid"
  shows "\<exists>pc'. save_live R avoid pc = pc' \<and> cache_inv pc' \<and> pf_rt pc' = pf_rt pc \<and> pf_kv_imgs pc' = pf_kv_imgs pc \<and>
    length (pf_slots pc') = length (pf_slots pc) \<and> pf_owner pc' = pf_owner pc \<and> pf_ssd pc' = pf_ssd pc \<and>
    (0 \<le> avoid \<longrightarrow> pf_slots pc' ! nat avoid = pf_slots pc ! nat avoid)"
  using save_live_inv[OF assms] by blast

text \<open>
  After the slots: a loaded slot that covers the prompt, or a state about to be rewound (untouched, or empty
  after a failed load), or one about to be reset.
\<close>

lemma try_slots_ok:
  assumes "cache_inv pc" "try_slots R tk prompt spans n rew pc = (n1, rew1, pc1)" "n < 0" "-1 \<le> rew"
  shows "cache_inv pc1"
    "0 \<le> n1 \<Longrightarrow> reuse_post tk prompt spans n1 pc1"
    "n1 < 0 \<Longrightarrow> 0 < rew1 \<Longrightarrow> rew1 = rew \<and> pf_kv_imgs pc1 = pf_kv_imgs pc \<and> (pf_rt pc1 = pf_rt pc \<or> op_toks R (pf_rt pc1) = [])"
proof -
  have "cache_inv pc1 \<and> (0 \<le> n1 \<longrightarrow> reuse_post tk prompt spans n1 pc1) \<and>
    (n1 < 0 \<longrightarrow> 0 < rew1 \<longrightarrow> rew1 = rew \<and> pf_kv_imgs pc1 = pf_kv_imgs pc \<and> (pf_rt pc1 = pf_rt pc \<or> op_toks R (pf_rt pc1) = []))"
  proof (cases "pf_slots pc = []")
    case True
    then show ?thesis using assms by (auto simp: try_slots_def)
  next
    case False
    obtain best bcov where bs: "best_slot tk prompt spans (pf_slots pc) 0 (-1, -1) = (best, bcov)" by (metis surj_pair)
    show ?thesis
    proof (cases "0 \<le> best \<and> rew < bcov")
      case True
      have b: "best < int (length (pf_slots pc))" "0 \<le> bcov" "sl_toks (pf_slots pc ! nat best) \<noteq> []"
        "match_cov tk (sl_toks (pf_slots pc ! nat best)) (sl_imgs (pf_slots pc ! nat best)) prompt spans = bcov"
        using best_slot_spec[OF bs] True by auto
      note m = match_cov_ok[OF b(4,2)]
      obtain pcs where s: "save_live R best pc = pcs" "cache_inv pcs" "pf_kv_imgs pcs = pf_kv_imgs pc"
        "length (pf_slots pcs) = length (pf_slots pc)" "pf_slots pcs ! nat best = pf_slots pc ! nat best"
        using save_live_stage[OF assms(1), of best] True by auto
      obtain ld pcl where l: "load_slot R (nat best) pcs = (ld, pcl)" by (metis surj_pair)
      have bn: "nat best < length (pf_slots pcs)" using b(1) True s(4) by (auto simp: nat_less_iff)
      note L = load_slot_inv[OF s(2) bn _ l]
      have ne: "sl_toks (pf_slots pcs ! nat best) \<noteq> []" using b(3) s(5) by simp
      show ?thesis
      proof (cases ld)
        case ok: True
        then have e: "n1 = bcov" "pc1 = pcl\<lparr>pf_origin := best\<rparr>" using assms(2,3) False True bs s(1) l by (auto simp: try_slots_def)
        have "cache_inv pc1" unfolding e(2) by (rule set_origin_inv) (use L(1,3)[OF ne] b(1) s(4) in auto)
        then show ?thesis using m L(5)[OF ne ok] s(5) b(2) by (auto simp: e reuse_post_def)
      next
        case bad: False
        then have e: "n1 = n" "rew1 = rew" "pc1 = pcl" using assms(2,3) False True bs s(1) l by (auto simp: try_slots_def)
        then show ?thesis using L(1)[OF ne] L(6)[OF ne bad] s(3) assms(3) by auto
      qed
    next
      case no: False
      obtain pcs where s: "save_live R (-1) pc = pcs" "cache_inv pcs" using save_live_stage[OF assms(1), of "-1"] by auto
      show ?thesis
      proof (cases "rew \<le> 0")
        case True
        then have "n1 = n" "rew1 = rew" "pc1 = pcs" using assms(2,3) False no bs s(1) by (auto simp: try_slots_def)
        then show ?thesis using True s assms(3) by auto
      next
        case r: False
        then have "n1 = n" "rew1 = rew" "pc1 = pc" using assms(2,3) False no bs by (auto simp: try_slots_def)
        then show ?thesis using assms by auto
      qed
    qed
  qed
  then show "cache_inv pc1"
    "0 \<le> n1 \<Longrightarrow> reuse_post tk prompt spans n1 pc1"
    "n1 < 0 \<Longrightarrow> 0 < rew1 \<Longrightarrow> rew1 = rew \<and> pf_kv_imgs pc1 = pf_kv_imgs pc \<and> (pf_rt pc1 = pf_rt pc \<or> op_toks R (pf_rt pc1) = [])" by blast+
qed

lemma reuse_post_live:
  assumes "cache_inv pc" "match_cov tk (op_toks R (pf_rt pc)) (pf_kv_imgs pc) prompt spans = n" "0 \<le> n"
  shows "reuse_post tk prompt spans n pc"
  using match_cov_ok[OF assms(2,3)] assms(1,3) by (auto simp: reuse_post_def)

lemma reuse_ok:
  assumes "cache_inv pc" "prompt \<noteq> []" "reuse R tk prompt spans pc = (n, pc')"
  shows "reuse_post tk prompt spans n pc'"
proof -
  let ?kv = "op_toks R (pf_rt pc)"
  have okr: "ok (pf_kv_imgs pc) (pf_rt pc)" using assms(1) by (simp add: cache_inv_def)
  define n0 where "n0 = match_cov tk ?kv (pf_kv_imgs pc) prompt spans"
  define rew where "rew = rewind_target R prompt spans n0 pc"
  obtain n1 rew1 pc1 where s1: "try_slots R tk prompt spans n0 rew pc = (n1, rew1, pc1)" by (metis prod_cases3)
  obtain n2 pc2 where s2: "try_rewind R n1 rew1 pc1 = (n2, pc2)" by (metis surj_pair)
  have res: "(n, pc') = (if n2 < 0 then (0, pc2\<lparr>pf_rt := op_reset R (pf_rt pc2), pf_origin := -1\<rparr>) else (n2, pc2))"
    using assms(3) s1 s2 unfolding reuse_def Let_def n0_def[symmetric] rew_def[symmetric] by simp
  have fin: ?thesis if "cache_inv pc2" "0 \<le> n2 \<Longrightarrow> reuse_post tk prompt spans n2 pc2"
  proof (cases "n2 < 0")
    case True
    have "ok [] (op_reset R (pf_rt pc2)) \<and> op_toks R (op_reset R (pf_rt pc2)) = []"
      using that(1) reset_ok ok_compat unfolding cache_inv_def by blast
    then show ?thesis using res True reset_inv[OF that(1)] assms(2) by (simp add: reuse_post_def)
  qed (use that res in auto)
  show ?thesis
  proof (cases "n0 < 0")
    case False
    then have "n1 = n0" "pc1 = pc" using s1 by (auto simp: try_slots_def)
    then have "n2 = n0" "pc2 = pc" using s2 False by (auto simp: try_rewind_def)
    then show ?thesis using fin assms(1) reuse_post_live[OF assms(1) n0_def[symmetric]] by simp
  next
    case neg: True
    let ?d = "divergence ?kv prompt"
    have r: "rew = -1 \<or> pf_kv_imgs pc = [] \<and> spans = [] \<and> 0 < ?d \<and> rew = op_best R (int ?d) (pf_rt pc)"
      by (simp add: rew_def rewind_target_def Let_def)
    have rm: "-1 \<le> rew" using r best_range[of "int ?d" "pf_rt pc"] by auto
    note S = try_slots_ok[OF assms(1) s1 neg rm]
    show ?thesis
    proof (cases "n1 < 0 \<and> 0 < rew1")
      case False
      then have e: "n2 = n1" "pc2 = pc1" using s2 by (auto simp: try_rewind_def)
      show ?thesis by (rule fin) (use S(1,2) e in auto)
    next
      case True
      then have w: "rew1 = rew" "pf_kv_imgs pc1 = pf_kv_imgs pc" "pf_rt pc1 = pf_rt pc \<or> op_toks R (pf_rt pc1) = []" "0 < rew" using S(3) by auto
      then have i: "pf_kv_imgs pc = []" "spans = []" "0 < ?d" "rew \<le> int ?d" using r best_range[of "int ?d" "pf_rt pc"] by auto
      have dl: "?d < length ?kv" using before_divergence[of tk ?kv prompt] neg i unfolding n0_def by simp
      show ?thesis
      proof (cases "op_toks R (pf_rt pc1) = []")
        case empty: True
        then have "op_rewind R (nat rew) (pf_rt pc1) = (Inr 0, pf_rt pc1)" using rewind_all[of "pf_rt pc1" "nat rew"] by simp
        then have e: "n2 = n1" "pc2 = pc1" using s2 True w(1) by (auto simp: try_rewind_def)
        show ?thesis by (rule fin) (use S(1) e True in auto)
      next
        case False
        then have rt1: "pf_rt pc1 = pf_rt pc" using w(3) by blast
        have np: "0 < nat rew" and nl: "nat rew < length ?kv" using w(4) i(4) dl by linarith+
        obtain q rt' where q: "op_rewind R (nat rew) (pf_rt pc) = (Inr q, rt')" "ok [] rt'"
          "q = -1 \<and> rt' = pf_rt pc \<or> (\<exists>p. q = int p \<and> 0 < p \<and> p \<le> nat rew \<and> op_toks R rt' = take p ?kv)"
          using rewind_ok[OF _ np nl] okr i(1) by auto
        have e: "n2 = (if 0 < q then q else n1)" "pc2 = pc1\<lparr>pf_rt := rt'\<rparr>"
          using s2 True w(1) rt1 q(1) by (auto simp: try_rewind_def)
        have inv2: "cache_inv pc2" unfolding e(2) by (rule set_rt_inv[OF S(1)]) (use q(2) w(2) i(1) in simp)
        show ?thesis
        proof (rule fin[OF inv2])
          assume n2: "0 \<le> n2"
          then obtain p where p: "q = int p" "0 < p" "p \<le> nat rew" "op_toks R rt' = take p ?kv" using q(3) e(1) True by (auto split: if_splits)
          have pd: "p \<le> ?d" using p(3) i(4) w(4) by linarith
          have "take p ?kv = take p (take ?d ?kv)" using pd by (simp add: min_def)
          also have "\<dots> = take p prompt" unfolding divergence_spec(3) using pd by (simp add: min_def)
          finally have "take p ?kv = take p prompt" .
          moreover have "p < length prompt" using pd divergence_spec(2)[of ?kv prompt] p(2) by linarith
          ultimately show "reuse_post tk prompt spans n2 pc2"
            using inv2 p e w(2) i(1,2) by (simp add: reuse_post_def)
        qed
      qed
    qed
  qed
qed

lemma ensure_state_ok:
  assumes "cache_inv pc" "ensure_state R owner my_toks my_imgs had_images pc = ((b, re), pc')"
  shows "cache_inv pc'" "b \<Longrightarrow> pf_owner pc' = owner" "\<not> b \<Longrightarrow> had_images"
    "b \<Longrightarrow> pf_owner pc \<noteq> owner \<Longrightarrow> op_toks R (pf_rt pc') = (if re then [] else my_toks)"
    "pf_owner pc = owner \<Longrightarrow> b \<and> \<not> re \<and> pc' = pc"
    "pf_owner pc \<noteq> owner \<Longrightarrow> \<not> pf_ssd pc \<Longrightarrow> my_toks \<noteq> [] \<Longrightarrow> my_toks \<in> sl_toks ` set (pf_slots pc) \<Longrightarrow> b \<and> \<not> re"
    "b \<Longrightarrow> pf_owner pc \<noteq> owner \<Longrightarrow> re \<Longrightarrow> pf_kv_imgs pc' = my_imgs \<and> ok [] (pf_rt pc')"
    "b \<Longrightarrow> pf_owner pc \<noteq> owner \<Longrightarrow> \<not> re \<Longrightarrow> \<exists>sl \<in> set (pf_slots pc). sl_toks sl = my_toks \<and> pf_kv_imgs pc' = sl_imgs sl"
proof -
  have "cache_inv pc' \<and> (b \<longrightarrow> pf_owner pc' = owner) \<and> (\<not> b \<longrightarrow> had_images) \<and>
    (b \<longrightarrow> pf_owner pc \<noteq> owner \<longrightarrow> op_toks R (pf_rt pc') = (if re then [] else my_toks)) \<and> (pf_owner pc = owner \<longrightarrow> b \<and> \<not> re \<and> pc' = pc) \<and>
    (pf_owner pc \<noteq> owner \<longrightarrow> \<not> pf_ssd pc \<longrightarrow> my_toks \<noteq> [] \<longrightarrow> my_toks \<in> sl_toks ` set (pf_slots pc) \<longrightarrow> b \<and> \<not> re) \<and>
    (b \<longrightarrow> pf_owner pc \<noteq> owner \<longrightarrow> re \<longrightarrow> pf_kv_imgs pc' = my_imgs \<and> ok [] (pf_rt pc')) \<and>
    (b \<longrightarrow> pf_owner pc \<noteq> owner \<longrightarrow> \<not> re \<longrightarrow> (\<exists>sl \<in> set (pf_slots pc). sl_toks sl = my_toks \<and> pf_kv_imgs pc' = sl_imgs sl))"
  proof (cases "pf_owner pc = owner")
    case True
    then show ?thesis using assms by (simp add: ensure_state_def)
  next
    case False
    define s where "s = find_slot my_toks (pf_slots pc) 0"
    obtain ld pc1 where l: "(if 0 \<le> s then load_slot R (nat s) (save_live R s pc) else (False, pc)) = (ld, pc1)" by (metis surj_pair)
    have e: "((b, re), pc') = (if ld then ((True, False), pc1\<lparr>pf_origin := s, pf_owner := owner\<rparr>) else if had_images then ((False, False), pc1)
        else ((True, True), (save_live R (-1) pc1)\<lparr>pf_rt := op_reset R (pf_rt (save_live R (-1) pc1)), pf_origin := -1, pf_owner := owner, pf_kv_imgs := my_imgs\<rparr>))"
      using assms(2) False l unfolding ensure_state_def Let_def s_def[symmetric] by simp
    have st: "cache_inv pc1 \<and> (ld \<longrightarrow> op_toks R (pf_rt pc1) = my_toks \<and> s < int (length (pf_slots pc1)) \<and>
        (\<exists>sl \<in> set (pf_slots pc). sl_toks sl = my_toks \<and> pf_kv_imgs pc1 = sl_imgs sl)) \<and>
      (\<not> pf_ssd pc \<longrightarrow> my_toks \<noteq> [] \<longrightarrow> my_toks \<in> sl_toks ` set (pf_slots pc) \<longrightarrow> ld)"
    proof (cases "0 \<le> s")
      case no: False
      have "\<not> (my_toks \<noteq> [] \<and> my_toks \<in> sl_toks ` set (pf_slots pc))" using find_slot_finds[of my_toks "pf_slots pc" 0] no s_def by auto
      then show ?thesis using l assms(1) no by auto
    next
      case yes: True
      have fs: "s < int (length (pf_slots pc))" "sl_toks (pf_slots pc ! nat s) = my_toks" "my_toks \<noteq> []"
        using find_slot_spec[of my_toks "pf_slots pc" 0] yes by (auto simp: s_def)
      obtain pcs where p: "save_live R s pc = pcs" "cache_inv pcs" "length (pf_slots pcs) = length (pf_slots pc)" "pf_slots pcs ! nat s = pf_slots pc ! nat s"
          "pf_ssd pcs = pf_ssd pc"
        using save_live_stage[OF assms(1), of s] yes by auto
      have sn: "nat s < length (pf_slots pcs)" using fs(1) yes p(3) by (auto simp: nat_less_iff)
      have "load_slot R (nat s) pcs = (ld, pc1)" using l yes p(1) by simp
      note L = load_slot_inv[OF p(2) sn _ this]
      have "pf_slots pc ! nat s \<in> set (pf_slots pc)" using sn p(3) by simp
      then show ?thesis using L(1,3,5,7) fs p(3,4,5) by auto
    qed
    show ?thesis
    proof (cases ld)
      case True
      then show ?thesis using e st False set_origin_inv[of pc1 s] by (auto simp: cache_inv_def)
    next
      case no: False
      show ?thesis
      proof (cases had_images)
        case True
        then show ?thesis using e st no False by auto
      next
        case False
        obtain pcs where p: "save_live R (-1) pc1 = pcs" "cache_inv pcs" using save_live_stage[of pc1 "-1"] st by auto
        then have f: "b" "re" "pc' = pcs\<lparr>pf_rt := op_reset R (pf_rt pcs), pf_origin := -1, pf_owner := owner, pf_kv_imgs := my_imgs\<rparr>"
          using e no False by simp_all
        have cp: "compat (pf_rt pcs)" using ok_compat p(2) by (auto simp: cache_inv_def)
        have rs: "ok [] (op_reset R (pf_rt pcs)) \<and> op_toks R (op_reset R (pf_rt pcs)) = []"
          using reset_ok[OF cp] .
        have "cache_inv pc'" using p(2) reset_any[OF cp] by (simp add: f cache_inv_def)
        then show ?thesis using f(1,2) rs \<open>pf_owner pc \<noteq> owner\<close> st no by (simp add: f(3))
      qed
    qed
  qed
  then show "cache_inv pc'" "b \<Longrightarrow> pf_owner pc' = owner" "\<not> b \<Longrightarrow> had_images"
    "b \<Longrightarrow> pf_owner pc \<noteq> owner \<Longrightarrow> op_toks R (pf_rt pc') = (if re then [] else my_toks)"
    "pf_owner pc = owner \<Longrightarrow> b \<and> \<not> re \<and> pc' = pc"
    "pf_owner pc \<noteq> owner \<Longrightarrow> \<not> pf_ssd pc \<Longrightarrow> my_toks \<noteq> [] \<Longrightarrow> my_toks \<in> sl_toks ` set (pf_slots pc) \<Longrightarrow> b \<and> \<not> re"
    "b \<Longrightarrow> pf_owner pc \<noteq> owner \<Longrightarrow> re \<Longrightarrow> pf_kv_imgs pc' = my_imgs \<and> ok [] (pf_rt pc')"
    "b \<Longrightarrow> pf_owner pc \<noteq> owner \<Longrightarrow> \<not> re \<Longrightarrow> \<exists>sl \<in> set (pf_slots pc). sl_toks sl = my_toks \<and> pf_kv_imgs pc' = sl_imgs sl" by blast+
qed

text \<open>Text sessions keep a cache of text.\<close>

lemma text_only_reuse:
  assumes "cache_inv pc" "text_only pc" "prompt \<noteq> []" "reuse R tk prompt [] pc = (n, pc')"
  shows "text_only pc'"
proof -
  let ?n = "match_cov tk (op_toks R (pf_rt pc)) (pf_kv_imgs pc) prompt []"
  let ?r = "rewind_target R prompt [] ?n pc"
  obtain n1 r1 pc1 where s1: "try_slots R tk prompt [] ?n ?r pc = (n1, r1, pc1)" by (metis prod_cases3)
  obtain n2 pc2 where s2: "try_rewind R n1 r1 pc1 = (n2, pc2)" by (metis surj_pair)
  have t1: "text_only pc1"
  proof (cases "?n < 0 \<and> pf_slots pc \<noteq> []")
    case False
    then show ?thesis using s1 assms(2) by (auto simp: try_slots_def)
  next
    case True
    obtain best bcov where bs: "best_slot tk prompt [] (pf_slots pc) 0 (-1, -1) = (best, bcov)" by (metis surj_pair)
    have sl: "text_only (snd (load_slot R (nat best) (save_live R best pc)))" if "0 \<le> best"
    proof -
      have "best < int (length (pf_slots pc))" using best_slot_spec[OF bs] that by auto
      then have "nat best < length (pf_slots (save_live R best pc))" using save_live_inv(6)[OF assms(1), of best] that by linarith
      then show ?thesis by (rule text_only_load_slot[OF text_only_save_live[OF assms(2)]])
    qed
    obtain ld pcl where l: "load_slot R (nat best) (save_live R best pc) = (ld, pcl)" by (metis surj_pair)
    have "0 \<le> best \<Longrightarrow> text_only (pcl\<lparr>pf_origin := best\<rparr>) \<and> text_only pcl" using sl l by (simp add: text_only_def)
    then show ?thesis
      using s1 True bs l text_only_save_live[OF assms(2)] assms(2) by (auto simp: try_slots_def split: if_splits bool.splits)
  qed
  have "text_only pc2" using s2 t1 by (auto simp: try_rewind_def text_only_def split: if_splits prod.splits sum.splits)
  then show ?thesis using assms(4) s1 s2 by (auto simp: reuse_def Let_def text_only_def split: if_splits)
qed

lemma text_only_ensure_state:
  assumes "cache_inv pc" "text_only pc" "ensure_state R owner my_toks [] had_images pc = ((b, re), pc')"
  shows "text_only pc'"
proof (cases "pf_owner pc = owner")
  case True
  then show ?thesis using assms(2,3) by (simp add: ensure_state_def)
next
  case False
  define s where "s = find_slot my_toks (pf_slots pc) 0"
  obtain ld pc1 where l: "(if 0 \<le> s then load_slot R (nat s) (save_live R s pc) else (False, pc)) = (ld, pc1)" by (metis surj_pair)
  have "text_only pc1"
  proof (cases "0 \<le> s")
    case yes: True
    have "s < int (length (pf_slots pc))" using find_slot_spec[of my_toks "pf_slots pc" 0] yes by (auto simp: s_def)
    then have "nat s < length (pf_slots (save_live R s pc))" using save_live_inv(6)[OF assms(1), of s] yes by linarith
    from text_only_load_slot[OF text_only_save_live[OF assms(2)] this, of R] show ?thesis using l yes by simp
  qed (use l assms(2) in simp)
  moreover note text_only_save_live[OF this, of R "-1"]
  ultimately show ?thesis
    using assms(3) False l unfolding ensure_state_def Let_def s_def[symmetric] by (auto simp: text_only_def split: if_splits)
qed

end

end
