(* ===== verification/Prefix_Runtime.thy ===== *)
theory Prefix_Runtime
  imports Prefix_Cache
begin

section \<open>The runtime behind the prefix cache\<close>

text \<open>
  The operations of the runtime model (\<open>Runtime_State\<close>, \<open>Prompt_Ckpt\<close>) satisfy the contract \<open>kv_runtime\<close> of the
  server's prefix cache: an interpretation for every network \<open>N\<close> and every initial state \<open>st0\<close> that fixes the model
  and the context size. The properties of \<open>prepare_prompt\<close> and \<open>ensure_state\<close> rest on it.

  The items of the history are tokens here. So a state is known to be exactly the network's only where its history has no
  image (\<open>session_ok\<close>); of a state with images the invariant says that it is well-formed, and which
  images it was built from, by position and hash. Models with an index or an n-gram module are left out:
  what these keep per session is neither saved nor restored (\<open>load_state_keeps_ngram_state\<close>).
\<close>

definition runtime_ops :: "rt kv_ops" where
  "runtime_ops = \<lparr>op_toks = rt_kv_toks, op_save = save_state, op_load = load_state, op_reset = reset, op_best = pk_best, op_rewind = pk_rewind\<rparr>"

lemma runtime_ops_sel [simp]:
  "op_toks runtime_ops = rt_kv_toks" "op_save runtime_ops = save_state" "op_load runtime_ops = load_state"
  "op_reset runtime_ops = reset" "op_best runtime_ops = pk_best" "op_rewind runtime_ops = pk_rewind"
  by (simp_all add: runtime_ops_def)

definition same_model :: "int net \<Rightarrow> rt \<Rightarrow> rt \<Rightarrow> bool" where
  "same_model N st0 st \<longleftrightarrow> no_side_state (rt_hp st0) \<and> rt_wf st \<and> net_fits N st \<and> net_start N st \<and> rt_hp st = rt_hp st0 \<and> rt_n_ctx st = rt_n_ctx st0 \<and>
     list_all2 same_shape (rt_layers st0) (rt_layers st)"

definition session_ok :: "int net \<Rightarrow> rt \<Rightarrow> rt \<Rightarrow> bool" where
  "session_ok N st0 st \<longleftrightarrow> same_model N st0 st \<and> faithful N st (rt_kv_toks st) \<and>
     (has_recurrent (rt_hp st) \<longrightarrow> draft_ok N st (rt_kv_toks st) \<and> pk_ok N st (rt_kv_toks st))"

text \<open>A state whose history has the images \<open>im\<close>, and the bytes saved from one.\<close>

definition state_ok :: "int net \<Rightarrow> rt \<Rightarrow> img_span list \<Rightarrow> rt \<Rightarrow> bool" where
  "state_ok N st0 im st \<longleftrightarrow> (if im = [] then session_ok N st0 st else same_model N st0 st)"

definition saved_from :: "int net \<Rightarrow> rt \<Rightarrow> img_span list \<Rightarrow> byte list \<Rightarrow> int list \<Rightarrow> bool" where
  "saved_from N st0 im b ts \<longleftrightarrow> (\<exists>st. state_ok N st0 im st \<and> save_state st = Inr b \<and> rt_kv_toks st = ts)"

lemma state_ok_model: "state_ok N st0 im st \<Longrightarrow> same_model N st0 st"
  by (simp add: state_ok_def session_ok_def split: if_splits)

lemma state_ok_text [simp]: "state_ok N st0 [] st = session_ok N st0 st"
  by (simp add: state_ok_def)

lemma same_shape_join: "list_all2 same_shape a b \<Longrightarrow> list_all2 same_shape a c \<Longrightarrow> list_all2 same_shape b c"
  by (simp add: list_all2_conv_all_nth same_shape_def)

lemma same_shape_trans: "list_all2 same_shape a b \<Longrightarrow> list_all2 same_shape b c \<Longrightarrow> list_all2 same_shape a c"
  by (simp add: list_all2_conv_all_nth same_shape_def)

lemma shape_nbytes: "shape t' = shape t \<Longrightarrow> t' = Some u' \<Longrightarrow> \<exists>u. t = Some u \<and> nbytes u = nbytes u'"
  by (cases t) (auto simp: shape_def)

lemma net_start_shape:
  assumes "net_start N st" "list_all2 same_shape (rt_layers st) (rt_layers st')"
  shows "net_start N st'"
  unfolding net_start_def
proof (intro conjI allI impI)
  have len: "length (rt_layers st') = length (rt_layers st)" using assms(2) by (simp add: list_all2_lengthD)
  show "nf_pos N [] = 0" using assms(1) by (simp add: net_start_def)
  fix il t assume il: "il < length (rt_layers st')"
  then have s: "same_shape (rt_layers st ! il) (rt_layers st' ! il)" using assms(2) len by (simp add: list_all2_nthD)
  show "fst (nf_rec N il []) = replicate (nbytes t) 0" if c: "conv_state (rt_layers st' ! il) = Some t"
    using assms(1) il len shape_nbytes[OF _ c] s unfolding net_start_def same_shape_def by metis
  show "snd (nf_rec N il []) = replicate (nbytes t) 0" if c: "ssm_state (rt_layers st' ! il) = Some t"
    using assms(1) il len shape_nbytes[OF _ c] s unfolding net_start_def same_shape_def by metis
qed

lemma same_model_step:
  assumes "same_model N st0 st" "rt_wf st'" "rt_hp st' = rt_hp st" "rt_n_ctx st' = rt_n_ctx st" "list_all2 same_shape (rt_layers st) (rt_layers st')"
  shows "same_model N st0 st'"
  using assms net_fits_shape[OF _ assms(3,5), of N] net_start_shape[OF _ assms(5), of N] same_shape_trans[OF _ assms(5)]
  by (simp add: same_model_def)

lemma wf_view:
  assumes "rt_wf st" "saved_view st2 = saved_view st" "rt_hp st2 = rt_hp st" "rt_n_ctx st2 = rt_n_ctx st"
    "list_all2 same_shape (rt_layers st) (rt_layers st2)"
  shows "rt_wf st2"
  using assms layers_ok_shape[OF assms(5)] list_all2_lengthD[OF assms(5)] by (simp add: rt_wf_def saved_view_def)

lemma session_load:
  assumes "same_model N st0 st" "saved_from N st0 im b ts"
  shows "\<exists>st'. load_state msg b st = (Inr [], st') \<and> state_ok N st0 im st' \<and> rt_kv_toks st' = ts"
proof -
  obtain s where s: "state_ok N st0 im s" "save_state s = Inr b" "rt_kv_toks s = ts" using assms(2) by (auto simp: saved_from_def)
  have m: "same_model N st0 s" using s(1) by (rule state_ok_model)
  have sh: "list_all2 same_shape (rt_layers s) (rt_layers st)"
    using m assms(1) by (simp add: same_model_def same_shape_join[of "rt_layers st0"])
  have eq: "rt_hp st = rt_hp s" "rt_n_ctx st = rt_n_ctx s" "rt_wf s" "net_fits N s" using m assms(1) by (simp_all add: same_model_def)
  obtain a st2 where l: "save_state s = Inr a" "load_state msg (a @ []) st = (Inr [], st2)" "saved_view st2 = saved_view s" "rt_pk st2 = []"
      "rt_hp st2 = rt_hp s" "rt_n_ctx st2 = rt_n_ctx s" "list_all2 rewritten (rt_layers st) (rt_layers st2)"
    using load_save[OF eq(3,1,2) sh, of msg "[]"] by metis
  have sh2: "list_all2 same_shape (rt_layers st) (rt_layers st2)" using l(7) by (rule list_all2_mono) (simp add: rewritten_def)
  have shs: "list_all2 same_shape (rt_layers s) (rt_layers st2)" using same_shape_trans[OF sh sh2] .
  have m2: "same_model N st0 st2" by (rule same_model_step[OF m wf_view[OF eq(3) l(3,5,6) shs] l(5,6) shs])
  have "state_ok N st0 im st2"
  proof (cases "im = []")
    case True
    then have f: "faithful N s (rt_kv_toks s)" and so: "session_ok N st0 s" using s(1) by (simp_all add: session_ok_def)
    note v = faithful_view[OF f eq(4) l(3,5,6) shs]
    show ?thesis using True v so m2 l(4,5) by (simp add: session_ok_def pk_ok_def)
  qed (simp add: state_ok_def m2)
  moreover have "rt_kv_toks st2 = ts" using l(3) s(3) by (simp add: saved_view_def)
  ultimately show ?thesis using l(1,2) s(2) by auto
qed

lemma session_reset:
  assumes "same_model N st0 st"
  shows "session_ok N st0 (reset st)"
proof -
  have "rt_wf st" "net_start N st" "no_side_state (rt_hp st)" using assms by (simp_all add: same_model_def)
  note r = reset_ok[OF this]
  have "same_model N st0 (reset st)" by (rule same_model_step[OF assms]) (use r(1) reset_shape in \<open>simp_all add: faithful_def\<close>)
  then show ?thesis using r by (simp add: session_ok_def)
qed

lemma session_rewind:
  assumes "session_ok N st0 st" "0 < n" "n < length (rt_kv_toks st)"
  shows "\<exists>r st'. pk_rewind n st = (Inr r, st') \<and> session_ok N st0 st' \<and>
    (r = -1 \<and> st' = st \<or> (\<exists>p. r = int p \<and> 0 < p \<and> p \<le> n \<and> rt_kv_toks st' = take p (rt_kv_toks st)))"
proof -
  have m: "same_model N st0 st" "faithful N st (rt_kv_toks st)" "net_fits N st" using assms(1) by (simp_all add: session_ok_def same_model_def)
  show ?thesis
  proof (cases "has_recurrent (rt_hp st)")
    case True
    then have d: "draft_ok N st (rt_kv_toks st)" "pk_ok N st (rt_kv_toks st)" using assms(1) by (simp_all add: session_ok_def)
    show ?thesis
    proof (rule pk_rewind_recurrent[OF m(2) d m(3) refl True assms(3)])
      assume "pk_rewind n st = (Inr (-1), st)"
      then show ?thesis using assms(1) by blast
    next
      fix j st' p
      assume a: "0 < p" "p \<le> n" "pk_rewind n st = (Inr (int p), st')" "faithful N st' (take p (rt_kv_toks st))"
        "draft_ok N st' (take p (rt_kv_toks st))" "pk_ok N st' (take p (rt_kv_toks st))" "rt_kv_toks st' = take p (rt_kv_toks st)"
        "list_all2 same_shape (rt_layers st) (rt_layers st')" "rt_hp st' = rt_hp st" "rt_n_ctx st' = rt_n_ctx st"
      have "same_model N st0 st'" by (rule same_model_step[OF m(1) _ a(9,10,8)]) (use a(4) in \<open>simp add: faithful_def\<close>)
      then have "session_ok N st0 st'" using a(4-7) by (simp add: session_ok_def)
      then show ?thesis using a(1-3,7) by blast
    qed
  next
    case False
    show ?thesis
    proof (cases "rt_mrope_next st = int (rt_n_past st)")
      case True
      note a = pk_rewind_attention[OF m(2,3) refl False assms(3) True]
      let ?s = "st\<lparr>rt_n_past := n, rt_mrope_next := int n, rt_mtp_past := (if n < rt_mtp_past st then n else rt_mtp_past st),
        rt_kv_toks := take n (rt_kv_toks st)\<rparr>"
      have "same_model N st0 ?s"
        by (rule same_model_step[OF m(1)]) (use a(2) in \<open>simp_all add: faithful_def list_all2_same same_shape_def\<close>)
      then have "session_ok N st0 ?s" using a(2) False by (simp add: session_ok_def)
      then show ?thesis using a(1) assms(2) by fastforce
    next
      case m: False
      then show ?thesis using False assms(1,3) by (simp add: pk_rewind_def)
    qed
  qed
qed

lemma pk_rewind_short: "length (rt_kv_toks st) \<le> n \<Longrightarrow> pk_rewind n st = (Inr (int (length (rt_kv_toks st))), st)"
  by (simp add: pk_rewind_def)

lemma pk_best_range: "0 < d \<Longrightarrow> -1 \<le> pk_best d st \<and> pk_best d st \<le> d"
  using last_upto_cases[of "nat d" "rt_pk st" 0]
  by (auto simp: pk_best_def Let_def)

lemma session_save:
  assumes "state_ok N st0 im s"
  shows "\<exists>b. save_state s = Inr b \<and> saved_from N st0 im b (rt_kv_toks s)"
proof -
  have "rt_wf s" using state_ok_model[OF assms] by (simp add: same_model_def)
  from load_save[OF this refl refl] obtain b where "save_state s = Inr b" by (metis list_all2_refl same_shape_def)
  then show ?thesis using assms by (auto simp: saved_from_def)
qed

lemma state_ok_more: "state_ok N st0 im s \<Longrightarrow> (im' = [] \<Longrightarrow> im = []) \<Longrightarrow> state_ok N st0 im' s"
  by (auto simp: state_ok_def session_ok_def split: if_splits)

interpretation runtime: kv_runtime runtime_ops "state_ok N st0" "same_model N st0" "saved_from N st0" for N st0
  by (unfold_locales, unfold runtime_ops_sel)
    (auto intro: state_ok_model state_ok_more session_save session_load session_reset session_rewind simp: pk_best_range pk_rewind_short)

subsection \<open>Properties\<close>

text \<open>
  The invariant of the server's cache: a live state without images is what its tokens say, and every slot in use holds
  bytes saved from a state with the tokens and the images the slot is filed under (a file may have disappeared).
\<close>

definition slot_valid :: "int net \<Rightarrow> rt \<Rightarrow> bool \<Rightarrow> (string \<Rightarrow> byte list option) \<Rightarrow> slot \<Rightarrow> bool" where
  "slot_valid N st0 ssd files sl \<longleftrightarrow> sl_toks sl = [] \<or>
     (if ssd then files (sl_path sl) = None \<or>
        (\<exists>b. files (sl_path sl) = Some (slot_header (sl_toks sl) (sl_imgs sl) @ b) \<and> saved_from N st0 (sl_imgs sl) b (sl_toks sl))
      else saved_from N st0 (sl_imgs sl) (sl_blob sl) (sl_toks sl))"

definition server_inv :: "int net \<Rightarrow> rt \<Rightarrow> rt prefix_cache \<Rightarrow> bool" where
  "server_inv N st0 pc \<longleftrightarrow> state_ok N st0 (pf_kv_imgs pc) (pf_rt pc) \<and> (\<forall>sl \<in> set (pf_slots pc). slot_valid N st0 (pf_ssd pc) (pf_files pc) sl) \<and>
     distinct (map sl_path (pf_slots pc)) \<and> pf_origin pc < int (length (pf_slots pc))"

lemma server_inv_eq: "runtime.cache_inv N st0 pc = server_inv N st0 pc"
  unfolding runtime.cache_inv_def server_inv_def runtime.slot_ok_def slot_valid_def by (rule refl)

text \<open>
  C3. For a model without index and n-gram module, \<open>prepare_prompt\<close> leaves a session, taken from the live state, a
  checkpoint of it or a slot, whose tokens spell the first n prompt tokens; the rest is never empty and completes the prompt's text. No image straddles
  the cut, and the images before it are, by position and hash, those the reused state was built from. If there
  are none, the session's state is exactly what the network has after its tokens; a state with images
  is known to be well-formed only. Every parked slot stays loadable.
\<close>

theorem prepare_prompt_correct:
  assumes "server_inv N st0 pc" "prompt \<noteq> []" "prepare_prompt runtime_ops tk prompt ovr spans owner pc = ((n, rest, ovr'), pc')"
  shows "server_inv N st0 pc' \<and> pf_owner pc' = owner \<and> 0 \<le> n \<and> n < int (length prompt) \<and> rest = drop (nat n) prompt \<and>
    decode tk (rt_kv_toks (pf_rt pc')) = decode tk (take (nat n) prompt) \<and>
    decode tk (rt_kv_toks (pf_rt pc') @ rest) = decode tk prompt \<and>
    (0 < n \<longrightarrow> (\<forall>s \<in> set spans. \<not> straddles (nat n) s) \<and>
       filter (inside (nat n)) spans = pf_kv_imgs (snd (reuse runtime_ops tk prompt spans pc))) \<and>
    (n = 0 \<or> filter (inside (nat n)) spans = [] \<longrightarrow> session_ok N st0 (pf_rt pc') \<and> faithful N (pf_rt pc') (rt_kv_toks (pf_rt pc')))"
proof -
  obtain pc1 where r: "reuse runtime_ops tk prompt spans pc = (n, pc1)" "rest = (if 0 < n then drop (nat n) prompt else prompt)"
      "pc' = pc1\<lparr>pf_kv_imgs := spans, pf_owner := owner\<rparr>"
    using assms(3) by (auto simp: prepare_prompt_def split: prod.splits)
  have post: "runtime.reuse_post N st0 tk prompt spans n pc1"
    using runtime.reuse_ok[OF assms(1)[folded server_inv_eq] assms(2) r(1)] .
  then have p: "server_inv N st0 pc1" "0 \<le> n" "n < int (length prompt)" "decode tk (rt_kv_toks (pf_rt pc1)) = decode tk (take (nat n) prompt)"
    "n = 0 \<Longrightarrow> session_ok N st0 (pf_rt pc1)" "0 < n \<Longrightarrow> filter (inside (nat n)) spans = pf_kv_imgs pc1"
    by (simp_all add: runtime.reuse_post_def server_inv_eq)
  have st: "state_ok N st0 (pf_kv_imgs pc1) (pf_rt pc1)" using p(1) by (simp add: server_inv_def)
  have exact: "session_ok N st0 (pf_rt pc1)" if "n = 0 \<or> filter (inside (nat n)) spans = []"
    using that p(2,5,6) st by (cases "n = 0") auto
  have "state_ok N st0 spans (pf_rt pc1)"
    using st exact by (cases "spans = []") (auto simp: state_ok_def session_ok_def split: if_splits)
  then have inv: "server_inv N st0 pc'" using p(1) by (simp add: server_inv_def r(3))
  have rest: "rest = drop (nat n) prompt" using r(2) p(2) by simp
  have "decode tk (rt_kv_toks (pf_rt pc') @ rest) = decode tk (take (nat n) prompt @ rest)"
    using p(4) by (simp add: r(3) decode_append)
  then have "decode tk (rt_kv_toks (pf_rt pc') @ rest) = decode tk prompt" by (simp add: rest)
  moreover have "n = 0 \<or> filter (inside (nat n)) spans = [] \<longrightarrow> session_ok N st0 (pf_rt pc') \<and> faithful N (pf_rt pc') (rt_kv_toks (pf_rt pc'))"
    using exact by (simp add: r(3) session_ok_def)
  ultimately show ?thesis using inv rest p post by (simp add: r(1) runtime.reuse_post_def) (simp add: r(3))
qed

text \<open>
  C15. What \<open>ensure_state\<close> does when a generation resumes. If the owner mark is the generation's own, nothing is touched (the
  mark can be stale, see \<open>ensure_state_stale_owner\<close>). Otherwise it succeeds, and marks itself as the owner,
  with a state from a slot filed under exactly the generation's tokens, whose images it takes over, or with an empty
  state into which the caller decodes the tokens; it gives up only on a session with images, and with slots in memory it always finds a
  parked state. For a text session, that is if no slot filed under its tokens has images, the state it gets is then exactly the
  network's after these tokens (after none, if they have to be decoded). The images of the slot are not
  compared with the session's (\<open>ensure_state_ignores_images\<close>). The invariant is kept. The model has no index
  or n-gram module.
\<close>

theorem ensure_state_correct:
  assumes "server_inv N st0 pc" "ensure_state runtime_ops owner my_toks my_imgs had_images pc = ((ok, redo), pc')"
  shows "server_inv N st0 pc' \<and> (pf_owner pc = owner \<longrightarrow> ok \<and> \<not> redo \<and> pc' = pc) \<and> (ok \<longrightarrow> pf_owner pc' = owner) \<and> (\<not> ok \<longrightarrow> had_images) \<and>
    (ok \<and> pf_owner pc \<noteq> owner \<longrightarrow> rt_kv_toks (pf_rt pc') = (if redo then [] else my_toks) \<and>
       (if redo then pf_kv_imgs pc' = my_imgs else \<exists>sl \<in> set (pf_slots pc). sl_toks sl = my_toks \<and> pf_kv_imgs pc' = sl_imgs sl)) \<and>
    (ok \<and> pf_owner pc \<noteq> owner \<and> (\<forall>sl \<in> set (pf_slots pc). sl_toks sl = my_toks \<longrightarrow> sl_imgs sl = []) \<longrightarrow>
       session_ok N st0 (pf_rt pc') \<and> faithful N (pf_rt pc') (if redo then [] else my_toks)) \<and>
    (pf_owner pc \<noteq> owner \<and> \<not> pf_ssd pc \<and> my_toks \<noteq> [] \<and> my_toks \<in> sl_toks ` set (pf_slots pc) \<longrightarrow> ok \<and> \<not> redo)"
proof -
  note E = runtime.ensure_state_ok[OF assms(1)[folded server_inv_eq] assms(2), unfolded server_inv_eq runtime_ops_sel]
  have exact: "session_ok N st0 (pf_rt pc')"
    if "ok" "pf_owner pc \<noteq> owner" "\<forall>sl \<in> set (pf_slots pc). sl_toks sl = my_toks \<longrightarrow> sl_imgs sl = []"
  proof (cases redo)
    case True
    then show ?thesis using E(7)[OF that(1,2)] by simp
  next
    case False
    then have "pf_kv_imgs pc' = []" using E(8)[OF that(1,2)] that(3) by auto
    then show ?thesis using E(1) by (simp add: server_inv_def)
  qed
  have "faithful N (pf_rt pc') (if redo then [] else my_toks)"
    if "ok" "pf_owner pc \<noteq> owner" "\<forall>sl \<in> set (pf_slots pc). sl_toks sl = my_toks \<longrightarrow> sl_imgs sl = []"
    using exact[OF that] E(4)[OF that(1,2)] by (simp add: session_ok_def)
  then show ?thesis using E exact by (simp split: if_splits)
qed

subsection \<open>A concrete server\<close>

text \<open>A server whose live state has two tokens, and one that has parked this state in a slot in memory.\<close>

definition live_cache :: "rt prefix_cache" where
  "live_cache = \<lparr>pf_rt = counted_state, pf_kv_imgs = [], pf_slots = [\<lparr>sl_toks = [], sl_imgs = [], sl_stamp = 0, sl_blob = [], sl_path = ''slot0''\<rparr>],
     pf_clock = 0, pf_origin = -1, pf_owner = 1, pf_ssd = False, pf_files = (\<lambda>p. None), pf_disk_ok = True\<rparr>"

definition parked_cache :: "rt prefix_cache" where
  "parked_cache = live_cache\<lparr>pf_rt := reset counted_state,
     pf_slots := [\<lparr>sl_toks = [7, -1], sl_imgs = [], sl_stamp = 1, sl_blob = projr (save_state counted_state), sl_path = ''slot0''\<rparr>]\<rparr>"

lemma counted_model: "same_model count_net counted_state counted_state"
  and counted_session: "session_ok count_net counted_state counted_state"
proof -
  have "net_start count_net counted_state"
    unfolding net_start_def counted_fields
  proof (intro conjI allI impI)
    show "nf_pos count_net [] = 0" by (simp add: count_net_def)
    fix il t assume "il < length counted_layers"
    from counted_nth[OF this] have il: "il = 0 \<or> il = 1 \<or> il = 2" .
    show "fst (nf_rec count_net il []) = replicate (nbytes t) 0" if "conv_state (counted_layers ! il) = Some t"
      using that il by (auto simp: counted_layers_def rec_layer_def kv_layer_def no_state_def count_net_def nbytes_def)
    show "snd (nf_rec count_net il []) = replicate (nbytes t) 0" if "ssm_state (counted_layers ! il) = Some t"
      using that il by (auto simp: counted_layers_def rec_layer_def kv_layer_def no_state_def count_net_def nbytes_def)
  qed
  then show "same_model count_net counted_state counted_state"
    using counted_ok(1,4) by (simp add: same_model_def faithful_def list_all2_same same_shape_def)
  then show "session_ok count_net counted_state counted_state"
    using counted_ok(1-3) by (simp add: session_ok_def counted_fields)
qed

lemma live_inv: "server_inv count_net counted_state live_cache"
  using counted_session by (simp add: server_inv_def live_cache_def slot_valid_def)

lemma parked_inv: "server_inv count_net counted_state parked_cache"
proof -
  have "state_ok count_net counted_state [] counted_state" using counted_session by simp
  from session_save[OF this] have "saved_from count_net counted_state [] (projr (save_state counted_state)) [7, -1]"
    by (auto simp: counted_fields)
  then show ?thesis using session_reset[OF counted_model] by (simp add: server_inv_def parked_cache_def live_cache_def slot_valid_def)
qed

theorem prepare_prompt_correct_witness:
  "\<exists>pc'. prepare_prompt runtime_ops (Tokenizer demo_vocab) [7, -1, 5] ([] :: nat embd_override list) [] 2 live_cache = ((2, [5], []), pc') \<and>
    faithful count_net (pf_rt pc') (rt_kv_toks (pf_rt pc')) \<and> rt_kv_toks (pf_rt pc') = [7, -1]"
proof -
  have m: "match_cov (Tokenizer demo_vocab) [7, -1] [] [7, -1, 5] [] = 2"
    by (simp add: match_cov_def divergence_def Let_def)
  have r: "reuse runtime_ops (Tokenizer demo_vocab) [7, -1, 5] [] live_cache = (2, live_cache)"
    by (simp add: reuse_def try_slots_def try_rewind_def live_cache_def counted_fields m)
  have p: "prepare_prompt runtime_ops (Tokenizer demo_vocab) [7, -1, 5] ([] :: nat embd_override list) [] 2 live_cache =
      ((2, [5], []), live_cache\<lparr>pf_kv_imgs := [], pf_owner := 2\<rparr>)"
    by (simp add: prepare_prompt_def r shift_overrides_def)
  show ?thesis
    using prepare_prompt_correct[OF live_inv _ p] p by (auto simp: live_cache_def counted_fields)
qed

theorem ensure_state_correct_witness:
  "\<exists>pc'. ensure_state runtime_ops 2 [7, -1] [] False parked_cache = ((True, False), pc') \<and> rt_kv_toks (pf_rt pc') = [7, -1]"
proof -
  obtain ok redo pc' where e: "ensure_state runtime_ops 2 [7, -1] [] False parked_cache = ((ok, redo), pc')" by (metis surj_pair)
  have "pf_owner parked_cache = 1" "\<not> pf_ssd parked_cache" "[7, -1] \<in> sl_toks ` set (pf_slots parked_cache)"
    by (simp_all add: parked_cache_def live_cache_def)
  then show ?thesis using ensure_state_correct[OF parked_inv e] e by auto
qed

subsection \<open>Slot files across a restart\<close>

definition slot_small :: "slot \<Rightarrow> bool" where
  "slot_small sl \<longleftrightarrow> set (sl_toks sl) \<subseteq> int32 \<and> length (sl_toks sl) < 10 * 1024 * 1024 \<and> length (sl_imgs sl) < 4096 \<and>
     (\<forall>s \<in> set (sl_imgs sl). is_first s \<in> int32 \<and> is_count s \<in> int32)"

lemma of_le64_split: "of_le64 (ucast w) (ucast (drop_bit 32 w)) = w"
proof (rule bit_word_eqI)
  fix n assume "n < LENGTH(64)"
  then show "bit (of_le64 (ucast w) (ucast (drop_bit 32 w))) n = bit w n"
    by (cases "n < 32") (auto simp: of_le64_def bit_simps)
qed

lemma imgs_read:
  assumes "\<forall>s \<in> set imgs. is_first s \<in> int32 \<and> is_count s \<in> int32"
  shows "imgs_of_words (words_of (concat (map img_bytes imgs))) = imgs"
proof -
  define wds where "wds s = [word_of_int (is_first s), word_of_int (is_count s), ucast (is_hash s), ucast (drop_bit 32 (is_hash s)) :: 32 word]" for s :: img_span
  have b: "concat (map img_bytes imgs) = bytes_of (concat (map wds imgs))"
    by (induction imgs) (simp_all add: img_bytes_def le64_def wds_def)
  have "imgs_of_words (concat (map wds imgs)) = imgs"
    using assms by (induction imgs) (simp_all add: wds_def sint_of_int32 of_le64_split)
  then show ?thesis unfolding b by simp
qed

lemma read_slot_meta_header:
  assumes "slot_small sl"
  shows "read_slot_meta (slot_header (sl_toks sl) (sl_imgs sl) @ b) = Some (sl_toks sl, sl_imgs sl)"
proof -
  let ?n = "length (sl_toks sl)" and ?m = "length (sl_imgs sl)"
  let ?w = "[SLOT_MAGIC, of_nat ?n, of_nat ?m]"
  define g where "g = slot_header (sl_toks sl) (sl_imgs sl) @ b"
  have lc: "length (concat (map img_bytes imgs)) = length imgs * 16" for imgs
    by (induction imgs) (simp_all add: img_bytes_def le64_def)
  have f: "g = bytes_of ?w @ bytes_of (map word_of_int (sl_toks sl)) @ concat (map img_bytes (sl_imgs sl)) @ b"
    by (simp add: g_def slot_header_def)
  have t: "take 12 g = bytes_of ?w" unfolding f by simp
  have d: "drop 12 g = bytes_of (map word_of_int (sl_toks sl)) @ concat (map img_bytes (sl_imgs sl)) @ b" unfolding f by simp
  have n: "unat (of_nat ?n :: 32 word) = ?n" "unat (of_nat ?m :: 32 word) = ?m"
    using assms by (simp_all add: slot_small_def unat_of_nat)
  have tk: "take (?n * 4) (drop 12 g) = bytes_of (map word_of_int (sl_toks sl))" unfolding d by simp
  have di: "drop (12 + ?n * 4) g = concat (map img_bytes (sl_imgs sl)) @ b"
  proof -
    have "drop (12 + ?n * 4) g = drop (?n * 4) (drop 12 g)" by (simp only: drop_drop add.commute)
    then show ?thesis unfolding d by simp
  qed
  have ti: "take (?m * 16) (drop (12 + ?n * 4) g) = concat (map img_bytes (sl_imgs sl))" unfolding di by (simp add: lc)
  have l: "length g = 12 + ?n * 4 + ?m * 16 + length b" unfolding f by (simp add: lc)
  have w: "words_of (bytes_of ?w) = ?w" by (rule words_of_bytes_of)
  have "map sint (map word_of_int (sl_toks sl) :: 32 word list) = sl_toks sl"
    using assms by (auto simp: slot_small_def sint_of_int32 intro!: map_idI)
  then show ?thesis
    using assms l imgs_read[of "sl_imgs sl"] unfolding g_def[symmetric] read_slot_meta_def Let_def t w
    by (simp add: n slot_small_def tk ti del: drop_drop)
qed

text \<open>The slots of a server that starts: only their paths are known.\<close>

definition blank :: "slot \<Rightarrow> slot" where
  "blank sl = sl\<lparr>sl_toks := [], sl_imgs := [], sl_stamp := 0, sl_blob := []\<rparr>"

lemma restore_slots_nth:
  assumes "restore_slots files sls c = (r, c')"
  shows "length r = length sls" "i < length sls \<Longrightarrow> sl_path (r ! i) = sl_path (sls ! i)"
    "i < length sls \<Longrightarrow> Option.bind (files (sl_path (sls ! i))) read_slot_meta = Some (toks, imgs) \<Longrightarrow> sl_toks (r ! i) = toks \<and> sl_imgs (r ! i) = imgs"
    "i < length sls \<Longrightarrow> Option.bind (files (sl_path (sls ! i))) read_slot_meta = None \<Longrightarrow> sl_toks (r ! i) = [] \<and> sl_imgs (r ! i) = []"
  using assms
proof (induction sls arbitrary: c r i)
  case (Cons sl sls)
  case 1
  then show ?case using Cons(1) by (auto split: option.splits prod.splits)
next
  case (Cons sl sls)
  case 2
  then show ?case using Cons(2) by (cases i) (auto split: option.splits prod.splits)
next
  case (Cons sl sls)
  case 3
  then show ?case using Cons(3) by (cases i) (auto split: option.splits prod.splits)
next
  case (Cons sl sls)
  case 4
  then show ?case using Cons(4) by (cases i) (auto split: option.splits prod.splits)
qed simp_all

text \<open>
  A server that keeps its slots in files finds them again after a restart: every slot in use whose file is still
  there comes back with exactly its tokens and images, and its file can be loaded.
\<close>

theorem slot_restart:
  assumes "server_inv N st0 pc" "pf_ssd pc" "\<forall>sl \<in> set (pf_slots pc). slot_small sl" "restore_slots (pf_files pc) (map blank (pf_slots pc)) 0 = (sls, c)"
    "i < length (pf_slots pc)" "sl_toks (pf_slots pc ! i) \<noteq> []" "pf_files pc (sl_path (pf_slots pc ! i)) \<noteq> None"
  shows "length sls = length (pf_slots pc) \<and> sl_path (sls ! i) = sl_path (pf_slots pc ! i) \<and> sl_toks (sls ! i) = sl_toks (pf_slots pc ! i) \<and>
    sl_imgs (sls ! i) = sl_imgs (pf_slots pc ! i) \<and> slot_valid N st0 True (pf_files pc) (sls ! i)"
proof -
  let ?sl = "pf_slots pc ! i"
  have v: "slot_valid N st0 True (pf_files pc) ?sl" "slot_small ?sl" using assms(1-3,5) by (simp_all add: server_inv_def)
  then obtain b where b: "pf_files pc (sl_path ?sl) = Some (slot_header (sl_toks ?sl) (sl_imgs ?sl) @ b)"
    using assms(6,7) by (auto simp: slot_valid_def)
  have p: "sl_path (map blank (pf_slots pc) ! i) = sl_path ?sl" using assms(5) by (simp add: blank_def)
  have "Option.bind (pf_files pc (sl_path (map blank (pf_slots pc) ! i))) read_slot_meta = Some (sl_toks ?sl, sl_imgs ?sl)"
    unfolding p b by (simp add: read_slot_meta_header[OF v(2)])
  then have r: "sl_toks (sls ! i) = sl_toks ?sl" "sl_imgs (sls ! i) = sl_imgs ?sl" "sl_path (sls ! i) = sl_path ?sl" "length sls = length (pf_slots pc)"
    using restore_slots_nth(1)[OF assms(4)] restore_slots_nth(2,3)[OF assms(4), of i] assms(5) p by simp_all
  then show ?thesis using v(1) by (simp add: slot_valid_def)
qed

definition ssd_cache :: "rt prefix_cache" where
  "ssd_cache = parked_cache\<lparr>pf_ssd := True, pf_files := [''slot0'' \<mapsto> slot_header [7, -1] [] @ projr (save_state counted_state)]\<rparr>"

lemma ssd_inv: "server_inv count_net counted_state ssd_cache"
  using parked_inv by (simp add: ssd_cache_def parked_cache_def live_cache_def server_inv_def slot_valid_def)

theorem slot_restart_witness:
  "sl_toks (fst (restore_slots (pf_files ssd_cache) (map blank (pf_slots ssd_cache)) 0) ! 0) = [7, -1]"
proof -
  obtain sls c where r: "restore_slots (pf_files ssd_cache) (map blank (pf_slots ssd_cache)) 0 = (sls, c)" by (metis surj_pair)
  have f: "pf_ssd ssd_cache" "length (pf_slots ssd_cache) = 1" "sl_toks (pf_slots ssd_cache ! 0) = [7, -1]"
    "pf_files ssd_cache (sl_path (pf_slots ssd_cache ! 0)) \<noteq> None" "\<forall>sl \<in> set (pf_slots ssd_cache). slot_small sl"
    by (simp_all add: ssd_cache_def parked_cache_def live_cache_def slot_small_def int32_def)
  show ?thesis using slot_restart[OF ssd_inv f(1,5) r, of 0] f by (simp add: r)
qed

text \<open>A consistent server whose live state is session 1's, while the file of session 2's slot has disappeared.\<close>

definition stale_cache :: "rt prefix_cache" where
  "stale_cache = live_cache\<lparr>pf_ssd := True,
     pf_slots := [\<lparr>sl_toks = [9], sl_imgs = [], sl_stamp = 1, sl_blob = [], sl_path = ''slot0''\<rparr>]\<rparr>"

text \<open>
  \<open>ensure_state\<close> looks for a slot by tokens only. Two sessions with the same text and different pictures have the same
  tokens, so the one that resumes may get the other's state: session 2, whose picture has the hash 2, resumes on the
  state session 1 parked, whose picture has the hash 1, and takes it for its own.
\<close>

definition picture :: "64 word \<Rightarrow> img_span" where
  "picture x = \<lparr>is_first = 0, is_count = 1, is_hash = x\<rparr>"

definition twin_cache :: "rt prefix_cache" where
  "twin_cache = parked_cache\<lparr>pf_slots := [\<lparr>sl_toks = [7, -1], sl_imgs = [picture 1], sl_stamp = 1,
     sl_blob = projr (save_state counted_state), sl_path = ''slot0''\<rparr>]\<rparr>"

theorem ensure_state_ignores_images:
  "server_inv count_net counted_state twin_cache \<and>
   (\<exists>pc'. ensure_state runtime_ops 2 [7, -1] [picture 2] True twin_cache = ((True, False), pc') \<and>
      rt_kv_toks (pf_rt pc') = [7, -1] \<and> pf_kv_imgs pc' = [picture 1] \<and> pf_owner pc' = 2)"
proof -
  have "state_ok count_net counted_state [picture 1] counted_state" using counted_model by (simp add: state_ok_def)
  from session_save[OF this] have "saved_from count_net counted_state [picture 1] (projr (save_state counted_state)) [7, -1]"
    by (auto simp: counted_fields)
  then have inv: "server_inv count_net counted_state twin_cache"
    using parked_inv by (simp add: server_inv_def twin_cache_def parked_cache_def live_cache_def slot_valid_def)
  have f: "pf_owner twin_cache = 1" "\<not> pf_ssd twin_cache" "[7, -1] \<in> sl_toks ` set (pf_slots twin_cache)"
    "\<And>sl. sl \<in> set (pf_slots twin_cache) \<Longrightarrow> sl_imgs sl = [picture 1]"
    by (simp_all add: twin_cache_def parked_cache_def live_cache_def)
  obtain ok redo pc' where e: "ensure_state runtime_ops 2 [7, -1] [picture 2] True twin_cache = ((ok, redo), pc')" by (metis surj_pair)
  note E = runtime.ensure_state_ok[OF inv[folded server_inv_eq] e, unfolded runtime_ops_sel]
  have o: "ok" "\<not> redo" using E(6) f(1-3) by auto
  then show ?thesis using inv e E(2,4,8) f(1,4) by fastforce
qed

text \<open>
  When session 2, which has images, fails to load its slot, \<open>ensure_state\<close> has already reset the runtime but leaves
  it to its previous owner: session 1 then resumes on an empty state as if it were its own.
\<close>

theorem ensure_state_stale_owner:
  "server_inv count_net counted_state stale_cache \<and> pf_owner stale_cache = 1 \<and> rt_kv_toks (pf_rt stale_cache) = [7, -1] \<and>
   (\<exists>pc'. ensure_state runtime_ops 2 [9] [] True stale_cache = ((False, False), pc') \<and> rt_kv_toks (pf_rt pc') = [] \<and>
     ensure_state runtime_ops 1 [7, -1] [] False pc' = ((True, False), pc'))"
proof -
  have "server_inv count_net counted_state stale_cache"
    using counted_session by (simp add: server_inv_def stale_cache_def live_cache_def slot_valid_def)
  moreover have "pf_owner stale_cache = 1 \<and> rt_kv_toks (pf_rt stale_cache) = [7, -1]"
    by (simp add: stale_cache_def live_cache_def counted_fields)
  moreover have "\<exists>pc'. ensure_state runtime_ops 2 [9] [] True stale_cache = ((False, False), pc') \<and> rt_kv_toks (pf_rt pc') = [] \<and> pf_owner pc' = 1"
    by (simp add: ensure_state_def load_slot_def save_live_def stale_cache_def live_cache_def counted_fields)
  ultimately show ?thesis by (auto simp: ensure_state_def)
qed

end
