(* ===== verification/Decode.thy ===== *)
theory Decode
  imports Prefix_Runtime
begin

section \<open>Decoding a batch of tokens\<close>

text \<open>
  \<open>Runtime::decode\<close> of \<open>core/runtime.cpp\<close>: the choice between the single-token and the batched paths, the cutting of long
  prompts into chunks, and the bookkeeping of positions, counters and the token history around a forward.

  The forward itself is the tensor library's evaluation of a graph, a parameter \<open>F\<close>: from the image spans, the rope
  positions, the number of cells each token may attend to, the tokens and the state it yields the logits, the
  layers' new tensors, the captured hidden state and the n-gram history, or an exception. \<open>computes N L F\<close> is what the
  code relies on: on a faithful state a forward is the function of the history that the network \<open>N\<close> is. A faithful
  state is one of a model without index and n-gram module.
  The placement of experts, timing and debugging output are left out.
\<close>

type_synonym ('e, 'l) graph =
  "'e embd_override list \<Rightarrow> int list \<Rightarrow> nat list \<Rightarrow> int list \<Rightarrow> rt \<Rightarrow> exn + 'l \<times> layer_state list \<times> 32 word list \<times> int list"

text \<open>The execution paths; the two chunk sizes are the values of \<open>QWEN_BATCH_CHUNK\<close> and \<open>QWEN_PREFILL_CHUNK\<close>, if set.\<close>

record dcfg =
  dc_ecache :: bool
  dc_sched :: bool
  dc_cpu_prefill :: bool
  dc_no_batch :: bool
  dc_want_bh_all :: bool
  dc_reuse_graph :: bool
  dc_batch_env :: "int option"
  dc_prefill_env :: "int option"

definition batch_chunk :: "int option \<Rightarrow> nat" where
  "batch_chunk c = (case c of None \<Rightarrow> 4096 | Some v \<Rightarrow> if 1 \<le> v then nat v else 4096)"

definition PF_CHUNK :: "int option \<Rightarrow> nat" where
  "PF_CHUNK c = (let v = (case c of None \<Rightarrow> 512 | Some v \<Rightarrow> v) in if v < 1 then 512 else nat v)"

subsection \<open>One forward\<close>

definition commit :: "nat \<Rightarrow> int \<Rightarrow> (exn + 'l \<times> layer_state list \<times> 32 word list \<times> int list) \<Rightarrow> rt \<Rightarrow> (exn + 'l) \<times> rt" where
  "commit n mrope r st =
     (case r of
        Inl e \<Rightarrow> (Inl e, st)
      | Inr (l, ls, hid, hist) \<Rightarrow>
          (Inr l, st\<lparr>rt_layers := ls, rt_mtp_hidden := hid, rt_ngram_hist := hist, rt_n_past := rt_n_past st + n, rt_mrope_next := mrope\<rparr>))"

text \<open>The masks: token \<open>i\<close> of the batch sees the cells up to its own.\<close>

definition visible :: "nat \<Rightarrow> nat \<Rightarrow> nat list" where
  "visible n_past n = map (\<lambda>i. n_past + i + 1) [0..<n]"

definition run_batch :: "('e, 'l) graph \<Rightarrow> 'e embd_override list \<Rightarrow> int list \<Rightarrow> rt \<Rightarrow> (exn + 'l) \<times> rt" where
  "run_batch F ovr ts st =
     (case fill_rope_pos (hp_use_mrope (rt_hp st)) (rt_n_past st) (length ts) (rt_mrope_next st) ovr of
        None \<Rightarrow> (Inl Undefined_behaviour, st)
      | Some (pos, new_mrope) \<Rightarrow> commit (length ts) new_mrope (F ovr pos (visible (rt_n_past st) (length ts)) ts st) st)"

text \<open>A single token: always counted as text. \<open>emb\<close> is the image embedding that replaces it, if any.\<close>

definition run_single :: "('e, 'l) graph \<Rightarrow> 'e embd_override list \<Rightarrow> 'e embd_override list \<Rightarrow> int \<Rightarrow> rt \<Rightarrow> (exn + 'l) \<times> rt" where
  "run_single F spans emb t st =
     (case fill_rope_pos (hp_use_mrope (rt_hp st)) (rt_n_past st) 1 (rt_mrope_next st) spans of
        None \<Rightarrow> (Inl Undefined_behaviour, st)
      | Some (pos, _) \<Rightarrow> commit 1 (rt_mrope_next st + 1) (F emb pos (visible (rt_n_past st) 1) [t] st) st)"

definition override_for :: "nat \<Rightarrow> 'e embd_override list \<Rightarrow> 'e embd_override list" where
  "override_for i ovr =
     (case find (\<lambda>s. eo_first s \<le> int i \<and> int i < eo_first s + eo_count s) ovr of
        None \<Rightarrow> []
      | Some s \<Rightarrow> [\<lparr>eo_first = 0, eo_count = 1, eo_data = drop (nat (int i - eo_first s)) (eo_data s), eo_grid_h = 0, eo_grid_w = 0\<rparr>])"

fun one_by_one :: "('e, 'l) graph \<Rightarrow> 'e embd_override list \<Rightarrow> nat \<Rightarrow> int list \<Rightarrow> exn + 'l \<Rightarrow> rt \<Rightarrow> (exn + 'l) \<times> rt" where
  "one_by_one F ovr i [] r st = (r, st)"
| "one_by_one F ovr i (t # ts) r st =
     (case run_single F ovr (override_for i ovr) t st of
        (Inl e, st') \<Rightarrow> (Inl e, st')
      | (Inr l, st') \<Rightarrow> one_by_one F ovr (i + 1) ts (Inr l) st')"

subsection \<open>Chunks\<close>

function in_chunks ::
  "('e embd_override list \<Rightarrow> int list \<Rightarrow> rt \<Rightarrow> (exn + 'l) \<times> rt) \<Rightarrow> nat \<Rightarrow> 'e embd_override list \<Rightarrow> nat \<Rightarrow> int list \<Rightarrow> exn + 'l \<Rightarrow> rt \<Rightarrow> (exn + 'l) \<times> rt" where
  "in_chunks step c ovr i ts r st =
     (if ts = [] \<or> c = 0 then (r, st)
      else let t = min c (length ts) in
        (case step (chunk_ovr (int i) (int t) ovr) (take t ts) st of
           (Inl e, st') \<Rightarrow> (Inl e, st')
         | (Inr l, st') \<Rightarrow> in_chunks step c ovr (i + t) (drop t ts) (Inr l) st'))"
  by pat_completeness auto
termination
  by (relation "measure (\<lambda>(step, c, ovr, i, ts, r, st). length ts)") auto

declare in_chunks.simps [simp del]

definition decode_rest :: "dcfg \<Rightarrow> ('e, 'l) graph \<Rightarrow> 'e embd_override list \<Rightarrow> int list \<Rightarrow> rt \<Rightarrow> (exn + 'l) \<times> rt" where
  "decode_rest cf F ovr ts st =
     (if length ts = 1 \<and> (dc_ecache cf \<or> dc_reuse_graph cf \<and> \<not> dc_sched cf) then run_single F ovr [] (hd ts) st else run_batch F ovr ts st)"

definition EMPTY_TOKENS :: "exn" where "EMPTY_TOKENS = Runtime_error ''decode: empty tokens''"
definition CONTEXT_OVERFLOW :: "exn" where "CONTEXT_OVERFLOW = Runtime_error ''decode: context overflow''"

text \<open>\<open>Impl::decode\<close>; the chunk loops start without logits, which no caller sees as there is at least one token.\<close>

definition decode_impl :: "dcfg \<Rightarrow> ('e, 'l) graph \<Rightarrow> 'e embd_override list \<Rightarrow> int list \<Rightarrow> rt \<Rightarrow> (exn + 'l) \<times> rt" where
  "decode_impl cf F ovr ts st =
     (if ts = [] then (Inl EMPTY_TOKENS, st)
      else if rt_n_ctx st < rt_n_past st + length ts then (Inl CONTEXT_OVERFLOW, st)
      else if length ts = 1 \<and> dc_ecache cf then run_single F ovr [] (hd ts) st
      else if dc_ecache cf \<and> \<not> (dc_sched cf \<and> dc_cpu_prefill cf) then
        (if dc_no_batch cf \<and> \<not> dc_want_bh_all cf then one_by_one F ovr 0 ts (Inl EMPTY_TOKENS) st
         else in_chunks (run_batch F) (batch_chunk (dc_batch_env cf)) ovr 0 ts (Inl EMPTY_TOKENS) st)
      else if PF_CHUNK (dc_prefill_env cf) < length ts \<and> (dc_sched cf \<or> \<not> dc_ecache cf) then
        in_chunks (decode_rest cf F) (PF_CHUNK (dc_prefill_env cf)) ovr 0 ts (Inl EMPTY_TOKENS) st
      else decode_rest cf F ovr ts st)"

definition runtime_decode :: "dcfg \<Rightarrow> ('e, 'l) graph \<Rightarrow> 'e embd_override list \<Rightarrow> int list \<Rightarrow> rt \<Rightarrow> (exn + 'l) \<times> rt" where
  "runtime_decode cf F ovr ts st =
     (case decode_impl cf F ovr ts st of
        (Inl e, st') \<Rightarrow> (Inl e, st')
      | (Inr l, st') \<Rightarrow> (Inr l, st'\<lparr>rt_kv_toks := rt_kv_toks st' @ ts\<rparr>))"

subsection \<open>What a forward is relied on to do\<close>

definition text_pos :: "int net \<Rightarrow> hparams \<Rightarrow> int list \<Rightarrow> nat \<Rightarrow> int list" where
  "text_pos N hp h n =
     (if \<not> hp_use_mrope hp then map (\<lambda>i. int (length h + i)) [0..<n]
      else sections (map (\<lambda>k. (nf_pos N h + int k, nf_pos N h + int k, nf_pos N h + int k)) [0..<n]))"

definition main_state :: "int net \<Rightarrow> hparams \<Rightarrow> layer_state list \<Rightarrow> int list \<Rightarrow> bool" where
  "main_state N hp ls h \<longleftrightarrow>
     (\<forall>il < n_main hp. il < length ls \<longrightarrow> rows_hold (length h) (\<lambda>i. nf_row N il (take (i + 1) h)) (ls ! il)) \<and>
     (\<forall>il < length ls. rec_holds (nf_rec N il h) (ls ! il))"

definition computes :: "int net \<Rightarrow> rt \<Rightarrow> (int list \<Rightarrow> 'l) \<Rightarrow> ('e, 'l) graph \<Rightarrow> bool" where
  "computes N st0 L F \<longleftrightarrow> \<not> nf_drafts N \<and>
     (hp_use_mrope (rt_hp st0) \<longrightarrow> (\<forall>h ts. nf_pos N (h @ ts) = nf_pos N h + int (length ts))) \<and>
     (\<forall>st h ts. same_model N st0 st \<longrightarrow> faithful N st h \<longrightarrow> ts \<noteq> [] \<longrightarrow> length h + length ts \<le> rt_n_ctx st \<longrightarrow>
        (\<exists>ls hid hist. F [] (text_pos N (rt_hp st) h (length ts)) (visible (length h) (length ts)) ts st = Inr (L (h @ ts), ls, hid, hist) \<and>
           list_all2 same_shape (rt_layers st) ls \<and> length hid < 2 ^ 31 \<and> main_state N (rt_hp st) ls (h @ ts)))"

definition session_at :: "int net \<Rightarrow> rt \<Rightarrow> rt \<Rightarrow> int list \<Rightarrow> bool" where
  "session_at N st0 st h \<longleftrightarrow> same_model N st0 st \<and> faithful N st h \<and> (has_recurrent (rt_hp st) \<longrightarrow> draft_ok N st h \<and> pk_ok N st h)"

lemma session_at_ok: "session_ok N st0 st \<longleftrightarrow> session_at N st0 st (rt_kv_toks st)"
  by (simp add: session_ok_def session_at_def)

subsection \<open>One forward over text\<close>

lemma text_rope:
  assumes "faithful N st h"
  shows "fill_rope_pos (hp_use_mrope (rt_hp st)) (rt_n_past st) n (rt_mrope_next st) ([] :: 'e embd_override list) =
    Some (text_pos N (rt_hp st) h n, if hp_use_mrope (rt_hp st) then rt_mrope_next st + int n else rt_mrope_next st)"
proof -
  have h: "rt_n_past st = length h" "hp_use_mrope (rt_hp st) \<Longrightarrow> rt_mrope_next st = nf_pos N h" using assms by (auto simp: faithful_def)
  have "rope_loop ([] :: 'e embd_override list) n 0 c = Some (map (\<lambda>k. (c + int k, c + int k, c + int k)) [0..<n], c + int n)" for c
    using rope_text_run[of 0 n "[]" c] by (simp add: span_at_def)
  then show ?thesis using h by (simp add: fill_rope_pos_def text_pos_def)
qed

lemma rec_blob_shape:
  assumes "list_all2 same_shape ls ls'"
  shows "rec_blob N h i ls' = rec_blob N h i ls"
  using assms
proof (induction arbitrary: i rule: list_all2_induct)
  case (Cons x xs y ys)
  then show ?case using shape_eq[of "conv_state y" "conv_state x"] shape_eq[of "ssm_state y" "ssm_state x"] by (simp add: same_shape_def)
qed simp

lemma pk_ok_extend:
  assumes "pk_ok N st h" "\<not> nf_drafts N" "rt_hp st' = rt_hp st" "rt_n_ctx st' = rt_n_ctx st" "rt_pk st' = rt_pk st"
    "list_all2 same_shape (rt_layers st) (rt_layers st')"
  shows "pk_ok N st' (h @ ts)"
proof -
  have "ckpt_ok N st' (h @ ts) c" if "ckpt_ok N st h c" for c
  proof -
    have "take (pc_pos c) (h @ ts) = take (pc_pos c) h" using that by (simp add: ckpt_ok_def)
    then show ?thesis using that assms(2-4) by (simp add: ckpt_ok_def rec_blob_shape[OF assms(6)])
  qed
  then show ?thesis using assms(1,5) by (simp add: pk_ok_def)
qed

lemma forward_text:
  assumes "computes N st0 L F" "session_at N st0 st h" "ts \<noteq> []" "length h + length ts \<le> rt_n_ctx st" "0 \<le> m" "m \<le> int (length h + length ts)"
    "hp_use_mrope (rt_hp st) \<Longrightarrow> m = rt_mrope_next st + int (length ts)"
  shows "\<exists>st'. commit (length ts) m (F [] (text_pos N (rt_hp st) h (length ts)) (visible (rt_n_past st) (length ts)) ts st) st = (Inr (L (h @ ts)), st') \<and>
    session_at N st0 st' (h @ ts) \<and> rt_kv_toks st' = rt_kv_toks st \<and> rt_n_ctx st' = rt_n_ctx st"
proof -
  have s: "same_model N st0 st" "faithful N st h" using assms(2) by (simp_all add: session_at_def)
  have w: "rt_wf st" "rt_n_past st = length h" "rt_hp st = rt_hp st0" using s by (simp_all add: faithful_def same_model_def)
  obtain ls hid hist where F: "F [] (text_pos N (rt_hp st) h (length ts)) (visible (length h) (length ts)) ts st = Inr (L (h @ ts), ls, hid, hist)"
      "list_all2 same_shape (rt_layers st) ls" "length hid < 2 ^ 31" "main_state N (rt_hp st) ls (h @ ts)"
    using assms(1,3,4) s unfolding computes_def by blast
  have nd: "\<not> nf_drafts N" and np: "hp_use_mrope (rt_hp st) \<Longrightarrow> nf_pos N (h @ ts) = nf_pos N h + int (length ts)"
    using assms(1) w(3) by (auto simp: computes_def)
  define st' where "st' = st\<lparr>rt_layers := ls, rt_mtp_hidden := hid, rt_ngram_hist := hist, rt_n_past := rt_n_past st + length ts, rt_mrope_next := m\<rparr>"
  have c: "commit (length ts) m (F [] (text_pos N (rt_hp st) h (length ts)) (visible (rt_n_past st) (length ts)) ts st) st = (Inr (L (h @ ts)), st')"
    using F(1) w(2) by (simp add: commit_def st'_def)
  have fr: "rt_hp st' = rt_hp st" "rt_n_ctx st' = rt_n_ctx st" "rt_pk st' = rt_pk st" "rt_kv_toks st' = rt_kv_toks st" "rt_layers st' = ls"
    by (simp_all add: st'_def)
  have len: "length ls = length (rt_layers st)" using F(2) by (simp add: list_all2_lengthD)
  have "m \<in> int32" using assms(4-6) w(1) unfolding rt_wf_def int32_def by auto
  then have wf: "rt_wf st'" using w(1,2) assms(4) F(3) len layers_ok_shape[OF F(2)] by (auto simp: rt_wf_def st'_def)
  have fa: "faithful N st' (h @ ts)"
    unfolding faithful_def
  proof (intro conjI allI impI)
    show "hp_use_mrope (rt_hp st') \<Longrightarrow> rt_mrope_next st' = nf_pos N (h @ ts)"
      using assms(7) np s(2) by (simp add: st'_def faithful_def)
  qed (use wf w(2) assms(5,6) F(4) s(2) in \<open>auto simp: st'_def main_state_def faithful_def\<close>)
  have "same_model N st0 st'" by (rule same_model_step[OF s(1) wf fr(1,2)]) (use F(2) fr(5) in simp)
  moreover have "has_recurrent (rt_hp st') \<longrightarrow> draft_ok N st' (h @ ts) \<and> pk_ok N st' (h @ ts)"
    using assms(2) nd pk_ok_extend[OF _ nd fr(1,2,3), of h ts] F(2) fr(1,5) by (auto simp: session_at_def draft_ok_def)
  ultimately have "session_at N st0 st' (h @ ts)" using fa by (simp add: session_at_def)
  then show ?thesis using c fr by blast
qed

definition delivers :: "int net \<Rightarrow> rt \<Rightarrow> (int list \<Rightarrow> 'l) \<Rightarrow> int list \<Rightarrow> int list \<Rightarrow> rt \<Rightarrow> (exn + 'l) \<times> rt \<Rightarrow> bool" where
  "delivers N st0 L h ts st r \<longleftrightarrow> fst r = Inr (L (h @ ts)) \<and> session_at N st0 (snd r) (h @ ts) \<and> rt_kv_toks (snd r) = rt_kv_toks st \<and>
     rt_n_ctx (snd r) = rt_n_ctx st"

lemma run_batch_text:
  assumes "computes N st0 L F" "session_at N st0 st h" "ts \<noteq> []" "length h + length ts \<le> rt_n_ctx st"
  shows "delivers N st0 L h ts st (run_batch F [] ts st)"
proof -
  have f: "faithful N st h" using assms(2) by (simp add: session_at_def)
  let ?m = "if hp_use_mrope (rt_hp st) then rt_mrope_next st + int (length ts) else rt_mrope_next st"
  have m: "0 \<le> ?m" "?m \<le> int (length h + length ts)" using f by (auto simp: faithful_def)
  show ?thesis
    using forward_text[OF assms m] by (auto simp: run_batch_def text_rope[OF f] delivers_def)
qed

lemma run_single_text:
  assumes "computes N st0 L F" "session_at N st0 st h" "length h + 1 \<le> rt_n_ctx st"
  shows "delivers N st0 L h [t] st (run_single F [] [] t st)"
proof -
  have f: "faithful N st h" using assms(2) by (simp add: session_at_def)
  have m: "0 \<le> rt_mrope_next st + 1" "rt_mrope_next st + 1 \<le> int (length h + length [t])" using f by (auto simp: faithful_def)
  have l: "length h + length [t] \<le> rt_n_ctx st" using assms(3) by simp
  show ?thesis
    using forward_text[OF assms(1,2) _ l m] by (auto simp: run_single_def text_rope[OF f] delivers_def)
qed


subsection \<open>Every path, every cut\<close>

lemma chunk_ovr_Nil [simp]: "chunk_ovr p n [] = []"
  by (simp add: chunk_ovr_def)

lemma override_for_Nil [simp]: "override_for i [] = []"
  by (simp add: override_for_def)

lemma delivers_trans:
  assumes "delivers N st0 L h ts st (Inr l, st1)" "delivers N st0 L (h @ ts) us st1 r"
  shows "delivers N st0 L h (ts @ us) st r"
  using assms by (simp add: delivers_def)

lemma delivers_room: "delivers N st0 L h ts st (Inr l, st1) \<Longrightarrow> session_at N st0 st1 (h @ ts) \<and> rt_n_ctx st1 = rt_n_ctx st"
  by (simp add: delivers_def)

lemma in_chunks_text:
  assumes step: "\<And>st h ts. session_at N st0 st h \<Longrightarrow> ts \<noteq> [] \<Longrightarrow> length h + length ts \<le> rt_n_ctx st \<Longrightarrow> delivers N st0 L h ts st (step [] ts st)"
    and "0 < c" "session_at N st0 st h" "ts \<noteq> []" "length h + length ts \<le> rt_n_ctx st"
  shows "delivers N st0 L h ts st (in_chunks step c [] i ts r st)"
  using assms(3-)
proof (induction "length ts" arbitrary: ts h st i r rule: less_induct)
  case less
  define t where "t = min c (length ts)"
  have t: "0 < t" "t \<le> length ts" using less.prems(2) assms(2) by (auto simp: t_def)
  obtain e st1 where d: "step [] (take t ts) st = (e, st1)" by (metis surj_pair)
  have dt: "delivers N st0 L h (take t ts) st (e, st1)"
    using step[OF less.prems(1), of "take t ts"] less.prems t d by auto
  then have e: "e = Inr (L (h @ take t ts))" by (simp add: delivers_def)
  have u: "in_chunks step c [] i ts r st = in_chunks step c [] (i + t) (drop t ts) (Inr (L (h @ take t ts))) st1"
    using less.prems(2) assms(2) d e by (subst in_chunks.simps) (simp add: Let_def t_def)
  show ?case
  proof (cases "drop t ts = []")
    case True
    then have "in_chunks step c [] i ts r st = (e, st1)" using e u by (simp add: in_chunks.simps)
    then show ?thesis using dt True by simp
  next
    case False
    have s1: "session_at N st0 st1 (h @ take t ts)" "rt_n_ctx st1 = rt_n_ctx st" using dt by (auto simp: delivers_def)
    have "length (drop t ts) < length ts" using t by simp
    from less.hyps[OF this s1(1) False] have "delivers N st0 L (h @ take t ts) (drop t ts) st1 (in_chunks step c [] i ts r st)"
      unfolding u using s1(2) less.prems(3) t by simp
    from delivers_trans[OF dt[unfolded e] this] show ?thesis by simp
  qed
qed

lemma one_by_one_text:
  assumes "computes N st0 L F" "session_at N st0 st h" "ts \<noteq> []" "length h + length ts \<le> rt_n_ctx st"
  shows "delivers N st0 L h ts st (one_by_one F [] i ts r st)"
  using assms(2-)
proof (induction ts arbitrary: st h i r)
  case (Cons t ts)
  obtain e st1 where d: "run_single F [] [] t st = (e, st1)" by (metis surj_pair)
  have dt: "delivers N st0 L h [t] st (e, st1)" using run_single_text[OF assms(1) Cons.prems(1), of t] Cons.prems(3) d by simp
  then have e: "e = Inr (L (h @ [t]))" by (simp add: delivers_def)
  show ?case
  proof (cases "ts = []")
    case True
    then show ?thesis using dt d e by simp
  next
    case False
    have s1: "session_at N st0 st1 (h @ [t])" "rt_n_ctx st1 = rt_n_ctx st" using dt by (auto simp: delivers_def)
    have "delivers N st0 L (h @ [t]) ts st1 (one_by_one F [] (i + 1) ts e st1)"
      by (rule Cons.IH[OF s1(1) False]) (use Cons.prems(3) s1(2) in simp)
    then show ?thesis using delivers_trans[OF dt[unfolded e], of ts] d e by simp
  qed
qed simp

lemma decode_rest_text:
  assumes "computes N st0 L F" "session_at N st0 st h" "ts \<noteq> []" "length h + length ts \<le> rt_n_ctx st"
  shows "delivers N st0 L h ts st (decode_rest cf F [] ts st)"
proof (cases "length ts = 1")
  case True
  then obtain t where t: "ts = [t]" by (cases ts) auto
  then show ?thesis using run_single_text[OF assms(1,2), of t] run_batch_text[OF assms] assms(4) by (auto simp: decode_rest_def)
qed (use run_batch_text[OF assms] in \<open>simp add: decode_rest_def\<close>)

lemma PF_CHUNK_pos: "0 < PF_CHUNK c" and batch_chunk_pos: "0 < batch_chunk c"
  by (auto simp: PF_CHUNK_def batch_chunk_def Let_def split: option.splits)

lemma decode_impl_text:
  assumes "computes N st0 L F" "session_at N st0 st h" "ts \<noteq> []" "length h + length ts \<le> rt_n_ctx st"
  shows "delivers N st0 L h ts st (decode_impl cf F [] ts st)"
proof -
  have np: "rt_n_past st = length h" using assms(2) by (simp add: session_at_def faithful_def)
  have single: "delivers N st0 L h ts st (run_single F [] [] (hd ts) st)" if "length ts = 1"
    using run_single_text[OF assms(1,2), of "hd ts"] that assms(4) by (cases ts) auto
  have batch: "delivers N st0 L h ts st (in_chunks (run_batch F) (batch_chunk (dc_batch_env cf)) [] 0 ts (Inl EMPTY_TOKENS) st)"
    by (rule in_chunks_text[where step="run_batch F", OF _ batch_chunk_pos assms(2-)]) (rule run_batch_text[OF assms(1)])
  have pf: "delivers N st0 L h ts st (in_chunks (decode_rest cf F) (PF_CHUNK (dc_prefill_env cf)) [] 0 ts (Inl EMPTY_TOKENS) st)"
    by (rule in_chunks_text[where step="decode_rest cf F", OF _ PF_CHUNK_pos assms(2-)]) (rule decode_rest_text[OF assms(1)])
  show ?thesis
    using single batch pf one_by_one_text[OF assms, of 0 "Inl EMPTY_TOKENS"] decode_rest_text[OF assms, of cf] assms(3,4) np
    by (simp add: decode_impl_def)
qed

lemma session_at_toks:
  assumes "session_at N st0 st h" "set ts \<subseteq> int32" "length ts < 2 ^ 31"
  shows "session_at N st0 (st\<lparr>rt_kv_toks := ts\<rparr>) h"
proof -
  let ?s = "st\<lparr>rt_kv_toks := ts\<rparr>"
  have w: "rt_wf st \<Longrightarrow> rt_wf ?s" using assms(2,3) by (simp add: rt_wf_def)
  have fa: "faithful N st h \<Longrightarrow> faithful N ?s h" using w by (simp add: faithful_def)
  have "same_model N st0 st \<Longrightarrow> same_model N st0 ?s"
    by (rule same_model_step[where st = st]) (use w in \<open>simp_all add: same_model_def list_all2_same same_shape_def\<close>)
  moreover have "draft_ok N ?s h = draft_ok N st h" by (simp add: draft_ok_def)
  moreover have "ckpt_ok N ?s h c = ckpt_ok N st h c" for c by (simp add: ckpt_ok_def)
  ultimately show ?thesis using assms(1) fa by (simp add: session_at_def pk_ok_def)
qed

lemma runtime_decode_ok:
  assumes "computes N st0 L F" "session_ok N st0 st" "ts \<noteq> []" "length (rt_kv_toks st) + length ts \<le> rt_n_ctx st" "set ts \<subseteq> int32"
  shows "\<exists>st'. runtime_decode cf F [] ts st = (Inr (L (rt_kv_toks st @ ts)), st') \<and> session_ok N st0 st' \<and>
    rt_kv_toks st' = rt_kv_toks st @ ts \<and> rt_n_ctx st' = rt_n_ctx st"
proof -
  have s: "session_at N st0 st (rt_kv_toks st)" using assms(2) by (simp add: session_at_ok)
  obtain st1 where d: "decode_impl cf F [] ts st = (Inr (L (rt_kv_toks st @ ts)), st1)" "session_at N st0 st1 (rt_kv_toks st @ ts)"
      "rt_kv_toks st1 = rt_kv_toks st" "rt_n_ctx st1 = rt_n_ctx st"
    using decode_impl_text[OF assms(1) s assms(3,4), of cf] unfolding delivers_def by (metis prod.collapse)
  have w: "rt_wf st" using s by (simp add: session_at_def faithful_def)
  have "session_at N st0 (st1\<lparr>rt_kv_toks := rt_kv_toks st @ ts\<rparr>) (rt_kv_toks st @ ts)"
    by (rule session_at_toks[OF d(2)]) (use w assms(4,5) in \<open>auto simp: rt_wf_def\<close>)
  then show ?thesis using d by (simp add: runtime_decode_def session_at_ok)
qed

text \<open>
  C5. Decoding text gives the logits of the whole history and the network's exact state after it, on every execution
  path and for every chunk size. The model has no index and no n-gram module (\<open>no_side_state\<close>).
\<close>

theorem decode_text_correct:
  assumes "computes N st0 L F" "session_ok N st0 st" "ts \<noteq> []" "length (rt_kv_toks st) + length ts \<le> rt_n_ctx st" "set ts \<subseteq> int32"
  shows "\<exists>st'. runtime_decode cf F [] ts st = (Inr (L (rt_kv_toks st @ ts)), st') \<and> rt_kv_toks st' = rt_kv_toks st @ ts \<and>
    rt_n_past st' = length (rt_kv_toks st @ ts) \<and> faithful N st' (rt_kv_toks st @ ts) \<and> session_ok N st0 st'"
  using runtime_decode_ok[OF assms, of cf] by (auto simp: session_ok_def faithful_def)


subsection \<open>A concrete forward\<close>

text \<open>The counting network without its draft block, evaluated on the session of two tokens in a context of four.\<close>

definition plain_net :: "int net" where
  "plain_net = count_net\<lparr>nf_drafts := False\<rparr>"

definition count_graph :: "(nat, nat) graph" where
  "count_graph spans pos vis ts st =
     (let n = rt_n_past st + length ts in
      Inr (n, [rec_layer (of_nat n), kv_layer [1, 1, 2, 2, 3, 3, 4, 4] [11, 11, 12, 12, 13, 13, 14, 14], rt_layers st ! 2], [of_nat n], []))"

lemma plain_faithful [simp]: "faithful plain_net = faithful count_net"
  by (intro ext) (simp add: faithful_def plain_net_def)

lemma plain_model [simp]: "same_model plain_net = same_model count_net"
proof -
  have "net_fits plain_net st = net_fits count_net st" "net_start plain_net st = net_start count_net st" for st
    by (simp_all add: net_fits_def layer_fits_def net_start_def plain_net_def)
  then show ?thesis by (intro ext) (simp add: same_model_def)
qed

lemma plain_session: "session_ok plain_net counted_state counted_state"
proof -
  have "rec_blob plain_net h i ls = rec_blob count_net h i ls" for h i ls
    by (induction ls arbitrary: i) (simp_all add: plain_net_def)
  then have "ckpt_ok count_net st h c \<Longrightarrow> ckpt_ok plain_net st h c" for st h c by (simp add: ckpt_ok_def) (simp add: plain_net_def)
  moreover have "ckpt_less count_net a b \<Longrightarrow> ckpt_less plain_net a b" for a b by (simp add: ckpt_less_def plain_net_def)
  ultimately have "pk_ok count_net st h \<Longrightarrow> pk_ok plain_net st h" for st h
    unfolding pk_ok_def by (blast intro: sorted_wrt_mono_rel)
  moreover have "draft_ok plain_net st h" for st h by (simp add: draft_ok_def plain_net_def)
  ultimately show ?thesis using counted_session by (simp add: session_ok_def)
qed

lemma count_rows:
  assumes "n \<le> 4" "n = length h"
  shows "rows_hold n (\<lambda>i. nf_row count_net 1 (take (i + 1) h)) (kv_layer [1, 1, 2, 2, 3, 3, 4, 4] [11, 11, 12, 12, 13, 13, 14, 14])"
  unfolding rows_hold_def
proof (intro allI impI)
  fix k v i assume kv: "k_cache (kv_layer [1, 1, 2, 2, 3, 3, 4, 4] [11, 11, 12, 12, 13, 13, 14, 14]) = Some k"
    "v_cache (kv_layer [1, 1, 2, 2, 3, 3, 4, 4] [11, 11, 12, 12, 13, 13, 14, 14]) = Some v" and i: "i < n"
  have "i = 0 \<or> i = 1 \<or> i = 2 \<or> i = 3" using i assms(1) by linarith
  moreover have "length (take (i + 1) h) = i + 1" using i assms(2) by simp
  ultimately show "(row_of k i, row_of v i) = nf_row count_net 1 (take (i + 1) h)"
    using kv by (auto simp: kv_layer_def row_of_def count_net_def numeral_2_eq_2 numeral_3_eq_3 simp del: length_take)
qed

lemma count_computes: "computes plain_net counted_state length count_graph"
  unfolding computes_def
proof (intro conjI impI allI)
  show "\<not> nf_drafts plain_net" by (simp add: plain_net_def)
  show "nf_pos plain_net (h @ ts) = nf_pos plain_net h + int (length ts)" for h ts by (simp add: plain_net_def count_net_def)
  fix st h and ts :: "int list"
  assume st: "same_model plain_net counted_state st" "faithful plain_net st h" "ts \<noteq> []" "length h + length ts \<le> rt_n_ctx st"
  have hp: "rt_hp st = tiny_hp" "rt_n_ctx st = 4" "list_all2 same_shape counted_layers (rt_layers st)"
    using st(1) by (simp_all add: same_model_def counted_fields)
  have np: "rt_n_past st = length h" using st(2) by (simp add: faithful_def)
  have l3: "length (rt_layers st) = 3" using list_all2_lengthD[OF hp(3)] by (simp add: counted_layers_def)
  define n where "n = length (h @ ts)"
  define ls where "ls = [rec_layer (of_nat n), kv_layer [1, 1, 2, 2, 3, 3, 4, 4] [11, 11, 12, 12, 13, 13, 14, 14], rt_layers st ! 2]"
  have s: "same_shape (counted_layers ! i) (rt_layers st ! i)" if "i < 3" for i
    using list_all2_nthD[OF hp(3), of i] that l3 by (simp add: counted_layers_def)
  have "same_shape (rt_layers st ! i) (ls ! i)" if i: "i < 3" for i
  proof -
    have "i = 0 \<or> i = 1 \<or> i = 2" using i by linarith
    then show ?thesis using s[of i] by (auto simp: ls_def counted_layers_def same_shape_def rec_layer_def kv_layer_def no_state_def shape_def nbytes_def)
  qed
  then have sh: "list_all2 same_shape (rt_layers st) ls" using l3 by (simp add: list_all2_conv_all_nth ls_def)
  have rec2: "rec_holds b (rt_layers st ! 2)" for b
    using s[of 2] by (simp add: rec_holds_def counted_layers_def same_shape_def kv_layer_def no_state_def shape_def)
  have nm: "n_main tiny_hp = 2" by (simp add: n_main_def tiny_hp_def)
  have "main_state plain_net (rt_hp st) ls (h @ ts)"
    unfolding main_state_def
  proof (intro conjI allI impI)
    fix il assume "il < n_main (rt_hp st)" "il < length ls"
    then have "il = 0 \<or> il = 1" using hp(1) nm by auto
    then show "rows_hold (length (h @ ts)) (\<lambda>i. nf_row plain_net il (take (i + 1) (h @ ts))) (ls ! il)"
      using count_rows[of "length (h @ ts)" "h @ ts"] st(4) hp(2)
      by (auto simp: ls_def plain_net_def rows_hold_def rec_layer_def no_state_def)
  next
    fix il assume "il < length ls"
    then have "il = 0 \<or> il = 1 \<or> il = 2" by (auto simp: ls_def)
    then show "rec_holds (nf_rec plain_net il (h @ ts)) (ls ! il)"
      using rec2 by (auto simp: ls_def n_def rec_holds_def rec_layer_def kv_layer_def no_state_def plain_net_def count_net_def)
  qed
  moreover have "count_graph [] pos vis ts st = Inr (length (h @ ts), ls, [of_nat n], [])" for pos vis
    by (simp add: count_graph_def Let_def np ls_def n_def)
  ultimately show "\<exists>ls hid hist. count_graph [] (text_pos plain_net (rt_hp st) h (length ts)) (visible (length h) (length ts)) ts st =
      Inr (length (h @ ts), ls, hid, hist) \<and> list_all2 same_shape (rt_layers st) ls \<and> length hid < 2 ^ 31 \<and> main_state plain_net (rt_hp st) ls (h @ ts)"
    using sh by (intro exI[of _ ls] exI[of _ "[of_nat n]"] exI[of _ "[]"]) simp
qed

definition offload_cfg :: dcfg where
  "offload_cfg = \<lparr>dc_ecache = True, dc_sched = False, dc_cpu_prefill = False, dc_no_batch = False, dc_want_bh_all = False, dc_reuse_graph = True,
     dc_batch_env = Some 1, dc_prefill_env = None\<rparr>"

theorem decode_text_correct_witness:
  "\<exists>st'. runtime_decode offload_cfg count_graph [] [5, 6] counted_state = (Inr 4, st') \<and> rt_kv_toks st' = [7, -1, 5, 6]"
proof -
  have "set [5, 6] \<subseteq> int32" "length (rt_kv_toks counted_state) + length [5, 6 :: int] \<le> rt_n_ctx counted_state"
    by (simp_all add: int32_def counted_fields)
  from decode_text_correct[OF count_computes plain_session _ this(2,1), of offload_cfg] show ?thesis
    by (auto simp: counted_fields)
qed

end
