(* ===== verification/Time_Slice.thy ===== *)
theory Time_Slice imports Decode begin

section \<open>Serving a stream in time slices\<close>

text \<open>
  The content provider of a streamed chat completion (\<open>server/main.cpp\<close>, plain decoding): the HTTP library calls it
  again and again; a call takes the runtime's lock if the stream does not hold it, prepares the prompt or gets its
  state back, prefills the prompt in chunks, and decodes one token. Between chunks and at the end of a slice it
  hands the runtime to a waiting request.

  A call is a step of the stream's state and the prefix cache; what the outside decides during the call (whether the
  lock is obtained before the client leaves, whether a request is waiting, whether the client still reads) is its
  input. What other requests do to the cache between the calls is a function on the cache. The engine's decode
  and the sampler are parameters; their contract with the prefix cache is the locale \<open>kv_decoder\<close>, and the runtime model is
  an instance. Tokens handed to \<open>emit_piece\<close> are recorded in \<open>ss_out\<close>; its text filter is the theory \<open>Chat_Stream\<close>.
\<close>

record ('s, 'l, 'e) engine =
  en_decode :: "'e embd_override list \<Rightarrow> int list \<Rightarrow> 's \<Rightarrow> (exn + 'l) \<times> 's"
  en_snapshot :: "'s \<Rightarrow> 's"
  en_n_past :: "'s \<Rightarrow> nat"

text \<open>\<open>po_sample\<close> is the sampler's \<open>sample\<close> followed by \<open>accept\<close>; \<open>po_pf_env\<close> the value of \<open>QWEN_PF_CHUNK\<close>, if set.\<close>

record ('l, 'r) policy =
  po_sample :: "'l \<Rightarrow> 'r \<Rightarrow> int \<times> 'r"
  po_stop :: "int \<Rightarrow> bool"
  po_n_ctx :: nat
  po_pf_env :: "int option"
  po_time_slice :: nat

record ('l, 'r, 'e) stream =
  ss_smp :: 'r
  ss_holding :: bool
  ss_prompt :: "int list"
  ss_logits :: 'l
  ss_out :: "int list"
  ss_ovr :: "'e embd_override list"
  ss_spans :: "img_span list"
  ss_sid :: nat
  ss_had_images :: bool
  ss_slice_used :: nat
  ss_my_toks :: "int list"
  ss_my_imgs :: "img_span list"
  ss_pf_pos :: nat
  ss_gen_begin :: int
  ss_n_cached :: int
  ss_generated :: nat
  ss_max_tokens :: nat
  ss_started :: bool
  ss_finished :: bool

text \<open>
  The inputs of a call: the lock is obtained; the client can be written to at a chunk boundary, and a request is waiting
  there (both by position in the prompt; the position at the end stands for the check after the token); the
  client takes the token.
\<close>

record call =
  ca_lock :: bool
  ca_writable :: "nat \<Rightarrow> bool"
  ca_contended :: "nat \<Rightarrow> bool"
  ca_emit :: bool

definition pf_chunk :: "int option \<Rightarrow> nat" where
  "pf_chunk c = (let v = (case c of None \<Rightarrow> 0 | Some v \<Rightarrow> v) in if 1 \<le> v then nat v else 4096)"

subsection \<open>The provider\<close>

definition finish_stream :: "('l, 'r, 'e) stream \<Rightarrow> ('l, 'r, 'e) stream" where
  "finish_stream st = st\<lparr>ss_holding := False, ss_finished := True\<rparr>"

definition yield_now :: "'s kv_ops \<Rightarrow> ('l, 'r, 'e) stream \<Rightarrow> 's prefix_cache \<Rightarrow> ('l, 'r, 'e) stream" where
  "yield_now R st pc = st\<lparr>ss_my_toks := op_toks R (pf_rt pc), ss_my_imgs := pf_kv_imgs pc, ss_holding := False\<rparr>"

text \<open>The size of the next chunk: cut at the generation prompt, so that a checkpoint lands there.\<close>

definition chunk_len :: "nat \<Rightarrow> ('l, 'r, 'e) stream \<Rightarrow> nat" where
  "chunk_len c st =
     (let n = min c (length (ss_prompt st) - ss_pf_pos st);
          gen_rel = (if ss_gen_begin st < 0 then -1 else ss_gen_begin st - ss_n_cached st)
      in if int (ss_pf_pos st) < gen_rel \<and> gen_rel < int (ss_pf_pos st + n) then nat gen_rel - ss_pf_pos st else n)"

datatype pf_result = Pf_done | Pf_yield | Pf_gone | Pf_error

lemma chunk_len_pos: "0 < c \<Longrightarrow> ss_pf_pos st < length (ss_prompt st) \<Longrightarrow> 0 < chunk_len c st"
  by (auto simp: chunk_len_def Let_def)

lemma chunk_len_le: "chunk_len c st \<le> length (ss_prompt st) - ss_pf_pos st"
  by (auto simp: chunk_len_def Let_def)

lemma pf_chunk_pos: "0 < pf_chunk c"
  by (auto simp: pf_chunk_def Let_def split: option.splits)

function prefill_loop ::
  "'s kv_ops \<Rightarrow> ('s, 'l, 'e) engine \<Rightarrow> int option \<Rightarrow> call \<Rightarrow> ('l, 'r, 'e) stream \<Rightarrow> 's prefix_cache \<Rightarrow> pf_result \<times> ('l, 'r, 'e) stream \<times> 's prefix_cache" where
  "prefill_loop R en pfe ca st pc =
     (if length (ss_prompt st) \<le> ss_pf_pos st then (Pf_done, st, pc)
      else if \<not> ca_writable ca (ss_pf_pos st) then (Pf_gone, finish_stream st, pc)
      else let n = chunk_len (pf_chunk pfe) st in
        (case en_decode en (chunk_ovr (int (ss_pf_pos st)) (int n) (ss_ovr st)) (take n (drop (ss_pf_pos st) (ss_prompt st))) (pf_rt pc) of
           (Inl e, rt') \<Rightarrow> (Pf_error, st, pc\<lparr>pf_rt := rt'\<rparr>)
         | (Inr l, rt') \<Rightarrow>
             let pc1 = pc\<lparr>pf_rt := en_snapshot en rt'\<rparr>; st1 = st\<lparr>ss_logits := l, ss_pf_pos := ss_pf_pos st + n\<rparr> in
             if ss_pf_pos st1 < length (ss_prompt st1) \<and> yieldable (ca_contended ca (ss_pf_pos st1)) pc1
             then (Pf_yield, yield_now R st1 pc1, pc1)
             else prefill_loop R en pfe ca st1 pc1))"
  by pat_completeness auto
termination
proof (relation "measure (\<lambda>(R, en, pfe, ca, st, pc). length (ss_prompt st) - ss_pf_pos st)", goal_cases)
  case (2 R en pfe ca st pc n p l rt' pc1 st1)
  then show ?case using chunk_len_pos[OF pf_chunk_pos, of st pfe] by (auto simp: not_le)
qed simp

declare prefill_loop.simps [simp del]

text \<open>An exception during a call: the state is unknown and nobody's.\<close>

definition catch_error :: "'s kv_ops \<Rightarrow> ('l, 'r, 'e) stream \<Rightarrow> 's prefix_cache \<Rightarrow> bool \<times> ('l, 'r, 'e) stream \<times> 's prefix_cache" where
  "catch_error R st pc = (False, finish_stream st, if ss_holding st then pc\<lparr>pf_rt := op_reset R (pf_rt pc), pf_owner := 0\<rparr> else pc)"

text \<open>Sampling and decoding one token, and the end of the slice.\<close>

definition next_token ::
  "'s kv_ops \<Rightarrow> ('s, 'l, 'e) engine \<Rightarrow> ('l, 'r) policy \<Rightarrow> call \<Rightarrow> ('l, 'r, 'e) stream \<Rightarrow> 's prefix_cache \<Rightarrow> bool \<times> ('l, 'r, 'e) stream \<times> 's prefix_cache" where
  "next_token R en po ca st pc =
     (let (t, smp) = po_sample po (ss_logits st) (ss_smp st); st1 = st\<lparr>ss_smp := smp\<rparr> in
      if po_stop po t \<or> ss_max_tokens st1 \<le> ss_generated st1 \<or> po_n_ctx po \<le> en_n_past en (pf_rt pc) + 1 then (False, finish_stream st1, pc)
      else if \<not> ca_emit ca then (False, finish_stream st1, pc)
      else let st2 = st1\<lparr>ss_out := ss_out st1 @ [t], ss_generated := ss_generated st1 + 1\<rparr> in
        (case en_decode en [] [t] (pf_rt pc) of
           (Inl e, rt') \<Rightarrow> catch_error R st2 (pc\<lparr>pf_rt := rt'\<rparr>)
         | (Inr l, rt') \<Rightarrow>
             let pc1 = pc\<lparr>pf_rt := rt'\<rparr>; st3 = st2\<lparr>ss_logits := l\<rparr> in
             if 0 < po_time_slice po then
               let st4 = st3\<lparr>ss_slice_used := ss_slice_used st3 + 1\<rparr> in
               if po_time_slice po \<le> ss_slice_used st4 \<and> yieldable (ca_contended ca (ss_pf_pos st4)) pc1
               then (True, yield_now R st4 pc1, pc1) else (True, st4, pc1)
             else (True, st3, pc1)))"

definition after_resume ::
  "'s kv_ops \<Rightarrow> ('s, 'l, 'e) engine \<Rightarrow> ('l, 'r) policy \<Rightarrow> call \<Rightarrow> ('l, 'r, 'e) stream \<Rightarrow> 's prefix_cache \<Rightarrow> bool \<times> ('l, 'r, 'e) stream \<times> 's prefix_cache" where
  "after_resume R en po ca st pc =
     (case prefill_loop R en (po_pf_env po) ca st pc of
        (Pf_done, st1, pc1) \<Rightarrow> next_token R en po ca st1 pc1
      | (Pf_yield, st1, pc1) \<Rightarrow> (True, st1, pc1)
      | (Pf_gone, st1, pc1) \<Rightarrow> (False, st1, pc1)
      | (Pf_error, st1, pc1) \<Rightarrow> catch_error R st1 pc1)"

definition provide ::
  "'s kv_ops \<Rightarrow> ('s, 'l, 'e) engine \<Rightarrow> ('l, 'r) policy \<Rightarrow> tokenizer \<Rightarrow> call \<Rightarrow> ('l, 'r, 'e) stream \<Rightarrow> 's prefix_cache \<Rightarrow>
   bool \<times> ('l, 'r, 'e) stream \<times> 's prefix_cache" where
  "provide R en po tk ca st pc =
     (if ss_finished st then (False, st, pc)
      else if \<not> ss_holding st \<and> \<not> ca_lock ca then (False, st\<lparr>ss_finished := True\<rparr>, pc)
      else
        let was_holding = ss_holding st;
            st1 = (if was_holding then st else st\<lparr>ss_holding := True, ss_slice_used := 0\<rparr>) in
        if \<not> ss_started st1 then
          (case prepare_prompt R tk (ss_prompt st1) (ss_ovr st1) (ss_spans st1) (ss_sid st1) pc of
             ((n, rest, ovr), pc1) \<Rightarrow>
               after_resume R en po ca
                 (st1\<lparr>ss_started := True, ss_had_images := ss_ovr st1 \<noteq> [], ss_n_cached := n, ss_prompt := rest, ss_ovr := ovr,
                    ss_spans := [], ss_my_imgs := pf_kv_imgs pc1\<rparr>) pc1)
        else if \<not> was_holding then
          (case ensure_state R (ss_sid st1) (ss_my_toks st1) (ss_my_imgs st1) (ss_had_images st1) pc of
             ((False, redo), pc1) \<Rightarrow> (False, finish_stream st1, pc1)
           | ((True, redo), pc1) \<Rightarrow>
               if redo then
                 (case en_decode en [] (ss_my_toks st1) (pf_rt pc1) of
                    (Inl e, rt') \<Rightarrow> catch_error R st1 (pc1\<lparr>pf_rt := rt'\<rparr>)
                  | (Inr l, rt') \<Rightarrow> after_resume R en po ca (st1\<lparr>ss_logits := l\<rparr>) (pc1\<lparr>pf_rt := rt'\<rparr>))
               else after_resume R en po ca st1 pc1)
        else after_resume R en po ca st1 pc)"

text \<open>A sequence of calls; before a call of a stream that waits for the runtime, the other requests act on the cache.\<close>

fun serve ::
  "'s kv_ops \<Rightarrow> ('s, 'l, 'e) engine \<Rightarrow> ('l, 'r) policy \<Rightarrow> tokenizer \<Rightarrow> (('s prefix_cache \<Rightarrow> 's prefix_cache) \<times> call) list \<Rightarrow>
   ('l, 'r, 'e) stream \<Rightarrow> 's prefix_cache \<Rightarrow> ('l, 'r, 'e) stream \<times> 's prefix_cache" where
  "serve R en po tk [] st pc = (st, pc)"
| "serve R en po tk ((others, ca) # cs) st pc =
     (if ss_finished st then (st, pc)
      else (case provide R en po tk ca st (if ss_holding st then pc else others pc) of (again, st', pc') \<Rightarrow> serve R en po tk cs st' pc'))"

text \<open>The same generation without any interruption: all of the prompt, then token by token.\<close>

fun uninterrupted :: "('l, 'r) policy \<Rightarrow> (int list \<Rightarrow> 'l) \<Rightarrow> nat \<Rightarrow> int list \<Rightarrow> 'r \<Rightarrow> int list" where
  "uninterrupted po L 0 h smp = []"
| "uninterrupted po L (Suc k) h smp =
     (case po_sample po (L h) smp of (t, smp') \<Rightarrow>
        if po_stop po t \<or> po_n_ctx po \<le> length h + 1 then [] else t # uninterrupted po L k (h @ [t]) smp')"


text \<open>A client that stays, and a request for text before its first call.\<close>

definition attentive :: "call \<Rightarrow> bool" where
  "attentive ca \<longleftrightarrow> ca_lock ca \<and> (\<forall>i. ca_writable ca i) \<and> ca_emit ca"

definition fresh :: "int list \<Rightarrow> ('l, 'r, 'e) stream \<Rightarrow> bool" where
  "fresh prompt st \<longleftrightarrow> \<not> ss_started st \<and> \<not> ss_finished st \<and> \<not> ss_holding st \<and> ss_prompt st = prompt \<and> ss_ovr st = [] \<and> ss_spans st = [] \<and>
     ss_out st = [] \<and> ss_generated st = 0 \<and> ss_pf_pos st = 0"

subsection \<open>Slicing is transparent\<close>

text \<open>
  \<open>L h\<close> are the logits after the history \<open>h\<close>; \<open>cap\<close> is the context size of the runtime and \<open>valid\<close> its tokens.
\<close>

locale kv_decoder = kv_runtime R ok compat holds
  for R :: "'s kv_ops" and ok :: "img_span list \<Rightarrow> 's \<Rightarrow> bool" and compat :: "'s \<Rightarrow> bool"
    and holds :: "img_span list \<Rightarrow> byte list \<Rightarrow> int list \<Rightarrow> bool" +
  fixes en :: "('s, 'l, 'e) engine"
    and L :: "int list \<Rightarrow> 'l"
    and cap :: nat
    and valid :: "int set"
  assumes decode_ok: "ok [] s \<Longrightarrow> ts \<noteq> [] \<Longrightarrow> length (op_toks R s) + length ts \<le> cap \<Longrightarrow> set ts \<subseteq> valid \<Longrightarrow>
      \<exists>s'. en_decode en [] ts s = (Inr (L (op_toks R s @ ts)), s') \<and> ok [] s' \<and> op_toks R s' = op_toks R s @ ts"
    and snapshot_ok: "ok [] s \<Longrightarrow> ok [] (en_snapshot en s) \<and> op_toks R (en_snapshot en s) = op_toks R s"
    and n_past_ok: "ok [] s \<Longrightarrow> en_n_past en s = length (op_toks R s)"
    and toks_valid: "ok [] s \<Longrightarrow> set (op_toks R s) \<subseteq> valid"
begin

text \<open>The streams here are text, and so is everything in the cache.\<close>

definition text_inv :: "'s prefix_cache \<Rightarrow> bool" where
  "text_inv pc \<longleftrightarrow> cache_inv pc \<and> text_only pc"

lemma text_inv_rt: "text_inv pc \<Longrightarrow> ok [] (pf_rt pc)"
  by (auto simp: text_inv_def cache_inv_def text_only_def)

text \<open>The tokens a stream has put into the runtime, after the \<open>h0\<close> it found there.\<close>

definition track :: "int list \<Rightarrow> ('l, 'r, 'e) stream \<Rightarrow> int list" where
  "track h0 st = h0 @ take (ss_pf_pos st) (ss_prompt st) @ ss_out st"

definition text_stream :: "int list \<Rightarrow> ('l, 'r, 'e) stream \<Rightarrow> bool" where
  "text_stream h0 st \<longleftrightarrow> ss_started st \<and> \<not> ss_finished st \<and> ss_ovr st = [] \<and> \<not> ss_had_images st \<and> ss_my_imgs st = [] \<and> ss_generated st = length (ss_out st) \<and>
     ss_pf_pos st \<le> length (ss_prompt st) \<and> (ss_out st \<noteq> [] \<longrightarrow> ss_pf_pos st = length (ss_prompt st)) \<and>
     set (ss_prompt st) \<subseteq> valid \<and> length (h0 @ ss_prompt st) \<le> cap \<and> length (track h0 st) \<le> cap \<and> set (track h0 st) \<subseteq> valid \<and>
     (ss_pf_pos st = length (ss_prompt st) \<longrightarrow> ss_logits st = L (track h0 st))"

definition owns :: "int list \<Rightarrow> ('l, 'r, 'e) stream \<Rightarrow> 's prefix_cache \<Rightarrow> bool" where
  "owns h0 st pc \<longleftrightarrow> pf_owner pc = ss_sid st \<and> op_toks R (pf_rt pc) = track h0 st"

definition ready :: "int list \<Rightarrow> ('l, 'r, 'e) stream \<Rightarrow> 's prefix_cache \<Rightarrow> bool" where
  "ready h0 st pc \<longleftrightarrow> text_inv pc \<and> text_stream h0 st \<and> ss_holding st \<and> owns h0 st pc"

definition between :: "int list \<Rightarrow> ('l, 'r, 'e) stream \<Rightarrow> 's prefix_cache \<Rightarrow> bool" where
  "between h0 st pc \<longleftrightarrow> text_inv pc \<and>
     (ss_finished st \<or> text_stream h0 st \<and>
        (if ss_holding st then owns h0 st pc
         else ss_my_toks st = track h0 st \<and> track h0 st \<noteq> [] \<and> (pf_owner pc = ss_sid st \<longrightarrow> op_toks R (pf_rt pc) = track h0 st)))"

definition outcome :: "('l, 'r) policy \<Rightarrow> int list \<Rightarrow> ('l, 'r, 'e) stream \<Rightarrow> int list" where
  "outcome po h0 st = ss_out st @ uninterrupted po L (ss_max_tokens st - length (ss_out st)) (h0 @ ss_prompt st @ ss_out st) (ss_smp st)"

text \<open>What a call leaves alone while it prefills.\<close>

definition same_request :: "('l, 'r, 'e) stream \<Rightarrow> ('l, 'r, 'e) stream \<Rightarrow> bool" where
  "same_request st st' \<longleftrightarrow> ss_smp st' = ss_smp st \<and> ss_prompt st' = ss_prompt st \<and> ss_out st' = ss_out st \<and>
     ss_max_tokens st' = ss_max_tokens st \<and> ss_sid st' = ss_sid st"

definition todo :: "('l, 'r, 'e) stream \<Rightarrow> nat" where
  "todo st = (length (ss_prompt st) - ss_pf_pos st) + (ss_max_tokens st - length (ss_out st))"

lemma same_outcome: "same_request st st' \<Longrightarrow> outcome po h0 st' = outcome po h0 st"
  by (simp add: outcome_def same_request_def)

lemma text_inv_upd: "text_inv pc \<Longrightarrow> ok [] s \<Longrightarrow> text_inv (pc\<lparr>pf_rt := s\<rparr>)"
  by (simp add: text_inv_def cache_inv_def text_only_def)

text \<open>One chunk.\<close>

lemma chunk_ok:
  assumes "ready h0 st pc" "ss_pf_pos st < length (ss_prompt st)" "n = chunk_len (pf_chunk pfe) st"
  obtains l s where "en_decode en (chunk_ovr (int (ss_pf_pos st)) (int n) (ss_ovr st)) (take n (drop (ss_pf_pos st) (ss_prompt st))) (pf_rt pc) = (Inr l, s)"
    "ready h0 (st\<lparr>ss_logits := l, ss_pf_pos := ss_pf_pos st + n\<rparr>) (pc\<lparr>pf_rt := en_snapshot en s\<rparr>)" "0 < n" "ss_pf_pos st + n \<le> length (ss_prompt st)"
proof -
  have r: "text_inv pc" "text_stream h0 st" "ss_holding st" "pf_owner pc = ss_sid st" "op_toks R (pf_rt pc) = track h0 st"
    using assms(1) by (auto simp: ready_def owns_def)
  have n: "0 < n" "n \<le> length (ss_prompt st) - ss_pf_pos st"
    using chunk_len_pos[OF pf_chunk_pos assms(2)] chunk_len_le[of "pf_chunk pfe" st] by (auto simp: assms(3))
  have out: "ss_out st = []" using r(2) assms(2) by (auto simp: text_stream_def)
  let ?ts = "take n (drop (ss_pf_pos st) (ss_prompt st))"
  have pre: "take (ss_pf_pos st) (ss_prompt st) @ ?ts = take (ss_pf_pos st + n) (ss_prompt st)" by (simp add: take_add)
  have sub: "set ?ts \<subseteq> valid"
    using r(2) by (auto simp: text_stream_def dest!: in_set_takeD in_set_dropD)
  have "length h0 + length (ss_prompt st) \<le> cap" using r(2) by (simp add: text_stream_def)
  then have "length h0 + ss_pf_pos st + n \<le> cap" using n assms(2) by linarith
  then have len: "length (track h0 st) + length ?ts \<le> cap" using n assms(2) out by (simp add: track_def min_def)
  have ne: "?ts \<noteq> []" using n by simp
  have okr: "ok [] (pf_rt pc)" using r(1) by (rule text_inv_rt)
  obtain s where d: "en_decode en [] ?ts (pf_rt pc) = (Inr (L (track h0 st @ ?ts)), s)" "ok [] s" "op_toks R s = track h0 st @ ?ts"
    using decode_ok[OF okr ne _ sub] r(5) len by auto
  let ?st = "st\<lparr>ss_logits := L (track h0 st @ ?ts), ss_pf_pos := ss_pf_pos st + n\<rparr>"
  have tr: "track h0 ?st = track h0 st @ ?ts" using out pre by (simp add: track_def)
  have "text_stream h0 ?st"
    using r(2) n out tr sub len by (auto simp: text_stream_def)
  moreover have "text_inv (pc\<lparr>pf_rt := en_snapshot en s\<rparr>)" using r(1) d(2) snapshot_ok by (simp add: text_inv_upd)
  ultimately have "ready h0 ?st (pc\<lparr>pf_rt := en_snapshot en s\<rparr>)"
    using r(3,4) d(2,3) tr snapshot_ok by (simp add: ready_def owns_def)
  moreover have "chunk_ovr (int (ss_pf_pos st)) (int n) (ss_ovr st) = []" using r(2) by (simp add: text_stream_def)
  ultimately show ?thesis using that[of "L (track h0 st @ ?ts)" s] d(1) n assms(2) by simp
qed

lemma yield_between:
  assumes "ready h0 st pc" "track h0 st \<noteq> []"
  shows "between h0 (yield_now R st pc) pc"
  using assms by (auto simp: ready_def between_def yield_now_def text_stream_def owns_def track_def text_inv_def text_only_def)

lemma prefill_loop_ok:
  assumes "ready h0 st pc" "\<forall>i. ca_writable ca i" "prefill_loop R en pfe ca st pc = (q, st', pc')"
  shows "same_request st st' \<and> (q = Pf_done \<and> ready h0 st' pc' \<and> ss_pf_pos st' = length (ss_prompt st') \<or>
    q = Pf_yield \<and> between h0 st' pc' \<and> \<not> ss_finished st' \<and> todo st' < todo st)"
  using assms(1,3)
proof (induction "length (ss_prompt st) - ss_pf_pos st" arbitrary: st pc rule: less_induct)
  case less
  have ts: "text_stream h0 st" using less.prems(1) by (simp add: ready_def)
  show ?case
  proof (cases "length (ss_prompt st) \<le> ss_pf_pos st")
    case True
    then have "q = Pf_done" "st' = st" "pc' = pc" using less.prems(2) by (simp_all add: prefill_loop.simps)
    then show ?thesis using less.prems(1) True ts by (simp add: same_request_def text_stream_def)
  next
    case False
    then have lt: "ss_pf_pos st < length (ss_prompt st)" by simp
    define n where "n = chunk_len (pf_chunk pfe) st"
    obtain l s where d: "en_decode en (chunk_ovr (int (ss_pf_pos st)) (int n) (ss_ovr st)) (take n (drop (ss_pf_pos st) (ss_prompt st))) (pf_rt pc) = (Inr l, s)"
        "ready h0 (st\<lparr>ss_logits := l, ss_pf_pos := ss_pf_pos st + n\<rparr>) (pc\<lparr>pf_rt := en_snapshot en s\<rparr>)" "0 < n" "ss_pf_pos st + n \<le> length (ss_prompt st)"
      by (rule chunk_ok[OF less.prems(1) lt n_def])
    define st1 where "st1 = st\<lparr>ss_logits := l, ss_pf_pos := ss_pf_pos st + n\<rparr>"
    define pc1 where "pc1 = pc\<lparr>pf_rt := en_snapshot en s\<rparr>"
    have sr: "same_request st st1" by (simp add: same_request_def st1_def)
    have td: "todo st1 < todo st" using d(3,4) by (simp add: todo_def st1_def)
    have "prefill_loop R en pfe ca st pc = (if ss_pf_pos st1 < length (ss_prompt st1) \<and> yieldable (ca_contended ca (ss_pf_pos st1)) pc1
        then (Pf_yield, yield_now R st1 pc1, pc1) else prefill_loop R en pfe ca st1 pc1)"
      using assms(2) False d(1) by (subst prefill_loop.simps) (simp add: Let_def n_def[symmetric] st1_def pc1_def)
    note u = this[unfolded less.prems(2)]
    show ?thesis
    proof (cases "ss_pf_pos st1 < length (ss_prompt st1) \<and> yieldable (ca_contended ca (ss_pf_pos st1)) pc1")
      case True
      then have e: "q = Pf_yield" "st' = yield_now R st1 pc1" "pc' = pc1" using u by simp_all
      have "track h0 st1 \<noteq> []" using True d(3,4) by (auto simp: track_def st1_def)
      then have "between h0 st' pc'" using yield_between[of h0 st1 pc1] d(2) by (simp add: e st1_def pc1_def)
      moreover have "\<not> ss_finished st'" using ts by (simp add: e yield_now_def st1_def text_stream_def)
      moreover have "todo st' < todo st" using td by (simp add: e yield_now_def todo_def)
      ultimately show ?thesis using sr by (simp add: e same_request_def yield_now_def)
    next
      case no: False
      have "length (ss_prompt st1) - ss_pf_pos st1 < length (ss_prompt st) - ss_pf_pos st" using d(3) lt by (simp add: st1_def)
      from less.hyps[OF this d(2)[folded st1_def pc1_def]] have "same_request st1 st' \<and> (q = Pf_done \<and> ready h0 st' pc' \<and> ss_pf_pos st' = length (ss_prompt st') \<or>
          q = Pf_yield \<and> between h0 st' pc' \<and> \<not> ss_finished st' \<and> todo st' < todo st1)"
        using u no by metis
      then show ?thesis using sr td by (auto simp: same_request_def)
    qed
  qed
qed

lemma track_slice [simp]: "track h0 (st\<lparr>ss_slice_used := u\<rparr>) = track h0 st"
  by (simp add: track_def)

lemma ready_slice: "ready h0 (st\<lparr>ss_slice_used := u\<rparr>) pc = ready h0 st pc"
  by (simp add: ready_def text_stream_def owns_def)

text \<open>One token.\<close>

definition good_policy :: "('l, 'r) policy \<Rightarrow> bool" where
  "good_policy po \<longleftrightarrow> po_n_ctx po \<le> cap \<and> (\<forall>l r. fst (po_sample po l r) \<in> valid)"

text \<open>The promise of a call: the state between calls, and the outcome reached or still ahead with less to do.\<close>

definition call_ok :: "('l, 'r) policy \<Rightarrow> int list \<Rightarrow> nat \<Rightarrow> int list \<Rightarrow> nat \<Rightarrow> ('l, 'r, 'e) stream \<Rightarrow> 's prefix_cache \<Rightarrow> bool" where
  "call_ok po h0 sid T k st pc \<longleftrightarrow> between h0 st pc \<and> ss_sid st = sid \<and>
     (if ss_finished st then ss_out st = T else outcome po h0 st = T \<and> todo st < k)"

lemma next_token_ok:
  assumes "ready h0 st pc" "ss_pf_pos st = length (ss_prompt st)" "ca_emit ca" "good_policy po" "next_token R en po ca st pc = (b, st', pc')"
  shows "call_ok po h0 (ss_sid st) (outcome po h0 st) (Suc (todo st)) st' pc' \<and> (\<not> ss_finished st' \<longrightarrow> todo st' < todo st)"
proof -
  have r: "text_inv pc" "text_stream h0 st" "ss_holding st" "pf_owner pc = ss_sid st" "op_toks R (pf_rt pc) = track h0 st"
    using assms(1) by (auto simp: ready_def owns_def)
  have tr: "track h0 st = h0 @ ss_prompt st @ ss_out st" using assms(2) by (simp add: track_def)
  have lg: "ss_logits st = L (track h0 st)" and gen: "ss_generated st = length (ss_out st)" using r(2) assms(2) by (auto simp: text_stream_def)
  have okr: "ok [] (pf_rt pc)" using r(1) by (rule text_inv_rt)
  have np: "en_n_past en (pf_rt pc) = length (track h0 st)" using n_past_ok[OF okr] r(5) by simp
  obtain t smp where sm: "po_sample po (ss_logits st) (ss_smp st) = (t, smp)" by (metis surj_pair)
  have tv: "t \<in> valid" using assms(4) sm unfolding good_policy_def by (metis fst_conv)
  let ?stop = "po_stop po t \<or> ss_max_tokens st \<le> ss_generated st \<or> po_n_ctx po \<le> length (track h0 st) + 1"
  show ?thesis
  proof (cases ?stop)
    case True
    then have e: "st' = finish_stream (st\<lparr>ss_smp := smp\<rparr>)" "pc' = pc" using assms(5) sm np by (auto simp: next_token_def Let_def)
    have "uninterrupted po L (ss_max_tokens st - length (ss_out st)) (track h0 st) (ss_smp st) = []"
    proof (cases "ss_max_tokens st - length (ss_out st)")
      case (Suc k)
      then show ?thesis using True sm lg gen by auto
    qed simp
    then have "outcome po h0 st = ss_out st" using tr by (simp add: outcome_def)
    then show ?thesis using r(1) by (simp add: e finish_stream_def call_ok_def between_def)
  next
    case False
    have room: "length (op_toks R (pf_rt pc)) + length [t] \<le> cap" using False assms(4) r(5) by (simp add: good_policy_def)
    obtain s where d: "en_decode en [] [t] (pf_rt pc) = (Inr (L (track h0 st @ [t])), s)" "ok [] s" "op_toks R s = track h0 st @ [t]"
      using decode_ok[OF okr _ room] tv r(5) by auto
    define pc1 where "pc1 = pc\<lparr>pf_rt := s\<rparr>"
    define st3 where "st3 = st\<lparr>ss_smp := smp, ss_out := ss_out st @ [t], ss_generated := ss_generated st + 1, ss_logits := L (track h0 st @ [t])\<rparr>"
    have tr3: "track h0 st3 = track h0 st @ [t]" by (simp add: track_def st3_def)
    have rdy: "ready h0 st3 pc1"
    proof -
      have "text_stream h0 st3"
        using r(2) tr3 tv room r(5) gen assms(2) unfolding text_stream_def by (simp add: st3_def)
      then show ?thesis using r(1,3,4) d(2,3) tr3 by (simp add: ready_def owns_def text_inv_upd pc1_def st3_def)
    qed
    have lt: "length (ss_out st) < ss_max_tokens st" using False gen by simp
    obtain k where k: "ss_max_tokens st - length (ss_out st) = Suc k" using lt by (metis Suc_diff_Suc)
    have out: "outcome po h0 st3 = outcome po h0 st"
    proof -
      have "ss_max_tokens st - length (ss_out st @ [t]) = k" using k by simp
      moreover have "uninterrupted po L (Suc k) (track h0 st) (ss_smp st) = t # uninterrupted po L k (track h0 st @ [t]) smp"
        using False sm lg gen by simp
      ultimately show ?thesis using k tr by (simp add: outcome_def st3_def)
    qed
    have td: "todo st3 < todo st" using lt by (simp add: todo_def st3_def)
    have fin: ?thesis if e: "st' = st3\<lparr>ss_slice_used := u\<rparr> \<or> st' = yield_now R (st3\<lparr>ss_slice_used := u\<rparr>) pc1" "pc' = pc1" for u
    proof -
      let ?s = "st3\<lparr>ss_slice_used := u\<rparr>"
      have rs: "ready h0 ?s pc1" using rdy by (simp add: ready_slice)
      have "track h0 ?s \<noteq> []" using tr3 by (simp add: track_def)
      then have "between h0 st' pc1" using e(1) rs yield_between[OF rs] by (auto simp: between_def ready_def)
      moreover have "\<not> ss_finished st'" "ss_sid st' = ss_sid st" "todo st' = todo st3" "outcome po h0 st' = outcome po h0 st3"
        using e(1) r(2) by (auto simp: yield_now_def st3_def todo_def outcome_def text_stream_def)
      ultimately show ?thesis using td out e(2) by (simp add: call_ok_def)
    qed
    have "next_token R en po ca st pc = (if 0 < po_time_slice po then
        (let st4 = st3\<lparr>ss_slice_used := ss_slice_used st3 + 1\<rparr> in
         if po_time_slice po \<le> ss_slice_used st4 \<and> yieldable (ca_contended ca (ss_pf_pos st4)) pc1 then (True, yield_now R st4 pc1, pc1) else (True, st4, pc1))
      else (True, st3, pc1))"
      unfolding next_token_def using sm False np assms(3) d(1) by (simp add: Let_def st3_def pc1_def)
    then have "(st' = st3\<lparr>ss_slice_used := ss_slice_used st3 + 1\<rparr> \<or> st' = yield_now R (st3\<lparr>ss_slice_used := ss_slice_used st3 + 1\<rparr>) pc1 \<or>
        st' = st3\<lparr>ss_slice_used := ss_slice_used st3\<rparr>) \<and> pc' = pc1"
      using assms(5) by (auto simp: Let_def split: if_splits)
    then show ?thesis using fin by blast
  qed
qed

lemma after_resume_ok:
  assumes "ready h0 st pc" "\<forall>i. ca_writable ca i" "ca_emit ca" "good_policy po" "after_resume R en po ca st pc = (b, st', pc')"
  shows "call_ok po h0 (ss_sid st) (outcome po h0 st) (todo st) st' pc'"
proof -
  obtain q st1 pc1 where p: "prefill_loop R en (po_pf_env po) ca st pc = (q, st1, pc1)" by (metis prod_cases3)
  note P = prefill_loop_ok[OF assms(1,2) p]
  have sr: "same_request st st1" using P by blast
  have so: "outcome po h0 st1 = outcome po h0 st" "ss_sid st1 = ss_sid st" using same_outcome[OF sr] sr by (auto simp: same_request_def)
  from P show ?thesis
  proof (elim conjE disjE)
    assume q: "q = Pf_yield" "between h0 st1 pc1" "\<not> ss_finished st1" "todo st1 < todo st"
    then have "st' = st1" "pc' = pc1" using assms(5) p by (auto simp: after_resume_def)
    then show ?thesis using q so by (simp add: call_ok_def)
  next
    assume q: "q = Pf_done" "ready h0 st1 pc1" "ss_pf_pos st1 = length (ss_prompt st1)"
    then have n: "next_token R en po ca st1 pc1 = (b, st', pc')" using assms(5) p by (simp add: after_resume_def)
    have "todo st1 \<le> todo st" using q(3) sr by (simp add: todo_def same_request_def)
    then show ?thesis using next_token_ok[OF q(2,3) assms(3,4) n] so by (auto simp: call_ok_def)
  qed
qed

text \<open>A call of a stream under way.\<close>

lemma provide_ok:
  assumes "between h0 st pc" "\<not> ss_finished st" "attentive ca" "good_policy po" "provide R en po tk ca st pc = (b, st', pc')"
  shows "call_ok po h0 (ss_sid st) (outcome po h0 st) (todo st) st' pc'"
proof -
  have w: "text_inv pc" "text_stream h0 st" using assms(1,2) by (auto simp: between_def)
  have ts: "ss_started st" "\<not> ss_had_images st" "ss_my_imgs st = []" using w(2) by (auto simp: text_stream_def)
  have ca: "ca_lock ca" "\<forall>i. ca_writable ca i" "ca_emit ca" using assms(3) by (auto simp: attentive_def)
  show ?thesis
  proof (cases "ss_holding st")
    case True
    then have "ready h0 st pc" using assms(1,2) w by (simp add: between_def ready_def)
    moreover have "after_resume R en po ca st pc = (b, st', pc')" using assms(2,5) True ts by (simp add: provide_def)
    ultimately show ?thesis by (rule after_resume_ok[OF _ ca(2,3) assms(4)])
  next
    case False
    have m: "ss_my_toks st = track h0 st" "track h0 st \<noteq> []" "pf_owner pc = ss_sid st \<longrightarrow> op_toks R (pf_rt pc) = track h0 st"
      using assms(1,2) False by (auto simp: between_def)
    define st1 where "st1 = st\<lparr>ss_holding := True, ss_slice_used := 0\<rparr>"
    have so: "outcome po h0 st1 = outcome po h0 st" "ss_sid st1 = ss_sid st" "todo st1 = todo st" "track h0 st1 = track h0 st"
      by (simp_all add: st1_def outcome_def todo_def track_def)
    have t1: "text_stream h0 st1" using w(2) so(4) by (simp add: text_stream_def st1_def)
    obtain got redo pc1 where en: "ensure_state R (ss_sid st) (ss_my_toks st) (ss_my_imgs st) (ss_had_images st) pc = ((got, redo), pc1)"
      by (metis prod_cases3 surj_pair)
    have ci: "cache_inv pc" "text_only pc" using w(1) by (simp_all add: text_inv_def)
    note E = ensure_state_ok[OF ci(1) en]
    have E1: "text_inv pc1" using E(1) text_only_ensure_state[OF ci en[unfolded ts(3)]] by (simp add: text_inv_def)
    have got: got using E(3) ts by blast
    have own: "pf_owner pc1 = ss_sid st" using E(2) got by blast
    have tk: "op_toks R (pf_rt pc1) = (if redo then [] else track h0 st)"
      using E(4,5) got m by (cases "pf_owner pc = ss_sid st") auto
    have fin: ?thesis if "ready h0 st2 pc2" "outcome po h0 st2 = outcome po h0 st" "ss_sid st2 = ss_sid st" "todo st2 = todo st"
        "after_resume R en po ca st2 pc2 = (b, st', pc')" for st2 pc2
      using after_resume_ok[OF that(1) ca(2,3) assms(4) that(5)] that(2-4) by simp
    show ?thesis
    proof (cases redo)
      case no: False
      have "ready h0 st1 pc1" using E1 t1 own tk no so by (simp add: ready_def owns_def st1_def)
      moreover have "after_resume R en po ca st1 pc1 = (b, st', pc')"
        using assms(2,5) False ts ca(1) en got no by (simp add: provide_def st1_def)
      ultimately show ?thesis using fin so by blast
    next
      case yes: True
      have okr: "ok [] (pf_rt pc1)" using E1 by (rule text_inv_rt)
      have tv: "set (track h0 st) \<subseteq> valid" "length (track h0 st) \<le> cap" using w(2) by (auto simp: text_stream_def)
      obtain s where d: "en_decode en [] (track h0 st) (pf_rt pc1) = (Inr (L (track h0 st)), s)" "ok [] s" "op_toks R s = track h0 st"
        using decode_ok[OF okr m(2) _ tv(1)] tk yes tv(2) by auto
      define st2 where "st2 = st1\<lparr>ss_logits := L (track h0 st)\<rparr>"
      have so2: "outcome po h0 st2 = outcome po h0 st" "ss_sid st2 = ss_sid st" "todo st2 = todo st" "track h0 st2 = track h0 st"
        using so by (simp_all add: st2_def outcome_def todo_def track_def)
      have "text_stream h0 st2" using t1 so(4) so2(4) by (simp add: text_stream_def st2_def)
      then have "ready h0 st2 (pc1\<lparr>pf_rt := s\<rparr>)" using E1 own d so2 by (simp add: ready_def owns_def text_inv_upd st2_def st1_def)
      moreover have "after_resume R en po ca st2 (pc1\<lparr>pf_rt := s\<rparr>) = (b, st', pc')"
        using assms(2,5) False ts ca(1) en got yes m(1) d(1) by (simp add: provide_def st1_def st2_def)
      ultimately show ?thesis using fin so2 by blast
    qed
  qed
qed

text \<open>The other requests: they keep the cache consistent and do not give this stream a runtime that is not its own.\<close>

definition keeps :: "nat \<Rightarrow> ('s prefix_cache \<Rightarrow> 's prefix_cache) \<Rightarrow> bool" where
  "keeps sid f \<longleftrightarrow> (\<forall>pc. text_inv pc \<longrightarrow> text_inv (f pc) \<and>
     (pf_owner (f pc) = sid \<longrightarrow> pf_owner pc = sid \<and> op_toks R (pf_rt (f pc)) = op_toks R (pf_rt pc)))"

lemma keeps_between:
  assumes "between h0 st pc" "keeps (ss_sid st) f" "\<not> ss_holding st"
  shows "between h0 st (f pc)"
  using assms unfolding keeps_def between_def by auto

lemma serve_ok:
  assumes "call_ok po h0 sid T k st pc" "\<forall>(f, ca) \<in> set cs. keeps sid f \<and> attentive ca" "good_policy po" "serve R en po tk cs st pc = (st', pc')"
  shows "\<exists>k'. call_ok po h0 sid T k' st' pc' \<and> (k \<le> length cs \<longrightarrow> ss_finished st')"
  using assms(1,2,4)
proof (induction cs arbitrary: k st pc)
  case Nil
  then show ?case by (auto simp: call_ok_def split: if_splits)
next
  case (Cons c cs)
  obtain f ca where c: "c = (f, ca)" by (metis surj_pair)
  show ?case
  proof (cases "ss_finished st")
    case True
    then show ?thesis using Cons.prems c by auto
  next
    case False
    have w: "between h0 st pc" "ss_sid st = sid" "outcome po h0 st = T" "todo st < k" using Cons.prems(1) False by (auto simp: call_ok_def)
    define pc0 where "pc0 = (if ss_holding st then pc else f pc)"
    have b0: "between h0 st pc0" using w(1,2) keeps_between[of h0 st pc f] Cons.prems(2) c by (simp add: pc0_def)
    obtain b st1 pc1 where p: "provide R en po tk ca st pc0 = (b, st1, pc1)" by (metis prod_cases3)
    have "call_ok po h0 sid T (todo st) st1 pc1"
      using provide_ok[OF b0 False _ assms(3) p] Cons.prems(2) c w(2,3) by simp
    moreover have "serve R en po tk cs st1 pc1 = (st', pc')" using Cons.prems(3) c False p by (simp add: pc0_def)
    ultimately obtain k' where "call_ok po h0 sid T k' st' pc'" "todo st \<le> length cs \<longrightarrow> ss_finished st'"
      using Cons.IH[of "todo st" st1 pc1] Cons.prems(2) by auto
    then show ?thesis using w(4) by auto
  qed
qed

text \<open>The first call: the prompt is prepared.\<close>

lemma provide_first:
  assumes "fresh prompt st" "text_inv pc" "prompt \<noteq> []" "set prompt \<subseteq> valid" "attentive ca" "good_policy po"
    "reuse R tk prompt [] pc = (n, pc1)" "h = op_toks R (pf_rt pc1) @ drop (nat n) prompt" "length h \<le> cap" "provide R en po tk ca st pc = (b, st', pc')"
  shows "decode tk h = decode tk prompt \<and>
    (\<exists>h0. call_ok po h0 (ss_sid st) (uninterrupted po L (ss_max_tokens st) h (ss_smp st)) (length prompt + ss_max_tokens st) st' pc')"
proof -
  have f: "\<not> ss_started st" "\<not> ss_finished st" "\<not> ss_holding st" "ss_prompt st = prompt" "ss_ovr st = []" "ss_spans st = []" "ss_out st = []"
    "ss_generated st = 0" "ss_pf_pos st = 0" using assms(1) by (auto simp: fresh_def)
  have ca: "ca_lock ca" "\<forall>i. ca_writable ca i" "ca_emit ca" using assms(5) by (auto simp: attentive_def)
  have post: "text_inv pc1" "0 \<le> n" "n < int (length prompt)" "decode tk (op_toks R (pf_rt pc1)) = decode tk (take (nat n) prompt)"
    using reuse_ok[OF conjunct1[OF assms(2)[unfolded text_inv_def]] assms(3,7)]
      text_only_reuse[OF conjunct1[OF assms(2)[unfolded text_inv_def]] conjunct2[OF assms(2)[unfolded text_inv_def]] assms(3,7)]
    by (auto simp: reuse_post_def text_inv_def)
  define pc2 where "pc2 = pc1\<lparr>pf_kv_imgs := [], pf_owner := ss_sid st\<rparr>"
  have prep: "prepare_prompt R tk prompt ([] :: 'e embd_override list) [] (ss_sid st) pc = ((n, drop (nat n) prompt, []), pc2)"
    using post(2) by (simp add: prepare_prompt_def assms(7) shift_overrides_def pc2_def)
  define st2 where "st2 = st\<lparr>ss_holding := True, ss_slice_used := 0, ss_started := True, ss_had_images := False, ss_n_cached := n,
     ss_prompt := drop (nat n) prompt, ss_ovr := [], ss_spans := [], ss_my_imgs := pf_kv_imgs pc2\<rparr>"
  have ar: "after_resume R en po ca st2 pc2 = (b, st', pc')"
    using assms(10) f ca(1) prep by (simp add: provide_def st2_def)
  let ?h0 = "op_toks R (pf_rt pc1)"
  have nl: "nat n < length prompt" using post(2,3) by linarith
  have okr: "ok [] (pf_rt pc1)" using post(1) by (rule text_inv_rt)
  have inv2: "text_inv pc2" using post(1) by (auto simp: pc2_def text_inv_def cache_inv_def text_only_def)
  have tr: "track ?h0 st2 = ?h0" using f by (simp add: track_def st2_def)
  have "text_stream ?h0 st2"
    unfolding text_stream_def tr
    using f assms(8,9) nl toks_valid[OF okr] assms(4) set_drop_subset[of "nat n" prompt] by (auto simp: st2_def pc2_def)
  then have "ready ?h0 st2 pc2" using inv2 tr by (simp add: ready_def owns_def pc2_def st2_def)
  from after_resume_ok[OF this ca(2,3) assms(6) ar]
  have c: "call_ok po ?h0 (ss_sid st2) (outcome po ?h0 st2) (todo st2) st' pc'" .
  have "todo st2 \<le> length prompt + ss_max_tokens st" using f by (simp add: todo_def st2_def)
  moreover have "outcome po ?h0 st2 = uninterrupted po L (ss_max_tokens st) h (ss_smp st)" "ss_sid st2 = ss_sid st"
    using f by (simp_all add: outcome_def st2_def assms(8))
  ultimately have "call_ok po ?h0 (ss_sid st) (uninterrupted po L (ss_max_tokens st) h (ss_smp st)) (length prompt + ss_max_tokens st) st' pc'"
    using c by (auto simp: call_ok_def)
  moreover have "decode tk h = decode tk (take (nat n) prompt) @ decode tk (drop (nat n) prompt)" using post(4) by (simp add: assms(8) decode_append)
  then have "decode tk h = decode tk prompt" by (metis append_take_drop_id decode_append)
  ultimately show ?thesis by blast
qed

text \<open>The whole stream.\<close>

lemma serve_transparent:
  assumes "fresh prompt st" "text_inv pc" "prompt \<noteq> []" "set prompt \<subseteq> valid" "good_policy po"
    "\<forall>(f, ca) \<in> set ((f0, ca0) # cs). keeps (ss_sid st) f \<and> attentive ca"
    "reuse R tk prompt [] (f0 pc) = (n, pc1)" "h = op_toks R (pf_rt pc1) @ drop (nat n) prompt" "length h \<le> cap"
    "serve R en po tk ((f0, ca0) # cs) st pc = (st', pc')"
  defines "T \<equiv> uninterrupted po L (ss_max_tokens st) h (ss_smp st)"
  shows "text_inv pc'" "decode tk h = decode tk prompt" "\<exists>z. ss_out st' @ z = T"
    "length prompt + ss_max_tokens st \<le> length cs \<Longrightarrow> ss_finished st' \<and> ss_out st' = T"
proof -
  have fr: "\<not> ss_finished st" "\<not> ss_holding st" using assms(1) by (auto simp: fresh_def)
  have inv: "text_inv (f0 pc)" using assms(2,6) by (auto simp: keeps_def)
  obtain b st1 pc1 where p: "provide R en po tk ca0 st (f0 pc) = (b, st1, pc1)" by (metis prod_cases3)
  have att: "attentive ca0" using assms(6) by simp
  note F = provide_first[OF assms(1) inv assms(3,4) att assms(5,7,8,9) p]
  then obtain h0 where c: "call_ok po h0 (ss_sid st) T (length prompt + ss_max_tokens st) st1 pc1" by (auto simp: T_def)
  have s: "serve R en po tk cs st1 pc1 = (st', pc')" using assms(10) fr p by simp
  have "\<forall>(f, ca) \<in> set cs. keeps (ss_sid st) f \<and> attentive ca" using assms(6) by simp
  from serve_ok[OF c this assms(5) s]
  obtain k' where k: "call_ok po h0 (ss_sid st) T k' st' pc'" "length prompt + ss_max_tokens st \<le> length cs \<longrightarrow> ss_finished st'" by blast
  show "text_inv pc'" using k(1) by (simp add: call_ok_def between_def)
  show "decode tk h = decode tk prompt" using F by blast
  show "\<exists>z. ss_out st' @ z = T"
  proof (cases "ss_finished st'")
    case True
    then have "ss_out st' @ [] = T" using k(1) by (simp add: call_ok_def)
    then show ?thesis by blast
  next
    case False
    then have "outcome po h0 st' = T" using k(1) by (simp add: call_ok_def)
    then show ?thesis unfolding outcome_def by blast
  qed
  show "length prompt + ss_max_tokens st \<le> length cs \<Longrightarrow> ss_finished st' \<and> ss_out st' = T"
    using k by (auto simp: call_ok_def)
qed

end

subsection \<open>The runtime as the engine\<close>

definition runtime_engine :: "dcfg \<Rightarrow> ('e, 'l) graph \<Rightarrow> nat \<Rightarrow> (rt, 'l, 'e) engine" where
  "runtime_engine cf F pk_max = \<lparr>en_decode = runtime_decode cf F, en_snapshot = pk_snapshot pk_max, en_n_past = rt_n_past\<rparr>"

lemma runtime_engine_sel [simp]:
  "en_decode (runtime_engine cf F m) = runtime_decode cf F" "en_snapshot (runtime_engine cf F m) = pk_snapshot m"
  "en_n_past (runtime_engine cf F m) = rt_n_past"
  by (simp_all add: runtime_engine_def)

lemma session_snapshot:
  assumes "session_ok N st0 st"
  shows "session_ok N st0 (pk_snapshot m st)"
proof -
  let ?s = "pk_snapshot m st"
  have s: "same_model N st0 st" "faithful N st (rt_kv_toks st)" using assms by (simp_all add: session_ok_def)
  have fa: "faithful N ?s (rt_kv_toks st)" using s(2) by (simp add: faithful_def rt_wf_def frame_simps)
  have "same_model N st0 ?s"
    by (rule same_model_step[OF s(1)]) (use fa in \<open>simp_all add: frame_simps faithful_def list_all2_same same_shape_def\<close>)
  then show ?thesis
    using assms fa pk_snapshot_pk(1)[OF s(2), of m] by (auto simp: session_ok_def frame_simps draft_ok_def)
qed

definition served_state :: "int net \<Rightarrow> rt \<Rightarrow> (int list \<Rightarrow> 'l) \<Rightarrow> ('e, 'l) graph \<Rightarrow> img_span list \<Rightarrow> rt \<Rightarrow> bool" where
  "served_state N st0 L F im st \<longleftrightarrow> state_ok N st0 im st \<and> computes N st0 L F"

interpretation served: kv_decoder runtime_ops "served_state N st0 L F" "\<lambda>st. same_model N st0 st \<and> computes N st0 L F"
  "saved_from N st0" "runtime_engine cf F pk_max" L "rt_n_ctx st0" int32 for N st0 L F cf pk_max
proof (unfold_locales, unfold runtime_ops_sel runtime_engine_sel served_state_def)
  show "state_ok N st0 im s \<and> computes N st0 L F \<Longrightarrow> same_model N st0 s \<and> computes N st0 L F" for im s using state_ok_model by blast
  show "state_ok N st0 im s \<and> computes N st0 L F \<Longrightarrow> (im' = [] \<Longrightarrow> im = []) \<Longrightarrow> state_ok N st0 im' s \<and> computes N st0 L F" for im im' s
    using state_ok_more by blast
  show "state_ok N st0 im s \<and> computes N st0 L F \<Longrightarrow> \<exists>b. save_state s = Inr b \<and> saved_from N st0 im b (rt_kv_toks s)" for im s
    using session_save by blast
  show "same_model N st0 s \<and> computes N st0 L F \<Longrightarrow> saved_from N st0 im b ts \<Longrightarrow>
      \<exists>s'. load_state msg b s = (Inr [], s') \<and> (state_ok N st0 im s' \<and> computes N st0 L F) \<and> rt_kv_toks s' = ts" for s im b ts msg
    using session_load[of N st0 s im b ts msg] by blast
  show "same_model N st0 s \<and> computes N st0 L F \<Longrightarrow> (state_ok N st0 [] (reset s) \<and> computes N st0 L F) \<and> rt_kv_toks (reset s) = []" for s
    by (simp add: session_reset)
  show "state_ok N st0 [] s \<and> computes N st0 L F \<Longrightarrow> 0 < n \<Longrightarrow> n < length (rt_kv_toks s) \<Longrightarrow> \<exists>r s'. pk_rewind n s = (Inr r, s') \<and>
      (state_ok N st0 [] s' \<and> computes N st0 L F) \<and> (r = -1 \<and> s' = s \<or> (\<exists>p. r = int p \<and> 0 < p \<and> p \<le> n \<and> rt_kv_toks s' = take p (rt_kv_toks s)))" for s n
    using session_rewind[of N st0 s n] by simp
  show "state_ok N st0 [] s \<and> computes N st0 L F \<Longrightarrow> ts \<noteq> [] \<Longrightarrow> length (rt_kv_toks s) + length ts \<le> rt_n_ctx st0 \<Longrightarrow> set ts \<subseteq> int32 \<Longrightarrow>
      \<exists>s'. runtime_decode cf F [] ts s = (Inr (L (rt_kv_toks s @ ts)), s') \<and> (state_ok N st0 [] s' \<and> computes N st0 L F) \<and>
        rt_kv_toks s' = rt_kv_toks s @ ts" for s ts
    using runtime_decode_ok[of N st0 L F s ts cf] by (auto simp: session_ok_def same_model_def)
  show "state_ok N st0 [] s \<and> computes N st0 L F \<Longrightarrow> (state_ok N st0 [] (pk_snapshot pk_max s) \<and> computes N st0 L F) \<and>
      rt_kv_toks (pk_snapshot pk_max s) = rt_kv_toks s" for s
    by (simp add: session_snapshot frame_simps)
qed (auto simp: pk_rewind_short pk_best_range session_ok_def faithful_def rt_wf_def)

text \<open>
  The server's cache while only text is served, and what the stream relies on of the other requests: they keep the
  cache consistent and text, and they neither leave the runtime marked as the stream's with another state nor mark it so
  themselves.
\<close>

definition text_server :: "int net \<Rightarrow> rt \<Rightarrow> rt prefix_cache \<Rightarrow> bool" where
  "text_server N st0 pc \<longleftrightarrow> server_inv N st0 pc \<and> text_only pc"

definition others_ok :: "int net \<Rightarrow> rt \<Rightarrow> nat \<Rightarrow> (rt prefix_cache \<Rightarrow> rt prefix_cache) \<Rightarrow> bool" where
  "others_ok N st0 sid f \<longleftrightarrow> (\<forall>pc. text_server N st0 pc \<longrightarrow> text_server N st0 (f pc) \<and>
     (pf_owner (f pc) = sid \<longrightarrow> pf_owner pc = sid \<and> rt_kv_toks (pf_rt (f pc)) = rt_kv_toks (pf_rt pc)))"

text \<open>
  Text requests of the server meet it: preparing a prompt, getting a state back, decoding while the runtime is marked as
  their own, and any sequence of these. A request with images need not: when its state cannot be loaded it leaves an empty
  runtime to its previous owner (\<open>ensure_state_stale_owner\<close>).
\<close>

lemma others_comp:
  assumes "others_ok N st0 sid f" "others_ok N st0 sid g"
  shows "others_ok N st0 sid (g \<circ> f)"
  unfolding others_ok_def o_apply
proof (intro allI impI)
  fix pc assume pc: "text_server N st0 pc"
  have 1: "text_server N st0 (f pc)" "pf_owner (f pc) = sid \<Longrightarrow> pf_owner pc = sid \<and> rt_kv_toks (pf_rt (f pc)) = rt_kv_toks (pf_rt pc)"
    using assms(1) pc by (simp_all add: others_ok_def)
  have 2: "text_server N st0 (g (f pc))"
    "pf_owner (g (f pc)) = sid \<Longrightarrow> pf_owner (f pc) = sid \<and> rt_kv_toks (pf_rt (g (f pc))) = rt_kv_toks (pf_rt (f pc))"
    using assms(2) 1(1) by (simp_all add: others_ok_def)
  then show "text_server N st0 (g (f pc)) \<and>
      (pf_owner (g (f pc)) = sid \<longrightarrow> pf_owner pc = sid \<and> rt_kv_toks (pf_rt (g (f pc))) = rt_kv_toks (pf_rt pc))"
    using 1(2) by simp
qed

lemma others_prepare:
  assumes "prompt \<noteq> []" "owner \<noteq> sid"
  shows "others_ok N st0 sid (\<lambda>pc. snd (prepare_prompt runtime_ops tk prompt ovr [] owner pc))"
  unfolding others_ok_def
proof (intro allI impI)
  fix pc assume pc: "text_server N st0 pc"
  obtain n rest ovr' pc' where p: "prepare_prompt runtime_ops tk prompt ovr [] owner pc = ((n, rest, ovr'), pc')" by (metis surj_pair)
  obtain pc1 where r: "reuse runtime_ops tk prompt [] pc = (n, pc1)" "pc' = pc1\<lparr>pf_kv_imgs := [], pf_owner := owner\<rparr>"
    using p by (auto simp: prepare_prompt_def split: prod.splits)
  have inv: "runtime.cache_inv N st0 pc" "server_inv N st0 pc" "text_only pc" using pc by (simp_all add: text_server_def server_inv_eq)
  have q: "pf_owner pc' = owner" by (simp add: r(2))
  have po: "runtime.reuse_post N st0 tk prompt [] n pc1" by (rule runtime.reuse_ok[OF inv(1) assms(1) r(1)])
  have t1: "text_only pc1" by (rule runtime.text_only_reuse[OF inv(1,3) assms(1) r(1)])
  have "state_ok N st0 [] (pf_rt pc1)" using po t1 by (simp add: runtime.reuse_post_def server_inv_eq server_inv_def text_only_def)
  then have "server_inv N st0 pc'" using po by (simp add: r(2) runtime.reuse_post_def server_inv_eq server_inv_def)
  then show "text_server N st0 (snd (prepare_prompt runtime_ops tk prompt ovr [] owner pc)) \<and>
      (pf_owner (snd (prepare_prompt runtime_ops tk prompt ovr [] owner pc)) = sid \<longrightarrow> pf_owner pc = sid \<and>
        rt_kv_toks (pf_rt (snd (prepare_prompt runtime_ops tk prompt ovr [] owner pc))) = rt_kv_toks (pf_rt pc))"
    using t1 q assms(2) by (simp add: p text_server_def text_only_def r(2))
qed

lemma others_ensure:
  assumes "owner \<noteq> sid"
  shows "others_ok N st0 sid (\<lambda>pc. snd (ensure_state runtime_ops owner my_toks [] False pc))"
  unfolding others_ok_def
proof (intro allI impI)
  fix pc assume pc: "text_server N st0 pc"
  obtain b re pc' where e: "ensure_state runtime_ops owner my_toks [] False pc = ((b, re), pc')" by (metis surj_pair)
  have inv: "runtime.cache_inv N st0 pc" "text_only pc" using pc by (simp_all add: text_server_def server_inv_eq)
  note E = runtime.ensure_state_ok[OF inv(1) e]
  have b using E(3) by blast
  then have "pf_owner pc' = owner" "server_inv N st0 pc'" "text_only pc'"
    using E(1,2) runtime.text_only_ensure_state[OF inv e] by (simp_all add: server_inv_eq)
  then show "text_server N st0 (snd (ensure_state runtime_ops owner my_toks [] False pc)) \<and>
      (pf_owner (snd (ensure_state runtime_ops owner my_toks [] False pc)) = sid \<longrightarrow> pf_owner pc = sid \<and>
        rt_kv_toks (pf_rt (snd (ensure_state runtime_ops owner my_toks [] False pc))) = rt_kv_toks (pf_rt pc))"
    using assms by (simp add: e text_server_def)
qed

lemma others_decode:
  assumes "computes N st0 L F" "owner \<noteq> sid" "ts \<noteq> []" "set ts \<subseteq> int32"
  shows "others_ok N st0 sid (\<lambda>pc. if pf_owner pc = owner \<and> length (rt_kv_toks (pf_rt pc)) + length ts \<le> rt_n_ctx (pf_rt pc)
     then pc\<lparr>pf_rt := pk_snapshot m (snd (runtime_decode cf F [] ts (pf_rt pc)))\<rparr> else pc)"
proof -
  have "text_server N st0 (pc\<lparr>pf_rt := pk_snapshot m (snd (runtime_decode cf F [] ts (pf_rt pc)))\<rparr>)"
    if pc: "text_server N st0 pc" "length (rt_kv_toks (pf_rt pc)) + length ts \<le> rt_n_ctx (pf_rt pc)" for pc
  proof -
    have "session_ok N st0 (pf_rt pc)" using pc(1) by (auto simp: text_server_def server_inv_def text_only_def)
    from runtime_decode_ok[OF assms(1) this assms(3) pc(2) assms(4), of cf]
    have "session_ok N st0 (pk_snapshot m (snd (runtime_decode cf F [] ts (pf_rt pc))))" by (auto intro: session_snapshot)
    then show ?thesis using pc(1) by (simp add: text_server_def server_inv_def text_only_def)
  qed
  then show ?thesis using assms(2) by (simp add: others_ok_def)
qed

lemma served_inv: "kv_decoder.text_inv (served_state N st0 L F) (saved_from N st0) pc \<longleftrightarrow>
    text_server N st0 pc \<and> computes N st0 L F"
  unfolding served.text_inv_def served.cache_inv_def text_server_def server_inv_def served.slot_ok_def slot_valid_def served_state_def by auto

lemma served_keeps: "computes N st0 L F \<Longrightarrow>
    kv_decoder.keeps runtime_ops (served_state N st0 L F) (saved_from N st0) sid f = others_ok N st0 sid f"
  unfolding served.keeps_def served_inv others_ok_def by simp

text \<open>
  C4. A text stream served in time slices delivers exactly the tokens of an uninterrupted generation, however its prompt is
  cut into chunks, wherever it yields, and however its state comes back (untouched, from a slot, or by decoding its
  tokens again). What is delivered is at any time a prefix; enough calls deliver everything and end the stream. The
  text of the tokens in the runtime is that of the prompt. This assumes that the forward computes a function of the
  tokens (a model without index and n-gram module, plain decoding); that prompt and generation stay within the context
  and the sampler returns token ids; that the client stays and reads and the lock is obtained; and that the other
  requests are text too and consistent (\<open>others_ok\<close>, which \<open>prepare_prompt\<close>, \<open>ensure_state\<close> and the decoding of other
  text requests satisfy). A request with images can break this (\<open>ensure_state_stale_owner\<close>, \<open>ensure_state_ignores_images\<close>).
\<close>

theorem time_slicing_transparent:
  assumes "computes N st0 L F" "text_server N st0 pc" "fresh prompt st" "prompt \<noteq> []" "set prompt \<subseteq> int32"
    "po_n_ctx po \<le> rt_n_ctx st0" "\<forall>l r. fst (po_sample po l r) \<in> int32"
    "\<forall>(f, ca) \<in> set ((f0, ca0) # cs). others_ok N st0 (ss_sid st) f \<and> attentive ca"
    "reuse runtime_ops tk prompt [] (f0 pc) = (n, pc1)" "h = rt_kv_toks (pf_rt pc1) @ drop (nat n) prompt" "length h \<le> rt_n_ctx st0"
    "serve runtime_ops (runtime_engine cf F pk_max) po tk ((f0, ca0) # cs) st pc = (st', pc')"
  shows "text_server N st0 pc' \<and> decode tk h = decode tk prompt \<and>
    (\<exists>z. ss_out st' @ z = uninterrupted po L (ss_max_tokens st) h (ss_smp st)) \<and>
    (length prompt + ss_max_tokens st \<le> length cs \<longrightarrow>
       ss_finished st' \<and> ss_out st' = uninterrupted po L (ss_max_tokens st) h (ss_smp st))"
proof -
  note inv = served_inv[THEN iffD2, OF conjI, OF assms(2,1)]
  have po: "kv_decoder.good_policy (rt_n_ctx st0) int32 po" using assms(6,7) by (simp add: served.good_policy_def)
  have k: "\<forall>(f, ca) \<in> set ((f0, ca0) # cs). kv_decoder.keeps runtime_ops (served_state N st0 L F) (saved_from N st0) (ss_sid st) f \<and> attentive ca"
    using assms(8) by (simp only: served_keeps[OF assms(1)])
  have h: "h = op_toks runtime_ops (pf_rt pc1) @ drop (nat n) prompt" using assms(10) by simp
  note S = served.serve_transparent[OF assms(3) inv assms(4,5) po k assms(9) h assms(11,12)]
  show ?thesis using S(1-4) by (simp only: served_inv) blast
qed

definition empty_cache :: "rt prefix_cache" where
  "empty_cache = live_cache\<lparr>pf_rt := reset counted_state\<rparr>"

definition nine :: "(nat, unit) policy" where
  "nine = \<lparr>po_sample = \<lambda>l r. (9, r), po_stop = \<lambda>t. False, po_n_ctx = 4, po_pf_env = Some 1, po_time_slice = 1\<rparr>"

definition request :: "(nat, unit, nat) stream" where
  "request = \<lparr>ss_smp = (), ss_holding = False, ss_prompt = [5, 6], ss_logits = 0, ss_out = [], ss_ovr = [], ss_spans = [], ss_sid = 3,
     ss_had_images = False, ss_slice_used = 0, ss_my_toks = [], ss_my_imgs = [], ss_pf_pos = 0, ss_gen_begin = -1, ss_n_cached = 0,
     ss_generated = 0, ss_max_tokens = 3, ss_started = False, ss_finished = False\<rparr>"

definition busy_call :: call where
  "busy_call = \<lparr>ca_lock = True, ca_writable = \<lambda>i. True, ca_contended = \<lambda>i. True, ca_emit = True\<rparr>"

lemma empty_inv: "text_server plain_net counted_state empty_cache"
  using plain_session session_reset[of plain_net counted_state counted_state] counted_model
  by (simp add: text_server_def text_only_def server_inv_def empty_cache_def live_cache_def slot_valid_def)

theorem time_slicing_transparent_witness:
  "\<exists>st' pc'. serve runtime_ops (runtime_engine offload_cfg count_graph 2) nine (Tokenizer demo_vocab) (replicate 10 (id, busy_call)) request empty_cache = (st', pc') \<and>
     ss_finished st' \<and> ss_out st' = [9] \<and> text_server plain_net counted_state pc'"
proof -
  obtain st' pc' where s: "serve runtime_ops (runtime_engine offload_cfg count_graph 2) nine (Tokenizer demo_vocab) (replicate 10 (id, busy_call)) request empty_cache = (st', pc')"
    by (metis surj_pair)
  define pc1 where "pc1 = empty_cache\<lparr>pf_rt := reset (reset counted_state), pf_origin := -1\<rparr>"
  have e: "rt_kv_toks (reset s) = []" for s by (simp add: reset_def zero_states_def Let_def)
  have d: "divergence [] [5, 6 :: int] = 0" by (simp add: divergence_def)
  have r: "reuse runtime_ops (Tokenizer demo_vocab) [5, 6] [] (id empty_cache) = (0, pc1)"
    by (simp add: reuse_def try_slots_def try_rewind_def empty_cache_def live_cache_def match_cov_def rewind_target_def save_live_def e d pc1_def)
  have f: "fresh [5, 6] request" by (simp add: fresh_def request_def)
  have k: "\<forall>(f, ca) \<in> set ((id, busy_call) # replicate 9 (id, busy_call)). others_ok plain_net counted_state (ss_sid request) f \<and> attentive ca"
    by (simp add: others_ok_def attentive_def busy_call_def)
  have p: "po_n_ctx nine \<le> rt_n_ctx counted_state" "\<forall>l r. fst (po_sample nine l r) \<in> int32"
    by (simp_all add: nine_def counted_fields int32_def)
  have t: "set [5, 6] \<subseteq> int32" by (simp add: int32_def)
  have h: "[5, 6] = rt_kv_toks (pf_rt pc1) @ drop (nat 0) [5, 6]" by (simp add: pc1_def e)
  have s': "serve runtime_ops (runtime_engine offload_cfg count_graph 2) nine (Tokenizer demo_vocab) ((id, busy_call) # replicate 9 (id, busy_call)) request empty_cache = (st', pc')"
    using s by (simp add: numeral_eq_Suc)
  from time_slicing_transparent[OF count_computes empty_inv f _ t p k r h _ s']
  have "ss_finished st' \<and> ss_out st' = [9] \<and> text_server plain_net counted_state pc'"
    by (simp add: counted_fields request_def nine_def numeral_eq_Suc)
  then show ?thesis using s by blast
qed

end
