(* ===== verification/Cpp_Number.thy ===== *)
theory Cpp_Number
  imports Cpp_String
begin

section \<open>Numbers in text\<close>

text \<open>
  The conversions of the standard library between numbers and text that the sources use: \<open>std::to_string\<close> of a natural number,
  \<open>%05d\<close>, \<open>isdigit\<close>, \<open>std::stoi\<close> on a string of digits, and \<open>strtol\<close> in base ten on a 64-bit platform.
\<close>

definition digit_char :: "nat \<Rightarrow> char" where
  "digit_char d = char_of (48 + d)"

definition digit_val :: "char \<Rightarrow> nat" where
  "digit_val c = of_char c - 48"

definition isdigit :: "char \<Rightarrow> bool" where
  "isdigit c \<longleftrightarrow> 48 \<le> (of_char c :: nat) \<and> (of_char c :: nat) \<le> 57"

definition isspace :: "char \<Rightarrow> bool" where
  "isspace c \<longleftrightarrow> c = CHR '' '' \<or> 9 \<le> (of_char c :: nat) \<and> (of_char c :: nat) \<le> 13"

function to_string :: "nat \<Rightarrow> string" where
  "to_string n = (if n < 10 then [digit_char n] else to_string (n div 10) @ [digit_char (n mod 10)])"
  by auto
termination by (relation "measure id") auto

declare to_string.simps [simp del]

definition digits_val :: "string \<Rightarrow> nat" where
  "digits_val s = foldl (\<lambda>v c. 10 * v + digit_val c) 0 s"

text \<open>\<open>printf\<close> with \<open>%0wd\<close>\<close>

definition zero_pad :: "nat \<Rightarrow> nat \<Rightarrow> string" where
  "zero_pad w n = replicate (w - length (to_string n)) (CHR ''0'') @ to_string n"

definition LONG_MAX :: int where "LONG_MAX = 2 ^ 63 - 1"
definition LONG_MIN :: int where "LONG_MIN = - (2 ^ 63)"

text \<open>\<open>strtol(s, &end, 10)\<close>: the number and what \<open>end\<close> points to; without digits, \<open>end\<close> is \<open>s\<close>.\<close>

definition strtol :: "string \<Rightarrow> int \<times> string" where
  "strtol s =
     (let s1 = dropWhile isspace s;
          neg = (s1 \<noteq> [] \<and> hd s1 = CHR ''-'');
          s2 = (if s1 \<noteq> [] \<and> hd s1 \<in> {CHR ''-'', CHR ''+''} then tl s1 else s1);
          ds = takeWhile isdigit s2;
          v = int (digits_val ds)
      in if ds = [] then (0, s) else (if neg then max LONG_MIN (- v) else min LONG_MAX v, dropWhile isdigit s2))"

subsection \<open>Reading back what was printed\<close>

lemma digit_char_val: "d < 10 \<Longrightarrow> digit_val (digit_char d) = d"
  by (simp add: digit_val_def digit_char_def)

lemma digit_char_digit: "d < 10 \<Longrightarrow> isdigit (digit_char d)"
  by (simp add: isdigit_def digit_char_def)

lemma to_string_digits: "c \<in> set (to_string n) \<Longrightarrow> isdigit c"
proof (induction n rule: to_string.induct)
  case (1 n)
  then show ?case by (subst (asm) (2) to_string.simps) (auto split: if_splits intro: digit_char_digit)
qed

lemma to_string_ne [simp]: "to_string n \<noteq> []"
  by (subst to_string.simps) simp

lemma digits_val_snoc: "digits_val (s @ [c]) = 10 * digits_val s + digit_val c"
  by (simp add: digits_val_def)

lemma digits_val_to_string [simp]: "digits_val (to_string n) = n"
proof (induction n rule: to_string.induct)
  case (1 n)
  show ?case
  proof (cases "n < 10")
    case True
    then show ?thesis by (subst to_string.simps) (simp add: digits_val_def digit_char_val)
  next
    case False
    have "digits_val (to_string n) = 10 * digits_val (to_string (n div 10)) + n mod 10"
      by (subst to_string.simps) (simp add: False digits_val_snoc digit_char_val)
    then show ?thesis using 1 False by simp
  qed
qed

lemma digits_val_zeros: "digits_val (replicate k (CHR ''0'') @ s) = digits_val s"
  by (induction k) (simp_all add: digits_val_def digit_val_def)

lemma digits_val_zero_pad [simp]: "digits_val (zero_pad w n) = n"
  by (simp add: zero_pad_def digits_val_zeros)

lemma isdigit_0 [simp]: "isdigit (CHR ''0'')"
  by (simp add: isdigit_def)

lemma zero_pad_digits: "c \<in> set (zero_pad w n) \<Longrightarrow> isdigit c"
  by (auto simp: zero_pad_def to_string_digits)

lemma to_string_length: "0 < w \<Longrightarrow> n < 10 ^ w \<Longrightarrow> length (to_string n) \<le> w"
proof (induction n arbitrary: w rule: to_string.induct)
  case (1 n)
  show ?case
  proof (cases "n < 10")
    case True
    then show ?thesis using 1(2) by (subst to_string.simps) simp
  next
    case False
    then obtain v where v: "w = Suc v" "0 < v" using 1(2,3) by (cases w; cases "w - 1") auto
    have "length (to_string (n div 10)) \<le> v" using 1(1)[OF False v(2)] 1(3) v(1) by (simp add: less_mult_imp_div_less mult.commute)
    then show ?thesis using v(1) by (subst to_string.simps) (simp add: False)
  qed
qed

lemma zero_pad_length: "0 < w \<Longrightarrow> n < 10 ^ w \<Longrightarrow> length (zero_pad w n) = w"
  using to_string_length[of w n] by (simp add: zero_pad_def)

lemma not_digit [simp]: "\<not> isdigit (CHR '','')" "\<not> isdigit (CHR '' '')" "\<not> isdigit (CHR ''-'')" "\<not> isdigit (CHR ''+'')" "\<not> isdigit (CHR ''.'')"
  by (simp_all add: isdigit_def)

lemma digit_not_space: "isdigit c \<Longrightarrow> \<not> isspace c"
  by (auto simp: isdigit_def isspace_def)

lemma strtol_to_string:
  assumes "int n \<le> LONG_MAX"
  shows "strtol (to_string n) = (int n, [])"
proof -
  let ?s = "to_string n"
  obtain c cs where s: "?s = c # cs" using to_string_ne by (metis list.exhaust)
  have c: "isdigit c" using to_string_digits[of c n] s by simp
  have d: "takeWhile isdigit ?s = ?s" "dropWhile isdigit ?s = []" using to_string_digits by (simp_all add: takeWhile_eq_all_conv)
  have w: "dropWhile isspace ?s = ?s" using s digit_not_space[OF c] by simp
  have "hd ?s \<noteq> CHR ''-''" "hd ?s \<noteq> CHR ''+''" using s c by (auto simp: isdigit_def)
  then show ?thesis unfolding strtol_def Let_def w using assms by (simp add: d min_def)
qed

end
