(* ===== verification/Gpu_Args.thy ===== *)
theory Gpu_Args
  imports Cpp_Number Runtime_State
begin

section \<open>Device lists on the command line\<close>

text \<open>
  \<open>split_csv\<close> and \<open>parse_gpu_list\<close> (\<open>core/runtime.cpp\<close>): the argument of \<open>--gpus\<close>. The lists with fractions (\<open>--vram-budget\<close>,
  \<open>--gpu-split\<close>) go through \<open>strtod\<close> and are not modelled.
\<close>

text \<open>\<open>split_csv\<close>: the fields between commas, empty ones included, without the blanks around them.\<close>

fun csv_fields :: "string \<Rightarrow> string \<Rightarrow> string list" where
  "csv_fields cur [] = [cur]"
| "csv_fields cur (c # s) = (if c = CHR '','' then cur # csv_fields [] s else csv_fields (cur @ [c]) s)"

definition trim_field :: "string \<Rightarrow> string" where
  "trim_field s =
     (case find_first_not_of s [CHR '' '', CHR 0x09] of
        None \<Rightarrow> []
      | Some b \<Rightarrow> (case find_last_not_of s [CHR '' '', CHR 0x09] of None \<Rightarrow> [] | Some e \<Rightarrow> substr s b (e - b + 1)))"

definition split_csv :: "string \<Rightarrow> string list" where
  "split_csv arg = map trim_field (csv_fields [] arg)"

text \<open>The cast of a 64-bit \<open>long\<close> to \<open>int\<close>.\<close>

definition int_cast :: "int \<Rightarrow> int" where
  "int_cast v = sint (word_of_int v :: 32 word)"

fun gpu_list :: "string list \<Rightarrow> int list \<Rightarrow> int list option" where
  "gpu_list [] v = Some v"
| "gpu_list (f # fs) v =
     (if f = [] then None
      else case strtol f of (d, rest) \<Rightarrow>
        if rest = f \<or> rest \<noteq> [] \<or> d < 0 then None
        else if int_cast d \<in> set v then None
        else gpu_list fs (v @ [int_cast d]))"

definition parse_gpu_list :: "string \<Rightarrow> int list option" where
  "parse_gpu_list arg = gpu_list (split_csv arg) []"

subsection \<open>What is accepted\<close>

definition join_csv :: "string list \<Rightarrow> string" where
  "join_csv fs = concat (map (\<lambda>f. f @ '','') (butlast fs)) @ last fs"

lemma csv_fields_field: "CHR '','' \<notin> set x \<Longrightarrow> csv_fields cur (x @ s) = csv_fields (cur @ x) s"
  by (induction x arbitrary: cur) auto

lemma csv_fields_join:
  assumes "fs \<noteq> []" "\<forall>f \<in> set fs. CHR '','' \<notin> set f"
  shows "csv_fields [] (join_csv fs) = fs"
  using assms
proof (induction fs)
  case (Cons f fs)
  have f: "CHR '','' \<notin> set f" using Cons.prems(2) by simp
  show ?case
  proof (cases "fs = []")
    case True
    then show ?thesis using csv_fields_field[OF f, of "[]" "[]"] by (simp add: join_csv_def)
  next
    case False
    then have "join_csv (f # fs) = f @ CHR '','' # join_csv fs" by (simp add: join_csv_def)
    then show ?thesis using Cons False csv_fields_field[OF f, of "[]" "CHR '','' # join_csv fs"] by simp
  qed
qed simp

definition blanks :: "string \<Rightarrow> bool" where
  "blanks s \<longleftrightarrow> set s \<subseteq> {CHR '' '', CHR 0x09}"

lemma blanks_no_comma: "blanks s \<Longrightarrow> CHR '','' \<notin> set s"
  by (force simp: blanks_def subset_iff)

lemma to_string_no_comma: "CHR '','' \<notin> set (to_string n)"
  using to_string_digits not_digit(1) by blast

lemma takeWhile_blanks:
  assumes "blanks b" "x \<noteq> []" "hd x \<notin> {CHR '' '', CHR 0x09}"
  shows "takeWhile (\<lambda>c. c \<in> set [CHR '' '', CHR 0x09]) (b @ x @ y) = b"
proof -
  obtain c cs where "x = c # cs" using assms(2) by (cases x) auto
  moreover have "takeWhile (\<lambda>c. c \<in> set [CHR '' '', CHR 0x09]) b = b" using assms(1) by (auto simp: blanks_def takeWhile_eq_all_conv)
  ultimately show ?thesis using assms(1,3) by (subst takeWhile_append2) (auto simp: blanks_def)
qed

lemma trim_field_blanks:
  assumes "blanks b1" "blanks b2" "x \<noteq> []" "hd x \<notin> {CHR '' '', CHR 0x09}" "last x \<notin> {CHR '' '', CHR 0x09}"
  shows "trim_field (b1 @ x @ b2) = x"
proof -
  have 1: "find_first_not_of (b1 @ x @ b2) [CHR '' '', CHR 0x09] = Some (length b1)"
    unfolding find_first_not_of_def takeWhile_blanks[OF assms(1,3,4)] using assms(3) by simp
  have r: "blanks (rev b2)" "rev x \<noteq> []" "hd (rev x) \<notin> {CHR '' '', CHR 0x09}" using assms(2,3,5) by (simp_all add: blanks_def hd_rev)
  have "find_last_not_of (b1 @ x @ b2) [CHR '' '', CHR 0x09] = Some (length b1 + length x - 1)"
    unfolding find_last_not_of_def rev_append append_assoc takeWhile_blanks[OF r] using assms(3) by simp
  moreover have "length b1 + length x - 1 - length b1 + 1 = length x" using assms(3) by (cases x) simp_all
  ultimately show ?thesis unfolding trim_field_def 1 by (simp add: substr_def)
qed

lemma int_cast_small: "n < 2 ^ 31 \<Longrightarrow> int_cast (int n) = int n"
  unfolding int_cast_def by (rule sint_of_int32) (simp add: int32_def)

lemma gpu_list_prints:
  assumes "distinct (ms @ ns)" "\<forall>n \<in> set (ms @ ns). n < 2 ^ 31"
  shows "gpu_list (map to_string ns) (map int ms) = Some (map int (ms @ ns))"
  using assms
proof (induction ns arbitrary: ms)
  case (Cons n ns)
  have n: "n < 2 ^ 31" using Cons.prems(2) by simp
  then have s: "strtol (to_string n) = (int n, [])" by (intro strtol_to_string) (simp add: LONG_MAX_def)
  have "gpu_list (map to_string (n # ns)) (map int ms) = gpu_list (map to_string ns) (map int (ms @ [n]))"
    using Cons.prems(1) int_cast_small[OF n] s by (auto simp: to_string_ne[symmetric])
  then show ?case using Cons.IH[of "ms @ [n]"] Cons.prems by simp
qed simp

lemma int_cast_range: "int_cast v \<in> int32"
  using sint_range_size[of "word_of_int v :: 32 word"] by (simp add: int_cast_def int32_def word_size)

lemma gpu_list_sound:
  "gpu_list fs v = Some w \<Longrightarrow> distinct v \<Longrightarrow> set v \<subseteq> int32 \<Longrightarrow> distinct w \<and> set w \<subseteq> int32 \<and> length w = length v + length fs"
proof (induction fs v rule: gpu_list.induct)
  case (2 f fs v)
  then show ?case using int_cast_range by (auto split: if_splits prod.splits)
qed simp

lemma csv_fields_ne [simp]: "csv_fields cur s \<noteq> []"
  by (induction cur s rule: csv_fields.induct) auto

text \<open>
  An accepted list of devices is nonempty, has no device twice and holds one number per field; and every list of different
  device numbers is read back as written, with any blanks around the numbers.
\<close>

theorem parse_gpu_list_roundtrip:
  assumes "ns \<noteq> []" "distinct ns" "\<forall>n \<in> set ns. n < 2 ^ 31" "\<forall>n \<in> set ns. blanks (b1 n) \<and> blanks (b2 n)"
  shows "parse_gpu_list (join_csv (map (\<lambda>n. b1 n @ to_string n @ b2 n) ns)) = Some (map int ns) \<and>
    (\<forall>arg v. parse_gpu_list arg = Some v \<longrightarrow> v \<noteq> [] \<and> distinct v \<and> set v \<subseteq> int32 \<and> length v = length (split_csv arg))"
proof
  let ?fs = "map (\<lambda>n. b1 n @ to_string n @ b2 n) ns"
  have fld: "CHR '','' \<notin> set f" if "f \<in> set ?fs" for f
    using that assms(4) blanks_no_comma to_string_no_comma by fastforce
  have edge: "hd (to_string n) \<notin> {CHR '' '', CHR 0x09}" "last (to_string n) \<notin> {CHR '' '', CHR 0x09}" for n
  proof -
    have "isdigit (hd (to_string n))" "isdigit (last (to_string n))" by (simp_all add: to_string_digits[of _ n])
    then show "hd (to_string n) \<notin> {CHR '' '', CHR 0x09}" "last (to_string n) \<notin> {CHR '' '', CHR 0x09}" by (auto simp: isdigit_def)
  qed
  have "split_csv (join_csv ?fs) = map to_string ns"
    unfolding split_csv_def using csv_fields_join[of ?fs] fld assms(1,4) trim_field_blanks[OF _ _ to_string_ne edge] by simp
  then show "parse_gpu_list (join_csv ?fs) = Some (map int ns)"
    using gpu_list_prints[of "[]" ns] assms(2,3) by (simp add: parse_gpu_list_def)
  show "\<forall>arg v. parse_gpu_list arg = Some v \<longrightarrow> v \<noteq> [] \<and> distinct v \<and> set v \<subseteq> int32 \<and> length v = length (split_csv arg)"
    using gpu_list_sound[of _ "[]"] by (fastforce simp: parse_gpu_list_def split_csv_def)
qed

theorem parse_gpu_list_roundtrip_witness:
  "parse_gpu_list ''1, 0'' = Some [1, 0]"
proof -
  have t: "to_string 1 = ''1''" "to_string 0 = ''0''" by (simp_all add: to_string.simps digit_char_def) code_simp+
  have "parse_gpu_list (join_csv (map (\<lambda>n. (if n = 0 then '' '' else []) @ to_string n @ []) [1, 0])) = Some (map int [1, 0])"
    using parse_gpu_list_roundtrip[of "[1, 0]" "\<lambda>n. if n = 0 then '' '' else []" "\<lambda>n. []"] by (simp add: blanks_def)
  then show ?thesis by (simp add: join_csv_def t[simplified])
qed

end
