(* ===== verification/Cpp_Map.thy ===== *)
theory Cpp_Map
  imports Cpp_String "HOL-Library.Char_ord" "HOL-Library.List_Lexorder"
begin

section \<open>Ordered maps\<close>

text \<open>
  \<open>std::map<std::string, T>\<close> as the list of its entries in the order of the keys, which is the order the sources iterate in.
  \<open>map_put\<close> is assignment to \<open>m[k]\<close>; \<open>map_of\<close> is \<open>find\<close>.
\<close>

fun map_put :: "string \<Rightarrow> 'a \<Rightarrow> (string \<times> 'a) list \<Rightarrow> (string \<times> 'a) list" where
  "map_put k v [] = [(k, v)]"
| "map_put k v ((k', v') # m) = (if k = k' then (k, v) # m else if k < k' then (k, v) # (k', v') # m else (k', v') # map_put k v m)"

lemma map_put_keys: "fst ` set (map_put k v m) = insert k (fst ` set m)"
  by (induction k v m rule: map_put.induct) auto

lemma map_put_sorted:
  "sorted (map fst m) \<Longrightarrow> distinct (map fst m) \<Longrightarrow> sorted (map fst (map_put k v m)) \<and> distinct (map fst (map_put k v m))"
proof (induction k v m rule: map_put.induct)
  case (2 k v k' v' m)
  have s: "sorted (map fst m)" "distinct (map fst m)" "\<forall>x \<in> fst ` set m. k' \<le> x" "k' \<notin> fst ` set m" using "2.prems" by auto
  show ?case
  proof (cases "k = k'")
    case True
    then show ?thesis using "2.prems" by simp
  next
    case ne: False
    show ?thesis
    proof (cases "k < k'")
      case True
      then have "\<forall>x \<in> fst ` set m. k < x" using s(3) by (meson less_le_trans)
      then show ?thesis using "2.prems" True ne by auto
    next
      case False
      then have "k' < k" using ne by simp
      then show ?thesis using "2.IH"[OF ne False s(1,2)] s(3,4) ne False map_put_keys[of k v m] by auto
    qed
  qed
qed simp

lemma map_put_get: "sorted (map fst m) \<Longrightarrow> map_of (map_put k v m) = (map_of m)(k \<mapsto> v)"
proof (induction k v m rule: map_put.induct)
  case (2 k v k' v' m)
  show ?case
  proof (cases "k = k' \<or> k < k'")
    case True
    then show ?thesis by (auto simp: fun_eq_iff)
  next
    case False
    then show ?thesis using "2.IH" "2.prems" by (auto simp: fun_eq_iff)
  qed
qed simp

end
