(* ===== verification/Model_Load.thy ===== *)
theory Model_Load
  imports Cpp_Number Cpp_Map Runtime_State Tokenizer
begin

section \<open>Model metadata: GGUF values, hyper-parameters, vocabulary, shards\<close>

text \<open>
  \<open>core/gguf_util.cpp\<close> and the loading part of \<open>core/model.cpp\<close>. The GGUF reader itself is a library the sources call: a file's
  metadata is a map from keys to typed values, and \<open>open_gguf\<close>, a parameter, gives the metadata of a path. The
  floating-point parameters (rope base, norm epsilon, expert scale) are left out, and so are log lines. 32-bit parameters are
  natural numbers below \<open>2 ^ 32\<close>.
\<close>

subsection \<open>Typed values\<close>

datatype gguf_val =
    GU8 "8 word" | GU32 "32 word" | GI32 "32 word" | GU64 "64 word" | GI64 "64 word" | GBool bool | GStr string
  | GArrU32 "32 word list" | GArrI32 "32 word list" | GArrU64 "64 word list" | GArrStr "string list" | GOther

type_synonym gguf = "string \<Rightarrow> gguf_val option"

definition gguf_str :: "gguf \<Rightarrow> string \<Rightarrow> string \<Rightarrow> string" where
  "gguf_str g key d = (case g key of Some (GStr s) \<Rightarrow> s | _ \<Rightarrow> d)"

definition gguf_u32 :: "gguf \<Rightarrow> string \<Rightarrow> nat \<Rightarrow> nat" where
  "gguf_u32 g key d =
     (case g key of
        Some (GU32 w) \<Rightarrow> unat w
      | Some (GI32 w) \<Rightarrow> unat w
      | Some (GU64 w) \<Rightarrow> unat (ucast w :: 32 word)
      | Some (GI64 w) \<Rightarrow> unat (ucast w :: 32 word)
      | _ \<Rightarrow> d)"

definition gguf_i32 :: "gguf \<Rightarrow> string \<Rightarrow> int \<Rightarrow> int" where
  "gguf_i32 g key d =
     (case g key of
        Some (GI32 w) \<Rightarrow> sint w
      | Some (GU32 w) \<Rightarrow> sint w
      | Some (GI64 w) \<Rightarrow> sint (ucast w :: 32 word)
      | _ \<Rightarrow> d)"

definition gguf_bool :: "gguf \<Rightarrow> string \<Rightarrow> bool \<Rightarrow> bool" where
  "gguf_bool g key d =
     (case g key of
        Some (GBool b) \<Rightarrow> b
      | Some (GU32 w) \<Rightarrow> w \<noteq> 0
      | Some (GI32 w) \<Rightarrow> w \<noteq> 0
      | Some (GU8 w) \<Rightarrow> w \<noteq> 0
      | _ \<Rightarrow> d)"

definition gguf_u32_array :: "gguf \<Rightarrow> string \<Rightarrow> nat list" where
  "gguf_u32_array g key =
     (case g key of
        Some (GArrU32 ws) \<Rightarrow> map unat ws
      | Some (GArrI32 ws) \<Rightarrow> map (\<lambda>w. if sint w < 0 then 0 else unat w) ws
      | _ \<Rightarrow> [])"

definition gguf_i32_array :: "gguf \<Rightarrow> string \<Rightarrow> int list" where
  "gguf_i32_array g key = (case g key of Some (GArrI32 ws) \<Rightarrow> map sint ws | _ \<Rightarrow> [])"

definition gguf_u64_array :: "gguf \<Rightarrow> string \<Rightarrow> 64 word list" where
  "gguf_u64_array g key = (case g key of Some (GArrU64 ws) \<Rightarrow> ws | _ \<Rightarrow> [])"

definition gguf_str_array :: "gguf \<Rightarrow> string \<Rightarrow> string list" where
  "gguf_str_array g key = (case g key of Some (GArrStr ss) \<Rightarrow> ss | _ \<Rightarrow> [])"

subsection \<open>Architectures\<close>

datatype arch = UNKNOWN | QWEN3 | QWEN3MOE | QWEN35 | QWEN35MOE | QWEN3NEXT | QWEN4EXP | LFM2 | LFM2MOE

fun arch_name :: "arch \<Rightarrow> string" where
  "arch_name QWEN3 = ''qwen3''"
| "arch_name QWEN3MOE = ''qwen3moe''"
| "arch_name QWEN35 = ''qwen35''"
| "arch_name QWEN35MOE = ''qwen35moe''"
| "arch_name QWEN3NEXT = ''qwen3next''"
| "arch_name QWEN4EXP = ''qwen4exp''"
| "arch_name LFM2 = ''lfm2''"
| "arch_name LFM2MOE = ''lfm2moe''"
| "arch_name UNKNOWN = ''unknown''"

definition arch_from_string :: "string \<Rightarrow> arch" where
  "arch_from_string s =
     (if s = ''qwen3'' then QWEN3 else if s = ''qwen3moe'' then QWEN3MOE else if s = ''qwen35'' then QWEN35
      else if s = ''qwen35moe'' then QWEN35MOE else if s = ''qwen3next'' then QWEN3NEXT else if s = ''qwen4exp'' then QWEN4EXP
      else if s = ''lfm2'' then LFM2 else if s = ''lfm2moe'' then LFM2MOE else UNKNOWN)"

subsection \<open>Hyper-parameters\<close>

text \<open>All of \<open>HParams\<close>: what the state and the n-gram table use is in the records of their theories.\<close>

record model_hparams =
  mh_arch :: arch
  mh_hp :: hparams
  mh_ple :: ple_hparams
  mh_n_ff :: nat
  mh_n_head :: nat
  mh_n_head_l :: "nat list"
  mh_n_rot :: nat
  mh_n_ctx_train :: nat
  mh_n_vocab :: nat
  mh_rope_sections :: "int list"
  mh_n_expert :: nat
  mh_n_expert_used :: nat
  mh_n_ff_exp :: nat
  mh_expert_gating_func :: nat
  mh_expert_weights_norm :: bool
  mh_n_dense_lead :: nat
  mh_hc_low_rank :: nat
  mh_indexer_n_head :: nat
  mh_ple_image_token_id :: nat
  mh_general_name :: string
  mh_file_type :: nat

text \<open>The values before anything is read.\<close>

definition no_ple :: ple_hparams where
  "no_ple = \<lparr>ple_n_heads = 0, ple_head_dim = 0, ple_ngram_size = 0, ple_heads_per_ngram = 0, ple_eos_token_id = 0,
     ple_layer_multipliers = [], ple_head_offsets = [], ple_head_vocab_sizes = []\<rparr>"

definition max_of :: "nat list \<Rightarrow> nat" where
  "max_of xs = foldl max (hd xs) (tl xs)"

definition rope_sum :: "int list \<Rightarrow> int" where
  "rope_sum secs = sum_list (take 4 secs)"

definition rope_secs :: "int list \<Rightarrow> int list" where
  "rope_secs secs = take 4 (take 4 secs @ replicate 4 0)"

definition is_gdn_arch :: "arch \<Rightarrow> bool" where
  "is_gdn_arch a = (a = QWEN35 \<or> a = QWEN35MOE \<or> a = QWEN3NEXT \<or> a = QWEN4EXP)"

text \<open>
  What every architecture reads; \<open>no_mrope\<close> says that \<open>QWEN_NO_MROPE\<close> is set. The fields of \<open>hparams\<close> that only some
  architectures read start at 0.
\<close>

definition read_hparams :: "gguf \<Rightarrow> bool \<Rightarrow> string \<Rightarrow> model_hparams" where
  "read_hparams g no_mrope arch =
     (let k = (\<lambda>s. arch @ ''.'' @ s);
          n_embd = gguf_u32 g (k ''embedding_length'') 0;
          head_l = gguf_u32_array g (k ''attention.head_count'');
          n_head = (if head_l = [] then gguf_u32 g (k ''attention.head_count'') 0 else max_of head_l);
          kv_l = gguf_u32_array g (k ''attention.head_count_kv'');
          n_head_kv = (if kv_l = [] then gguf_u32 g (k ''attention.head_count_kv'') n_head else max_of kv_l);
          n_embd_head = gguf_u32 g (k ''attention.key_length'') (if n_head \<noteq> 0 then n_embd div n_head else 0);
          n_rot = gguf_u32 g (k ''rope.dimension_count'') n_embd_head;
          secs = gguf_i32_array g (k ''rope.dimension_sections'');
          d_inner = gguf_u32 g (k ''ssm.inner_size'') 0
      in \<lparr>mh_arch = arch_from_string arch,
          mh_hp = \<lparr>hp_n_layer = gguf_u32 g (k ''block_count'') 0, hp_n_embd = n_embd, hp_n_head_kv = n_head_kv, hp_n_embd_head = n_embd_head,
            hp_n_head_kv_l = kv_l,
            hp_use_mrope = (3 \<le> length secs \<and> 0 < rope_sum secs \<and> nat (rope_sum secs * 2 mod 2 ^ 32) = n_rot \<and> \<not> no_mrope),
            hp_has_gdn = (is_gdn_arch (arch_from_string arch) \<and> 0 < d_inner),
            hp_ssm_d_inner = d_inner, hp_ssm_n_group = gguf_u32 g (k ''ssm.group_count'') 0, hp_ssm_d_state = gguf_u32 g (k ''ssm.state_size'') 0,
            hp_ssm_d_conv = gguf_u32 g (k ''ssm.conv_kernel'') 0, hp_ssm_dt_rank = gguf_u32 g (k ''ssm.time_step_rank'') 0,
            hp_full_attn_interval = gguf_u32 g (k ''full_attention_interval'') 4, hp_has_shortconv = False, hp_shortconv_l_cache = 0,
            hp_nextn_predict_layers = gguf_u32 g (k ''nextn_predict_layers'') 0, hp_hc_count = 0, hp_indexer_head_dim = 0, hp_indexer_top_k = 0,
            hp_compress_ratios = [], hp_ple_ngram_size = 0, hp_ple_conv_kernel = 0, hp_ple_n_heads = 0, hp_ple_layers = []\<rparr>,
          mh_ple = no_ple, mh_n_ff = gguf_u32 g (k ''feed_forward_length'') 0, mh_n_head = n_head, mh_n_head_l = head_l, mh_n_rot = n_rot,
          mh_n_ctx_train = gguf_u32 g (k ''context_length'') 32768, mh_n_vocab = 0, mh_rope_sections = rope_secs secs,
          mh_n_expert = gguf_u32 g (k ''expert_count'') 0, mh_n_expert_used = gguf_u32 g (k ''expert_used_count'') 0,
          mh_n_ff_exp = gguf_u32 g (k ''expert_feed_forward_length'') 0, mh_expert_gating_func = gguf_u32 g (k ''expert_gating_func'') 1,
          mh_expert_weights_norm = gguf_bool g (k ''expert_weights_norm'') True, mh_n_dense_lead = gguf_u32 g (k ''leading_dense_block_count'') 0,
          mh_hc_low_rank = 0, mh_indexer_n_head = 0, mh_ple_image_token_id = 0,
          mh_general_name = gguf_str g ''general.name'' [], mh_file_type = gguf_u32 g ''general.file_type'' 0\<rparr>)"

text \<open>The flags of the layers with n-gram embeddings: \<open>None\<close> for a layer out of range.\<close>

fun mark_layers :: "nat \<Rightarrow> int list \<Rightarrow> nat list \<Rightarrow> nat list option" where
  "mark_layers n_layer [] fl = Some fl"
| "mark_layers n_layer (il # ils) fl =
     (if il < 0 \<or> int n_layer \<le> il then None else mark_layers n_layer ils (fl[nat il := 1]))"

definition ple_from :: "gguf \<Rightarrow> (string \<Rightarrow> string) \<Rightarrow> ple_hparams" where
  "ple_from g k =
     (let size1 = gguf_u32 g (k ''ple.ngram_size'') 0; per = gguf_u32 g (k ''ple.heads_per_ngram'') 0
      in \<lparr>ple_n_heads = nat ((int size1 - 1) * int per mod 2 ^ 32), ple_head_dim = gguf_u32 g (k ''embedding_length_per_layer_input'') 0,
          ple_ngram_size = size1, ple_heads_per_ngram = per, ple_eos_token_id = int (gguf_u32 g (k ''ple.eos_token_id'') 0),
          ple_layer_multipliers = gguf_u64_array g (k ''ple.layer_multipliers''), ple_head_offsets = gguf_u64_array g (k ''ple.head_offsets''),
          ple_head_vocab_sizes = gguf_u64_array g (k ''ple.head_vocab_sizes'')\<rparr>)"

definition ple_consistent :: "ple_hparams \<Rightarrow> bool" where
  "ple_consistent p \<longleftrightarrow> \<not> (ple_ngram_size p < 2 \<or> ple_n_heads p = 0 \<or> ple_head_dim p = 0 \<or>
     length (ple_layer_multipliers p) \<noteq> ple_ngram_size p \<or> length (ple_head_offsets p) \<noteq> ple_n_heads p \<or>
     length (ple_head_vocab_sizes p) \<noteq> ple_n_heads p)"

definition load_qwen4exp_hparams :: "gguf \<Rightarrow> string \<Rightarrow> model_hparams \<Rightarrow> exn + model_hparams" where
  "load_qwen4exp_hparams g arch m =
     (let k = (\<lambda>s. arch @ ''.'' @ s);
          count = gguf_u32 g (k ''hyper_connection.count'') 0; low = gguf_u32 g (k ''hyper_connection.low_rank'') 0;
          hp1 = (mh_hp m)\<lparr>hp_hc_count := count\<rparr>
      in if count = 0 \<or> low = 0 then Inl (Runtime_error ''qwen4exp: missing hyper_connection.count / .low_rank'')
         else
           let hp2 = hp1\<lparr>hp_indexer_head_dim := gguf_u32 g (k ''attention.indexer.key_length'') 0,
                 hp_indexer_top_k := gguf_u32 g (k ''attention.indexer.top_k'') 0,
                 hp_compress_ratios := map (\<lambda>r. if r < 0 then 0 else nat r) (gguf_i32_array g (k ''attention.compress_ratios''))\<rparr>;
               m2 = m\<lparr>mh_hp := hp2, mh_hc_low_rank := low, mh_indexer_n_head := gguf_u32 g (k ''attention.indexer.head_count'') 0\<rparr>;
               layers = gguf_i32_array g (k ''ple.layers'')
           in if layers = [] then Inr m2
              else (case mark_layers (hp_n_layer hp2) layers (replicate (hp_n_layer hp2) 0) of
                  None \<Rightarrow> Inl (Runtime_error ''qwen4exp: ple.layers out of range'')
                | Some fl \<Rightarrow>
                    let p = ple_from g k;
                        hp3 = hp2\<lparr>hp_ple_layers := fl, hp_ple_ngram_size := ple_ngram_size p,
                          hp_ple_conv_kernel := gguf_u32 g (k ''ple.conv_kernel'') 0, hp_ple_n_heads := ple_n_heads p\<rparr>
                    in if \<not> ple_consistent p then Inl (Runtime_error ''qwen4exp: inconsistent ple.* metadata'')
                       else Inr (m2\<lparr>mh_hp := hp3, mh_ple := p, mh_ple_image_token_id := gguf_u32 g (k ''ple.image_token_id'') 0\<rparr>)))"

text \<open>A tensor as the file describes it: its type, two dimensions, and its size in bytes.\<close>

record wtensor =
  wt_type :: nat
  wt_ne0 :: nat
  wt_ne1 :: nat
  wt_nbytes :: nat

type_synonym tensors = "(string \<times> wtensor) list"

definition vocab_rows :: "tensors \<Rightarrow> nat" where
  "vocab_rows ts =
     (case map_of ts ''output.weight'' of
        Some t \<Rightarrow> unat (of_nat (wt_ne1 t) :: 32 word)
      | None \<Rightarrow> (case map_of ts ''token_embd.weight'' of Some t \<Rightarrow> unat (of_nat (wt_ne1 t) :: 32 word) | None \<Rightarrow> 0))"

definition read_shortconv :: "gguf \<Rightarrow> string \<Rightarrow> model_hparams \<Rightarrow> exn + model_hparams" where
  "read_shortconv g arch m =
     (if mh_arch m = LFM2 \<or> mh_arch m = LFM2MOE then
        let l_cache = gguf_u32 g (arch @ ''.'' @ ''shortconv.l_cache'') 0 in
        if l_cache < 2 \<or> length (hp_n_head_kv_l (mh_hp m)) \<noteq> hp_n_layer (mh_hp m)
        then Inl (Runtime_error (arch @ '': expected shortconv.l_cache >= 2 and a per-layer head_count_kv''))
        else Inr (m\<lparr>mh_hp := (mh_hp m)\<lparr>hp_shortconv_l_cache := l_cache, hp_has_shortconv := True\<rparr>\<rparr>)
      else Inr m)"

definition load_hparams :: "gguf \<Rightarrow> bool \<Rightarrow> tensors \<Rightarrow> exn + model_hparams" where
  "load_hparams g no_mrope ts =
     (let arch = gguf_str g ''general.architecture'' ''unknown'' in
      if arch_from_string arch = UNKNOWN then Inl (Runtime_error (''unsupported architecture: '' @ arch))
      else let m = read_hparams g no_mrope arch in
        if mh_expert_gating_func m \<noteq> 1 \<and> mh_expert_gating_func m \<noteq> 2
        then Inl (Runtime_error (''unsupported expert_gating_func = '' @ to_string (mh_expert_gating_func m)))
        else
          (case (if mh_arch m = QWEN4EXP then load_qwen4exp_hparams g arch m else Inr m) of
             Inl e \<Rightarrow> Inl e
           | Inr m1 \<Rightarrow>
               (case read_shortconv g arch m1 of
                  Inl e \<Rightarrow> Inl e
                | Inr m2 \<Rightarrow> Inr (m2\<lparr>mh_n_vocab := vocab_rows ts\<rparr>))))"

definition load_vocab :: "gguf \<Rightarrow> Vocab" where
  "load_vocab g =
     (let pre = gguf_str g ''tokenizer.ggml.pre'' [] in
      \<lparr>v_tokens = gguf_str_array g ''tokenizer.ggml.tokens'', v_merges = gguf_str_array g ''tokenizer.ggml.merges'',
       v_token_types = gguf_i32_array g ''tokenizer.ggml.token_type'', v_bos_id = gguf_i32 g ''tokenizer.ggml.bos_token_id'' 151643,
       v_eos_id = gguf_i32 g ''tokenizer.ggml.eos_token_id'' 151645, v_add_bos = gguf_bool g ''tokenizer.ggml.add_bos_token'' (pre = ''lfm2''),
       v_pre = pre, v_chat_template = gguf_str g ''tokenizer.chat_template'' []\<rparr>)"

text \<open>Without an output matrix the vocabulary gives its own size.\<close>

definition settle_vocab :: "Vocab \<Rightarrow> model_hparams \<Rightarrow> model_hparams" where
  "settle_vocab v m = (if mh_n_vocab m = 0 then m\<lparr>mh_n_vocab := unat (of_nat (length (v_tokens v)) :: 32 word)\<rparr> else m)"

subsection \<open>What loading guarantees\<close>

text \<open>The invariant of hyper-parameters that the rest of the engine relies on.\<close>

definition hparams_wf :: "model_hparams \<Rightarrow> bool" where
  "hparams_wf m \<longleftrightarrow> (let hp = mh_hp m; p = mh_ple m in
     mh_arch m \<noteq> UNKNOWN \<and> mh_expert_gating_func m \<in> {1, 2} \<and>
     (hp_has_shortconv hp \<longleftrightarrow> mh_arch m = LFM2 \<or> mh_arch m = LFM2MOE) \<and>
     (hp_has_shortconv hp \<longrightarrow> 2 \<le> hp_shortconv_l_cache hp \<and> length (hp_n_head_kv_l hp) = hp_n_layer hp) \<and>
     (hp_has_gdn hp \<longrightarrow> 0 < hp_ssm_d_inner hp \<and> \<not> hp_has_shortconv hp) \<and>
     (mh_arch m = QWEN4EXP \<longleftrightarrow> 0 < hp_hc_count hp) \<and> (0 < hp_hc_count hp \<longrightarrow> 0 < mh_hc_low_rank m) \<and>
     hp_ple_n_heads hp = ple_n_heads p \<and> hp_ple_ngram_size hp = ple_ngram_size p \<and>
     (has_ple hp \<longrightarrow> mh_arch m = QWEN4EXP \<and> ple_consistent p \<and>
       ple_n_heads p = nat ((int (ple_ngram_size p) - 1) * int (ple_heads_per_ngram p) mod 2 ^ 32) \<and> length (hp_ple_layers hp) = hp_n_layer hp \<and>
       set (hp_ple_layers hp) \<subseteq> {0, 1} \<and> 1 \<in> set (hp_ple_layers hp)) \<and>
     (\<not> has_ple hp \<longrightarrow> hp_ple_layers hp = []) \<and>
     (\<forall>n \<in> set (mh_n_head_l m). n \<le> mh_n_head m) \<and> (\<forall>n \<in> set (hp_n_head_kv_l hp). n \<le> hp_n_head_kv hp) \<and>
     length (mh_rope_sections m) = 4)"

lemma max_of_ge: "n \<in> set xs \<Longrightarrow> n \<le> max_of xs"
proof -
  have f: "a \<le> foldl max a ys \<and> (\<forall>y \<in> set ys. y \<le> foldl max a ys)" for a :: nat and ys
  proof (induction ys arbitrary: a)
    case (Cons y ys)
    note IH = Cons.IH[of "max a y"]
    have "max a y \<le> foldl max (max a y) ys" using IH by blast
    then show ?case using IH by simp
  qed simp
  show "n \<in> set xs \<Longrightarrow> n \<le> max_of xs" using f[of "hd xs" "tl xs"] by (cases xs) (auto simp: max_of_def)
qed

lemma mark_layers_Some:
  assumes "mark_layers n ils fl = Some fl'" "length fl = n" "set fl \<subseteq> {0, 1}"
  shows "length fl' = n \<and> set fl' \<subseteq> {0, 1} \<and> (\<forall>i < n. fl ! i = 1 \<longrightarrow> fl' ! i = 1) \<and> (\<forall>il \<in> set ils. 0 \<le> il \<and> il < int n \<and> fl' ! nat il = 1)"
  using assms
proof (induction ils arbitrary: fl)
  case (Cons il ils)
  then have il: "0 \<le> il" "il < int n" "mark_layers n ils (fl[nat il := 1]) = Some fl'" by (auto split: if_splits)
  have s: "set (fl[nat il := 1]) \<subseteq> {0, 1}" using Cons.prems(3) set_update_subset_insert[of fl "nat il" 1] by auto
  have IH: "length fl' = n \<and> set fl' \<subseteq> {0, 1} \<and> (\<forall>i < n. (fl[nat il := 1]) ! i = 1 \<longrightarrow> fl' ! i = 1) \<and>
      (\<forall>il \<in> set ils. 0 \<le> il \<and> il < int n \<and> fl' ! nat il = 1)"
    by (rule Cons.IH[OF il(3) _ s]) (use Cons.prems(2) in simp)
  have "nat il < n" using il by linarith
  then have "fl' ! nat il = 1" using IH Cons.prems(2) by simp
  then show ?case using IH il(1,2) Cons.prems(2) by (auto simp: nth_list_update)
qed simp

lemma read_hparams_wf:
  fixes g :: gguf and nm :: bool and a :: string
  assumes "arch_from_string a \<noteq> UNKNOWN"
  defines "m \<equiv> read_hparams g nm a"
  shows "mh_arch m = arch_from_string a" "hp_has_gdn (mh_hp m) \<Longrightarrow> is_gdn_arch (mh_arch m) \<and> 0 < hp_ssm_d_inner (mh_hp m)"
    "\<not> hp_has_shortconv (mh_hp m)" "hp_hc_count (mh_hp m) = 0" "mh_ple m = no_ple" "hp_ple_layers (mh_hp m) = []"
    "hp_ple_n_heads (mh_hp m) = 0" "hp_ple_ngram_size (mh_hp m) = 0" "length (mh_rope_sections m) = 4"
    "n \<in> set (mh_n_head_l m) \<Longrightarrow> n \<le> mh_n_head m" "n \<in> set (hp_n_head_kv_l (mh_hp m)) \<Longrightarrow> n \<le> hp_n_head_kv (mh_hp m)"
  by (auto simp: m_def read_hparams_def Let_def rope_secs_def max_of_ge)

lemma qwen4exp_wf:
  assumes "load_qwen4exp_hparams g a m = Inr m'" "hp_ple_layers (mh_hp m) = []" "hp_ple_n_heads (mh_hp m) = 0" "hp_ple_ngram_size (mh_hp m) = 0"
    "mh_ple m = no_ple"
  shows "mh_arch m' = mh_arch m" "mh_expert_gating_func m' = mh_expert_gating_func m" "0 < hp_hc_count (mh_hp m')" "0 < mh_hc_low_rank m'"
    "hp_has_gdn (mh_hp m') = hp_has_gdn (mh_hp m)" "hp_ssm_d_inner (mh_hp m') = hp_ssm_d_inner (mh_hp m)" "hp_has_shortconv (mh_hp m') = hp_has_shortconv (mh_hp m)"
    "mh_rope_sections m' = mh_rope_sections m" "mh_n_head_l m' = mh_n_head_l m" "mh_n_head m' = mh_n_head m"
    "hp_n_head_kv_l (mh_hp m') = hp_n_head_kv_l (mh_hp m)" "hp_n_head_kv (mh_hp m') = hp_n_head_kv (mh_hp m)" "hp_n_layer (mh_hp m') = hp_n_layer (mh_hp m)"
    "hp_ple_n_heads (mh_hp m') = ple_n_heads (mh_ple m')" "hp_ple_ngram_size (mh_hp m') = ple_ngram_size (mh_ple m')"
    "has_ple (mh_hp m') \<Longrightarrow> ple_consistent (mh_ple m') \<and>
       ple_n_heads (mh_ple m') = nat ((int (ple_ngram_size (mh_ple m')) - 1) * int (ple_heads_per_ngram (mh_ple m')) mod 2 ^ 32) \<and> length (hp_ple_layers (mh_hp m')) = hp_n_layer (mh_hp m') \<and>
       set (hp_ple_layers (mh_hp m')) \<subseteq> {0, 1} \<and> 1 \<in> set (hp_ple_layers (mh_hp m'))"
    "\<not> has_ple (mh_hp m') \<Longrightarrow> hp_ple_layers (mh_hp m') = []"
proof -
  let ?k = "\<lambda>s. a @ ''.'' @ s" and ?n = "hp_n_layer (mh_hp m)"
  let ?ls = "gguf_i32_array g (?k ''ple.layers'')"
  have fr: "mh_arch m' = mh_arch m \<and> mh_expert_gating_func m' = mh_expert_gating_func m \<and> 0 < hp_hc_count (mh_hp m') \<and> 0 < mh_hc_low_rank m' \<and>
    hp_has_gdn (mh_hp m') = hp_has_gdn (mh_hp m) \<and> hp_ssm_d_inner (mh_hp m') = hp_ssm_d_inner (mh_hp m) \<and> hp_has_shortconv (mh_hp m') = hp_has_shortconv (mh_hp m) \<and>
    mh_rope_sections m' = mh_rope_sections m \<and> mh_n_head_l m' = mh_n_head_l m \<and> mh_n_head m' = mh_n_head m \<and>
    hp_n_head_kv_l (mh_hp m') = hp_n_head_kv_l (mh_hp m) \<and> hp_n_head_kv (mh_hp m') = hp_n_head_kv (mh_hp m) \<and> hp_n_layer (mh_hp m') = ?n"
    using assms(1) by (auto simp: load_qwen4exp_hparams_def Let_def split: if_splits option.splits)
  then show "mh_arch m' = mh_arch m" "mh_expert_gating_func m' = mh_expert_gating_func m" "0 < hp_hc_count (mh_hp m')" "0 < mh_hc_low_rank m'"
    "hp_has_gdn (mh_hp m') = hp_has_gdn (mh_hp m)" "hp_ssm_d_inner (mh_hp m') = hp_ssm_d_inner (mh_hp m)" "hp_has_shortconv (mh_hp m') = hp_has_shortconv (mh_hp m)"
    "mh_rope_sections m' = mh_rope_sections m" "mh_n_head_l m' = mh_n_head_l m" "mh_n_head m' = mh_n_head m"
    "hp_n_head_kv_l (mh_hp m') = hp_n_head_kv_l (mh_hp m)" "hp_n_head_kv (mh_hp m') = hp_n_head_kv (mh_hp m)" "hp_n_layer (mh_hp m') = hp_n_layer (mh_hp m)"
    by simp_all
  have two: "(hp_ple_layers (mh_hp m') = [] \<and> hp_ple_n_heads (mh_hp m') = 0 \<and> hp_ple_ngram_size (mh_hp m') = 0 \<and> mh_ple m' = no_ple) \<or>
      (?ls \<noteq> [] \<and> mark_layers ?n ?ls (replicate ?n 0) = Some (hp_ple_layers (mh_hp m')) \<and> mh_ple m' = ple_from g ?k \<and> ple_consistent (mh_ple m') \<and>
       hp_ple_n_heads (mh_hp m') = ple_n_heads (mh_ple m') \<and> hp_ple_ngram_size (mh_hp m') = ple_ngram_size (mh_ple m'))"
    using assms by (auto simp: load_qwen4exp_hparams_def Let_def split: if_splits option.splits)
  then show "hp_ple_n_heads (mh_hp m') = ple_n_heads (mh_ple m')" "hp_ple_ngram_size (mh_hp m') = ple_ngram_size (mh_ple m')"
    by (auto simp: no_ple_def)
  show "\<not> has_ple (mh_hp m') \<Longrightarrow> hp_ple_layers (mh_hp m') = []" using two by (auto simp: has_ple_def ple_consistent_def)
  show "ple_consistent (mh_ple m') \<and>
       ple_n_heads (mh_ple m') = nat ((int (ple_ngram_size (mh_ple m')) - 1) * int (ple_heads_per_ngram (mh_ple m')) mod 2 ^ 32) \<and> length (hp_ple_layers (mh_hp m')) = hp_n_layer (mh_hp m') \<and>
       set (hp_ple_layers (mh_hp m')) \<subseteq> {0, 1} \<and> 1 \<in> set (hp_ple_layers (mh_hp m'))" if "has_ple (mh_hp m')"
  proof -
    have t: "?ls \<noteq> []" "mark_layers ?n ?ls (replicate ?n 0) = Some (hp_ple_layers (mh_hp m'))" "ple_consistent (mh_ple m')"
      using two that by (auto simp: has_ple_def)
    have r: "length (replicate ?n (0 :: nat)) = ?n" "set (replicate ?n (0 :: nat)) \<subseteq> {0, 1}" by auto
    note M = mark_layers_Some[OF t(2) r]
    obtain il where il: "il \<in> set ?ls" using t(1) by fastforce
    then have "0 \<le> il \<and> il < int ?n \<and> hp_ple_layers (mh_hp m') ! nat il = 1" using M by blast
    then have "1 \<in> set (hp_ple_layers (mh_hp m'))" using M by (metis in_set_conv_nth nat_less_iff)
    moreover have "ple_n_heads (mh_ple m') = nat ((int (ple_ngram_size (mh_ple m')) - 1) * int (ple_heads_per_ngram (mh_ple m')) mod 2 ^ 32)"
      using two that by (auto simp: has_ple_def ple_from_def Let_def)
    ultimately show ?thesis using M t(3) fr by simp
  qed
qed

lemma hparams_wf_vocab [simp]: "hparams_wf (m\<lparr>mh_n_vocab := v\<rparr>) = hparams_wf m"
  by (simp add: hparams_wf_def)

lemma accepted_hparams_wf:
  assumes "load_hparams g no_mrope ts = Inr m"
  shows "hparams_wf m"
proof -
  define a where "a = gguf_str g ''general.architecture'' ''unknown''"
  define m0 where "m0 = read_hparams g no_mrope a"
  have known: "arch_from_string a \<noteq> UNKNOWN" and gate: "mh_expert_gating_func m0 \<in> {1, 2}"
    using assms by (auto simp: load_hparams_def Let_def a_def[symmetric] m0_def[symmetric] split: if_splits)
  note R = read_hparams_wf[where g = g and nm = no_mrope, OF known, folded m0_def]
  obtain m1 m2 where m1: "(if mh_arch m0 = QWEN4EXP then load_qwen4exp_hparams g a m0 else Inr m0) = Inr m1"
    and m2: "read_shortconv g a m1 = Inr m2" and m: "m = m2\<lparr>mh_n_vocab := vocab_rows ts\<rparr>"
    using assms known gate by (auto simp: load_hparams_def Let_def a_def[symmetric] m0_def[symmetric] split: if_splits sum.splits)
  have w1: "hparams_wf (m1\<lparr>mh_hp := (mh_hp m1)\<lparr>hp_shortconv_l_cache := lc, hp_has_shortconv := hs\<rparr>, mh_n_vocab := v\<rparr>)"
    if "hs \<longleftrightarrow> mh_arch m1 = LFM2 \<or> mh_arch m1 = LFM2MOE" "hs \<longrightarrow> 2 \<le> lc \<and> length (hp_n_head_kv_l (mh_hp m1)) = hp_n_layer (mh_hp m1)" for hs lc v
  proof (cases "mh_arch m0 = QWEN4EXP")
    case True
    then have q: "load_qwen4exp_hparams g a m0 = Inr m1" using m1 by simp
    note Q = qwen4exp_wf[OF q R(6-8,5)]
    show ?thesis
      using that Q known gate R True by (auto simp: hparams_wf_def Let_def is_gdn_arch_def has_ple_def)
  next
    case False
    then have "m1 = m0" using m1 by simp
    then show ?thesis using that known gate R False by (auto simp: hparams_wf_def Let_def is_gdn_arch_def has_ple_def no_ple_def)
  qed
  have ns: "\<not> hp_has_shortconv (mh_hp m1)"
  proof (cases "mh_arch m0 = QWEN4EXP")
    case True
    then have q: "load_qwen4exp_hparams g a m0 = Inr m1" using m1 by simp
    show ?thesis using qwen4exp_wf(7)[OF q R(6-8,5)] R(3) by simp
  next
    case False
    then show ?thesis using m1 R(3) by simp
  qed
  show ?thesis
  proof (cases "mh_arch m1 = LFM2 \<or> mh_arch m1 = LFM2MOE")
    case True
    then have e: "m2 = m1\<lparr>mh_hp := (mh_hp m1)\<lparr>hp_shortconv_l_cache := gguf_u32 g (a @ ''.'' @ ''shortconv.l_cache'') 0, hp_has_shortconv := True\<rparr>\<rparr>"
      "2 \<le> gguf_u32 g (a @ ''.'' @ ''shortconv.l_cache'') 0" "length (hp_n_head_kv_l (mh_hp m1)) = hp_n_layer (mh_hp m1)"
      using m2 by (auto simp: read_shortconv_def Let_def split: if_splits)
    show ?thesis using w1[of True "gguf_u32 g (a @ ''.'' @ ''shortconv.l_cache'') 0" "vocab_rows ts"] True e by (simp add: m)
  next
    case False
    then have "m2 = m1" using m2 by (simp add: read_shortconv_def)
    moreover have "hparams_wf (m1\<lparr>mh_hp := (mh_hp m1)\<lparr>hp_shortconv_l_cache := hp_shortconv_l_cache (mh_hp m1),
        hp_has_shortconv := hp_has_shortconv (mh_hp m1)\<rparr>, mh_n_vocab := vocab_rows ts\<rparr>)"
      by (rule w1) (use False ns in auto)
    ultimately show ?thesis by (simp add: m)
  qed
qed

text \<open>A file with an n-gram table, as small as they get.\<close>

definition small_gguf :: gguf where
  "small_gguf = [''general.architecture'' \<mapsto> GStr ''qwen4exp'', ''qwen4exp.block_count'' \<mapsto> GU32 4, ''qwen4exp.attention.head_count'' \<mapsto> GArrI32 [2, 1, 2, 2],
     ''qwen4exp.hyper_connection.count'' \<mapsto> GU32 2, ''qwen4exp.hyper_connection.low_rank'' \<mapsto> GU32 1, ''qwen4exp.ple.layers'' \<mapsto> GArrI32 [2],
     ''qwen4exp.ple.ngram_size'' \<mapsto> GU32 3, ''qwen4exp.ple.heads_per_ngram'' \<mapsto> GU32 1, ''qwen4exp.embedding_length_per_layer_input'' \<mapsto> GU32 2,
     ''qwen4exp.ple.layer_multipliers'' \<mapsto> GArrU64 [3, 5, 7], ''qwen4exp.ple.head_offsets'' \<mapsto> GArrU64 [0, 2],
     ''qwen4exp.ple.head_vocab_sizes'' \<mapsto> GArrU64 [2, 3]]"

lemma small_gguf_keys:
  "small_gguf ''general.architecture'' = Some (GStr ''qwen4exp'')" "small_gguf ''qwen4exp.block_count'' = Some (GU32 4)"
  "small_gguf ''qwen4exp.expert_gating_func'' = None" "small_gguf ''qwen4exp.hyper_connection.count'' = Some (GU32 2)"
  "small_gguf ''qwen4exp.hyper_connection.low_rank'' = Some (GU32 1)" "small_gguf ''qwen4exp.ple.layers'' = Some (GArrI32 [2])"
  "small_gguf ''qwen4exp.ple.ngram_size'' = Some (GU32 3)" "small_gguf ''qwen4exp.ple.heads_per_ngram'' = Some (GU32 1)"
  "small_gguf ''qwen4exp.embedding_length_per_layer_input'' = Some (GU32 2)" "small_gguf ''qwen4exp.ple.eos_token_id'' = None"
  "small_gguf ''qwen4exp.ple.layer_multipliers'' = Some (GArrU64 [3, 5, 7])" "small_gguf ''qwen4exp.ple.head_offsets'' = Some (GArrU64 [0, 2])"
  "small_gguf ''qwen4exp.ple.head_vocab_sizes'' = Some (GArrU64 [2, 3])"
  by (simp_all add: small_gguf_def)

lemma small_gguf_loads:
  "\<exists>m. load_hparams small_gguf False ts = Inr m \<and> mh_ple m = small_hp"
proof -
  let ?m0 = "read_hparams small_gguf False ''qwen4exp''"
  have a: "gguf_str small_gguf ''general.architecture'' ''unknown'' = ''qwen4exp''" by (simp add: gguf_str_def small_gguf_keys)
  have m0: "mh_arch ?m0 = QWEN4EXP" "mh_expert_gating_func ?m0 = 1" "hp_n_layer (mh_hp ?m0) = 4"
    by (simp_all add: read_hparams_def Let_def arch_from_string_def gguf_u32_def small_gguf_keys)
  have p: "ple_from small_gguf (\<lambda>s. ''qwen4exp'' @ ''.'' @ s) = small_hp"
    by (simp add: ple_from_def Let_def gguf_u32_def gguf_u64_array_def small_gguf_keys small_hp_def)
  have c: "ple_consistent small_hp" by (simp add: ple_consistent_def small_hp_def)
  have k: "gguf_u32 small_gguf ''qwen4exp.hyper_connection.count'' 0 = 2" "gguf_u32 small_gguf ''qwen4exp.hyper_connection.low_rank'' 0 = 1"
    "gguf_i32_array small_gguf ''qwen4exp.ple.layers'' = [2]"
    by (simp_all add: gguf_u32_def gguf_i32_array_def small_gguf_keys)
  obtain m1 where m1: "load_qwen4exp_hparams small_gguf ''qwen4exp'' ?m0 = Inr m1" "mh_ple m1 = small_hp" "mh_arch m1 = QWEN4EXP"
    unfolding load_qwen4exp_hparams_def Let_def p using k c m0 by simp
  show ?thesis unfolding load_hparams_def Let_def a using m0 m1 by (simp add: arch_from_string_def read_shortconv_def)
qed

lemma ple_heads_exact:
  assumes "hparams_wf m" "has_ple (mh_hp m)" "(ple_ngram_size (mh_ple m) - 1) * ple_heads_per_ngram (mh_ple m) < 2 ^ 32"
  shows "ple_n_heads (mh_ple m) = (ple_ngram_size (mh_ple m) - 1) * ple_heads_per_ngram (mh_ple m)"
    "length (ple_head_offsets (mh_ple m)) = ple_n_heads (mh_ple m)" "length (ple_head_vocab_sizes (mh_ple m)) = ple_n_heads (mh_ple m)"
    "length (ple_layer_multipliers (mh_ple m)) = ple_ngram_size (mh_ple m)" "2 \<le> ple_ngram_size (mh_ple m)" "ple_n_heads (mh_ple m) \<noteq> 0"
proof -
  let ?p = "mh_ple m"
  have w: "ple_consistent ?p" "ple_n_heads ?p = nat ((int (ple_ngram_size ?p) - 1) * int (ple_heads_per_ngram ?p) mod 2 ^ 32)"
    using assms(1,2) by (auto simp: hparams_wf_def Let_def)
  show n: "length (ple_head_offsets ?p) = ple_n_heads ?p" "length (ple_head_vocab_sizes ?p) = ple_n_heads ?p"
    "length (ple_layer_multipliers ?p) = ple_ngram_size ?p" "2 \<le> ple_ngram_size ?p" "ple_n_heads ?p \<noteq> 0"
    using w(1) by (auto simp: ple_consistent_def)
  have "(int (ple_ngram_size ?p) - 1) * int (ple_heads_per_ngram ?p) = int ((ple_ngram_size ?p - 1) * ple_heads_per_ngram ?p)"
    using n(4) by (simp add: of_nat_diff)
  then show "ple_n_heads ?p = (ple_ngram_size ?p - 1) * ple_heads_per_ngram ?p"
    using w(2) assms(3) by (simp add: mod_pos_pos_trivial flip: of_nat_mult)
qed

text \<open>
  C23. Hyper-parameters that loading accepts satisfy \<open>hparams_wf\<close>: a known architecture and gating function, flags that
  agree with the architecture, for a convolution model a per-layer head count and a cache length of at least 2, maxima that
  bound every layer's head counts, and, for a model with an n-gram module, at least one layer marked for it, marks only on
  existing layers, and tables as long as the number of heads. That number is computed modulo \<open>2 ^ 32\<close>: if
  the product of orders and heads does not wrap, it is the number of heads that hashing indexes, and the
  tables have one entry for each. Neither the product, nor an attention interval of 0, nor a number of draft
  layers beyond the number of layers is checked.
\<close>

theorem load_hparams_wf:
  assumes "load_hparams g no_mrope ts = Inr m"
  shows "hparams_wf m \<and>
    (has_ple (mh_hp m) \<and> (ple_ngram_size (mh_ple m) - 1) * ple_heads_per_ngram (mh_ple m) < 2 ^ 32 \<longrightarrow>
       length (ple_head_offsets (mh_ple m)) = (ple_ngram_size (mh_ple m) - 1) * ple_heads_per_ngram (mh_ple m) \<and>
       length (ple_head_vocab_sizes (mh_ple m)) = (ple_ngram_size (mh_ple m) - 1) * ple_heads_per_ngram (mh_ple m) \<and>
       length (ple_layer_multipliers (mh_ple m)) = ple_ngram_size (mh_ple m))"
  using accepted_hparams_wf[OF assms] ple_heads_exact[of m] by auto

theorem load_hparams_wf_witness:
  "\<exists>m. load_hparams small_gguf False [] = Inr m \<and> hparams_wf m \<and> has_ple (mh_hp m) \<and>
     length (ple_head_offsets (mh_ple m)) = (ple_ngram_size (mh_ple m) - 1) * ple_heads_per_ngram (mh_ple m)"
proof -
  obtain m where m: "load_hparams small_gguf False [] = Inr m" "mh_ple m = small_hp" using small_gguf_loads by blast
  note w = load_hparams_wf[OF m(1)]
  then have p: "has_ple (mh_hp m)" using m(2) by (simp add: hparams_wf_def Let_def has_ple_def small_hp_def)
  have "(ple_ngram_size (mh_ple m) - 1) * ple_heads_per_ngram (mh_ple m) < 2 ^ 32" using m(2) by (simp add: small_hp_def)
  then show ?thesis using m(1) w p by blast
qed

text \<open>
  The loader's checks are the ones the n-gram table needs: a table constructed from loaded parameters has a consistent geometry, so
  that every hash row it computes lies within the vectors of the file.
\<close>

theorem loaded_ngram_geometry:
  assumes "load_hparams g no_mrope ts = Inr m" "has_ple (mh_hp m)" "(ple_ngram_size (mh_ple m) - 1) * ple_heads_per_ngram (mh_ple m) < 2 ^ 32"
    "NgramTable (mh_ple m) pt fl mode cache_mb = Inr t"
  shows "ng_geometry t"
proof -
  let ?p = "mh_ple m"
  note n = ple_heads_exact[OF accepted_hparams_wf[OF assms(1)] assms(2,3)]
  have "ng_ngram t = ple_ngram_size ?p \<and> ng_n_heads t = ple_n_heads ?p \<and> ng_per_gram t = ple_heads_per_ngram ?p \<and>
      ng_mult t = ple_layer_multipliers ?p \<and> ng_offset t = ple_head_offsets ?p \<and> ng_vocab t = ple_head_vocab_sizes ?p"
    using assms(4) n(6) by (auto simp: NgramTable_def Let_def split: if_splits option.splits sum.splits)
  then show ?thesis using n by (simp add: ng_geometry_def)
qed

theorem loaded_ngram_geometry_witness:
  "ng_geometry (small_table DISK)"
proof -
  obtain m where m: "load_hparams small_gguf False [] = Inr m" "mh_ple m = small_hp" using small_gguf_loads by blast
  have "has_ple (mh_hp m)" using accepted_hparams_wf[OF m(1)] m(2) by (simp add: hparams_wf_def Let_def has_ple_def small_hp_def)
  then show ?thesis using loaded_ngram_geometry[OF m(1)] small_table_ok(1) m(2) by (simp add: small_hp_def)
qed

subsection \<open>Shards\<close>

definition all_digits :: "string \<Rightarrow> nat \<Rightarrow> nat \<Rightarrow> bool" where
  "all_digits path pos n = list_all (\<lambda>i. pos + i < length path \<and> isdigit (path ! (pos + i))) [0..<n]"

definition discover_shards :: "string \<Rightarrow> string list" where
  "discover_shards path =
     (case str_rfind path ''-of-'' of
        None \<Rightarrow> [path]
      | Some q \<Rightarrow>
          if 6 \<le> q \<and> path ! (q - 6) = CHR ''-'' \<and> all_digits path (q - 5) 5 \<and> all_digits path (q + 4) 5 \<and> drop (q + 9) path = ''.gguf'' then
            let total = digits_val (substr path (q + 4) 5); pre = take (q - 5) path in
            if 1 \<le> total then map (\<lambda>i. pre @ zero_pad 5 i @ ''-of-'' @ zero_pad 5 total @ ''.gguf'') [1..<total + 1] else [path]
          else [path])"

definition shard_name :: "string \<Rightarrow> nat \<Rightarrow> nat \<Rightarrow> string" where
  "shard_name pre i n = pre @ ''-'' @ zero_pad 5 i @ ''-of-'' @ zero_pad 5 n @ ''.gguf''"

lemma all_digits_at:
  assumes "length a = pos" "\<forall>c \<in> set ds. isdigit c" "n = length ds"
  shows "all_digits (a @ ds @ b) pos n"
  using assms by (auto simp: all_digits_def list_all_iff nth_append)

text \<open>
  C37. Any shard of a set leads to the whole set: from the name of one of \<open>n\<close> shards, numbered in five digits, exactly the names of the
  shards 1 to \<open>n\<close> are found, in order, the given one among them.
\<close>

theorem discover_shards_correct:
  assumes "1 \<le> i" "i \<le> n" "n < 10 ^ 5"
  shows "discover_shards (shard_name pre i n) = map (\<lambda>j. shard_name pre j n) [1..<n + 1] \<and>
    shard_name pre i n \<in> set (discover_shards (shard_name pre i n))"
proof
  let ?p = "shard_name pre i n" and ?q = "length pre + 6"
  have li: "length (zero_pad 5 i) = 5" "length (zero_pad 5 n) = 5" using assms by (simp_all add: zero_pad_length)
  have d: "drop ?q ?p = ''-of-'' @ zero_pad 5 n @ ''.gguf''" using li by (simp add: shard_name_def)
  have len: "length ?p = ?q + 14" using li by (simp add: shard_name_def)
  have d2: "drop (?q + 2) ?p = ''f-'' @ zero_pad 5 n @ ''.gguf''"
  proof -
    have "drop (?q + 2) ?p = drop 2 (drop ?q ?p)" by (simp only: drop_drop add.commute)
    then show ?thesis unfolding d by simp
  qed
  have no_o: "CHR ''o'' \<notin> set (drop (?q + 2) ?p)"
    unfolding d2 using zero_pad_digits[of "CHR ''o''" 5 n] by (auto simp: isdigit_def)
  have later: "\<not> prefix ''-of-'' (drop j ?p)" if "?q < j" for j
  proof
    assume "prefix ''-of-'' (drop j ?p)"
    then obtain r where r: "drop j ?p = CHR ''-'' # CHR ''o'' # r" by (auto simp: prefix_def)
    have "drop (j + 1) ?p = drop 1 (drop j ?p)" by (simp only: drop_drop add.commute)
    then have "CHR ''o'' \<in> set (drop (j + 1) ?p)" unfolding r by simp
    moreover have "drop (j + 1) ?p = drop (j - ?q - 1) (drop (?q + 2) ?p)" using that by simp
    ultimately show False using no_o by (metis in_set_dropD)
  qed
  have rf: "str_rfind ?p ''-of-'' = Some ?q"
    by (rule str_rfind_eq) (use len d later in \<open>auto simp: prefix_def\<close>)
  have dash: "?p ! (?q - 6) = CHR ''-''" by (simp add: shard_name_def nth_append)
  have a1: "all_digits ?p (?q - 5) 5"
    unfolding shard_name_def using all_digits_at[of "pre @ ''-''" "?q - 5" "zero_pad 5 i" 5] li zero_pad_digits by simp
  have a2: "all_digits ?p (?q + 4) 5"
    unfolding shard_name_def using all_digits_at[of "pre @ ''-'' @ zero_pad 5 i @ ''-of-''" "?q + 4" "zero_pad 5 n" 5] li zero_pad_digits by simp
  have e: "drop (?q + 9) ?p = ''.gguf''" using li by (simp add: shard_name_def)
  have t: "digits_val (substr ?p (?q + 4) 5) = n"
  proof -
    have "substr ?p (?q + 4) 5 = zero_pad 5 n" using li by (simp add: shard_name_def substr_def)
    then show ?thesis by simp
  qed
  have tk: "take (?q - 5) ?p = pre @ ''-''" by (simp add: shard_name_def)
  show r: "discover_shards ?p = map (\<lambda>j. shard_name pre j n) [1..<n + 1]"
    unfolding discover_shards_def rf option.case Let_def t tk using dash a1 a2 e assms by (simp add: shard_name_def)
  have "i \<in> set [1..<n + 1]" using assms by auto
  then show "?p \<in> set (discover_shards ?p)" unfolding r set_map by (rule imageI)
qed

theorem discover_shards_correct_witness:
  "discover_shards ''qwen-00002-of-00003.gguf'' = [''qwen-00001-of-00003.gguf'', ''qwen-00002-of-00003.gguf'', ''qwen-00003-of-00003.gguf'']"
proof -
  have z: "zero_pad 5 k = ''0000'' @ [digit_char k]" if "k < 10" for k
  proof -
    have "replicate 4 (CHR ''0'') = ''0000''" by (simp add: numeral_eq_Suc)
    then show ?thesis using that by (simp add: zero_pad_def to_string.simps)
  qed
  have d: "digit_char 1 = CHR ''1''" "digit_char 2 = CHR ''2''" "digit_char 3 = CHR ''3''" by code_simp+
  have n: "shard_name ''qwen'' 1 3 = ''qwen-00001-of-00003.gguf''" "shard_name ''qwen'' 2 3 = ''qwen-00002-of-00003.gguf''"
    "shard_name ''qwen'' 3 3 = ''qwen-00003-of-00003.gguf''"
    using d by (simp_all add: shard_name_def z)
  have "[1..<3 + 1] = [1, 2, 3 :: nat]" by (simp add: upt_rec)
  then show ?thesis using discover_shards_correct[of 2 3 "''qwen''"] unfolding n(2)[symmetric] by (simp add: n n[simplified])
qed

subsection \<open>Loading\<close>

text \<open>A file as the GGUF library describes it: its metadata, its tensors with their offsets in the data, and where the data start.\<close>

record shard =
  sf_kv :: gguf
  sf_tensors :: "(string \<times> wtensor \<times> nat) list"
  sf_data_off :: nat

record model =
  md_path :: string
  md_hp :: model_hparams
  md_vocab :: Vocab
  md_tensors :: tensors
  md_ple_table :: "wtensor option"
  md_src :: "string \<Rightarrow> (string \<times> nat) option"

definition PLE_TABLE :: string where "PLE_TABLE = ''per_layer_token_embd.weight''"

type_synonym collected = "tensors \<times> wtensor option \<times> (string \<Rightarrow> (string \<times> nat) option)"

fun add_tensor :: "string \<Rightarrow> nat \<Rightarrow> string \<times> wtensor \<times> nat \<Rightarrow> collected \<Rightarrow> collected" where
  "add_tensor path data_off (nm, t, q) (ts, ple, srcs) =
     (if nm = PLE_TABLE then ts else map_put nm t ts, if nm = PLE_TABLE then Some t else ple, srcs(nm \<mapsto> (path, data_off + q)))"

definition add_shard :: "string \<times> shard \<Rightarrow> collected \<Rightarrow> collected" where
  "add_shard sh acc = fold (add_tensor (fst sh) (sf_data_off (snd sh))) (sf_tensors (snd sh)) acc"

fun open_shards :: "(string \<Rightarrow> shard option) \<Rightarrow> string list \<Rightarrow> exn + (string \<times> shard) list" where
  "open_shards open_gguf [] = Inr []"
| "open_shards open_gguf (p # ps) =
     (case open_gguf p of
        None \<Rightarrow> Inl (Runtime_error (''failed to open GGUF: '' @ p))
      | Some sf \<Rightarrow> (case open_shards open_gguf ps of Inl e \<Rightarrow> Inl e | Inr shs \<Rightarrow> Inr ((p, sf) # shs)))"

definition model_load :: "(string \<Rightarrow> shard option) \<Rightarrow> bool \<Rightarrow> string \<Rightarrow> exn + model" where
  "model_load open_gguf no_mrope path =
     (case open_shards open_gguf (discover_shards path) of
        Inl e \<Rightarrow> Inl e
      | Inr shs \<Rightarrow>
          (case fold add_shard shs ([], None, \<lambda>_. None) of (ts, ple, srcs) \<Rightarrow>
             let g = sf_kv (snd (hd shs)); v = load_vocab g in
             (case load_hparams g no_mrope ts of
                Inl e \<Rightarrow> Inl e
              | Inr m \<Rightarrow> Inr \<lparr>md_path = path, md_hp = settle_vocab v m, md_vocab = v, md_tensors = ts, md_ple_table = ple, md_src = srcs\<rparr>)))"

text \<open>\<open>tensor\<close>, \<open>tensor_file\<close> and \<open>tensor_file_offset\<close>, and reading a tensor's bytes; a file is its bytes.\<close>

definition tensor_of :: "model \<Rightarrow> string \<Rightarrow> wtensor option" where
  "tensor_of m name = map_of (md_tensors m) name"

definition tensor_src :: "model \<Rightarrow> string \<Rightarrow> exn + string \<times> nat" where
  "tensor_src m name = (case md_src m name of None \<Rightarrow> Inl (Runtime_error (''no source for tensor: '' @ name)) | Some s \<Rightarrow> Inr s)"

definition read_tensor_bytes :: "model \<Rightarrow> (string \<Rightarrow> byte list option) \<Rightarrow> string \<Rightarrow> nat \<Rightarrow> exn + byte list" where
  "read_tensor_bytes m files name nb =
     (case tensor_src m name of
        Inl e \<Rightarrow> Inl e
      | Inr (p, q) \<Rightarrow>
          (case files p of
             None \<Rightarrow> Inl (Runtime_error (''failed to open shard file: '' @ p))
           | Some bs \<Rightarrow> if q + nb \<le> length bs then Inr (take nb (drop q bs)) else Inl (Runtime_error (''failed to read tensor data: '' @ name))))"

subsection \<open>What a loaded model knows\<close>

text \<open>The invariant of the collection: an ordered map, and for every tensor the file and offset of an entry that describes it.\<close>

definition described :: "(string \<times> shard) list \<Rightarrow> string \<Rightarrow> wtensor \<Rightarrow> string \<times> nat \<Rightarrow> bool" where
  "described shs nm t s \<longleftrightarrow> (\<exists>sf q. (fst s, sf) \<in> set shs \<and> (nm, t, q) \<in> set (sf_tensors sf) \<and> snd s = sf_data_off sf + q)"

definition collected_ok :: "(string \<times> shard) list \<Rightarrow> string set \<Rightarrow> collected \<Rightarrow> bool" where
  "collected_ok shs names c \<longleftrightarrow> (case c of (ts, ple, srcs) \<Rightarrow>
     sorted (map fst ts) \<and> distinct (map fst ts) \<and> fst ` set ts = names - {PLE_TABLE} \<and> (ple = None \<longleftrightarrow> PLE_TABLE \<notin> names) \<and>
     (\<forall>nm t. map_of ts nm = Some t \<or> nm = PLE_TABLE \<and> ple = Some t \<longrightarrow> (\<exists>s. srcs nm = Some s \<and> described shs nm t s)))"

lemma add_tensor_ok:
  assumes "collected_ok shs names c" "(path, sf) \<in> set shs" "(nm, t, q) \<in> set (sf_tensors sf)"
  shows "collected_ok shs (insert nm names) (add_tensor path (sf_data_off sf) (nm, t, q) c)"
proof -
  obtain ts ple srcs where c: "c = (ts, ple, srcs)" by (metis prod_cases3)
  have w: "sorted (map fst ts)" "distinct (map fst ts)" "fst ` set ts = names - {PLE_TABLE}" "ple = None \<longleftrightarrow> PLE_TABLE \<notin> names"
    "\<And>nm t. map_of ts nm = Some t \<or> nm = PLE_TABLE \<and> ple = Some t \<Longrightarrow> \<exists>s. srcs nm = Some s \<and> described shs nm t s"
    using assms(1) by (auto simp: collected_ok_def c)
  have d: "described shs nm t (path, sf_data_off sf + q)" using assms(2,3) by (auto simp: described_def)
  show ?thesis
  proof (cases "nm = PLE_TABLE")
    case True
    have "map_of ts PLE_TABLE = None" using w(3) by (auto simp: map_of_eq_None_iff)
    then show ?thesis using w d True by (auto simp: collected_ok_def c)
  next
    case False
    then show ?thesis
      using w d map_put_sorted[OF w(1,2), of nm t] map_put_keys[of nm t ts] by (auto simp: collected_ok_def c map_put_get[OF w(1)])
  qed
qed

lemma add_shard_ok:
  assumes "collected_ok shs names c" "(path, sf) \<in> set shs"
  shows "collected_ok shs (names \<union> fst ` set (sf_tensors sf)) (add_shard (path, sf) c)"
proof -
  have "collected_ok shs (names \<union> fst ` set es) (fold (add_tensor path (sf_data_off sf)) es c)" if "set es \<subseteq> set (sf_tensors sf)" for es
    using assms(1) that
  proof (induction es arbitrary: names c)
    case (Cons e es)
    obtain nm t q where e: "e = (nm, t, q)" by (metis prod_cases3)
    have "collected_ok shs (insert nm names) (add_tensor path (sf_data_off sf) e c)"
      unfolding e by (rule add_tensor_ok[OF Cons.prems(1) assms(2)]) (use Cons.prems(2) e in simp)
    from Cons.IH[OF this] show ?case using Cons.prems(2) by (simp add: e)
  qed simp
  then show ?thesis by (simp add: add_shard_def)
qed

lemma add_shards_ok:
  assumes "set shs' \<subseteq> set shs" "collected_ok shs names c"
  shows "collected_ok shs (names \<union> (\<Union>sh \<in> set shs'. fst ` set (sf_tensors (snd sh)))) (fold add_shard shs' c)"
  using assms
proof (induction shs' arbitrary: names c)
  case (Cons sh shs')
  obtain p sf where sh: "sh = (p, sf)" by (metis surj_pair)
  have "collected_ok shs (names \<union> fst ` set (sf_tensors sf)) (add_shard sh c)"
    unfolding sh by (rule add_shard_ok[OF Cons.prems(2)]) (use Cons.prems(1) sh in simp)
  from Cons.IH[OF _ this] show ?case using Cons.prems(1) by (simp add: sh Un_assoc)
qed simp

lemma open_shards_Inr:
  "open_shards f ps = Inr shs \<Longrightarrow> map fst shs = ps \<and> (\<forall>(p, sf) \<in> set shs. f p = Some sf)"
  by (induction ps arbitrary: shs) (auto split: option.splits sum.splits)

text \<open>
  C24. A loaded model has exactly the tensors its shards list, by name and in order, the n-gram table kept apart; and what it reads for a
  tensor are the bytes of that tensor in the shard that describes it: the offset of the data of this shard plus the tensor's own,
  also when the model is spread over shards. Its hyper-parameters are well-formed.
\<close>

theorem model_load_correct:
  assumes "model_load open_gguf no_mrope path = Inr m"
  shows "(let names = (\<Union>p \<in> set (discover_shards path). fst ` set (sf_tensors (the (open_gguf p)))) in
     distinct (map fst (md_tensors m)) \<and> fst ` set (md_tensors m) = names - {PLE_TABLE} \<and> (md_ple_table m = None \<longleftrightarrow> PLE_TABLE \<notin> names)) \<and>
    (\<forall>nm t. tensor_of m nm = Some t \<longrightarrow> (\<exists>p sf q. p \<in> set (discover_shards path) \<and> open_gguf p = Some sf \<and> (nm, t, q) \<in> set (sf_tensors sf) \<and>
      (\<forall>files bs. files p = Some bs \<and> sf_data_off sf + q + wt_nbytes t \<le> length bs \<longrightarrow>
        read_tensor_bytes m files nm (wt_nbytes t) = Inr (take (wt_nbytes t) (drop (sf_data_off sf + q) bs))))) \<and>
    hparams_wf (md_hp m)"
proof -
  obtain shs where o: "open_shards open_gguf (discover_shards path) = Inr shs"
    using assms by (auto simp: model_load_def split: sum.splits)
  obtain ts ple srcs where f: "fold add_shard shs ([], None, \<lambda>_. None) = (ts, ple, srcs)" by (metis prod_cases3)
  obtain h where h: "load_hparams (sf_kv (snd (hd shs))) no_mrope ts = Inr h" and
    m: "m = \<lparr>md_path = path, md_hp = settle_vocab (load_vocab (sf_kv (snd (hd shs)))) h, md_vocab = load_vocab (sf_kv (snd (hd shs))), md_tensors = ts,
       md_ple_table = ple, md_src = srcs\<rparr>"
    using assms unfolding model_load_def o by (auto simp: f Let_def split: sum.splits)
  note O = open_shards_Inr[OF o]
  have "collected_ok shs {} ([], None, \<lambda>_. None)" by (auto simp: collected_ok_def)
  from add_shards_ok[OF subset_refl this]
  have ok: "collected_ok shs (\<Union>sh \<in> set shs. fst ` set (sf_tensors (snd sh))) (ts, ple, srcs)" by (simp add: f)
  have names: "(\<Union>sh \<in> set shs. fst ` set (sf_tensors (snd sh))) = (\<Union>p \<in> set (discover_shards path). fst ` set (sf_tensors (the (open_gguf p))))"
  proof -
    have "set (discover_shards path) = fst ` set shs" using O by (metis set_map)
    moreover have "the (open_gguf (fst sh)) = snd sh" if "sh \<in> set shs" for sh using O that by force
    ultimately show ?thesis by simp
  qed
  have src: "\<exists>p sf q. p \<in> set (discover_shards path) \<and> open_gguf p = Some sf \<and> (nm, t, q) \<in> set (sf_tensors sf) \<and> srcs nm = Some (p, sf_data_off sf + q)"
    if "map_of ts nm = Some t" for nm t
  proof -
    have "\<exists>s. srcs nm = Some s \<and> described shs nm t s" using ok that unfolding collected_ok_def prod.case by blast
    then obtain p q0 where s: "srcs nm = Some (p, q0)" "described shs nm t (p, q0)" by force
    then obtain sf q where d: "(p, sf) \<in> set shs" "(nm, t, q) \<in> set (sf_tensors sf)" "q0 = sf_data_off sf + q" by (auto simp: described_def)
    have "p \<in> set (discover_shards path)" using O d(1) by (metis fst_conv image_eqI set_map)
    moreover have "open_gguf p = Some sf" using O d(1) by auto
    ultimately show ?thesis using s(1) d by blast
  qed
  have wf: "hparams_wf (md_hp m)"
    using accepted_hparams_wf[OF h] by (simp add: m settle_vocab_def)
  have tens: "md_tensors m = ts" "md_ple_table m = ple" "md_src m = srcs" by (simp_all add: m)
  define nms where "nms = (\<Union>sh \<in> set shs. fst ` set (sf_tensors (snd sh)))"
  have ok': "collected_ok shs nms (ts, ple, srcs)" using ok by (simp only: nms_def)
  note c = ok'[unfolded collected_ok_def prod.case]
  have names_ok: "distinct (map fst ts)" "fst ` set ts = nms - {PLE_TABLE}" "ple = None \<longleftrightarrow> PLE_TABLE \<notin> nms"
    by (rule c[THEN conjunct2, THEN conjunct1], rule c[THEN conjunct2, THEN conjunct2, THEN conjunct1],
        rule c[THEN conjunct2, THEN conjunct2, THEN conjunct2, THEN conjunct1])
  have read: "read_tensor_bytes m files nm nb = Inr (take nb (drop q0 bs))"
    if "srcs nm = Some (p, q0)" "files p = Some bs" "q0 + nb \<le> length bs" for files nm p q0 bs nb
    using that by (simp add: read_tensor_bytes_def tensor_src_def tens)
  show ?thesis
  proof (intro conjI allI impI)
    show "let names = (\<Union>p \<in> set (discover_shards path). fst ` set (sf_tensors (the (open_gguf p)))) in
       distinct (map fst (md_tensors m)) \<and> fst ` set (md_tensors m) = names - {PLE_TABLE} \<and> (md_ple_table m = None \<longleftrightarrow> PLE_TABLE \<notin> names)"
      unfolding Let_def tens names[symmetric] nms_def[symmetric] by (intro conjI names_ok)
    fix nm t assume "tensor_of m nm = Some t"
    then have "map_of ts nm = Some t" by (simp add: tensor_of_def tens)
    from src[OF this] obtain p sf q where x: "p \<in> set (discover_shards path)" "open_gguf p = Some sf" "(nm, t, q) \<in> set (sf_tensors sf)"
      "srcs nm = Some (p, sf_data_off sf + q)" by blast
    show "\<exists>p sf q. p \<in> set (discover_shards path) \<and> open_gguf p = Some sf \<and> (nm, t, q) \<in> set (sf_tensors sf) \<and>
      (\<forall>files bs. files p = Some bs \<and> sf_data_off sf + q + wt_nbytes t \<le> length bs \<longrightarrow>
        read_tensor_bytes m files nm (wt_nbytes t) = Inr (take (wt_nbytes t) (drop (sf_data_off sf + q) bs)))"
      using x read[OF x(4)] by blast
  qed (rule wf)
qed

definition small_files :: "string \<Rightarrow> shard option" where
  "small_files = [''m.gguf'' \<mapsto> \<lparr>sf_kv = small_gguf, sf_tensors = [(''output_norm.weight'', \<lparr>wt_type = 0, wt_ne0 = 2, wt_ne1 = 2, wt_nbytes = 4\<rparr>, 1)], sf_data_off = 2\<rparr>]"

theorem model_load_correct_witness:
  "\<exists>m. model_load small_files False ''m.gguf'' = Inr m \<and> read_tensor_bytes m [''m.gguf'' \<mapsto> [0, 1, 2, 3, 4, 5, 6, 7]] ''output_norm.weight'' 4 = Inr [3, 4, 5, 6] \<and>
     map fst (md_tensors m) = [''output_norm.weight'']"
proof -
  let ?t = "\<lparr>wt_type = 0, wt_ne0 = 2, wt_ne1 = 2, wt_nbytes = 4\<rparr>"
  have d: "discover_shards ''m.gguf'' = [''m.gguf'']" by code_simp
  have o: "small_files ''m.gguf'' = Some \<lparr>sf_kv = small_gguf, sf_tensors = [(''output_norm.weight'', ?t, 1)], sf_data_off = 2\<rparr>" by (simp add: small_files_def)
  obtain h where h: "load_hparams small_gguf False [(''output_norm.weight'', ?t)] = Inr h" using small_gguf_loads by blast
  obtain m where m: "model_load small_files False ''m.gguf'' = Inr m" "md_tensors m = [(''output_norm.weight'', ?t)]"
    by (simp add: model_load_def d o add_shard_def PLE_TABLE_def Let_def h)
  have "tensor_of m ''output_norm.weight'' = Some ?t" by (simp add: tensor_of_def m(2))
  then obtain p sf q where s: "p \<in> set (discover_shards ''m.gguf'')" "small_files p = Some sf" "(''output_norm.weight'', ?t, q) \<in> set (sf_tensors sf)"
    "\<forall>files bs. files p = Some bs \<and> sf_data_off sf + q + wt_nbytes ?t \<le> length bs \<longrightarrow>
      read_tensor_bytes m files ''output_norm.weight'' (wt_nbytes ?t) = Inr (take (wt_nbytes ?t) (drop (sf_data_off sf + q) bs))"
    using model_load_correct[OF m(1)] by blast
  then have "p = ''m.gguf''" "sf_data_off sf = 2" "q = 1" using d o by auto
  then have "read_tensor_bytes m [''m.gguf'' \<mapsto> [0, 1, 2, 3, 4, 5, 6, 7]] ''output_norm.weight'' 4 = Inr (take 4 (drop 3 [0, 1, 2, 3, 4, 5, 6, 7]))"
    using s(4)[rule_format, of "[''m.gguf'' \<mapsto> [0, 1, 2, 3, 4, 5, 6, 7]]" "[0, 1, 2, 3, 4, 5, 6, 7]"] by simp
  then show ?thesis using m by simp
qed

end
