(* ===== verification/Device_Plan.thy ===== *)
theory Device_Plan
  imports Complex_Main Decode
begin

section \<open>Planning devices: budgets, layers and expert pools\<close>

text \<open>
  How a model is spread over the devices before any weight is loaded (\<open>core/runtime.cpp\<close>): \<open>build_gpu_plan\<close> combines the
  command line's lists, \<open>plan_offload\<close> decides whether the routed experts leave the devices and for which tier,
  \<open>plan_layers\<close> and \<open>plan_pools\<close> give every layer a device for its computation and one for its expert pool, and \<open>init_cache\<close>
  gives the pools what the budget leaves.

  Byte counts are natural numbers (they are far below the range of \<open>size_t\<close>); the shares, which the code computes in
  \<open>double\<close>, are rationals, so the rounding of \<open>double\<close> arithmetic is not modelled. The free memory of the devices and of the
  host is input. Log lines and the numbers in the message of a refused plan are left out.
\<close>

subsection \<open>The plan of the command line\<close>

definition VRAM_BUDGET_AUTO :: nat where "VRAM_BUDGET_AUTO = 2 ^ 64 - 1"

record gpu_plan =
  gp_device :: int
  gp_budget_mb :: nat
  gp_split :: rat

text \<open>The loop over the devices: a device with budget 0 is dropped, unless it is to compute layers.\<close>

fun collect_plan :: "gpu_plan list \<Rightarrow> gpu_plan list \<Rightarrow> bool \<times> gpu_plan list" where
  "collect_plan [] out = (out \<noteq> [], out)"
| "collect_plan (p # ps) out =
     (if gp_budget_mb p = 0 then (if 0 < gp_split p then (False, out) else collect_plan ps out)
      else collect_plan ps (out @ [p]))"

definition plan_entry :: "int list \<Rightarrow> rat list \<Rightarrow> nat list \<Rightarrow> nat \<Rightarrow> gpu_plan" where
  "plan_entry gpu_ids gpu_split vram_mb i =
     \<lparr>gp_device = (if gpu_ids = [] then int i else gpu_ids ! i),
      gp_budget_mb = (if vram_mb = [] then VRAM_BUDGET_AUTO else vram_mb ! i),
      gp_split = (if gpu_split = [] then -1 else gpu_split ! i)\<rparr>"

definition plan_size :: "nat \<Rightarrow> int list \<Rightarrow> rat list \<Rightarrow> bool \<Rightarrow> nat list \<Rightarrow> nat" where
  "plan_size n_present gpu_ids gpu_split split_given vram_mb =
     (let n = max (length gpu_ids) (max (length gpu_split) (length vram_mb)) in
      if n \<le> 1 \<and> split_given \<and> gpu_split = [] \<and> gpu_ids = [] \<and> vram_mb = [] then n_present else n)"

text \<open>\<open>n_present\<close> is the number of devices found.\<close>

definition build_gpu_plan :: "nat \<Rightarrow> int list \<Rightarrow> rat list \<Rightarrow> bool \<Rightarrow> nat list \<Rightarrow> bool \<times> gpu_plan list" where
  "build_gpu_plan n_present gpu_ids gpu_split split_given vram_mb =
     (if gpu_ids = [] \<and> \<not> split_given \<and> length vram_mb \<le> 1 then (True, [])
      else let n = plan_size n_present gpu_ids gpu_split split_given vram_mb in
        if n = 0 then (True, [])
        else if vram_mb \<noteq> [] \<and> length vram_mb \<noteq> n then (False, [])
        else if gpu_split \<noteq> [] \<and> length gpu_split \<noteq> n then (False, [])
        else if gpu_ids \<noteq> [] \<and> length gpu_ids \<noteq> n then (False, [])
        else collect_plan (map (plan_entry gpu_ids gpu_split vram_mb) [0..<n]) [])"

subsection \<open>Whether the experts leave the devices\<close>

datatype expert_tier = Ssd | Ram | Auto

definition MB :: nat where "MB = 1024 * 1024"

definition compute_headroom :: "hparams \<Rightarrow> int option \<Rightarrow> nat" where
  "compute_headroom hp batch_env =
     (let scaled = n_embd_hc hp * batch_chunk batch_env * 4; want = 192 * MB + scaled
      in min (max want (256 * MB)) (1024 * MB))"

text \<open>
  What the plan is made from: the model (its parameters, the bytes of its weights, of the experts that may leave, and whether it
  has experts), the configuration, and what the machine reports.
\<close>

record plan_input =
  pi_hp :: hparams
  pi_weights :: nat
  pi_experts :: nat
  pi_has_experts :: bool
  pi_n_ctx :: nat
  pi_ngram_mode :: string
  pi_tier :: expert_tier
  pi_batch_env :: "int option"
  pi_cfg_gpus :: "gpu_plan list"
  pi_budget :: "nat list"
  pi_free :: "nat list"
  pi_host_avail :: nat
  pi_host_total :: nat

definition kv_total :: "plan_input \<Rightarrow> nat" where
  "kv_total inp = sum_list (map (planned_bytes (pi_hp inp) (pi_n_ctx inp) (pi_ngram_mode inp)) [0..<hp_n_layer (pi_hp inp)])"

definition auto_ssd :: "plan_input \<Rightarrow> bool" where
  "auto_ssd inp =
     (let margin = max (4 * 1024 * MB) (pi_host_total inp div 10)
      in \<not> (0 < pi_host_avail inp \<and> pi_experts inp + margin \<le> pi_host_avail inp))"

definition PLAN_REFUSED :: exn where "PLAN_REFUSED = Runtime_error ''has to stay on the device''"

text \<open>\<open>plan_offload\<close>: the flags \<open>offload\<close> and \<open>ssd_mode\<close>. There is one budget per device.\<close>

definition plan_offload :: "plan_input \<Rightarrow> exn + bool \<times> bool" where
  "plan_offload inp =
     (let budget = sum_list (pi_budget inp); free_total = sum_list (pi_free inp) in
      if budget = 0 then Inr (False, False)
      else
        let kv = kv_total inp;
            compute = compute_headroom (pi_hp inp) (pi_batch_env inp) * max (length (pi_budget inp)) 1;
            need = pi_weights inp + kv + compute;
            offload = (pi_has_experts inp \<and> budget < need);
            ssd_mode = (offload \<and> (pi_tier inp = Ssd \<or> pi_tier inp = Auto \<and> auto_ssd inp));
            experts = (if offload then pi_experts inp else 0);
            must = pi_weights inp - experts + kv;
            over_budget = (budget < must);
            over_free = (0 < free_total \<and> free_total < must)
        in if over_budget \<and> over_free then Inl PLAN_REFUSED else Inr (offload, ssd_mode))"

subsection \<open>Layers to devices\<close>

definition llround :: "rat \<Rightarrow> int" where
  "llround x = (if 0 \<le> x then \<lfloor>x + 1 / 2\<rfloor> else - \<lfloor>- x + 1 / 2\<rfloor>)"

text \<open>\<open>for (il = lo; il < hi; ++il) dev[il] = v\<close>\<close>

definition fill_range :: "nat \<Rightarrow> nat \<Rightarrow> nat \<Rightarrow> nat list \<Rightarrow> nat list" where
  "fill_range lo hi v dev = fold (\<lambda>il d. d[il := v]) [lo..<hi] dev"

text \<open>The loop both plans share: contiguous ranges in device order, by cumulative rounding; the first layer left over.\<close>

primrec assign_ranges :: "rat \<Rightarrow> nat \<Rightarrow> rat list \<Rightarrow> nat \<Rightarrow> nat \<Rightarrow> rat \<Rightarrow> nat list \<Rightarrow> nat list \<times> nat" where
  "assign_ranges tot nm [] i start cum dev = (dev, start)"
| "assign_ranges tot nm (s # ss) i start cum dev =
     (let cum' = cum + s / tot;
          end0 = (if ss = [] then int nm else llround (cum' * of_nat nm));
          end1 = (if s \<le> 0 then int start else end0);
          end2 = nat (max (int start) (min end1 (int nm)))
      in assign_ranges tot nm ss (i + 1) end2 cum' (fill_range start end2 i dev))"

definition layer_shares :: "gpu_plan list \<Rightarrow> nat list \<Rightarrow> rat list" where
  "layer_shares cfg budget =
     (let auto_split = (\<forall>p \<in> set cfg. gp_split p < 0) in
      map (\<lambda>i. if auto_split then of_nat (budget ! i)
               else if i < length cfg \<and> 0 \<le> gp_split (cfg ! i) then gp_split (cfg ! i) else 0) [0..<length budget])"

text \<open>Nothing to go on: all on the primary.\<close>

definition or_primary :: "rat list \<Rightarrow> rat list" where
  "or_primary sh = (if sum_list sh \<le> 0 then sh[0 := 1] else sh)"

definition plan_layers :: "plan_input \<Rightarrow> nat list" where
  "plan_layers inp =
     (let n_layer = hp_n_layer (pi_hp inp); nm = n_main (pi_hp inp); zero = replicate n_layer 0 in
      if length (pi_budget inp) \<le> 1 then zero
      else
        let sh = layer_shares (pi_cfg_gpus inp) (pi_budget inp);
            tot = (if sum_list sh \<le> 0 then 1 else sum_list sh);
            (dev, start) = assign_ranges tot nm (or_primary sh) 0 0 0 zero
        in fill_range nm n_layer 0 (fill_range start nm 0 dev))"

subsection \<open>Expert pools to devices\<close>

definition dev_of :: "nat list \<Rightarrow> nat \<Rightarrow> nat" where
  "dev_of layer_dev il = (if layer_dev = [] then 0 else layer_dev ! il)"

definition pdev_of :: "nat list \<Rightarrow> nat list \<Rightarrow> nat \<Rightarrow> nat" where
  "pdev_of layer_dev pool_dev il = (if pool_dev = [] then dev_of layer_dev il else pool_dev ! il)"

definition dev_kv :: "plan_input \<Rightarrow> nat list \<Rightarrow> nat \<Rightarrow> nat" where
  "dev_kv inp layer_dev d =
     sum_list (map (planned_bytes (pi_hp inp) (pi_n_ctx inp) (pi_ngram_mode inp)) (filter (\<lambda>il. dev_of layer_dev il = d) [0..<hp_n_layer (pi_hp inp)]))"

definition surplus :: "plan_input \<Rightarrow> nat list \<Rightarrow> nat \<Rightarrow> rat" where
  "surplus inp layer_dev d =
     (let reserve = dev_kv inp layer_dev d + compute_headroom (pi_hp inp) (pi_batch_env inp)
      in if reserve < pi_budget inp ! d then of_nat (pi_budget inp ! d - reserve) else 0)"

definition plan_pools :: "plan_input \<Rightarrow> bool \<Rightarrow> nat list \<Rightarrow> nat list" where
  "plan_pools inp offload layer_dev =
     (let nm = n_main (pi_hp inp); n_dev = length (pi_budget inp); own = map (dev_of layer_dev) [0..<nm] in
      if n_dev \<le> 1 \<or> \<not> offload then own
      else
        let sp = map (surplus inp layer_dev) [0..<n_dev]; tot = sum_list sp in
        if tot \<le> 0 then own
        else let (dev, start) = assign_ranges tot nm sp 0 0 0 own in fill_range start nm (n_dev - 1) dev)"

subsection \<open>What is left for the pool of a device\<close>

definition pool_budget :: "nat \<Rightarrow> nat \<Rightarrow> nat \<Rightarrow> nat \<Rightarrow> nat" where
  "pool_budget budget gpu_w kv_bytes compute =
     (let reserve = gpu_w + kv_bytes + compute in if reserve < budget then budget - reserve else 0)"

subsection \<open>The ranges\<close>

lemma fill_range_length [simp]: "length (fill_range lo hi v dev) = length dev"
proof -
  have "length (fold (\<lambda>il d. d[il := v]) xs dev) = length dev" for xs by (induction xs arbitrary: dev) simp_all
  then show ?thesis by (simp add: fill_range_def)
qed

lemma fill_range_nth: "hi \<le> length dev \<Longrightarrow> fill_range lo hi v dev ! il = (if lo \<le> il \<and> il < hi then v else dev ! il)"
proof (induction hi)
  case (Suc hi)
  show ?case
  proof (cases "lo \<le> hi")
    case True
    then have "fill_range lo (Suc hi) v dev = (fill_range lo hi v dev)[hi := v]" by (simp add: fill_range_def)
    then show ?thesis using Suc True by (auto simp: nth_list_update)
  next
    case False
    then show ?thesis by (simp add: fill_range_def)
  qed
qed (simp add: fill_range_def)

text \<open>The boundary after a cumulative share of \<open>c\<close>, and after the first \<open>k\<close> of a list of shares.\<close>

definition boundary :: "nat \<Rightarrow> rat \<Rightarrow> nat" where
  "boundary n c = nat (llround (c * of_nat n))"

definition upto_share :: "rat \<Rightarrow> nat \<Rightarrow> rat list \<Rightarrow> nat \<Rightarrow> nat" where
  "upto_share tot n ss k = boundary n (sum_list (take k ss) / tot)"

lemma llround_int [simp]: "llround (of_nat n) = int n"
proof -
  have "\<lfloor>of_nat n + 1 / 2 :: rat\<rfloor> = int n" by (rule floor_unique) simp_all
  then show ?thesis by (simp add: llround_def)
qed

lemma llround_mono: "0 \<le> x \<Longrightarrow> x \<le> y \<Longrightarrow> llround x \<le> llround y"
  by (simp add: llround_def floor_mono)

lemma llround_nonneg: "0 \<le> x \<Longrightarrow> 0 \<le> llround x"
  using llround_mono[of 0 x] llround_int[of 0] by simp

lemma llround_near: "0 \<le> x \<Longrightarrow> x - 1 / 2 < of_int (llround x) \<and> of_int (llround x) \<le> x + 1 / 2"
  unfolding llround_def by (simp, linarith)

lemma boundary_mono: "0 \<le> c \<Longrightarrow> c \<le> d \<Longrightarrow> boundary n c \<le> boundary n d"
  unfolding boundary_def by (intro nat_mono llround_mono) (simp_all add: mult_right_mono)

lemma boundary_0 [simp]: "boundary n 0 = 0" and boundary_1 [simp]: "boundary n 1 = n"
  using llround_int[of 0] by (simp_all add: boundary_def)

lemma int_boundary: "0 \<le> c \<Longrightarrow> int (boundary n c) = llround (c * of_nat n)"
  by (simp add: boundary_def llround_nonneg)

text \<open>The loop gives device \<open>i + k\<close> the layers between the boundaries after \<open>k\<close> and after \<open>k + 1\<close> shares, and leaves none over.\<close>

lemma assign_ranges_owner:
  assumes "0 < tot" "\<forall>s \<in> set ss. 0 \<le> s" "0 \<le> cum" "cum + sum_list ss / tot = 1" "n \<le> length dev"
    "assign_ranges tot n ss i (boundary n cum) cum dev = (dev', st)"
  shows "st = n \<and> length dev' = length dev \<and>
    (\<forall>il. (il < boundary n cum \<or> n \<le> il \<longrightarrow> dev' ! il = dev ! il) \<and>
      (\<forall>k < length ss. boundary n (cum + sum_list (take k ss) / tot) \<le> il \<longrightarrow> il < boundary n (cum + sum_list (take (k + 1) ss) / tot) \<longrightarrow>
         dev' ! il = i + k))"
  using assms
proof (induction ss arbitrary: i cum dev)
  case Nil
  then show ?case by simp
next
  case (Cons s ss)
  define cum' where "cum' = cum + s / tot"
  have s0: "0 \<le> s" using Cons.prems(2) by simp
  have ss0: "0 \<le> sum_list ss / tot" using Cons.prems(1,2) by (simp add: sum_list_nonneg)
  have c': "0 \<le> cum'" "cum \<le> cum'" using s0 Cons.prems(1,3) by (simp_all add: cum'_def)
  have tot1: "cum' + sum_list ss / tot = 1" using Cons.prems(4) by (simp add: cum'_def add_divide_distrib)
  then have c1: "cum' \<le> 1" using ss0 by linarith
  have ble: "boundary n cum \<le> boundary n cum'" "boundary n cum' \<le> n"
    using boundary_mono[OF Cons.prems(3) c'(2), of n] boundary_mono[OF c'(1) c1, of n] by simp_all
  have e0: "(if ss = [] then int n else llround (cum' * of_nat n)) = int (boundary n cum')"
    using tot1 int_boundary[OF c'(1), of n] by auto
  have e1: "(if s \<le> 0 then int (boundary n cum) else int (boundary n cum')) = int (boundary n cum')"
    using s0 by (auto simp: cum'_def)
  have "assign_ranges tot n (s # ss) i (boundary n cum) cum dev =
      assign_ranges tot n ss (i + 1) (boundary n cum') cum' (fill_range (boundary n cum) (boundary n cum') i dev)"
    unfolding assign_ranges.simps Let_def cum'_def[symmetric] e0 e1 using ble by (simp add: max_def min_def)
  then have r: "assign_ranges tot n ss (i + 1) (boundary n cum') cum' (fill_range (boundary n cum) (boundary n cum') i dev) = (dev', st)"
    using Cons.prems(6) by simp
  have IH: "st = n \<and> length dev' = length (fill_range (boundary n cum) (boundary n cum') i dev) \<and>
    (\<forall>il. (il < boundary n cum' \<or> n \<le> il \<longrightarrow> dev' ! il = fill_range (boundary n cum) (boundary n cum') i dev ! il) \<and>
      (\<forall>k < length ss. boundary n (cum' + sum_list (take k ss) / tot) \<le> il \<longrightarrow> il < boundary n (cum' + sum_list (take (k + 1) ss) / tot) \<longrightarrow>
         dev' ! il = i + 1 + k))"
    by (rule Cons.IH[OF Cons.prems(1) _ c'(1) tot1 _ r]) (use Cons.prems(2,5) in simp_all)
  have bl: "boundary n cum' \<le> length dev" using ble(2) Cons.prems(5) by simp
  note fr = fill_range_nth[OF bl]
  have sh: "cum + sum_list (take (Suc k) (s # ss)) / tot = cum' + sum_list (take k ss) / tot" for k
    by (simp add: cum'_def add_divide_distrib)
  have k: "dev' ! il = i + k" if "k < length (s # ss)" "boundary n (cum + sum_list (take k (s # ss)) / tot) \<le> il"
    "il < boundary n (cum + sum_list (take (k + 1) (s # ss)) / tot)" for k il
  proof (cases k)
    case 0
    then have "boundary n cum \<le> il" "il < boundary n cum'" using that(2,3) sh[of 0] by simp_all
    then show ?thesis using IH fr 0 by simp
  next
    case (Suc j)
    then show ?thesis using IH that sh[of j] sh[of "j + 1"] by simp
  qed
  have "dev' ! il = dev ! il" if "il < boundary n cum \<or> n \<le> il" for il
    using IH fr that ble by auto
  then show ?case using IH k by simp
qed

lemma assign_ranges_all:
  assumes "0 < tot" "\<forall>s \<in> set ss. 0 \<le> s" "sum_list ss = tot" "n \<le> length dev" "assign_ranges tot n ss 0 0 0 dev = (dev', st)"
  shows "st = n" "length dev' = length dev" "n \<le> il \<Longrightarrow> dev' ! il = dev ! il"
    "k < length ss \<Longrightarrow> upto_share tot n ss k \<le> il \<Longrightarrow> il < upto_share tot n ss (k + 1) \<Longrightarrow> dev' ! il = k"
  using assign_ranges_owner[OF assms(1,2), of 0 n dev 0 dev' st] assms(1,3-5) by (simp_all add: upto_share_def)

subsection \<open>Which device a layer gets\<close>

text \<open>Between the first and the last boundary every layer has its device, and the devices come in order.\<close>

lemma upto_share_mono:
  assumes "0 < tot" "\<forall>s \<in> set ss. 0 \<le> s" "k \<le> l"
  shows "upto_share tot n ss k \<le> upto_share tot n ss l"
proof -
  have 0: "0 \<le> sum_list (take k ss)" using assms(2) by (intro sum_list_nonneg) (auto dest: in_set_takeD)
  have "sum_list (take k ss) \<le> sum_list (take l ss)"
  proof -
    have "take l ss = take k ss @ take (l - k) (drop k ss)" using assms(3) by (metis le_add_diff_inverse take_add)
    moreover have "0 \<le> sum_list (take (l - k) (drop k ss))" using assms(2) by (intro sum_list_nonneg) (auto dest: in_set_takeD in_set_dropD)
    ultimately show ?thesis by simp
  qed
  then show ?thesis unfolding upto_share_def using 0 assms(1) by (intro boundary_mono divide_right_mono) simp_all
qed

lemma upto_share_ends:
  assumes "0 < tot" "sum_list ss = tot"
  shows "upto_share tot n ss 0 = 0" "upto_share tot n ss (length ss) = n"
  using assms by (simp_all add: upto_share_def)

lemma share_found:
  fixes f :: "nat \<Rightarrow> nat"
  assumes "f 0 \<le> il" "il < f m"
  shows "\<exists>k < m. f k \<le> il \<and> il < f (k + 1)"
  using assms(2)
proof (induction m)
  case 0
  then show ?case using assms(1) by simp
next
  case (Suc m)
  then show ?case by (cases "il < f m") (auto intro: less_SucI)
qed

text \<open>The layers of a device: their number, and how far it is from the device's share.\<close>

definition layers_of :: "nat \<Rightarrow> nat list \<Rightarrow> nat \<Rightarrow> nat" where
  "layers_of n dev d = length (filter (\<lambda>il. dev ! il = d) [0..<n])"

lemma ranges_correct:
  assumes "0 < tot" "\<forall>s \<in> set ss. 0 \<le> s" "sum_list ss = tot" "n \<le> length dev" "assign_ranges tot n ss 0 0 0 dev = (dev', st)"
  shows "il < n \<Longrightarrow> dev' ! il < length ss"
    and "i \<le> j \<Longrightarrow> j < n \<Longrightarrow> dev' ! i \<le> dev' ! j"
    and "d < length ss \<Longrightarrow> layers_of n dev' d = upto_share tot n ss (d + 1) - upto_share tot n ss d"
    and "d < length ss \<Longrightarrow> \<bar>of_nat (layers_of n dev' d) - ss ! d * of_nat n / tot\<bar> \<le> 1"
    and "d < length ss \<Longrightarrow> ss ! d = 0 \<Longrightarrow> layers_of n dev' d = 0"
proof -
  let ?u = "upto_share tot n ss"
  note own = assign_ranges_all(4)[OF assms] and mono = upto_share_mono[OF assms(1,2)] and ends = upto_share_ends[OF assms(1,3), of n]
  have ex: "\<exists>k < length ss. ?u k \<le> il \<and> il < ?u (k + 1) \<and> dev' ! il = k" if "il < n" for il
    using share_found[of ?u il "length ss"] ends that own by fastforce
  show "il < n \<Longrightarrow> dev' ! il < length ss" using ex by blast
  have iff: "dev' ! il = d \<longleftrightarrow> ?u d \<le> il \<and> il < ?u (d + 1)" if "il < n" "d < length ss" for il d
    using ex[OF that(1)] own[OF that(2)] by blast
  show "dev' ! i \<le> dev' ! j" if ij: "i \<le> j" "j < n"
  proof (rule ccontr)
    assume c: "\<not> dev' ! i \<le> dev' ! j"
    obtain k l where k: "k < length ss" "i < ?u (k + 1)" "?u k \<le> i" "dev' ! i = k" and l: "?u l \<le> j" "j < ?u (l + 1)" "dev' ! j = l"
      using ex[of i] ex[of j] ij by auto
    have "?u (l + 1) \<le> ?u k" using c k(4) l(3) by (intro mono) simp
    then show False using k(3) l(2) ij(1) by linarith
  qed
  have cnt: "layers_of n dev' d = ?u (d + 1) - ?u d" if d: "d < length ss" for d
  proof -
    have "?u (d + 1) \<le> ?u (length ss)" using d by (intro mono) simp
    then have le: "?u (d + 1) \<le> n" using ends by simp
    have "filter (\<lambda>il. dev' ! il = d) [0..<n] = filter (\<lambda>il. ?u d \<le> il \<and> il < ?u (d + 1)) [0..<n]"
      by (rule filter_cong) (use iff[OF _ d] in simp_all)
    also have "length \<dots> = card {il. il < n \<and> ?u d \<le> il \<and> il < ?u (d + 1)}"
      by (simp add: length_filter_conv_card conj_commute cong: conj_cong)
    also have "{il. il < n \<and> ?u d \<le> il \<and> il < ?u (d + 1)} = {?u d..<?u (d + 1)}" using le by auto
    finally show ?thesis by (simp add: layers_of_def)
  qed
  then show "d < length ss \<Longrightarrow> layers_of n dev' d = ?u (d + 1) - ?u d" .
  have step: "sum_list (take (d + 1) ss) = sum_list (take d ss) + ss ! d" if "d < length ss" for d
    using that by (simp add: take_Suc_conv_app_nth)
  show "\<bar>of_nat (layers_of n dev' d) - ss ! d * of_nat n / tot\<bar> \<le> 1" if d: "d < length ss"
  proof -
    let ?a = "sum_list (take d ss) / tot" and ?b = "sum_list (take (d + 1) ss) / tot"
    have a0: "0 \<le> ?a" using assms(1,2) by (intro divide_nonneg_pos sum_list_nonneg) (auto dest: in_set_takeD)
    have b: "?b = ?a + ss ! d / tot" using step[OF d] by (simp add: add_divide_distrib)
    have b0: "0 \<le> ?b" using a0 b assms(1,2) d by simp
    have "?u d \<le> ?u (d + 1)" by (rule mono) simp
    then have "of_nat (layers_of n dev' d) = (of_int (llround (?b * of_nat n)) - of_int (llround (?a * of_nat n)) :: rat)"
      unfolding cnt[OF d] using int_boundary[OF a0, of n] int_boundary[OF b0, of n]
      by (simp add: upto_share_def of_nat_diff)
    moreover have "0 \<le> ?a * of_nat n" by (rule mult_nonneg_nonneg[OF a0]) simp
    moreover have "0 \<le> ?b * of_nat n" by (rule mult_nonneg_nonneg[OF b0]) simp
    moreover have "?b * of_nat n = ?a * of_nat n + ss ! d * of_nat n / tot" using b by (simp add: distrib_right)
    ultimately show ?thesis using llround_near[of "?a * of_nat n"] llround_near[of "?b * of_nat n"] by linarith
  qed
  show "d < length ss \<Longrightarrow> ss ! d = 0 \<Longrightarrow> layers_of n dev' d = 0"
    using cnt step by (simp add: upto_share_def)
qed

text \<open>Whole shares that add up to the number of layers come back as themselves.\<close>

lemma ranges_exact:
  assumes "0 < n" "\<forall>s \<in> set ss. \<exists>m. s = of_nat m" "sum_list ss = of_nat n" "n \<le> length dev"
    "assign_ranges (of_nat n) n ss 0 0 0 dev = (dev', st)" "d < length ss"
  shows "of_nat (layers_of n dev' d) = ss ! d"
proof -
  have nn: "\<forall>s \<in> set ss. 0 \<le> s" using assms(2) by auto
  have whole: "\<exists>m. sum_list (take k ss) = of_nat m" for k
  proof -
    have "\<exists>m. sum_list xs = (of_nat m :: rat)" if "set xs \<subseteq> range of_nat" for xs
      using that
    proof (induction xs)
      case Nil
      show ?case by (rule exI[of _ 0]) simp
    next
      case (Cons x xs)
      then obtain a b where "x = of_nat a" "sum_list xs = of_nat b" by auto
      then show ?case by (intro exI[of _ "a + b"]) simp
    qed
    moreover have "set (take k ss) \<subseteq> range of_nat" using assms(2) by (auto dest!: in_set_takeD)
    ultimately show ?thesis by blast
  qed
  obtain a b where ab: "sum_list (take d ss) = of_nat a" "sum_list (take (d + 1) ss) = of_nat b" using whole by metis
  have u: "upto_share (of_nat n) n ss d = a" "upto_share (of_nat n) n ss (d + 1) = b"
    using ab assms(1) by (simp_all add: upto_share_def boundary_def)
  have "of_nat b = of_nat a + ss ! d" using ab assms(6) by (simp add: take_Suc_conv_app_nth)
  moreover obtain m where "ss ! d = of_nat m" using assms(2,6) nth_mem by blast
  moreover have "layers_of n dev' d = b - a"
    using ranges_correct(3)[OF _ nn assms(3,4,5,6)] u assms(1) by simp
  ultimately show ?thesis by (metis add_diff_cancel_left' of_nat_add of_nat_eq_iff)
qed

text \<open>The loop depends on the shares only through their ratios.\<close>

lemma ranges_cong:
  assumes "0 < tot" "\<forall>s \<in> set ss. 0 \<le> s" "sum_list ss = tot" "n \<le> length dev" "assign_ranges tot n ss 0 0 0 dev = (dev', st)"
    and "0 < tot2" "\<forall>s \<in> set ss2. 0 \<le> s" "sum_list ss2 = tot2" "n \<le> length dev2" "assign_ranges tot2 n ss2 0 0 0 dev2 = (dev2', st2)"
    and "length ss2 = length ss" "\<forall>d < length ss. ss2 ! d / tot2 = ss ! d / tot" "il < n"
  shows "dev2' ! il = dev' ! il"
proof -
  have "ss2 = map (\<lambda>s. s * (tot2 / tot)) ss"
  proof (rule nth_equalityI)
    fix d assume "d < length ss2"
    then show "ss2 ! d = map (\<lambda>s. s * (tot2 / tot)) ss ! d" using assms(1,6,11,12) by (simp add: field_simps)
  qed (use assms(11) in simp)
  then have "sum_list (take k ss2) = sum_list (take k ss) * (tot2 / tot)" for k
    using sum_list_mult_const[of "\<lambda>s. s" "tot2 / tot" "take k ss"] by (simp only: take_map list.map_ident)
  then have u: "upto_share tot2 n ss2 k = upto_share tot n ss k" for k
    using assms(1,6) by (simp add: upto_share_def)
  have "upto_share tot n ss 0 \<le> il" "il < upto_share tot n ss (length ss)"
    using upto_share_ends[OF assms(1,3), of n] assms(13) by simp_all
  then obtain k where k: "k < length ss" "upto_share tot n ss k \<le> il" "il < upto_share tot n ss (k + 1)"
    using share_found[of "upto_share tot n ss" il "length ss"] by blast
  show ?thesis using assign_ranges_all(4)[OF assms(1-5) k] assign_ranges_all(4)[OF assms(6-10), of k il] k u assms(11) by simp
qed

lemma layer_shares_nonneg: "s \<in> set (layer_shares cfg budget) \<Longrightarrow> 0 \<le> s"
  by (auto simp: layer_shares_def Let_def split: if_splits)

lemma or_primary_ok:
  fixes cfg :: "gpu_plan list" and budget :: "nat list"
  assumes "budget \<noteq> []"
  defines "sh \<equiv> or_primary (layer_shares cfg budget)"
  shows "length sh = length budget" "\<forall>s \<in> set sh. 0 \<le> s" "0 < sum_list sh"
    "(if sum_list (layer_shares cfg budget) \<le> 0 then 1 else sum_list (layer_shares cfg budget)) = sum_list sh"
proof -
  let ?ls = "layer_shares cfg budget"
  have nn: "\<forall>s \<in> set ?ls. 0 \<le> s" using layer_shares_nonneg by blast
  have len: "length ?ls = length budget" by (simp add: layer_shares_def Let_def)
  show "length sh = length budget" using len by (simp add: sh_def or_primary_def)
  show "\<forall>s \<in> set sh. 0 \<le> s" using nn by (auto simp: sh_def or_primary_def dest!: set_update_subset_insert[THEN subsetD])
  have one: "sum_list sh = 1" if "sum_list ?ls \<le> 0"
  proof -
    obtain x xs where x: "?ls = x # xs" using len assms(1) by (cases ?ls) auto
    have "0 \<le> sum_list xs" "0 \<le> x" using nn x by (auto intro: sum_list_nonneg)
    then have "sum_list xs = 0" using that x by simp
    then show ?thesis using that x by (simp add: sh_def or_primary_def)
  qed
  then show "0 < sum_list sh" by (cases "sum_list ?ls \<le> 0") (simp_all add: sh_def or_primary_def)
  show "(if sum_list ?ls \<le> 0 then 1 else sum_list ?ls) = sum_list sh" using one by (simp add: sh_def or_primary_def)
qed

lemma layers_of_cong: "(\<And>il. il < n \<Longrightarrow> dev ! il = dev' ! il) \<Longrightarrow> layers_of n dev d = layers_of n dev' d"
  unfolding layers_of_def by (intro arg_cong[of _ _ length] filter_cong) simp_all

definition final_shares :: "plan_input \<Rightarrow> rat list" where
  "final_shares inp = or_primary (layer_shares (pi_cfg_gpus inp) (pi_budget inp))"

lemma plan_layers_run:
  assumes "1 < length (pi_budget inp)"
  obtains dev where "assign_ranges (sum_list (final_shares inp)) (n_main (pi_hp inp)) (final_shares inp) 0 0 0 (replicate (hp_n_layer (pi_hp inp)) 0) = (dev, n_main (pi_hp inp))"
    "plan_layers inp = fill_range (n_main (pi_hp inp)) (hp_n_layer (pi_hp inp)) 0 dev" "length dev = hp_n_layer (pi_hp inp)"
proof -
  let ?hp = "pi_hp inp" and ?sh = "final_shares inp"
  have ne: "pi_budget inp \<noteq> []" using assms by auto
  note sh = or_primary_ok[OF ne, of "pi_cfg_gpus inp", folded final_shares_def]
  obtain dev st where r: "assign_ranges (sum_list ?sh) (n_main ?hp) ?sh 0 0 0 (replicate (hp_n_layer ?hp) 0) = (dev, st)" by (metis surj_pair)
  have nl: "n_main ?hp \<le> length (replicate (hp_n_layer ?hp) (0 :: nat))" by (simp add: n_main_def)
  note a = assign_ranges_all[OF sh(3,2) refl nl r]
  have "plan_layers inp = fill_range (n_main ?hp) (hp_n_layer ?hp) 0 (fill_range st (n_main ?hp) 0 dev)"
    using assms sh(4) r by (simp add: plan_layers_def Let_def final_shares_def)
  then show ?thesis using that r a(1,2) by (simp add: fill_range_def)
qed

subsection \<open>Properties\<close>

text \<open>
  C25. The layer plan for several devices: every layer has a device, the main layers are contiguous ranges in device order, and the
  draft blocks stay on the primary. A device computes its share of the main layers up to one layer, none if its
  share is 0, and exactly its share when the shares are whole and add up to the number of layers.
\<close>

theorem plan_layers_correct:
  assumes "1 < length (pi_budget inp)"
  shows "let ld = plan_layers inp; nm = n_main (pi_hp inp); sh = final_shares inp in
    length ld = hp_n_layer (pi_hp inp) \<and> (\<forall>il. il < length ld \<longrightarrow> ld ! il < length (pi_budget inp)) \<and>
    (\<forall>i j. i \<le> j \<and> j < nm \<longrightarrow> ld ! i \<le> ld ! j) \<and> (\<forall>il. nm \<le> il \<and> il < length ld \<longrightarrow> ld ! il = 0) \<and>
    (\<forall>d. d < length (pi_budget inp) \<longrightarrow> \<bar>of_nat (layers_of nm ld d) - sh ! d * of_nat nm / sum_list sh\<bar> \<le> 1 \<and>
      (sh ! d = 0 \<longrightarrow> layers_of nm ld d = 0) \<and>
      (0 < nm \<and> set sh \<subseteq> range of_nat \<and> sum_list sh = of_nat nm \<longrightarrow> of_nat (layers_of nm ld d) = sh ! d))"
proof -
  let ?nm = "n_main (pi_hp inp)" and ?sh = "final_shares inp" and ?nl = "hp_n_layer (pi_hp inp)"
  obtain dev where r: "assign_ranges (sum_list ?sh) ?nm ?sh 0 0 0 (replicate ?nl 0) = (dev, ?nm)"
    and ld: "plan_layers inp = fill_range ?nm ?nl 0 dev" and len: "length dev = ?nl" by (rule plan_layers_run[OF assms])
  have ne: "pi_budget inp \<noteq> []" using assms by auto
  note sh = or_primary_ok[OF ne, of "pi_cfg_gpus inp", folded final_shares_def]
  have nl: "?nm \<le> length (replicate ?nl (0 :: nat))" by (simp add: n_main_def)
  note R = ranges_correct[OF sh(3,2) refl nl r]
  have get: "plan_layers inp ! il = (if il < ?nm then dev ! il else 0)" if "il < ?nl" for il
    using that fill_range_nth[of ?nl dev ?nm 0 il] len ld by auto
  have cnt: "layers_of ?nm (plan_layers inp) d = layers_of ?nm dev d" for d
    using get nl by (intro layers_of_cong) simp
  have len': "length (plan_layers inp) = ?nl" using ld len by simp
  have exact: "of_nat (layers_of ?nm dev d) = ?sh ! d"
    if "d < length (pi_budget inp)" "0 < ?nm" "set ?sh \<subseteq> range of_nat" "sum_list ?sh = of_nat ?nm" for d
    by (rule ranges_exact[OF that(2) _ that(4) nl r[unfolded that(4)]]) (use that(1,3) sh(1) in auto)
  show ?thesis
    unfolding Let_def cnt len'
  proof (intro conjI allI impI; (elim conjE)?)
    show "il < ?nl \<Longrightarrow> plan_layers inp ! il < length (pi_budget inp)" for il using get[of il] R(1)[of il] sh(1) assms by auto
    show "plan_layers inp ! i \<le> plan_layers inp ! j" if "i \<le> j" "j < ?nm" for i j using get[of i] get[of j] R(2)[OF that] that nl by simp
    show "plan_layers inp ! il = 0" if "?nm \<le> il" "il < ?nl" for il using get[OF that(2)] that(1) by simp
    fix d assume d: "d < length (pi_budget inp)"
    show "\<bar>of_nat (layers_of ?nm dev d) - ?sh ! d * of_nat ?nm / sum_list ?sh\<bar> \<le> 1" using R(4)[of d] d sh(1) by simp
    show "?sh ! d = 0 \<Longrightarrow> layers_of ?nm dev d = 0" using R(5)[of d] d sh(1) by simp
  qed (use exact in simp_all)
qed

text \<open>A model of ten layers with one draft block on three devices; the second has no share: it is an expert pool.\<close>

definition ten_layers :: hparams where
  "ten_layers = tiny_hp\<lparr>hp_n_layer := 10, hp_nextn_predict_layers := 1\<rparr>"

definition three_gpus :: plan_input where
  "three_gpus = \<lparr>pi_hp = ten_layers, pi_weights = 9000000000, pi_experts = 6000000000, pi_has_experts = True, pi_n_ctx = 4096,
     pi_ngram_mode = ''disk'', pi_tier = Auto, pi_batch_env = None,
     pi_cfg_gpus = [\<lparr>gp_device = 0, gp_budget_mb = 3000, gp_split = 6\<rparr>, \<lparr>gp_device = 2, gp_budget_mb = 2000, gp_split = 0\<rparr>,
       \<lparr>gp_device = 1, gp_budget_mb = 1000, gp_split = 3\<rparr>],
     pi_budget = [3000 * MB, 2000 * MB, 1000 * MB], pi_free = [4000 * MB, 4000 * MB, 2000 * MB], pi_host_avail = 32000 * MB, pi_host_total = 64000 * MB\<rparr>"

theorem plan_layers_correct_witness:
  "map (layers_of 9 (plan_layers three_gpus)) [0, 1, 2] = [6, 0, 3]"
proof -
  have sh: "final_shares three_gpus = [6, 0, 3]" by (simp add: final_shares_def layer_shares_def or_primary_def three_gpus_def)
  have nm: "n_main (pi_hp three_gpus) = 9" by (simp add: n_main_def three_gpus_def ten_layers_def)
  have g: "1 < length (pi_budget three_gpus)" "length (pi_budget three_gpus) = 3" by (simp_all add: three_gpus_def)
  have whole: "set [6, 0, 3] \<subseteq> range (of_nat :: nat \<Rightarrow> rat)"
    using rangeI[of of_nat "6 :: nat"] rangeI[of of_nat "0 :: nat"] rangeI[of of_nat "3 :: nat"] by simp
  have "rat_of_nat (layers_of 9 (plan_layers three_gpus) d) = [6, 0, 3] ! d" if "d < 3" for d
    using plan_layers_correct[OF g(1)] whole that unfolding Let_def nm sh g(2) by simp
  from this[of 0] this[of 1] this[of 2]
  have "rat_of_nat (layers_of 9 (plan_layers three_gpus) 0) = of_nat 6" "rat_of_nat (layers_of 9 (plan_layers three_gpus) 1) = of_nat 0"
    "rat_of_nat (layers_of 9 (plan_layers three_gpus) 2) = of_nat 3" by simp_all
  then show ?thesis by (simp only: of_nat_eq_iff) simp
qed

text \<open>
  C26. The pool plan: every main layer's pool has a device; without offloading it is the layer's own. The room of a
  device is its budget less the caches of the layers it computes and less the compute headroom, 0 if that is
  negative. When there is room anywhere, the pools are contiguous ranges in device order, the number of pools on a
  device is within one of its part of the room, a device without room holds none, and when the room is
  in the same ratio as the shares of the layers, every pool is where its layer is, so that nothing crosses devices.
\<close>

theorem plan_pools_correct:
  assumes "1 < length (pi_budget inp)"
  shows "let ld = plan_layers inp; pd = plan_pools inp offl ld; nm = n_main (pi_hp inp); n = length (pi_budget inp);
      headroom = compute_headroom (pi_hp inp) (pi_batch_env inp);
      room = (\<lambda>d. max 0 (of_nat (pi_budget inp ! d) - of_nat (dev_kv inp ld d) - of_nat headroom) :: rat);
      all = (\<Sum>d \<leftarrow> [0..<n]. room d) in
    length pd = nm \<and> (\<forall>il. il < nm \<longrightarrow> pd ! il < n) \<and>
    (\<not> offl \<or> all = 0 \<longrightarrow> pd = take nm ld) \<and>
    (offl \<and> 0 < all \<longrightarrow>
      (\<forall>i j. i \<le> j \<and> j < nm \<longrightarrow> pd ! i \<le> pd ! j) \<and>
      (\<forall>d. d < n \<longrightarrow> \<bar>of_nat (layers_of nm pd d) - room d * of_nat nm / all\<bar> \<le> 1 \<and> (room d = 0 \<longrightarrow> layers_of nm pd d = 0)) \<and>
      ((\<forall>d. d < n \<longrightarrow> room d / all = final_shares inp ! d / sum_list (final_shares inp)) \<longrightarrow> pd = take nm ld))"
proof -
  let ?nm = "n_main (pi_hp inp)" and ?sh = "final_shares inp" and ?nl = "hp_n_layer (pi_hp inp)" and ?ld = "plan_layers inp"
  let ?sp = "map (surplus inp ?ld) [0..<length (pi_budget inp)]"
  obtain dev where r: "assign_ranges (sum_list ?sh) ?nm ?sh 0 0 0 (replicate ?nl 0) = (dev, ?nm)"
    and ld: "?ld = fill_range ?nm ?nl 0 dev" and len: "length dev = ?nl" by (rule plan_layers_run[OF assms])
  have ne: "pi_budget inp \<noteq> []" using assms by auto
  note sh = or_primary_ok[OF ne, of "pi_cfg_gpus inp", folded final_shares_def]
  have nl: "?nm \<le> length (replicate ?nl (0 :: nat))" "?nm \<le> ?nl" by (simp_all add: n_main_def)
  have get: "?ld ! il = dev ! il" if "il < ?nm" for il
    using that fill_range_nth[of ?nl dev ?nm 0 il] len ld nl(2) by auto
  have ll: "length ?ld = ?nl" using ld len by simp
  have own: "map (dev_of ?ld) [0..<?nm] = take ?nm ?ld"
    using ll nl(2) by (intro nth_equalityI) (auto simp: dev_of_def)
  have bound: "take ?nm ?ld ! il < length (pi_budget inp)" if "il < ?nm" for il
    using ranges_correct(1)[OF sh(3,2) refl nl(1) r that] get[OF that] that sh(1) by simp
  have lo: "length (take ?nm ?ld) = ?nm" using len ld nl(2) by simp
  have nn: "\<forall>s \<in> set ?sp. 0 \<le> s" by (auto simp: surplus_def Let_def)
  let ?room = "\<lambda>d. max 0 (of_nat (pi_budget inp ! d) - of_nat (dev_kv inp ?ld d) - of_nat (compute_headroom (pi_hp inp) (pi_batch_env inp))) :: rat"
  have room: "?room d = surplus inp ?ld d" for d by (auto simp: surplus_def Let_def of_nat_diff max_def)
  have flat: "plan_pools inp offl ?ld = take ?nm ?ld" if "\<not> offl \<or> sum_list ?sp = 0"
    using that own by (simp add: plan_pools_def Let_def)
  show ?thesis
  proof (cases "offl \<and> 0 < sum_list ?sp")
    case False
    then have "\<not> offl \<or> sum_list ?sp = 0" using sum_list_nonneg[of ?sp] nn by fastforce
    note pd = flat[OF this]
    show ?thesis unfolding Let_def room pd using lo bound False by auto
  next
    case True
    obtain pd st where p: "assign_ranges (sum_list ?sp) ?nm ?sp 0 0 0 (take ?nm ?ld) = (pd, st)" by (metis surj_pair)
    have t: "0 < sum_list ?sp" using True by simp
    have pl: "?nm \<le> length (take ?nm ?ld)" using lo by simp
    note A = assign_ranges_all[OF t nn refl pl p] and R = ranges_correct[OF t nn refl pl p]
    have e: "plan_pools inp offl ?ld = pd"
      using True assms own p A(1) by (simp add: plan_pools_def Let_def fill_range_def)
    have same: "pd = take ?nm ?ld" if "\<forall>d. d < length ?sp \<longrightarrow> ?sp ! d / sum_list ?sp = ?sh ! d / sum_list ?sh"
    proof (rule nth_equalityI)
      show "length pd = length (take ?nm ?ld)" using A(2) .
      fix il assume "il < length pd"
      then have il: "il < ?nm" using A(2) lo by simp
      have "length ?sp = length ?sh" "\<forall>d < length ?sh. ?sp ! d / sum_list ?sp = ?sh ! d / sum_list ?sh" using that sh(1) by simp_all
      then show "pd ! il = take ?nm ?ld ! il" using ranges_cong[OF sh(3,2) refl nl(1) r t nn refl pl p _ _ il] get[OF il] il by simp
    qed
    show ?thesis
      unfolding Let_def room e using True lo A(2) R(1) R(2) R(4) R(5) same by auto
  qed
qed

theorem plan_pools_correct_witness:
  "length (plan_pools three_gpus True (plan_layers three_gpus)) = 9 \<and> plan_pools three_gpus True (plan_layers three_gpus) ! 8 < 3"
proof -
  have g: "1 < length (pi_budget three_gpus)" "length (pi_budget three_gpus) = 3" by (simp_all add: three_gpus_def)
  have nm: "n_main (pi_hp three_gpus) = 9" by (simp add: n_main_def three_gpus_def ten_layers_def)
  show ?thesis using plan_pools_correct[OF g(1), of True] unfolding Let_def nm g(2) by auto
qed


definition small_machine :: plan_input where
  "small_machine = three_gpus\<lparr>pi_hp := tiny_hp, pi_n_ctx := 4\<rparr>"


text \<open>
  The command line's plan: when several devices are asked for, an accepted plan lists, in order, exactly the devices whose
  budget is not 0, at least one, each with its own budget and share; no device with a positive share is
  dropped, every list given names all of them, and different devices stay different. It is refused exactly when the lists disagree in length,
  a device that is turned off has a share, or none is left.
\<close>

theorem build_gpu_plan_correct:
  assumes "build_gpu_plan np ids split given mb = (ok, out)" "ids \<noteq> [] \<or> given \<or> 1 < length mb"
  shows "let n = plan_size np ids split given mb; es = map (plan_entry ids split mb) [0..<n];
      agree = (\<forall>l \<in> {length mb, length split, length ids}. l = 0 \<or> l = n) in
    (n = 0 \<longrightarrow> ok \<and> out = []) \<and>
    (0 < n \<longrightarrow> ok = (agree \<and> (\<forall>p \<in> set es. gp_budget_mb p = 0 \<longrightarrow> gp_split p \<le> 0) \<and> (\<exists>p \<in> set es. gp_budget_mb p \<noteq> 0))) \<and>
    (0 < n \<and> ok \<longrightarrow> out = filter (\<lambda>p. gp_budget_mb p \<noteq> 0) es \<and> out \<noteq> [] \<and> (\<forall>p \<in> set es. 0 < gp_split p \<longrightarrow> p \<in> set out) \<and>
      (distinct ids \<longrightarrow> distinct (map gp_device out)))"
proof -
  define n where "n = plan_size np ids split given mb"
  define es where "es = map (plan_entry ids split mb) [0..<n]"
  define agree where "agree = (\<forall>l \<in> {length mb, length split, length ids}. l = 0 \<or> l = n)"
  have col: "collect_plan ps acc = (ok', out') \<Longrightarrow>
      ok' = ((\<forall>p \<in> set ps. gp_budget_mb p = 0 \<longrightarrow> gp_split p \<le> 0) \<and> (acc \<noteq> [] \<or> (\<exists>p \<in> set ps. gp_budget_mb p \<noteq> 0))) \<and>
      (ok' \<longrightarrow> out' = acc @ filter (\<lambda>p. gp_budget_mb p \<noteq> 0) ps)" for ps acc ok' out'
    by (induction ps acc rule: collect_plan.induct) (auto split: if_splits)
  have e: "build_gpu_plan np ids split given mb = (if n = 0 then (True, []) else if \<not> agree then (False, []) else collect_plan es [])"
    using assms(2) by (auto simp: build_gpu_plan_def Let_def n_def[symmetric] es_def agree_def)
  have z: "ok \<and> out = []" if "n = 0" using that e assms(1) by simp
  have ok: "ok = (agree \<and> (\<forall>p \<in> set es. gp_budget_mb p = 0 \<longrightarrow> gp_split p \<le> 0) \<and> (\<exists>p \<in> set es. gp_budget_mb p \<noteq> 0))" if "0 < n"
    using that e assms(1) col[of es "[]" ok out] by (cases agree) auto
  have out: "out = filter (\<lambda>p. gp_budget_mb p \<noteq> 0) es" "agree" if "0 < n" "ok"
    using that e assms(1) col[of es "[]" ok out] by (cases agree; auto)+
  have dist: "distinct (map gp_device out)" if "0 < n" "ok" "distinct ids"
  proof -
    have "inj_on (\<lambda>i. gp_device (plan_entry ids split mb i)) {0..<n}"
      using out(2)[OF that(1,2)] that(3) by (auto simp: inj_on_def plan_entry_def agree_def nth_eq_iff_index_eq)
    then have "distinct (map gp_device es)" by (simp add: es_def distinct_map o_def)
    then show ?thesis unfolding out(1)[OF that(1,2)] by (rule distinct_map_filter)
  qed
  have pos: "p \<in> set out" if "0 < n" "ok" "p \<in> set es" "0 < gp_split p" for p
    using that ok[OF that(1)] out(1)[OF that(1,2)] by force
  have ne: "out \<noteq> []" if "0 < n" "ok" using that ok[OF that(1)] out(1)[OF that] by (auto simp: filter_empty_conv)
  show ?thesis
    unfolding Let_def n_def[symmetric] es_def[symmetric] agree_def[symmetric]
    using z ok out(1) dist pos ne by blast
qed

theorem build_gpu_plan_correct_witness:
  "build_gpu_plan 4 [1, 0] [4 / 5, 0] True [5120, 0] = (True, [\<lparr>gp_device = 1, gp_budget_mb = 5120, gp_split = 4 / 5\<rparr>])"
proof -
  obtain ok out where b: "build_gpu_plan 4 [1, 0] [4 / 5, 0] True [5120, 0] = (ok, out)" by (metis surj_pair)
  have n: "plan_size 4 [1, 0] [4 / 5, 0] True [5120, 0] = 2" by (simp add: plan_size_def)
  have es: "map (plan_entry [1, 0] [4 / 5, 0] [5120, 0]) [0..<2] =
      [\<lparr>gp_device = 1, gp_budget_mb = 5120, gp_split = 4 / 5\<rparr>, \<lparr>gp_device = 0, gp_budget_mb = 0, gp_split = 0\<rparr>]"
    by (simp add: plan_entry_def numeral_2_eq_2)
  show ?thesis using build_gpu_plan_correct[OF b] unfolding Let_def n es by (simp add: b)
qed

end
