(* ===== verification/Weights.thy ===== *)
theory Weights
  imports Model_Load Device_Plan
begin

section \<open>Placing and loading the weights\<close>

text \<open>
  The rest of \<open>core/model.cpp\<close>: which tensors are routed experts, how many bytes the weights take, how tensors are cut into
  buffers, which device a tensor goes to, and \<open>load_weights\<close>, \<open>load_weights_multi\<close>, \<open>load_weights_split\<close> and \<open>load_weights_ssd\<close>.

  The tensor library is a parameter: the padded size of a tensor in a place, the largest buffer of a place, whether the next buffer can
  be had, whether the primary looks up rows of a type, and the conversion of the token embedding to the fallback type. Tensors whose
  padded sizes add up to the size of a buffer are taken to fit into it. What is loaded is the list of buffers of each place, with their tensors,
  and the bytes set for each tensor. Progress output and the sizes in messages are left out.
\<close>

subsection \<open>Which tensors are experts\<close>

definition is_expert_tensor :: "string \<Rightarrow> bool" where
  "is_expert_tensor name \<longleftrightarrow> str_find name ''ffn_gate_exps'' 0 \<noteq> None \<or> str_find name ''ffn_up_exps'' 0 \<noteq> None \<or>
     str_find name ''ffn_down_exps'' 0 \<noteq> None"

definition has_expert_tensors :: "tensors \<Rightarrow> bool" where
  "has_expert_tensors ts = list_ex (\<lambda>(nm, t). is_expert_tensor nm) ts"

text \<open>\<open>sscanf(name, "blk.%d.", &blk) == 1\<close>; numbers beyond the range of \<open>int\<close> are undefined in the code and not cast here.\<close>

definition scan_blk :: "string \<Rightarrow> int option" where
  "scan_blk name =
     (if prefix ''blk.'' name then case strtol (drop 4 name) of (v, rest) \<Rightarrow> if rest = drop 4 name then None else Some v else None)"

definition is_offloaded_expert :: "model_hparams \<Rightarrow> bool \<Rightarrow> string \<Rightarrow> bool" where
  "is_offloaded_expert m keep_nextn name =
     (if \<not> is_expert_tensor name then False
      else if keep_nextn then (case scan_blk name of Some blk \<Rightarrow> \<not> int (n_main (mh_hp m)) \<le> blk | None \<Rightarrow> True)
      else True)"

definition offloaded_expert_bytes :: "model_hparams \<Rightarrow> bool \<Rightarrow> tensors \<Rightarrow> nat" where
  "offloaded_expert_bytes m keep ts = sum_list (map (\<lambda>(nm, t). if is_offloaded_expert m keep nm then wt_nbytes t else 0) ts)"

subsection \<open>Bytes of the weights\<close>

definition GGML_F32 :: nat where "GGML_F32 = 0"
definition GGML_F16 :: nat where "GGML_F16 = 1"
definition GGML_Q8_0 :: nat where "GGML_Q8_0 = 8"

definition need_embd_fallback :: "(nat \<Rightarrow> bool) \<Rightarrow> wtensor option \<Rightarrow> bool" where
  "need_embd_fallback rows_ok te =
     (case te of None \<Rightarrow> False | Some t \<Rightarrow> wt_type t \<noteq> GGML_F32 \<and> wt_type t \<noteq> GGML_F16 \<and> \<not> rows_ok (wt_type t))"

text \<open>The copy of the token embedding in the fallback type.\<close>

definition TOKEN_EMBD :: string where "TOKEN_EMBD = ''token_embd.weight''"

definition embd_copy :: "(nat \<Rightarrow> nat \<Rightarrow> nat) \<Rightarrow> bool \<Rightarrow> wtensor \<Rightarrow> wtensor" where
  "embd_copy row_size embd_q8 te =
     (let ty = (if embd_q8 then GGML_Q8_0 else GGML_F16)
      in \<lparr>wt_type = ty, wt_ne0 = wt_ne0 te, wt_ne1 = wt_ne1 te, wt_nbytes = row_size ty (wt_ne0 te) * wt_ne1 te\<rparr>)"

definition weight_bytes :: "(nat \<Rightarrow> bool) \<Rightarrow> (nat \<Rightarrow> nat \<Rightarrow> nat) \<Rightarrow> bool \<Rightarrow> tensors \<Rightarrow> nat" where
  "weight_bytes rows_ok row_size embd_q8 ts =
     (let n = sum_list (map (\<lambda>(nm, t). wt_nbytes t) ts); te = map_of ts TOKEN_EMBD
      in if need_embd_fallback rows_ok te
         then n + row_size (if embd_q8 then GGML_Q8_0 else GGML_F16) (wt_ne0 (the te)) * wt_ne1 (the te) else n)"

subsection \<open>Cutting tensors into buffers\<close>

text \<open>The tensors that still fit into a buffer that holds \<open>sz\<close> bytes, and the rest.\<close>

fun fill_buffer :: "('t \<Rightarrow> nat) \<Rightarrow> nat \<Rightarrow> nat \<Rightarrow> 't list \<Rightarrow> 't list \<times> 't list" where
  "fill_buffer pad cap sz [] = ([], [])"
| "fill_buffer pad cap sz (t # ts) =
     (if cap < sz + pad t then ([], t # ts)
      else case fill_buffer pad cap (sz + pad t) ts of (a, b) \<Rightarrow> (t # a, b))"

lemma fill_buffer_append: "fill_buffer pad cap sz ts = (a, b) \<Longrightarrow> a @ b = ts"
  by (induction pad cap sz ts arbitrary: a b rule: fill_buffer.induct) (auto split: if_splits prod.splits)

text \<open>The groups of \<open>alloc_tensors_chunked\<close>: every buffer takes its first tensor, whatever the cap.\<close>

function buffers :: "('t \<Rightarrow> nat) \<Rightarrow> nat \<Rightarrow> 't list \<Rightarrow> 't list list" where
  "buffers pad cap [] = []"
| "buffers pad cap (t # ts) = (case fill_buffer pad cap (pad t) ts of (a, b) \<Rightarrow> (t # a) # buffers pad cap b)"
  by pat_completeness auto
termination
  by (relation "measure (\<lambda>(pad, cap, ts). length ts)") (auto dest: fill_buffer_append[OF sym])

definition total_size :: "('t \<Rightarrow> nat) \<Rightarrow> 't list \<Rightarrow> nat" where
  "total_size pad g = sum_list (map pad g)"

text \<open>The size that is asked for.\<close>

definition buffer_size :: "('t \<Rightarrow> nat) \<Rightarrow> 't list \<Rightarrow> nat" where
  "buffer_size pad g = (if 0 < total_size pad g then total_size pad g else 1)"

text \<open>The cap, which \<open>QWEN_MAX_BUFFER_MB\<close> can lower.\<close>

definition env_cap :: "nat option \<Rightarrow> nat \<Rightarrow> nat" where
  "env_cap mb cap = (case mb of None \<Rightarrow> cap | Some v \<Rightarrow> if 0 < v then min cap (v * 1024 * 1024 mod 2 ^ 64) else cap)"

text \<open>Allocating one buffer after the other; the library's answer may depend on the sizes it has given out before.\<close>

fun alloc_all :: "(nat list \<Rightarrow> nat \<Rightarrow> bool) \<Rightarrow> nat list \<Rightarrow> nat list \<Rightarrow> bool" where
  "alloc_all alloc given [] = True"
| "alloc_all alloc given (s # ss) = (alloc given s \<and> alloc_all alloc (given @ [s]) ss)"

definition alloc_tensors_chunked :: "(nat list \<Rightarrow> nat \<Rightarrow> bool) \<Rightarrow> ('t \<Rightarrow> nat) \<Rightarrow> nat option \<Rightarrow> nat \<Rightarrow> string \<Rightarrow> 't list \<Rightarrow> exn + 't list list" where
  "alloc_tensors_chunked alloc pad env cap what ts =
     (let bs = buffers pad (env_cap env cap) ts in
      if alloc_all alloc [] (map (buffer_size pad) bs) then Inr bs else Inl (Runtime_error (''failed to allocate '' @ what)))"

subsection \<open>Devices\<close>

record device_plan =
  pl_n_dev :: nat
  pl_layer_dev :: "nat list"
  pl_pool_dev :: "nat list"

definition dev_of_name :: "device_plan \<Rightarrow> string \<Rightarrow> nat" where
  "dev_of_name p name =
     (let ds = takeWhile isdigit (drop 4 name) in
      if \<not> prefix ''blk.'' name \<or> ds = [] then 0
      else
        let il = digits_val ds;
            m = (if str_find name ''_shexp'' 0 \<noteq> None \<and> pl_pool_dev p \<noteq> [] then pl_pool_dev p else pl_layer_dev p)
        in if length m \<le> il then 0 else if m ! il < pl_n_dev p then m ! il else 0)"

subsection \<open>Loading\<close>

datatype place = Dev nat | Host

text \<open>What the sources use of the tensor library.\<close>

record gpu_lib =
  gl_rows_ok :: "nat \<Rightarrow> bool"
  gl_row_size :: "nat \<Rightarrow> nat \<Rightarrow> nat"
  gl_pad :: "place \<Rightarrow> wtensor \<Rightarrow> nat"
  gl_max :: "place \<Rightarrow> nat"
  gl_alloc :: "place \<Rightarrow> nat list \<Rightarrow> nat \<Rightarrow> bool"
  gl_convert :: "wtensor \<Rightarrow> wtensor \<Rightarrow> byte list \<Rightarrow> byte list"
  gl_env_mb :: "nat option"

text \<open>The options set before loading, and what is loaded.\<close>

record load_opts =
  lo_keep_nextn :: bool
  lo_embd_q8 :: bool

record loaded =
  lw_dev :: "tensors list list"
  lw_host :: "tensors list"
  lw_data :: "string \<Rightarrow> byte list option"
  lw_embd :: "(wtensor \<times> byte list) option"
  lw_dev_bytes :: "nat list"

text \<open>The copy of the token embedding, when it is needed, with its name.\<close>

definition embd_part :: "gpu_lib \<Rightarrow> load_opts \<Rightarrow> model \<Rightarrow> tensors" where
  "embd_part lib opt m =
     (if need_embd_fallback (gl_rows_ok lib) (tensor_of m TOKEN_EMBD)
      then [(if lo_embd_q8 opt then ''token_embd.q8_0'' else ''token_embd.f16'',
             embd_copy (gl_row_size lib) (lo_embd_q8 opt) (the (tensor_of m TOKEN_EMBD)))]
      else [])"

text \<open>Reading the tensors in order, without those that stay on disk; with the embedding, its copy is filled.\<close>

fun load_data :: "gpu_lib \<Rightarrow> model \<Rightarrow> (string \<Rightarrow> byte list option) \<Rightarrow> (string \<Rightarrow> bool) \<Rightarrow> tensors \<Rightarrow> tensors \<Rightarrow>
    (string \<Rightarrow> byte list option) \<times> (wtensor \<times> byte list) option \<Rightarrow> exn + (string \<Rightarrow> byte list option) \<times> (wtensor \<times> byte list) option" where
  "load_data lib m files skip ec [] acc = Inr acc"
| "load_data lib m files skip ec ((nm, t) # ts) acc =
     (if skip nm then load_data lib m files skip ec ts acc
      else case read_tensor_bytes m files nm (wt_nbytes t) of
          Inl e \<Rightarrow> Inl e
        | Inr bs \<Rightarrow> load_data lib m files skip ec ts
            ((fst acc)(nm \<mapsto> bs), if ec \<noteq> [] \<and> nm = TOKEN_EMBD then Some (snd (hd ec), gl_convert lib t (snd (hd ec)) bs) else snd acc))"

text \<open>The tensors of each device, the copy with the primary; and their buffers, device by device.\<close>

definition device_groups :: "nat \<Rightarrow> (string \<Rightarrow> nat) \<Rightarrow> tensors \<Rightarrow> tensors \<Rightarrow> tensors list" where
  "device_groups n_dev dev ec ts = map (\<lambda>d. filter (\<lambda>(nm, t). dev nm = d) ts @ (if d = 0 then ec else [])) [0..<n_dev]"

fun alloc_devices :: "gpu_lib \<Rightarrow> string \<Rightarrow> nat \<Rightarrow> tensors list \<Rightarrow> exn + tensors list list" where
  "alloc_devices lib what d [] = Inr []"
| "alloc_devices lib what d (g # gs) =
     (case alloc_tensors_chunked (gl_alloc lib (Dev d)) (\<lambda>(nm, t). gl_pad lib (Dev d) t) (gl_env_mb lib) (gl_max lib (Dev d)) what g of
        Inl e \<Rightarrow> Inl e
      | Inr bs \<Rightarrow> (case alloc_devices lib what (d + 1) gs of Inl e \<Rightarrow> Inl e | Inr r \<Rightarrow> Inr (bs # r)))"

definition dev_bytes :: "gpu_lib \<Rightarrow> tensors list list \<Rightarrow> nat list" where
  "dev_bytes lib bss = map (\<lambda>d. sum_list (map (buffer_size (\<lambda>(nm, t). gl_pad lib (Dev d) t)) (bss ! d))) [0..<length bss]"

text \<open>With more than one device the plan places the tensors, otherwise all are on the primary.\<close>

definition n_devices :: "device_plan option \<Rightarrow> nat" where
  "n_devices plan = (case plan of Some p \<Rightarrow> if 1 < pl_n_dev p then pl_n_dev p else 1 | None \<Rightarrow> 1)"

definition place_of :: "device_plan option \<Rightarrow> string \<Rightarrow> nat" where
  "place_of plan name = (if 1 < n_devices plan then dev_of_name (the plan) name else 0)"

definition load_weights_multi :: "gpu_lib \<Rightarrow> load_opts \<Rightarrow> (string \<Rightarrow> byte list option) \<Rightarrow> model \<Rightarrow> device_plan \<Rightarrow> exn + loaded" where
  "load_weights_multi lib opt files m p =
     (if pl_n_dev p = 0 then Inl (Runtime_error ''load_weights_multi: empty device plan'')
      else let ec = embd_part lib opt m in
        (case alloc_devices lib ''weights'' 0 (device_groups (pl_n_dev p) (dev_of_name p) ec (md_tensors m)) of
           Inl e \<Rightarrow> Inl e
         | Inr bss \<Rightarrow>
             (case load_data lib m files (\<lambda>_. False) ec (md_tensors m) (\<lambda>_. None, None) of
                Inl e \<Rightarrow> Inl e
              | Inr (dat, em) \<Rightarrow> Inr \<lparr>lw_dev = bss, lw_host = [], lw_data = dat, lw_embd = em, lw_dev_bytes = dev_bytes lib bss\<rparr>)))"

definition CHUNK :: nat where "CHUNK = 8 * 1024 * 1024 * 1024"

definition load_weights_split :: "gpu_lib \<Rightarrow> load_opts \<Rightarrow> (string \<Rightarrow> byte list option) \<Rightarrow> model \<Rightarrow> device_plan option \<Rightarrow> exn + loaded" where
  "load_weights_split lib opt files m plan =
     (let ec = embd_part lib opt m; off = (\<lambda>nm. is_offloaded_expert (md_hp m) (lo_keep_nextn opt) nm) in
      case alloc_devices lib ''weights (split mode)'' 0
          (device_groups (n_devices plan) (place_of plan) ec (filter (\<lambda>(nm, t). \<not> off nm) (md_tensors m))) of
        Inl e \<Rightarrow> Inl e
      | Inr bss \<Rightarrow>
          (case alloc_tensors_chunked (gl_alloc lib Host) (\<lambda>(nm, t). gl_pad lib Host t) (gl_env_mb lib) (min CHUNK (gl_max lib Host))
              ''cpu expert weights'' (filter (\<lambda>(nm, t). off nm) (md_tensors m)) of
             Inl e \<Rightarrow> Inl e
           | Inr hs \<Rightarrow>
               (case load_data lib m files (\<lambda>_. False) ec (md_tensors m) (\<lambda>_. None, None) of
                  Inl e \<Rightarrow> Inl e
                | Inr (dat, em) \<Rightarrow> Inr \<lparr>lw_dev = bss, lw_host = hs, lw_data = dat, lw_embd = em, lw_dev_bytes = dev_bytes lib bss\<rparr>)))"

definition load_weights_ssd :: "gpu_lib \<Rightarrow> load_opts \<Rightarrow> (string \<Rightarrow> byte list option) \<Rightarrow> model \<Rightarrow> device_plan option \<Rightarrow> exn + loaded" where
  "load_weights_ssd lib opt files m plan =
     (let ec = embd_part lib opt m; off = (\<lambda>nm. is_offloaded_expert (md_hp m) (lo_keep_nextn opt) nm) in
      case alloc_devices lib ''weights (ssd mode)'' 0
          (device_groups (n_devices plan) (place_of plan) ec (filter (\<lambda>(nm, t). \<not> off nm) (md_tensors m))) of
        Inl e \<Rightarrow> Inl e
      | Inr bss \<Rightarrow>
          (case load_data lib m files off ec (md_tensors m) (\<lambda>_. None, None) of
             Inl e \<Rightarrow> Inl e
           | Inr (dat, em) \<Rightarrow> Inr \<lparr>lw_dev = bss, lw_host = [], lw_data = dat, lw_embd = em, lw_dev_bytes = dev_bytes lib bss\<rparr>))"

text \<open>\<open>load_weights\<close>: one device, one buffer, one more for the copy.\<close>

definition load_weights :: "gpu_lib \<Rightarrow> load_opts \<Rightarrow> (string \<Rightarrow> byte list option) \<Rightarrow> model \<Rightarrow> exn + loaded" where
  "load_weights lib opt files m =
     (let ec = embd_part lib opt m; pad = (\<lambda>(nm, t). gl_pad lib (Dev 0) t); w = buffer_size pad (md_tensors m) in
      if \<not> gl_alloc lib (Dev 0) [] w then Inl (Runtime_error ''failed to allocate the model weights'')
      else if ec \<noteq> [] \<and> \<not> gl_alloc lib (Dev 0) [w] (buffer_size pad ec) then Inl (Runtime_error ''failed to allocate the token embedding fallback copy'')
      else (case load_data lib m files (\<lambda>_. False) ec (md_tensors m) (\<lambda>_. None, None) of
              Inl e \<Rightarrow> Inl e
            | Inr (dat, em) \<Rightarrow>
                Inr \<lparr>lw_dev = [md_tensors m # (if ec = [] then [] else [ec])], lw_host = [], lw_data = dat, lw_embd = em, lw_dev_bytes = []\<rparr>))"

subsection \<open>Buffers\<close>

text \<open>A group of tensors that may share a buffer.\<close>

definition fits :: "('t \<Rightarrow> nat) \<Rightarrow> nat \<Rightarrow> 't list \<Rightarrow> bool" where
  "fits pad cap g \<longleftrightarrow> g \<noteq> [] \<and> (total_size pad g \<le> cap \<or> length g = 1)"

lemma fill_buffer_fits: "fill_buffer pad cap sz ts = (a, b) \<Longrightarrow> a = [] \<or> sz + total_size pad a \<le> cap"
  by (induction pad cap sz ts arbitrary: a b rule: fill_buffer.induct) (fastforce simp: total_size_def split: if_splits prod.splits)+

lemma fill_buffer_greedy:
  "fill_buffer pad cap sz (y @ r) = (a, b) \<Longrightarrow> sz + total_size pad y \<le> cap \<Longrightarrow> \<exists>z. a = y @ z \<and> r = z @ b"
proof (induction y arbitrary: sz a b)
  case Nil
  then show ?case using fill_buffer_append[of pad cap sz r a b] by simp
next
  case (Cons t y)
  have "\<not> cap < sz + pad t" using Cons.prems(2) by (simp add: total_size_def)
  then obtain a' where a': "fill_buffer pad cap (sz + pad t) (y @ r) = (a', b)" "a = t # a'"
    using Cons.prems(1) by (auto split: prod.splits)
  have "sz + pad t + total_size pad y \<le> cap" using Cons.prems(2) by (simp add: total_size_def)
  from Cons.IH[OF a'(1) this] show ?case using a'(2) by simp
qed

lemma buffers_cut: "concat (buffers pad cap ts) = ts \<and> (\<forall>g \<in> set (buffers pad cap ts). fits pad cap g)"
proof (induction pad cap ts rule: buffers.induct)
  case (2 pad cap t ts)
  obtain a b where ab: "fill_buffer pad cap (pad t) ts = (a, b)" by (metis surj_pair)
  have "fits pad cap (t # a)" using fill_buffer_fits[OF ab] by (auto simp: fits_def total_size_def)
  then show ?case using "2.IH"[OF ab[symmetric]] fill_buffer_append[OF ab] ab by simp
qed simp

lemma fits_suffix: "fits pad cap (x @ y) \<Longrightarrow> y \<noteq> [] \<Longrightarrow> fits pad cap y"
  by (cases x) (auto simp: fits_def total_size_def)

text \<open>Whatever the way the tensors are cut, a greedy run that is further ahead needs no more buffers for the rest.\<close>

lemma buffers_least:
  "concat bs = x @ ts \<Longrightarrow> \<forall>g \<in> set bs. fits pad cap g \<Longrightarrow> length (buffers pad cap ts) \<le> length bs"
proof (induction bs arbitrary: x ts)
  case (Cons g gs)
  have c: "g @ concat gs = x @ ts" and fg: "\<forall>g \<in> set gs. fits pad cap g" using Cons.prems by simp_all
  show ?case
  proof (cases "\<exists>x'. x = g @ x'")
    case True
    then obtain x' where "concat gs = x' @ ts" using c by auto
    from Cons.IH[OF this fg] show ?thesis by simp
  next
    case False
    then obtain y where y: "g = x @ y" "ts = y @ concat gs" "y \<noteq> []"
      using c by (auto simp: append_eq_append_conv2)
    then obtain t y' where t: "y = t # y'" by (cases y) auto
    have "fits pad cap y" using Cons.prems(2) y fits_suffix by auto
    then have small: "y' = [] \<or> pad t + total_size pad y' \<le> cap" by (auto simp: fits_def t total_size_def)
    obtain a b where ab: "fill_buffer pad cap (pad t) (y' @ concat gs) = (a, b)" by (metis surj_pair)
    have "\<exists>z. a = y' @ z \<and> concat gs = z @ b"
    proof (cases "y' = []")
      case True
      then show ?thesis using fill_buffer_append[OF ab] by simp
    next
      case False
      then show ?thesis using fill_buffer_greedy[OF ab] small by simp
    qed
    then obtain z where "concat gs = z @ b" by blast
    from Cons.IH[OF this fg] show ?thesis using y(2) t ab by simp
  qed
qed simp

text \<open>
  C28. The buffers of \<open>alloc_tensors_chunked\<close> hold the tensors in order and each of them once; none is empty, and none exceeds the cap unless
  it holds a single tensor. No other way of cutting the tensors within the cap takes fewer buffers.
\<close>

theorem buffers_optimal:
  assumes "alloc_tensors_chunked alloc pad env cap what ts = Inr bs"
  shows "concat bs = ts \<and> (\<forall>g \<in> set bs. fits pad (env_cap env cap) g) \<and>
    (\<forall>bs'. concat bs' = ts \<and> (\<forall>g \<in> set bs'. fits pad (env_cap env cap) g) \<longrightarrow> length bs \<le> length bs')"
proof -
  have bs: "bs = buffers pad (env_cap env cap) ts"
    using assms by (simp add: alloc_tensors_chunked_def Let_def split: if_splits)
  show ?thesis
    unfolding bs using buffers_cut[of pad "env_cap env cap" ts] buffers_least[where x = "[]" and ts = ts] by auto
qed

theorem buffers_optimal_witness:
  "alloc_tensors_chunked (\<lambda>given s. s \<le> 20) (\<lambda>t. t) None 10 ''w'' [4, 5, 3, 12, 6, 4] = Inr [[4, 5], [3], [12], [6, 4 :: nat]] \<and>
   length [[4, 5], [3], [12], [6, 4 :: nat]] \<le> length [[4], [5, 3], [12], [6], [4 :: nat]]"
proof -
  have r: "alloc_tensors_chunked (\<lambda>given s. s \<le> 20) (\<lambda>t. t) None 10 ''w'' [4, 5, 3, 12, 6, 4] = Inr [[4, 5], [3], [12], [6, 4 :: nat]]"
    by (simp add: alloc_tensors_chunked_def env_cap_def buffer_size_def total_size_def)
  have c: "concat [[4], [5, 3], [12], [6], [4 :: nat]] = [4, 5, 3, 12, 6, 4]"
    "\<forall>g \<in> set [[4], [5, 3], [12], [6], [4 :: nat]]. fits (\<lambda>t. t) (env_cap None 10) g"
    by (simp_all add: env_cap_def fits_def total_size_def)
  show ?thesis using buffers_optimal[OF r] c r by blast
qed

subsection \<open>Placement and data\<close>

lemma alloc_devices_Inr:
  "alloc_devices lib what d gs = Inr bss \<Longrightarrow> length bss = length gs \<and>
     (\<forall>i < length gs. concat (bss ! i) = gs ! i \<and>
        (\<forall>g \<in> set (bss ! i). fits (\<lambda>(nm, t). gl_pad lib (Dev (d + i)) t) (env_cap (gl_env_mb lib) (gl_max lib (Dev (d + i)))) g))"
proof (induction lib what d gs arbitrary: bss rule: alloc_devices.induct)
  case (2 lib what d g gs)
  let ?pad = "\<lambda>(nm, t). gl_pad lib (Dev d) t" and ?cap = "env_cap (gl_env_mb lib) (gl_max lib (Dev d))"
  obtain bs r where bs: "alloc_tensors_chunked (gl_alloc lib (Dev d)) ?pad (gl_env_mb lib) (gl_max lib (Dev d)) what g = Inr bs"
    and r: "alloc_devices lib what (d + 1) gs = Inr r" and bss: "bss = bs # r"
    using "2.prems" by (auto split: sum.splits)
  have "bs = buffers ?pad ?cap g" using bs by (simp add: alloc_tensors_chunked_def Let_def split: if_splits)
  then have b: "concat bs = g \<and> (\<forall>x \<in> set bs. fits ?pad ?cap x)" using buffers_cut[of ?pad ?cap g] by simp
  note IH = "2.IH"[OF bs r]
  show ?case using b IH by (auto simp: bss nth_Cons split: nat.splits)
qed simp

lemma device_groups_nth:
  "i < n \<Longrightarrow> device_groups n dev ec ts ! i = filter (\<lambda>(nm, t). dev nm = i) ts @ (if i = 0 then ec else [])"
  by (simp add: device_groups_def)

lemma dev_of_name_less: "0 < pl_n_dev p \<Longrightarrow> dev_of_name p name < pl_n_dev p"
  by (simp add: dev_of_name_def Let_def)

lemma place_of_less: "place_of plan name < n_devices plan"
  using dev_of_name_less by (auto simp: place_of_def n_devices_def split: option.splits)

lemma load_data_Inr:
  assumes "load_data lib m files skip ec ts acc = Inr (dat, em)" "distinct (map fst ts)"
  shows "(\<forall>nm. nm \<notin> fst ` set ts \<or> skip nm \<longrightarrow> dat nm = fst acc nm) \<and>
    (\<forall>nm t. (nm, t) \<in> set ts \<and> \<not> skip nm \<longrightarrow> (\<exists>bs. read_tensor_bytes m files nm (wt_nbytes t) = Inr bs \<and> dat nm = Some bs)) \<and>
    (ec = [] \<or> TOKEN_EMBD \<notin> fst ` set ts \<or> skip TOKEN_EMBD \<longrightarrow> em = snd acc) \<and>
    (\<forall>t. ec \<noteq> [] \<and> (TOKEN_EMBD, t) \<in> set ts \<and> \<not> skip TOKEN_EMBD \<longrightarrow>
      em = Some (snd (hd ec), gl_convert lib t (snd (hd ec)) (the (dat TOKEN_EMBD))))"
  using assms
proof (induction lib m files skip ec ts acc rule: load_data.induct)
  case (2 lib m files skip ec nm t ts acc)
  have nm: "nm \<notin> fst ` set ts" "distinct (map fst ts)" using "2.prems"(2) by auto
  show ?case
  proof (cases "skip nm")
    case True
    then have r: "load_data lib m files skip ec ts acc = Inr (dat, em)" using "2.prems"(1) by simp
    show ?thesis using "2.IH"(1)[OF True r nm(2)] True by auto
  next
    case ns: False
    then obtain bs where bs: "read_tensor_bytes m files nm (wt_nbytes t) = Inr bs"
      and r: "load_data lib m files skip ec ts ((fst acc)(nm \<mapsto> bs),
        if ec \<noteq> [] \<and> nm = TOKEN_EMBD then Some (snd (hd ec), gl_convert lib t (snd (hd ec)) bs) else snd acc) = Inr (dat, em)"
      using "2.prems"(1) by (auto split: sum.splits)
    note IH = "2.IH"(2)[OF ns bs r nm(2)]
    have here: "dat nm = Some bs" using IH nm(1) by simp
    show ?thesis
    proof (cases "nm = TOKEN_EMBD")
      case True
      then show ?thesis using IH here bs nm(1) ns by (auto simp: image_iff split: if_splits)
    next
      case False
      then show ?thesis using IH here bs nm(1) ns by (auto split: if_splits)
    qed
  qed
qed simp

lemma chunked_concat: "alloc_tensors_chunked alloc pad env cap what ts = Inr bs \<Longrightarrow> concat bs = ts"
  using buffers_cut by (auto simp: alloc_tensors_chunked_def Let_def split: if_splits)

text \<open>The devices hold the tensors that are not left to the expert tier, each on its own device, and the copy of the embedding.\<close>

definition on_devices :: "gpu_lib \<Rightarrow> load_opts \<Rightarrow> model \<Rightarrow> device_plan option \<Rightarrow> tensors list list \<Rightarrow> bool" where
  "on_devices lib opt m plan bss \<longleftrightarrow> length bss = n_devices plan \<and>
     (\<forall>d < n_devices plan.
        concat (bss ! d) = filter (\<lambda>(nm, t). \<not> is_offloaded_expert (md_hp m) (lo_keep_nextn opt) nm \<and> place_of plan nm = d) (md_tensors m) @
          (if d = 0 then embd_part lib opt m else []) \<and>
        (\<forall>g \<in> set (bss ! d). fits (\<lambda>(nm, t). gl_pad lib (Dev d) t) (env_cap (gl_env_mb lib) (gl_max lib (Dev d))) g))"

text \<open>The bytes of a tensor are the ones of its file, and the copy is the conversion of the embedding's bytes.\<close>

definition bytes_loaded :: "gpu_lib \<Rightarrow> load_opts \<Rightarrow> (string \<Rightarrow> byte list option) \<Rightarrow> model \<Rightarrow> (string \<Rightarrow> bool) \<Rightarrow> loaded \<Rightarrow> bool" where
  "bytes_loaded lib opt files m skip w \<longleftrightarrow>
     (\<forall>nm t. (nm, t) \<in> set (md_tensors m) \<and> \<not> skip nm \<longrightarrow>
        (\<exists>bs. read_tensor_bytes m files nm (wt_nbytes t) = Inr bs \<and> lw_data w nm = Some bs)) \<and>
     (\<forall>nm. nm \<notin> fst ` set (md_tensors m) \<or> skip nm \<longrightarrow> lw_data w nm = None) \<and>
     (\<forall>t. embd_part lib opt m \<noteq> [] \<and> (TOKEN_EMBD, t) \<in> set (md_tensors m) \<longrightarrow>
        lw_embd w = Some (snd (hd (embd_part lib opt m)), gl_convert lib t (snd (hd (embd_part lib opt m))) (the (lw_data w TOKEN_EMBD))))"

lemma embd_not_expert [simp]: "\<not> is_offloaded_expert h k TOKEN_EMBD"
proof -
  have "\<not> is_expert_tensor TOKEN_EMBD" by code_simp
  then show ?thesis by (simp add: is_offloaded_expert_def)
qed

lemma alloc_devices_on:
  assumes "alloc_devices lib what 0 (device_groups (n_devices plan) (place_of plan) (embd_part lib opt m)
      (filter (\<lambda>(nm, t). \<not> is_offloaded_expert (md_hp m) (lo_keep_nextn opt) nm) (md_tensors m))) = Inr bss"
  shows "on_devices lib opt m plan bss"
proof -
  have l: "length (device_groups n dev ec ts) = n" for n dev ec ts by (simp add: device_groups_def)
  show ?thesis using alloc_devices_Inr[OF assms] by (simp add: on_devices_def l device_groups_nth case_prod_unfold)
qed

lemma load_data_bytes:
  assumes "load_data lib m files skip (embd_part lib opt m) (md_tensors m) (\<lambda>_. None, None) = Inr (dat, em)" "distinct (map fst (md_tensors m))"
    "\<not> skip TOKEN_EMBD" "lw_data w = dat" "lw_embd w = em"
  shows "bytes_loaded lib opt files m skip w"
  using load_data_Inr[OF assms(1,2)] assms(3-5) unfolding bytes_loaded_def by simp

lemma split_parts:
  assumes "load_weights_split lib opt files m plan = Inr w"
  shows "alloc_devices lib ''weights (split mode)'' 0 (device_groups (n_devices plan) (place_of plan) (embd_part lib opt m)
      (filter (\<lambda>(nm, t). \<not> is_offloaded_expert (md_hp m) (lo_keep_nextn opt) nm) (md_tensors m))) = Inr (lw_dev w)"
    "alloc_tensors_chunked (gl_alloc lib Host) (\<lambda>(nm, t). gl_pad lib Host t) (gl_env_mb lib) (min CHUNK (gl_max lib Host))
      ''cpu expert weights'' (filter (\<lambda>(nm, t). is_offloaded_expert (md_hp m) (lo_keep_nextn opt) nm) (md_tensors m)) = Inr (lw_host w)"
    "load_data lib m files (\<lambda>_. False) (embd_part lib opt m) (md_tensors m) (\<lambda>_. None, None) = Inr (lw_data w, lw_embd w)"
  using assms by (auto simp: load_weights_split_def Let_def split: sum.splits)

lemma ssd_parts:
  assumes "load_weights_ssd lib opt files m plan = Inr w"
  shows "alloc_devices lib ''weights (ssd mode)'' 0 (device_groups (n_devices plan) (place_of plan) (embd_part lib opt m)
      (filter (\<lambda>(nm, t). \<not> is_offloaded_expert (md_hp m) (lo_keep_nextn opt) nm) (md_tensors m))) = Inr (lw_dev w)"
    "load_data lib m files (\<lambda>nm. is_offloaded_expert (md_hp m) (lo_keep_nextn opt) nm) (embd_part lib opt m) (md_tensors m) (\<lambda>_. None, None) = Inr (lw_data w, lw_embd w)"
    "lw_host w = []"
  using assms by (auto simp: load_weights_ssd_def Let_def split: sum.splits)

lemma alloc_devices_what:
  "alloc_devices lib what d gs = Inr bss \<Longrightarrow> alloc_devices lib what' d gs = Inr bss' \<Longrightarrow> bss' = bss"
proof (induction lib what d gs arbitrary: bss bss' rule: alloc_devices.induct)
  case (2 lib what d g gs)
  have w: "alloc_tensors_chunked a p e c what g = Inr x \<Longrightarrow> alloc_tensors_chunked a p e c what' g = Inr y \<Longrightarrow> y = x" for a p e c x y
    by (auto simp: alloc_tensors_chunked_def Let_def split: if_splits)
  obtain x r where x: "alloc_tensors_chunked (gl_alloc lib (Dev d)) (\<lambda>(nm, t). gl_pad lib (Dev d) t) (gl_env_mb lib) (gl_max lib (Dev d)) what g = Inr x"
    "alloc_devices lib what (d + 1) gs = Inr r" "bss = x # r"
    using "2.prems"(1) by (auto split: sum.splits)
  obtain y r' where y: "alloc_tensors_chunked (gl_alloc lib (Dev d)) (\<lambda>(nm, t). gl_pad lib (Dev d) t) (gl_env_mb lib) (gl_max lib (Dev d)) what' g = Inr y"
    "alloc_devices lib what' (d + 1) gs = Inr r'" "bss' = y # r'"
    using "2.prems"(2) by (auto split: sum.splits)
  show ?case using w[OF x(1) y(1)] "2.IH"[OF x(1,2) y(2)] x(3) y(3) by simp
qed simp

text \<open>
  Loading for the RAM tier puts every tensor in exactly one place: an offloaded expert in host memory, any other on its device of
  the plan, and the copy of the token embedding, when the primary needs one, with the primary; all with the bytes of
  the file. Loading for the SSD tier gives the same devices and bytes, and leaves out exactly the offloaded experts.
\<close>

theorem load_weights_correct:
  assumes "distinct (map fst (md_tensors m))" "load_weights_split lib opt files m plan = Inr w" "load_weights_ssd lib opt files m plan = Inr w'"
  shows "let off = is_offloaded_expert (md_hp m) (lo_keep_nextn opt) in
    on_devices lib opt m plan (lw_dev w) \<and> lw_dev w' = lw_dev w \<and>
    concat (lw_host w) = filter (\<lambda>(nm, t). off nm) (md_tensors m) \<and> lw_host w' = [] \<and>
    bytes_loaded lib opt files m (\<lambda>_. False) w \<and> bytes_loaded lib opt files m off w' \<and> lw_embd w' = lw_embd w"
proof -
  let ?off = "is_offloaded_expert (md_hp m) (lo_keep_nextn opt)"
  note W = split_parts[OF assms(2)] and W' = ssd_parts[OF assms(3)]
  have d: "on_devices lib opt m plan (lw_dev w)" by (rule alloc_devices_on[OF W(1)])
  have e: "lw_dev w' = lw_dev w" by (rule alloc_devices_what[OF W(1) W'(1)])
  have h: "concat (lw_host w) = filter (\<lambda>(nm, t). ?off nm) (md_tensors m)"
    by (rule chunked_concat[OF W(2)])
  have b: "bytes_loaded lib opt files m (\<lambda>_. False) w" by (rule load_data_bytes[OF W(3) assms(1)]) simp_all
  have b': "bytes_loaded lib opt files m ?off w'" by (rule load_data_bytes[OF W'(2) assms(1)]) simp_all
  have em: "lw_embd w' = lw_embd w"
  proof (cases "embd_part lib opt m \<noteq> [] \<and> TOKEN_EMBD \<in> fst ` set (md_tensors m)")
    case True
    then obtain t where t: "(TOKEN_EMBD, t) \<in> set (md_tensors m)" by auto
    have "\<exists>bs. read_tensor_bytes m files TOKEN_EMBD (wt_nbytes t) = Inr bs \<and> lw_data w TOKEN_EMBD = Some bs"
      using b t unfolding bytes_loaded_def by blast
    moreover have "\<exists>bs. read_tensor_bytes m files TOKEN_EMBD (wt_nbytes t) = Inr bs \<and> lw_data w' TOKEN_EMBD = Some bs"
      using b' t embd_not_expert unfolding bytes_loaded_def by blast
    ultimately have "lw_data w' TOKEN_EMBD = lw_data w TOKEN_EMBD" by auto
    then show ?thesis using b b' t True unfolding bytes_loaded_def by metis
  next
    case False
    then show ?thesis using load_data_Inr[OF W(3) assms(1)] load_data_Inr[OF W'(2) assms(1)] by auto
  qed
  show ?thesis unfolding Let_def using d e h W'(3) b b' em by blast
qed

text \<open>One tensor of each kind on two devices, with an embedding of a type that needs a copy.\<close>

definition small_model :: model where
  "small_model = \<lparr>md_path = ''m'', md_hp = read_hparams small_gguf False ''qwen4exp'', md_vocab = load_vocab small_gguf,
     md_tensors = [(''blk.0.attn_q.weight'', \<lparr>wt_type = 0, wt_ne0 = 1, wt_ne1 = 2, wt_nbytes = 2\<rparr>),
       (''blk.1.ffn_up_exps.weight'', \<lparr>wt_type = 0, wt_ne0 = 1, wt_ne1 = 3, wt_nbytes = 3\<rparr>),
       (TOKEN_EMBD, \<lparr>wt_type = 12, wt_ne0 = 1, wt_ne1 = 1, wt_nbytes = 2\<rparr>)],
     md_ple_table = None, md_src = [''blk.0.attn_q.weight'' \<mapsto> (''f'', 0), ''blk.1.ffn_up_exps.weight'' \<mapsto> (''f'', 2), TOKEN_EMBD \<mapsto> (''f'', 5)]\<rparr>"

definition small_lib :: gpu_lib where
  "small_lib = \<lparr>gl_rows_ok = (\<lambda>ty. False), gl_row_size = (\<lambda>ty n. 2 * n), gl_pad = (\<lambda>pl t. wt_nbytes t), gl_max = (\<lambda>pl. 100),
     gl_alloc = (\<lambda>pl given s. True), gl_convert = (\<lambda>t t' bs. bs @ bs), gl_env_mb = None\<rparr>"

definition small_opts :: load_opts where "small_opts = \<lparr>lo_keep_nextn = False, lo_embd_q8 = False\<rparr>"

definition small_plan :: device_plan where "small_plan = \<lparr>pl_n_dev = 2, pl_layer_dev = [1, 1], pl_pool_dev = [0, 0]\<rparr>"

definition small_bytes :: "string \<Rightarrow> byte list option" where "small_bytes = [''f'' \<mapsto> [1, 2, 3, 4, 5, 6, 7]]"

lemma small_experts:
  "is_offloaded_expert h False ''blk.1.ffn_up_exps.weight''" "\<not> is_offloaded_expert h k ''blk.0.attn_q.weight''"
proof -
  have "is_expert_tensor ''blk.1.ffn_up_exps.weight''" "\<not> is_expert_tensor ''blk.0.attn_q.weight''" by code_simp+
  then show "is_offloaded_expert h False ''blk.1.ffn_up_exps.weight''" "\<not> is_offloaded_expert h k ''blk.0.attn_q.weight''"
    by (simp_all add: is_offloaded_expert_def)
qed

lemma small_places: "place_of (Some small_plan) ''blk.0.attn_q.weight'' = 1" "place_of (Some small_plan) TOKEN_EMBD = 0"
  by code_simp+

definition small_copy :: wtensor where "small_copy = \<lparr>wt_type = GGML_F16, wt_ne0 = 1, wt_ne1 = 1, wt_nbytes = 2\<rparr>"

lemma small_names: "TOKEN_EMBD \<noteq> ''blk.0.attn_q.weight''" "TOKEN_EMBD \<noteq> ''blk.1.ffn_up_exps.weight''"
  by (simp_all add: TOKEN_EMBD_def)

lemma small_embd: "embd_part small_lib small_opts small_model = [(''token_embd.f16'', small_copy)]"
  by (simp add: embd_part_def need_embd_fallback_def tensor_of_def small_model_def small_lib_def small_opts_def small_names embd_copy_def Let_def small_copy_def
      GGML_F32_def GGML_F16_def)

lemma small_read:
  "read_tensor_bytes small_model small_bytes ''blk.0.attn_q.weight'' 2 = Inr [1, 2]"
  "read_tensor_bytes small_model small_bytes ''blk.1.ffn_up_exps.weight'' 3 = Inr [3, 4, 5]"
  "read_tensor_bytes small_model small_bytes TOKEN_EMBD 2 = Inr [6, 7]"
  by (simp_all add: read_tensor_bytes_def tensor_src_def small_model_def small_bytes_def TOKEN_EMBD_def)

theorem load_weights_correct_witness:
  "\<exists>w w'. load_weights_split small_lib small_opts small_bytes small_model (Some small_plan) = Inr w \<and>
     load_weights_ssd small_lib small_opts small_bytes small_model (Some small_plan) = Inr w' \<and>
     map (map (map fst)) (lw_dev w) = [[[TOKEN_EMBD, ''token_embd.f16'']], [[''blk.0.attn_q.weight'']]] \<and> lw_dev w' = lw_dev w \<and>
     map (map fst) (lw_host w) = [[''blk.1.ffn_up_exps.weight'']] \<and> lw_data w' ''blk.1.ffn_up_exps.weight'' = None \<and>
     lw_embd w' = Some (small_copy, [6, 7, 6, 7])"
proof -
  have n: "n_devices (Some small_plan) = 2" by (simp add: n_devices_def small_plan_def)
  have two: "[0..<2] = [0, 1 :: nat]" by (simp add: upt_rec)
  note alloc = alloc_tensors_chunked_def env_cap_def CHUNK_def
  have ts: "md_tensors small_model = [(''blk.0.attn_q.weight'', \<lparr>wt_type = 0, wt_ne0 = 1, wt_ne1 = 2, wt_nbytes = 2\<rparr>),
      (''blk.1.ffn_up_exps.weight'', \<lparr>wt_type = 0, wt_ne0 = 1, wt_ne1 = 3, wt_nbytes = 3\<rparr>), (TOKEN_EMBD, \<lparr>wt_type = 12, wt_ne0 = 1, wt_ne1 = 1, wt_nbytes = 2\<rparr>)]"
    by (simp add: small_model_def)
  have lib: "gl_pad small_lib = (\<lambda>pl t. wt_nbytes t)" "gl_max small_lib = (\<lambda>pl. 100)" "gl_alloc small_lib = (\<lambda>pl given s. True)"
    "gl_convert small_lib = (\<lambda>t t' bs. bs @ bs)" "gl_env_mb small_lib = None" "lo_keep_nextn small_opts = False"
    by (simp_all add: small_lib_def small_opts_def)
  have yes: "alloc_all (\<lambda>given s. True) given ss" for given ss by (induction ss arbitrary: given) simp_all
  have dist: "distinct (map fst (md_tensors small_model))" using small_names by (simp add: ts)
  note run = Let_def n two device_groups_def small_experts small_places small_embd alloc ts lib yes small_read small_names[symmetric]
  obtain w where w: "load_weights_split small_lib small_opts small_bytes small_model (Some small_plan) = Inr w"
    "map (map (map fst)) (lw_dev w) = [[[TOKEN_EMBD, ''token_embd.f16'']], [[''blk.0.attn_q.weight'']]]"
    "map (map fst) (lw_host w) = [[''blk.1.ffn_up_exps.weight'']]"
    "lw_embd w = Some (small_copy, [6, 7, 6, 7])"
    unfolding load_weights_split_def run by (simp add: run small_copy_def)
  obtain w' where w': "load_weights_ssd small_lib small_opts small_bytes small_model (Some small_plan) = Inr w'"
    unfolding load_weights_ssd_def run by (simp add: run small_copy_def)
  note C = load_weights_correct[OF dist w(1) w', unfolded Let_def]
  have "lw_data w' ''blk.1.ffn_up_exps.weight'' = None"
    using C small_experts(1) by (simp add: bytes_loaded_def lib)
  then show ?thesis using C w w' by metis
qed

subsection \<open>Following the device plan\<close>

lemma fill_range_set: "set (fill_range lo hi v dev) \<subseteq> insert v (set dev)"
proof -
  have "set (fold (\<lambda>il d. d[il := v]) ils dev) \<subseteq> insert v (set dev)" for ils
    by (induction ils arbitrary: dev) (auto dest!: set_update_subset_insert[THEN subsetD] subsetD)
  then show ?thesis by (simp add: fill_range_def)
qed

lemma assign_ranges_devices:
  "assign_ranges tot n ss i start cum dev = (dev', st) \<Longrightarrow> \<forall>x \<in> set dev. x < k \<Longrightarrow> i + length ss \<le> k \<Longrightarrow>
     length dev' = length dev \<and> (\<forall>x \<in> set dev'. x < k)"
proof (induction ss arbitrary: i start cum dev)
  case (Cons s ss)
  obtain e c where r: "assign_ranges tot n ss (i + 1) e c (fill_range start e i dev) = (dev', st)"
    using Cons.prems(1) by (auto simp: Let_def)
  have "\<forall>x \<in> set (fill_range start e i dev). x < k" using fill_range_set[of start e i dev] Cons.prems(2,3) by auto
  from Cons.IH[OF r this] show ?case using Cons.prems(3) by simp
qed simp

text \<open>What \<open>device_plan\<close> hands to the loaders; with one device no pools are planned.\<close>

definition device_plan_of :: "plan_input \<Rightarrow> bool \<Rightarrow> device_plan" where
  "device_plan_of inp offl =
     \<lparr>pl_n_dev = length (pi_budget inp), pl_layer_dev = plan_layers inp,
      pl_pool_dev = (if length (pi_budget inp) \<le> 1 then [] else plan_pools inp offl (plan_layers inp))\<rparr>"

text \<open>The input of the plan, with what the model contributes.\<close>

definition plan_input_for :: "gpu_lib \<Rightarrow> load_opts \<Rightarrow> model \<Rightarrow> plan_input \<Rightarrow> plan_input" where
  "plan_input_for lib opt m inp =
     inp\<lparr>pi_hp := mh_hp (md_hp m), pi_weights := weight_bytes (gl_rows_ok lib) (gl_row_size lib) (lo_embd_q8 opt) (md_tensors m),
         pi_experts := offloaded_expert_bytes (md_hp m) (lo_keep_nextn opt) (md_tensors m), pi_has_experts := has_expert_tensors (md_tensors m)\<rparr>"

text \<open>Whether the first buffer of the groups can be had, so that a load gets as far as giving tensors their places.\<close>

fun first_buffer_ok :: "gpu_lib \<Rightarrow> nat \<Rightarrow> tensors list \<Rightarrow> bool" where
  "first_buffer_ok lib d [] = False"
| "first_buffer_ok lib d (g # gs) =
     (case buffers (\<lambda>(nm, t). gl_pad lib (Dev d) t) (env_cap (gl_env_mb lib) (gl_max lib (Dev d))) g of
        [] \<Rightarrow> first_buffer_ok lib (d + 1) gs
      | b # bs \<Rightarrow> gl_alloc lib (Dev d) [] (buffer_size (\<lambda>(nm, t). gl_pad lib (Dev d) t) b))"

definition tensors_touched :: "gpu_lib \<Rightarrow> load_opts \<Rightarrow> model \<Rightarrow> device_plan option \<Rightarrow> bool" where
  "tensors_touched lib opt m plan = first_buffer_ok lib 0
     (device_groups (n_devices plan) (place_of plan) (embd_part lib opt m)
       (filter (\<lambda>(nm, t). \<not> is_offloaded_expert (md_hp m) (lo_keep_nextn opt) nm) (md_tensors m)))"

text \<open>
  The part of \<open>init\<close> from \<open>plan_offload\<close> to the loaded weights: whether the experts are offloaded, whether to the SSD tier, and
  what is loaded. When loading for an automatic tier that picked RAM fails, the code frees the buffers and loads
  again for the SSD tier. It does not reset the tensors, though: those the failed load had given a place still have it,
  and the second load stops at the first of them, in \<open>ggml_backend_tensor_alloc\<close>, whose assertion
  \<open>tensor->buffer == NULL\<close> aborts the process. That outcome is the value \<open>Inl Undefined_behaviour\<close> here; the load
  goes on only if the failed one had not got as far as a tensor.
\<close>

definition init_weights :: "gpu_lib \<Rightarrow> load_opts \<Rightarrow> (string \<Rightarrow> byte list option) \<Rightarrow> model \<Rightarrow> plan_input \<Rightarrow> exn + bool \<times> bool \<times> loaded" where
  "init_weights lib opt files m inp0 =
     (let inp = plan_input_for lib opt m inp0 in
      case plan_offload inp of
        Inl e \<Rightarrow> Inl e
      | Inr (offl, ssd) \<Rightarrow>
          let p = device_plan_of inp offl;
              on_ssd = (case load_weights_ssd lib opt files m (Some p) of Inl e \<Rightarrow> Inl e | Inr w \<Rightarrow> Inr (True, True, w))
          in if offl \<and> ssd then on_ssd
             else if offl then
               (case load_weights_split lib opt files m (Some p) of
                  Inr w \<Rightarrow> Inr (True, False, w)
                | Inl e \<Rightarrow> if pi_tier inp \<noteq> Auto then Inl e else if tensors_touched lib opt m (Some p) then Inl Undefined_behaviour else on_ssd)
             else if 1 < pl_n_dev p then (case load_weights_multi lib opt files m p of Inl e \<Rightarrow> Inl e | Inr w \<Rightarrow> Inr (False, False, w))
             else (case load_weights lib opt files m of Inl e \<Rightarrow> Inl e | Inr w \<Rightarrow> Inr (False, False, w)))"

lemma plan_devices:
  assumes "1 < length (pi_budget inp)"
  shows "length (plan_layers inp) = hp_n_layer (pi_hp inp)" "\<forall>x \<in> set (plan_layers inp). x < length (pi_budget inp)"
    "length (plan_pools inp offl (plan_layers inp)) = n_main (pi_hp inp)"
    "\<forall>x \<in> set (plan_pools inp offl (plan_layers inp)). x < length (pi_budget inp)"
proof -
  let ?k = "length (pi_budget inp)" and ?sh = "final_shares inp" and ?nm = "n_main (pi_hp inp)" and ?nl = "hp_n_layer (pi_hp inp)"
  have ne: "pi_budget inp \<noteq> []" using assms by auto
  obtain dev where r: "assign_ranges (sum_list ?sh) ?nm ?sh 0 0 0 (replicate ?nl 0) = (dev, ?nm)"
    and ld: "plan_layers inp = fill_range ?nm ?nl 0 dev" by (rule plan_layers_run[OF assms])
  have z: "\<forall>x \<in> set (replicate ?nl 0). x < ?k" using assms by auto
  have a: "length dev = ?nl \<and> (\<forall>x \<in> set dev. x < ?k)"
    using assign_ranges_devices[OF r z] or_primary_ok(1)[OF ne, of "pi_cfg_gpus inp"] by (simp add: final_shares_def)
  then show len: "length (plan_layers inp) = ?nl" and l: "\<forall>x \<in> set (plan_layers inp). x < ?k"
    using fill_range_set[of ?nm ?nl 0 dev] assms by (auto simp: ld)
  let ?own = "map (dev_of (plan_layers inp)) [0..<?nm]"
  have "?nm \<le> ?nl" by (simp add: n_main_def)
  then have own: "\<forall>x \<in> set ?own. x < ?k" using l len assms by (auto simp: dev_of_def)
  have pools: "length (plan_pools inp offl (plan_layers inp)) = ?nm \<and> (\<forall>x \<in> set (plan_pools inp offl (plan_layers inp)). x < ?k)"
  proof (cases "?k \<le> 1 \<or> \<not> offl \<or> sum_list (map (surplus inp (plan_layers inp)) [0..<?k]) \<le> 0")
    case True
    then show ?thesis using own by (auto simp: plan_pools_def Let_def)
  next
    case False
    let ?sp = "map (surplus inp (plan_layers inp)) [0..<?k]"
    obtain d st where d: "assign_ranges (sum_list ?sp) ?nm ?sp 0 0 0 ?own = (d, st)" by (metis surj_pair)
    have x: "length d = ?nm \<and> (\<forall>x \<in> set d. x < ?k)" using assign_ranges_devices[OF d own] by simp
    have "plan_pools inp offl (plan_layers inp) = fill_range st ?nm (?k - 1) d" using False d by (simp add: plan_pools_def Let_def)
    then show ?thesis using x fill_range_set[of st ?nm "?k - 1" d] assms by auto
  qed
  then show "length (plan_pools inp offl (plan_layers inp)) = ?nm" "\<forall>x \<in> set (plan_pools inp offl (plan_layers inp)). x < ?k" by blast+
qed

lemma blk_name:
  assumes "pl_layer_dev p \<noteq> [] "
  shows "dev_of_name p (''blk.'' @ to_string il @ ''.'' @ rest) =
    (let m = (if str_find (''blk.'' @ to_string il @ ''.'' @ rest) ''_shexp'' 0 \<noteq> None \<and> pl_pool_dev p \<noteq> [] then pl_pool_dev p else pl_layer_dev p)
     in if length m \<le> il then 0 else if m ! il < pl_n_dev p then m ! il else 0)"
proof -
  have "takeWhile isdigit (to_string il @ ''.'' @ rest) = to_string il" by (simp add: takeWhile_append2 to_string_digits)
  then show ?thesis by (simp add: dev_of_name_def Let_def)
qed

text \<open>A layer's tensors are on the device that computes it, its shared expert with its pool.\<close>

lemma planned_place:
  assumes "1 < length (pi_budget inp)" "il < hp_n_layer (pi_hp inp)"
  defines "name \<equiv> (\<lambda>rest. ''blk.'' @ to_string il @ ''.'' @ rest)" and "ld \<equiv> plan_layers inp"
  shows "place_of (Some (device_plan_of inp offl)) (name rest) =
    (if str_find (name rest) ''_shexp'' 0 \<noteq> None \<and> il < n_main (pi_hp inp) then pdev_of ld (plan_pools inp offl ld) il else dev_of ld il)"
proof -
  let ?p = "device_plan_of inp offl" and ?nm = "n_main (pi_hp inp)"
  note P = plan_devices[OF assms(1), folded ld_def]
  have ld: "ld \<noteq> []" "ld ! il < length (pi_budget inp)" using P(1,2) assms(2) by (auto simp del: length_greater_0_conv)
  have main: "ld ! il = 0" if "?nm \<le> il"
  proof -
    obtain dev where d: "ld = fill_range ?nm (hp_n_layer (pi_hp inp)) 0 dev" "length dev = hp_n_layer (pi_hp inp)"
      unfolding ld_def by (rule plan_layers_run[OF assms(1)])
    show ?thesis using that assms(2) d by (simp add: fill_range_nth)
  qed
  have pd: "plan_pools inp offl ld ! il < length (pi_budget inp)" "plan_pools inp offl ld \<noteq> []" if "il < ?nm"
    using P(3,4)[of offl] that nth_mem[of il "plan_pools inp offl ld"] by auto
  have parts: "pl_n_dev ?p = length (pi_budget inp)" "pl_layer_dev ?p = ld" "pl_pool_dev ?p = plan_pools inp offl ld"
    using assms(1) by (simp_all add: device_plan_of_def ld_def)
  have blk: "dev_of_name ?p (name rest) =
      (let m = (if str_find (name rest) ''_shexp'' 0 \<noteq> None \<and> plan_pools inp offl ld \<noteq> [] then plan_pools inp offl ld else ld)
       in if length m \<le> il then 0 else if m ! il < length (pi_budget inp) then m ! il else 0)"
    unfolding name_def by (rule blk_name[of ?p, unfolded parts]) (rule ld(1))
  have "place_of (Some ?p) (name rest) = dev_of_name ?p (name rest)" using assms(1) by (simp add: place_of_def n_devices_def parts)
  also have "\<dots> = (if str_find (name rest) ''_shexp'' 0 \<noteq> None \<and> il < ?nm then pdev_of ld (plan_pools inp offl ld) il else dev_of ld il)"
  proof (cases "str_find (name rest) ''_shexp'' 0 \<noteq> None \<and> plan_pools inp offl ld \<noteq> []")
    case True
    then have "dev_of_name ?p (name rest) = (let m = plan_pools inp offl ld in if length m \<le> il then 0 else if m ! il < length (pi_budget inp) then m ! il else 0)"
      using blk by simp
    then show ?thesis using True pd main P(3)[of offl] ld by (simp add: dev_of_def pdev_of_def)
  next
    case False
    then have "dev_of_name ?p (name rest) = (let m = ld in if length m \<le> il then 0 else if m ! il < length (pi_budget inp) then m ! il else 0)"
      using blk by (simp only: if_False)
    then show ?thesis using False pd(2) P(1) ld assms(2) by (auto simp: dev_of_def)
  qed
  finally show ?thesis .
qed

lemma multi_on:
  assumes "load_weights_multi lib opt files m p = Inr w" "distinct (map fst (md_tensors m))"
  shows "length (lw_dev w) = pl_n_dev p \<and>
    (\<forall>d < pl_n_dev p. concat (lw_dev w ! d) = filter (\<lambda>(nm, t). dev_of_name p nm = d) (md_tensors m) @ (if d = 0 then embd_part lib opt m else [])) \<and>
    lw_host w = [] \<and> bytes_loaded lib opt files m (\<lambda>_. False) w"
proof -
  obtain bss where b: "alloc_devices lib ''weights'' 0 (device_groups (pl_n_dev p) (dev_of_name p) (embd_part lib opt m) (md_tensors m)) = Inr bss"
    "lw_dev w = bss" "lw_host w = []"
    "load_data lib m files (\<lambda>_. False) (embd_part lib opt m) (md_tensors m) (\<lambda>_. None, None) = Inr (lw_data w, lw_embd w)"
    using assms(1) by (auto simp: load_weights_multi_def Let_def split: if_splits sum.splits)
  have l: "length (device_groups n dev ec ts) = n" for n dev ec ts by (simp add: device_groups_def)
  have "bytes_loaded lib opt files m (\<lambda>_. False) w" by (rule load_data_bytes[OF b(4) assms(2)]) simp_all
  then show ?thesis using alloc_devices_Inr[OF b(1)] b(2,3) by (simp add: l device_groups_nth)
qed

lemma single_on:
  assumes "load_weights lib opt files m = Inr w" "distinct (map fst (md_tensors m))"
  shows "length (lw_dev w) = 1 \<and> concat (lw_dev w ! 0) = md_tensors m @ embd_part lib opt m \<and> lw_host w = [] \<and> bytes_loaded lib opt files m (\<lambda>_. False) w"
proof -
  have b: "lw_dev w = [md_tensors m # (if embd_part lib opt m = [] then [] else [embd_part lib opt m])]" "lw_host w = []"
    "load_data lib m files (\<lambda>_. False) (embd_part lib opt m) (md_tensors m) (\<lambda>_. None, None) = Inr (lw_data w, lw_embd w)"
    using assms(1) by (auto simp: load_weights_def Let_def split: if_splits sum.splits)
  have "bytes_loaded lib opt files m (\<lambda>_. False) w" by (rule load_data_bytes[OF b(3) assms(2)]) simp_all
  then show ?thesis using b(1,2) by simp
qed

text \<open>
  C7. Whatever tier is chosen, loading that returns puts every tensor that stays on the devices on exactly one of them, in order: a layer's tensors on
  the device that the plan gives the layer, its shared expert on the device of its pool. The experts that leave are in host
  memory for the RAM tier and nowhere for the SSD tier; everything in memory has the bytes of its file.
\<close>

theorem init_weights_correct:
  assumes "init_weights lib opt files m inp0 = Inr (offl, ssd, w)" "distinct (map fst (md_tensors m))" "pi_budget inp0 \<noteq> []"
  shows "let inp = plan_input_for lib opt m inp0; n = length (pi_budget inp); ld = plan_layers inp; pd = plan_pools inp offl ld;
      plan = Some (device_plan_of inp offl); leaves = (\<lambda>nm. offl \<and> is_offloaded_expert (md_hp m) (lo_keep_nextn opt) nm) in
    length (lw_dev w) = n \<and>
    (\<forall>d < n. concat (lw_dev w ! d) = filter (\<lambda>(nm, t). \<not> leaves nm \<and> place_of plan nm = d) (md_tensors m) @ (if d = 0 then embd_part lib opt m else [])) \<and>
    concat (lw_host w) = (if ssd then [] else filter (\<lambda>(nm, t). leaves nm) (md_tensors m)) \<and>
    bytes_loaded lib opt files m (\<lambda>nm. ssd \<and> leaves nm) w \<and>
    (\<forall>il rest. 1 < n \<and> il < hp_n_layer (pi_hp inp) \<longrightarrow>
      (let name = ''blk.'' @ to_string il @ ''.'' @ rest in place_of plan name =
        (if str_find name ''_shexp'' 0 \<noteq> None \<and> il < n_main (pi_hp inp) then pdev_of ld pd il else dev_of ld il)))"
proof -
  let ?inp = "plan_input_for lib opt m inp0" and ?off = "is_offloaded_expert (md_hp m) (lo_keep_nextn opt)"
  let ?p = "device_plan_of ?inp offl" and ?n = "length (pi_budget inp0)"
  have n: "length (pi_budget ?inp) = ?n" "pl_n_dev ?p = ?n" by (simp_all add: plan_input_for_def device_plan_of_def)
  have nd: "n_devices (Some ?p) = ?n" using assms(3) by (cases "pi_budget inp0") (auto simp: n_devices_def n)
  have place: "place_of (Some ?p) (''blk.'' @ to_string il @ ''.'' @ rest) =
      (if str_find (''blk.'' @ to_string il @ ''.'' @ rest) ''_shexp'' 0 \<noteq> None \<and> il < n_main (pi_hp ?inp)
       then pdev_of (plan_layers ?inp) (plan_pools ?inp offl (plan_layers ?inp)) il else dev_of (plan_layers ?inp) il)"
    if "1 < ?n" "il < hp_n_layer (pi_hp ?inp)" for il rest
    by (rule planned_place) (use that n in simp_all)
  define leaves where "leaves = (\<lambda>nm. offl \<and> ?off nm)"
  have main: "length (lw_dev w) = ?n \<and>
      (\<forall>d < ?n. concat (lw_dev w ! d) = filter (\<lambda>(nm, t). \<not> leaves nm \<and> place_of (Some ?p) nm = d) (md_tensors m) @ (if d = 0 then embd_part lib opt m else [])) \<and>
      concat (lw_host w) = (if ssd then [] else filter (\<lambda>(nm, t). leaves nm) (md_tensors m)) \<and> bytes_loaded lib opt files m (\<lambda>nm. ssd \<and> leaves nm) w"
  proof -
    obtain s0 where o: "plan_offload ?inp = Inr (offl, s0)"
      using assms(1) by (auto simp: init_weights_def Let_def split: sum.splits if_splits)
    note run = assms(1)[unfolded init_weights_def Let_def o sum.case prod.case]
    consider (ssd) "offl" "ssd" "load_weights_ssd lib opt files m (Some ?p) = Inr w"
      | (ram) "offl" "\<not> ssd" "load_weights_split lib opt files m (Some ?p) = Inr w"
      | (multi) "\<not> offl" "\<not> ssd" "1 < ?n" "load_weights_multi lib opt files m ?p = Inr w"
      | (single) "\<not> offl" "\<not> ssd" "\<not> 1 < ?n" "load_weights lib opt files m = Inr w"
      using run n by (auto split: if_splits sum.splits)
    then show ?thesis
    proof cases
      case ssd
      note W = ssd_parts[OF ssd(3)]
      have "bytes_loaded lib opt files m ?off w" by (rule load_data_bytes[OF W(2) assms(2)]) simp_all
      then show ?thesis using alloc_devices_on[OF W(1)] W(3) ssd(1,2) nd by (simp add: on_devices_def leaves_def)
    next
      case ram
      note W = split_parts[OF ram(3)]
      have b: "bytes_loaded lib opt files m (\<lambda>_. False) w" by (rule load_data_bytes[OF W(3) assms(2)]) simp_all
      have "concat (lw_host w) = filter (\<lambda>(nm, t). ?off nm) (md_tensors m)"
        by (rule chunked_concat[OF W(2)])
      then show ?thesis using alloc_devices_on[OF W(1)] b ram(1,2) nd by (simp add: on_devices_def leaves_def)
    next
      case multi
      then show ?thesis using multi_on[OF multi(4) assms(2)] n nd by (simp add: leaves_def place_of_def)
    next
      case single
      then have "?n = 1" using assms(3) by (cases "pi_budget inp0") auto
      then show ?thesis using single_on[OF single(4) assms(2)] single(1,2) nd by (simp add: leaves_def place_of_def case_prod_unfold)
    qed
  qed
  show ?thesis unfolding Let_def n(1) leaves_def[symmetric] using main place by (simp add: leaves_def)
qed

text \<open>The automatic fall-back: the request that opens the second load is the one that opened the first.\<close>

lemma first_buffer_fails:
  assumes "\<not> first_buffer_ok lib d gs" "concat gs \<noteq> []"
  shows "\<exists>e. alloc_devices lib what d gs = Inl e"
  using assms
proof (induction lib d gs rule: first_buffer_ok.induct)
  case (2 lib d g gs)
  let ?pad = "\<lambda>(nm, t). gl_pad lib (Dev d) t" and ?cap = "env_cap (gl_env_mb lib) (gl_max lib (Dev d))"
  show ?case
  proof (cases "buffers ?pad ?cap g")
    case Nil
    then have "g = []" using buffers_cut[of ?pad ?cap g] by simp
    moreover obtain e where "alloc_devices lib what (d + 1) gs = Inl e" using 2 Nil \<open>g = []\<close> by auto
    ultimately show ?thesis by (simp split: sum.splits)
  next
    case (Cons b bs)
    then have "\<not> gl_alloc lib (Dev d) [] (buffer_size ?pad b)" using 2 by simp
    then show ?thesis using Cons by (simp add: alloc_tensors_chunked_def Let_def)
  qed
qed simp

text \<open>
  C40. The fall-back from the RAM tier to the SSD tier never takes place. When the automatic tier has
  picked RAM and loading fails, for whatever reason, \<open>init\<close> does not end with the SSD tier or any other
  tier: either the process aborts inside the tensor library, or the allocation that failed fails again.
  The model must have a tensor that stays on the devices (every model has), and the device answers the
  same request after the release of the buffers as it did before.
\<close>

theorem ssd_fallback_never:
  assumes "plan_offload (plan_input_for lib opt m inp0) = Inr (True, False)" "pi_tier inp0 = Auto" "pi_budget inp0 \<noteq> []"
    and "load_weights_split lib opt files m (Some (device_plan_of (plan_input_for lib opt m inp0) True)) = Inl e"
    and "(nm, t) \<in> set (md_tensors m)" "\<not> is_offloaded_expert (md_hp m) (lo_keep_nextn opt) nm"
  shows "\<exists>e'. init_weights lib opt files m inp0 = Inl e' \<and>
    (e' = Undefined_behaviour \<or> e' = Runtime_error (''failed to allocate '' @ ''weights (ssd mode)''))"
proof -
  let ?inp = "plan_input_for lib opt m inp0"
  let ?p = "Some (device_plan_of ?inp True)" and ?off = "is_offloaded_expert (md_hp m) (lo_keep_nextn opt)"
  let ?gs = "device_groups (n_devices ?p) (place_of ?p) (embd_part lib opt m) (filter (\<lambda>(nm, t). \<not> ?off nm) (md_tensors m))"
  have "(nm, t) \<in> set (?gs ! place_of ?p nm)" "place_of ?p nm < length ?gs"
    using assms(5,6) place_of_less[of ?p nm] by (simp_all add: device_groups_nth) (simp add: device_groups_def)
  then have "concat ?gs \<noteq> []" by (metis concat_eq_Nil_conv empty_iff empty_set nth_mem)
  note f = first_buffer_fails[OF _ this, of lib 0 "''weights (ssd mode)''"]
  have what: "alloc_devices lib w d gs = Inl e' \<Longrightarrow> e' = Runtime_error (''failed to allocate '' @ w)" for w d gs e'
    by (induction lib w d gs rule: alloc_devices.induct) (auto simp: alloc_tensors_chunked_def Let_def split: sum.splits if_splits)
  show ?thesis
  proof (cases "tensors_touched lib opt m ?p")
    case True
    then show ?thesis using assms(1,2,4) by (simp add: init_weights_def Let_def plan_input_for_def)
  next
    case False
    then obtain e' where e': "alloc_devices lib ''weights (ssd mode)'' 0 ?gs = Inl e'" using f by (auto simp: tensors_touched_def)
    then have "load_weights_ssd lib opt files m ?p = Inl e'" by (simp add: load_weights_ssd_def Let_def)
    then show ?thesis using assms(1,2,4) False what[OF e'] by (simp add: init_weights_def Let_def plan_input_for_def)
  qed
qed

text \<open>One device, with a budget that the experts do not fit, and a host that has memory but refuses it.\<close>

definition no_host_lib :: gpu_lib where "no_host_lib = small_lib\<lparr>gl_alloc := \<lambda>pl given s. pl \<noteq> Host\<rparr>"

definition tight_device :: plan_input where
  "tight_device = \<lparr>pi_hp = ten_layers, pi_weights = 0, pi_experts = 0, pi_has_experts = False, pi_n_ctx = 16, pi_ngram_mode = ''off'', pi_tier = Auto,
     pi_batch_env = None, pi_cfg_gpus = [], pi_budget = [1], pi_free = [0], pi_host_avail = 2 ^ 40, pi_host_total = 0\<rparr>"

theorem ssd_fallback_never_witness:
  "\<exists>e'. init_weights no_host_lib small_opts small_bytes small_model tight_device = Inl e'"
proof -
  let ?inp = "plan_input_for no_host_lib small_opts small_model tight_device" and ?m = "small_model"
  have ts: "md_tensors ?m = [(''blk.0.attn_q.weight'', \<lparr>wt_type = 0, wt_ne0 = 1, wt_ne1 = 2, wt_nbytes = 2\<rparr>),
      (''blk.1.ffn_up_exps.weight'', \<lparr>wt_type = 0, wt_ne0 = 1, wt_ne1 = 3, wt_nbytes = 3\<rparr>), (TOKEN_EMBD, \<lparr>wt_type = 12, wt_ne0 = 1, wt_ne1 = 1, wt_nbytes = 2\<rparr>)]"
    by (simp add: small_model_def)
  have k: "lo_keep_nextn small_opts = False" by (simp add: small_opts_def)
  have f: "pi_budget ?inp = [1]" "pi_free ?inp = [0]" "pi_tier ?inp = Auto" "pi_host_avail ?inp = 2 ^ 40" "pi_host_total ?inp = 0"
    by (simp_all add: plan_input_for_def tight_device_def)
  have "is_expert_tensor ''blk.1.ffn_up_exps.weight''" by code_simp
  then have h: "pi_has_experts ?inp" by (simp add: plan_input_for_def has_expert_tensors_def ts)
  have e: "pi_experts ?inp = 3"
    using small_experts by (simp add: plan_input_for_def offloaded_expert_bytes_def ts k)
  have c: "256 * MB \<le> compute_headroom (pi_hp ?inp) (pi_batch_env ?inp)" by (simp add: compute_headroom_def Let_def MB_def)
  have ram: "\<not> auto_ssd ?inp" by (simp add: auto_ssd_def e f MB_def)
  have o: "plan_offload ?inp = Inr (True, False)"
    unfolding plan_offload_def Let_def f using h c ram by (simp add: MB_def)
  have host: "alloc_tensors_chunked (\<lambda>given s. False) pad env cap what (x # xs) = Inl (Runtime_error (''failed to allocate '' @ what))"
    for pad env cap what and x :: "string \<times> wtensor" and xs
    by (simp add: alloc_tensors_chunked_def Let_def split: prod.splits)
  have "gl_alloc no_host_lib Host = (\<lambda>given s. False)" by (simp add: no_host_lib_def)
  moreover have "filter (\<lambda>(nm, t). is_offloaded_expert (md_hp ?m) (lo_keep_nextn small_opts) nm) (md_tensors ?m) =
      [(''blk.1.ffn_up_exps.weight'', \<lparr>wt_type = 0, wt_ne0 = 1, wt_ne1 = 3, wt_nbytes = 3\<rparr>)]"
    using small_experts by (simp add: ts k)
  ultimately have h: "alloc_tensors_chunked (gl_alloc no_host_lib Host) pad env cap what
      (filter (\<lambda>(nm, t). is_offloaded_expert (md_hp ?m) (lo_keep_nextn small_opts) nm) (md_tensors ?m)) = Inl (Runtime_error (''failed to allocate '' @ what))"
    for pad env cap what using host by simp
  obtain x where s: "load_weights_split no_host_lib small_opts small_bytes ?m (Some (device_plan_of ?inp True)) = Inl x"
    using split_parts(2) h by (cases "load_weights_split no_host_lib small_opts small_bytes ?m (Some (device_plan_of ?inp True))") fastforce+
  have d: "pi_tier tight_device = Auto" "pi_budget tight_device \<noteq> []" by (simp_all add: tight_device_def)
  have mem: "(''blk.0.attn_q.weight'', \<lparr>wt_type = 0, wt_ne0 = 1, wt_ne1 = 2, wt_nbytes = 2\<rparr>) \<in> set (md_tensors ?m)" by (simp add: ts)
  show ?thesis using ssd_fallback_never[OF o d s mem small_experts(2)] by blast
qed

text \<open>Two devices that do not say how much they have: the model stays resident.\<close>

definition two_devices :: plan_input where
  "two_devices = \<lparr>pi_hp = ten_layers, pi_weights = 0, pi_experts = 0, pi_has_experts = False, pi_n_ctx = 16, pi_ngram_mode = ''off'', pi_tier = Auto,
     pi_batch_env = None, pi_cfg_gpus = [], pi_budget = [0, 0], pi_free = [0, 0], pi_host_avail = 0, pi_host_total = 0\<rparr>"

lemma alloc_devices_yes:
  assumes "gl_alloc lib = (\<lambda>pl given s. True)"
  shows "\<exists>bss. alloc_devices lib what d gs = Inr bss"
proof -
  have "alloc_all (\<lambda>given s. True) given ss" for given ss by (induction ss arbitrary: given) simp_all
  then have "\<exists>bs. alloc_tensors_chunked (\<lambda>given s. True) pad env cap what g = Inr bs" for pad env cap and g :: "(string \<times> wtensor) list"
    by (simp add: alloc_tensors_chunked_def Let_def)
  note one = this
  show ?thesis
  proof (induction gs arbitrary: d)
    case (Cons g gs)
    obtain bs where "alloc_tensors_chunked (\<lambda>given s. True) (\<lambda>(nm, t). gl_pad lib (Dev d) t) (gl_env_mb lib) (gl_max lib (Dev d)) what g = Inr bs"
      using one by blast
    moreover obtain r where "alloc_devices lib what (d + 1) gs = Inr r" using Cons.IH by blast
    ultimately show ?case by (simp add: assms)
  qed simp
qed

theorem init_weights_correct_witness:
  "\<exists>w. init_weights small_lib small_opts small_bytes small_model two_devices = Inr (False, False, w) \<and> length (lw_dev w) = 2 \<and>
     lw_data w ''blk.1.ffn_up_exps.weight'' = Some [3, 4, 5] \<and>
     (let inp = plan_input_for small_lib small_opts small_model two_devices in
        place_of (Some (device_plan_of inp False)) (''blk.'' @ to_string 1 @ ''.'' @ ''attn_q.weight'') = dev_of (plan_layers inp) 1)"
proof -
  let ?inp = "plan_input_for small_lib small_opts small_model two_devices"
  have b: "pi_budget ?inp = [0, 0]" "pi_budget two_devices = [0, 0]" by (simp_all add: plan_input_for_def two_devices_def)
  have o: "plan_offload ?inp = Inr (False, False)" by (simp add: plan_offload_def b)
  have two: "1 < pl_n_dev (device_plan_of ?inp False)" by (simp add: device_plan_of_def b)
  have "gl_alloc small_lib = (\<lambda>pl given s. True)" by (simp add: small_lib_def)
  then obtain bss where bss: "alloc_devices small_lib ''weights'' 0 (device_groups (pl_n_dev (device_plan_of ?inp False)) (dev_of_name (device_plan_of ?inp False))
      (embd_part small_lib small_opts small_model) (md_tensors small_model)) = Inr bss"
    using alloc_devices_yes by blast
  have ts: "md_tensors small_model = [(''blk.0.attn_q.weight'', \<lparr>wt_type = 0, wt_ne0 = 1, wt_ne1 = 2, wt_nbytes = 2\<rparr>),
      (''blk.1.ffn_up_exps.weight'', \<lparr>wt_type = 0, wt_ne0 = 1, wt_ne1 = 3, wt_nbytes = 3\<rparr>), (TOKEN_EMBD, \<lparr>wt_type = 12, wt_ne0 = 1, wt_ne1 = 1, wt_nbytes = 2\<rparr>)]"
    by (simp add: small_model_def)
  have dist: "distinct (map fst (md_tensors small_model))" using small_names by (simp add: ts)
  obtain dat em where ld: "load_data small_lib small_model small_bytes (\<lambda>_. False) (embd_part small_lib small_opts small_model) (md_tensors small_model) (\<lambda>_. None, None) = Inr (dat, em)"
    unfolding ts by (simp add: small_read)
  obtain w where w: "load_weights_multi small_lib small_opts small_bytes small_model (device_plan_of ?inp False) = Inr w"
    using two bss ld by (simp add: load_weights_multi_def Let_def)
  have r: "init_weights small_lib small_opts small_bytes small_model two_devices = Inr (False, False, w)"
    unfolding init_weights_def Let_def o using two w by simp
  have ne: "pi_budget two_devices \<noteq> []" by (simp add: b)
  note C = init_weights_correct[OF r dist ne, unfolded Let_def b(1)]
  have len: "length (lw_dev w) = 2" using C by simp
  have "bytes_loaded small_lib small_opts small_bytes small_model (\<lambda>_. False) w" using C by simp
  moreover have "(''blk.1.ffn_up_exps.weight'', \<lparr>wt_type = 0, wt_ne0 = 1, wt_ne1 = 3, wt_nbytes = 3\<rparr>) \<in> set (md_tensors small_model)" by (simp add: ts)
  ultimately have dat: "lw_data w ''blk.1.ffn_up_exps.weight'' = Some [3, 4, 5]"
    using small_read(2) unfolding bytes_loaded_def by fastforce
  have nl: "1 < hp_n_layer (pi_hp ?inp)"
    by (simp add: plan_input_for_def small_model_def read_hparams_def Let_def gguf_u32_def small_gguf_keys)
  have "str_find (''blk.'' @ to_string 1 @ ''.'' @ ''attn_q.weight'') ''_shexp'' 0 = None" by code_simp
  moreover have "place_of (Some (device_plan_of ?inp False)) (''blk.'' @ to_string 1 @ ''.'' @ ''attn_q.weight'') =
      (if str_find (''blk.'' @ to_string 1 @ ''.'' @ ''attn_q.weight'') ''_shexp'' 0 \<noteq> None \<and> 1 < n_main (pi_hp ?inp)
       then pdev_of (plan_layers ?inp) (plan_pools ?inp False (plan_layers ?inp)) 1 else dev_of (plan_layers ?inp) 1)"
    using C[THEN conjunct2, THEN conjunct2, THEN conjunct2, THEN conjunct2, rule_format, of 1 "''attn_q.weight''"] nl by simp
  ultimately have "place_of (Some (device_plan_of ?inp False)) (''blk.'' @ to_string 1 @ ''.'' @ ''attn_q.weight'') = dev_of (plan_layers ?inp) 1" by simp
  then show ?thesis using r len dat unfolding Let_def by blast
qed

end
