(* ===== verification/Json.thy ===== *)
theory Json
  imports Cpp_Map Cpp_Number
begin

section \<open>JSON values\<close>

text \<open>
  The values of the JSON library (\<open>third_party/nlohmann/json.hpp\<close>) as far as the server looks into them: an object is an ordered map.
  Numbers are opaque. Parsing and printing text are parameters of the definitions that use them.
\<close>

datatype 'n json = Json_null | Json_bool bool | Json_num 'n | Json_str string | Json_arr "'n json list" | Json_obj "(string \<times> 'n json) list"

fun is_str :: "'n json \<Rightarrow> bool" where
  "is_str (Json_str s) = True"
| "is_str _ = False"

fun str_or :: "string \<Rightarrow> 'n json \<Rightarrow> string" where
  "str_or d (Json_str s) = s"
| "str_or d _ = d"

fun is_arr :: "'n json \<Rightarrow> bool" where
  "is_arr (Json_arr xs) = True"
| "is_arr _ = False"

fun is_obj :: "'n json \<Rightarrow> bool" where
  "is_obj (Json_obj kvs) = True"
| "is_obj _ = False"

text \<open>\<open>j.find(k)\<close>, and \<open>j[k]\<close> where \<open>j.contains(k)\<close> has been checked.\<close>

fun json_find :: "'n json \<Rightarrow> string \<Rightarrow> 'n json option" where
  "json_find (Json_obj kvs) k = map_of kvs k"
| "json_find _ k = None"

definition json_at :: "'n json \<Rightarrow> string \<Rightarrow> 'n json" where
  "json_at j k = (case json_find j k of None \<Rightarrow> Json_null | Some v \<Rightarrow> v)"

definition json_contains :: "'n json \<Rightarrow> string \<Rightarrow> bool" where
  "json_contains j k \<longleftrightarrow> json_find j k \<noteq> None"

text \<open>\<open>j.value(k, d)\<close> for a string \<open>d\<close>: throws when \<open>j\<close> is not an object or the entry is not a string.\<close>

definition TYPE_ERROR :: exn where "TYPE_ERROR = Runtime_error ''json: type error''"

definition json_value :: "'n json \<Rightarrow> string \<Rightarrow> string \<Rightarrow> exn + string" where
  "json_value j k d =
     (if \<not> is_obj j then Inl TYPE_ERROR
      else (case json_find j k of None \<Rightarrow> Inr d | Some v \<Rightarrow> (case v of Json_str s \<Rightarrow> Inr s | _ \<Rightarrow> Inl TYPE_ERROR)))"

text \<open>\<open>items()\<close>: the entries of an object, the elements of an array with their positions as keys, a primitive value with an empty key.\<close>

fun json_items :: "'n json \<Rightarrow> (string \<times> 'n json) list" where
  "json_items (Json_obj kvs) = kvs"
| "json_items (Json_arr xs) = zip (map to_string [0..<length xs]) xs"
| "json_items Json_null = []"
| "json_items j = [([], j)]"

text \<open>\<open>for (auto & x : j)\<close>\<close>

definition json_elems :: "'n json \<Rightarrow> 'n json list" where
  "json_elems j = map snd (json_items j)"

text \<open>Objects keep their keys in order.\<close>

definition ordered :: "(string \<times> 'a) list \<Rightarrow> bool" where
  "ordered kvs \<longleftrightarrow> sorted (map fst kvs) \<and> distinct (map fst kvs)"

lemma map_put_last: "ordered (kvs @ [(k, v)]) \<Longrightarrow> map_put k v kvs = kvs @ [(k, v)]"
  by (induction kvs) (auto simp: ordered_def sorted_append)

text \<open>Assigning the entries in order rebuilds the object.\<close>

lemma fold_map_put: "ordered (m @ kvs) \<Longrightarrow> fold (\<lambda>(k, v) m. map_put k v m) kvs m = m @ kvs"
proof (induction kvs arbitrary: m)
  case (Cons kv kvs)
  obtain k v where kv: "kv = (k, v)" by fastforce
  have "ordered (m @ [(k, v)])" using Cons.prems by (auto simp: ordered_def sorted_append kv)
  then show ?case using Cons.IH[of "m @ [(k, v)]"] Cons.prems by (simp add: kv map_put_last)
qed simp

end
