(* ===== verification/Chat.thy ===== *)
theory Chat
  imports Tokenizer Cpp_Number
begin

section \<open>Chat templates\<close>

text \<open>
  \<open>core/chat.cpp\<close>: \<open>build_qwen_prompt\<close> and \<open>build_lfm2_prompt\<close> turn a conversation into tokens. The builders only ever append to
  the token list, so a builder's run is a list of emissions (text, a control token, the run of an image, the start of
  the generation prompt), which \<open>run_emissions\<close> turns into tokens, image spans and positions. A throw is \<open>Inl\<close>.

  \<open>encode\<close> gives \<open>None\<close> only when a pre-tokenizer does not end, which never happens (see \<open>Tokenizer\<close>).
\<close>

subsection \<open>Conversations\<close>

datatype content_part = Text_part string | Image_part int

record tool_call =
  tc_name :: string
  tc_args :: "(string \<times> string) list"
  tc_literals :: "string list"

record chat_message =
  cm_role :: string
  cm_content :: string
  cm_parts :: "content_part list"
  cm_reasoning :: string
  cm_has_reasoning :: bool
  cm_tool_calls :: "tool_call list"

record chat_options =
  co_gen_prompt :: bool
  co_reasoning :: bool
  co_preserve :: bool
  co_vision_id :: bool
  co_n_image :: int
  co_tools :: "string list"

record image_run =
  ir_first :: nat
  ir_count :: nat
  ir_index :: int

record chat_prompt =
  cp_ids :: "int list"
  cp_spans :: "image_run list"
  cp_gen :: int

subsection \<open>Text\<close>

definition chat_ws :: "char \<Rightarrow> bool" where
  "chat_ws c \<longleftrightarrow> c = CHR '' '' \<or> c = CHR 0x09 \<or> c = CHR 0x0A \<or> c = CHR 0x0D"

definition ltrim_ws :: "string \<Rightarrow> string" where "ltrim_ws s = dropWhile chat_ws s"

definition rtrim_ws :: "string \<Rightarrow> string" where "rtrim_ws s = rev (dropWhile chat_ws (rev s))"

definition trim_ws :: "string \<Rightarrow> string" where "trim_ws s = rtrim_ws (ltrim_ws s)"

fun part_text :: "content_part \<Rightarrow> string" where
  "part_text (Text_part t) = t"
| "part_text (Image_part k) = []"

fun is_image :: "content_part \<Rightarrow> bool" where
  "is_image (Text_part t) = False"
| "is_image (Image_part k) = True"

definition flat_text :: "chat_message \<Rightarrow> string" where
  "flat_text m = (if cm_parts m = [] then cm_content m else concat (map part_text (cm_parts m)))"

definition has_image :: "chat_message \<Rightarrow> bool" where
  "has_image m = list_ex is_image (cm_parts m)"

definition NL :: string where "NL = [CHR 0x0A]"

definition THINK_OPEN :: string where "THINK_OPEN = ''<think>''"
definition THINK_CLOSE :: string where "THINK_CLOSE = ''</think>''"
definition FUNCTION_OPEN :: string where "FUNCTION_OPEN = ''<function=''"
definition FUNCTION_CLOSE :: string where "FUNCTION_CLOSE = ''</function>''"
definition PARAMETER_OPEN :: string where "PARAMETER_OPEN = ''<parameter=''"
definition PARAMETER_CLOSE :: string where "PARAMETER_CLOSE = ''</parameter>''"
definition TOOL_CALL_OPEN :: string where "TOOL_CALL_OPEN = ''<tool_call>''"
definition TOOL_CALL_CLOSE :: string where "TOOL_CALL_CLOSE = ''</tool_call>''"

text \<open>The instructions for tool calls, verbatim.\<close>

definition TOOL_INSTRUCTIONS :: string where
  "TOOL_INSTRUCTIONS =
     NL @ NL @ ''If you choose to call a function ONLY reply in the following format with NO suffix:'' @ NL @ NL @
     TOOL_CALL_OPEN @ NL @ FUNCTION_OPEN @ ''example_function_name>'' @ NL @ PARAMETER_OPEN @ ''example_parameter_1>'' @ NL @ ''value_1'' @ NL @
     PARAMETER_CLOSE @ NL @ PARAMETER_OPEN @ ''example_parameter_2>'' @ NL @ ''This is the value for the second parameter'' @ NL @
     ''that can span'' @ NL @ ''multiple lines'' @ NL @ PARAMETER_CLOSE @ NL @ FUNCTION_CLOSE @ NL @ TOOL_CALL_CLOSE @ NL @ NL @
     ''<IMPORTANT>'' @ NL @ ''Reminder:'' @ NL @
     ''- Function calls MUST follow the specified format: an inner <function=...></function> block '' @
     ''must be nested within <tool_call></tool_call> XML tags'' @ NL @
     ''- Required parameters MUST be specified'' @ NL @
     ''- You may provide optional reasoning for your function call in natural language BEFORE the '' @
     ''function call, but NOT after'' @ NL @
     ''- If there is no function call available, answer the question like normal with your current '' @
     ''knowledge and do not tell the user about function calls'' @ NL @ ''</IMPORTANT>''"

subsection \<open>Emissions\<close>

datatype emission = Txt string | Tok int | Img int | Gen

definition text_ids :: "tokenizer \<Rightarrow> string \<Rightarrow> int list" where
  "text_ids tk s = (if s = [] then [] else case encode tk s False False of None \<Rightarrow> [] | Some v \<Rightarrow> v)"

text \<open>The number of placeholder tokens of an image, and the placeholder.\<close>

definition run_length :: "chat_options \<Rightarrow> nat" where
  "run_length opt = nat (if 0 < co_n_image opt then co_n_image opt else 1)"

fun emit1 :: "tokenizer \<Rightarrow> nat \<Rightarrow> int \<Rightarrow> emission \<Rightarrow> chat_prompt \<Rightarrow> chat_prompt" where
  "emit1 tk n pad (Txt s) p = p\<lparr>cp_ids := cp_ids p @ text_ids tk s\<rparr>"
| "emit1 tk n pad (Tok t) p = p\<lparr>cp_ids := cp_ids p @ [t]\<rparr>"
| "emit1 tk n pad (Img k) p =
     p\<lparr>cp_ids := cp_ids p @ replicate n pad,
       cp_spans := cp_spans p @ [\<lparr>ir_first = length (cp_ids p), ir_count = n, ir_index = k\<rparr>]\<rparr>"
| "emit1 tk n pad Gen p = p\<lparr>cp_gen := int (length (cp_ids p))\<rparr>"

definition run_emissions :: "tokenizer \<Rightarrow> nat \<Rightarrow> int \<Rightarrow> emission list \<Rightarrow> chat_prompt" where
  "run_emissions tk n pad es = fold (emit1 tk n pad) es \<lparr>cp_ids = [], cp_spans = [], cp_gen = -1\<rparr>"

definition emit_bos :: "tokenizer \<Rightarrow> emission list" where
  "emit_bos tk = (if chat_wants_bos tk \<and> 0 \<le> tk_bos tk then [Tok (tk_bos tk)] else [])"

subsection \<open>The lfm2 template\<close>

definition is_lfm2 :: "tokenizer \<Rightarrow> bool" where
  "is_lfm2 tk \<longleftrightarrow> 0 \<le> token_to_id tk ''<|tool_call_start|>'' \<and> 0 \<le> token_to_id tk ''<|im_start|>''"

text \<open>\<open>s0, s1, ...\<close>\<close>

fun comma_list :: "string list \<Rightarrow> string" where
  "comma_list [] = []"
| "comma_list [s] = s"
| "comma_list (s # ss) = s @ '', '' @ comma_list ss"

definition literal_args :: "tool_call \<Rightarrow> string list" where
  "literal_args tc =
     map (\<lambda>a. fst (tc_args tc ! a) @ ''='' @
        (if a < length (tc_literals tc) then tc_literals tc ! a else [CHR 0x27] @ snd (tc_args tc ! a) @ [CHR 0x27])) [0..<length (tc_args tc)]"

definition lfm2_calls :: "tool_call list \<Rightarrow> string" where
  "lfm2_calls tcs = ''['' @ comma_list (map (\<lambda>tc. tc_name tc @ ''('' @ comma_list (literal_args tc) @ '')'') tcs) @ '']''"

definition lfm2_system :: "chat_message list \<Rightarrow> chat_options \<Rightarrow> string" where
  "lfm2_system ms opt =
     (let s = (if ms \<noteq> [] \<and> cm_role (hd ms) = ''system'' then flat_text (hd ms) else [])
      in if co_tools opt = [] then s else s @ (if s = [] then [] else NL) @ ''List of tools: ['' @ comma_list (co_tools opt) @ '']'')"

text \<open>The index of the last user message from \<open>msg_begin\<close> on, or \<open>-1\<close>.\<close>

definition last_user :: "chat_message list \<Rightarrow> nat \<Rightarrow> int" where
  "last_user ms b = fold (\<lambda>i r. if cm_role (ms ! i) = ''user'' then int i else r) [b..<length ms] (-1)"

definition lfm2_content :: "bool \<Rightarrow> chat_message \<Rightarrow> string" where
  "lfm2_content recent m =
     (let c = flat_text m in
      if \<not> recent \<and> str_find c THINK_CLOSE 0 \<noteq> None then trim_ws (drop (the (str_rfind c THINK_CLOSE) + 8) c) else c)"

definition lfm2_message :: "tokenizer \<Rightarrow> chat_options \<Rightarrow> int \<Rightarrow> nat \<Rightarrow> chat_message \<Rightarrow> emission list" where
  "lfm2_message tk opt last_u i m =
     [Tok (token_to_id tk ''<|im_start|>''), Txt (cm_role m @ NL)] @
     (if cm_role m = ''assistant'' then
        (let recent = (co_preserve opt \<or> last_u < int i) in
         (if cm_has_reasoning m \<and> recent
          then [Tok (token_to_id tk ''<think>''), Txt (cm_reasoning m), Tok (token_to_id tk ''</think>'')] else []) @
         [Txt (lfm2_content recent m)] @
         (if cm_tool_calls m = [] then []
          else [Tok (token_to_id tk ''<|tool_call_start|>''), Txt (lfm2_calls (cm_tool_calls m)), Tok (token_to_id tk ''<|tool_call_end|>'')]))
      else [Txt (flat_text m)]) @
     [Tok (token_to_id tk ''<|im_end|>''), Txt NL]"

definition build_lfm2_prompt :: "tokenizer \<Rightarrow> chat_message list \<Rightarrow> chat_options \<Rightarrow> exn + emission list" where
  "build_lfm2_prompt tk ms opt =
     (if list_ex has_image ms then Inl (Runtime_error ''chat: image input is not supported for lfm2'')
      else let b = (if ms \<noteq> [] \<and> cm_role (hd ms) = ''system'' then 1 else 0); system = lfm2_system ms opt in
        Inr (emit_bos tk @
          (if system = [] then []
           else [Tok (token_to_id tk ''<|im_start|>''), Txt (''system'' @ NL @ system), Tok (token_to_id tk ''<|im_end|>''), Txt NL]) @
          concat (map (\<lambda>i. lfm2_message tk opt (last_user ms b) i (ms ! i)) [b..<length ms]) @
          (if co_gen_prompt opt then [Gen, Tok (token_to_id tk ''<|im_start|>''), Txt (''assistant'' @ NL)] else [])))"

subsection \<open>The Qwen template\<close>

text \<open>The control tokens.\<close>

record chat_ids =
  ci_start :: int
  ci_end :: int
  ci_think :: int
  ci_unthink :: int
  ci_vis_start :: int
  ci_vis_end :: int
  ci_pad :: int

definition chat_ids_of :: "tokenizer \<Rightarrow> chat_ids" where
  "chat_ids_of tk =
     (let own = (0 \<le> token_to_id tk ''<|image_pad|>'')
      in \<lparr>ci_start = token_to_id tk ''<|im_start|>'', ci_end = token_to_id tk ''<|im_end|>'', ci_think = token_to_id tk ''<think>'',
          ci_unthink = token_to_id tk ''</think>'',
          ci_vis_start = (if own then token_to_id tk ''<|vision_start|>'' else token_to_id tk ''<im_start>''),
          ci_vis_end = (if own then token_to_id tk ''<|vision_end|>'' else token_to_id tk ''<im_end>''),
          ci_pad = (if own then token_to_id tk ''<|image_pad|>'' else token_to_id tk ''<im_patch>'')\<rparr>)"

definition NO_CHATML :: exn where "NO_CHATML = Runtime_error ''chat: model has no ChatML/vision tokens''"
definition NO_VISION :: exn where "NO_VISION = Runtime_error ''chat: model has no vision tokens (<|image_pad|>)''"
definition SYSTEM_IMAGE :: exn where "SYSTEM_IMAGE = Runtime_error ''chat: system message cannot contain images''"
definition SYSTEM_LATE :: exn where "SYSTEM_LATE = Runtime_error ''chat: system message must be at the beginning''"
definition ASSISTANT_IMAGE :: exn where "ASSISTANT_IMAGE = Runtime_error ''chat: assistant message cannot contain images''"

text \<open>The segments of a message, with the number of images so far.\<close>

fun part_segs :: "chat_ids \<Rightarrow> bool \<Rightarrow> bool \<Rightarrow> content_part list \<Rightarrow> nat \<Rightarrow> exn + content_part list \<times> nat" where
  "part_segs ci vision_id is_system [] k = Inr ([], k)"
| "part_segs ci vision_id is_system (Text_part t # ps) k =
     (case part_segs ci vision_id is_system ps k of Inl e \<Rightarrow> Inl e | Inr (segs, k') \<Rightarrow> Inr (Text_part t # segs, k'))"
| "part_segs ci vision_id is_system (Image_part img # ps) k =
     (if is_system then Inl SYSTEM_IMAGE
      else if ci_vis_start ci < 0 \<or> ci_pad ci < 0 \<or> ci_vis_end ci < 0 then Inl NO_VISION
      else (case part_segs ci vision_id is_system ps (k + 1) of
              Inl e \<Rightarrow> Inl e
            | Inr (segs, k') \<Rightarrow>
                Inr ((if vision_id then [Text_part (''Picture '' @ to_string (k + 1) @ '': '')] else []) @ Image_part img # segs, k')))"

text \<open>The white space at the edges is dropped.\<close>

definition trim_front :: "content_part list \<Rightarrow> content_part list" where
  "trim_front segs = (case segs of Text_part t # ss \<Rightarrow> Text_part (ltrim_ws t) # ss | _ \<Rightarrow> segs)"

definition trim_back_seg :: "content_part list \<Rightarrow> content_part list" where
  "trim_back_seg segs = (if segs = [] then [] else (case last segs of Text_part t \<Rightarrow> butlast segs @ [Text_part (rtrim_ws t)] | Image_part k \<Rightarrow> segs))"

fun seg_emit :: "chat_ids \<Rightarrow> content_part \<Rightarrow> emission list" where
  "seg_emit ci (Text_part t) = [Txt t]"
| "seg_emit ci (Image_part k) = [Tok (ci_vis_start ci), Img k, Tok (ci_vis_end ci)]"

definition emit_content :: "chat_ids \<Rightarrow> chat_options \<Rightarrow> chat_message \<Rightarrow> bool \<Rightarrow> nat \<Rightarrow> exn + emission list \<times> nat" where
  "emit_content ci opt m is_system k =
     (case (if cm_parts m = [] then Inr ([Text_part (cm_content m)], k) else part_segs ci (co_vision_id opt) is_system (cm_parts m) k) of
        Inl e \<Rightarrow> Inl e
      | Inr (segs, k') \<Rightarrow> Inr (concat (map (seg_emit ci) (trim_back_seg (trim_front segs))), k'))"

text \<open>The reasoning and the content of an assistant message.\<close>

definition split_think :: "chat_message \<Rightarrow> string \<times> string" where
  "split_think m =
     (let content = trim_ws (flat_text m) in
      if cm_has_reasoning m then (cm_reasoning m, content)
      else (case str_find content THINK_CLOSE 0 of
          None \<Rightarrow> ([], content)
        | Some p \<Rightarrow>
            let head = rev (dropWhile (\<lambda>c. c = CHR 0x0A) (rev (take p content)));
                head2 = (case str_rfind head THINK_OPEN of None \<Rightarrow> head | Some q \<Rightarrow> drop (q + 7) head)
            in (dropWhile (\<lambda>c. c = CHR 0x0A) head2,
                dropWhile (\<lambda>c. c = CHR 0x0A) (drop (the (str_rfind content THINK_CLOSE) + 8) content))))"

definition call_text :: "tool_call \<Rightarrow> string list" where
  "call_text tc = map (\<lambda>(k, v). PARAMETER_OPEN @ k @ ''>'' @ NL @ v @ NL @ PARAMETER_CLOSE @ NL) (tc_args tc) @ [FUNCTION_CLOSE @ NL @ TOOL_CALL_CLOSE]"

definition call_emit :: "string \<Rightarrow> nat \<Rightarrow> tool_call \<Rightarrow> emission list" where
  "call_emit content k tc =
     Txt ((if k = 0 then (if content = [] then [] else NL @ NL) else NL) @ TOOL_CALL_OPEN @ NL @ FUNCTION_OPEN @ tc_name tc @ ''>'' @ NL) #
     map Txt (call_text tc)"

definition calls_emit :: "string \<Rightarrow> tool_call list \<Rightarrow> emission list" where
  "calls_emit content tcs = concat (map (\<lambda>k. call_emit content k (tcs ! k)) [0..<length tcs])"

definition assistant_emit :: "chat_ids \<Rightarrow> chat_options \<Rightarrow> int \<Rightarrow> nat \<Rightarrow> chat_message \<Rightarrow> emission list" where
  "assistant_emit ci opt last_query i m =
     (case split_think m of (reasoning0, content) \<Rightarrow>
        let reasoning = trim_ws reasoning0;
            keep_think = ((last_query < int i \<or> co_preserve opt \<and> reasoning \<noteq> []) \<and> 0 \<le> ci_think ci \<and> 0 \<le> ci_unthink ci)
        in Tok (ci_start ci) #
           (if keep_think
            then [Txt (''assistant'' @ NL), Tok (ci_think ci), Txt (NL @ reasoning @ NL), Tok (ci_unthink ci), Txt (NL @ NL @ content)]
            else [Txt (''assistant'' @ NL @ content)]) @
           calls_emit content (cm_tool_calls m) @ [Tok (ci_end ci), Txt NL])"

definition tool_emit :: "chat_ids \<Rightarrow> chat_message list \<Rightarrow> nat \<Rightarrow> nat \<Rightarrow> emission list" where
  "tool_emit ci ms b i =
     (let prev_tool = (b < i \<and> cm_role (ms ! (i - 1)) = ''tool''); next_tool = (i + 1 < length ms \<and> cm_role (ms ! (i + 1)) = ''tool'')
      in (if prev_tool then [] else [Tok (ci_start ci), Txt ''user'']) @
         [Txt (NL @ ''<tool_response>'' @ NL @ trim_ws (flat_text (ms ! i)) @ NL @ ''</tool_response>'')] @
         (if next_tool then [] else [Tok (ci_end ci), Txt NL]))"

text \<open>One message, and the loop over all; \<open>k\<close> counts the images.\<close>

definition message_emit :: "chat_ids \<Rightarrow> chat_options \<Rightarrow> chat_message list \<Rightarrow> nat \<Rightarrow> int \<Rightarrow> nat \<Rightarrow> nat \<Rightarrow> exn + emission list \<times> nat" where
  "message_emit ci opt ms b last_query i k =
     (let m = ms ! i in
      if cm_role m = ''system'' then Inl SYSTEM_LATE
      else if cm_role m = ''user'' then
        (case emit_content ci opt m False k of
           Inl e \<Rightarrow> Inl e
         | Inr (es, k') \<Rightarrow> Inr ([Tok (ci_start ci), Txt (''user'' @ NL)] @ es @ [Tok (ci_end ci), Txt NL], k'))
      else if cm_role m = ''assistant'' then
        (if has_image m then Inl ASSISTANT_IMAGE else Inr (assistant_emit ci opt last_query i m, k))
      else if cm_role m = ''tool'' then Inr (tool_emit ci ms b i, k)
      else Inl (Runtime_error (''chat: unexpected message role '' @ [CHR 0x27] @ cm_role m @ [CHR 0x27])))"

fun messages_emit :: "chat_ids \<Rightarrow> chat_options \<Rightarrow> chat_message list \<Rightarrow> nat \<Rightarrow> int \<Rightarrow> nat list \<Rightarrow> nat \<Rightarrow> exn + emission list" where
  "messages_emit ci opt ms b lq [] k = Inr []"
| "messages_emit ci opt ms b lq (i # js) k =
     (case message_emit ci opt ms b lq i k of
        Inl e \<Rightarrow> Inl e
      | Inr (es, k') \<Rightarrow> (case messages_emit ci opt ms b lq js k' of Inl e \<Rightarrow> Inl e | Inr es' \<Rightarrow> Inr (es @ es')))"

definition tool_response :: "string \<Rightarrow> bool" where
  "tool_response c \<longleftrightarrow> prefix ''<tool_response>'' c \<and> suffix ''</tool_response>'' c"

text \<open>The last message of the user that is not a tool's response, or the last message.\<close>

definition last_query_index :: "chat_message list \<Rightarrow> int" where
  "last_query_index ms =
     (case find (\<lambda>i. cm_role (ms ! i) = ''user'' \<and> \<not> tool_response (trim_ws (flat_text (ms ! i)))) (rev [0..<length ms]) of
        Some i \<Rightarrow> int i
      | None \<Rightarrow> int (length ms) - 1)"

definition has_system :: "chat_message list \<Rightarrow> bool" where
  "has_system ms \<longleftrightarrow> ms \<noteq> [] \<and> cm_role (hd ms) = ''system''"

definition header_emit :: "chat_ids \<Rightarrow> chat_options \<Rightarrow> chat_message list \<Rightarrow> emission list" where
  "header_emit ci opt ms =
     (if co_tools opt \<noteq> [] then
        [Tok (ci_start ci), Txt (''system'' @ NL), Txt (''# Tools'' @ NL @ NL @ ''You have access to the following functions:'' @ NL @ NL @ ''<tools>'')] @
        map (\<lambda>t. Txt (NL @ t)) (co_tools opt) @ [Txt (NL @ ''</tools>''), Txt TOOL_INSTRUCTIONS] @
        (if has_system ms then (let c = trim_ws (flat_text (hd ms)) in if c = [] then [] else [Txt (NL @ NL @ c)]) else []) @
        [Tok (ci_end ci), Txt NL]
      else if has_system ms then [Tok (ci_start ci), Txt (''system'' @ NL @ trim_ws (flat_text (hd ms))), Tok (ci_end ci), Txt NL]
      else [])"

definition gen_emit :: "chat_ids \<Rightarrow> chat_options \<Rightarrow> emission list" where
  "gen_emit ci opt =
     (if co_gen_prompt opt then
        [Gen, Tok (ci_start ci), Txt (''assistant'' @ NL)] @
        (if 0 \<le> ci_think ci then
           (if \<not> co_reasoning opt \<and> 0 \<le> ci_unthink ci then [Tok (ci_think ci), Txt (NL @ NL), Tok (ci_unthink ci), Txt (NL @ NL)]
            else [Tok (ci_think ci), Txt NL])
         else [])
      else [])"

text \<open>A base model without ChatML tokens.\<close>

definition plain_prompt :: "chat_message list \<Rightarrow> chat_options \<Rightarrow> exn + emission list" where
  "plain_prompt ms opt =
     (if list_ex has_image ms then Inl NO_CHATML
      else Inr (map (\<lambda>m. Txt (cm_role m @ '': '' @ flat_text m @ NL)) ms @ (if co_gen_prompt opt then [Gen, Txt ''assistant: ''] else [])))"

definition qwen_emissions :: "tokenizer \<Rightarrow> chat_message list \<Rightarrow> chat_options \<Rightarrow> exn + emission list" where
  "qwen_emissions tk ms opt =
     (let ci = chat_ids_of tk in
      if is_lfm2 tk then build_lfm2_prompt tk ms opt
      else if ci_start ci < 0 \<or> ci_end ci < 0 then
        (case plain_prompt ms opt of Inl e \<Rightarrow> Inl e | Inr es \<Rightarrow> Inr (emit_bos tk @ es))
      else if has_system ms \<and> has_image (hd ms) then Inl SYSTEM_IMAGE
      else
        let b = (if has_system ms then 1 else 0) in
        (case messages_emit ci opt ms b (last_query_index ms) [b..<length ms] 0 of
           Inl e \<Rightarrow> Inl e
         | Inr es \<Rightarrow> Inr (emit_bos tk @ header_emit ci opt ms @ es @ gen_emit ci opt)))"

definition build_qwen_prompt :: "tokenizer \<Rightarrow> chat_message list \<Rightarrow> chat_options \<Rightarrow> exn + chat_prompt" where
  "build_qwen_prompt tk ms opt =
     (case qwen_emissions tk ms opt of Inl e \<Rightarrow> Inl e | Inr es \<Rightarrow> Inr (run_emissions tk (run_length opt) (ci_pad (chat_ids_of tk)) es))"

subsection \<open>The tokens of a run\<close>

text \<open>Every run of image placeholders stands between its markers.\<close>

inductive framed :: "chat_ids \<Rightarrow> emission list \<Rightarrow> bool" for ci where
  framed_Nil: "framed ci []"
| framed_Txt: "framed ci es \<Longrightarrow> framed ci (Txt s # es)"
| framed_Tok: "framed ci es \<Longrightarrow> framed ci (Tok t # es)"
| framed_Img: "framed ci es \<Longrightarrow> framed ci (Tok (ci_vis_start ci) # Img k # Tok (ci_vis_end ci) # es)"

declare framed.intros [intro, simp]

lemma framed_append: "framed ci xs \<Longrightarrow> framed ci ys \<Longrightarrow> framed ci (xs @ ys)"
  by (induction rule: framed.induct) auto

lemma framed_concat: "(\<And>xs. xs \<in> set xss \<Longrightarrow> framed ci xs) \<Longrightarrow> framed ci (concat xss)"
  by (induction xss) (auto intro: framed_append)

fun img_of :: "emission \<Rightarrow> int option" where
  "img_of (Img k) = Some k"
| "img_of _ = None"

definition imgs_of :: "emission list \<Rightarrow> int list" where
  "imgs_of es = List.map_filter img_of es"

lemma imgs_of_simps [simp]:
  "imgs_of [] = []" "imgs_of (Txt s # es) = imgs_of es" "imgs_of (Tok t # es) = imgs_of es" "imgs_of (Gen # es) = imgs_of es"
  "imgs_of (Img k # es) = k # imgs_of es" "imgs_of (xs @ ys) = imgs_of xs @ imgs_of ys"
  by (simp_all add: imgs_of_def map_filter_simps List.map_filter_def)

lemma imgs_of_concat: "imgs_of (concat xss) = concat (map imgs_of xss)"
  by (induction xss) simp_all

definition span_ok :: "chat_ids \<Rightarrow> nat \<Rightarrow> int list \<Rightarrow> image_run \<Rightarrow> bool" where
  "span_ok ci n ids s \<longleftrightarrow> ir_count s = n \<and> 0 < ir_first s \<and> ir_first s + n < length ids \<and>
     ids ! (ir_first s - 1) = ci_vis_start ci \<and> ids ! (ir_first s + n) = ci_vis_end ci \<and> (\<forall>j < n. ids ! (ir_first s + j) = ci_pad ci)"

lemma span_ok_append: "span_ok ci n ids s \<Longrightarrow> span_ok ci n (ids @ x) s"
  by (auto simp: span_ok_def nth_append)

definition apart :: "image_run \<Rightarrow> image_run \<Rightarrow> bool" where
  "apart s s' \<longleftrightarrow> ir_first s + ir_count s < ir_first s'"

text \<open>What a run adds: tokens, spans that stand in them, apart and in order, and the position of the generation prompt is kept.\<close>

definition ran :: "chat_ids \<Rightarrow> nat \<Rightarrow> emission list \<Rightarrow> chat_prompt \<Rightarrow> chat_prompt \<Rightarrow> bool" where
  "ran ci n es p p' \<longleftrightarrow> (\<exists>ids ss. cp_ids p' = cp_ids p @ ids \<and> cp_spans p' = cp_spans p @ ss \<and> map ir_index ss = imgs_of es \<and>
     (\<forall>s \<in> set ss. span_ok ci n (cp_ids p') s \<and> length (cp_ids p) < ir_first s) \<and> sorted_wrt apart ss \<and>
     cp_gen p' = cp_gen p)"

lemma ran_step:
  assumes "ran ci n es p1 p'" "cp_ids p1 = cp_ids p @ new" "cp_spans p1 = cp_spans p" "imgs_of es' = imgs_of es"
    "cp_gen p1 = cp_gen p"
  shows "ran ci n es' p p'"
proof -
  obtain ids ss where h: "cp_ids p' = cp_ids p1 @ ids" "cp_spans p' = cp_spans p1 @ ss" "map ir_index ss = imgs_of es"
    "\<forall>s \<in> set ss. span_ok ci n (cp_ids p') s \<and> length (cp_ids p1) < ir_first s" "sorted_wrt apart ss"
    "cp_gen p' = cp_gen p1"
    using assms(1) unfolding ran_def by blast
  show ?thesis
    unfolding ran_def by (rule exI[of _ "new @ ids"], rule exI[of _ ss]) (use h assms(2-5) in auto)
qed

lemma emit_framed: "framed ci es \<Longrightarrow> ran ci n es p (fold (emit1 tk n (ci_pad ci)) es p)"
proof (induction arbitrary: p rule: framed.induct)
  case framed_Nil
  then show ?case by (simp add: ran_def)
next
  case (framed_Txt es s)
  show ?case by (rule ran_step[where p = p and new = "text_ids tk s", OF framed_Txt.IH[of "emit1 tk n (ci_pad ci) (Txt s) p", folded fold_simps(2)[of _ "Txt s"]]]) simp_all
next
  case (framed_Tok es t)
  show ?case by (rule ran_step[where p = p and new = "[t]", OF framed_Tok.IH[of "emit1 tk n (ci_pad ci) (Tok t) p", folded fold_simps(2)[of _ "Tok t"]]]) simp_all
next
  case (framed_Img es k)
  let ?s = "\<lparr>ir_first = length (cp_ids p) + 1, ir_count = n, ir_index = k\<rparr>"
  let ?p = "p\<lparr>cp_spans := cp_spans p @ [?s], cp_ids := cp_ids p @ ci_vis_start ci # replicate n (ci_pad ci) @ [ci_vis_end ci]\<rparr>"
  have run: "fold (emit1 tk n (ci_pad ci)) (Tok (ci_vis_start ci) # Img k # Tok (ci_vis_end ci) # es) p = fold (emit1 tk n (ci_pad ci)) es ?p"
    by simp
  obtain ids ss where h: "cp_ids (fold (emit1 tk n (ci_pad ci)) es ?p) = cp_ids ?p @ ids" "cp_spans (fold (emit1 tk n (ci_pad ci)) es ?p) = cp_spans ?p @ ss"
    "map ir_index ss = imgs_of es" "\<forall>s \<in> set ss. span_ok ci n (cp_ids (fold (emit1 tk n (ci_pad ci)) es ?p)) s \<and> length (cp_ids ?p) < ir_first s"
    "sorted_wrt apart ss" "cp_gen (fold (emit1 tk n (ci_pad ci)) es ?p) = cp_gen ?p"
    using framed_Img.IH[of ?p] unfolding ran_def by blast
  have "span_ok ci n (cp_ids ?p) ?s" by (auto simp: span_ok_def nth_append nth_Cons')
  then have s: "span_ok ci n (cp_ids ?p @ ids) ?s" by (rule span_ok_append)
  have a: "apart ?s s'" if "length (cp_ids ?p) < ir_first s'" for s' using that by (simp add: apart_def)
  show ?case
    unfolding run ran_def
    by (rule exI[of _ "(ci_vis_start ci # replicate n (ci_pad ci) @ [ci_vis_end ci]) @ ids"], rule exI[of _ "?s # ss"]) (use h s a in auto)
qed


lemma framed_texts [simp]: "framed ci (map Txt ss)" by (induction ss) auto

lemma imgs_of_texts [simp]: "imgs_of (map Txt ss) = []" by (induction ss) auto

definition textual :: "emission list \<Rightarrow> bool" where "textual es \<longleftrightarrow> (\<forall>e \<in> set es. case e of Txt s \<Rightarrow> True | Tok t \<Rightarrow> True | _ \<Rightarrow> False)"

lemma textual_simps [simp]:
  "textual []" "textual (Txt s # es) = textual es" "textual (Tok t # es) = textual es" "\<not> textual (Gen # es)"
  "textual (xs @ ys) \<longleftrightarrow> textual xs \<and> textual ys" "textual (map Txt ss)" "textual (if b then xs else ys) \<longleftrightarrow> (if b then textual xs else textual ys)"
  by (auto simp: textual_def)

lemma textual_concat [simp]: "textual (concat xss) \<longleftrightarrow> (\<forall>xs \<in> set xss. textual xs)"
  by (induction xss) auto

lemma textual_framed: "textual es \<Longrightarrow> framed ci es \<and> imgs_of es = []"
proof (induction es)
  case (Cons e es)
  then show ?case by (cases e) (auto simp: textual_def)
qed simp

text \<open>Only the content of a user's message emits images.\<close>

lemma textual_emit_bos [simp]: "textual (emit_bos tk)" by (simp add: emit_bos_def)

lemma textual_lfm2_message [simp]: "textual (lfm2_message tk opt lu i m)" by (simp add: lfm2_message_def Let_def)

lemma textual_call_emit [simp]: "textual (call_emit c k tc)" by (simp add: call_emit_def)

lemma textual_assistant [simp]: "textual (assistant_emit ci opt lq i m)"
  by (simp add: assistant_emit_def Let_def calls_emit_def split: prod.splits)

lemma textual_tool [simp]: "textual (tool_emit ci ms b i)" by (simp add: tool_emit_def Let_def)

lemma textual_map_Txt [simp]: "textual (map (\<lambda>t. Txt (f t)) ts)" by (induction ts) auto

lemma textual_header [simp]: "textual (header_emit ci opt ms)" by (simp add: header_emit_def Let_def)

lemma textual_plain: "plain_prompt ms opt = Inr es \<Longrightarrow> \<not> co_gen_prompt opt \<Longrightarrow> textual es \<and> \<not> list_ex has_image ms"
  by (auto simp: plain_prompt_def split: if_splits)

lemma textual_lfm2: "build_lfm2_prompt tk ms opt = Inr es \<Longrightarrow> \<not> co_gen_prompt opt \<Longrightarrow> textual es \<and> \<not> list_ex has_image ms"
  by (auto simp: build_lfm2_prompt_def Let_def split: if_splits)

text \<open>The images of a message.\<close>

fun part_img :: "content_part \<Rightarrow> int option" where
  "part_img (Text_part t) = None"
| "part_img (Image_part k) = Some k"

definition msg_images :: "chat_message \<Rightarrow> int list" where
  "msg_images m = List.map_filter part_img (cm_parts m)"

lemma part_imgs_simps [simp]:
  "List.map_filter part_img [] = []" "List.map_filter part_img (Text_part t # ps) = List.map_filter part_img ps"
  "List.map_filter part_img (Image_part k # ps) = k # List.map_filter part_img ps"
  "List.map_filter part_img (xs @ ys) = List.map_filter part_img xs @ List.map_filter part_img ys"
  by (simp_all add: List.map_filter_def)

lemma no_images: "\<not> has_image m \<Longrightarrow> msg_images m = []"
proof -
  have "\<not> list_ex is_image ps \<Longrightarrow> List.map_filter part_img ps = []" for ps
  proof (induction ps)
    case (Cons q ps)
    then show ?case by (cases q) auto
  qed simp
  then show "\<not> has_image m \<Longrightarrow> msg_images m = []" by (simp add: has_image_def msg_images_def)
qed

lemma segs_framed: "framed ci (concat (map (seg_emit ci) segs)) \<and> imgs_of (concat (map (seg_emit ci) segs)) = List.map_filter part_img segs"
proof (induction segs)
  case (Cons q segs)
  then show ?case by (cases q) auto
qed simp

lemma trim_images [simp]: "List.map_filter part_img (trim_back_seg (trim_front segs)) = List.map_filter part_img segs"
proof -
  have f: "List.map_filter part_img (trim_front segs) = List.map_filter part_img segs" for segs
    by (auto simp: trim_front_def split: list.splits content_part.splits)
  have b: "List.map_filter part_img (trim_back_seg segs) = List.map_filter part_img segs" for segs
  proof (cases segs rule: rev_cases)
    case (snoc ss q)
    then show ?thesis by (cases q) (auto simp: trim_back_seg_def)
  qed (simp add: trim_back_seg_def)
  show ?thesis using f b by simp
qed

lemma part_segs_images: "part_segs ci v sys ps k = Inr (segs, k') \<Longrightarrow> List.map_filter part_img segs = List.map_filter part_img ps"
proof (induction ps arbitrary: k segs)
  case (Cons q ps)
  then show ?case by (cases q) (auto split: sum.splits if_splits)
qed simp

lemma emit_content_framed:
  "emit_content ci opt m sys k = Inr (es, k') \<Longrightarrow> framed ci es \<and> imgs_of es = msg_images m"
  by (auto simp: emit_content_def msg_images_def segs_framed part_segs_images split: sum.splits if_splits)

definition user_images :: "chat_message \<Rightarrow> int list" where
  "user_images m = (if cm_role m = ''user'' then msg_images m else [])"

lemma message_emit_framed: "message_emit ci opt ms b lq i k = Inr (es, k') \<Longrightarrow> framed ci es \<and> imgs_of es = user_images (ms ! i)"
  by (auto simp: message_emit_def Let_def user_images_def textual_framed framed_append dest!: emit_content_framed split: sum.splits if_splits)

lemma messages_emit_framed:
  "messages_emit ci opt ms b lq js k = Inr es \<Longrightarrow> framed ci es \<and> imgs_of es = concat (map (\<lambda>i. user_images (ms ! i)) js)"
proof (induction js arbitrary: k es)
  case (Cons i js)
  then show ?case by (auto simp: framed_append dest!: message_emit_framed split: sum.splits prod.splits)
qed simp

lemma user_images_from:
  assumes "b \<le> length ms" "concat (map user_images (take b ms)) = []"
  shows "concat (map (\<lambda>i. user_images (ms ! i)) [b..<length ms]) = concat (map user_images ms)"
proof -
  have "map (\<lambda>i. user_images (ms ! i)) [b..<length ms] = map user_images (drop b ms)"
    by (rule nth_equalityI) (simp_all add: assms(1))
  moreover have "concat (map user_images ms) = concat (map user_images (take b ms)) @ concat (map user_images (drop b ms))"
    by (metis append_take_drop_id concat_append map_append)
  ultimately show ?thesis using assms(2) by simp
qed

lemma qwen_framed:
  assumes "qwen_emissions tk ms opt = Inr es" "\<not> co_gen_prompt opt"
  shows "framed (chat_ids_of tk) es" "imgs_of es = concat (map user_images ms)"
proof -
  let ?ci = "chat_ids_of tk"
  have none: "concat (map user_images ms) = []" if "\<not> list_ex has_image ms"
    using that by (auto simp: list_ex_iff user_images_def no_images)
  have "framed ?ci es \<and> imgs_of es = concat (map user_images ms)"
  proof (cases "is_lfm2 tk \<or> ci_start ?ci < 0 \<or> ci_end ?ci < 0")
    case True
    then have "textual es \<and> \<not> list_ex has_image ms"
      using assms by (auto simp: qwen_emissions_def Let_def dest: textual_lfm2 textual_plain split: if_splits sum.splits)
    then show ?thesis using none textual_framed by auto
  next
    case other: False
    define b :: nat where "b = (if has_system ms then 1 else 0)"
    obtain es' where m: "messages_emit ?ci opt ms b (last_query_index ms) [b..<length ms] 0 = Inr es'"
      and es: "es = emit_bos tk @ header_emit ?ci opt ms @ es' @ gen_emit ?ci opt"
      using assms(1) other by (auto simp: qwen_emissions_def Let_def b_def split: if_splits sum.splits)
    have g: "gen_emit ?ci opt = []" using assms(2) by (simp add: gen_emit_def)
    have "b \<le> length ms" by (cases ms) (auto simp: b_def has_system_def)
    moreover have "concat (map user_images (take b ms)) = []" by (cases ms) (auto simp: b_def has_system_def user_images_def)
    ultimately have "imgs_of es' = concat (map user_images ms)" using messages_emit_framed[OF m] user_images_from by simp
    then show ?thesis
      using messages_emit_framed[OF m] textual_framed unfolding es by (simp add: framed_append textual_framed g)
  qed
  then show "framed ?ci es" "imgs_of es = concat (map user_images ms)" by simp_all
qed


subsection \<open>The generation prompt\<close>

definition gen_part :: "tokenizer \<Rightarrow> chat_options \<Rightarrow> emission list" where
  "gen_part tk opt =
     (if is_lfm2 tk then [Tok (token_to_id tk ''<|im_start|>''), Txt (''assistant'' @ NL)]
      else if ci_start (chat_ids_of tk) < 0 \<or> ci_end (chat_ids_of tk) < 0 then [Txt ''assistant: '']
      else tl (gen_emit (chat_ids_of tk) (opt\<lparr>co_gen_prompt := True\<rparr>)))"

definition no_gen :: "chat_options \<Rightarrow> chat_options" where
  "no_gen opt = opt\<lparr>co_gen_prompt := False\<rparr>"

lemma no_gen_simps [simp]:
  "\<not> co_gen_prompt (no_gen opt)" "co_reasoning (no_gen opt) = co_reasoning opt" "co_preserve (no_gen opt) = co_preserve opt"
  "co_vision_id (no_gen opt) = co_vision_id opt" "co_n_image (no_gen opt) = co_n_image opt" "co_tools (no_gen opt) = co_tools opt"
  "run_length (no_gen opt) = run_length opt"
  by (simp_all add: no_gen_def run_length_def)

lemma textual_gen_part [simp]: "textual (gen_part tk opt)"
  by (simp add: gen_part_def gen_emit_def)

lemma assistant_emit_no_gen: "assistant_emit ci (no_gen opt) = assistant_emit ci opt"
  by (intro ext) (simp add: assistant_emit_def)

lemma emit_content_no_gen: "emit_content ci (no_gen opt) = emit_content ci opt"
  by (intro ext) (simp add: emit_content_def)

lemma message_emit_no_gen [simp]: "message_emit ci (no_gen opt) = message_emit ci opt"
  unfolding message_emit_def assistant_emit_no_gen emit_content_no_gen ..

lemma messages_emit_no_gen [simp]: "messages_emit ci (no_gen opt) ms b lq js k = messages_emit ci opt ms b lq js k"
  by (induction js arbitrary: k) (simp_all split: sum.splits prod.splits)

lemma lfm2_no_gen [simp]: "lfm2_message tk (no_gen opt) lu i m = lfm2_message tk opt lu i m" "lfm2_system ms (no_gen opt) = lfm2_system ms opt"
  by (simp_all add: lfm2_message_def lfm2_system_def)

lemma header_no_gen [simp]: "header_emit ci (no_gen opt) ms = header_emit ci opt ms"
  by (simp add: header_emit_def)

lemma gen_emit_part:
  "\<not> is_lfm2 tk \<Longrightarrow> 0 \<le> ci_start (chat_ids_of tk) \<Longrightarrow> 0 \<le> ci_end (chat_ids_of tk) \<Longrightarrow>
   gen_emit (chat_ids_of tk) opt = (if co_gen_prompt opt then Gen # gen_part tk opt else [])"
  by (simp add: gen_part_def gen_emit_def)

lemma qwen_gen_split:
  "qwen_emissions tk ms opt =
     map_sum id (\<lambda>es. es @ (if co_gen_prompt opt then Gen # gen_part tk opt else [])) (qwen_emissions tk ms (no_gen opt))"
proof (cases "is_lfm2 tk \<or> ci_start (chat_ids_of tk) < 0 \<or> ci_end (chat_ids_of tk) < 0")
  case True
  then show ?thesis
    by (auto simp: qwen_emissions_def build_lfm2_prompt_def plain_prompt_def gen_part_def Let_def)
next
  case False
  then show ?thesis
    by (auto simp: qwen_emissions_def Let_def gen_emit_part split: sum.splits)
qed

lemma textual_run:
  "textual es \<Longrightarrow> \<exists>ids. \<forall>p. fold (emit1 tk n pad) es p = p\<lparr>cp_ids := cp_ids p @ ids\<rparr>"
proof (induction es)
  case (Cons e es)
  obtain ids where h: "\<And>p. fold (emit1 tk n pad) es p = p\<lparr>cp_ids := cp_ids p @ ids\<rparr>"
    using Cons by (auto simp: textual_def)
  obtain new where "\<And>p. emit1 tk n pad e p = p\<lparr>cp_ids := cp_ids p @ new\<rparr>"
    using Cons.prems by (cases e) (auto simp: textual_def)
  then show ?case using h by (intro exI[of _ "new @ ids"]) simp
qed (intro exI[of _ "[]"], simp)

text \<open>The tokens of the generation prompt; they do not depend on the conversation.\<close>

definition gen_ids :: "tokenizer \<Rightarrow> chat_options \<Rightarrow> int list" where
  "gen_ids tk opt = (if co_gen_prompt opt then cp_ids (run_emissions tk (run_length opt) (ci_pad (chat_ids_of tk)) (gen_part tk opt)) else [])"

lemma build_gen_split:
  assumes "build_qwen_prompt tk ms opt = Inr p"
  obtains q where "build_qwen_prompt tk ms (no_gen opt) = Inr q" "cp_spans p = cp_spans q" "cp_ids p = cp_ids q @ gen_ids tk opt"
    "cp_gen q = -1" "cp_gen p = (if co_gen_prompt opt then int (length (cp_ids q)) else -1)"
    "map ir_index (cp_spans q) = concat (map user_images ms)"
    "\<forall>s \<in> set (cp_spans q). span_ok (chat_ids_of tk) (run_length opt) (cp_ids q) s" "sorted_wrt apart (cp_spans q)"
proof -
  let ?ci = "chat_ids_of tk" and ?n = "run_length opt"
  obtain es where es: "qwen_emissions tk ms (no_gen opt) = Inr es"
    and p: "p = run_emissions tk ?n (ci_pad ?ci) (es @ (if co_gen_prompt opt then Gen # gen_part tk opt else []))"
    using assms qwen_gen_split[of tk ms opt] by (cases "qwen_emissions tk ms (no_gen opt)") (auto simp: build_qwen_prompt_def)
  define q where "q = run_emissions tk ?n (ci_pad ?ci) es"
  have q: "build_qwen_prompt tk ms (no_gen opt) = Inr q" by (simp add: build_qwen_prompt_def es q_def)
  have "ran ?ci ?n es \<lparr>cp_ids = [], cp_spans = [], cp_gen = -1\<rparr> q"
    unfolding q_def run_emissions_def by (rule emit_framed) (rule qwen_framed[OF es], simp)
  then have s: "map ir_index (cp_spans q) = concat (map user_images ms)" "\<forall>s \<in> set (cp_spans q). span_ok ?ci ?n (cp_ids q) s"
    "sorted_wrt apart (cp_spans q)" "cp_gen q = -1"
    using qwen_framed(2)[OF es] by (auto simp: ran_def)
  obtain g where g: "\<And>p. fold (emit1 tk ?n (ci_pad ?ci)) (gen_part tk opt) p = p\<lparr>cp_ids := cp_ids p @ g\<rparr>"
    using textual_run[OF textual_gen_part] by metis
  have "p = (if co_gen_prompt opt then q\<lparr>cp_gen := int (length (cp_ids q)), cp_ids := cp_ids q @ gen_ids tk opt\<rparr> else q)"
    unfolding p by (simp add: run_emissions_def q_def g gen_ids_def)
  then show ?thesis using that[OF q] s by (auto simp: gen_ids_def)
qed


lemma build_spans:
  assumes "build_qwen_prompt tk ms opt = Inr p"
  shows "map ir_index (cp_spans p) = concat (map user_images ms)"
    "\<forall>s \<in> set (cp_spans p). span_ok (chat_ids_of tk) (run_length opt) (cp_ids p) s" "sorted_wrt apart (cp_spans p)"
proof -
  obtain q where "build_qwen_prompt tk ms (no_gen opt) = Inr q" and q: "cp_spans p = cp_spans q" "cp_ids p = cp_ids q @ gen_ids tk opt"
    and "cp_gen q = -1" "cp_gen p = (if co_gen_prompt opt then int (length (cp_ids q)) else -1)"
    and q': "map ir_index (cp_spans q) = concat (map user_images ms)"
    "\<forall>s \<in> set (cp_spans q). span_ok (chat_ids_of tk) (run_length opt) (cp_ids q) s" "sorted_wrt apart (cp_spans q)"
    using build_gen_split[OF assms] .
  then show "map ir_index (cp_spans p) = concat (map user_images ms)"
    "\<forall>s \<in> set (cp_spans p). span_ok (chat_ids_of tk) (run_length opt) (cp_ids p) s" "sorted_wrt apart (cp_spans p)"
    using span_ok_append q' unfolding q by auto
qed

subsection \<open>Growing conversations\<close>

lemma messages_emit_append:
  "messages_emit ci opt ms b lq (js1 @ js2) k = Inr es \<Longrightarrow> \<exists>es1. messages_emit ci opt ms b lq js1 k = Inr es1 \<and> prefix es1 es"
proof (induction js1 arbitrary: k es)
  case (Cons i js1)
  obtain es0 k' es' where "message_emit ci opt ms b lq i k = Inr (es0, k')" "messages_emit ci opt ms b lq (js1 @ js2) k' = Inr es'" "es = es0 @ es'"
    using Cons.prems by (auto split: sum.splits)
  then show ?case using Cons.IH[of k' es'] by auto
qed simp

lemma messages_emit_cong:
  "(\<And>i k. i \<in> set js \<Longrightarrow> message_emit ci opt ms b lq i k = message_emit ci opt ms' b lq' i k) \<Longrightarrow>
   messages_emit ci opt ms b lq js k = messages_emit ci opt ms' b lq' js k"
  by (induction js arbitrary: k) (auto split: sum.splits prod.splits)

text \<open>The last query only moves on.\<close>

lemma last_query_mono: "last_query_index ms \<le> last_query_index (ms @ rest)"
proof -
  let ?P = "\<lambda>ms i. cm_role (ms ! i) = ''user'' \<and> \<not> tool_response (trim_ws (flat_text (ms ! i)))"
  have u: "rev [0..<length (ms @ rest)] = rev [length ms..<length (ms @ rest)] @ rev [0..<length ms]"
    by (simp add: upt_add_eq_append[of 0 "length ms" "length rest", simplified])
  have o: "find (?P (ms @ rest)) (rev [0..<length ms]) = find (?P ms) (rev [0..<length ms])"
    by (rule find_cong) (auto simp: nth_append)
  have below: "int k \<le> int (length ms) - 1" if "find (?P ms) (rev [0..<length ms]) = Some k" for k
  proof -
    have "k \<in> set (rev [0..<length ms])" using that by (auto simp: find_Some_iff intro: nth_mem simp del: set_rev set_upt)
    then show ?thesis by auto
  qed
  show ?thesis
  proof (cases "find (?P (ms @ rest)) (rev [length ms..<length (ms @ rest)])")
    case None
    then have "find (?P (ms @ rest)) (rev [0..<length (ms @ rest)]) = find (?P ms) (rev [0..<length ms])"
      unfolding u find_append o by simp
    then show ?thesis by (simp add: last_query_index_def split: option.splits)
  next
    case (Some k)
    then have "find (?P (ms @ rest)) (rev [0..<length (ms @ rest)]) = Some k" unfolding u find_append by simp
    moreover have "k \<in> set (rev [length ms..<length (ms @ rest)])" using Some by (auto simp: find_Some_iff intro: nth_mem simp del: set_rev set_upt)
    then have "length ms \<le> k" by simp
    ultimately show ?thesis using below by (fastforce simp: last_query_index_def split: option.splits)
  qed
qed

lemma last_user_step: "r < int b \<Longrightarrow> r \<le> fold (\<lambda>i r. if cm_role (ms ! i) = ''user'' then int i else r) [b..<n] r"
  by (induction n) auto

lemma last_user_bound: "r < int b \<Longrightarrow> b \<le> n \<Longrightarrow> fold (\<lambda>i r. if cm_role (ms ! i) = ''user'' then int i else r) [b..<n] r < int n"
  by (induction n) (auto simp: le_Suc_eq)

lemma last_user_mono: "b \<le> length ms \<Longrightarrow> last_user ms b \<le> last_user (ms @ rest) b"
proof -
  assume b: "b \<le> length ms"
  let ?f = "\<lambda>ms i r. if cm_role (ms ! i) = ''user'' then int i else r"
  have "fold (?f (ms @ rest)) [b..<length ms] (-1) = fold (?f ms) [b..<length ms] (-1)"
    by (rule fold_cong) (auto simp: nth_append)
  moreover have "[b..<length (ms @ rest)] = [b..<length ms] @ [length ms..<length (ms @ rest)]" using upt_add_eq_append[OF b] by simp
  ultimately have "last_user (ms @ rest) b = fold (?f (ms @ rest)) [length ms..<length (ms @ rest)] (last_user ms b)"
    by (simp add: last_user_def)
  moreover have "last_user ms b < int (length ms)" unfolding last_user_def by (rule last_user_bound) (use b in auto)
  ultimately show ?thesis using last_user_step[of "last_user ms b" "length ms" "ms @ rest" "length (ms @ rest)"] by simp
qed

text \<open>
  A turn is stable when it is rendered the same wherever the conversation goes on: an assistant's turn before the last
  query, or one whose reasoning is kept.
\<close>

definition stable_turn :: "tokenizer \<Rightarrow> chat_options \<Rightarrow> chat_message list \<Rightarrow> nat \<Rightarrow> bool" where
  "stable_turn tk opt ms i \<longleftrightarrow> cm_role (ms ! i) \<noteq> ''assistant'' \<or>
     (if is_lfm2 tk then co_preserve opt \<or> int i \<le> last_user ms (if has_system ms then 1 else 0)
      else int i \<le> last_query_index ms \<or> co_preserve opt \<and> trim_ws (fst (split_think (ms ! i))) \<noteq> [])"

definition stable_history :: "tokenizer \<Rightarrow> chat_options \<Rightarrow> chat_message list \<Rightarrow> bool" where
  "stable_history tk opt ms \<longleftrightarrow> (\<forall>i < length ms. stable_turn tk opt ms i)"

definition stable_end :: "chat_message list \<Rightarrow> chat_message list \<Rightarrow> bool" where
  "stable_end ms rest \<longleftrightarrow> ms \<noteq> [] \<and> \<not> (cm_role (last ms) = ''tool'' \<and> rest \<noteq> [] \<and> cm_role (hd rest) = ''tool'')"

lemma assistant_stable:
  "stable_turn tk opt ms i \<Longrightarrow> \<not> is_lfm2 tk \<Longrightarrow> cm_role (ms ! i) = ''assistant'' \<Longrightarrow>
   assistant_emit ci opt (last_query_index (ms @ rest)) i (ms ! i) = assistant_emit ci opt (last_query_index ms) i (ms ! i)"
  using last_query_mono[of ms rest] by (auto simp: assistant_emit_def stable_turn_def Let_def split: prod.splits)

text \<open>A conversation that ends in a query of the user is stable.\<close>

lemma query_stable:
  assumes "ms \<noteq> []" "cm_role (last ms) = ''user''" "\<not> tool_response (trim_ws (flat_text (last ms)))"
  shows "stable_history tk opt ms"
proof -
  obtain ms' m where ms: "ms = ms' @ [m]" using assms(1) by (cases ms rule: rev_cases) auto
  have "last_query_index ms = int (length ms) - 1" using assms(2,3) by (simp add: last_query_index_def ms nth_append)
  moreover have "last_user ms b = int (length ms) - 1" if "b < length ms" for b
    using that assms(2) by (simp add: last_user_def ms nth_append)
  moreover have "(if has_system ms then 1 else 0) < length ms" using assms(2) by (cases ms') (auto simp: ms has_system_def)
  ultimately show ?thesis unfolding stable_history_def stable_turn_def by (auto simp del: One_nat_def)
qed

lemma tool_stable:
  assumes "stable_end ms rest" "i < length ms" "cm_role (ms ! i) = ''tool''"
  shows "tool_emit ci (ms @ rest) b i = tool_emit ci ms b i"
proof -
  have "(i + 1 < length (ms @ rest) \<and> cm_role ((ms @ rest) ! (i + 1)) = ''tool'') = (i + 1 < length ms \<and> cm_role (ms ! (i + 1)) = ''tool'')"
  proof (cases "i + 1 < length ms")
    case False
    then have "i = length ms - 1" using assms(2) by simp
    then have "last ms = ms ! i" using assms(2) by (cases ms) (simp_all add: last_conv_nth)
    moreover have "i + 1 = length ms" using False assms(2) by simp
    ultimately show ?thesis
      using assms(1,3) by (cases rest) (auto simp: stable_end_def nth_append)
  qed (simp add: nth_append)
  moreover have "(ms @ rest) ! (i - 1) = ms ! (i - 1)" "(ms @ rest) ! i = ms ! i" using assms(2) by (simp_all add: nth_append)
  ultimately show ?thesis by (simp add: tool_emit_def)
qed

lemma message_stable:
  assumes "stable_end ms rest" "stable_history tk opt ms" "\<not> is_lfm2 tk" "i < length ms"
  shows "message_emit ci opt (ms @ rest) b (last_query_index (ms @ rest)) i k = message_emit ci opt ms b (last_query_index ms) i k"
proof -
  have m: "(ms @ rest) ! i = ms ! i" "stable_turn tk opt ms i" using assms(2,4) by (simp_all add: nth_append stable_history_def)
  show ?thesis
  proof (cases "cm_role (ms ! i) = ''assistant''")
    case True
    then show ?thesis using assistant_stable[OF m(2) assms(3) True, of ci rest] unfolding message_emit_def m(1) by (simp add: Let_def)
  next
    case ns: False
    show ?thesis
    proof (cases "cm_role (ms ! i) = ''tool''")
      case True
      then show ?thesis unfolding message_emit_def m(1) tool_stable[OF assms(1,4) True] by (simp add: Let_def)
    next
      case False
      then show ?thesis unfolding message_emit_def m(1) using ns by (simp add: Let_def)
    qed
  qed
qed

lemma upt_split: "b \<le> m \<Longrightarrow> [b..<m + n] = [b..<m] @ [m..<m + n]"
  using upt_add_eq_append by blast

lemma lfm2_grows:
  assumes "build_lfm2_prompt tk (ms @ rest) opt = Inr es" "\<not> co_gen_prompt opt" "ms \<noteq> []" "stable_history tk opt ms" "is_lfm2 tk"
  shows "\<exists>es0. build_lfm2_prompt tk ms opt = Inr es0 \<and> prefix es0 es"
proof -
  define b :: nat where "b = (if cm_role (hd ms) = ''system'' then 1 else 0)"
  let ?lu = "last_user (ms @ rest) b" and ?lu' = "last_user ms b"
  have b: "b \<le> length ms" using assms(3) by (cases ms) (auto simp: b_def)
  have b': "b = (if has_system ms then 1 else 0)" using assms(3) by (simp add: b_def has_system_def)
  have m: "lfm2_message tk opt ?lu i ((ms @ rest) ! i) = lfm2_message tk opt ?lu' i (ms ! i)" if "i \<in> set [b..<length ms]" for i
  proof -
    have i: "i < length ms" "(ms @ rest) ! i = ms ! i" using that by (simp_all add: nth_append)
    have "stable_turn tk opt ms i" using assms(4) i(1) by (simp add: stable_history_def)
    then show ?thesis
      using last_user_mono[OF b, of rest] assms(5) by (auto simp: lfm2_message_def i(2) stable_turn_def b'[symmetric] Let_def)
  qed
  have eq: "map (\<lambda>i. lfm2_message tk opt ?lu i ((ms @ rest) ! i)) [b..<length ms] = map (\<lambda>i. lfm2_message tk opt ?lu' i (ms ! i)) [b..<length ms]"
    by (rule map_cong) (simp_all add: m)
  have split: "concat (map (\<lambda>i. lfm2_message tk opt ?lu i ((ms @ rest) ! i)) [b..<length ms + length rest]) =
      concat (map (\<lambda>i. lfm2_message tk opt ?lu' i (ms ! i)) [b..<length ms]) @
      concat (map (\<lambda>i. lfm2_message tk opt ?lu i ((ms @ rest) ! i)) [length ms..<length ms + length rest])"
    unfolding upt_split[OF b] map_append concat_append eq ..
  have sys: "lfm2_system (ms @ rest) opt = lfm2_system ms opt" using assms(3) by (simp add: lfm2_system_def)
  have hd: "hd (ms @ rest) = hd ms" "ms @ rest \<noteq> []" using assms(3) by simp_all
  have img: "\<not> list_ex has_image (ms @ rest)" using assms(1) by (auto simp: build_lfm2_prompt_def)
  let ?S = "if lfm2_system ms opt = [] then []
     else [Tok (token_to_id tk ''<|im_start|>''), Txt (''system'' @ NL @ lfm2_system ms opt), Tok (token_to_id tk ''<|im_end|>''), Txt NL]"
  have "es = emit_bos tk @ ?S @ concat (map (\<lambda>i. lfm2_message tk opt (last_user (ms @ rest) b) i ((ms @ rest) ! i)) [b..<length ms + length rest])"
    using assms(1,2) img hd by (simp add: build_lfm2_prompt_def Let_def b_def sys)
  moreover have "build_lfm2_prompt tk ms opt = Inr (emit_bos tk @ ?S @ concat (map (\<lambda>i. lfm2_message tk opt (last_user ms b) i (ms ! i)) [b..<length ms]))"
    using assms(2,3) img by (simp add: build_lfm2_prompt_def Let_def b_def)
  ultimately show ?thesis unfolding split by simp
qed

lemma qwen_grows:
  assumes "qwen_emissions tk (ms @ rest) opt = Inr es" "\<not> co_gen_prompt opt" "stable_end ms rest" "stable_history tk opt ms"
  shows "\<exists>es0. qwen_emissions tk ms opt = Inr es0 \<and> prefix es0 es"
proof -
  let ?ci = "chat_ids_of tk"
  have ne: "ms \<noteq> []" using assms(3) by (simp add: stable_end_def)
  consider (l) "is_lfm2 tk" | (p) "\<not> is_lfm2 tk" "ci_start ?ci < 0 \<or> ci_end ?ci < 0" | (q) "\<not> is_lfm2 tk" "0 \<le> ci_start ?ci" "0 \<le> ci_end ?ci"
    by linarith
  then show ?thesis
  proof cases
    case l
    then have "build_lfm2_prompt tk (ms @ rest) opt = Inr es" using assms(1) by (simp add: qwen_emissions_def)
    then show ?thesis using lfm2_grows[OF _ assms(2) ne assms(4) l] l by (auto simp: qwen_emissions_def)
  next
    case p
    then show ?thesis using assms(1,2) by (auto simp: qwen_emissions_def plain_prompt_def split: if_splits)
  next
    case q
    define b :: nat where "b = (if has_system ms then 1 else 0)"
    have b: "b \<le> length ms" using ne by (cases ms) (auto simp: b_def)
    have s: "has_system (ms @ rest) = has_system ms" "hd (ms @ rest) = hd ms" using ne by (simp_all add: has_system_def)
    have h: "header_emit ?ci opt (ms @ rest) = header_emit ?ci opt ms" by (simp add: header_emit_def s)
    obtain es' where m: "messages_emit ?ci opt (ms @ rest) b (last_query_index (ms @ rest)) [b..<length (ms @ rest)] 0 = Inr es'"
      and es: "es = emit_bos tk @ header_emit ?ci opt ms @ es' @ gen_emit ?ci opt" and im: "\<not> (has_system ms \<and> has_image (hd ms))"
      using assms(1) q unfolding qwen_emissions_def s by (auto simp: Let_def b_def h split: if_splits sum.splits)
    have "[b..<length (ms @ rest)] = [b..<length ms] @ [length ms..<length (ms @ rest)]" using upt_split[OF b] by simp
    then obtain es1 where 1: "messages_emit ?ci opt (ms @ rest) b (last_query_index (ms @ rest)) [b..<length ms] 0 = Inr es1" "prefix es1 es'"
      using messages_emit_append m by metis
    have "messages_emit ?ci opt (ms @ rest) b (last_query_index (ms @ rest)) [b..<length ms] 0 = messages_emit ?ci opt ms b (last_query_index ms) [b..<length ms] 0"
      by (rule messages_emit_cong) (simp add: message_stable[OF assms(3,4) q(1)])
    then have "qwen_emissions tk ms opt = Inr (emit_bos tk @ header_emit ?ci opt ms @ es1 @ gen_emit ?ci opt)"
      using q im 1(1) by (auto simp: qwen_emissions_def Let_def b_def)
    moreover have "gen_emit ?ci opt = []" using assms(2) by (simp add: gen_emit_def)
    ultimately show ?thesis using es 1(2) by simp
  qed
qed

lemma fold_emit_prefix: "prefix (cp_ids p) (cp_ids (fold (emit1 tk n pad) es p)) \<and> prefix (cp_spans p) (cp_spans (fold (emit1 tk n pad) es p))"
proof (induction es arbitrary: p)
  case (Cons e es)
  have "prefix (cp_ids p) (cp_ids (emit1 tk n pad e p)) \<and> prefix (cp_spans p) (cp_spans (emit1 tk n pad e p))" by (cases e) auto
  then show ?case using Cons[of "emit1 tk n pad e p"] by (auto intro: prefix_order.trans)
qed simp

lemma emit_prefix:
  "prefix es es' \<Longrightarrow> prefix (cp_ids (run_emissions tk n pad es)) (cp_ids (run_emissions tk n pad es')) \<and> prefix (cp_spans (run_emissions tk n pad es)) (cp_spans (run_emissions tk n pad es'))"
  using fold_emit_prefix by (auto simp: run_emissions_def prefix_def[of es es'])

lemma build_grows:
  assumes "build_qwen_prompt tk (ms @ rest) opt = Inr p'" "stable_end ms rest" "stable_history tk opt ms"
  shows "\<exists>q. build_qwen_prompt tk ms (no_gen opt) = Inr q \<and> prefix (cp_ids q) (cp_ids p') \<and> prefix (cp_spans q) (cp_spans p')"
proof -
  obtain q' where q': "build_qwen_prompt tk (ms @ rest) (no_gen opt) = Inr q'" "cp_spans p' = cp_spans q'" "cp_ids p' = cp_ids q' @ gen_ids tk opt"
    using build_gen_split[OF assms(1)] .
  obtain es' where es': "qwen_emissions tk (ms @ rest) (no_gen opt) = Inr es'" "q' = run_emissions tk (run_length opt) (ci_pad (chat_ids_of tk)) es'"
    using q'(1) by (auto simp: build_qwen_prompt_def split: sum.splits)
  have "stable_history tk (no_gen opt) ms" using assms(3) unfolding stable_history_def stable_turn_def no_gen_simps .
  then obtain es where es: "qwen_emissions tk ms (no_gen opt) = Inr es" "prefix es es'"
    using qwen_grows[OF es'(1) _ assms(2)] by auto
  show ?thesis using emit_prefix[OF es(2)] es(1) es'(2) q' by (auto simp: build_qwen_prompt_def)
qed


section \<open>Properties\<close>

text \<open>
  C29. A prompt presents the images of the user's messages, in order, each as a run of \<open>n_image_tokens\<close> placeholders between
  its start and its end marker, the runs apart from each other; and it is the prompt without a generation prompt followed
  by tokens that do not depend on the conversation, with \<open>gen_prompt_begin\<close> the position between the two.
\<close>

theorem prompt_correct:
  assumes "build_qwen_prompt tk ms opt = Inr p"
  shows "map ir_index (cp_spans p) = concat (map user_images ms) \<and>
    list_all (span_ok (chat_ids_of tk) (run_length opt) (cp_ids p)) (cp_spans p) \<and> sorted_wrt apart (cp_spans p) \<and>
    (case build_qwen_prompt tk ms (no_gen opt) of
       Inl e \<Rightarrow> False
     | Inr q \<Rightarrow> cp_spans p = cp_spans q \<and> cp_ids p = cp_ids q @ gen_ids tk opt \<and>
         cp_gen p = (if co_gen_prompt opt then int (length (cp_ids q)) else -1))"
proof -
  obtain q where "build_qwen_prompt tk ms (no_gen opt) = Inr q" "cp_spans p = cp_spans q" "cp_ids p = cp_ids q @ gen_ids tk opt"
    "cp_gen p = (if co_gen_prompt opt then int (length (cp_ids q)) else -1)"
    using build_gen_split[OF assms] by metis
  then show ?thesis using build_spans[OF assms] by (simp add: list_all_iff)
qed

text \<open>
  C12. A conversation that goes on is tokenized as before: when the turns of its history are stable (always so when it ends in a
  query of the user) and the next message does not continue a tool response, the tokens up to the generation prompt and the
  runs of the images are a prefix of those of every longer conversation.
\<close>

theorem prompt_grows:
  assumes "build_qwen_prompt tk (ms @ rest) opt = Inr p'" "stable_end ms rest" "stable_history tk opt ms"
  shows "case build_qwen_prompt tk ms opt of
      Inl e \<Rightarrow> False
    | Inr p \<Rightarrow> prefix (take (length (cp_ids p) - length (gen_ids tk opt)) (cp_ids p)) (cp_ids p') \<and> prefix (cp_spans p) (cp_spans p')"
proof -
  obtain q where q: "build_qwen_prompt tk ms (no_gen opt) = Inr q" "prefix (cp_ids q) (cp_ids p')" "prefix (cp_spans q) (cp_spans p')"
    using build_grows[OF assms] by blast
  have "\<exists>p. build_qwen_prompt tk ms opt = Inr p"
    using q(1) qwen_gen_split[of tk ms opt] by (auto simp: build_qwen_prompt_def split: sum.splits)
  then obtain p where p: "build_qwen_prompt tk ms opt = Inr p" by blast
  have "cp_ids p = cp_ids q @ gen_ids tk opt" "cp_spans p = cp_spans q" using build_gen_split[OF p] q(1) by force+
  then show ?thesis using p q by simp
qed

subsection \<open>An instance\<close>

definition chat_tk :: tokenizer where
  "chat_tk = \<lparr>tk_token_ids = zip [''<|im_start|>'', ''<|im_end|>'', ''<think>'', ''</think>'', ''<|vision_start|>'', ''<|vision_end|>'', ''<|image_pad|>''] [0..<7],
     tk_id_to_token = [], tk_merge_rank = [], tk_bos = -1, tk_eos = -1, tk_add_bos = False, tk_template_bos = False, tk_pre = QWEN,
     tk_ignore_merges = False, tk_special = [], tk_special_first = []\<rparr>"

definition chat_opt :: chat_options where
  "chat_opt = \<lparr>co_gen_prompt = True, co_reasoning = True, co_preserve = False, co_vision_id = False, co_n_image = 5, co_tools = []\<rparr>"

definition chat_user :: chat_message where
  "chat_user = \<lparr>cm_role = ''user'', cm_content = [], cm_parts = [Text_part ''compare '', Image_part 7, Text_part '' with '', Image_part 3],
     cm_reasoning = [], cm_has_reasoning = False, cm_tool_calls = []\<rparr>"

definition chat_reply :: chat_message where
  "chat_reply = \<lparr>cm_role = ''assistant'', cm_content = ''a cat'', cm_parts = [], cm_reasoning = ''hm'', cm_has_reasoning = True, cm_tool_calls = []\<rparr>"

lemma chat_tk_ids: "chat_ids_of chat_tk = \<lparr>ci_start = 0, ci_end = 1, ci_think = 2, ci_unthink = 3, ci_vis_start = 4, ci_vis_end = 5, ci_pad = 6\<rparr>"
  "\<not> is_lfm2 chat_tk"
  by (simp_all add: chat_ids_of_def is_lfm2_def token_to_id_def find_id_def chat_tk_def upt_rec)

lemma chat_built: "\<exists>p. build_qwen_prompt chat_tk [chat_user] chat_opt = Inr p" "\<exists>p. build_qwen_prompt chat_tk ([chat_user] @ [chat_reply, chat_user]) chat_opt = Inr p"
  by (simp_all add: build_qwen_prompt_def qwen_emissions_def chat_tk_ids Let_def has_system_def chat_user_def chat_reply_def
      message_emit_def emit_content_def has_image_def upt_rec)

theorem prompt_correct_witness:
  "case build_qwen_prompt chat_tk [chat_user] chat_opt of Inl e \<Rightarrow> False | Inr p \<Rightarrow> map ir_index (cp_spans p) = [7, 3]"
proof -
  obtain p where p: "build_qwen_prompt chat_tk [chat_user] chat_opt = Inr p" using chat_built(1) by blast
  have "concat (map user_images [chat_user]) = [7, 3]" by (simp add: user_images_def msg_images_def chat_user_def)
  then show ?thesis using prompt_correct[OF p] by (simp add: p)
qed

lemma chat_user_stable: "stable_history chat_tk chat_opt [chat_user]"
  by (rule query_stable) (simp_all add: chat_user_def flat_text_def tool_response_def trim_ws_def ltrim_ws_def chat_ws_def rtrim_ws_def)

theorem prompt_grows_witness:
  "case (build_qwen_prompt chat_tk [chat_user] chat_opt, build_qwen_prompt chat_tk ([chat_user] @ [chat_reply, chat_user]) chat_opt) of
     (Inr p, Inr p') \<Rightarrow> prefix (take (length (cp_ids p) - length (gen_ids chat_tk chat_opt)) (cp_ids p)) (cp_ids p')
   | _ \<Rightarrow> False"
proof -
  obtain p' where p': "build_qwen_prompt chat_tk ([chat_user] @ [chat_reply, chat_user]) chat_opt = Inr p'" using chat_built(2) by blast
  have e: "stable_end [chat_user] [chat_reply, chat_user]" by (simp add: stable_end_def chat_user_def)
  show ?thesis using prompt_grows[OF p' e chat_user_stable] by (simp only: p' split: sum.splits prod.splits) simp
qed

end
