(* ===== verification/Server_Messages.thy ===== *)
theory Server_Messages
  imports Json Chat Base64 Prefix_Cache
begin

section \<open>Messages of a request\<close>

text \<open>
  \<open>server/main.cpp\<close>: what a chat request becomes before the prompt is built. \<open>parse_messages\<close> reads the messages and collects the
  images, \<open>tool_kinds\<close> the parameters that a tool's schema declares as strings, \<open>request_spans\<close> the keys of the prefix cache for
  the images. \<open>jparse\<close> and \<open>jdump\<close> are the parser and the printer of the JSON library; an exception of the library or of
  the code is \<open>Inl\<close>.
\<close>

definition DATA_URI :: exn where "DATA_URI = Runtime_error ''image_url must be a base64 data URI''"

type_synonym image_bytes = "nat list"

text \<open>The type of a content part and the address of an image.\<close>

definition image_url_of :: "'n json \<Rightarrow> exn + string" where
  "image_url_of item =
     (if json_contains item ''image_url'' \<and> is_obj (json_at item ''image_url'') then json_value (json_at item ''image_url'') ''url'' []
      else json_value item ''image_url'' [])"

definition parse_part :: "'n json \<Rightarrow> image_bytes list \<Rightarrow> exn + content_part \<times> image_bytes list" where
  "parse_part item images =
     (case json_value item ''type'' [] of
        Inl e \<Rightarrow> Inl e
      | Inr ty \<Rightarrow>
          if ty = ''text'' \<or> json_contains item ''text'' then
            (case json_value item ''text'' [] of Inl e \<Rightarrow> Inl e | Inr t \<Rightarrow> Inr (Text_part t, images))
          else if ty = ''image_url'' \<or> json_contains item ''image_url'' then
            (case image_url_of item of
               Inl e \<Rightarrow> Inl e
             | Inr url \<Rightarrow>
                 (case str_find url '','' 0 of
                    None \<Rightarrow> Inl DATA_URI
                  | Some comma \<Rightarrow>
                      if \<not> prefix ''data:'' url then Inl DATA_URI
                      else let images' = images @ [base64_decode (drop (comma + 1) url)]
                           in Inr (Image_part (int (length images') - 1), images')))
          else Inl (Runtime_error (''unsupported content part type: '' @ ty)))"

fun parse_parts :: "'n json list \<Rightarrow> image_bytes list \<Rightarrow> exn + content_part list \<times> image_bytes list" where
  "parse_parts [] images = Inr ([], images)"
| "parse_parts (item # items) images =
     (case parse_part item images of
        Inl e \<Rightarrow> Inl e
      | Inr (p, images') \<Rightarrow>
          (case parse_parts items images' of Inl e \<Rightarrow> Inl e | Inr (ps, images'') \<Rightarrow> Inr (p # ps, images'')))"

text \<open>\<open>v.is_string() ? v.get<std::string>() : v.dump()\<close>\<close>

definition raw_or_dump :: "('n json \<Rightarrow> string) \<Rightarrow> 'n json \<Rightarrow> string" where
  "raw_or_dump jdump v = (case v of Json_str s \<Rightarrow> s | _ \<Rightarrow> jdump v)"

definition QUOTE :: string where "QUOTE = [CHR 0x27]"

text \<open>An argument as a Python literal.\<close>

fun py_literal :: "('n json \<Rightarrow> string) \<Rightarrow> bool \<Rightarrow> 'n json \<Rightarrow> string" where
  "py_literal jdump outer (Json_str s) = QUOTE @ s @ QUOTE"
| "py_literal jdump outer (Json_bool b) = (if b then ''True'' else ''False'')"
| "py_literal jdump outer Json_null = ''None''"
| "py_literal jdump outer (Json_obj kvs) =
     (if outer then jdump (Json_obj kvs)
      else ''{'' @ comma_list (map (\<lambda>kv. QUOTE @ fst kv @ QUOTE @ '': '' @ py_literal jdump False (snd kv)) kvs) @ ''}'')"
| "py_literal jdump outer (Json_arr xs) = ''['' @ comma_list (map (\<lambda>v. py_literal jdump False v) xs) @ '']''"
| "py_literal jdump outer (Json_num n) = jdump (Json_num n)"


definition call_args :: "(string \<Rightarrow> 'n json option) \<Rightarrow> 'n json \<Rightarrow> 'n json" where
  "call_args jparse fn =
     (if json_contains fn ''arguments'' then
        (case json_at fn ''arguments'' of
           Json_str s \<Rightarrow> (case jparse s of None \<Rightarrow> Json_obj [] | Some j \<Rightarrow> j)
         | Json_obj kvs \<Rightarrow> Json_obj kvs
         | _ \<Rightarrow> Json_obj [])
      else Json_obj [])"

definition tool_call_of :: "('n json \<Rightarrow> string) \<Rightarrow> string \<Rightarrow> 'n json \<Rightarrow> tool_call" where
  "tool_call_of jdump nm args =
     \<lparr>tc_name = nm, tc_args = map (\<lambda>(k, v). (k, raw_or_dump jdump v)) (json_items args),
      tc_literals = map (\<lambda>(k, v). py_literal jdump True v) (json_items args)\<rparr>"

fun parse_calls :: "(string \<Rightarrow> 'n json option) \<Rightarrow> ('n json \<Rightarrow> string) \<Rightarrow> 'n json list \<Rightarrow> exn + tool_call list" where
  "parse_calls jparse jdump [] = Inr []"
| "parse_calls jparse jdump (tc # tcs) =
     (let fn = (if json_contains tc ''function'' then json_at tc ''function'' else tc) in
      case json_value fn ''name'' [] of
        Inl e \<Rightarrow> Inl e
      | Inr nm \<Rightarrow>
          (case parse_calls jparse jdump tcs of Inl e \<Rightarrow> Inl e | Inr cs \<Rightarrow> Inr (tool_call_of jdump nm (call_args jparse fn) # cs)))"

definition parse_message ::
  "(string \<Rightarrow> 'n json option) \<Rightarrow> ('n json \<Rightarrow> string) \<Rightarrow> 'n json \<Rightarrow> image_bytes list \<Rightarrow> exn + chat_message \<times> image_bytes list" where
  "parse_message jparse jdump m images =
     (case json_value m ''role'' ''user'' of
        Inl e \<Rightarrow> Inl e
      | Inr role \<Rightarrow>
          let c = json_at m ''content''; r = json_at m ''reasoning_content''; t = json_at m ''tool_calls'' in
          (case parse_parts (if is_arr c then json_elems c else []) images of
             Inl e \<Rightarrow> Inl e
           | Inr (ps, images') \<Rightarrow>
               (case parse_calls jparse jdump (if is_arr t then json_elems t else []) of
                  Inl e \<Rightarrow> Inl e
                | Inr cs \<Rightarrow>
                    Inr (\<lparr>cm_role = role, cm_content = str_or [] c, cm_parts = ps, cm_reasoning = str_or [] r, cm_has_reasoning = is_str r,
                          cm_tool_calls = cs\<rparr>, images'))))"

fun parse_all :: "(string \<Rightarrow> 'n json option) \<Rightarrow> ('n json \<Rightarrow> string) \<Rightarrow> 'n json list \<Rightarrow> image_bytes list \<Rightarrow> exn + chat_message list \<times> image_bytes list" where
  "parse_all jparse jdump [] images = Inr ([], images)"
| "parse_all jparse jdump (m # ms) images =
     (case parse_message jparse jdump m images of
        Inl e \<Rightarrow> Inl e
      | Inr (cm, images') \<Rightarrow>
          (case parse_all jparse jdump ms images' of Inl e \<Rightarrow> Inl e | Inr (cms, images'') \<Rightarrow> Inr (cm # cms, images'')))"

definition parse_messages :: "(string \<Rightarrow> 'n json option) \<Rightarrow> ('n json \<Rightarrow> string) \<Rightarrow> 'n json \<Rightarrow> exn + chat_message list \<times> image_bytes list" where
  "parse_messages jparse jdump body =
     (if \<not> json_contains body ''messages'' then Inr ([], []) else parse_all jparse jdump (json_elems (json_at body ''messages'')) [])"


text \<open>Which parameters of which tool are strings; the key is \<open>tool\x1fparam\<close>.\<close>

type_synonym param_kinds = "string \<Rightarrow> int option"

definition kind_key :: "string \<Rightarrow> string \<Rightarrow> string" where
  "kind_key tool param = tool @ [CHR 0x1F] @ param"

definition prop_type :: "'n json \<Rightarrow> exn + string" where
  "prop_type v = (if is_obj v then json_value v ''type'' [] else Inr [])"

fun prop_kinds :: "string \<Rightarrow> (string \<times> 'n json) list \<Rightarrow> param_kinds \<Rightarrow> exn + param_kinds" where
  "prop_kinds fname [] pk = Inr pk"
| "prop_kinds fname ((k, v) # kvs) pk =
     (case prop_type v of Inl e \<Rightarrow> Inl e | Inr ty \<Rightarrow> prop_kinds fname kvs (pk(kind_key fname k \<mapsto> if ty = ''string'' then 1 else 0)))"

definition tool_kind :: "'n json \<Rightarrow> param_kinds \<Rightarrow> exn + param_kinds" where
  "tool_kind t pk =
     (let fn = json_at t ''function''; params = json_at fn ''parameters''; props = json_at params ''properties'' in
      if \<not> is_obj fn then Inr pk
      else (case json_value fn ''name'' [] of
              Inl e \<Rightarrow> Inl e
            | Inr fname \<Rightarrow>
                if \<not> is_obj params then Inr pk else if \<not> is_obj props then Inr pk else prop_kinds fname (json_items props) pk))"

fun tool_kinds :: "'n json list \<Rightarrow> param_kinds \<Rightarrow> exn + param_kinds" where
  "tool_kinds [] pk = Inr pk"
| "tool_kinds (t # ts) pk = (case tool_kind t pk of Inl e \<Rightarrow> Inl e | Inr pk' \<Rightarrow> tool_kinds ts pk')"

text \<open>
  From the body of a request to its prompt. \<open>venc\<close> is the number of tokens of an image, \<open>None\<close> without a vision model.
\<close>

record parsed_request =
  cr_prompt :: chat_prompt
  cr_messages :: "chat_message list"
  cr_images :: "image_bytes list"
  cr_kinds :: param_kinds

definition tools_of :: "'n json \<Rightarrow> 'n json list" where
  "tools_of body =
     (if json_at body ''tool_choice'' \<noteq> Json_str ''none'' \<and> is_arr (json_at body ''tools'') then json_elems (json_at body ''tools'') else [])"

definition request_options :: "('n json \<Rightarrow> string) \<Rightarrow> int option \<Rightarrow> bool \<Rightarrow> 'n json list \<Rightarrow> nat \<Rightarrow> exn + chat_options" where
  "request_options jdump venc reasoning tools n_images =
     (let opt = \<lparr>co_gen_prompt = True, co_reasoning = reasoning, co_preserve = True, co_vision_id = False, co_n_image = 1, co_tools = map jdump tools\<rparr>
      in if n_images = 0 then Inr opt
         else (case venc of
                 None \<Rightarrow> Inl (Runtime_error ''image input not available (no mmproj loaded)'')
               | Some n \<Rightarrow> Inr (opt\<lparr>co_n_image := n, co_vision_id := n_images > 1\<rparr>)))"

definition chat_request ::
  "(string \<Rightarrow> 'n json option) \<Rightarrow> ('n json \<Rightarrow> string) \<Rightarrow> tokenizer \<Rightarrow> int option \<Rightarrow> bool \<Rightarrow> 'n json \<Rightarrow> exn + parsed_request" where
  "chat_request jparse jdump tk venc reasoning body =
     (case parse_messages jparse jdump body of
        Inl e \<Rightarrow> Inl e
      | Inr (ms, images) \<Rightarrow>
          (case tool_kinds (tools_of body) Map.empty of
             Inl e \<Rightarrow> Inl e
           | Inr pk \<Rightarrow>
               (case request_options jdump venc reasoning (tools_of body) (length images) of
                  Inl e \<Rightarrow> Inl e
                | Inr opt \<Rightarrow>
                    (case build_qwen_prompt tk ms opt of
                       Inl e \<Rightarrow> Inl e
                     | Inr p \<Rightarrow> Inr \<lparr>cr_prompt = p, cr_messages = ms, cr_images = images, cr_kinds = pk\<rparr>))))"

text \<open>The hash of an image (FNV-1a), and the images of a prompt as the prefix cache knows them.\<close>

definition image_hash :: "image_bytes \<Rightarrow> 64 word" where
  "image_hash ib = fold (\<lambda>b h. xor h (of_nat b) * 1099511628211) ib 1469598103934665603"

definition request_spans :: "parsed_request \<Rightarrow> img_span list" where
  "request_spans r =
     map (\<lambda>s. \<lparr>is_first = int (ir_first s), is_count = int (ir_count s), is_hash = map image_hash (cr_images r) ! nat (ir_index s)\<rparr>)
       (cp_spans (cr_prompt r))"

subsection \<open>The images of a request\<close>

text \<open>Every image that is decoded is the image of one part, numbered in the order of the parts.\<close>

lemma part_images:
  assumes "parse_part item images = Inr (p, images')"
  shows "\<exists>new. images' = images @ new \<and> List.map_filter part_img [p] = map int [length images..<length images']"
  using assms by (auto simp: parse_part_def Let_def split: sum.splits if_splits option.splits)

lemma parts_images:
  "parse_parts items images = Inr (ps, images') \<Longrightarrow>
   \<exists>new. images' = images @ new \<and> List.map_filter part_img ps = map int [length images..<length images']"
proof (induction items arbitrary: images ps)
  case (Cons item items)
  obtain p i1 ps' where h: "parse_part item images = Inr (p, i1)" "parse_parts items i1 = Inr (ps', images')" "ps = p # ps'"
    using Cons.prems by (auto split: sum.splits)
  obtain n1 n2 where n: "i1 = images @ n1" "List.map_filter part_img [p] = map int [length images..<length i1]" "images' = i1 @ n2"
    "List.map_filter part_img ps' = map int [length i1..<length images']"
    using part_images[OF h(1)] Cons.IH[OF h(2)] by blast
  have "List.map_filter part_img ps = List.map_filter part_img [p] @ List.map_filter part_img ps'"
    unfolding h(3) by (metis append_Cons append_Nil part_imgs_simps(4))
  also have "\<dots> = map int ([length images..<length i1] @ [length i1..<length images'])" unfolding n(2,4) by simp
  also have "[length images..<length i1] @ [length i1..<length images'] = [length images..<length images']"
    using n(1,3) upt_add_eq_append[of "length images" "length i1" "length n2"] by (simp add: add.assoc)
  finally show ?case using n(1,3) by auto
qed simp

lemma message_images:
  assumes "parse_message jparse jdump m images = Inr (cm, images')"
  shows "\<exists>new. images' = images @ new \<and> msg_images cm = map int [length images..<length images']"
  using assms parts_images by (fastforce simp: parse_message_def Let_def msg_images_def split: sum.splits)

lemma user_images_sorted:
  "parse_all jparse jdump ms images = Inr (cms, images') \<Longrightarrow>
   length images \<le> length images' \<and> sorted_wrt (<) (concat (map user_images cms)) \<and>
   (\<forall>k \<in> set (concat (map user_images cms)). int (length images) \<le> k \<and> k < int (length images'))"
proof (induction ms arbitrary: images cms)
  case (Cons m ms)
  obtain cm i1 cms' where h: "parse_message jparse jdump m images = Inr (cm, i1)" "parse_all jparse jdump ms i1 = Inr (cms', images')" "cms = cm # cms'"
    using Cons.prems by (auto split: sum.splits)
  obtain new where n: "i1 = images @ new" "msg_images cm = map int [length images..<length i1]" using message_images[OF h(1)] by blast
  have "sorted_wrt (<) (user_images cm) \<and> (\<forall>k \<in> set (user_images cm). int (length images) \<le> k \<and> k < int (length i1))"
    by (auto simp: user_images_def n(2) sorted_wrt_map)
  then show ?case using Cons.IH[OF h(2)] n(1) unfolding h(3) by (fastforce simp: sorted_wrt_append)
qed simp


text \<open>
  C30. The images in the prompt of a request are images of the request, in order and each at most once: no index is out of range
  where the handler looks up embeddings and hashes. Every run has the number of tokens of an image, stands
  between its markers, and enters the prefix cache under the hash of its own image.
\<close>

theorem request_images_correct:
  assumes "chat_request jparse jdump tk venc reasoning body = Inr r"
  shows "sorted_wrt (<) (map ir_index (cp_spans (cr_prompt r))) \<and>
    list_all (\<lambda>s. 0 \<le> ir_index s \<and> ir_index s < int (length (cr_images r)) \<and>
        (case venc of None \<Rightarrow> False | Some n \<Rightarrow> span_ok (chat_ids_of tk) (if 0 < n then nat n else 1) (cp_ids (cr_prompt r)) s))
      (cp_spans (cr_prompt r)) \<and>
    map is_hash (request_spans r) = map (\<lambda>s. image_hash (cr_images r ! nat (ir_index s))) (cp_spans (cr_prompt r))"
proof -
  obtain ms pk opt where h: "parse_messages jparse jdump body = Inr (ms, cr_images r)"
    "request_options jdump venc reasoning (tools_of body) (length (cr_images r)) = Inr opt" "build_qwen_prompt tk ms opt = Inr (cr_prompt r)"
    using assms by (auto simp: chat_request_def split: sum.splits)
  have p: "map ir_index (cp_spans (cr_prompt r)) = concat (map user_images ms)"
    "\<forall>s \<in> set (cp_spans (cr_prompt r)). span_ok (chat_ids_of tk) (run_length opt) (cp_ids (cr_prompt r)) s"
    using build_spans[OF h(3)] by simp_all
  have u: "sorted_wrt (<) (concat (map user_images ms))"
    "\<forall>k \<in> set (concat (map user_images ms)). 0 \<le> k \<and> k < int (length (cr_images r))"
    using h(1) user_images_sorted[of jparse jdump _ "[]" ms "cr_images r"] by (auto simp: parse_messages_def split: if_splits)
  have i: "0 \<le> ir_index s \<and> ir_index s < int (length (cr_images r))" if "s \<in> set (cp_spans (cr_prompt r))" for s
    using u(2) that unfolding p(1)[symmetric] by simp
  have n: "case venc of None \<Rightarrow> False | Some n \<Rightarrow> run_length opt = (if 0 < n then nat n else 1)" if "s \<in> set (cp_spans (cr_prompt r))" for s
    using h(2) i[OF that] by (auto simp: request_options_def run_length_def Let_def split: if_splits option.splits)
  have "map is_hash (request_spans r) = map (\<lambda>s. image_hash (cr_images r ! nat (ir_index s))) (cp_spans (cr_prompt r))"
    using i by (simp add: request_spans_def nat_less_iff)
  then show ?thesis using u(1) i n p by (fastforce simp: list_all_iff split: option.splits)
qed

subsection \<open>An instance\<close>

definition cat_body :: "unit json" where
  "cat_body = Json_obj [(''messages'', Json_arr [
     Json_obj [(''content'', Json_arr [Json_obj [(''image_url'', Json_str ''data:image/png;base64,iVBORw'')], Json_obj [(''text'', Json_str ''what is it?'')]])]])]"

definition cat_message :: chat_message where
  "cat_message = \<lparr>cm_role = ''user'', cm_content = [], cm_parts = [Image_part 0, Text_part ''what is it?''], cm_reasoning = [],
     cm_has_reasoning = False, cm_tool_calls = []\<rparr>"

lemma cat_parsed: "parse_messages (\<lambda>s. None) (\<lambda>j. []) cat_body = Inr ([cat_message], [[137, 80, 78, 71]])"
  by code_simp

lemma cat_options: "tool_kinds (tools_of cat_body) Map.empty = Inr Map.empty" "\<exists>opt. request_options (\<lambda>j. []) (Some 4) True (tools_of cat_body) (length [[137, 80, 78, 71 :: nat]]) = Inr opt"
  by (simp_all add: tools_of_def cat_body_def json_at_def request_options_def)

lemma cat_prompt: "\<exists>p. build_qwen_prompt chat_tk [cat_message] opt = Inr p"
  by (simp add: build_qwen_prompt_def qwen_emissions_def chat_tk_ids Let_def has_system_def cat_message_def message_emit_def emit_content_def has_image_def upt_rec)

lemma cat_request: "\<exists>r. chat_request (\<lambda>s. None) (\<lambda>j. []) chat_tk (Some 4) True cat_body = Inr r"
proof -
  obtain opt where o: "request_options (\<lambda>j. []) (Some 4) True (tools_of cat_body) (length [[137, 80, 78, 71 :: nat]]) = Inr opt" using cat_options(2) by blast
  obtain p where "build_qwen_prompt chat_tk [cat_message] opt = Inr p" using cat_prompt by blast
  then show ?thesis using o by (simp add: chat_request_def cat_parsed cat_options(1))
qed

theorem request_images_correct_witness:
  "case chat_request (\<lambda>s. None) (\<lambda>j. []) chat_tk (Some 4) True cat_body of
     Inl e \<Rightarrow> False | Inr r \<Rightarrow> map is_hash (request_spans r) = map (\<lambda>s. image_hash (cr_images r ! nat (ir_index s))) (cp_spans (cr_prompt r))"
proof -
  obtain r where r: "chat_request (\<lambda>s. None) (\<lambda>j. []) chat_tk (Some 4) True cat_body = Inr r" using cat_request by blast
  show ?thesis using request_images_correct[OF r] by (simp add: r)
qed

end
