(* ===== verification/Tool_Calls.thy ===== *)
theory Tool_Calls
  imports Server_Messages
begin

section \<open>Tool calls in generated text\<close>

text \<open>
  \<open>parse_tool_calls\<close> of \<open>server/main.cpp\<close> for the markup of the Qwen templates (\<open>lfm2\<close> not set; \<open>Py_Calls\<close> is the other branch), and the proof that it reads back what
  \<open>build_qwen_prompt\<close> writes for the calls that \<open>parse_messages\<close> has read.
\<close>

lemma str_find_bounds: "str_find s pat from = Some j \<Longrightarrow> from \<le> j \<and> j + length pat \<le> length s"
  using str_find_Some(1,2) by blast

record parsed_call =
  pc_name :: string
  pc_arguments :: string

text \<open>\<open>while (!out.empty() && (out.back() == '\n' || out.back() == ' ')) out.pop_back();\<close>\<close>

definition trim_tail :: "string \<Rightarrow> string" where
  "trim_tail out = rev (dropWhile (\<lambda>c. c = CHR 0x0A \<or> c = CHR '' '') (rev out))"

definition strip_newlines :: "string \<Rightarrow> string" where
  "strip_newlines v =
     (let v1 = (if v \<noteq> [] \<and> hd v = CHR 0x0A then tl v else v) in if v1 \<noteq> [] \<and> last v1 = CHR 0x0A then butlast v1 else v1)"

text \<open>The value of a parameter.\<close>

definition param_value :: "(string \<Rightarrow> 'n json option) \<Rightarrow> param_kinds option \<Rightarrow> string \<Rightarrow> string \<Rightarrow> string \<Rightarrow> 'n json" where
  "param_value jparse pk name key val =
     (let kind = (case pk of None \<Rightarrow> -1 | Some m \<Rightarrow> (case m (kind_key name key) of None \<Rightarrow> -1 | Some k \<Rightarrow> k)) in
      if kind = 1 then Json_str val
      else (case jparse val of None \<Rightarrow> Json_str val | Some jv \<Rightarrow> if is_str jv then Json_str val else jv))"

text \<open>
  The parameters of a block. The length \<open>pc - pe - 1\<close> of a value wraps around when the closing tag is found before the
  \<open>>\<close> that ends the key: then the value is the rest of the block.
\<close>

function parse_params :: "(string \<Rightarrow> 'n json option) \<Rightarrow> param_kinds option \<Rightarrow> string \<Rightarrow> string \<Rightarrow> nat \<Rightarrow> (string \<times> 'n json) list \<Rightarrow> (string \<times> 'n json) list" where
  "parse_params jparse pk name block pp args =
     (case str_find block PARAMETER_OPEN pp of
        None \<Rightarrow> args
      | Some ps \<Rightarrow>
          (case str_find block ''>'' ps of
             None \<Rightarrow> args
           | Some pe \<Rightarrow>
               (case str_find block PARAMETER_CLOSE ps of
                  None \<Rightarrow> args
                | Some pc \<Rightarrow>
                    let key = substr block (ps + 11) (pe - ps - 11);
                        val = strip_newlines (if pe < pc then substr block (pe + 1) (pc - pe - 1) else drop (pe + 1) block)
                    in parse_params jparse pk name block (pc + 12) (map_put key (param_value jparse pk name key val) args))))"
  by pat_completeness auto
termination
  by (relation "measure (\<lambda>(jparse, pk, name, block, pp, args). length block + 12 - pp)")
    (auto dest!: str_find_bounds simp: PARAMETER_CLOSE_def PARAMETER_OPEN_def)

declare parse_params.simps [simp del]

definition parse_block :: "(string \<Rightarrow> 'n json option) \<Rightarrow> ('n json \<Rightarrow> string) \<Rightarrow> param_kinds option \<Rightarrow> string \<Rightarrow> parsed_call option" where
  "parse_block jparse jdump pk block =
     (case str_find block FUNCTION_OPEN 0 of
        None \<Rightarrow> None
      | Some fn \<Rightarrow>
          (case str_find block ''>'' fn of
             None \<Rightarrow> None
           | Some fe \<Rightarrow>
               let name = substr block (fn + 10) (fe - fn - 10) in
               Some \<lparr>pc_name = name, pc_arguments = jdump (Json_obj (parse_params jparse pk name block fe []))\<rparr>))"

function parse_blocks ::
  "(string \<Rightarrow> 'n json option) \<Rightarrow> ('n json \<Rightarrow> string) \<Rightarrow> param_kinds option \<Rightarrow> string \<Rightarrow> nat \<Rightarrow> string \<Rightarrow> parsed_call list \<Rightarrow> string \<times> parsed_call list" where
  "parse_blocks jparse jdump pk txt pos out calls =
     (case str_find txt TOOL_CALL_OPEN pos of
        None \<Rightarrow> (out @ drop pos txt, calls)
      | Some tc \<Rightarrow>
          (case str_find txt TOOL_CALL_CLOSE tc of
             None \<Rightarrow> (out @ drop pos txt, calls)
           | Some tce \<Rightarrow>
               let out1 = out @ substr txt pos (tc - pos) in
               (case parse_block jparse jdump pk (substr txt tc (tce - tc)) of
                  None \<Rightarrow> parse_blocks jparse jdump pk txt (tce + 12) (out1 @ substr txt tc (tce + 12 - tc)) calls
                | Some c \<Rightarrow> parse_blocks jparse jdump pk txt (tce + 12) out1 (calls @ [c]))))"
  by pat_completeness auto
termination
  by (relation "measure (\<lambda>(jparse, jdump, pk, txt, pos, out, calls). length txt + 12 - pos)")
    (auto dest!: str_find_bounds simp: TOOL_CALL_CLOSE_def TOOL_CALL_OPEN_def)

declare parse_blocks.simps [simp del]

definition parse_tool_calls ::
  "(string \<Rightarrow> 'n json option) \<Rightarrow> ('n json \<Rightarrow> string) \<Rightarrow> param_kinds option \<Rightarrow> string \<Rightarrow> string \<times> parsed_call list" where
  "parse_tool_calls jparse jdump pk txt =
     (let scan = (case str_rfind txt THINK_CLOSE of None \<Rightarrow> 0 | Some p \<Rightarrow> p + 8)
      in case parse_blocks jparse jdump pk txt scan (take scan txt) [] of (out, calls) \<Rightarrow> (trim_tail out, calls))"


subsection \<open>Searching in composed text\<close>

text \<open>No occurrence of \<open>pat\<close> starts in \<open>v\<close>, whatever follows.\<close>

definition clear :: "string \<Rightarrow> string \<Rightarrow> bool" where
  "clear pat v \<longleftrightarrow> (\<forall>i w. i < length v \<longrightarrow> \<not> prefix pat (drop i v @ w))"

lemma clear_Nil [simp]: "clear pat []" by (simp add: clear_def)

lemma clear_append [intro]:
  assumes "clear pat a" "clear pat b" shows "clear pat (a @ b)"
  unfolding clear_def
proof (intro allI impI)
  fix i w assume i: "i < length (a @ b)"
  show "\<not> prefix pat (drop i (a @ b) @ w)"
  proof (cases "i < length a")
    case True
    then show ?thesis using assms(1)[unfolded clear_def, rule_format, OF True, of "b @ w"] by simp
  next
    case False
    then have "i - length a < length b" using i by simp
    from assms(2)[unfolded clear_def, rule_format, OF this, of w] show ?thesis using False by simp
  qed
qed

lemma clear_concat: "(\<And>x. x \<in> set xs \<Longrightarrow> clear pat x) \<Longrightarrow> clear pat (concat xs)"
  by (induction xs) (auto intro: clear_append)

lemma clear_start:
  assumes "c \<notin> set v" shows "clear (c # p) v"
  unfolding clear_def
proof (intro allI impI)
  fix i w assume "i < length v"
  then have "drop i v @ w = v ! i # drop (Suc i) v @ w" "v ! i \<noteq> c" using assms by (auto simp: Cons_nth_drop_Suc[symmetric])
  then show "\<not> prefix (c # p) (drop i v @ w)" by simp
qed

text \<open>A pattern without a line break does not cross one.\<close>

lemma clear_line:
  assumes "\<not> sublist pat x" "n \<notin> set pat" "pat \<noteq> []" shows "clear pat (x @ [n])"
  unfolding clear_def
proof (intro allI impI notI)
  fix i w assume i: "i < length (x @ [n])" and p: "prefix pat (drop i (x @ [n]) @ w)"
  then have p: "prefix pat (drop i x @ n # w)" by simp
  show False
  proof (cases "length pat \<le> length (drop i x)")
    case True
    then have "prefix pat (drop i x)" using p by (metis prefix_length_prefix prefixI)
    then have "sublist pat x" by (metis append_take_drop_id prefixE sublist_appendI)
    then show False using assms(1) by simp
  next
    case False
    then have "n \<in> set (take (length pat) (drop i x @ n # w))" by (cases "length pat - length (drop i x)") auto
    moreover have "take (length pat) (drop i x @ n # w) = pat" using p by (metis append_eq_conv_conj prefixE)
    ultimately show False using assms(2) by metis
  qed
qed

text \<open>A tag is not the closing tag.\<close>

lemma clear_tag:
  assumes "c \<notin> set x" "x \<noteq> []" "hd x \<noteq> d" shows "clear (c # d # p) (c # x)"
proof -
  have "\<not> prefix (c # d # p) (c # x @ w)" for w using assms(2,3) by (cases x) auto
  moreover have "clear (c # d # p) x" by (rule clear_start[OF assms(1)])
  ultimately show ?thesis unfolding clear_def by (metis append_Cons drop_Cons' length_Cons less_Suc_eq_0_disj drop0 drop_Suc_Cons)
qed

lemma clear_close:
  assumes "p = ''</'' @ q" "CHR ''<'' \<notin> set x" "\<And>w. \<not> prefix q (x @ w)" shows "clear p (''</'' @ x)"
  unfolding clear_def
proof (intro allI impI)
  fix i w assume i: "i < length (''</'' @ x)"
  show "\<not> prefix p (drop i (''</'' @ x) @ w)"
  proof (cases i)
    case 0
    then show ?thesis using assms(3)[of w] by (simp add: assms(1))
  next
    case (Suc j)
    have "clear p (CHR ''/'' # x)" using assms(2) by (simp add: assms(1) clear_start)
    moreover have "j < length (CHR ''/'' # x)" using i Suc by simp
    ultimately show ?thesis unfolding clear_def Suc by simp
  qed
qed

lemma str_find_skip:
  assumes "clear pat v" shows "str_find (u @ v @ pat @ w) pat (length u) = Some (length u + length v)"
proof -
  let ?s = "u @ v @ pat @ w"
  obtain k where k: "str_find ?s pat (length u) = Some k" "k \<le> length u + length v"
    using str_find_at[of "length u" "length u + length v" ?s pat] by auto
  have "\<not> k < length u + length v"
  proof
    assume "k < length u + length v"
    then have "k - length u < length v" "drop k ?s = drop (k - length u) v @ pat @ w" using str_find_Some(1)[OF k(1)] by auto
    then show False using str_find_Some(3)[OF k(1)] assms unfolding clear_def by metis
  qed
  then show ?thesis using k by simp
qed

lemma str_find_clear:
  assumes "clear pat v" "pat \<noteq> []" shows "str_find (u @ v) pat (length u) = None"
proof (rule ccontr)
  assume "str_find (u @ v) pat (length u) \<noteq> None"
  then obtain k where k: "str_find (u @ v) pat (length u) = Some k" by auto
  note f = str_find_Some[OF k]
  have "k - length u < length v" "drop k (u @ v) = drop (k - length u) v @ []" using f(1,2) assms(2) by (auto simp: Suc_le_eq add_gr_0) (cases pat; simp)
  then show False using f(3) assms(1) unfolding clear_def by metis
qed


subsection \<open>Reading what the template writes\<close>

lemma strip_wrapped: "strip_newlines (NL @ v @ NL) = v"
  by (simp add: strip_newlines_def NL_def Let_def)

lemma tag_open: "CHR ''<'' \<notin> set k \<Longrightarrow> CHR ''>'' \<notin> set k \<Longrightarrow> CHR ''<'' \<notin> set (k @ ''>'' @ NL)"
  by (simp add: NL_def)

definition name_ok :: "string \<Rightarrow> bool" where
  "name_ok k \<longleftrightarrow> CHR ''<'' \<notin> set k \<and> CHR ''>'' \<notin> set k"

definition val_ok :: "string \<Rightarrow> bool" where
  "val_ok v \<longleftrightarrow> \<not> sublist PARAMETER_CLOSE v \<and> \<not> sublist TOOL_CALL_CLOSE v \<and> \<not> sublist THINK_CLOSE v"

definition param_text :: "string \<times> string \<Rightarrow> string" where
  "param_text = (\<lambda>(k, v). PARAMETER_OPEN @ k @ ''>'' @ NL @ v @ NL @ PARAMETER_CLOSE @ NL)"

lemma clear_open:
  assumes "name_ok k" "p = CHR ''<'' # CHR ''/'' # q" "CHR ''<'' \<notin> set t" "t \<noteq> []" "hd t \<noteq> CHR ''/''"
  shows "clear p (CHR ''<'' # t @ k @ ''>'' @ NL)"
  unfolding assms(2) by (rule clear_tag) (use assms in \<open>auto simp: name_ok_def NL_def\<close>)

lemma clear_value:
  "\<not> sublist p v \<Longrightarrow> CHR 0x0A \<notin> set p \<Longrightarrow> p \<noteq> [] \<Longrightarrow> clear p (v @ NL)"
  unfolding NL_def by (rule clear_line)

lemma parse_param_step:
  assumes k: "name_ok k" and v: "val_ok v" and z: "CHR ''<'' \<notin> set z"
  shows "parse_params jparse pk name (u @ z @ param_text (k, v) @ rest) (length u) args =
     parse_params jparse pk name ((u @ z @ PARAMETER_OPEN @ k @ ''>'' @ NL @ v @ NL @ PARAMETER_CLOSE) @ NL @ rest)
       (length (u @ z @ PARAMETER_OPEN @ k @ ''>'' @ NL @ v @ NL @ PARAMETER_CLOSE)) (map_put k (param_value jparse pk name k v) args)"
proof -
  let ?b = "u @ z @ param_text (k, v) @ rest"
  let ?ps = "length u + length z"
  have b1: "?b = u @ z @ PARAMETER_OPEN @ (k @ ''>'' @ NL @ v @ NL @ PARAMETER_CLOSE @ NL @ rest)" by (simp add: param_text_def)
  have ps: "str_find ?b PARAMETER_OPEN (length u) = Some ?ps"
    unfolding b1 by (rule str_find_skip) (auto simp: PARAMETER_OPEN_def intro!: clear_start z)
  have b2: "?b = (u @ z) @ (PARAMETER_OPEN @ k) @ ''>'' @ (NL @ v @ NL @ PARAMETER_CLOSE @ NL @ rest)" by (simp add: param_text_def)
  have c2: "clear ''>'' (PARAMETER_OPEN @ k)" using k by (auto simp: PARAMETER_OPEN_def name_ok_def intro!: clear_start)
  have pe: "str_find ?b ''>'' ?ps = Some (?ps + 11 + length k)"
    using str_find_skip[OF c2, of "u @ z"] unfolding b2 by (simp add: PARAMETER_OPEN_def)
  have b3: "?b = (u @ z) @ ((PARAMETER_OPEN @ k @ ''>'' @ NL) @ (v @ NL)) @ PARAMETER_CLOSE @ (NL @ rest)" by (simp add: param_text_def)
  have "clear PARAMETER_CLOSE (PARAMETER_OPEN @ k @ ''>'' @ NL)"
    unfolding PARAMETER_OPEN_def append_Cons append_Nil
    using clear_open[OF k, of PARAMETER_CLOSE "''parameter>''" "''parameter=''"] by (simp add: PARAMETER_CLOSE_def)
  moreover have "clear PARAMETER_CLOSE (v @ NL)" by (rule clear_value) (use v in \<open>auto simp: val_ok_def PARAMETER_CLOSE_def\<close>)
  ultimately have c3: "clear PARAMETER_CLOSE ((PARAMETER_OPEN @ k @ ''>'' @ NL) @ (v @ NL))" by (rule clear_append)
  have pc: "str_find ?b PARAMETER_CLOSE ?ps = Some (?ps + 11 + length k + 1 + 1 + length v + 1)"
    using str_find_skip[OF c3, of "u @ z" "NL @ rest"] unfolding b3 by (simp add: PARAMETER_OPEN_def NL_def)
  have key: "substr ?b (?ps + 11) (?ps + 11 + length k - ?ps - 11) = k" unfolding b2 by (simp add: substr_def PARAMETER_OPEN_def)
  have "?b = (u @ z @ PARAMETER_OPEN @ k @ ''>'') @ NL @ v @ NL @ PARAMETER_CLOSE @ NL @ rest" by (simp add: param_text_def)
  moreover have "?ps + 11 + length k + 1 = length (u @ z @ PARAMETER_OPEN @ k @ ''>'')" by (simp add: PARAMETER_OPEN_def)
  ultimately have "drop (?ps + 11 + length k + 1) ?b = NL @ v @ NL @ PARAMETER_CLOSE @ NL @ rest" by (metis append_eq_conv_conj)
  then have val: "strip_newlines (substr ?b (?ps + 11 + length k + 1) (?ps + 11 + length k + 1 + 1 + length v + 1 - (?ps + 11 + length k) - 1)) = v"
    using strip_wrapped[of v] by (simp add: substr_def NL_def)
  let ?pe = "?ps + 11 + length k" and ?pc = "?ps + 11 + length k + 1 + 1 + length v + 1"
  have lt: "?pe < ?pc" by simp
  have "parse_params jparse pk name ?b (length u) args =
      parse_params jparse pk name ?b (?pc + 12) (map_put k (param_value jparse pk name k v) args)"
    by (subst parse_params.simps) (simp only: ps pe pc option.case Let_def if_P[OF lt] key val)
  moreover have "?b = (u @ z @ PARAMETER_OPEN @ k @ ''>'' @ NL @ v @ NL @ PARAMETER_CLOSE) @ NL @ rest" by (simp add: param_text_def)
  moreover have "?pc + 12 = length (u @ z @ PARAMETER_OPEN @ k @ ''>'' @ NL @ v @ NL @ PARAMETER_CLOSE)"
    by (simp add: PARAMETER_OPEN_def PARAMETER_CLOSE_def NL_def)
  ultimately show ?thesis by (simp only:)
qed

lemma parse_params_text:
  assumes "CHR ''<'' \<notin> set z" "\<forall>(k, v) \<in> set kvs. name_ok k \<and> val_ok v"
  shows "parse_params jparse pk name (u @ z @ concat (map param_text kvs) @ FUNCTION_CLOSE @ NL) (length u) args =
    fold (\<lambda>(k, v) m. map_put k (param_value jparse pk name k v) m) kvs args"
  using assms
proof (induction kvs arbitrary: u z args)
  case Nil
  have "clear PARAMETER_OPEN (z @ FUNCTION_CLOSE @ NL)"
  proof (rule clear_append)
    show "clear PARAMETER_OPEN z" unfolding PARAMETER_OPEN_def by (rule clear_start[OF Nil(1)])
    show "clear PARAMETER_OPEN (FUNCTION_CLOSE @ NL)"
      unfolding PARAMETER_OPEN_def FUNCTION_CLOSE_def append_Cons append_Nil by (rule clear_tag) (simp_all add: NL_def)
  qed
  then have "str_find (u @ z @ FUNCTION_CLOSE @ NL) PARAMETER_OPEN (length u) = None"
    by (rule str_find_clear) (simp add: PARAMETER_OPEN_def)
  then show ?case by (subst parse_params.simps) simp
next
  case (Cons kv kvs)
  obtain k v where kv: "kv = (k, v)" by fastforce
  let ?u = "u @ z @ PARAMETER_OPEN @ k @ ''>'' @ NL @ v @ NL @ PARAMETER_CLOSE"
  have ok: "name_ok k" "val_ok v" "\<forall>(k, v) \<in> set kvs. name_ok k \<and> val_ok v" "CHR ''<'' \<notin> set NL" using Cons.prems(2) by (auto simp: kv NL_def)
  have "parse_params jparse pk name (u @ z @ concat (map param_text (kv # kvs)) @ FUNCTION_CLOSE @ NL) (length u) args =
      parse_params jparse pk name (u @ z @ param_text (k, v) @ concat (map param_text kvs) @ FUNCTION_CLOSE @ NL) (length u) args"
    by (simp add: kv)
  also have "\<dots> = parse_params jparse pk name (?u @ NL @ concat (map param_text kvs) @ FUNCTION_CLOSE @ NL) (length ?u) (map_put k (param_value jparse pk name k v) args)"
    by (rule parse_param_step[OF ok(1,2) Cons.prems(1)])
  also have "\<dots> = fold (\<lambda>(k, v) m. map_put k (param_value jparse pk name k v) m) kvs (map_put k (param_value jparse pk name k v) args)"
    by (rule Cons.IH[OF ok(4,3)])
  finally show ?case by (simp add: kv)
qed

definition block_text :: "string \<Rightarrow> (string \<times> string) list \<Rightarrow> string" where
  "block_text name kvs = TOOL_CALL_OPEN @ NL @ FUNCTION_OPEN @ name @ ''>'' @ NL @ concat (map param_text kvs) @ FUNCTION_CLOSE @ NL"

lemma parse_block_text:
  assumes "name_ok name" "\<forall>(k, v) \<in> set kvs. name_ok k \<and> val_ok v"
  shows "parse_block jparse jdump pk (block_text name kvs) =
    Some \<lparr>pc_name = name, pc_arguments = jdump (Json_obj (fold (\<lambda>(k, v) m. map_put k (param_value jparse pk name k v) m) kvs []))\<rparr>"
proof -
  let ?b = "block_text name kvs" and ?tail = "concat (map param_text kvs) @ FUNCTION_CLOSE @ NL"
  let ?fe = "TOOL_CALL_OPEN @ NL @ FUNCTION_OPEN @ name"
  have c: "clear FUNCTION_OPEN (TOOL_CALL_OPEN @ NL)"
    unfolding FUNCTION_OPEN_def TOOL_CALL_OPEN_def append_Cons append_Nil by (rule clear_tag) (simp_all add: NL_def)
  have fn: "str_find ?b FUNCTION_OPEN 0 = Some 12"
    using str_find_skip[OF c, of "[]" "name @ ''>'' @ NL @ ?tail"] by (simp add: block_text_def TOOL_CALL_OPEN_def NL_def)
  have c2: "clear ''>'' (FUNCTION_OPEN @ name)" using assms(1) by (auto simp: FUNCTION_OPEN_def name_ok_def intro!: clear_start)
  have fe: "str_find ?b ''>'' 12 = Some (length ?fe)"
  proof -
    have "?b = (TOOL_CALL_OPEN @ NL) @ (FUNCTION_OPEN @ name) @ ''>'' @ (NL @ ?tail)" by (simp add: block_text_def)
    moreover have "length (TOOL_CALL_OPEN @ NL) = 12" "12 + length (FUNCTION_OPEN @ name) = length ?fe"
      by (simp_all add: TOOL_CALL_OPEN_def NL_def)
    ultimately show ?thesis using str_find_skip[OF c2, of "TOOL_CALL_OPEN @ NL" "NL @ ?tail"] by (simp only:)
  qed
  have nm: "substr ?b (12 + 10) (length ?fe - 12 - 10) = name"
    by (simp add: substr_def block_text_def TOOL_CALL_OPEN_def FUNCTION_OPEN_def NL_def)
  have b: "?b = ?fe @ (''>'' @ NL) @ ?tail" by (simp add: block_text_def)
  have "parse_params jparse pk name ?b (length ?fe) [] = fold (\<lambda>(k, v) m. map_put k (param_value jparse pk name k v) m) kvs []"
    unfolding b by (rule parse_params_text[OF _ assms(2)]) (simp add: NL_def)
  then show ?thesis unfolding parse_block_def fn option.case fe Let_def nm by (simp only:)
qed


lemma clear_block:
  assumes "name_ok name" "\<forall>(k, v) \<in> set kvs. name_ok k \<and> val_ok v"
  shows "clear TOOL_CALL_CLOSE (block_text name kvs)" "clear THINK_CLOSE (block_text name kvs)"
proof -
  have *: "clear p (block_text name kvs)"
    if p: "p = CHR ''<'' # CHR ''/'' # q" "CHR 0x0A \<notin> set p" "\<And>v. val_ok v \<Longrightarrow> \<not> sublist p v"
      "clear p (PARAMETER_CLOSE @ NL)" "clear p (FUNCTION_CLOSE @ NL)" for p q
  proof -
    have "clear p (TOOL_CALL_OPEN @ NL)"
      unfolding p(1) TOOL_CALL_OPEN_def append_Cons append_Nil by (rule clear_tag) (simp_all add: NL_def)
    moreover have "clear p (FUNCTION_OPEN @ name @ ''>'' @ NL)"
      unfolding FUNCTION_OPEN_def append_Cons append_Nil
      using clear_open[OF assms(1) p(1), of "''function=''"] by simp
    moreover have "clear p (concat (map param_text kvs))"
    proof (rule clear_concat)
      fix x assume "x \<in> set (map param_text kvs)"
      then obtain k v where kv: "(k, v) \<in> set kvs" "x = param_text (k, v)" by auto
      have ok: "name_ok k" "val_ok v" using kv(1) assms(2) by auto
      have "clear p (PARAMETER_OPEN @ k @ ''>'' @ NL)"
        unfolding PARAMETER_OPEN_def append_Cons append_Nil using clear_open[OF ok(1) p(1), of "''parameter=''"] by simp
      moreover have "clear p (v @ NL)" by (rule clear_value[OF p(3)[OF ok(2)] p(2)]) (simp add: p(1))
      ultimately have "clear p ((PARAMETER_OPEN @ k @ ''>'' @ NL) @ ((v @ NL) @ (PARAMETER_CLOSE @ NL)))"
        using p(4) clear_append by metis
      then show "clear p x" by (simp add: kv(2) param_text_def)
    qed
    ultimately have "clear p ((TOOL_CALL_OPEN @ NL) @ ((FUNCTION_OPEN @ name @ ''>'' @ NL) @ (concat (map param_text kvs) @ (FUNCTION_CLOSE @ NL))))"
      using p(5) clear_append by metis
    then show ?thesis by (simp add: block_text_def)
  qed
  show "clear TOOL_CALL_CLOSE (block_text name kvs)"
    by (rule *[of _ "''tool_call>''"])
      (use clear_close[of TOOL_CALL_CLOSE "''tool_call>''" "''parameter>'' @ NL"] clear_close[of TOOL_CALL_CLOSE "''tool_call>''" "''function>'' @ NL"]
        in \<open>auto simp: TOOL_CALL_CLOSE_def PARAMETER_CLOSE_def FUNCTION_CLOSE_def NL_def val_ok_def\<close>)
  show "clear THINK_CLOSE (block_text name kvs)"
    by (rule *[of _ "''think>''"])
      (use clear_close[of THINK_CLOSE "''think>''" "''parameter>'' @ NL"] clear_close[of THINK_CLOSE "''think>''" "''function>'' @ NL"]
        in \<open>auto simp: THINK_CLOSE_def PARAMETER_CLOSE_def FUNCTION_CLOSE_def NL_def val_ok_def\<close>)
qed


text \<open>A sequence of blocks, each after some text.\<close>

definition call_text_of :: "tool_call \<Rightarrow> string" where
  "call_text_of tc = block_text (tc_name tc) (tc_args tc) @ TOOL_CALL_CLOSE"

definition tool_call_ok :: "tool_call \<Rightarrow> bool" where
  "tool_call_ok tc \<longleftrightarrow> name_ok (tc_name tc) \<and> (\<forall>(k, v) \<in> set (tc_args tc). name_ok k \<and> val_ok v)"

definition read_call :: "(string \<Rightarrow> 'n json option) \<Rightarrow> ('n json \<Rightarrow> string) \<Rightarrow> param_kinds option \<Rightarrow> tool_call \<Rightarrow> parsed_call" where
  "read_call jparse jdump pk tc =
     \<lparr>pc_name = tc_name tc,
      pc_arguments = jdump (Json_obj (fold (\<lambda>(k, v) m. map_put k (param_value jparse pk (tc_name tc) k v) m) (tc_args tc) []))\<rparr>"

lemma parse_blocks_text:
  assumes "\<forall>(z, tc) \<in> set zs. clear TOOL_CALL_OPEN z \<and> tool_call_ok tc"
  shows "parse_blocks jparse jdump pk (u @ concat (map (\<lambda>(z, tc). z @ call_text_of tc) zs)) (length u) out calls =
    (out @ concat (map fst zs), calls @ map (read_call jparse jdump pk \<circ> snd) zs)"
  using assms
proof (induction zs arbitrary: u out calls)
  case Nil
  have "str_find u TOOL_CALL_OPEN (length u) = None" using str_find_clear[of TOOL_CALL_OPEN "[]" u] by (simp add: TOOL_CALL_OPEN_def)
  then show ?case by (subst parse_blocks.simps) simp
next
  case (Cons zt zs)
  obtain z tc where zt: "zt = (z, tc)" by fastforce
  let ?B = "block_text (tc_name tc) (tc_args tc)" and ?rest = "concat (map (\<lambda>(z, tc). z @ call_text_of tc) zs)"
  let ?t = "u @ concat (map (\<lambda>(z, tc). z @ call_text_of tc) (zt # zs))"
  have ok: "clear TOOL_CALL_OPEN z" "name_ok (tc_name tc)" "\<forall>(k, v) \<in> set (tc_args tc). name_ok k \<and> val_ok v"
    using Cons.prems by (auto simp: zt tool_call_ok_def)
  have t: "?t = (u @ z) @ ?B @ TOOL_CALL_CLOSE @ ?rest" by (simp add: zt call_text_of_def)
  obtain B' where B': "?B = TOOL_CALL_OPEN @ B'" by (simp add: block_text_def)
  have tc: "str_find ?t TOOL_CALL_OPEN (length u) = Some (length u + length z)"
    using str_find_skip[OF ok(1), of u "B' @ TOOL_CALL_CLOSE @ ?rest"] unfolding t B' by simp
  have tce: "str_find ?t TOOL_CALL_CLOSE (length u + length z) = Some (length u + length z + length ?B)"
    using str_find_skip[OF clear_block(1)[OF ok(2,3)], of "u @ z" ?rest] unfolding t by simp
  have block: "substr ?t (length u + length z) (length u + length z + length ?B - (length u + length z)) = ?B"
    unfolding t by (simp add: substr_def)
  have before: "substr ?t (length u) (length u + length z - length u) = z" unfolding t by (simp add: substr_def)
  let ?u = "u @ z @ call_text_of tc"
  have "parse_blocks jparse jdump pk ?t (length u) out calls =
      parse_blocks jparse jdump pk ?t (length u + length z + length ?B + 12) (out @ z) (calls @ [read_call jparse jdump pk tc])"
    by (subst parse_blocks.simps)
      (simp only: tc tce option.case Let_def block before parse_block_text[OF ok(2,3)] read_call_def)
  moreover have "?t = ?u @ ?rest" "length u + length z + length ?B + 12 = length ?u"
    by (simp_all add: zt call_text_of_def TOOL_CALL_CLOSE_def)
  ultimately show ?case using Cons.IH[of ?u "out @ z" "calls @ [read_call jparse jdump pk tc]"] Cons.prems by (simp add: zt)
qed

definition emitted_text :: "emission list \<Rightarrow> string" where
  "emitted_text es = concat (map (\<lambda>e. case e of Txt s \<Rightarrow> s | _ \<Rightarrow> []) es)"

lemma emitted_call: "emitted_text (call_emit content k tc) = (if k = 0 then (if content = [] then [] else NL @ NL) else NL) @ call_text_of tc"
  by (simp add: emitted_text_def call_emit_def call_text_def call_text_of_def block_text_def param_text_def comp_def case_prod_unfold)

lemma emitted_calls:
  "emitted_text (calls_emit content (tc # tcs)) =
     (if content = [] then [] else NL @ NL) @ call_text_of tc @ concat (map (\<lambda>tc. NL @ call_text_of tc) tcs)"
proof -
  have a: "emitted_text (xs @ ys) = emitted_text xs @ emitted_text ys" for xs ys by (simp add: emitted_text_def)
  have e: "emitted_text (concat xss) = concat (map emitted_text xss)" for xss by (induction xss) (auto simp: emitted_text_def)
  have u: "[0..<length (tc # tcs)] = 0 # map Suc [0..<length tcs]" by (simp add: map_Suc_upt upt_conv_Cons del: upt_Suc)
  have "map (\<lambda>k. emitted_text (call_emit content (Suc k) (tcs ! k))) [0..<length tcs] = map (\<lambda>tc. NL @ call_text_of tc) tcs"
    by (rule nth_equalityI) (simp_all add: emitted_call)
  then show ?thesis unfolding calls_emit_def u by (simp add: a e emitted_call comp_def)
qed


text \<open>What comes before the content: nothing, or some reasoning with its end marker and line breaks.\<close>

inductive reply_lead :: "string \<Rightarrow> bool" where
  lead_none: "reply_lead []"
| lead_think: "reply_lead (R @ THINK_CLOSE @ replicate n (CHR 0x0A))"

lemma str_rfind_clear: "clear pat s \<Longrightarrow> pat \<noteq> [] \<Longrightarrow> str_rfind s pat = None"
proof -
  assume c: "clear pat s" "pat \<noteq> []"
  have "\<not> prefix pat (drop i s)" for i
  proof (cases "i < length s")
    case True
    from c(1)[unfolded clear_def, rule_format, OF this, of "[]"] show ?thesis by simp
  qed (use c(2) in simp)
  then show ?thesis by (simp add: str_rfind_def find_None_iff)
qed

lemma str_rfind_last:
  assumes "clear pat (tl pat @ b)" "pat \<noteq> []" shows "str_rfind (a @ pat @ b) pat = Some (length a)"
proof (rule str_rfind_eq)
  fix j assume j: "length a < j" "j \<le> length (a @ pat @ b)"
  obtain c p where pat: "pat = c # p" using assms(2) by (cases pat) auto
  have d: "drop j (a @ pat @ b) = drop (j - length a - 1) (tl pat @ b)"
    using j(1) by (cases "j - length a") (auto simp: pat)
  show "\<not> prefix pat (drop j (a @ pat @ b))"
  proof (cases "j - length a - 1 < length (tl pat @ b)")
    case True
    from assms(1)[unfolded clear_def, rule_format, OF this, of "[]"] show ?thesis unfolding d by simp
  next
    case False
    then show ?thesis unfolding d using assms(2) by simp
  qed
qed simp_all

text \<open>The scan starts behind the reasoning, and only line breaks are left before the content.\<close>

lemma scan_lead:
  assumes "reply_lead pre" "clear THINK_CLOSE body"
  obtains u g where "pre = u @ g" "CHR ''<'' \<notin> set g" "(case str_rfind (u @ g @ body) THINK_CLOSE of None \<Rightarrow> 0 | Some p \<Rightarrow> p + 8) = length u"
  using assms(1)
proof cases
  case lead_none
  have "str_rfind body THINK_CLOSE = None" by (rule str_rfind_clear[OF assms(2)]) (simp add: THINK_CLOSE_def)
  then show ?thesis using that[of "[]" "[]"] lead_none by simp
next
  case (lead_think R n)
  let ?g = "replicate n (CHR 0x0A)"
  have "clear THINK_CLOSE (tl THINK_CLOSE @ ?g)" by (auto simp: THINK_CLOSE_def intro!: clear_start)
  then have "clear THINK_CLOSE ((tl THINK_CLOSE @ ?g) @ body)" using assms(2) by (rule clear_append)
  then have "str_rfind (R @ THINK_CLOSE @ ?g @ body) THINK_CLOSE = Some (length R)"
    by (intro str_rfind_last) (simp_all add: THINK_CLOSE_def)
  then show ?thesis using that[of "R @ THINK_CLOSE" ?g] lead_think by (simp add: THINK_CLOSE_def)
qed

definition content_ok :: "string \<Rightarrow> bool" where
  "content_ok c \<longleftrightarrow> \<not> sublist TOOL_CALL_OPEN c \<and> \<not> sublist THINK_CLOSE c"

lemma trim_tail_append: "set s \<subseteq> {CHR 0x0A, CHR '' ''} \<Longrightarrow> trim_tail (x @ s) = trim_tail x"
  unfolding trim_tail_def rev_append by (subst dropWhile_append2) auto

lemma content_clear:
  assumes "content_ok c" "tag = TOOL_CALL_OPEN \<or> tag = THINK_CLOSE"
  shows "clear tag (c @ (if c = [] then [] else NL @ NL))"
proof (cases "c = []")
  case False
  have t: "CHR 0x0A \<notin> set tag" "tag \<noteq> []" "\<exists>p. tag = CHR ''<'' # p" using assms(2) by (auto simp: TOOL_CALL_OPEN_def THINK_CLOSE_def)
  have "clear tag (c @ NL)" by (rule clear_value) (use assms t in \<open>auto simp: content_ok_def\<close>)
  moreover have "clear tag NL" using t(3) by (auto simp: NL_def intro: clear_start)
  ultimately have "clear tag ((c @ NL) @ NL)" by (rule clear_append)
  then show ?thesis using False by simp
qed simp

lemma call_text_clear: "tool_call_ok tc \<Longrightarrow> clear THINK_CLOSE (call_text_of tc)"
proof -
  assume "tool_call_ok tc"
  then have "clear THINK_CLOSE (block_text (tc_name tc) (tc_args tc))" by (intro clear_block) (auto simp: tool_call_ok_def)
  moreover have "clear THINK_CLOSE TOOL_CALL_CLOSE"
    using clear_close[of THINK_CLOSE "''think>''" "''tool_call>''"] by (simp add: THINK_CLOSE_def TOOL_CALL_CLOSE_def)
  ultimately show ?thesis by (simp add: call_text_of_def clear_append)
qed

lemma parse_rendered:
  assumes ld: "reply_lead pre" and c: "content_ok content" and tcs: "list_all tool_call_ok tcs" "tcs \<noteq> []"
  shows "parse_tool_calls jparse jdump pk (pre @ content @ emitted_text (calls_emit content tcs)) =
    (trim_tail (pre @ content), map (read_call jparse jdump pk) tcs)"
proof -
  obtain tc tcs' where t: "tcs = tc # tcs'" using tcs(2) by (cases tcs) auto
  let ?sep = "if content = [] then [] else NL @ NL"
  let ?body = "(content @ ?sep) @ call_text_of tc @ concat (map (\<lambda>tc. NL @ call_text_of tc) tcs')"
  have nl: "clear THINK_CLOSE NL" "clear TOOL_CALL_OPEN NL" by (auto simp: THINK_CLOSE_def TOOL_CALL_OPEN_def NL_def intro: clear_start)
  have tail: "clear THINK_CLOSE (concat (map (\<lambda>tc. NL @ call_text_of tc) tcs'))"
    by (rule clear_concat) (use tcs(1) nl(1) in \<open>auto simp: t list_all_iff intro!: clear_append call_text_clear\<close>)
  have body: "clear THINK_CLOSE ?body"
    by (intro clear_append[OF content_clear[OF c]] clear_append[OF call_text_clear] tail) (use tcs(1) in \<open>simp_all add: t\<close>)
  have tx: "pre @ content @ emitted_text (calls_emit content tcs) = pre @ ?body" by (simp add: t emitted_calls)
  have main: "parse_tool_calls jparse jdump pk (u @ g @ ?body) = (trim_tail (u @ g @ content), map (read_call jparse jdump pk) tcs)"
    if g: "clear TOOL_CALL_OPEN g" and scan: "(case str_rfind (u @ g @ ?body) THINK_CLOSE of None \<Rightarrow> 0 | Some p \<Rightarrow> p + 8) = length u" for u g
  proof -
    let ?zs = "(g @ content @ ?sep, tc) # map (\<lambda>tc. (NL, tc)) tcs'"
    have zs: "\<forall>(z, tc) \<in> set ?zs. clear TOOL_CALL_OPEN z \<and> tool_call_ok tc"
      using clear_append[OF g content_clear[OF c, of TOOL_CALL_OPEN]] nl(2) tcs(1) by (auto simp: t list_all_iff)
    have "u @ g @ ?body = u @ concat (map (\<lambda>(z, tc). z @ call_text_of tc) ?zs)" by (simp add: comp_def)
    moreover have "concat (map fst ?zs) = g @ content @ ?sep @ concat (map (\<lambda>tc. NL) tcs')" by (simp add: comp_def)
    moreover have "set (?sep @ concat (map (\<lambda>tc. NL) tcs')) \<subseteq> {CHR 0x0A, CHR '' ''}" by (auto simp: NL_def)
    moreover have "map (read_call jparse jdump pk \<circ> snd) ?zs = map (read_call jparse jdump pk) tcs" by (simp add: t)
    ultimately have "parse_blocks jparse jdump pk (u @ g @ ?body) (length u) u [] =
        ((u @ g @ content) @ ?sep @ concat (map (\<lambda>tc. NL) tcs'), map (read_call jparse jdump pk) tcs)"
      using parse_blocks_text[OF zs, of jparse jdump pk u u "[]"] by (simp only: append_assoc append_Nil)
    moreover have "trim_tail ((u @ g @ content) @ ?sep @ concat (map (\<lambda>tc. NL) tcs')) = trim_tail (u @ g @ content)"
      by (rule trim_tail_append) (auto simp: NL_def)
    moreover have "take (length u) (u @ g @ ?body) = u" by simp
    ultimately show ?thesis unfolding parse_tool_calls_def scan Let_def by (simp only: prod.case)
  qed
  obtain u g where "pre = u @ g" "CHR ''<'' \<notin> set g" "(case str_rfind (u @ g @ ?body) THINK_CLOSE of None \<Rightarrow> 0 | Some p \<Rightarrow> p + 8) = length u"
    using scan_lead[OF ld body] .
  then show ?thesis unfolding tx using main[of g u] by (simp add: TOOL_CALL_OPEN_def clear_start)
qed

subsection \<open>Arguments\<close>

text \<open>
  An argument survives the untyped markup when its text holds no closing tag and its kind is known: a string is declared as
  one in the schema, or does not parse as another value; any other value is not declared as a string, and the JSON library reads
  what it has printed.
\<close>

definition arg_ok :: "(string \<Rightarrow> 'n json option) \<Rightarrow> ('n json \<Rightarrow> string) \<Rightarrow> param_kinds \<Rightarrow> string \<Rightarrow> string \<times> 'n json \<Rightarrow> bool" where
  "arg_ok jparse jdump pk name = (\<lambda>(k, v). name_ok k \<and> val_ok (raw_or_dump jdump v) \<and>
     (case v of
        Json_str s \<Rightarrow> pk (kind_key name k) = Some 1 \<or> (case jparse s of None \<Rightarrow> True | Some j \<Rightarrow> is_str j)
      | _ \<Rightarrow> pk (kind_key name k) \<noteq> Some 1 \<and> jparse (jdump v) = Some v))"

definition json_call_ok :: "(string \<Rightarrow> 'n json option) \<Rightarrow> ('n json \<Rightarrow> string) \<Rightarrow> param_kinds \<Rightarrow> string \<times> (string \<times> 'n json) list \<Rightarrow> bool" where
  "json_call_ok jparse jdump pk = (\<lambda>(name, args). name_ok name \<and> ordered args \<and> list_all (arg_ok jparse jdump pk name) args)"

definition render_call :: "('n json \<Rightarrow> string) \<Rightarrow> string \<times> (string \<times> 'n json) list \<Rightarrow> tool_call" where
  "render_call jdump = (\<lambda>(name, args). tool_call_of jdump name (Json_obj args))"

lemma param_value_back: "arg_ok jparse jdump pk name (k, v) \<Longrightarrow> param_value jparse (Some pk) name k (raw_or_dump jdump v) = v"
  by (cases v) (auto simp: arg_ok_def param_value_def raw_or_dump_def Let_def split: option.splits)

lemma render_call_ok: "json_call_ok jparse jdump pk c \<Longrightarrow> tool_call_ok (render_call jdump c)"
  by (auto simp: json_call_ok_def tool_call_ok_def render_call_def tool_call_of_def list_all_iff arg_ok_def split: prod.splits)

lemma read_call_back:
  assumes "json_call_ok jparse jdump pk (name, args)"
  shows "read_call jparse jdump (Some pk) (render_call jdump (name, args)) = \<lparr>pc_name = name, pc_arguments = jdump (Json_obj args)\<rparr>"
proof -
  have "fold (\<lambda>(k, v) m. map_put k (param_value jparse (Some pk) name k v) m) (map (\<lambda>(k, v). (k, raw_or_dump jdump v)) kvs) m =
      fold (\<lambda>(k, v) m. map_put k v m) kvs m" if "list_all (arg_ok jparse jdump pk name) kvs" for kvs and m :: "(string \<times> 'a json) list"
    using that by (induction kvs arbitrary: m) (auto simp: param_value_back)
  moreover have "ordered args" "list_all (arg_ok jparse jdump pk name) args" using assms by (simp_all add: json_call_ok_def)
  ultimately show ?thesis using fold_map_put[of "[]" args] by (simp add: read_call_def render_call_def tool_call_of_def)
qed

text \<open>
  C13. Under conditions on its contents, the server reads back the text the template writes for an assistant's turn: with any reasoning
  before it, \<open>parse_tool_calls\<close> returns the content without the calls and the names and arguments of all calls, in order,
  with the types of the values. The conditions are: the content has no \<open><tool_call>\<close> and no \<open></think>\<close>; names of functions and parameters
  have no \<open><\<close> and no \<open>>\<close>; the text of a value has no \<open></parameter>\<close>, \<open></tool_call>\<close> or \<open></think>\<close>; the parameters are in
  the order of the JSON library's map; a string is declared as a string or does not read as a JSON value of another type; any
  other value is not declared as a string and is read back by the JSON parser from what the printer wrote.
\<close>

theorem tool_call_roundtrip:
  assumes "reply_lead pre" "content_ok content" "calls \<noteq> []" "list_all (json_call_ok jparse jdump pk) calls"
  shows "parse_tool_calls jparse jdump (Some pk) (pre @ content @ emitted_text (calls_emit content (map (render_call jdump) calls))) =
    (trim_tail (pre @ content), map (\<lambda>(name, args). \<lparr>pc_name = name, pc_arguments = jdump (Json_obj args)\<rparr>) calls)"
proof -
  have "list_all tool_call_ok (map (render_call jdump) calls)" using assms(4) by (auto simp: list_all_iff render_call_ok)
  moreover have "map (read_call jparse jdump (Some pk)) (map (render_call jdump) calls) =
      map (\<lambda>(name, args). \<lparr>pc_name = name, pc_arguments = jdump (Json_obj args)\<rparr>) calls"
    using assms(4) by (auto simp: list_all_iff read_call_back)
  moreover have "map (render_call jdump) calls \<noteq> []" using assms(3) by simp
  ultimately show ?thesis using parse_rendered[OF assms(1,2), of "map (render_call jdump) calls" jparse jdump "Some pk"]
    by (simp only: simp_thms True_implies_equals)
qed

subsection \<open>An instance\<close>

definition demo_dump :: "unit json \<Rightarrow> string" where
  "demo_dump j = (case j of Json_bool b \<Rightarrow> if b then ''true'' else ''false'' | Json_obj kvs \<Rightarrow> concat (map fst kvs) | _ \<Rightarrow> ''null'')"

definition demo_parse :: "string \<Rightarrow> unit json option" where
  "demo_parse s = (if s = ''true'' then Some (Json_bool True) else None)"

definition demo_kinds :: param_kinds where
  "demo_kinds = [kind_key ''ls'' ''path'' \<mapsto> 1]"

definition demo_args :: "(string \<times> unit json) list" where
  "demo_args = [(''all'', Json_bool True), (''path'', Json_str ''true'')]"

lemma demo_call_ok: "json_call_ok demo_parse demo_dump demo_kinds (''ls'', demo_args)"
  by code_simp

theorem tool_call_roundtrip_witness:
  "parse_tool_calls demo_parse demo_dump (Some demo_kinds)
     ((''a listing'' @ THINK_CLOSE @ replicate 2 (CHR 0x0A)) @ ''Here:'' @ emitted_text (calls_emit ''Here:'' (map (render_call demo_dump) [(''ls'', demo_args)]))) =
   (trim_tail ((''a listing'' @ THINK_CLOSE @ replicate 2 (CHR 0x0A)) @ ''Here:''), [\<lparr>pc_name = ''ls'', pc_arguments = ''allpath''\<rparr>])"
proof -
  have "content_ok ''Here:''" by (simp add: content_ok_def TOOL_CALL_OPEN_def THINK_CLOSE_def sublist_code)
  moreover have "list_all (json_call_ok demo_parse demo_dump demo_kinds) [(''ls'', demo_args)]" using demo_call_ok by simp
  moreover have "demo_dump (Json_obj demo_args) = ''allpath''" by (simp add: demo_dump_def demo_args_def)
  ultimately show ?thesis
    using tool_call_roundtrip[OF reply_lead.lead_think[of "''a listing''" 2], of "''Here:''" "[(''ls'', demo_args)]" demo_parse demo_dump demo_kinds]
    by (simp only: list.map prod.case list.distinct simp_thms True_implies_equals)
qed

end
