(* ===== verification/Py_Calls.thy ===== *)
theory Py_Calls
  imports Tool_Calls
begin

section \<open>Tool calls of lfm2 models\<close>

text \<open>
  \<open>PyReader\<close> and \<open>parse_tool_calls_lfm2\<close> of \<open>server/main.cpp\<close>: a call is written as a Python expression. The reader is a recursive
  descent over the text; its position \<open>i\<close> is the text that is left. It reads back the literals that \<open>py_literal\<close>
  writes and the calls that \<open>build_lfm2_prompt\<close> renders.
\<close>

subsection \<open>The reader\<close>

definition py_ws :: "string \<Rightarrow> string" where "py_ws s = dropWhile chat_ws s"

definition py_eat :: "char \<Rightarrow> string \<Rightarrow> bool \<times> string" where
  "py_eat c s = (let r = py_ws s in if r \<noteq> [] \<and> hd r = c then (True, tl r) else (False, r))"

definition isalnum :: "char \<Rightarrow> bool" where
  "isalnum c \<longleftrightarrow> (let n = (of_char c :: nat) in 48 \<le> n \<and> n \<le> 57 \<or> 65 \<le> n \<and> n \<le> 90 \<or> 97 \<le> n \<and> n \<le> 122)"

definition ident_char :: "char \<Rightarrow> bool" where
  "ident_char c \<longleftrightarrow> isalnum c \<or> c = CHR ''_'' \<or> c = CHR ''.'' \<or> c = CHR ''-''"

definition py_ident :: "string \<Rightarrow> string \<times> string" where
  "py_ident s = (let r = py_ws s in (takeWhile ident_char r, dropWhile ident_char r))"

definition unescape :: "char \<Rightarrow> char" where
  "unescape e = (if e = CHR ''n'' then CHR 0x0A else if e = CHR ''t'' then CHR 0x09 else if e = CHR ''r'' then CHR 0x0D else e)"

fun str_body :: "char \<Rightarrow> string \<Rightarrow> string \<Rightarrow> string \<times> string" where
  "str_body q [] out = (out, [])"
| "str_body q (c # s) out =
     (if c = q then (out, c # s)
      else if c = CHR 0x5C then (case s of [] \<Rightarrow> (out @ [c], []) | e # s' \<Rightarrow> str_body q s' (out @ [unescape e]))
      else str_body q s (out @ [c]))"

definition is_quote :: "char \<Rightarrow> bool" where
  "is_quote c \<longleftrightarrow> c = CHR 0x27 \<or> c = CHR 0x22"

definition py_str :: "string \<Rightarrow> string option \<times> string" where
  "py_str s =
     (let r = py_ws s in
      if r = [] \<or> \<not> is_quote (hd r) then (None, r)
      else (case str_body (hd r) (tl r) [] of (out, r1) \<Rightarrow> (case py_eat (hd r) r1 of (ok, r2) \<Rightarrow> (if ok then Some out else None, r2))))"

fun is_num :: "'n json \<Rightarrow> bool" where
  "is_num (Json_num n) = True"
| "is_num _ = False"

definition py_word :: "(string \<Rightarrow> 'n json option) \<Rightarrow> string \<Rightarrow> 'n json option" where
  "py_word jparse t =
     (if t = [] then None else if t = ''True'' then Some (Json_bool True) else if t = ''False'' then Some (Json_bool False)
      else if t = ''None'' then Some Json_null
      else (case jparse t of None \<Rightarrow> None | Some v \<Rightarrow> if is_num v then Some v else None))"

text \<open>\<open>value\<close>: the loops over the elements of a list and the entries of a dictionary are the other two modes.\<close>

datatype 'n py_mode = Py_value | Py_items "'n json list" | Py_entries "(string \<times> 'n json) list"

lemma py_eat_le: "py_eat c s = (ok, r) \<Longrightarrow> length r \<le> length s \<and> (ok \<longrightarrow> length r < length s)"
proof -
  assume e: "py_eat c s = (ok, r)"
  have "length (py_ws s) \<le> length s" by (simp add: py_ws_def length_dropWhile_le)
  then show ?thesis using e by (auto simp: py_eat_def Let_def neq_Nil_conv split: if_splits)
qed

lemma str_body_length: "length (snd (str_body q s out)) \<le> length s"
proof (induction q s out rule: str_body.induct)
  case (2 q c s out)
  then show ?case by (cases s) (auto simp: le_SucI)
qed simp

function py_read :: "(string \<Rightarrow> 'n json option) \<Rightarrow> 'n py_mode \<Rightarrow> string \<Rightarrow> 'n json option \<times> string" where
  "py_read jparse Py_value s =
     (case py_ws s of
        [] \<Rightarrow> (None, [])
      | c # r \<Rightarrow>
          if is_quote c then (case py_str (c # r) of (t, r1) \<Rightarrow> (map_option Json_str t, r1))
          else if c = CHR ''['' then (case py_eat (CHR '']'') r of (ok, r1) \<Rightarrow> if ok then (Some (Json_arr []), r1) else py_read jparse (Py_items []) r1)
          else if c = CHR ''{'' then (case py_eat (CHR ''}'') r of (ok, r1) \<Rightarrow> if ok then (Some (Json_obj []), r1) else py_read jparse (Py_entries []) r1)
          else (case py_ident (c # r) of (t, r1) \<Rightarrow> (py_word jparse t, r1)))"
| "py_read jparse (Py_items xs) s =
     (case py_read jparse Py_value s of
        (None, r) \<Rightarrow> (None, r)
      | (Some e, r) \<Rightarrow>
          (case py_eat (CHR '','') r of
             (True, r1) \<Rightarrow> py_read jparse (Py_items (xs @ [e])) r1
           | (False, r1) \<Rightarrow> (case py_eat (CHR '']'') r1 of (ok, r2) \<Rightarrow> (if ok then Some (Json_arr (xs @ [e])) else None, r2))))"
| "py_read jparse (Py_entries kvs) s =
     (case py_read jparse Py_value s of
        (Some (Json_str k), r) \<Rightarrow>
          (case py_eat (CHR '':'') r of
             (False, r1) \<Rightarrow> (None, r1)
           | (True, r1) \<Rightarrow>
               (case py_read jparse Py_value r1 of
                  (None, r2) \<Rightarrow> (None, r2)
                | (Some e, r2) \<Rightarrow>
                    (case py_eat (CHR '','') r2 of
                       (True, r3) \<Rightarrow> py_read jparse (Py_entries (map_put k e kvs)) r3
                     | (False, r3) \<Rightarrow> (case py_eat (CHR ''}'') r3 of (ok, r4) \<Rightarrow> (if ok then Some (Json_obj (map_put k e kvs)) else None, r4)))))
      | (_, r) \<Rightarrow> (None, r))"
  by pat_completeness auto

lemma py_str_length: "length (snd (py_str s)) \<le> length s"
proof -
  have w: "length (py_ws s) \<le> length s" by (simp add: py_ws_def length_dropWhile_le)
  show ?thesis
  proof (cases "py_ws s = [] \<or> \<not> is_quote (hd (py_ws s))")
    case True
    then show ?thesis using w by (auto simp: py_str_def Let_def)
  next
    case False
    obtain out r1 where b: "str_body (hd (py_ws s)) (tl (py_ws s)) [] = (out, r1)" by fastforce
    have "length r1 \<le> length (tl (py_ws s))" using str_body_length[of "hd (py_ws s)" "tl (py_ws s)" "[]"] b by simp
    then show ?thesis
      using False b w by (auto simp: py_str_def Let_def dest!: py_eat_le split: prod.splits)
  qed
qed

lemma py_ident_length: "length (snd (py_ident s)) \<le> length s"
proof -
  have "length (dropWhile ident_char (py_ws s)) \<le> length (py_ws s)" "length (py_ws s) \<le> length s"
    by (simp_all add: py_ws_def length_dropWhile_le)
  then show ?thesis by (simp add: py_ident_def Let_def)
qed

text \<open>The reader only moves forward.\<close>

lemma py_read_length: "py_read_dom (jparse, m, s) \<Longrightarrow> length (snd (py_read jparse m s)) \<le> length s"
proof (induction jparse m s rule: py_read.pinduct)
  case (1 jparse s)
  have w: "length (py_ws s) \<le> length s" by (simp add: py_ws_def length_dropWhile_le)
  show ?case
  proof (cases "py_ws s")
    case Nil
    then show ?thesis by (simp add: py_read.psimps(1)[OF 1(1)])
  next
    case (Cons c r)
    obtain ok1 r1 where e1: "py_eat (CHR '']'') r = (ok1, r1)" by fastforce
    obtain ok2 r2 where e2: "py_eat (CHR ''}'') r = (ok2, r2)" by fastforce
    have "length r < length s" "length r1 \<le> length r" "length r2 \<le> length r" using w Cons py_eat_le[OF e1] py_eat_le[OF e2] by auto
    moreover have "\<not> is_quote c \<Longrightarrow> c = CHR ''['' \<Longrightarrow> \<not> ok1 \<Longrightarrow> length (snd (py_read jparse (Py_items []) r1)) \<le> length r1"
      using 1(2)[OF Cons] e1 by auto
    moreover have "\<not> is_quote c \<Longrightarrow> c \<noteq> CHR ''['' \<Longrightarrow> c = CHR ''{'' \<Longrightarrow> \<not> ok2 \<Longrightarrow> length (snd (py_read jparse (Py_entries []) r2)) \<le> length r2"
      using 1(3)[OF Cons] e2 by auto
    ultimately show ?thesis
      using py_str_length[of "c # r"] py_ident_length[of "c # r"] by (auto simp: py_read.psimps(1)[OF 1(1)] Cons e1 e2 split: prod.splits)
  qed
next
  case (2 jparse xs s)
  obtain v r where v: "py_read jparse Py_value s = (v, r)" by fastforce
  obtain ok r1 where e1: "py_eat (CHR '','') r = (ok, r1)" by fastforce
  obtain ok2 r2 where e2: "py_eat (CHR '']'') r1 = (ok2, r2)" by fastforce
  have "length r \<le> length s" using 2(2) v by simp
  moreover have "v = Some e \<Longrightarrow> ok \<Longrightarrow> length (snd (py_read jparse (Py_items (xs @ [e])) r1)) \<le> length r1" for e
    using 2(3) v e1 by auto
  ultimately show ?case
    using py_eat_le[OF e1] py_eat_le[OF e2] by (auto simp: py_read.psimps(2)[OF 2(1)] v e1 e2 split: option.splits bool.splits)
next
  case (3 jparse kvs s)
  obtain v r where v: "py_read jparse Py_value s = (v, r)" by fastforce
  obtain ok r1 where e1: "py_eat (CHR '':'') r = (ok, r1)" by fastforce
  obtain w r2 where w: "py_read jparse Py_value r1 = (w, r2)" by fastforce
  obtain ok3 r3 where e3: "py_eat (CHR '','') r2 = (ok3, r3)" by fastforce
  obtain ok4 r4 where e4: "py_eat (CHR ''}'') r3 = (ok4, r4)" by fastforce
  have le: "length r \<le> length s" using 3(2) v by simp
  show ?case
  proof (cases "\<exists>k. v = Some (Json_str k)")
    case True
    then obtain k where k: "v = Some (Json_str k)" by blast
    have "ok \<Longrightarrow> length r2 \<le> length r1" using 3(3) v k e1 w by fastforce
    moreover have "w = Some e \<Longrightarrow> ok \<Longrightarrow> ok3 \<Longrightarrow> length (snd (py_read jparse (Py_entries (map_put k e kvs)) r3)) \<le> length r3" for e
      using 3(4) v k e1 w e3 by auto
    ultimately show ?thesis
      using le py_eat_le[OF e1] py_eat_le[OF e3] py_eat_le[OF e4]
      by (auto simp: py_read.psimps(3)[OF 3(1)] v k e1 w e3 e4 split: option.splits bool.splits)
  next
    case False
    then show ?thesis using le by (auto simp: py_read.psimps(3)[OF 3(1)] v split: option.splits json.splits)
  qed
qed

definition mode_rank :: "'n py_mode \<Rightarrow> nat" where
  "mode_rank m = (case m of Py_value \<Rightarrow> 0 | _ \<Rightarrow> 1)"

lemma py_ws_Cons: "py_ws s = c # r \<Longrightarrow> length r < length s"
  using length_dropWhile_le[of chat_ws s] by (simp add: py_ws_def)

lemma py_read_le: "py_read_dom (jparse, m, s) \<Longrightarrow> (v, r) = py_read jparse m s \<Longrightarrow> length r \<le> length s"
  using py_read_length by (metis snd_conv)

lemma py_eat_le': "(ok, r) = py_eat c s \<Longrightarrow> length r \<le> length s \<and> (ok \<longrightarrow> length r < length s)"
  using py_eat_le by metis

lemma py_read_total: "All py_read_dom"
  by (rule "py_read.termination"[of "measures [\<lambda>(jparse, m, s). length s, \<lambda>(jparse, m, s). mode_rank m]"])
    (auto simp: mode_rank_def dest!: py_ws_Cons py_eat_le' py_read_le)

termination py_read by (rule py_read_total)

declare py_read.simps [simp del]

subsection \<open>Calls\<close>

text \<open>The arguments of a call up to the comma that is missing.\<close>

lemma py_read_short: "length (snd (py_read jparse m s)) \<le> length s"
  by (rule py_read_length[OF py_read_total[THEN spec]])

lemma py_read_short': "(v, r) = py_read jparse m s \<Longrightarrow> length r \<le> length s"
  using py_read_short by (metis snd_conv)

lemma py_ident_le': "(k, r) = py_ident s \<Longrightarrow> length r \<le> length s"
  using py_ident_length by (metis snd_conv)

function read_args :: "(string \<Rightarrow> 'n json option) \<Rightarrow> (string \<times> 'n json) list \<Rightarrow> string \<Rightarrow> (string \<times> 'n json) list option \<times> string" where
  "read_args jparse args s =
     (case py_ident s of
        (k, r) \<Rightarrow>
          if k = [] then (None, r)
          else
            (case py_eat (CHR ''='') r of
               (False, r1) \<Rightarrow> (None, r1)
             | (True, r1) \<Rightarrow>
                 (case py_read jparse Py_value r1 of
                    (None, r2) \<Rightarrow> (None, r2)
                  | (Some v, r2) \<Rightarrow>
                      (case py_eat (CHR '','') r2 of
                         (True, r3) \<Rightarrow> read_args jparse (map_put k v args) r3
                       | (False, r3) \<Rightarrow> (Some (map_put k v args), r3)))))"
  by pat_completeness auto
termination
  by (relation "measure (\<lambda>(jparse, args, s). length s)") (auto dest!: py_ident_le' py_eat_le' py_read_short')

declare read_args.simps [simp del]

lemma read_args_short: "length (snd (read_args jparse args s)) \<le> length s"
proof (induction jparse args s rule: read_args.induct)
  case (1 jparse args s)
  obtain k r where k: "py_ident s = (k, r)" by fastforce
  obtain ok r1 where e1: "py_eat (CHR ''='') r = (ok, r1)" by fastforce
  obtain v r2 where v: "py_read jparse Py_value r1 = (v, r2)" by fastforce
  obtain ok3 r3 where e3: "py_eat (CHR '','') r2 = (ok3, r3)" by fastforce
  have "length r \<le> length s" "length r2 \<le> length r1" using py_ident_length[of s] py_read_short[of jparse Py_value r1] k v by simp_all
  moreover have "k \<noteq> [] \<Longrightarrow> ok \<Longrightarrow> v = Some e \<Longrightarrow> ok3 \<Longrightarrow> length (snd (read_args jparse (map_put k e args) r3)) \<le> length r3" for e
    using 1 k e1 v e3 by auto
  ultimately show ?case
    using py_eat_le[OF e1] py_eat_le[OF e3] by (subst read_args.simps) (auto simp: k e1 v e3 split: option.splits bool.splits)
qed

lemma read_args_short': "(a, r) = read_args jparse args s \<Longrightarrow> length r \<le> length s"
  using read_args_short by (metis snd_conv)

text \<open>One call: its name, then its arguments in parentheses.\<close>

definition read_call_py :: "(string \<Rightarrow> 'n json option) \<Rightarrow> ('n json \<Rightarrow> string) \<Rightarrow> string \<Rightarrow> parsed_call option \<times> string" where
  "read_call_py jparse jdump s =
     (case py_ident s of
        (name, r) \<Rightarrow>
          if name = [] then (None, r)
          else
            (case py_eat (CHR ''('') r of
               (False, r1) \<Rightarrow> (None, r1)
             | (True, r1) \<Rightarrow>
                 (case py_eat (CHR '')'') r1 of
                    (True, r2) \<Rightarrow> (Some \<lparr>pc_name = name, pc_arguments = jdump (Json_obj [])\<rparr>, r2)
                  | (False, r2) \<Rightarrow>
                      (case read_args jparse [] r2 of
                         (None, r3) \<Rightarrow> (None, r3)
                       | (Some args, r3) \<Rightarrow>
                           (case py_eat (CHR '')'') r3 of
                              (ok, r4) \<Rightarrow> (if ok then Some \<lparr>pc_name = name, pc_arguments = jdump (Json_obj args)\<rparr> else None, r4))))))"

lemma read_call_py_short: "(c, r) = read_call_py jparse jdump s \<Longrightarrow> length r \<le> length s"
  by (auto simp: read_call_py_def dest!: py_ident_le'[OF sym] py_eat_le read_args_short'[OF sym] split: prod.splits if_splits bool.splits option.splits)

text \<open>\<open>calls\<close> pushes what it reads also when it fails later; its result does not matter to the caller.\<close>

function read_calls :: "(string \<Rightarrow> 'n json option) \<Rightarrow> ('n json \<Rightarrow> string) \<Rightarrow> parsed_call list \<Rightarrow> string \<Rightarrow> bool \<times> parsed_call list \<times> string" where
  "read_calls jparse jdump out s =
     (case read_call_py jparse jdump s of
        (None, r) \<Rightarrow> (False, out, r)
      | (Some c, r) \<Rightarrow>
          (case py_eat (CHR '','') r of
             (True, r1) \<Rightarrow> read_calls jparse jdump (out @ [c]) r1
           | (False, r1) \<Rightarrow> (case py_eat (CHR '']'') r1 of (ok, r2) \<Rightarrow> (ok, out @ [c], r2))))"
  by pat_completeness auto
termination
  by (relation "measure (\<lambda>(jparse, jdump, out, s). length s)") (auto dest!: py_eat_le' read_call_py_short)

declare read_calls.simps [simp del]

definition py_calls :: "(string \<Rightarrow> 'n json option) \<Rightarrow> ('n json \<Rightarrow> string) \<Rightarrow> string \<Rightarrow> bool \<times> parsed_call list \<times> string" where
  "py_calls jparse jdump s =
     (case py_eat (CHR ''['') s of
        (False, r) \<Rightarrow> (False, [], r)
      | (True, r) \<Rightarrow> (case py_eat (CHR '']'') r of (True, r1) \<Rightarrow> (True, [], r1) | (False, r1) \<Rightarrow> read_calls jparse jdump [] r1))"

definition LFM2_OPEN :: string where "LFM2_OPEN = ''<|tool_call_start|>''"
definition LFM2_CLOSE :: string where "LFM2_CLOSE = ''<|tool_call_end|>''"

definition lfm2_block :: "(string \<Rightarrow> 'n json option) \<Rightarrow> ('n json \<Rightarrow> string) \<Rightarrow> string \<Rightarrow> parsed_call list option" where
  "lfm2_block jparse jdump block =
     (case py_calls jparse jdump block of
        (ok, got, r) \<Rightarrow> if got \<noteq> [] \<and> (if ok then py_ws r else r) = [] then Some got else None)"

function lfm2_blocks :: "(string \<Rightarrow> 'n json option) \<Rightarrow> ('n json \<Rightarrow> string) \<Rightarrow> string \<Rightarrow> nat \<Rightarrow> string \<Rightarrow> parsed_call list \<Rightarrow> string \<times> parsed_call list" where
  "lfm2_blocks jparse jdump txt pos out calls =
     (case str_find txt LFM2_OPEN pos of
        None \<Rightarrow> (out @ drop pos txt, calls)
      | Some a \<Rightarrow>
          (case str_find txt LFM2_CLOSE a of
             None \<Rightarrow> (out @ drop pos txt, calls)
           | Some b \<Rightarrow>
               let out1 = out @ substr txt pos (a - pos) in
               (case lfm2_block jparse jdump (substr txt (a + 19) (b - a - 19)) of
                  None \<Rightarrow> lfm2_blocks jparse jdump txt (b + 17) (out1 @ substr txt a (b + 17 - a)) calls
                | Some got \<Rightarrow> lfm2_blocks jparse jdump txt (b + 17) out1 (calls @ got))))"
  by pat_completeness auto
termination
  by (relation "measure (\<lambda>(jparse, jdump, txt, pos, out, calls). length txt + 17 - pos)")
    (auto dest!: str_find_bounds simp: LFM2_OPEN_def LFM2_CLOSE_def)

declare lfm2_blocks.simps [simp del]

definition parse_tool_calls_lfm2 :: "(string \<Rightarrow> 'n json option) \<Rightarrow> ('n json \<Rightarrow> string) \<Rightarrow> string \<Rightarrow> string \<times> parsed_call list" where
  "parse_tool_calls_lfm2 jparse jdump txt =
     (let scan = (case str_rfind txt THINK_CLOSE of None \<Rightarrow> 0 | Some p \<Rightarrow> p + 8)
      in case lfm2_blocks jparse jdump txt scan (take scan txt) [] of (out, calls) \<Rightarrow> (trim_tail out, calls))"


subsection \<open>Reading what the template writes\<close>

definition plain_string :: "string \<Rightarrow> bool" where
  "plain_string s \<longleftrightarrow> CHR 0x27 \<notin> set s \<and> CHR 0x5C \<notin> set s"

definition word_ok :: "string \<Rightarrow> bool" where
  "word_ok t \<longleftrightarrow> t \<noteq> [] \<and> list_all ident_char t"

fun py_ok :: "(string \<Rightarrow> 'n json option) \<Rightarrow> ('n json \<Rightarrow> string) \<Rightarrow> 'n json \<Rightarrow> bool" where
  "py_ok jparse jdump (Json_str s) = plain_string s"
| "py_ok jparse jdump (Json_num n) =
     (word_ok (jdump (Json_num n)) \<and> py_word jparse (jdump (Json_num n)) = Some (Json_num n))"
| "py_ok jparse jdump (Json_arr xs) = (\<forall>x \<in> set xs. py_ok jparse jdump x)"
| "py_ok jparse jdump (Json_obj kvs) = (ordered kvs \<and> (\<forall>kv \<in> set kvs. plain_string (fst kv) \<and> py_ok jparse jdump (snd kv)))"
| "py_ok jparse jdump (Json_bool b) = True"
| "py_ok jparse jdump Json_null = True"

definition stops :: "string \<Rightarrow> bool" where
  "stops r \<longleftrightarrow> r = [] \<or> \<not> ident_char (hd r)"

lemma ident_not_ws: "ident_char c \<Longrightarrow> \<not> chat_ws c \<and> \<not> is_quote c \<and> c \<notin> set ''[]{}()=,:''"
  by (auto simp: ident_char_def isalnum_def chat_ws_def is_quote_def Let_def)

lemma py_ws_simps [simp]: "py_ws [] = []" "py_ws (CHR '' '' # s) = py_ws s" "\<not> chat_ws c \<Longrightarrow> py_ws (c # s) = c # s"
  by (simp_all add: py_ws_def chat_ws_def)

lemma py_eat_hit: "\<not> chat_ws c \<Longrightarrow> py_eat c (c # s) = (True, s)"
  by (simp add: py_eat_def)

lemma py_eat_miss: "\<not> chat_ws d \<Longrightarrow> d \<noteq> c \<Longrightarrow> py_eat c (d # s) = (False, d # s)"
  by (simp add: py_eat_def)

lemma py_ident_word: "word_ok k \<Longrightarrow> stops r \<Longrightarrow> py_ident (k @ r) = (k, r)"
proof -
  assume k: "word_ok k" and r: "stops r"
  obtain c k' where c: "k = c # k'" "ident_char c" using k by (cases k) (auto simp: word_ok_def)
  have "takeWhile ident_char (k @ r) = k" "dropWhile ident_char (k @ r) = r"
    using k r by (auto simp: word_ok_def list_all_iff stops_def takeWhile_eq_Nil_iff dropWhile_eq_self_iff)
  then show ?thesis using c ident_not_ws[OF c(2)] by (simp add: py_ident_def)
qed

lemma py_ident_ws: "py_ident (CHR '' '' # s) = py_ident s"
  by (simp add: py_ident_def)

lemma py_read_ws: "py_read jparse Py_value (CHR '' '' # s) = py_read jparse Py_value s"
  by (subst (1 2) py_read.simps) simp

lemma py_items_ws: "py_read jparse (Py_items xs) (CHR '' '' # s) = py_read jparse (Py_items xs) s"
  by (subst (1 2) py_read.simps) (simp add: py_read_ws)

lemma py_entries_ws: "py_read jparse (Py_entries kvs) (CHR '' '' # s) = py_read jparse (Py_entries kvs) s"
  by (subst (1 2) py_read.simps) (simp add: py_read_ws)

lemma str_body_plain: "plain_string s \<Longrightarrow> str_body (CHR 0x27) (s @ CHR 0x27 # r) out = (out @ s, CHR 0x27 # r)"
  by (induction s arbitrary: out) (auto simp: plain_string_def)

lemma read_plain: "plain_string s \<Longrightarrow> py_read jparse Py_value (QUOTE @ s @ QUOTE @ r) = (Some (Json_str s), r)"
  by (subst py_read.simps) (simp add: QUOTE_def chat_ws_def is_quote_def py_str_def str_body_plain py_eat_hit)

lemma read_word:
  assumes "word_ok t" "py_word jparse t = Some v" "stops r"
  shows "py_read jparse Py_value (t @ r) = (Some v, r)"
proof -
  obtain c t' where c: "t = c # t'" "ident_char c" using assms(1) by (cases t) (auto simp: word_ok_def)
  note n = ident_not_ws[OF c(2)]
  have "py_ident (c # t' @ r) = (t, r)" using py_ident_word[OF assms(1,3)] by (simp add: c)
  then show ?thesis using n assms(2) by (subst py_read.simps) (simp add: c)
qed

lemma literal_start: "py_ok jparse jdump v \<Longrightarrow> \<exists>c t. py_literal jdump False v = c # t \<and> \<not> chat_ws c \<and> c \<noteq> CHR '']'' \<and> c \<noteq> CHR ''}''"
proof (cases v)
  case (Json_num n)
  assume "py_ok jparse jdump v"
  then obtain c t where "jdump v = c # t" "ident_char c" by (cases "jdump v") (auto simp: Json_num word_ok_def)
  then show ?thesis using ident_not_ws[of c] by (auto simp: Json_num)
qed (auto simp: QUOTE_def chat_ws_def)

lemma read_items:
  assumes "xs \<noteq> []" "\<And>x r. x \<in> set xs \<Longrightarrow> stops r \<Longrightarrow> py_read jparse Py_value (f x @ r) = (Some x, r)"
  shows "py_read jparse (Py_items acc) (comma_list (map f xs) @ CHR '']'' # r) = (Some (Json_arr (acc @ xs)), r)"
  using assms
proof (induction xs arbitrary: acc)
  case (Cons x xs)
  have s: "stops (CHR '']'' # r)" "stops (CHR '','' # r')" for r' by (auto simp: stops_def ident_char_def isalnum_def)
  show ?case
  proof (cases xs)
    case Nil
    have "py_read jparse Py_value (f x @ CHR '']'' # r) = (Some x, CHR '']'' # r)" using Cons.prems(2) s by simp
    then show ?thesis by (subst py_read.simps) (simp add: Nil py_eat_miss py_eat_hit chat_ws_def)
  next
    case (Cons y ys)
    let ?rest = "comma_list (map f xs) @ CHR '']'' # r"
    have "py_read jparse Py_value (f x @ CHR '','' # CHR '' '' # ?rest) = (Some x, CHR '','' # CHR '' '' # ?rest)" using Cons.prems(2) s by simp
    moreover have "comma_list (map f (x # xs)) @ CHR '']'' # r = f x @ CHR '','' # CHR '' '' # ?rest" by (simp add: Cons)
    moreover have "py_read jparse (Py_items (acc @ [x])) ?rest = (Some (Json_arr ((acc @ [x]) @ xs)), r)"
      by (rule Cons.IH) (use Cons Cons.prems in auto)
    ultimately show ?thesis by (subst py_read.simps) (simp add: py_eat_hit chat_ws_def py_items_ws)
  qed
qed simp


definition entry_text :: "('n json \<Rightarrow> string) \<Rightarrow> string \<times> 'n json \<Rightarrow> string" where
  "entry_text f kv = QUOTE @ fst kv @ QUOTE @ '': '' @ f (snd kv)"

lemma read_entries:
  assumes "kvs \<noteq> []" "\<And>kv. kv \<in> set kvs \<Longrightarrow> plain_string (fst kv)"
    "\<And>kv r. kv \<in> set kvs \<Longrightarrow> stops r \<Longrightarrow> py_read jparse Py_value (f (snd kv) @ r) = (Some (snd kv), r)"
  shows "py_read jparse (Py_entries acc) (comma_list (map (entry_text f) kvs) @ CHR ''}'' # r) =
    (Some (Json_obj (fold (\<lambda>(k, v) m. map_put k v m) kvs acc)), r)"
  using assms
proof (induction kvs arbitrary: acc)
  case (Cons kv kvs)
  obtain k v where kv: "kv = (k, v)" by fastforce
  have s: "stops (CHR ''}'' # r)" "stops (CHR '','' # r')" for r' by (auto simp: stops_def ident_char_def isalnum_def)
  have key: "py_read jparse Py_value (QUOTE @ k @ QUOTE @ r') = (Some (Json_str k), r')" for r'
    by (rule read_plain) (use Cons.prems(2)[of kv] kv in simp)
  have val: "stops r' \<Longrightarrow> py_read jparse Py_value (CHR '' '' # f v @ r') = (Some v, r')" for r'
    using Cons.prems(3)[of kv r'] by (simp add: kv py_read_ws)
  show ?case
  proof (cases kvs)
    case Nil
    have "comma_list (map (entry_text f) [kv]) @ CHR ''}'' # r = QUOTE @ k @ QUOTE @ CHR '':'' # CHR '' '' # f v @ CHR ''}'' # r"
      by (simp add: entry_text_def kv)
    then show ?thesis
      by (subst py_read.simps) (simp add: Nil key val s py_eat_miss py_eat_hit chat_ws_def kv)
  next
    case (Cons kv' kvs')
    let ?rest = "comma_list (map (entry_text f) kvs) @ CHR ''}'' # r"
    have "comma_list (map (entry_text f) (kv # kvs)) @ CHR ''}'' # r = QUOTE @ k @ QUOTE @ CHR '':'' # CHR '' '' # f v @ CHR '','' # CHR '' '' # ?rest"
      by (simp add: entry_text_def kv Cons)
    moreover have "py_read jparse (Py_entries (map_put k v acc)) ?rest = (Some (Json_obj (fold (\<lambda>(k, v) m. map_put k v m) kvs (map_put k v acc))), r)"
      by (rule Cons.IH) (use Cons Cons.prems in auto)
    ultimately show ?thesis
      by (subst py_read.simps) (simp add: key val s py_eat_hit chat_ws_def py_entries_ws kv)
  qed
qed simp

lemma comma_list_Cons: "xs \<noteq> [] \<Longrightarrow> \<exists>s. comma_list xs = hd xs @ s"
  by (cases xs; cases "tl xs") auto

text \<open>The reader inverts the printing of literals.\<close>

lemma read_literal: "py_ok jparse jdump v \<Longrightarrow> stops r \<Longrightarrow> py_read jparse Py_value (py_literal jdump False v @ r) = (Some v, r)"
proof (induction v arbitrary: r)
  case (Json_str s)
  then show ?case using read_plain[of s jparse r] by simp
next
  case (Json_num n)
  then show ?case using read_word[of "jdump (Json_num n)" jparse "Json_num n" r] by simp
next
  case (Json_bool b)
  then show ?case
    using read_word[of "if b then ''True'' else ''False''" jparse "Json_bool b" r]
    by (auto simp: word_ok_def ident_char_def isalnum_def py_word_def)
next
  case Json_null
  then show ?case using read_word[of "''None''" jparse Json_null r] by (auto simp: word_ok_def ident_char_def isalnum_def py_word_def)
next
  case (Json_arr xs)
  show ?case
  proof (cases "xs = []")
    case True
    then show ?thesis by (subst py_read.simps) (simp add: chat_ws_def is_quote_def py_eat_hit)
  next
    case False
    let ?t = "comma_list (map (py_literal jdump False) xs) @ CHR '']'' # r"
    have "py_read jparse (Py_items []) ?t = (Some (Json_arr ([] @ xs)), r)"
      by (rule read_items[OF False]) (use Json_arr in auto)
    moreover obtain c t where c: "?t = c # t" "\<not> chat_ws c" "c \<noteq> CHR '']''"
    proof -
      have "py_ok jparse jdump (hd xs)" using Json_arr.prems(1) False by simp
      then obtain c t where "py_literal jdump False (hd xs) = c # t" "\<not> chat_ws c" "c \<noteq> CHR '']''" using literal_start by blast
      moreover obtain s where "comma_list (map (py_literal jdump False) xs) = hd (map (py_literal jdump False) xs) @ s"
        using comma_list_Cons[of "map (py_literal jdump False) xs"] False by auto
      ultimately show ?thesis using that[of c "t @ s @ CHR '']'' # r"] False by (simp add: hd_map)
    qed
    ultimately show ?thesis
      by (subst py_read.simps) (simp add: chat_ws_def is_quote_def py_eat_miss)
  qed
next
  case (Json_obj kvs)
  show ?case
  proof (cases "kvs = []")
    case True
    then show ?thesis by (subst py_read.simps) (simp add: chat_ws_def is_quote_def py_eat_hit)
  next
    case False
    let ?t = "comma_list (map (entry_text (py_literal jdump False)) kvs) @ CHR ''}'' # r"
    have "py_read jparse (Py_entries []) ?t = (Some (Json_obj (fold (\<lambda>(k, v) m. map_put k v m) kvs [])), r)"
      by (rule read_entries[OF False]) (use Json_obj in \<open>auto simp: snds.simps\<close>)
    moreover have "fold (\<lambda>(k, v) m. map_put k v m) kvs [] = kvs" using fold_map_put[of "[]" kvs] Json_obj.prems(1) by simp
    moreover obtain t where c: "?t = CHR 0x27 # t"
      using comma_list_Cons[of "map (entry_text (py_literal jdump False)) kvs"] False by (auto simp: entry_text_def QUOTE_def hd_map)
    moreover have "py_literal jdump False (Json_obj kvs) @ r = CHR ''{'' # ?t" by (simp add: entry_text_def[abs_def])
    ultimately show ?thesis
      by (subst py_read.simps) (simp add: chat_ws_def is_quote_def py_eat_miss)
  qed
qed


definition arg_text :: "('n json \<Rightarrow> string) \<Rightarrow> string \<times> 'n json \<Rightarrow> string" where
  "arg_text jdump kv = fst kv @ ''='' @ py_literal jdump True (snd kv)"

definition py_call_text :: "('n json \<Rightarrow> string) \<Rightarrow> string \<times> (string \<times> 'n json) list \<Rightarrow> string" where
  "py_call_text jdump c = fst c @ ''('' @ comma_list (map (arg_text jdump) (snd c)) @ '')''"

lemma lfm2_calls_text: "lfm2_calls (map (render_call jdump) cs) = ''['' @ comma_list (map (py_call_text jdump) cs) @ '']''"
proof -
  have a: "literal_args (render_call jdump c) = map (arg_text jdump) (snd c)" for c
    by (rule nth_equalityI) (auto simp: literal_args_def render_call_def tool_call_of_def arg_text_def split: prod.splits)
  have "tc_name (render_call jdump c) = fst c" for c by (simp add: render_call_def tool_call_of_def split: prod.splits)
  then show ?thesis by (simp add: lfm2_calls_def py_call_text_def[abs_def] a comp_def)
qed

definition py_arg_ok :: "(string \<Rightarrow> 'n json option) \<Rightarrow> ('n json \<Rightarrow> string) \<Rightarrow> string \<times> 'n json \<Rightarrow> bool" where
  "py_arg_ok jparse jdump kv \<longleftrightarrow> word_ok (fst kv) \<and> py_ok jparse jdump (snd kv) \<and> \<not> is_obj (snd kv)"

definition py_call_ok :: "(string \<Rightarrow> 'n json option) \<Rightarrow> ('n json \<Rightarrow> string) \<Rightarrow> string \<times> (string \<times> 'n json) list \<Rightarrow> bool" where
  "py_call_ok jparse jdump c \<longleftrightarrow> word_ok (fst c) \<and> ordered (snd c) \<and> list_all (py_arg_ok jparse jdump) (snd c)"

lemma stops_special: "c \<in> set ''[]{}()=,:'' \<Longrightarrow> stops (c # r)"
  using ident_not_ws[of c] by (auto simp: stops_def)

lemma read_arg: "py_arg_ok jparse jdump (k, v) \<Longrightarrow> stops r \<Longrightarrow> py_read jparse Py_value (py_literal jdump True v @ r) = (Some v, r)"
  using read_literal[of jparse jdump v r] by (cases v) (simp_all add: py_arg_ok_def)

lemma read_args_ws: "read_args jparse acc (CHR '' '' # s) = read_args jparse acc s"
  by (subst (1 2) read_args.simps) (simp add: py_ident_ws)

lemma read_args_text:
  "args \<noteq> [] \<Longrightarrow> list_all (py_arg_ok jparse jdump) args \<Longrightarrow>
   read_args jparse acc (comma_list (map (arg_text jdump) args) @ CHR '')'' # r) = (Some (fold (\<lambda>(k, v) m. map_put k v m) args acc), CHR '')'' # r)"
proof (induction args arbitrary: acc)
  case (Cons kv args)
  obtain k v where kv: "kv = (k, v)" by fastforce
  have ok: "py_arg_ok jparse jdump (k, v)" "word_ok k" using Cons.prems(2) by (auto simp: kv py_arg_ok_def)
  have ident: "py_ident (k @ CHR ''='' # r') = (k, CHR ''='' # r')" for r' by (rule py_ident_word[OF ok(2)]) (simp add: stops_special)
  have ne: "k \<noteq> []" using ok(2) by (simp add: word_ok_def)
  have val: "py_read jparse Py_value (py_literal jdump True v @ c # r') = (Some v, c # r')" if "c \<in> set ''[]{}()=,:''" for c r'
    by (rule read_arg[OF ok(1) stops_special[OF that]])
  show ?case
  proof (cases args)
    case Nil
    have "comma_list (map (arg_text jdump) [kv]) @ CHR '')'' # r = k @ CHR ''='' # py_literal jdump True v @ CHR '')'' # r"
      by (simp add: arg_text_def kv)
    then show ?thesis
      by (subst read_args.simps) (simp add: Nil ident ne val py_eat_hit py_eat_miss chat_ws_def kv)
  next
    case (Cons kv' args')
    let ?rest = "comma_list (map (arg_text jdump) args) @ CHR '')'' # r"
    have "comma_list (map (arg_text jdump) (kv # args)) @ CHR '')'' # r = k @ CHR ''='' # py_literal jdump True v @ CHR '','' # CHR '' '' # ?rest"
      by (simp add: arg_text_def kv Cons)
    moreover have "read_args jparse (map_put k v acc) ?rest = (Some (fold (\<lambda>(k, v) m. map_put k v m) args (map_put k v acc)), CHR '')'' # r)"
      by (rule Cons.IH) (use Cons Cons.prems in auto)
    ultimately show ?thesis
      by (subst read_args.simps) (simp add: ident ne val py_eat_hit chat_ws_def read_args_ws kv)
  qed
qed simp

definition parsed :: "('n json \<Rightarrow> string) \<Rightarrow> string \<times> (string \<times> 'n json) list \<Rightarrow> parsed_call" where
  "parsed jdump c = \<lparr>pc_name = fst c, pc_arguments = jdump (Json_obj (snd c))\<rparr>"

lemma word_start: "word_ok k \<Longrightarrow> \<exists>c t. k = c # t \<and> ident_char c"
  by (cases k) (auto simp: word_ok_def)

lemma read_call_text:
  assumes "py_call_ok jparse jdump c"
  shows "read_call_py jparse jdump (py_call_text jdump c @ r) = (Some (parsed jdump c), r)"
proof -
  obtain name args where c: "c = (name, args)" by fastforce
  have ok: "word_ok name" "ordered args" "list_all (py_arg_ok jparse jdump) args" using assms by (auto simp: py_call_ok_def c)
  have ident: "py_ident (name @ CHR ''('' # r') = (name, CHR ''('' # r')" for r' by (rule py_ident_word[OF ok(1)]) (simp add: stops_special)
  have ne: "name \<noteq> []" using ok(1) by (simp add: word_ok_def)
  show ?thesis
  proof (cases "args = []")
    case True
    then show ?thesis by (simp add: py_call_text_def c read_call_py_def ident ne py_eat_hit chat_ws_def parsed_def)
  next
    case False
    let ?t = "comma_list (map (arg_text jdump) args) @ CHR '')'' # r"
    have "word_ok (fst (hd args))" using ok(3) False by (cases args) (auto simp: py_arg_ok_def)
    then obtain d t' where d: "fst (hd args) = d # t'" "ident_char d" using word_start by blast
    obtain s where "comma_list (map (arg_text jdump) args) = hd (map (arg_text jdump) args) @ s"
      using comma_list_Cons[of "map (arg_text jdump) args"] False by auto
    then obtain t where "?t = d # t" using d False by (auto simp: arg_text_def hd_map)
    then have "py_eat (CHR '')'') ?t = (False, ?t)" using ident_not_ws[OF d(2)] py_eat_miss[of d "CHR '')''" t] by auto
    then show ?thesis
      using read_args_text[OF False ok(3), of "[]" r] fold_map_put[of "[]" args] ok(2)
      by (simp add: py_call_text_def c read_call_py_def ident ne py_eat_hit chat_ws_def parsed_def)
  qed
qed

lemma read_call_ws: "read_call_py jparse jdump (CHR '' '' # s) = read_call_py jparse jdump s"
  by (simp add: read_call_py_def py_ident_ws)

lemma read_calls_ws: "read_calls jparse jdump out (CHR '' '' # s) = read_calls jparse jdump out s"
  by (subst (1 2) read_calls.simps) (simp add: read_call_ws)

lemma read_calls_text:
  "cs \<noteq> [] \<Longrightarrow> list_all (py_call_ok jparse jdump) cs \<Longrightarrow>
   read_calls jparse jdump out (comma_list (map (py_call_text jdump) cs) @ '']'') = (True, out @ map (parsed jdump) cs, [])"
proof (induction cs arbitrary: out)
  case (Cons c cs)
  have c: "read_call_py jparse jdump (py_call_text jdump c @ r) = (Some (parsed jdump c), r)" for r
    by (rule read_call_text) (use Cons.prems in simp)
  show ?case
  proof (cases cs)
    case Nil
    then show ?thesis by (subst read_calls.simps) (simp add: c py_eat_miss py_eat_hit chat_ws_def)
  next
    case (Cons c' cs')
    let ?rest = "comma_list (map (py_call_text jdump) cs) @ '']''"
    have "comma_list (map (py_call_text jdump) (c # cs)) @ '']'' = py_call_text jdump c @ CHR '','' # CHR '' '' # ?rest" by (simp add: Cons)
    moreover have "read_calls jparse jdump (out @ [parsed jdump c]) ?rest = (True, (out @ [parsed jdump c]) @ map (parsed jdump) cs, [])"
      by (rule Cons.IH) (use Cons Cons.prems in auto)
    ultimately show ?thesis by (subst read_calls.simps) (simp add: c py_eat_hit chat_ws_def read_calls_ws)
  qed
qed simp

lemma lfm2_block_text:
  assumes "cs \<noteq> []" "list_all (py_call_ok jparse jdump) cs"
  shows "lfm2_block jparse jdump (lfm2_calls (map (render_call jdump) cs)) = Some (map (parsed jdump) cs)"
proof -
  let ?t = "comma_list (map (py_call_text jdump) cs) @ '']''"
  have "word_ok (fst (hd cs))" using assms by (cases cs) (auto simp: py_call_ok_def)
  then obtain d t' where d: "fst (hd cs) = d # t'" "ident_char d" using word_start by blast
  obtain s where "comma_list (map (py_call_text jdump) cs) = hd (map (py_call_text jdump) cs) @ s"
    using comma_list_Cons[of "map (py_call_text jdump) cs"] assms(1) by auto
  then obtain t where "?t = d # t" using d assms(1) by (auto simp: py_call_text_def hd_map)
  then have "py_eat (CHR '']'') ?t = (False, ?t)" using ident_not_ws[OF d(2)] py_eat_miss[of d "CHR '']''" t] by auto
  moreover have "py_eat (CHR ''['') (lfm2_calls (map (render_call jdump) cs)) = (True, ?t)"
    unfolding lfm2_calls_text by (simp add: py_eat_hit chat_ws_def)
  ultimately have "py_calls jparse jdump (lfm2_calls (map (render_call jdump) cs)) = (True, map (parsed jdump) cs, [])"
    using read_calls_text[OF assms, of "[]"] by (simp add: py_calls_def)
  then show ?thesis using assms(1) by (simp add: lfm2_block_def)
qed


text \<open>Text that holds no marker, nor the beginning of one at its end.\<close>

definition unmarked :: "string \<Rightarrow> bool" where
  "unmarked c \<longleftrightarrow> clear LFM2_OPEN c \<and> clear THINK_CLOSE c"

lemma clear_head:
  assumes "c \<notin> set y" "\<And>w. \<not> prefix p (y @ w)" shows "clear (c # p) (c # y)"
  unfolding clear_def
proof (intro allI impI)
  fix i w assume i: "i < length (c # y)"
  show "\<not> prefix (c # p) (drop i (c # y) @ w)"
    using assms(2)[of w] clear_start[OF assms(1), of p] i by (cases i) (auto simp: clear_def)
qed

lemma parse_lfm2_rendered:
  assumes ld: "reply_lead pre" and c: "unmarked content" and cs: "cs \<noteq> []" "list_all (py_call_ok jparse jdump) cs"
    and m: "\<not> sublist LFM2_CLOSE (lfm2_calls (map (render_call jdump) cs))" "\<not> sublist THINK_CLOSE (lfm2_calls (map (render_call jdump) cs))"
  shows "parse_tool_calls_lfm2 jparse jdump (pre @ content @ LFM2_OPEN @ lfm2_calls (map (render_call jdump) cs) @ LFM2_CLOSE) =
    (trim_tail (pre @ content), map (parsed jdump) cs)"
proof -
  let ?T = "lfm2_calls (map (render_call jdump) cs)"
  let ?body = "content @ LFM2_OPEN @ ?T @ LFM2_CLOSE"
  obtain x where x: "?T = x @ [CHR '']'']" by (simp add: lfm2_calls_text)
  have T: "clear tag ?T" if "\<not> sublist tag ?T" "CHR '']'' \<notin> set tag" "tag \<noteq> []" for tag
  proof -
    have "\<not> sublist tag x" using that(1) unfolding x by (metis sublist_appendI append_assoc append_Nil sublist_def)
    then show ?thesis unfolding x by (rule clear_line[OF _ that(2,3)])
  qed
  have close: "clear LFM2_CLOSE ?T" by (rule T[OF m(1)]) (simp_all add: LFM2_CLOSE_def)
  have tag: "clear (CHR ''<'' # CHR ''/'' # p) (CHR ''<'' # CHR ''|'' # y)" if "CHR ''<'' \<notin> set y" for p y
    by (rule clear_tag) (use that in auto)
  have "clear THINK_CLOSE LFM2_OPEN" "clear THINK_CLOSE LFM2_CLOSE"
    unfolding THINK_CLOSE_def LFM2_OPEN_def LFM2_CLOSE_def by (intro tag; simp)+
  moreover have "clear THINK_CLOSE ?T" by (rule T[OF m(2)]) (simp_all add: THINK_CLOSE_def)
  ultimately have body: "clear THINK_CLOSE ?body" using c by (auto simp: unmarked_def intro!: clear_append)
  have main: "parse_tool_calls_lfm2 jparse jdump (u @ g @ ?body) = (trim_tail (u @ g @ content), map (parsed jdump) cs)"
    if g: "clear LFM2_OPEN g" and scan: "(case str_rfind (u @ g @ ?body) THINK_CLOSE of None \<Rightarrow> 0 | Some p \<Rightarrow> p + 8) = length u" for u g
  proof -
    let ?t = "u @ g @ ?body" and ?a = "length u + length (g @ content)"
    have a: "str_find ?t LFM2_OPEN (length u) = Some ?a"
      using str_find_skip[OF clear_append[OF g, of content], of u "?T @ LFM2_CLOSE"] c by (simp add: unmarked_def)
    have "clear LFM2_CLOSE LFM2_OPEN" unfolding LFM2_CLOSE_def LFM2_OPEN_def by (rule clear_head) simp_all
    then have b: "str_find ?t LFM2_CLOSE ?a = Some (?a + length (LFM2_OPEN @ ?T))"
      using str_find_skip[OF clear_append[OF _ close], of LFM2_OPEN "u @ g @ content" "[]"] by simp
    have block: "substr ?t (?a + 19) (?a + length (LFM2_OPEN @ ?T) - ?a - 19) = ?T"
      by (simp add: substr_def LFM2_OPEN_def)
    have before: "substr ?t (length u) (?a - length u) = g @ content" by (simp add: substr_def)
    have e: "?a + length (LFM2_OPEN @ ?T) + 17 = length ?t" by (simp add: LFM2_CLOSE_def)
    have rest: "lfm2_blocks jparse jdump ?t (length ?t) out calls = (out, calls)" for out calls
    proof -
      have "str_find (?t @ []) LFM2_OPEN (length ?t) = None" by (rule str_find_clear) (simp_all add: LFM2_OPEN_def)
      then show ?thesis by (subst lfm2_blocks.simps) simp
    qed
    have "lfm2_blocks jparse jdump ?t (length u) u [] = (u @ g @ content, map (parsed jdump) cs)"
      by (subst lfm2_blocks.simps) (simp only: a b option.case Let_def block lfm2_block_text[OF cs] before e rest append_Nil)
    moreover have "take (length u) ?t = u" by simp
    ultimately show ?thesis unfolding parse_tool_calls_lfm2_def scan Let_def by (simp only: prod.case)
  qed
  obtain u g where "pre = u @ g" "CHR ''<'' \<notin> set g" "(case str_rfind (u @ g @ ?body) THINK_CLOSE of None \<Rightarrow> 0 | Some p \<Rightarrow> p + 8) = length u"
    using scan_lead[OF ld body] .
  then show ?thesis using main[of g u] by (simp add: LFM2_OPEN_def clear_start)
qed

text \<open>
  C14. Under conditions on its contents, the server also reads back, for lfm2 models, the text the template writes for an
  assistant's turn: the recursive-descent reader inverts the printing of the calls, lists and the dictionaries in
  them nested to any depth. The conditions are: names are made of the characters of identifiers and numbers; strings have
  no single quote and no backslash; no argument is itself an object (that is written as JSON); a number is printed in
  characters of identifiers, so without a plus sign, and read back by the JSON parser; keys are in the order of the JSON
  library's map; the content and the calls have none of the markers that delimit calls and reasoning.
\<close>

theorem lfm2_call_roundtrip:
  assumes "reply_lead pre" "unmarked content" "calls \<noteq> []" "list_all (py_call_ok jparse jdump) calls"
    "\<not> sublist LFM2_CLOSE (lfm2_calls (map (render_call jdump) calls))" "\<not> sublist THINK_CLOSE (lfm2_calls (map (render_call jdump) calls))"
  shows "parse_tool_calls_lfm2 jparse jdump (pre @ content @ LFM2_OPEN @ lfm2_calls (map (render_call jdump) calls) @ LFM2_CLOSE) =
    (trim_tail (pre @ content), map (\<lambda>(name, args). \<lparr>pc_name = name, pc_arguments = jdump (Json_obj args)\<rparr>) calls)"
proof -
  have "parsed jdump = (\<lambda>(name, args). \<lparr>pc_name = name, pc_arguments = jdump (Json_obj args)\<rparr>)" by (auto simp: parsed_def)
  then show ?thesis using parse_lfm2_rendered[OF assms] by simp
qed

text \<open>A list of calls that breaks off after a complete call is accepted with the calls before the break.\<close>

lemma lfm2_truncated: "lfm2_block demo_parse demo_dump ''[f(),g('' = Some [\<lparr>pc_name = ''f'', pc_arguments = []\<rparr>]"
  by code_simp

subsection \<open>An instance\<close>

definition py_demo_args :: "(string \<times> unit json) list" where
  "py_demo_args = [(''opts'', Json_arr [Json_bool True, Json_null, Json_obj [(''depth'', Json_str ''one, two'')]]), (''path'', Json_str ''true'')]"

theorem lfm2_call_roundtrip_witness:
  "parse_tool_calls_lfm2 demo_parse demo_dump
     ([] @ ''Here:'' @ LFM2_OPEN @ lfm2_calls (map (render_call demo_dump) [(''ls'', py_demo_args), (''pwd'', [])]) @ LFM2_CLOSE) =
   (''Here:'', [\<lparr>pc_name = ''ls'', pc_arguments = ''optspath''\<rparr>, \<lparr>pc_name = ''pwd'', pc_arguments = []\<rparr>])"
proof -
  have u: "unmarked ''Here:''" by (simp add: unmarked_def LFM2_OPEN_def THINK_CLOSE_def clear_start)
  have c: "list_all (py_call_ok demo_parse demo_dump) [(''ls'', py_demo_args), (''pwd'', [])]" by code_simp
  have m: "\<not> sublist LFM2_CLOSE (lfm2_calls (map (render_call demo_dump) [(''ls'', py_demo_args), (''pwd'', [])]))"
    "\<not> sublist THINK_CLOSE (lfm2_calls (map (render_call demo_dump) [(''ls'', py_demo_args), (''pwd'', [])]))" by code_simp+
  have "trim_tail ([] @ ''Here:'') = ''Here:''" "demo_dump (Json_obj py_demo_args) = ''optspath''" "demo_dump (Json_obj []) = []" by code_simp+
  then show ?thesis
    using lfm2_call_roundtrip[OF lead_none u, of "[(''ls'', py_demo_args), (''pwd'', [])]" demo_parse demo_dump, OF _ c m] by simp
qed

end
